(* ===== verification/Prelude.thy ===== *)
theory Prelude
  imports Main "HOL-Library.Word" "HOL-Library.Code_Target_Numeral"
begin

unbundle bit_operations_syntax

text \<open>
  Shared vocabulary of the development: bytes and machine integers, the result type of a
  fallible Rust function, checked indexing and slicing, fixed-width integers on the wire,
  blocking reads from a byte stream, and the interface of an incremental frame decoder.
\<close>

named_theorems wire \<open>lengths, bounds and round trips of wire encodings\<close>

section \<open>Machine integers\<close>

type_synonym byte = "8 word"
type_synonym bytes = "8 word list"
type_synonym u8 = "8 word"
type_synonym u16 = "16 word"
type_synonym u32 = "32 word"
type_synonym u64 = "64 word"
type_synonym u128 = "128 word"

section \<open>Results, panics and checked slices\<close>

text \<open>
  A Rust function that returns \<open>Result\<close> may return \<open>Ok\<close>, return \<open>Err\<close>, or panic (an index out
  of range). The three outcomes are kept apart, so that the absence of panics is a theorem.
\<close>

datatype 'e fault = Panic | Fail 'e

type_synonym ('e, 'a) res = "'e fault + 'a"

abbreviation Ok :: "'a \<Rightarrow> ('e, 'a) res" where
  "Ok x \<equiv> Inr x"

abbreviation Err :: "'e \<Rightarrow> ('e, 'a) res" where
  "Err e \<equiv> Inl (Fail e)"

definition rbind :: "'f + 'a \<Rightarrow> ('a \<Rightarrow> 'f + 'b) \<Rightarrow> 'f + 'b" where
  "rbind r f = (case r of Inl e \<Rightarrow> Inl e | Inr x \<Rightarrow> f x)"

lemma rbind_simps [simp]:
  "rbind (Inl e) f = Inl e"
  "rbind (Inr x) f = f x"
  by (simp_all add: rbind_def)

lemma rbind_Inr_iff: "rbind r f = Inr y \<longleftrightarrow> (\<exists>x. r = Inr x \<and> f x = Inr y)"
  by (cases r) simp_all

lemma rbind_Panic_iff:
  "rbind r f = Inl Panic \<longleftrightarrow> r = Inl Panic \<or> (\<exists>x. r = Inr x \<and> f x = Inl Panic)"
  by (cases r) auto

text \<open>
  Every value a computation may return satisfies a predicate; \<open>intro: branches\<close> follows the
  computation's branches.
\<close>

definition results :: "('a \<Rightarrow> bool) \<Rightarrow> ('e, 'a) res \<Rightarrow> bool" where
  "results P r \<longleftrightarrow> (\<forall>x. r = Ok x \<longrightarrow> P x)"

named_theorems branches \<open>rules that follow the branches of a fallible computation\<close>

lemma results_Inl [branches]: "results P (Inl e)"
  and results_Ok [branches]: "P x \<Longrightarrow> results P (Ok x)"
  and results_if [branches]: "(b \<Longrightarrow> results P r) \<Longrightarrow> (\<not> b \<Longrightarrow> results P r') \<Longrightarrow> results P (if b then r else r')"
  and results_rbind [branches]: "(\<And>x. r0 = Inr x \<Longrightarrow> results P (f x)) \<Longrightarrow> results P (rbind r0 f)"
  and results_prod [branches]: "(\<And>a b. y = (a, b) \<Longrightarrow> results P (g a b)) \<Longrightarrow> results P (case y of (a, b) \<Rightarrow> g a b)"
  and resultsD: "results P r \<Longrightarrow> r = Ok x \<Longrightarrow> P x"
  by (auto simp: results_def rbind_Inr_iff split: prod.splits)

definition guard_or :: "bool \<Rightarrow> 'e \<Rightarrow> ('e, unit) res" where
  "guard_or b e = (if b then Ok () else Err e)"

definition from_option :: "'e \<Rightarrow> 'a option \<Rightarrow> ('e, 'a) res" where
  "from_option e x = (case x of None \<Rightarrow> Err e | Some y \<Rightarrow> Ok y)"

lemma from_option_simps [simp]:
  "from_option e None = Err e"
  "from_option e (Some x) = Ok x"
  by (simp_all add: from_option_def)

definition idx :: "'a list \<Rightarrow> nat \<Rightarrow> ('e, 'a) res" where
  "idx xs i = (if i < length xs then Ok (xs ! i) else Inl Panic)"

definition slice_of :: "'a list \<Rightarrow> nat \<Rightarrow> nat \<Rightarrow> ('e, 'a list) res" where
  "slice_of xs a b = (if a \<le> b \<and> b \<le> length xs then Ok (take (b - a) (drop a xs)) else Inl Panic)"

lemma idx_in [simp]: "Suc i \<le> length xs \<Longrightarrow> idx xs i = Ok (xs ! i)"
  by (simp add: idx_def)

lemma idx_out [simp]: "length xs \<le> i \<Longrightarrow> idx xs i = Inl Panic"
  by (simp add: idx_def)

lemma slice_in [simp]: "a \<le> b \<Longrightarrow> b \<le> length xs \<Longrightarrow> slice_of xs a b = Ok (take (b - a) (drop a xs))"
  by (simp add: slice_of_def)

lemma drop_plus: "drop (n + m) xs = drop m (drop n xs)"
  by (simp add: add.commute)

text \<open>\<open>iter().find(..)\<close> after \<open>iter().filter(..)\<close>: the first element that passes both tests.\<close>

lemma find_filter: "find P (filter Q xs) = find (\<lambda>x. Q x \<and> P x) xs"
  by (induction xs) auto

lemma find_eq_Some_iff:
  "find P xs = Some r \<longleftrightarrow> (\<exists>pre post. xs = pre @ r # post \<and> P r \<and> (\<forall>q \<in> set pre. \<not> P q))"
proof
  assume "find P xs = Some r"
  then show "\<exists>pre post. xs = pre @ r # post \<and> P r \<and> (\<forall>q \<in> set pre. \<not> P q)"
  proof (induction xs)
    case Nil
    then show ?case by simp
  next
    case (Cons x xs)
    show ?case
    proof (cases "P x")
      case True
      then show ?thesis using Cons.prems by (intro exI [of _ "[]"] exI [of _ xs]) simp
    next
      case False
      then obtain pre post where "xs = pre @ r # post" "P r" "\<forall>q \<in> set pre. \<not> P q"
        using Cons by auto
      then show ?thesis using False by (intro exI [of _ "x # pre"] exI [of _ post]) simp
    qed
  qed
next
  have "find P (pre @ r # post) = Some r" if "P r" "\<forall>q \<in> set pre. \<not> P q" for pre post
    using that by (induction pre) auto
  then show "find P xs = Some r"
    if "\<exists>pre post. xs = pre @ r # post \<and> P r \<and> (\<forall>q \<in> set pre. \<not> P q)" using that by blast
qed

section \<open>Digits and integers on the wire\<close>

text \<open>The \<open>n\<close> digits of \<open>v\<close> in base \<open>B\<close>, the most significant first.\<close>

primrec digits_be :: "nat \<Rightarrow> nat \<Rightarrow> nat \<Rightarrow> nat list" where
  "digits_be B 0 v = []"
| "digits_be B (Suc n) v = digits_be B n (v div B) @ [v mod B]"

definition undigits :: "nat \<Rightarrow> nat list \<Rightarrow> nat" where
  "undigits B ds = foldl (\<lambda>a d. B * a + d) 0 ds"

lemma length_digits_be [simp]: "length (digits_be B n v) = n"
  by (induction n arbitrary: v) simp_all

lemma digits_be_bound: "0 < B \<Longrightarrow> d \<in> set (digits_be B n v) \<Longrightarrow> d < B"
  by (induction n arbitrary: v) auto

lemma undigits_Nil [simp]: "undigits B [] = 0"
  by (simp add: undigits_def)

lemma undigits_snoc [simp]: "undigits B (ds @ [d]) = B * undigits B ds + d"
  by (simp add: undigits_def)

lemma undigits_digits_be: "undigits B (digits_be B n v) = v mod B ^ n"
proof (induction n arbitrary: v)
  case 0
  then show ?case by simp
next
  case (Suc n)
  have "v mod (B * B ^ n) = B * (v div B mod B ^ n) + v mod B"
    by (simp add: mod_mult2_eq)
  then show ?case using Suc by simp
qed

lemma digits_be_undigits:
  assumes "\<forall>d \<in> set ds. d < B"
  shows "digits_be B (length ds) (undigits B ds) = ds"
  using assms
proof (induction ds rule: rev_induct)
  case Nil
  then show ?case by simp
next
  case (snoc d ds)
  then have "d < B" by simp
  then show ?case using snoc by simp
qed

lemma undigits_bound:
  assumes "\<forall>d \<in> set ds. d < B"
  shows "undigits B ds < B ^ length ds"
  using assms
proof (induction ds rule: rev_induct)
  case Nil
  then show ?case by simp
next
  case (snoc d ds)
  then have d: "d < B" and "Suc (undigits B ds) \<le> B ^ length ds" by auto
  then have "B * Suc (undigits B ds) \<le> B * B ^ length ds"
    by (intro mult_le_mono2)
  with d show ?case by simp
qed

lemma undigits_Cons: "undigits B (d # ds) = d * B ^ length ds + undigits B ds"
proof (induction ds rule: rev_induct)
  case (snoc x xs)
  have "undigits B (d # xs @ [x]) = B * undigits B (d # xs) + x"
    using undigits_snoc [of B "d # xs" x] by simp
  then show ?case using snoc by (simp add: algebra_simps)
qed (simp add: undigits_def)

definition be_nat :: "bytes \<Rightarrow> nat" where
  "be_nat bs = undigits 256 (map unat bs)"

definition to_be :: "nat \<Rightarrow> nat \<Rightarrow> bytes" where
  "to_be n v = map of_nat (digits_be 256 n v)"

lemma unat_byte_bound [simp]: "unat (b :: byte) < 256"
  using unsigned_less [of b] by simp

lemma unat_byte_le [simp]: "unat (b :: byte) \<le> 255"
  using unat_byte_bound [of b] by linarith

lemma list_of_four: "length xs = 4 \<Longrightarrow> \<exists>a b c d. xs = [a, b, c, d]"
  by (auto simp: length_Suc_conv eval_nat_numeral)

lemma list_of_five: "length xs = 5 \<Longrightarrow> \<exists>a b c d e. xs = [a, b, c, d, e]"
  by (auto simp: length_Suc_conv eval_nat_numeral)

lemma length_to_be [simp]: "length (to_be n v) = n"
  by (simp add: to_be_def)

lemma unat_of_nat_digits: "map (unat \<circ> (of_nat :: nat \<Rightarrow> byte)) (digits_be 256 n v) = digits_be 256 n v"
proof (rule map_idI)
  fix d assume "d \<in> set (digits_be 256 n v)"
  then have "d < 256" by (rule digits_be_bound [rotated]) simp
  then show "(unat \<circ> (of_nat :: nat \<Rightarrow> byte)) d = d"
    by (simp add: unat_of_nat)
qed

lemma be_nat_to_be [wire]: "be_nat (to_be n v) = v mod 256 ^ n"
  by (simp add: be_nat_def to_be_def unat_of_nat_digits undigits_digits_be)

lemma be_nat_to_be_small [wire]: "v < 256 ^ n \<Longrightarrow> be_nat (to_be n v) = v"
  by (simp add: be_nat_to_be)

lemma to_be_be_nat [wire]: "to_be (length bs) (be_nat bs) = bs"
proof -
  have "digits_be 256 (length bs) (be_nat bs) = map unat bs"
    using digits_be_undigits [of "map unat bs" 256] by (simp add: be_nat_def)
  then show ?thesis by (simp add: to_be_def comp_def)
qed

lemma be_nat_Cons: "be_nat (b # bs) = unat b * 256 ^ length bs + be_nat bs"
  by (simp add: be_nat_def undigits_Cons)

lemma be_nat_bound [wire]: "be_nat bs < 256 ^ length bs"
  using undigits_bound [of "map unat bs" 256] by (simp add: be_nat_def)

text \<open>\<open>u16::from_be_bytes([a, b])\<close>, read as a number.\<close>

definition be16 :: "byte \<Rightarrow> byte \<Rightarrow> nat" where
  "be16 a b = 256 * unat a + unat b"

lemma be16_be_nat: "be16 a b = be_nat [a, b]"
  by (simp add: be16_def be_nat_def undigits_def)

lemma be16_bound: "be16 a b < 65536"
  using unat_byte_bound [of a] unat_byte_bound [of b] unfolding be16_def by linarith

lemma list_of_two: "length xs = 2 \<Longrightarrow> [xs ! 0, xs ! Suc 0] = xs"
  by (cases xs; cases "tl xs") auto

lemma be16_to_be [wire]: "be16 (to_be 2 v ! 0) (to_be 2 v ! Suc 0) = v mod 65536"
  using be_nat_to_be [of 2 v] by (simp add: be16_be_nat list_of_two)

text \<open>\<open>u16::to_be_bytes\<close> and \<open>u16::from_be_bytes\<close> at the type of the field.\<close>

definition u16_to_be :: "u16 \<Rightarrow> bytes" where
  "u16_to_be w = to_be 2 (unat w)"

definition u16_from_be :: "byte \<Rightarrow> byte \<Rightarrow> u16" where
  "u16_from_be a b = of_nat (be16 a b)"

lemma unat_u16_from_be: "unat (u16_from_be a b) = be16 a b"
  using be16_bound [of a b] by (simp add: u16_from_be_def unat_of_nat)

lemma length_u16_to_be [simp]: "length (u16_to_be w) = 2"
  by (simp add: u16_to_be_def)

lemma unat_u16_bound [simp]: "unat (w :: u16) < 65536"
  using unsigned_less [of w] by simp

lemma u16_from_be_to_be [simp]:
  "u16_from_be (u16_to_be w ! 0) (u16_to_be w ! Suc 0) = w"
  by (simp add: u16_to_be_def u16_from_be_def be16_to_be)

lemma u16_to_be_from_be [simp]: "u16_to_be (u16_from_be a b) = [a, b]"
proof -
  have "unat (of_nat (be16 a b) :: u16) = be16 a b"
    using be16_bound [of a b] by (simp add: unat_of_nat)
  then have "u16_to_be (u16_from_be a b) = to_be (length [a, b]) (be_nat [a, b])"
    by (simp add: u16_to_be_def u16_from_be_def be16_be_nat numeral_2_eq_2)
  then show ?thesis by (simp only: to_be_be_nat)
qed

section \<open>Blocking reads\<close>

text \<open>
  A stream is the list of bytes the peer still sends before it closes the connection.
  \<open>read_exact\<close> fails with end-of-file when fewer bytes are left.
\<close>

definition read_exact :: "'e \<Rightarrow> nat \<Rightarrow> bytes \<Rightarrow> ('e, bytes \<times> bytes) res" where
  "read_exact eof n s = (if length s < n then Err eof else Ok (take n s, drop n s))"

lemma read_exact_append [simp]: "length xs = n \<Longrightarrow> read_exact eof n (xs @ s) = Ok (xs, s)"
  by (simp add: read_exact_def)

lemma read_exact_Ok_iff:
  "read_exact eof n s = Ok (xs, r) \<longleftrightarrow> length xs = n \<and> s = xs @ r"
  by (auto simp: read_exact_def)

lemma read_exact_no_panic [simp]: "read_exact eof n s \<noteq> Inl Panic"
  by (simp add: read_exact_def)

section \<open>Incremental frame decoders\<close>

text \<open>
  Several protocols of the kernel keep a buffer of undecoded bytes, append what arrives and take
  whole frames off the front until none is complete. \<open>take_frame\<close> takes one frame (with the
  outputs it produces), \<open>drain\<close> is the loop. The laws: a frame consumes at least one byte, and
  a frame that is complete does not depend on the bytes behind it.
\<close>

text \<open>The bytes arrive in reads; each read is appended to what the last one left.\<close>

fun feed_all :: "('a list \<Rightarrow> 'o list \<times> 'a list) \<Rightarrow> 'a list \<Rightarrow> 'a list list \<Rightarrow> 'o list \<times> 'a list" where
  "feed_all drain p [] = ([], p)"
| "feed_all drain p (c # cs) =
    (case drain (p @ c) of (outs, p') \<Rightarrow>
      (case feed_all drain p' cs of (outs', p'') \<Rightarrow> (outs @ outs', p'')))"

locale frame_decoder =
  fixes take_frame :: "'a list \<Rightarrow> ('o list \<times> 'a list) option"
    and drain :: "'a list \<Rightarrow> 'o list \<times> 'a list"
  assumes take_shrinks: "take_frame b = Some (out, r) \<Longrightarrow> length r < length b"
    and take_local: "take_frame b = Some (out, r) \<Longrightarrow> take_frame (b @ d) = Some (out, r @ d)"
    and drain_eq: "drain b = (case take_frame b of None \<Rightarrow> ([], b)
          | Some (out, r) \<Rightarrow> (case drain r of (outs, p) \<Rightarrow> (out @ outs, p)))"
begin

lemma drain_stuck: "take_frame b = None \<Longrightarrow> drain b = ([], b)"
  by (subst drain_eq) simp

lemma drain_rest_stuck: "take_frame (snd (drain b)) = None"
proof (induction b rule: length_induct)
  case (1 b)
  show ?case
  proof (cases "take_frame b")
    case None
    then show ?thesis by (simp add: drain_stuck)
  next
    case (Some f)
    then obtain out r where f: "take_frame b = Some (out, r)" by (cases f) auto
    then have "take_frame (snd (drain r)) = None"
      using 1 take_shrinks by blast
    then show ?thesis by (subst drain_eq) (auto simp: f split: prod.splits)
  qed
qed

text \<open>Decoding does not depend on how the bytes were cut into reads.\<close>

lemma drain_append:
  "drain (b @ d) = (case drain b of (outs, p) \<Rightarrow>
     (case drain (p @ d) of (outs', p') \<Rightarrow> (outs @ outs', p')))"
proof (induction b rule: length_induct)
  case (1 b)
  show ?case
  proof (cases "take_frame b")
    case None
    then show ?thesis by (simp add: drain_stuck split: prod.splits)
  next
    case (Some f)
    then obtain out r where f: "take_frame b = Some (out, r)" by (cases f) auto
    have IH: "drain (r @ d) = (case drain r of (outs, p) \<Rightarrow>
       (case drain (p @ d) of (outs', p') \<Rightarrow> (outs @ outs', p')))"
      using 1 take_shrinks [OF f] by blast
    have "drain (b @ d) = (case drain (r @ d) of (outs, p) \<Rightarrow> (out @ outs, p))"
      by (subst drain_eq) (simp add: take_local [OF f])
    also have "\<dots> = (case drain b of (outs, p) \<Rightarrow>
       (case drain (p @ d) of (outs', p') \<Rightarrow> (outs @ outs', p')))"
      unfolding IH by (subst drain_eq [of b]) (simp add: f split: prod.splits)
    finally show ?thesis .
  qed
qed

lemma feed_concat: "take_frame p = None \<Longrightarrow> feed_all drain p cs = drain (p @ concat cs)"
proof (induction cs arbitrary: p)
  case Nil
  then show ?case by (simp add: drain_stuck)
next
  case (Cons c cs)
  obtain outs p' where d: "drain (p @ c) = (outs, p')" by (cases "drain (p @ c)")
  then have "feed_all drain p' cs = drain (p' @ concat cs)"
    using Cons.IH drain_rest_stuck [of "p @ c"] by simp
  then show ?case using d drain_append [of "p @ c" "concat cs"] by simp
qed

text \<open>Frames that decode in front of anything come out in order, however they were cut.\<close>

lemma drain_frames:
  assumes "\<forall>(f, out) \<in> set fs. \<forall>r. take_frame (f @ r) = Some (out, r)" "take_frame r = None"
  shows "drain (concat (map fst fs) @ r) = (concat (map snd fs), r)"
  using assms(1)
proof (induction fs)
  case Nil
  then show ?case using assms(2) by (simp add: drain_stuck)
next
  case (Cons x fs)
  obtain f out where x: "x = (f, out)" by (cases x)
  have "take_frame (f @ concat (map fst fs) @ r) = Some (out, concat (map fst fs) @ r)"
    using Cons.prems x by simp
  then show ?case using Cons x by (subst drain_eq) simp
qed

lemma feed_frames:
  assumes "\<forall>(f, out) \<in> set fs. \<forall>r. take_frame (f @ r) = Some (out, r)" "take_frame [] = None"
    and "concat cs = concat (map fst fs)"
  shows "feed_all drain [] cs = (concat (map snd fs), [])"
  using feed_concat [OF assms(2)] drain_frames [OF assms(1,2)] assms(3) by simp

end

end
