(* ===== verification/Rust_Text.thy ===== *)
theory Rust_Text
  imports Prelude "HOL-Library.Sublist"
begin

text \<open>
  The part of Rust's \<open>str\<close> the kernel uses. A \<open>String\<close> is its list of UTF-8 bytes, kept as
  \<open>string\<close> (a \<open>char\<close> is one byte); \<open>from_utf8\<close> is the only way from bytes to text and checks
  that the bytes are well-formed UTF-8.
\<close>

section \<open>Text and bytes\<close>

definition as_bytes :: "string \<Rightarrow> bytes" where
  "as_bytes s = map (\<lambda>c. of_nat (of_char c)) s"

definition text_of :: "bytes \<Rightarrow> string" where
  "text_of bs = map (\<lambda>b. char_of (unat b)) bs"

definition utf8_cont :: "byte \<Rightarrow> bool" where
  "utf8_cont b \<longleftrightarrow> 0x80 \<le> b \<and> b \<le> 0xBF"

fun utf8_valid :: "bytes \<Rightarrow> bool" where
  "utf8_valid [] = True"
| "utf8_valid (b # bs) =
    (if b < 0x80 then utf8_valid bs
     else if 0xC2 \<le> b \<and> b \<le> 0xDF then
       (case bs of c # r \<Rightarrow> utf8_cont c \<and> utf8_valid r | _ \<Rightarrow> False)
     else if 0xE0 \<le> b \<and> b \<le> 0xEF then
       (case bs of c # d # r \<Rightarrow>
          utf8_cont c \<and> (b = 0xE0 \<longrightarrow> 0xA0 \<le> c) \<and> (b = 0xED \<longrightarrow> c \<le> 0x9F)
          \<and> utf8_cont d \<and> utf8_valid r
        | _ \<Rightarrow> False)
     else if 0xF0 \<le> b \<and> b \<le> 0xF4 then
       (case bs of c # d # e # r \<Rightarrow>
          utf8_cont c \<and> (b = 0xF0 \<longrightarrow> 0x90 \<le> c) \<and> (b = 0xF4 \<longrightarrow> c \<le> 0x8F)
          \<and> utf8_cont d \<and> utf8_cont e \<and> utf8_valid r
        | _ \<Rightarrow> False)
     else False)"

definition from_utf8 :: "bytes \<Rightarrow> string option" where
  "from_utf8 bs = (if utf8_valid bs then Some (text_of bs) else None)"

lemma of_char_bound [simp]: "(of_char c :: nat) < 256"
  using of_char_mod_256 [of c, where 'a = nat] by (metis mod_less_divisor zero_less_numeral)

lemma text_of_as_bytes [simp]: "text_of (as_bytes s) = s"
proof -
  have "char_of (unat (of_nat (of_char c) :: byte)) = c" for c :: char
    by (simp add: unat_of_nat)
  then show ?thesis by (simp add: text_of_def as_bytes_def map_idI)
qed

lemma as_bytes_text_of [simp]: "as_bytes (text_of bs) = bs"
proof -
  have "of_nat (of_char (char_of (unat b) :: char)) = b" for b :: byte
    by simp
  then show ?thesis by (simp add: text_of_def as_bytes_def map_idI)
qed

lemma length_as_bytes [simp]: "length (as_bytes s) = length s"
  by (simp add: as_bytes_def)

lemma length_text_of [simp]: "length (text_of bs) = length bs"
  by (simp add: text_of_def)

lemma from_utf8_as_bytes [simp]: "utf8_valid (as_bytes s) \<Longrightarrow> from_utf8 (as_bytes s) = Some s"
  by (simp add: from_utf8_def)

lemma from_utf8_Some_iff: "from_utf8 bs = Some s \<longleftrightarrow> utf8_valid bs \<and> as_bytes s = bs"
  by (auto simp: from_utf8_def)

lemma utf8_valid_ascii:
  assumes "\<forall>b \<in> set bs. b < 0x80"
  shows "utf8_valid bs"
  using assms by (induction bs) auto

section \<open>ASCII case\<close>

definition lower_char :: "char \<Rightarrow> char" where
  "lower_char c = (let n = of_char c :: nat in if 65 \<le> n \<and> n \<le> 90 then char_of (n + 32) else c)"

definition to_ascii_lowercase :: "string \<Rightarrow> string" where
  "to_ascii_lowercase s = map lower_char s"

definition eq_ignore_ascii_case :: "string \<Rightarrow> string \<Rightarrow> bool" where
  "eq_ignore_ascii_case a b \<longleftrightarrow> to_ascii_lowercase a = to_ascii_lowercase b"

lemma lower_char_idem [simp]: "lower_char (lower_char c) = lower_char c"
  by (auto simp: lower_char_def Let_def)

lemma to_ascii_lowercase_idem [simp]:
  "to_ascii_lowercase (to_ascii_lowercase s) = to_ascii_lowercase s"
  by (simp add: to_ascii_lowercase_def)

lemma to_ascii_lowercase_append:
  "to_ascii_lowercase (a @ b) = to_ascii_lowercase a @ to_ascii_lowercase b"
  by (simp add: to_ascii_lowercase_def)

section \<open>Searching and splitting\<close>

definition starts_with :: "'a list \<Rightarrow> 'a list \<Rightarrow> bool" where
  "starts_with s p \<longleftrightarrow> take (length p) s = p"

definition ends_with :: "'a list \<Rightarrow> 'a list \<Rightarrow> bool" where
  "ends_with s p \<longleftrightarrow> length p \<le> length s \<and> drop (length s - length p) s = p"

fun str_contains :: "'a list \<Rightarrow> 'a list \<Rightarrow> bool" where
  "str_contains [] p = (p = [])"
| "str_contains (c # s) p = (starts_with (c # s) p \<or> str_contains s p)"

definition strip_prefix :: "'a list \<Rightarrow> 'a list \<Rightarrow> 'a list option" where
  "strip_prefix p s = (if starts_with s p then Some (drop (length p) s) else None)"

primrec split_once :: "'a \<Rightarrow> 'a list \<Rightarrow> ('a list \<times> 'a list) option" where
  "split_once c [] = None"
| "split_once c (x # s) = (if x = c then Some ([], s)
     else map_option (\<lambda>(a, b). (x # a, b)) (split_once c s))"

primrec rsplit_once :: "'a \<Rightarrow> 'a list \<Rightarrow> ('a list \<times> 'a list) option" where
  "rsplit_once c [] = None"
| "rsplit_once c (x # s) = (case rsplit_once c s of
       Some (a, b) \<Rightarrow> Some (x # a, b)
     | None \<Rightarrow> if x = c then Some ([], s) else None)"

definition str_trim_end_matches :: "'a \<Rightarrow> 'a list \<Rightarrow> 'a list" where
  "str_trim_end_matches c s = rev (dropWhile (\<lambda>x. x = c) (rev s))"

definition str_trim_start_matches :: "'a \<Rightarrow> 'a list \<Rightarrow> 'a list" where
  "str_trim_start_matches c s = dropWhile (\<lambda>x. x = c) s"

lemma starts_with_prefix: "starts_with s p \<longleftrightarrow> prefix p s"
proof
  assume "starts_with s p"
  then have "s = p @ drop (length p) s"
    unfolding starts_with_def by (metis append_take_drop_id)
  then show "prefix p s" unfolding prefix_def by blast
next
  assume "prefix p s"
  then show "starts_with s p" by (auto simp: starts_with_def prefix_def)
qed

lemma ends_with_suffix: "ends_with s p \<longleftrightarrow> suffix p s"
proof
  assume "ends_with s p"
  then have "s = take (length s - length p) s @ p"
    unfolding ends_with_def by (metis append_take_drop_id)
  then show "suffix p s" unfolding suffix_def by blast
next
  assume "suffix p s"
  then show "ends_with s p" by (auto simp: ends_with_def suffix_def)
qed

lemma str_contains_sublist: "str_contains s p \<longleftrightarrow> sublist p s"
  by (induction s) (auto simp: starts_with_prefix sublist_Cons_right)

lemma split_once_Some_iff:
  "split_once c s = Some (a, b) \<longleftrightarrow> s = a @ c # b \<and> c \<notin> set a"
proof (induction s arbitrary: a)
  case Nil
  then show ?case by simp
next
  case (Cons x s)
  show ?case
  proof (cases a)
    case Nil
    then show ?thesis by (auto split: option.splits)
  next
    case (Cons y ys)
    then show ?thesis using Cons.IH [of ys] by (auto simp: map_option_case split: option.splits)
  qed
qed

lemma split_once_None_iff: "split_once c s = None \<longleftrightarrow> c \<notin> set s"
  by (induction s) auto

lemma rsplit_once_None_iff: "rsplit_once c s = None \<longleftrightarrow> c \<notin> set s"
  by (induction s) (auto split: option.splits if_splits)

lemma rsplit_once_SomeD: "rsplit_once c s = Some (a, b) \<Longrightarrow> s = a @ c # b \<and> c \<notin> set b"
  by (induction s arbitrary: a)
     (auto split: option.splits if_splits simp: rsplit_once_None_iff)

lemma rsplit_once_append: "c \<notin> set b \<Longrightarrow> rsplit_once c (a @ c # b) = Some (a, b)"
  by (induction a) (auto simp: rsplit_once_None_iff [THEN iffD2])

section \<open>Numbers\<close>

definition digit_char :: "nat \<Rightarrow> char" where
  "digit_char d = char_of (if d < 10 then 48 + d else 87 + d)"

text \<open>\<open>char::to_digit\<close>.\<close>

definition to_digit :: "nat \<Rightarrow> char \<Rightarrow> nat option" where
  "to_digit radix c = (let n = of_char c :: nat;
       d = (if 48 \<le> n \<and> n \<le> 57 then n - 48
            else if 97 \<le> n \<and> n \<le> 122 then n - 87
            else if 65 \<le> n \<and> n \<le> 90 then n - 55
            else 36)
     in if d < radix then Some d else None)"

definition is_digit_char :: "nat \<Rightarrow> char \<Rightarrow> bool" where
  "is_digit_char radix c \<longleftrightarrow> to_digit radix c \<noteq> None"

definition digits_value :: "nat \<Rightarrow> string \<Rightarrow> nat" where
  "digits_value radix s = undigits radix (map (the \<circ> to_digit radix) s)"

text \<open>\<open>format!("{n}")\<close> and \<open>format!("{n:x}")\<close>.\<close>

fun show_radix :: "nat \<Rightarrow> nat \<Rightarrow> string" where
  "show_radix B n = (if n < B \<or> B < 2 then [digit_char n]
     else show_radix B (n div B) @ [digit_char (n mod B)])"

declare show_radix.simps [simp del]

definition show_nat :: "nat \<Rightarrow> string" where
  "show_nat n = show_radix 10 n"

text \<open>
  \<open>str::parse\<close> at an unsigned type with largest value \<open>m\<close>: one optional plus sign, at least one
  decimal digit, no overflow.
\<close>

definition parse_unsigned :: "nat \<Rightarrow> string \<Rightarrow> nat option" where
  "parse_unsigned m s = (let ds = (case s of c # r \<Rightarrow> if c = CHR ''+'' then r else s | [] \<Rightarrow> s)
     in if ds \<noteq> [] \<and> list_all (is_digit_char 10) ds \<and> digits_value 10 ds \<le> m
        then Some (digits_value 10 ds) else None)"

definition parse_u8 :: "string \<Rightarrow> nat option" where
  "parse_u8 = parse_unsigned 255"

definition parse_u16 :: "string \<Rightarrow> u16 option" where
  "parse_u16 s = map_option of_nat (parse_unsigned 65535 s)"

lemma of_char_digit_char: "d < 16 \<Longrightarrow> of_char (digit_char d) = (if d < 10 then 48 + d else 87 + d)"
  by (auto simp: digit_char_def)

lemma to_digit_digit_char [simp]: "d < B \<Longrightarrow> B \<le> 16 \<Longrightarrow> to_digit B (digit_char d) = Some d"
  by (auto simp: to_digit_def Let_def of_char_digit_char)

lemma to_digit_bound: "to_digit B c = Some d \<Longrightarrow> d < B"
  by (auto simp: to_digit_def Let_def split: if_splits)

lemma digit_char_to_digit_10: "to_digit 10 c = Some d \<Longrightarrow> digit_char d = c"
  by (auto simp: to_digit_def Let_def digit_char_def split: if_splits)

lemma is_digit_digit_char [simp]: "d < B \<Longrightarrow> B \<le> 16 \<Longrightarrow> is_digit_char B (digit_char d)"
  by (simp add: is_digit_char_def)

lemma digits_value_snoc [simp]:
  "digits_value B (s @ [c]) = B * digits_value B s + the (to_digit B c)"
  by (simp add: digits_value_def)

lemma digits_value_Nil [simp]: "digits_value B [] = 0"
  by (simp add: digits_value_def)

lemma show_radix_nonempty [simp]: "show_radix B n \<noteq> []"
  by (subst show_radix.simps) simp

lemma show_radix_digits: "2 \<le> B \<Longrightarrow> B \<le> 16 \<Longrightarrow> list_all (is_digit_char B) (show_radix B n)"
proof (induction B n rule: show_radix.induct)
  case (1 B n)
  show ?case
  proof (cases "n < B")
    case True
    then show ?thesis using 1 by (subst show_radix.simps) simp
  next
    case False
    then show ?thesis using 1 by (subst show_radix.simps) simp
  qed
qed

lemma digits_value_show_radix: "2 \<le> B \<Longrightarrow> B \<le> 16 \<Longrightarrow> digits_value B (show_radix B n) = n"
proof (induction B n rule: show_radix.induct)
  case (1 B n)
  show ?case
  proof (cases "n < B")
    case True
    then show ?thesis using 1
      by (subst show_radix.simps) (simp add: digits_value_def undigits_def)
  next
    case False
    then show ?thesis using 1 by (subst show_radix.simps) simp
  qed
qed

lemma length_show_radix: "2 \<le> B \<Longrightarrow> n < B ^ k \<Longrightarrow> 0 < k \<Longrightarrow> length (show_radix B n) \<le> k"
proof (induction B n arbitrary: k rule: show_radix.induct)
  case (1 B n)
  show ?case
  proof (cases "n < B")
    case True
    then show ?thesis using 1 by (subst show_radix.simps) simp
  next
    case False
    obtain j where j: "k = Suc j" using 1 by (cases k) auto
    have "0 < j" using 1 False j by (cases j) auto
    moreover have "n div B < B ^ j"
      using 1 j by (simp add: less_mult_imp_div_less mult.commute)
    ultimately have "length (show_radix B (n div B)) \<le> j" using 1 False by auto
    then show ?thesis using False 1 j by (subst show_radix.simps) simp
  qed
qed

text \<open>The first digit of a printed number is zero only for the number zero.\<close>

lemma show_radix_hd: "2 \<le> B \<Longrightarrow> B \<le> 16 \<Longrightarrow> hd (show_radix B n) = CHR ''0'' \<Longrightarrow> n = 0"
proof (induction B n rule: show_radix.induct)
  case (1 B n)
  show ?case
  proof (cases "n < B")
    case True
    then have "digit_char n = CHR ''0''" using 1 by (subst (asm) show_radix.simps) simp
    then have "(of_char (digit_char n) :: nat) = 48" by simp
    then show ?thesis using True 1 by (simp add: of_char_digit_char split: if_splits)
  next
    case False
    then have "hd (show_radix B (n div B)) = CHR ''0''"
      using 1 by (subst (asm) (2) show_radix.simps) simp
    then have "n div B = 0" using 1 False by auto
    then show ?thesis using False 1 by (auto simp: div_eq_0_iff)
  qed
qed

lemma show_nat_nonempty [simp]: "show_nat n \<noteq> []"
  by (simp add: show_nat_def)

lemma show_nat_digits [simp]: "list_all (is_digit_char 10) (show_nat n)"
  by (simp add: show_nat_def show_radix_digits)

lemma digits_value_show_nat [simp]: "digits_value 10 (show_nat n) = n"
  by (simp add: show_nat_def digits_value_show_radix)

lemma show_nat_inj: "show_nat m = show_nat n \<Longrightarrow> m = n"
  by (metis digits_value_show_nat)

lemma hd_digit_no_plus: "list_all (is_digit_char 10) (c # r) \<Longrightarrow> c \<noteq> CHR ''+''"
  by (auto simp: is_digit_char_def to_digit_def)

lemma parse_unsigned_show: "parse_unsigned m (show_nat n) = (if n \<le> m then Some n else None)"
proof -
  obtain c r where cr: "show_nat n = c # r" by (cases "show_nat n") auto
  then have "c \<noteq> CHR ''+''" using show_nat_digits [of n] hd_digit_no_plus [of c r] by simp
  then show ?thesis
    using cr show_nat_digits [of n] digits_value_show_nat [of n]
    by (simp add: parse_unsigned_def)
qed

lemma parse_unsigned_show_nat: "n \<le> m \<Longrightarrow> parse_unsigned m (show_nat n) = Some n"
  by (simp add: parse_unsigned_show)

lemma parse_unsigned_bound: "parse_unsigned m s = Some n \<Longrightarrow> n \<le> m"
  by (auto simp: parse_unsigned_def Let_def split: if_splits)

lemma parse_u16_show [simp]: "parse_u16 (show_nat (unat w)) = Some w"
proof -
  have "unat w \<le> 65535" using unat_u16_bound [of w] by linarith
  then show ?thesis by (simp add: parse_u16_def parse_unsigned_show_nat)
qed

end
