(* ===== verification/Rust_Net.thy ===== *)
theory Rust_Net
  imports Rust_Text
begin

text \<open>
  The part of Rust's \<open>std::net\<close> the kernel uses: IPv4 and IPv6 addresses, their text form
  (parser and printer), the address classes the code asks for, and \<open>SocketAddr\<close>.
  An address is the integer \<open>u32::from\<close> / \<open>u128::from\<close> gives for it.
\<close>

section \<open>Addresses\<close>

datatype ip_addr = V4 u32 | V6 u128

record socket_addr =
  sa_ip :: ip_addr
  sa_port :: u16

definition is_ipv4 :: "ip_addr \<Rightarrow> bool" where
  "is_ipv4 a = (case a of V4 _ \<Rightarrow> True | V6 _ \<Rightarrow> False)"

definition is_ipv6 :: "ip_addr \<Rightarrow> bool" where
  "is_ipv6 a = (case a of V4 _ \<Rightarrow> False | V6 _ \<Rightarrow> True)"

definition ipv4_octets :: "u32 \<Rightarrow> bytes" where
  "ipv4_octets a = to_be 4 (unat a)"

definition ipv6_octets :: "u128 \<Rightarrow> bytes" where
  "ipv6_octets a = to_be 16 (unat a)"

definition ipv4_of_octets :: "bytes \<Rightarrow> u32" where
  "ipv4_of_octets bs = of_nat (be_nat bs)"

definition ipv6_of_octets :: "bytes \<Rightarrow> u128" where
  "ipv6_of_octets bs = of_nat (be_nat bs)"

definition ipv6_segments :: "u128 \<Rightarrow> nat list" where
  "ipv6_segments a = digits_be 65536 8 (unat a)"

definition ipv6_of_segments :: "nat list \<Rightarrow> u128" where
  "ipv6_of_segments gs = of_nat (undigits 65536 gs)"

lemma is_ip_simps [simp]:
  "is_ipv4 (V4 a)" "\<not> is_ipv4 (V6 b)" "is_ipv6 (V6 b)" "\<not> is_ipv6 (V4 a)"
  by (simp_all add: is_ipv4_def is_ipv6_def)

lemma is_ipv6_not_ipv4: "is_ipv6 a \<longleftrightarrow> \<not> is_ipv4 a"
  by (cases a) simp_all

lemma unat_u32_bound [simp]: "unat (w :: u32) < 4294967296"
  using unsigned_less [of w] by simp

lemma unat_u128_bound [simp]: "unat (w :: u128) < 340282366920938463463374607431768211456"
  using unsigned_less [of w] by simp

lemma length_octets [simp]: "length (ipv4_octets a) = 4" "length (ipv6_octets b) = 16"
  by (simp_all add: ipv4_octets_def ipv6_octets_def)

lemma ipv4_of_octets_octets [simp]: "ipv4_of_octets (ipv4_octets a) = a"
  using unat_u32_bound [of a] by (simp add: ipv4_of_octets_def ipv4_octets_def be_nat_to_be_small)

lemma ipv6_of_octets_octets [simp]: "ipv6_of_octets (ipv6_octets a) = a"
  using unat_u128_bound [of a] by (simp add: ipv6_of_octets_def ipv6_octets_def be_nat_to_be_small)

lemma ipv4_octets_of_octets [simp]: "length bs = 4 \<Longrightarrow> ipv4_octets (ipv4_of_octets bs) = bs"
proof -
  assume l: "length bs = 4"
  then have "be_nat bs < 4294967296" using be_nat_bound [of bs] by simp
  then have "unat (of_nat (be_nat bs) :: u32) = be_nat bs" by (simp add: unat_of_nat)
  then show ?thesis using to_be_be_nat [of bs] l by (simp add: ipv4_of_octets_def ipv4_octets_def)
qed

lemma ipv6_octets_of_octets [simp]: "length bs = 16 \<Longrightarrow> ipv6_octets (ipv6_of_octets bs) = bs"
proof -
  assume l: "length bs = 16"
  then have "be_nat bs < 340282366920938463463374607431768211456"
    using be_nat_bound [of bs] by simp
  then have "unat (of_nat (be_nat bs) :: u128) = be_nat bs" by (simp add: unat_of_nat)
  then show ?thesis using to_be_be_nat [of bs] l by (simp add: ipv6_of_octets_def ipv6_octets_def)
qed

lemma length_segments [simp]: "length (ipv6_segments a) = 8"
  by (simp add: ipv6_segments_def)

lemma segments_bound: "g \<in> set (ipv6_segments a) \<Longrightarrow> g < 65536"
  unfolding ipv6_segments_def by (rule digits_be_bound) simp_all

lemma ipv6_of_segments_segments [simp]: "ipv6_of_segments (ipv6_segments a) = a"
  using unat_u128_bound [of a]
  by (simp add: ipv6_of_segments_def ipv6_segments_def undigits_digits_be)

section \<open>Address classes\<close>

definition ipv4_is_unspecified :: "u32 \<Rightarrow> bool" where
  "ipv4_is_unspecified a \<longleftrightarrow> a = 0"

definition ipv4_is_link_local :: "u32 \<Rightarrow> bool" where
  "ipv4_is_link_local a \<longleftrightarrow> take 2 (ipv4_octets a) = [169, 254]"

definition ipv4_is_broadcast :: "u32 \<Rightarrow> bool" where
  "ipv4_is_broadcast a \<longleftrightarrow> a = 0xFFFFFFFF"

definition ipv6_is_unspecified :: "u128 \<Rightarrow> bool" where
  "ipv6_is_unspecified a \<longleftrightarrow> a = 0"

text \<open>\<open>fe80::/10\<close>: the first segment with its low six bits cleared.\<close>

definition ipv6_is_unicast_link_local :: "u128 \<Rightarrow> bool" where
  "ipv6_is_unicast_link_local a \<longleftrightarrow> hd (ipv6_segments a) div 64 * 64 = 0xfe80"

definition ipv6_to_ipv4_mapped :: "u128 \<Rightarrow> u32 option" where
  "ipv6_to_ipv4_mapped a = (let bs = ipv6_octets a in
     if take 12 bs = [0, 0, 0, 0, 0, 0, 0, 0, 0, 0, 0xFF, 0xFF]
     then Some (ipv4_of_octets (drop 12 bs)) else None)"

section \<open>Printing\<close>

fun str_join :: "string \<Rightarrow> string list \<Rightarrow> string" where
  "str_join sep [] = []"
| "str_join sep [x] = x"
| "str_join sep (x # y # xs) = x @ sep @ str_join sep (y # xs)"

definition show_ipv4 :: "u32 \<Rightarrow> string" where
  "show_ipv4 a = str_join ''.'' (map (show_nat \<circ> unat) (ipv4_octets a))"

text \<open>
  The longest run of zero segments, the first among equals, as (start, length): the loop of
  \<open>Ipv6Addr\<close>'s \<open>Display\<close> over (index, current run, longest run).
\<close>

fun zero_run :: "nat list \<Rightarrow> nat \<Rightarrow> nat \<times> nat \<Rightarrow> nat \<times> nat \<Rightarrow> nat \<times> nat" where
  "zero_run [] i cur best = best"
| "zero_run (g # gs) i cur best =
    (if g = 0 then
       (let cur' = (if snd cur = 0 then (i, 1) else (fst cur, Suc (snd cur)));
            best' = (if snd best < snd cur' then cur' else best)
        in zero_run gs (Suc i) cur' best')
     else zero_run gs (Suc i) (0, 0) best)"

definition show_segments :: "nat list \<Rightarrow> string" where
  "show_segments gs = str_join '':'' (map (show_radix 16) gs)"

definition show_ipv6 :: "u128 \<Rightarrow> string" where
  "show_ipv6 a = (case ipv6_to_ipv4_mapped a of
      Some v4 \<Rightarrow> ''::ffff:'' @ show_ipv4 v4
    | None \<Rightarrow> (let gs = ipv6_segments a; (start, len) = zero_run gs 0 (0, 0) (0, 0) in
        if 1 < len
        then show_segments (take start gs) @ ''::'' @ show_segments (drop (start + len) gs)
        else show_segments gs))"

definition show_ip :: "ip_addr \<Rightarrow> string" where
  "show_ip a = (case a of V4 x \<Rightarrow> show_ipv4 x | V6 x \<Rightarrow> show_ipv6 x)"

section \<open>Parsing\<close>

text \<open>A parser takes the text left and returns a value with the text behind it.\<close>

definition read_number :: "nat \<Rightarrow> nat \<Rightarrow> bool \<Rightarrow> nat \<Rightarrow> string \<Rightarrow> (nat \<times> string) option" where
  "read_number radix max_digits allow_zero_prefix limit s =
    (let ds = takeWhile (is_digit_char radix) s in
     if max_digits < length ds \<or> ds = [] then None
     else if \<not> allow_zero_prefix \<and> hd ds = CHR ''0'' \<and> 1 < length ds then None
     else if limit < digits_value radix ds then None
     else Some (digits_value radix ds, drop (length ds) s))"

definition read_separated ::
    "char \<Rightarrow> nat \<Rightarrow> (string \<Rightarrow> ('a \<times> string) option) \<Rightarrow> string \<Rightarrow> ('a \<times> string) option" where
  "read_separated sep i p s =
    (if i = 0 then p s
     else (case s of c # r \<Rightarrow> if c = sep then p r else None | [] \<Rightarrow> None))"

fun read_octets :: "nat \<Rightarrow> nat \<Rightarrow> string \<Rightarrow> (nat list \<times> string) option" where
  "read_octets 0 i s = Some ([], s)"
| "read_octets (Suc k) i s =
    (case read_separated CHR ''.'' i (read_number 10 3 False 255) s of
       None \<Rightarrow> None
     | Some (n, r) \<Rightarrow> map_option (\<lambda>(ns, r'). (n # ns, r')) (read_octets k (Suc i) r))"

definition read_ipv4 :: "string \<Rightarrow> (u32 \<times> string) option" where
  "read_ipv4 s = map_option (\<lambda>(ns, r). (of_nat (undigits 256 ns), r)) (read_octets 4 0 s)"

text \<open>
  Up to \<open>k\<close> groups, the \<open>i\<close>-th next; an embedded IPv4 address ends the list and counts for two
  groups. The flag says whether one was read.
\<close>

fun read_groups :: "nat \<Rightarrow> nat \<Rightarrow> string \<Rightarrow> nat list \<times> bool \<times> string" where
  "read_groups 0 i s = ([], False, s)"
| "read_groups (Suc k) i s =
    (case (if 0 < k then read_separated CHR '':'' i read_ipv4 s else None) of
       Some (a, r) \<Rightarrow> ([unat a div 65536, unat a mod 65536], True, r)
     | None \<Rightarrow>
         (case read_separated CHR '':'' i (read_number 16 4 True 65535) s of
            None \<Rightarrow> ([], False, s)
          | Some (g, r) \<Rightarrow> (case read_groups k (Suc i) r of (gs, v4, r') \<Rightarrow> (g # gs, v4, r'))))"

definition read_ipv6 :: "string \<Rightarrow> (u128 \<times> string) option" where
  "read_ipv6 s = (case read_groups 8 0 s of (head, v4, r) \<Rightarrow>
     if length head = 8 then Some (ipv6_of_segments head, r)
     else if v4 then None
     else if \<not> starts_with r ''::'' then None
     else (case read_groups (8 - (length head + 1)) 0 (drop 2 r) of (tail, _, r') \<Rightarrow>
       Some (ipv6_of_segments
               (head @ replicate (8 - length head - length tail) 0 @ tail), r')))"

definition read_ip :: "string \<Rightarrow> (ip_addr \<times> string) option" where
  "read_ip s = (case read_ipv4 s of
      Some (a, r) \<Rightarrow> Some (V4 a, r)
    | None \<Rightarrow> map_option (\<lambda>(a, r). (V6 a, r)) (read_ipv6 s))"

definition parse_all :: "(string \<Rightarrow> ('a \<times> string) option) \<Rightarrow> string \<Rightarrow> 'a option" where
  "parse_all p s = (case p s of Some (a, []) \<Rightarrow> Some a | _ \<Rightarrow> None)"

definition parse_ipv4 :: "string \<Rightarrow> u32 option" where
  "parse_ipv4 s = (if 15 < length s then None else parse_all read_ipv4 s)"

definition parse_ipv6 :: "string \<Rightarrow> u128 option" where
  "parse_ipv6 = parse_all read_ipv6"

definition parse_ip :: "string \<Rightarrow> ip_addr option" where
  "parse_ip = parse_all read_ip"

lemma parse_all_Some_iff: "parse_all p s = Some a \<longleftrightarrow> p s = Some (a, [])"
  by (auto simp: parse_all_def split: option.splits list.splits prod.splits)

section \<open>Printing and parsing are inverse\<close>

definition stops :: "nat \<Rightarrow> string \<Rightarrow> bool" where
  "stops B r \<longleftrightarrow> (case r of [] \<Rightarrow> True | c # _ \<Rightarrow> \<not> is_digit_char B c)"

lemma stops_simps [simp]: "stops B []" "stops B (c # r) \<longleftrightarrow> \<not> is_digit_char B c"
  by (simp_all add: stops_def)

lemma punctuation_no_digit [simp]:
  "\<not> is_digit_char 10 CHR ''.''" "\<not> is_digit_char 10 CHR '':''" "\<not> is_digit_char 16 CHR '':''"
  "\<not> is_digit_char 16 CHR ''.''"
  by (simp_all add: is_digit_char_def to_digit_def)

lemma stops_dropWhile [simp]: "stops B (dropWhile (is_digit_char B) s)"
  by (induction s) simp_all

lemma digit_char_0 [simp]: "digit_char 0 = CHR ''0''"
  by code_simp

lemma takeWhile_stops: "stops B r \<Longrightarrow> takeWhile (is_digit_char B) r = []"
  by (cases r) simp_all

lemma read_number_show:
  assumes "2 \<le> B" "B \<le> 16" "n \<le> limit" "length (show_radix B n) \<le> m" "stops B r"
  shows "read_number B m az limit (show_radix B n @ r) = Some (n, r)"
proof -
  have all: "list_all (is_digit_char B) (show_radix B n)"
    using assms by (simp add: show_radix_digits)
  then have "takeWhile (is_digit_char B) (show_radix B n @ r)
      = show_radix B n @ takeWhile (is_digit_char B) r"
    by (simp add: list_all_iff)
  then have tw: "takeWhile (is_digit_char B) (show_radix B n @ r) = show_radix B n"
    using assms by (simp add: takeWhile_stops)
  have "length (show_radix B n) = 1" if "hd (show_radix B n) = CHR ''0''"
    using show_radix_hd [OF assms(1,2) that] assms by (subst show_radix.simps) simp
  then show ?thesis
    using assms unfolding read_number_def Let_def tw
    by (auto simp: digits_value_show_radix)
qed

lemma show_nat_digits_value:
  assumes "list_all (is_digit_char 10) ds" "ds \<noteq> []" "hd ds = CHR ''0'' \<longrightarrow> length ds = 1"
  shows "show_nat (digits_value 10 ds) = ds"
  using assms
proof (induction ds rule: rev_induct)
  case Nil
  then show ?case by simp
next
  case (snoc c xs)
  then obtain d where d: "to_digit 10 c = Some d" by (auto simp: is_digit_char_def)
  then have dc: "digit_char d = c" and d10: "d < 10"
    by (simp_all add: digit_char_to_digit_10 to_digit_bound)
  show ?case
  proof (cases "xs = []")
    case True
    then show ?thesis using d dc d10 unfolding show_nat_def
      by (subst show_radix.simps) (simp add: digits_value_def undigits_def)
  next
    case False
    with snoc have hd0: "hd xs \<noteq> CHR ''0''" and IH: "show_nat (digits_value 10 xs) = xs" by auto
    have "digits_value 10 xs \<noteq> 0"
    proof
      assume "digits_value 10 xs = 0"
      then have "xs = show_nat 0" using IH by simp
      then show False using hd0 unfolding show_nat_def
        by (subst (asm) show_radix.simps) simp
    qed
    then show ?thesis using IH d dc d10 unfolding show_nat_def
      by (subst show_radix.simps) simp
  qed
qed

lemma read_number_10_text:
  assumes "read_number 10 3 False 255 s = Some (n, r)"
  shows "s = show_nat n @ r \<and> n \<le> 255 \<and> stops 10 r"
proof -
  let ?ds = "takeWhile (is_digit_char 10) s"
  have n: "n = digits_value 10 ?ds" and r: "r = dropWhile (is_digit_char 10) s" and "n \<le> 255"
    and "?ds \<noteq> []" and "hd ?ds = CHR ''0'' \<longrightarrow> length ?ds = 1"
    using assms by (auto simp: read_number_def Let_def dropWhile_eq_drop split: if_splits
        intro: le_antisym Suc_leI)
  moreover have "list_all (is_digit_char 10) ?ds"
    by (auto simp: list_all_iff dest: set_takeWhileD)
  ultimately have "show_nat n = ?ds" by (simp add: show_nat_digits_value)
  moreover have "stops 10 r" unfolding r by simp
  ultimately show ?thesis using r \<open>n \<le> 255\<close> by simp
qed

lemma str_join_Cons: "str_join sep (x # xs) = x @ concat (map (\<lambda>y. sep @ y) xs)"
  by (induction xs arbitrary: x) simp_all

lemma length_show_nat_255: "n \<le> 255 \<Longrightarrow> length (show_nat n) \<le> 3"
  unfolding show_nat_def by (rule length_show_radix) simp_all

lemma read_octets_text:
  assumes "\<forall>n \<in> set ns. n \<le> 255" "stops 10 r"
  shows "read_octets (length ns) (Suc i) (concat (map (\<lambda>y. CHR ''.'' # show_nat y) ns) @ r)
    = Some (ns, r)"
  using assms
proof (induction ns arbitrary: i)
  case Nil
  then show ?case by simp
next
  case (Cons n ns)
  let ?rest = "concat (map (\<lambda>y. CHR ''.'' # show_nat y) ns) @ r"
  have "stops 10 ?rest" using Cons.prems by (cases ns) simp_all
  then have "read_number 10 3 False 255 (show_nat n @ ?rest) = Some (n, ?rest)"
    using Cons.prems length_show_nat_255 [of n] unfolding show_nat_def
    by (intro read_number_show) simp_all
  then show ?case using Cons by (simp add: read_separated_def)
qed

lemma read_ipv4_show: "stops 10 r \<Longrightarrow> read_ipv4 (show_ipv4 a @ r) = Some (a, r)"
proof -
  assume r: "stops 10 r"
  let ?ns = "map unat (ipv4_octets a)"
  have "length ?ns = 4" by simp
  then obtain n ns where ns: "?ns = n # ns" and l: "length ns = 3"
    by (cases "map unat (ipv4_octets a)") auto
  have b: "\<forall>m \<in> set (n # ns). m \<le> 255"
    unfolding ns [symmetric] by simp
  let ?rest = "concat (map (\<lambda>y. CHR ''.'' # show_nat y) ns) @ r"
  have shown: "show_ipv4 a @ r = show_nat n @ ?rest"
    unfolding show_ipv4_def map_map [symmetric] ns by (simp add: str_join_Cons comp_def)
  have "stops 10 ?rest" using r by (cases ns) simp_all
  then have "read_number 10 3 False 255 (show_nat n @ ?rest) = Some (n, ?rest)"
    using b length_show_nat_255 [of n] unfolding show_nat_def by (intro read_number_show) simp_all
  moreover have "read_octets 3 (Suc 0) ?rest = Some (ns, r)"
    using read_octets_text [of ns r 0] b r l by simp
  ultimately have "read_octets 4 0 (show_ipv4 a @ r) = Some (n # ns, r)"
    unfolding shown by (simp add: read_separated_def eval_nat_numeral)
  moreover have "of_nat (undigits 256 (n # ns)) = a"
    using ipv4_of_octets_octets [of a] unfolding ipv4_of_octets_def be_nat_def ns .
  ultimately show ?thesis by (simp add: read_ipv4_def)
qed

lemma length_show_ipv4: "length (show_ipv4 a) \<le> 15"
proof -
  obtain p q r s where o: "ipv4_octets a = [p, q, r, s]"
    using list_of_four [of "ipv4_octets a"] by auto
  have "length (show_nat (unat b)) \<le> 3" for b :: byte
    by (intro length_show_nat_255) simp
  from this [of p] this [of q] this [of r] this [of s] show ?thesis
    by (simp add: show_ipv4_def o)
qed

lemma parse_ipv4_show [simp]: "parse_ipv4 (show_ipv4 a) = Some a"
  using read_ipv4_show [of "[]" a] length_show_ipv4 [of a]
  by (simp add: parse_ipv4_def parse_all_Some_iff)

lemma parse_ip_show_ipv4 [simp]: "parse_ip (show_ipv4 a) = Some (V4 a)"
  using read_ipv4_show [of "[]" a] by (simp add: parse_ip_def parse_all_Some_iff read_ip_def)

lemma read_octets_Some:
  "read_octets k (Suc i) s = Some (ns, r) \<Longrightarrow>
    s = concat (map (\<lambda>y. CHR ''.'' # show_nat y) ns) @ r \<and> length ns = k \<and> (\<forall>n \<in> set ns. n \<le> 255)"
proof (induction k arbitrary: i s ns)
  case 0
  then show ?case by simp
next
  case (Suc k)
  then obtain n s1 ns1 where
    "read_separated CHR ''.'' (Suc i) (read_number 10 3 False 255) s = Some (n, s1)"
    and rec: "read_octets k (Suc (Suc i)) s1 = Some (ns1, r)" and "ns = n # ns1"
    by (auto split: option.splits)
  moreover from this(1) obtain s0 where "s = CHR ''.'' # s0"
    and "read_number 10 3 False 255 s0 = Some (n, s1)"
    by (auto simp: read_separated_def split: list.splits if_splits)
  ultimately show ?case using Suc.IH [OF rec] read_number_10_text by auto
qed

text \<open>The dotted form is canonical: a text that parses is the text its address prints as.\<close>

lemma parse_ipv4_canonical:
  assumes "parse_ipv4 s = Some a"
  shows "show_ipv4 a = s"
proof -
  from assms obtain ns where a: "a = of_nat (undigits 256 ns)" and "read_octets 4 0 s = Some (ns, [])"
    by (auto simp: parse_ipv4_def parse_all_Some_iff read_ipv4_def split: if_splits)
  then obtain n s1 ns1 where n: "read_number 10 3 False 255 s = Some (n, s1)"
    and rec: "read_octets 3 (Suc 0) s1 = Some (ns1, [])" and ns: "ns = n # ns1"
    by (auto simp: eval_nat_numeral read_separated_def split: option.splits)
  have t: "s = show_nat n @ concat (map (\<lambda>y. CHR ''.'' # show_nat y) ns1)" and l: "length ns1 = 3"
    and b: "\<forall>m \<in> set ns. m < 256"
    using read_number_10_text [OF n] read_octets_Some [OF rec] ns by auto
  have "be_nat (map of_nat ns) = undigits 256 ns"
    using b unfolding be_nat_def map_map
    by (intro arg_cong [where f = "undigits 256"] map_idI) (simp add: unat_of_nat)
  then have "ipv4_octets a = map of_nat ns"
    using ipv4_octets_of_octets [of "map of_nat ns"] l ns by (simp add: ipv4_of_octets_def a)
  moreover have "map (show_nat \<circ> unat) (map (of_nat :: nat \<Rightarrow> byte) ns) = map show_nat ns"
    using b by (simp add: unat_of_nat)
  ultimately have "show_ipv4 a = str_join ''.'' (map show_nat ns)"
    unfolding show_ipv4_def by argo
  then show ?thesis using t ns by (simp add: str_join_Cons comp_def)
qed

end
