(* ===== verification/Ip_Stack.thy ===== *)
theory Ip_Stack
  imports Rust_Net
begin

text \<open>
  \<open>neoncore-ip-stack\<close>: parsing of IPv4 and IPv6 packets and of the TCP and UDP headers they
  carry, and the flow a packet belongs to. Every index and slice of the code is checked, so that
  a malformed packet must be an error value, never a panic.
\<close>

section \<open>Data\<close>

datatype transport_protocol = Tcp | Udp | Icmp | Icmpv6 | Other u8

record ipv4_packet =
  p4_source :: u32
  p4_destination :: u32
  p4_protocol :: transport_protocol
  p4_payload :: bytes

record ipv6_packet =
  p6_source :: u128
  p6_destination :: u128
  p6_next_header :: transport_protocol
  p6_payload :: bytes

datatype ip_packet = PacketV4 ipv4_packet | PacketV6 ipv6_packet

record tcp_flags =
  fin :: bool
  syn :: bool
  rst :: bool
  psh :: bool
  ack :: bool
  urg :: bool

record tcp_segment =
  tcp_source_port :: u16
  tcp_destination_port :: u16
  flags :: tcp_flags
  tcp_payload :: bytes

record udp_datagram =
  udp_source_port :: u16
  udp_destination_port :: u16
  udp_payload :: bytes

datatype transport_packet = TransportTcp tcp_segment | TransportUdp udp_datagram

datatype flow_protocol = FlowTcp | FlowUdp

record socket_endpoint =
  address :: ip_addr
  port :: u16

record flow =
  source :: socket_endpoint
  destination :: socket_endpoint
  protocol :: flow_protocol

datatype ip_stack_error =
    PacketTooShort
  | UnsupportedIpVersion u8
  | InvalidIpv4Header
  | InvalidIpv6Header
  | UnsupportedTransportProtocol
  | InvalidTransportHeader

section \<open>Operations\<close>

definition protocol_from_number :: "u8 \<Rightarrow> transport_protocol" where
  "protocol_from_number v =
    (if v = 1 then Icmp else if v = 6 then Tcp else if v = 17 then Udp
     else if v = 58 then Icmpv6 else Other v)"

definition parse_ipv4_packet :: "bytes \<Rightarrow> (ip_stack_error, ipv4_packet) res" where
  "parse_ipv4_packet p =
    (if length p < 20 then Err PacketTooShort
     else rbind (idx p 0) (\<lambda>b0.
       let ihl = unat (b0 AND 0x0f) * 4 in
       if ihl < 20 \<or> length p < ihl then Err InvalidIpv4Header
       else rbind (idx p 2) (\<lambda>b2. rbind (idx p 3) (\<lambda>b3.
         let total_len = be16 b2 b3 in
         if total_len < ihl \<or> length p < total_len then Err InvalidIpv4Header
         else rbind (slice_of p 12 16) (\<lambda>src. rbind (slice_of p 16 20) (\<lambda>dst.
           rbind (idx p 9) (\<lambda>b9. rbind (slice_of p ihl total_len) (\<lambda>body.
             Ok \<lparr>p4_source = ipv4_of_octets src, p4_destination = ipv4_of_octets dst,
                 p4_protocol = protocol_from_number b9, p4_payload = body\<rparr>))))))))"

definition parse_ipv6_packet :: "bytes \<Rightarrow> (ip_stack_error, ipv6_packet) res" where
  "parse_ipv6_packet p =
    (if length p < 40 then Err PacketTooShort
     else rbind (idx p 4) (\<lambda>b4. rbind (idx p 5) (\<lambda>b5.
       let payload_len = be16 b4 b5 in
       if length p < 40 + payload_len then Err InvalidIpv6Header
       else rbind (slice_of p 8 24) (\<lambda>src. rbind (slice_of p 24 40) (\<lambda>dst. rbind (idx p 6) (\<lambda>b6.
         rbind (slice_of p 40 (40 + payload_len)) (\<lambda>body.
           Ok \<lparr>p6_source = ipv6_of_octets src, p6_destination = ipv6_of_octets dst,
               p6_next_header = protocol_from_number b6, p6_payload = body\<rparr>)))))))"

definition parse_ip_packet :: "bytes \<Rightarrow> (ip_stack_error, ip_packet) res" where
  "parse_ip_packet p =
    (case p of [] \<Rightarrow> Err PacketTooShort
     | b0 # _ \<Rightarrow>
        (let version = drop_bit 4 b0 in
         if version = 4 then rbind (parse_ipv4_packet p) (\<lambda>x. Ok (PacketV4 x))
         else if version = 6 then rbind (parse_ipv6_packet p) (\<lambda>x. Ok (PacketV6 x))
         else Err (UnsupportedIpVersion version)))"

definition tcp_flags_of :: "u8 \<Rightarrow> tcp_flags" where
  "tcp_flags_of b = \<lparr>fin = (b AND 0x01 \<noteq> 0), syn = (b AND 0x02 \<noteq> 0), rst = (b AND 0x04 \<noteq> 0),
     psh = (b AND 0x08 \<noteq> 0), ack = (b AND 0x10 \<noteq> 0), urg = (b AND 0x20 \<noteq> 0)\<rparr>"

definition parse_tcp :: "bytes \<Rightarrow> (ip_stack_error, tcp_segment) res" where
  "parse_tcp s =
    (if length s < 20 then Err InvalidTransportHeader
     else rbind (idx s 12) (\<lambda>b12.
       let data_offset = unat (drop_bit 4 b12) * 4 in
       if data_offset < 20 \<or> length s < data_offset then Err InvalidTransportHeader
       else rbind (idx s 13) (\<lambda>b13. rbind (idx s 0) (\<lambda>b0. rbind (idx s 1) (\<lambda>b1.
         rbind (idx s 2) (\<lambda>b2. rbind (idx s 3) (\<lambda>b3. rbind (slice_of s data_offset (length s)) (\<lambda>body.
           Ok \<lparr>tcp_source_port = u16_from_be b0 b1, tcp_destination_port = u16_from_be b2 b3,
               flags = tcp_flags_of b13, tcp_payload = body\<rparr>))))))))"

definition parse_udp :: "bytes \<Rightarrow> (ip_stack_error, udp_datagram) res" where
  "parse_udp s =
    (if length s < 8 then Err InvalidTransportHeader
     else rbind (idx s 4) (\<lambda>b4. rbind (idx s 5) (\<lambda>b5.
       let len = be16 b4 b5 in
       if len < 8 \<or> length s < len then Err InvalidTransportHeader
       else rbind (idx s 0) (\<lambda>b0. rbind (idx s 1) (\<lambda>b1. rbind (idx s 2) (\<lambda>b2. rbind (idx s 3) (\<lambda>b3.
         rbind (slice_of s 8 len) (\<lambda>body.
           Ok \<lparr>udp_source_port = u16_from_be b0 b1, udp_destination_port = u16_from_be b2 b3,
               udp_payload = body\<rparr>))))))))"

definition parse_transport :: "transport_protocol \<Rightarrow> bytes \<Rightarrow> (ip_stack_error, transport_packet) res" where
  "parse_transport proto payload =
    (case proto of
       Tcp \<Rightarrow> rbind (parse_tcp payload) (\<lambda>x. Ok (TransportTcp x))
     | Udp \<Rightarrow> rbind (parse_udp payload) (\<lambda>x. Ok (TransportUdp x))
     | _ \<Rightarrow> Err UnsupportedTransportProtocol)"

definition flow_of :: "ip_addr \<Rightarrow> ip_addr \<Rightarrow> transport_packet \<Rightarrow> flow" where
  "flow_of src dst t =
    (case t of
       TransportTcp s \<Rightarrow> \<lparr>source = \<lparr>address = src, port = tcp_source_port s\<rparr>,
         destination = \<lparr>address = dst, port = tcp_destination_port s\<rparr>, protocol = FlowTcp\<rparr>
     | TransportUdp d \<Rightarrow> \<lparr>source = \<lparr>address = src, port = udp_source_port d\<rparr>,
         destination = \<lparr>address = dst, port = udp_destination_port d\<rparr>, protocol = FlowUdp\<rparr>)"

definition flow_from_packet :: "bytes \<Rightarrow> (ip_stack_error, flow) res" where
  "flow_from_packet p = rbind (parse_ip_packet p) (\<lambda>ip.
     case ip of
       PacketV4 x \<Rightarrow> rbind (parse_transport (p4_protocol x) (p4_payload x)) (\<lambda>t.
         Ok (flow_of (V4 (p4_source x)) (V4 (p4_destination x)) t))
     | PacketV6 x \<Rightarrow> rbind (parse_transport (p6_next_header x) (p6_payload x)) (\<lambda>t.
         Ok (flow_of (V6 (p6_source x)) (V6 (p6_destination x)) t)))"

section \<open>Serialization: what a well-formed packet is\<close>

text \<open>
  The specification side: the packets the parser must accept, built field by field as RFC 791,
  RFC 8200, RFC 768 and RFC 9293 lay them out. The header fields the parser ignores are free
  (\<open>tos\<close>, identification, checksum, options and so on).
\<close>

definition ipv4_wire ::
    "u8 \<Rightarrow> bytes \<Rightarrow> u8 \<Rightarrow> bytes \<Rightarrow> u32 \<Rightarrow> u32 \<Rightarrow> bytes \<Rightarrow> bytes \<Rightarrow> bytes \<Rightarrow> bytes" where
  "ipv4_wire tos mid proto chk src dst opts body trailer =
     (0x40 OR of_nat (5 + length opts div 4)) # tos
     # to_be 2 (20 + length opts + length body) @ mid @ [proto] @ chk
     @ ipv4_octets src @ ipv4_octets dst @ opts @ body @ trailer"

definition udp_wire :: "u16 \<Rightarrow> u16 \<Rightarrow> bytes \<Rightarrow> bytes \<Rightarrow> bytes \<Rightarrow> bytes" where
  "udp_wire sport dport chk body trailer =
     u16_to_be sport @ u16_to_be dport @ to_be 2 (8 + length body) @ chk @ body @ trailer"

definition ipv6_wire :: "bytes \<Rightarrow> u8 \<Rightarrow> u8 \<Rightarrow> u128 \<Rightarrow> u128 \<Rightarrow> bytes \<Rightarrow> bytes \<Rightarrow> bytes" where
  "ipv6_wire vtf next_header hops src dst body trailer =
     vtf @ to_be 2 (length body) @ [next_header, hops]
     @ ipv6_octets src @ ipv6_octets dst @ body @ trailer"

definition tcp_wire ::
    "u16 \<Rightarrow> u16 \<Rightarrow> bytes \<Rightarrow> u8 \<Rightarrow> u8 \<Rightarrow> bytes \<Rightarrow> bytes \<Rightarrow> bytes \<Rightarrow> bytes" where
  "tcp_wire sport dport numbers offset flag_byte tail opts body =
     u16_to_be sport @ u16_to_be dport @ numbers @ [offset, flag_byte] @ tail @ opts @ body"

section \<open>No panic\<close>

lemma unat_and_15: "unat (b AND 0x0f :: byte) \<le> 15"
proof -
  have "b AND 0x0f \<le> 0x0f" by (rule word_and_le1)
  then show ?thesis by (simp add: word_le_nat_alt)
qed

lemma parse_ipv4_packet_no_panic: "parse_ipv4_packet p \<noteq> Inl Panic"
  by (auto simp: parse_ipv4_packet_def Let_def)

lemma parse_ipv6_packet_no_panic: "parse_ipv6_packet p \<noteq> Inl Panic"
  by (auto simp: parse_ipv6_packet_def Let_def)

lemma parse_tcp_no_panic: "parse_tcp s \<noteq> Inl Panic"
  by (auto simp: parse_tcp_def Let_def)

lemma parse_udp_no_panic: "parse_udp s \<noteq> Inl Panic"
  by (auto simp: parse_udp_def Let_def)

lemma parse_ip_packet_no_panic: "parse_ip_packet p \<noteq> Inl Panic"
  using parse_ipv4_packet_no_panic [of p] parse_ipv6_packet_no_panic [of p]
  by (auto simp: parse_ip_packet_def Let_def rbind_Panic_iff split: list.splits)

lemma parse_transport_no_panic: "parse_transport proto s \<noteq> Inl Panic"
  using parse_tcp_no_panic [of s] parse_udp_no_panic [of s]
  by (auto simp: parse_transport_def rbind_Panic_iff split: transport_protocol.splits)

text \<open>The payload the parser hands on lies inside the packet.\<close>

lemma parse_udp_payload_length:
  "parse_udp s = Ok d \<Longrightarrow> length (udp_payload d) + 8 \<le> length s"
  by (auto simp: parse_udp_def Let_def split: if_splits)

lemma parse_transport_protocol:
  "parse_transport proto s = Ok t \<Longrightarrow>
    (case t of TransportTcp _ \<Rightarrow> proto = Tcp | TransportUdp _ \<Rightarrow> proto = Udp)"
  by (auto simp: parse_transport_def rbind_Inr_iff split: transport_protocol.splits)

section \<open>The accepted packets are exactly the well-formed ones\<close>

lemma length_8_split:
  "8 \<le> length s \<Longrightarrow> \<exists>s0 s1 s2 s3 s4 s5 s6 s7 r. s = s0 # s1 # s2 # s3 # s4 # s5 # s6 # s7 # r"
  by (simp add: eval_nat_numeral Suc_le_length_iff) blast

lemma to_be_be16: "to_be 2 (be16 a b) = [a, b]"
  using to_be_be_nat [of "[a, b]"] by (simp add: be16_be_nat numeral_2_eq_2)

lemma two_bytes: "length xs = 2 \<Longrightarrow> \<exists>a b. xs = [a, b]"
  using list_of_two [of xs] by metis

lemma parse_udp_wire:
  assumes "length chk = 2" "length body \<le> 65527"
  shows "parse_udp (udp_wire sport dport chk body trailer)
    = Ok \<lparr>udp_source_port = sport, udp_destination_port = dport, udp_payload = body\<rparr>"
proof -
  let ?l = "to_be 2 (8 + length body)"
  obtain s0 s1 where s: "u16_to_be sport = [s0, s1]" using two_bytes [of "u16_to_be sport"] by auto
  obtain d0 d1 where d: "u16_to_be dport = [d0, d1]" using two_bytes [of "u16_to_be dport"] by auto
  obtain l0 l1 where l: "?l = [l0, l1]" using two_bytes [of ?l] by auto
  obtain c0 c1 where c: "chk = [c0, c1]" using two_bytes assms by blast
  have "be16 l0 l1 = 8 + length body" using be16_to_be [of "8 + length body"] assms by (simp add: l)
  moreover have "u16_from_be s0 s1 = sport" using u16_from_be_to_be [of sport] by (simp add: s)
  moreover have "u16_from_be d0 d1 = dport" using u16_from_be_to_be [of dport] by (simp add: d)
  ultimately show ?thesis by (simp add: parse_udp_def udp_wire_def s d l c)
qed

lemma parse_udp_sound:
  assumes "parse_udp s = Ok d"
  shows "\<exists>chk trailer. length chk = 2 \<and> length (udp_payload d) \<le> 65527 \<and>
    s = udp_wire (udp_source_port d) (udp_destination_port d) chk (udp_payload d) trailer"
proof -
  have "8 \<le> length s" using assms by (auto simp: parse_udp_def split: if_splits)
  then obtain s0 s1 s2 s3 s4 s5 s6 s7 r where s: "s = s0 # s1 # s2 # s3 # s4 # s5 # s6 # s7 # r"
    using length_8_split by blast
  let ?n = "be16 s4 s5"
  have n: "8 \<le> ?n" "?n \<le> length s" "?n - 8 \<le> length r"
    and d: "d = \<lparr>udp_source_port = u16_from_be s0 s1, udp_destination_port = u16_from_be s2 s3,
      udp_payload = take (?n - 8) r\<rparr>"
    using assms by (auto simp: parse_udp_def s Let_def split: if_splits)
  moreover have "to_be 2 (8 + (?n - 8)) = [s4, s5]" using n(1) by (simp add: to_be_be16)
  moreover have "?n - 8 \<le> 65527" using be16_bound [of s4 s5] by linarith
  ultimately have "s = udp_wire (udp_source_port d) (udp_destination_port d) [s6, s7]
      (udp_payload d) (drop (?n - 8) r)" "length (udp_payload d) \<le> 65527"
    by (simp_all add: udp_wire_def s min_absorb2)
  then show ?thesis by (intro exI [of _ "[s6, s7]"] exI [of _ "drop (?n - 8) r"]) simp
qed

text \<open>The first byte of an IPv4 packet: version and header length.\<close>

lemma nibbles: "n \<le> 15 \<Longrightarrow>
    unat ((0x40 OR of_nat n :: byte) AND 0x0f) = n \<and> drop_bit 4 (0x40 OR of_nat n :: byte) = 4"
proof -
  assume "n \<le> 15"
  then have "n \<in> set [0..<16]" by simp
  moreover have "list_all (\<lambda>n. unat ((0x40 OR of_nat n :: byte) AND 0x0f) = n
      \<and> drop_bit 4 (0x40 OR of_nat n :: byte) = 4) [0..<16]" by code_simp
  ultimately show ?thesis by (simp only: list_all_iff)
qed

lemma nibbles_inv: "drop_bit 4 (b :: byte) = 4 \<Longrightarrow> 0x40 OR of_nat (unat (b AND 0x0f)) = b"
proof -
  assume v: "drop_bit 4 b = 4"
  have all: "list_all (\<lambda>n. drop_bit 4 (of_nat n :: byte) = 4 \<longrightarrow>
      0x40 OR of_nat (unat ((of_nat n :: byte) AND 0x0f)) = (of_nat n :: byte)) [0..<256]"
    by code_simp
  have "unat b \<in> set [0..<256]" by simp
  with all have "drop_bit 4 (of_nat (unat b) :: byte) = 4 \<longrightarrow>
      0x40 OR of_nat (unat ((of_nat (unat b) :: byte) AND 0x0f)) = (of_nat (unat b) :: byte)"
    unfolding list_all_iff by blast
  then show ?thesis using v by simp
qed

lemma parse_ip_packet_wire_v4:
  assumes "length mid = 5" "length chk = 2" "4 dvd length opts" "length opts \<le> 40"
    "20 + length opts + length body \<le> 65535"
  shows "parse_ip_packet (ipv4_wire tos mid proto chk src dst opts body trailer)
    = Ok (PacketV4 \<lparr>p4_source = src, p4_destination = dst,
        p4_protocol = protocol_from_number proto, p4_payload = body\<rparr>)"
proof -
  let ?n = "5 + length opts div 4"
  define b where "b = (0x40 OR of_nat ?n :: byte)"
  let ?len = "20 + length opts + length body"
  let ?p = "ipv4_wire tos mid proto chk src dst opts body trailer"
  have "?n \<le> 15" using assms by auto
  then have n: "unat (b AND 0x0f) = ?n" and ver: "drop_bit 4 b = 4"
    using nibbles unfolding b_def by blast+
  have ihl: "unat (b AND 0x0f) * 4 = 20 + length opts" and five: "\<not> unat (b AND 0x0f) < 5"
    unfolding n using assms(3) by auto
  obtain l0 l1 where l: "to_be 2 ?len = [l0, l1]" using two_bytes [of "to_be 2 ?len"] by auto
  have tl: "be16 l0 l1 = ?len" using be16_to_be [of ?len] assms by (simp add: l)
  obtain m0 m1 m2 m3 m4 where m: "mid = [m0, m1, m2, m3, m4]"
    using list_of_five [OF assms(1)] by auto
  obtain c0 c1 where c: "chk = [c0, c1]" using two_bytes assms by blast
  obtain s0 s1 s2 s3 where s: "ipv4_octets src = [s0, s1, s2, s3]"
    using list_of_four [of "ipv4_octets src"] by auto
  obtain d0 d1 d2 d3 where d: "ipv4_octets dst = [d0, d1, d2, d3]"
    using list_of_four [of "ipv4_octets dst"] by auto
  have p: "?p = b # tos # l0 # l1 # m0 # m1 # m2 # m3 # m4 # proto # c0 # c1
      # s0 # s1 # s2 # s3 # d0 # d1 # d2 # d3 # opts @ body @ trailer"
    by (simp add: ipv4_wire_def b_def l m c s d)
  have src: "ipv4_of_octets [s0, s1, s2, s3] = src" and dst: "ipv4_of_octets [d0, d1, d2, d3] = dst"
    using ipv4_of_octets_octets [of src] ipv4_of_octets_octets [of dst] by (simp_all add: s d)
  have "parse_ipv4_packet ?p = Ok \<lparr>p4_source = src, p4_destination = dst,
        p4_protocol = protocol_from_number proto, p4_payload = body\<rparr>"
    unfolding p parse_ipv4_packet_def
    by (simp add: ihl five tl src dst drop_plus [of 20 "length opts"])
  then show ?thesis unfolding parse_ip_packet_def p
    by (simp add: ver)
qed

lemma parse_ip_packet_sound_v4:
  assumes "parse_ip_packet p = Ok (PacketV4 x)"
  shows "\<exists>tos mid proto chk opts trailer. length mid = 5 \<and> length chk = 2 \<and> 4 dvd length opts
    \<and> length opts \<le> 40 \<and> 20 + length opts + length (p4_payload x) \<le> 65535
    \<and> p4_protocol x = protocol_from_number proto
    \<and> p = ipv4_wire tos mid proto chk (p4_source x) (p4_destination x) opts (p4_payload x) trailer"
proof -
  have ver: "p \<noteq> []" "drop_bit 4 (hd p) = 4" and ok: "parse_ipv4_packet p = Ok x"
    using assms by (auto simp: parse_ip_packet_def Let_def rbind_Inr_iff split: list.splits if_splits)
  then have "20 \<le> length p" by (auto simp: parse_ipv4_packet_def split: if_splits)
  then obtain b0 b1 b2 b3 b4 b5 b6 b7 b8 b9 b10 b11 b12 b13 b14 b15 b16 b17 b18 b19 r where
    p: "p = b0 # b1 # b2 # b3 # b4 # b5 # b6 # b7 # b8 # b9 # b10 # b11 # b12 # b13 # b14 # b15
      # b16 # b17 # b18 # b19 # r"
    by (auto simp: eval_nat_numeral Suc_le_length_iff)
  let ?ihl = "unat (b0 AND 0x0f) * 4"
  let ?len = "be16 b2 b3"
  let ?o = "?ihl - 20"
  let ?b = "?len - ?ihl"
  have bnd: "20 \<le> ?ihl" "?ihl \<le> ?len" "?len \<le> length p"
    and x: "x = \<lparr>p4_source = ipv4_of_octets [b12, b13, b14, b15],
      p4_destination = ipv4_of_octets [b16, b17, b18, b19], p4_protocol = protocol_from_number b9,
      p4_payload = take ?b (drop ?ihl p)\<rparr>"
    using ok unfolding parse_ipv4_packet_def p by (auto simp: Let_def split: if_splits)
  have body: "drop ?ihl p = drop ?o r" using bnd drop_plus [of 20 ?o p] by (simp add: p)
  have lo: "?o \<le> length r" "?b \<le> length (drop ?o r)" using bnd by (simp_all add: p)
  have small: "unat (b0 AND 0x0f) \<le> 15" by (rule unat_and_15)
  have five: "5 \<le> unat (b0 AND 0x0f)" using bnd(1) by linarith
  have n: "5 + length (take ?o r) div 4 = unat (b0 AND 0x0f)"
    using lo(1) five by (simp add: min_absorb2)
  have first: "0x40 OR of_nat (5 + length (take ?o r) div 4) = b0"
    unfolding n using nibbles_inv [of b0] ver by (simp add: p)
  have total: "20 + length (take ?o r) + length (p4_payload x) = ?len"
    using bnd lo by (simp add: x body min_absorb2)
  have l: "to_be 2 (20 + length (take ?o r) + length (p4_payload x)) = [b2, b3]"
    unfolding total by (rule to_be_be16)
  have "p = ipv4_wire b1 [b4, b5, b6, b7, b8] b9 [b10, b11] (p4_source x) (p4_destination x)
      (take ?o r) (p4_payload x) (drop ?b (drop ?o r))"
    unfolding ipv4_wire_def first l by (simp add: x body del: drop_drop) (simp add: p)
  moreover have "4 dvd length (take ?o r)" using lo(1) five by (simp add: min_absorb2 diff_mult_distrib dvd_diff_nat)
  moreover have "length (take ?o r) \<le> 40" using lo(1) small by simp
  moreover have "20 + length (take ?o r) + length (p4_payload x) \<le> 65535"
    unfolding total using be16_bound [of b2 b3] by linarith
  moreover have "p4_protocol x = protocol_from_number b9" by (simp add: x)
  ultimately show ?thesis
    by (intro exI [of _ b1] exI [of _ "[b4, b5, b6, b7, b8]"] exI [of _ b9] exI [of _ "[b10, b11]"]
        exI [of _ "take ?o r"] exI [of _ "drop ?b (drop ?o r)"]) simp
qed

lemma parse_ip_packet_wire_v6:
  assumes "length vtf = 4" "drop_bit 4 (hd vtf) = 6" "length body \<le> 65535"
  shows "parse_ip_packet (ipv6_wire vtf next hops src dst body trailer)
    = Ok (PacketV6 \<lparr>p6_source = src, p6_destination = dst,
        p6_next_header = protocol_from_number next, p6_payload = body\<rparr>)"
proof -
  obtain v0 v1 v2 v3 where v: "vtf = [v0, v1, v2, v3]" using list_of_four [OF assms(1)] by auto
  obtain l0 l1 where l: "to_be 2 (length body) = [l0, l1]"
    using two_bytes [of "to_be 2 (length body)"] by auto
  have len: "be16 l0 l1 = length body" using be16_to_be [of "length body"] assms by (simp add: l)
  define s where "s = ipv6_octets src"
  define d where "d = ipv6_octets dst"
  have sl: "length s = 16" "length d = 16" "ipv6_of_octets s = src" "ipv6_of_octets d = dst"
    by (simp_all add: s_def d_def)
  have ver: "drop_bit 4 v0 = 6" using assms(2) by (simp add: v)
  have p: "ipv6_wire vtf next hops src dst body trailer
      = v0 # v1 # v2 # v3 # l0 # l1 # next # hops # s @ d @ body @ trailer"
    by (simp add: ipv6_wire_def v l s_def d_def)
  have "parse_ipv6_packet (ipv6_wire vtf next hops src dst body trailer)
    = Ok \<lparr>p6_source = src, p6_destination = dst,
        p6_next_header = protocol_from_number next, p6_payload = body\<rparr>"
    unfolding p parse_ipv6_packet_def by (simp add: len sl)
  then show ?thesis unfolding parse_ip_packet_def p by (simp add: ver)
qed

lemma parse_ip_packet_sound_v6:
  assumes "parse_ip_packet p = Ok (PacketV6 x)"
  shows "\<exists>vtf next hops trailer. length vtf = 4 \<and> drop_bit 4 (hd vtf) = 6
    \<and> length (p6_payload x) \<le> 65535 \<and> p6_next_header x = protocol_from_number next
    \<and> p = ipv6_wire vtf next hops (p6_source x) (p6_destination x) (p6_payload x) trailer"
proof -
  have ver: "p \<noteq> []" "drop_bit 4 (hd p) = 6" and ok: "parse_ipv6_packet p = Ok x"
    using assms by (auto simp: parse_ip_packet_def Let_def rbind_Inr_iff split: list.splits if_splits)
  then have "40 \<le> length p" by (auto simp: parse_ipv6_packet_def split: if_splits)
  then obtain b0 b1 b2 b3 b4 b5 b6 b7 r where
    p: "p = b0 # b1 # b2 # b3 # b4 # b5 # b6 # b7 # r" and r: "32 \<le> length r"
    using length_8_split [of p] by auto
  let ?n = "be16 b4 b5"
  have n: "?n + 32 \<le> length r" and x: "x = \<lparr>p6_source = ipv6_of_octets (take 16 r),
      p6_destination = ipv6_of_octets (take 16 (drop 16 r)),
      p6_next_header = protocol_from_number b6, p6_payload = take ?n (drop 32 r)\<rparr>"
    using ok r unfolding parse_ipv6_packet_def p by (auto simp: Let_def split: if_splits)
  have len: "length (p6_payload x) = ?n" using n by (simp add: x min_absorb2)
  have l: "to_be 2 (length (p6_payload x)) = [b4, b5]" unfolding len by (rule to_be_be16)
  have cut: "r = take 16 r @ take 16 (drop 16 r) @ take ?n (drop 32 r) @ drop ?n (drop 32 r)"
  proof -
    have "drop 32 r = drop 16 (drop 16 r)" by simp
    then show ?thesis by (simp only: append_take_drop_id)
  qed
  have "p = ipv6_wire [b0, b1, b2, b3] b6 b7 (p6_source x) (p6_destination x) (p6_payload x)
      (drop ?n (drop 32 r))"
    unfolding ipv6_wire_def l using cut r by (simp add: x p del: drop_drop append_take_drop_id)
  moreover have "drop_bit 4 b0 = 6" using ver by (simp add: p)
  moreover have "length (p6_payload x) \<le> 65535" unfolding len using be16_bound [of b4 b5] by linarith
  moreover have "p6_next_header x = protocol_from_number b6" by (simp add: x)
  ultimately show ?thesis
    by (intro exI [of _ "[b0, b1, b2, b3]"] exI [of _ b6] exI [of _ b7]
        exI [of _ "drop ?n (drop 32 r)"]) simp
qed

lemma parse_tcp_wire:
  assumes "length numbers = 8" "length tail = 6" "4 * unat (drop_bit 4 offset) = 20 + length opts"
  shows "parse_tcp (tcp_wire sport dport numbers offset flag_byte tail opts body)
    = Ok \<lparr>tcp_source_port = sport, tcp_destination_port = dport,
        flags = tcp_flags_of flag_byte, tcp_payload = body\<rparr>"
proof -
  obtain s0 s1 where s: "u16_to_be sport = [s0, s1]" using two_bytes [of "u16_to_be sport"] by auto
  obtain d0 d1 where d: "u16_to_be dport = [d0, d1]" using two_bytes [of "u16_to_be dport"] by auto
  obtain n0 n1 n2 n3 n4 n5 n6 n7 where n: "numbers = [n0, n1, n2, n3, n4, n5, n6, n7]"
    using length_8_split [of numbers] assms(1) by auto
  have ports: "u16_from_be s0 s1 = sport" "u16_from_be d0 d1 = dport"
    using u16_from_be_to_be [of sport] u16_from_be_to_be [of dport] by (simp_all add: s d)
  have p: "tcp_wire sport dport numbers offset flag_byte tail opts body
      = s0 # s1 # d0 # d1 # n0 # n1 # n2 # n3 # n4 # n5 # n6 # n7 # offset # flag_byte
        # tail @ opts @ body"
    by (simp add: tcp_wire_def s d n)
  have off: "unat (drop_bit 4 offset) * 4 = 20 + length opts"
    and five: "\<not> unat (drop_bit 4 offset) < 5" using assms(3) by linarith+
  show ?thesis unfolding p parse_tcp_def
    using assms(2) by (simp add: off five ports drop_plus [of 20 "length opts"])
qed

lemma parse_tcp_sound:
  assumes "parse_tcp s = Ok t"
  shows "\<exists>numbers offset flag_byte tail opts. length numbers = 8 \<and> length tail = 6
    \<and> 4 * unat (drop_bit 4 offset) = 20 + length opts \<and> flags t = tcp_flags_of flag_byte
    \<and> s = tcp_wire (tcp_source_port t) (tcp_destination_port t) numbers offset flag_byte tail
        opts (tcp_payload t)"
proof -
  have "20 \<le> length s" using assms by (auto simp: parse_tcp_def split: if_splits)
  then obtain b0 b1 b2 b3 b4 b5 b6 b7 b8 b9 b10 b11 b12 b13 b14 b15 b16 b17 b18 b19 r where
    s: "s = b0 # b1 # b2 # b3 # b4 # b5 # b6 # b7 # b8 # b9 # b10 # b11 # b12 # b13 # b14 # b15
      # b16 # b17 # b18 # b19 # r"
    by (auto simp: eval_nat_numeral Suc_le_length_iff)
  let ?d = "unat (drop_bit 4 b12) * 4"
  have d: "20 \<le> ?d" "?d \<le> length s" and t: "t = \<lparr>tcp_source_port = u16_from_be b0 b1,
      tcp_destination_port = u16_from_be b2 b3, flags = tcp_flags_of b13, tcp_payload = drop ?d s\<rparr>"
    using assms unfolding parse_tcp_def s by (auto simp: Let_def split: if_splits)
  let ?o = "?d - 20"
  have body: "drop ?d s = drop ?o r" using d drop_plus [of 20 ?o s] by (simp add: s)
  have lo: "?o \<le> length r" using d by (simp add: s)
  have "s = tcp_wire (tcp_source_port t) (tcp_destination_port t) [b4, b5, b6, b7, b8, b9, b10, b11]
      b12 b13 [b14, b15, b16, b17, b18, b19] (take ?o r) (tcp_payload t)"
    by (simp add: tcp_wire_def t body) (simp add: s)
  moreover have "4 * unat (drop_bit 4 b12) = 20 + length (take ?o r)" using d lo by simp
  moreover have "flags t = tcp_flags_of b13" by (simp add: t)
  ultimately show ?thesis
    by (intro exI [of _ "[b4, b5, b6, b7, b8, b9, b10, b11]"] exI [of _ b12] exI [of _ b13]
        exI [of _ "[b14, b15, b16, b17, b18, b19]"] exI [of _ "take ?o r"]) simp
qed

section \<open>Properties\<close>

text \<open>
  \<open>parse_ip_packet\<close> returns an IPv4 packet for exactly the well-formed ones: version 4, a
  header of 20 to 60 bytes whose length field says so, a total length that fits the buffer; it
  returns the addresses and protocol of the header, skips the options and cuts the payload at the
  total length.
\<close>

theorem ipv4_packet_exact:
  "parse_ip_packet p = Ok (PacketV4 x) \<longleftrightarrow>
    (\<exists>tos mid proto chk opts trailer. length mid = 5 \<and> length chk = 2 \<and> 4 dvd length opts
      \<and> length opts \<le> 40 \<and> 20 + length opts + length (p4_payload x) \<le> 65535
      \<and> p4_protocol x = protocol_from_number proto
      \<and> p = ipv4_wire tos mid proto chk (p4_source x) (p4_destination x) opts (p4_payload x) trailer)"
  using parse_ip_packet_sound_v4 [of p x] by (auto simp: parse_ip_packet_wire_v4)

text \<open>
  \<open>parse_ip_packet\<close> returns an IPv6 packet for exactly the byte lists with version 6, a
  40-byte header and a payload length that fits the buffer; next header, addresses and payload
  are the header's.
\<close>

theorem ipv6_packet_exact:
  "parse_ip_packet p = Ok (PacketV6 x) \<longleftrightarrow>
    (\<exists>vtf next hops trailer. length vtf = 4 \<and> drop_bit 4 (hd vtf) = 6
      \<and> length (p6_payload x) \<le> 65535 \<and> p6_next_header x = protocol_from_number next
      \<and> p = ipv6_wire vtf next hops (p6_source x) (p6_destination x) (p6_payload x) trailer)"
  using parse_ip_packet_sound_v6 [of p x] by (auto simp: parse_ip_packet_wire_v6)

text \<open>
  \<open>parse_transport\<close> accepts exactly the well-formed TCP segments (data offset of at least
  five words, inside the segment) and UDP datagrams (length field of at least eight, inside the
  payload), each only under its own protocol number, and returns ports, flags and payload.
\<close>

theorem transport_exact:
  "parse_transport proto s = Ok t \<longleftrightarrow>
    (case t of
       TransportUdp d \<Rightarrow> proto = Udp \<and> (\<exists>chk trailer. length chk = 2 \<and> length (udp_payload d) \<le> 65527
         \<and> s = udp_wire (udp_source_port d) (udp_destination_port d) chk (udp_payload d) trailer)
     | TransportTcp g \<Rightarrow> proto = Tcp \<and> (\<exists>numbers offset flag_byte tail opts. length numbers = 8
         \<and> length tail = 6 \<and> 4 * unat (drop_bit 4 offset) = 20 + length opts
         \<and> flags g = tcp_flags_of flag_byte
         \<and> s = tcp_wire (tcp_source_port g) (tcp_destination_port g) numbers offset flag_byte tail
             opts (tcp_payload g)))"
proof (cases t)
  case (TransportUdp d)
  then have "parse_transport proto s = Ok t \<longleftrightarrow> proto = Udp \<and> parse_udp s = Ok d"
    by (auto simp: parse_transport_def rbind_Inr_iff split: transport_protocol.splits)
  then show ?thesis using TransportUdp parse_udp_sound [of s d] by (auto simp: parse_udp_wire)
next
  case (TransportTcp g)
  then have "parse_transport proto s = Ok t \<longleftrightarrow> proto = Tcp \<and> parse_tcp s = Ok g"
    by (auto simp: parse_transport_def rbind_Inr_iff split: transport_protocol.splits)
  then show ?thesis using TransportTcp parse_tcp_sound [of s g] by (auto simp: parse_tcp_wire)
qed

text \<open>
  C40: No packet, however malformed, makes \<open>flow_from_packet\<close> index or slice out of range: the
  parser of untrusted packets never panics.
\<close>

theorem flow_from_packet_no_panic: "flow_from_packet p \<noteq> Inl Panic"
  using parse_ip_packet_no_panic [of p] parse_transport_no_panic
  by (auto simp: flow_from_packet_def rbind_Panic_iff split: ip_packet.splits)

end
