(* ===== verification/Ipv6_Text.thy ===== *)
theory Ipv6_Text
  imports Rust_Net
begin

text \<open>
  The text form of IPv6 addresses: what \<open>Display\<close> prints (compressing the longest run of zero
  segments, or ending in a dotted IPv4 address), \<open>FromStr\<close> reads back. The result is stated for
  every address (\<open>parse_ip_show_ip\<close>) and packaged as the interface the address codecs of the
  protocols rely on.
\<close>

section \<open>The run of zeros that is compressed\<close>

definition zeros_at :: "nat list \<Rightarrow> nat \<times> nat \<Rightarrow> bool" where
  "zeros_at gs run \<longleftrightarrow> (\<forall>j. fst run \<le> j \<and> j < fst run + snd run \<longrightarrow> j < length gs \<and> gs ! j = 0)"

lemma zero_run_zeros:
  assumes "zeros_at (ps @ gs) cur" "zeros_at (ps @ gs) best"
    "snd cur \<noteq> 0 \<longrightarrow> fst cur + snd cur = length ps"
  shows "zeros_at (ps @ gs) (zero_run gs (length ps) cur best)"
  using assms
proof (induction gs arbitrary: ps cur best)
  case Nil
  then show ?case by simp
next
  case (Cons g gs)
  have app: "ps @ g # gs = (ps @ [g]) @ gs" and len: "Suc (length ps) = length (ps @ [g])" by simp_all
  show ?case
  proof (cases "g = 0")
    case True
    define cur' where "cur' = (if snd cur = 0 then (length ps, 1) else (fst cur, Suc (snd cur)))"
    define best' where "best' = (if snd best < snd cur' then cur' else best)"
    have c: "zeros_at ((ps @ [g]) @ gs) cur'"
      using Cons.prems True by (auto simp: zeros_at_def cur'_def nth_append less_Suc_eq)
    moreover have "snd cur' \<noteq> 0 \<longrightarrow> fst cur' + snd cur' = length (ps @ [g])"
      using Cons.prems by (auto simp: cur'_def)
    moreover have "zeros_at ((ps @ [g]) @ gs) best'"
      using c Cons.prems by (simp add: best'_def)
    ultimately have "zeros_at ((ps @ [g]) @ gs) (zero_run gs (length (ps @ [g])) cur' best')"
      using Cons.IH by blast
    moreover have "zero_run (g # gs) (length ps) cur best = zero_run gs (length (ps @ [g])) cur' best'"
      using True by (simp add: Let_def cur'_def best'_def)
    ultimately show ?thesis by simp
  next
    case False
    have "zeros_at ((ps @ [g]) @ gs) (zero_run gs (length (ps @ [g])) (0, 0) best)"
      using Cons.prems by (intro Cons.IH) (simp_all add: zeros_at_def)
    then show ?thesis using False by simp
  qed
qed

lemma zero_run_split:
  assumes "zero_run gs 0 (0, 0) (0, 0) = (start, len)" "0 < len"
  shows "gs = take start gs @ replicate len 0 @ drop (start + len) gs" "start + len \<le> length gs"
proof -
  have z: "zeros_at gs (start, len)"
    using zero_run_zeros [of "[]" gs "(0, 0)" "(0, 0)"] assms by (simp add: zeros_at_def)
  then have "start + len - 1 < length gs" using assms unfolding zeros_at_def fst_conv snd_conv
    by (metis add_gr_0 add_diff_cancel_left' diff_less le_add1 less_numeral_extra(1)
        ordered_cancel_comm_monoid_diff_class.add_diff_assoc Suc_leI One_nat_def)
  then show le: "start + len \<le> length gs" using assms by linarith
  have "take len (drop start gs) = replicate len 0"
    using z le by (intro nth_equalityI) (simp_all add: zeros_at_def)
  then show "gs = take start gs @ replicate len 0 @ drop (start + len) gs"
    by (metis append_take_drop_id drop_drop add.commute)
qed

section \<open>Groups\<close>

definition groups_text :: "nat list \<Rightarrow> string" where
  "groups_text gs = concat (map (\<lambda>g. CHR '':'' # show_radix 16 g) gs)"

text \<open>What may follow the groups: the end of the text, or the compressed run.\<close>

definition ends_groups :: "string \<Rightarrow> bool" where
  "ends_groups r \<longleftrightarrow> r = [] \<or> (\<exists>x. r = '':::'' @ x) \<or> (\<exists>x. r = ''::'' @ x)"

lemma ends_groups_intros [simp]: "ends_groups []" "ends_groups (CHR '':'' # CHR '':'' # x)"
  by (simp_all add: ends_groups_def)

lemma show_segments_Cons: "show_segments (g # gs) = show_radix 16 g @ groups_text gs"
  by (simp add: show_segments_def str_join_Cons groups_text_def comp_def)

lemma show_segments_Nil [simp]: "show_segments [] = []"
  by (simp add: show_segments_def)

lemma show_radix_16_no_dot: "CHR ''.'' \<notin> set (show_radix 16 g)"
  using show_radix_digits [of 16 g] by (auto simp: list_all_iff)

lemma dropWhile_no_dot:
  assumes "CHR ''.'' \<notin> set xs" "r = [] \<or> (hd r \<noteq> CHR ''.'' \<and> \<not> P (hd r))"
  shows "dropWhile P (xs @ r) = [] \<or> hd (dropWhile P (xs @ r)) \<noteq> CHR ''.''"
  using assms
proof (induction xs)
  case Nil
  then show ?case by (cases r) auto
next
  case (Cons x xs)
  then show ?case by auto
qed

lemma digit_10_16: "is_digit_char 10 c \<Longrightarrow> is_digit_char 16 c"
  by (auto simp: is_digit_char_def to_digit_def Let_def split: if_splits)

text \<open>A group of hexadecimal digits is not the start of a dotted address unless a dot follows.\<close>

lemma read_ipv4_group:
  assumes "CHR ''.'' \<notin> set xs" "r = [] \<or> (hd r \<noteq> CHR ''.'' \<and> \<not> is_digit_char 10 (hd r))"
  shows "read_ipv4 (xs @ r) = None"
proof -
  have "read_octets 3 (Suc 0) s' = None"
    if "read_number 10 3 False 255 (xs @ r) = Some (n, s')" for n s'
  proof -
    have "s' = dropWhile (is_digit_char 10) (xs @ r)"
      using that unfolding read_number_def Let_def dropWhile_eq_drop by (auto split: if_splits)
    then have "s' = [] \<or> hd s' \<noteq> CHR ''.''" using dropWhile_no_dot [where P = "is_digit_char 10", OF assms] by simp
    then show ?thesis by (cases s') (simp_all add: eval_nat_numeral read_separated_def)
  qed
  then have "read_octets 4 0 (xs @ r) = None"
    by (auto simp: eval_nat_numeral read_separated_def split: option.splits)
  then show ?thesis by (simp add: read_ipv4_def)
qed

lemma read_ipv4_colon [simp]: "read_ipv4 (CHR '':'' # x) = None" "read_ipv4 [] = None"
  using read_ipv4_group [of "[]" "CHR '':'' # x"] read_ipv4_group [of "[]" "[]"] by simp_all

lemma read_number_colon [simp]:
  "read_number 16 m az l (CHR '':'' # x) = None" "read_number 16 m az l [] = None"
  by (simp_all add: read_number_def)

lemma groups_text_simps [simp]:
  "groups_text [] = []"
  "groups_text (g # gs) = CHR '':'' # show_radix 16 g @ groups_text gs"
  by (simp_all add: groups_text_def)

lemma groups_text_follow:
  assumes "ends_groups r"
  shows "stops 16 (groups_text gs @ r)"
    "groups_text gs @ r = [] \<or>
      (hd (groups_text gs @ r) \<noteq> CHR ''.'' \<and> \<not> is_digit_char 10 (hd (groups_text gs @ r)))"
  using assms by (cases gs; auto simp: ends_groups_def)+

lemma read_group:
  assumes "g < 65536" "ends_groups r"
  shows "read_ipv4 (show_radix 16 g @ groups_text gs @ r) = None"
    "read_number 16 4 True 65535 (show_radix 16 g @ groups_text gs @ r) = Some (g, groups_text gs @ r)"
proof -
  show "read_ipv4 (show_radix 16 g @ groups_text gs @ r) = None"
    using show_radix_16_no_dot groups_text_follow [OF assms(2)] by (intro read_ipv4_group)
  show "read_number 16 4 True 65535 (show_radix 16 g @ groups_text gs @ r) = Some (g, groups_text gs @ r)"
    using assms groups_text_follow [OF assms(2)] length_show_radix [of 16 g 4]
    by (intro read_number_show) simp_all
qed

lemma read_groups_end: "ends_groups r \<Longrightarrow> read_groups k i r = ([], False, r)"
  by (cases k) (auto simp: ends_groups_def read_separated_def split: list.splits)

lemma read_groups_text:
  assumes "\<forall>g \<in> set gs. g < 65536" "length gs \<le> k" "ends_groups r"
  shows "read_groups k (Suc i) (groups_text gs @ r) = (gs, False, r)"
  using assms
proof (induction gs arbitrary: k i)
  case Nil
  then show ?case by (simp add: read_groups_end)
next
  case (Cons g gs)
  then obtain k' where k: "k = Suc k'" and "length gs \<le> k'" by (cases k) auto
  then have "read_groups k' (Suc (Suc i)) (groups_text gs @ r) = (gs, False, r)"
    using Cons by simp
  then show ?case using read_group [of g r gs] Cons.prems k
    by (cases k') (simp_all add: read_separated_def)
qed

lemma read_groups_segments:
  assumes "\<forall>g \<in> set gs. g < 65536" "length gs \<le> k" "ends_groups r"
  shows "read_groups k 0 (show_segments gs @ r) = (gs, False, r)"
proof (cases gs)
  case Nil
  then show ?thesis using assms by (simp add: read_groups_end)
next
  case (Cons g gs')
  then obtain k' where k: "k = Suc k'" and "length gs' \<le> k'" using assms by (cases k) auto
  then have "read_groups k' (Suc 0) (groups_text gs' @ r) = (gs', False, r)"
    using assms Cons by (intro read_groups_text) simp_all
  then show ?thesis using read_group [of g r gs'] assms k Cons
    by (cases k') (simp_all add: read_separated_def show_segments_Cons)
qed

section \<open>The round trip\<close>

lemma read_ipv6_plain:
  assumes "\<forall>g \<in> set gs. g < 65536" "length gs = 8"
  shows "read_ipv6 (show_segments gs) = Some (ipv6_of_segments gs, [])"
  using read_groups_segments [of gs 8 "[]"] assms by (simp add: read_ipv6_def)

lemma read_ipv6_compressed:
  assumes "\<forall>g \<in> set hs. g < 65536" "\<forall>g \<in> set ts. g < 65536" "length hs + length ts + n = 8" "1 < n"
  shows "read_ipv6 (show_segments hs @ ''::'' @ show_segments ts)
    = Some (ipv6_of_segments (hs @ replicate n 0 @ ts), [])"
proof -
  have "read_groups 8 0 (show_segments hs @ ''::'' @ show_segments ts)
      = (hs, False, ''::'' @ show_segments ts)"
    using assms by (intro read_groups_segments) simp_all
  moreover have "read_groups (8 - (length hs + 1)) 0 (show_segments ts) = (ts, False, [])"
    using read_groups_segments [of ts "8 - (length hs + 1)" "[]"] assms by simp
  moreover have "8 - length hs - length ts = n" using assms by simp
  ultimately show ?thesis using assms by (simp add: read_ipv6_def starts_with_def)
qed

lemma read_ipv6_mapped:
  assumes "ipv6_to_ipv4_mapped a = Some b"
  shows "read_ipv6 (''::ffff:'' @ show_ipv4 b) = Some (a, [])"
proof -
  let ?bs = "ipv6_octets a"
  have t: "take 12 ?bs = [0, 0, 0, 0, 0, 0, 0, 0, 0, 0, 0xFF, 0xFF]"
    and b: "b = ipv4_of_octets (drop 12 ?bs)"
    using assms by (auto simp: ipv6_to_ipv4_mapped_def Let_def split: if_splits)
  have "ipv4_octets b = drop 12 ?bs" unfolding b by (rule ipv4_octets_of_octets) simp
  then have "unat b = be_nat (drop 12 ?bs)"
    using be_nat_to_be_small [of "unat b" 4] by (simp add: ipv4_octets_def)
  moreover have "unat a = be_nat ?bs"
    using be_nat_to_be_small [of "unat a" 16] by (simp add: ipv6_octets_def)
  moreover have "be_nat ?bs = 256 ^ 4 * be_nat (take 12 ?bs) + be_nat (drop 12 ?bs)"
  proof -
    have "be_nat (xs @ ys) = 256 ^ length ys * be_nat xs + be_nat ys" for xs ys
      by (induction ys rule: rev_induct)
        (simp_all add: be_nat_def algebra_simps flip: append_assoc)
    from this [of "take 12 ?bs" "drop 12 ?bs"] show ?thesis by simp
  qed
  moreover have "be_nat (take 12 ?bs) = 65535" unfolding t by (simp add: be_nat_def undigits_def)
  ultimately have unat_a: "unat a = 65535 * 4294967296 + unat b" by simp
  have seg: "ipv6_of_segments [0, 0, 0, 0, 0, 65535, unat b div 65536, unat b mod 65536] = a"
  proof -
    have "undigits 65536 [0, 0, 0, 0, 0, 65535, unat b div 65536, unat b mod 65536]
        = 65535 * 4294967296 + (65536 * (unat b div 65536) + unat b mod 65536)"
      by (simp add: undigits_def)
    also have "\<dots> = unat a" using unat_a by simp
    finally show ?thesis by (simp add: ipv6_of_segments_def)
  qed
  moreover have "read_ipv4 (show_ipv4 b) = Some (b, [])" using read_ipv4_show [of "[]" b] by simp
  moreover have "read_ipv4 (''ffff:'' @ show_ipv4 b) = None"
    using read_ipv4_group [of "''ffff''" "CHR '':'' # show_ipv4 b"] by simp
  moreover have "read_number 16 4 True 65535 (''ffff:'' @ show_ipv4 b)
      = Some (65535, CHR '':'' # show_ipv4 b)"
    by (simp add: read_number_def is_digit_char_def to_digit_def digits_value_def undigits_def)
  ultimately have "read_groups (Suc (Suc 5)) 0 (''ffff:'' @ show_ipv4 b)
      = ([65535, unat b div 65536, unat b mod 65536], True, [])"
    unfolding read_groups.simps(2) by (simp add: read_separated_def)
  moreover have "replicate 5 (0 :: nat) = [0, 0, 0, 0, 0]" by code_simp
  ultimately show ?thesis using seg
    by (simp add: read_ipv6_def read_groups_end starts_with_def)
qed

lemma read_ipv6_show: "read_ipv6 (show_ipv6 a) = Some (a, [])"
proof (cases "ipv6_to_ipv4_mapped a")
  case (Some b)
  then show ?thesis by (simp add: show_ipv6_def read_ipv6_mapped del: append.simps)
next
  case None
  let ?gs = "ipv6_segments a"
  obtain start len where run: "zero_run ?gs 0 (0, 0) (0, 0) = (start, len)" by fastforce
  show ?thesis
  proof (cases "1 < len")
    case True
    note split = zero_run_split [OF run]
    have le: "start + len \<le> 8" using split(2) True by simp
    have "read_ipv6 (show_segments (take start ?gs) @ ''::'' @ show_segments (drop (start + len) ?gs))
        = Some (ipv6_of_segments (take start ?gs @ replicate len 0 @ drop (start + len) ?gs), [])"
      using True le segments_bound
      by (intro read_ipv6_compressed) (auto dest: in_set_takeD in_set_dropD)
    then show ?thesis using None run True split(1) by (simp add: show_ipv6_def Let_def)
  next
    case False
    then show ?thesis using None run segments_bound
      by (simp add: show_ipv6_def read_ipv6_plain Let_def)
  qed
qed

lemma show_ipv6_no_ipv4: "read_ipv4 (show_ipv6 a) = None"
proof (cases "ipv6_to_ipv4_mapped a")
  case (Some b)
  then show ?thesis by (simp add: show_ipv6_def)
next
  case None
  have seg: "read_ipv4 (show_segments gs @ r) = None"
    if ne: "gs \<noteq> []" and e: "ends_groups r" for gs r
  proof -
    obtain g gs' where gs: "gs = g # gs'" using ne by (cases gs) auto
    show ?thesis unfolding gs show_segments_Cons append_assoc
      using show_radix_16_no_dot groups_text_follow [OF e] by (intro read_ipv4_group)
  qed
  obtain start len where run: "zero_run (ipv6_segments a) 0 (0, 0) (0, 0) = (start, len)"
    by fastforce
  have "ipv6_segments a \<noteq> []" using length_segments [of a] by (metis length_0_conv zero_neq_numeral)
  then have plain: "read_ipv4 (show_segments (ipv6_segments a)) = None"
    using seg [of "ipv6_segments a" "[]"] by simp
  have "read_ipv4 (show_segments hs @ CHR '':'' # CHR '':'' # x) = None" for hs x
    using seg [of hs "CHR '':'' # CHR '':'' # x"] by (cases "hs = []") simp_all
  then show ?thesis using None run plain by (simp add: show_ipv6_def Let_def)
qed

lemma parse_ipv6_show [simp]: "parse_ipv6 (show_ipv6 a) = Some a"
  by (simp add: parse_ipv6_def parse_all_Some_iff read_ipv6_show)

lemma parse_ip_show_ipv6 [simp]: "parse_ip (show_ipv6 a) = Some (V6 a)"
  by (simp add: parse_ip_def parse_all_Some_iff read_ip_def show_ipv6_no_ipv4 read_ipv6_show)

lemma parse_ipv4_show_ipv6 [simp]: "parse_ipv4 (show_ipv6 a) = None"
  by (simp add: parse_ipv4_def parse_all_def show_ipv6_no_ipv4)

lemma parse_ip_show_ip [simp]: "parse_ip (show_ip a) = Some a"
  by (cases a) (simp_all add: show_ip_def)

end
