(* ===== verification/Routing_Table.thy ===== *)
theory Routing_Table
  imports Ip_Stack Ipv6_Text
begin

text \<open>
  \<open>neoncore-routing\<close>: the routing table of the packet path (destination address, CIDR, port and
  protocol rules), and the prefix comparison it shares with the kernel's router.
\<close>

section \<open>Prefixes\<close>

text \<open>\<open>u32::MAX << (32 - prefix)\<close>, and zero for the empty prefix, at width \<open>w\<close>.\<close>

definition prefix_mask :: "nat \<Rightarrow> nat \<Rightarrow> 'a :: len word" where
  "prefix_mask w p = (if p = 0 then 0 else push_bit (w - p) (- 1))"

definition cidr_matches_ip :: "ip_addr \<Rightarrow> string \<Rightarrow> bool" where
  "cidr_matches_ip ip cidr =
    (case split_once CHR ''/'' cidr of
       None \<Rightarrow> False
     | Some (base, plen) \<Rightarrow>
        (case parse_u8 plen of
           None \<Rightarrow> False
         | Some p \<Rightarrow>
            (case (ip, parse_ip base) of
               (V4 a, Some (V4 b)) \<Rightarrow> p \<le> 32 \<and> a AND prefix_mask 32 p = b AND prefix_mask 32 p
             | (V6 a, Some (V6 b)) \<Rightarrow> p \<le> 128 \<and> a AND prefix_mask 128 p = b AND prefix_mask 128 p
             | _ \<Rightarrow> False)))"

section \<open>Rules and decisions\<close>

datatype routing_mode = Global | RuleMode | DirectMode

datatype route_protocol = RouteTcp | RouteUdp

datatype route_matcher =
    MatchIp ip_addr
  | MatchCidr string
  | MatchPort u16
  | MatchProtocol route_protocol

datatype route_action = Proxy | Direct | Reject

record routing_rule =
  rule_id :: string
  matcher :: route_matcher
  action :: route_action
  enabled :: bool

record routing_table =
  mode :: routing_mode
  rules :: "routing_rule list"

fun matches_rule :: "route_matcher \<Rightarrow> flow \<Rightarrow> bool" where
  "matches_rule (MatchIp v) f = (address (destination f) = v)"
| "matches_rule (MatchCidr v) f = cidr_matches_ip (address (destination f)) v"
| "matches_rule (MatchPort v) f = (port (destination f) = v)"
| "matches_rule (MatchProtocol v) f =
    ((v, protocol f) = (RouteTcp, FlowTcp) \<or> (v, protocol f) = (RouteUdp, FlowUdp))"

definition decide :: "routing_table \<Rightarrow> flow \<Rightarrow> route_action" where
  "decide t f =
    (case mode t of
       DirectMode \<Rightarrow> Direct
     | Global \<Rightarrow> Proxy
     | RuleMode \<Rightarrow>
        (case find (\<lambda>r. matches_rule (matcher r) f) (filter enabled (rules t)) of
           Some r \<Rightarrow> action r
         | None \<Rightarrow> Proxy))"

section \<open>Prefix comparison\<close>

text \<open>Masking compares the leading bits: the numbers left after the host bits are dropped.\<close>

lemma mask_eq_iff_drop_bit:
  fixes x y :: "'a :: len word"
  shows "x AND push_bit k (- 1) = y AND push_bit k (- 1) \<longleftrightarrow> drop_bit k x = drop_bit k y"
proof
  assume a: "x AND push_bit k (- 1) = y AND push_bit k (- 1)"
  have "bit x (k + i) = bit y (k + i)" for i
  proof (cases "k + i < LENGTH('a)")
    case True
    have "bit (x AND push_bit k (- 1)) (k + i) = bit (y AND push_bit k (- 1)) (k + i)"
      using a by simp
    then show ?thesis using True by (simp add: bit_simps)
  next
    case False
    then show ?thesis by (metis bit_imp_le_length linorder_not_le)
  qed
  then show "drop_bit k x = drop_bit k y" by (intro bit_word_eqI) (simp add: bit_simps)
next
  assume a: "drop_bit k x = drop_bit k y"
  have "bit x i = bit y i" if "k \<le> i" for i
  proof -
    have "bit (drop_bit k x) (i - k) = bit (drop_bit k y) (i - k)" using a by simp
    then show ?thesis using that by (simp add: bit_simps)
  qed
  then show "x AND push_bit k (- 1) = y AND push_bit k (- 1)"
    by (intro bit_word_eqI) (auto simp: bit_simps)
qed

lemma prefix_mask_iff:
  fixes x y :: "'a :: len word"
  assumes "p \<le> LENGTH('a)"
  shows "x AND prefix_mask LENGTH('a) p = y AND prefix_mask LENGTH('a) p \<longleftrightarrow>
    unat x div 2 ^ (LENGTH('a) - p) = unat y div 2 ^ (LENGTH('a) - p)"
proof (cases "p = 0")
  case True
  have "unat z div 2 ^ LENGTH('a) = 0" for z :: "'a word"
    using unsigned_less [of z, where 'a = nat] by simp
  then show ?thesis using True by (simp add: prefix_mask_def)
next
  case False
  have drops: "drop_bit k x = drop_bit k y \<longleftrightarrow> unat x div 2 ^ k = unat y div 2 ^ k" for k
    by (simp only: word_unat_eq_iff unat_drop_bit_eq) (simp add: drop_bit_eq_div)
  show ?thesis unfolding prefix_mask_def if_not_P [OF False] mask_eq_iff_drop_bit by (rule drops)
qed

lemma no_slash_show_radix [simp]: "2 \<le> B \<Longrightarrow> B \<le> 16 \<Longrightarrow> CHR ''/'' \<notin> set (show_radix B n)"
  using show_radix_digits [of B n] by (auto simp: list_all_iff is_digit_char_def to_digit_def)

lemma set_str_join: "set (str_join sep xs) \<subseteq> set sep \<union> (\<Union>x \<in> set xs. set x)"
  by (induction sep xs rule: str_join.induct) auto

lemma no_slash_show_ipv4 [simp]: "CHR ''/'' \<notin> set (show_ipv4 a)"
  using set_str_join [of "''.''" "map (show_nat \<circ> unat) (ipv4_octets a)"]
  by (auto simp: show_ipv4_def show_nat_def)

lemma no_slash_show_segments [simp]: "CHR ''/'' \<notin> set (show_segments gs)"
  using set_str_join [of "'':''" "map (show_radix 16) gs"] by (auto simp: show_segments_def)

lemma no_slash_show_ipv6 [simp]: "CHR ''/'' \<notin> set (show_ipv6 a)"
  by (auto simp: show_ipv6_def Let_def split: option.splits prod.splits)

lemma split_once_cidr: "CHR ''/'' \<notin> set a \<Longrightarrow> split_once CHR ''/'' (a @ CHR ''/'' # b) = Some (a, b)"
  by (simp add: split_once_Some_iff)

lemma parse_u8_show [simp]: "p \<le> 255 \<Longrightarrow> parse_u8 (show_nat p) = Some p"
  by (simp add: parse_u8_def parse_unsigned_show_nat)

section \<open>Properties\<close>

text \<open>
  The CIDR test of a rule compares exactly the first \<open>p\<close> bits of the destination with those of
  the base address, for both address families and every prefix length; a prefix longer than the
  address, or a base of the other family, matches nothing.
\<close>

theorem cidr_matches_prefix:
  "cidr_matches_ip ip (show_ip base @ ''/'' @ show_nat p) \<longleftrightarrow>
    (case (ip, base) of
       (V4 a, V4 b) \<Rightarrow> p \<le> 32 \<and> unat a div 2 ^ (32 - p) = unat b div 2 ^ (32 - p)
     | (V6 a, V6 b) \<Rightarrow> p \<le> 128 \<and> unat a div 2 ^ (128 - p) = unat b div 2 ^ (128 - p)
     | _ \<Rightarrow> False)"
proof (cases "p \<le> 255")
  case True
  have s: "split_once CHR ''/'' (show_ip base @ ''/'' @ show_nat p) = Some (show_ip base, show_nat p)"
    by (cases base) (simp_all add: show_ip_def split_once_cidr)
  show ?thesis unfolding cidr_matches_ip_def s using True
    prefix_mask_iff [where 'a = 32] prefix_mask_iff [where 'a = 128]
    by (auto split: ip_addr.splits)
next
  case False
  have s: "split_once CHR ''/'' (show_ip base @ ''/'' @ show_nat p) = Some (show_ip base, show_nat p)"
    by (cases base) (simp_all add: show_ip_def split_once_cidr)
  have "parse_u8 (show_nat p) = None" using False by (simp add: parse_u8_def parse_unsigned_show)
  then show ?thesis unfolding cidr_matches_ip_def s using False by (auto split: ip_addr.splits)
qed

text \<open>
  In rule mode the decision is that of the first enabled rule that matches the flow; disabled
  rules have no effect, and a flow no enabled rule matches goes to the proxy.
\<close>

theorem decide_first_match:
  assumes "mode t = RuleMode"
  shows "decide t f = a \<longleftrightarrow>
    (\<exists>pre r post. rules t = pre @ r # post \<and> enabled r \<and> matches_rule (matcher r) f \<and> action r = a
      \<and> (\<forall>q \<in> set pre. \<not> (enabled q \<and> matches_rule (matcher q) f)))
    \<or> ((\<forall>q \<in> set (rules t). \<not> (enabled q \<and> matches_rule (matcher q) f)) \<and> a = Proxy)"
proof -
  let ?m = "\<lambda>r. enabled r \<and> matches_rule (matcher r) f"
  have d: "decide t f = (case find ?m (rules t) of Some r \<Rightarrow> action r | None \<Rightarrow> Proxy)"
    using assms by (simp add: decide_def find_filter)
  show ?thesis
  proof (cases "find ?m (rules t)")
    case None
    then have "\<forall>q \<in> set (rules t). \<not> ?m q" by (simp add: find_None_iff)
    then show ?thesis using d None by auto
  next
    case (Some r)
    then obtain pre post where r: "rules t = pre @ r # post" "?m r" "\<forall>q \<in> set pre. \<not> ?m q"
      unfolding find_eq_Some_iff by blast
    have "r' = r" if "rules t = pre' @ r' # post'" "?m r'" "\<forall>q \<in> set pre'. \<not> ?m q" for pre' r' post'
      using that Some find_eq_Some_iff [of ?m "rules t" r'] by auto
    then show ?thesis using d Some r by auto
  qed
qed

theorem decide_first_match_witness:
  "decide \<lparr>mode = RuleMode, rules =
      [\<lparr>rule_id = ''a'', matcher = MatchPort 80, action = Reject, enabled = False\<rparr>,
       \<lparr>rule_id = ''b'', matcher = MatchPort 80, action = Direct, enabled = True\<rparr>]\<rparr>
     \<lparr>source = \<lparr>address = V4 1, port = 1\<rparr>, destination = \<lparr>address = V4 2, port = 80\<rparr>,
      protocol = FlowTcp\<rparr> = Direct"
proof -
  let ?q = "\<lparr>rule_id = ''a'', matcher = MatchPort 80, action = Reject, enabled = False\<rparr>"
  let ?r = "\<lparr>rule_id = ''b'', matcher = MatchPort 80, action = Direct, enabled = True\<rparr>"
  let ?t = "\<lparr>mode = RuleMode, rules = [?q, ?r]\<rparr>"
  have "mode ?t = RuleMode" by simp
  moreover have "rules ?t = [?q] @ ?r # []" by simp
  ultimately show ?thesis by (subst decide_first_match) (auto intro!: exI [of _ "[?q]"])
qed

end
