(* ===== verification/Tun_Engine.thy ===== *)
theory Tun_Engine
  imports Routing_Table
begin

text \<open>
  \<open>neoncore-dns\<close> and \<open>neoncore-tun\<close>: the decision the packet path takes for one IP packet. DNS
  interception comes first, then routing; the decision carries the flow of the packet.
\<close>

section \<open>DNS interception\<close>

record dns_hijack_config =
  hijack_enabled :: bool
  hijack_port :: u16
  ipv4_servers :: "ip_addr list"
  ipv6_servers :: "ip_addr list"

datatype dns_interception = Hijack ip_addr u16 | Pass

definition default_dns_hijack :: dns_hijack_config where
  "default_dns_hijack =
    \<lparr>hijack_enabled = True, hijack_port = 53, ipv4_servers = [], ipv6_servers = []\<rparr>"

definition inspect :: "dns_hijack_config \<Rightarrow> flow \<Rightarrow> dns_interception" where
  "inspect c f =
    (if \<not> hijack_enabled c \<or> protocol f \<noteq> FlowUdp \<or> port (destination f) \<noteq> hijack_port c then Pass
     else if ipv4_servers c = [] \<and> ipv6_servers c = []
     then Hijack (address (destination f)) (port (destination f))
     else let servers = (if is_ipv4 (address (destination f)) then ipv4_servers c else ipv6_servers c)
       in if address (destination f) \<in> set servers
          then Hijack (address (destination f)) (port (destination f)) else Pass)"

definition looks_like_dns_query :: "bytes \<Rightarrow> (ip_stack_error, bool) res" where
  "looks_like_dns_query b =
    (if length b < 12 then Ok False
     else rbind (idx b 2) (\<lambda>b2. rbind (idx b 3) (\<lambda>b3. rbind (idx b 4) (\<lambda>b4. rbind (idx b 5) (\<lambda>b5.
       let flags = u16_from_be b2 b3; question_count = u16_from_be b4 b5
       in Ok (flags AND 0x8000 = 0 \<and> 0 < question_count))))))"

section \<open>The engine\<close>

record tun_config =
  routing :: routing_table
  dns_hijack :: dns_hijack_config

datatype drop_reason = UnsupportedPacket | RouteRejected | UnsupportedTransport

datatype tun_decision =
    ForwardTcp flow route_action
  | ForwardUdp flow route_action
  | InterceptDns flow
  | Drop drop_reason

definition is_dns_hijack :: "tun_config \<Rightarrow> bytes \<Rightarrow> flow \<Rightarrow> (ip_stack_error, bool) res" where
  "is_dns_hijack c packet f =
    (case inspect (dns_hijack c) f of
       Pass \<Rightarrow> Ok False
     | Hijack _ _ \<Rightarrow>
        (case parse_ip_packet packet of
           Inl Panic \<Rightarrow> Inl Panic
         | Inl (Fail _) \<Rightarrow> Ok False
         | Inr ip \<Rightarrow>
            (case (case ip of
                PacketV4 x \<Rightarrow> parse_transport (p4_protocol x) (p4_payload x)
              | PacketV6 x \<Rightarrow> parse_transport (p6_next_header x) (p6_payload x)) of
               Inl Panic \<Rightarrow> Inl Panic
             | Inr (TransportUdp d) \<Rightarrow> looks_like_dns_query (udp_payload d)
             | _ \<Rightarrow> Ok False)))"

definition inspect_packet :: "tun_config \<Rightarrow> bytes \<Rightarrow> (ip_stack_error, tun_decision) res" where
  "inspect_packet c packet =
    (case flow_from_packet packet of
       Inl Panic \<Rightarrow> Inl Panic
     | Inl (Fail _) \<Rightarrow> Ok (Drop UnsupportedPacket)
     | Inr f \<Rightarrow> rbind (is_dns_hijack c packet f) (\<lambda>hijacked.
         if hijacked then Ok (InterceptDns f)
         else (let action = decide (routing c) f in
           if action = Reject then Ok (Drop RouteRejected)
           else (case protocol f of
                   FlowTcp \<Rightarrow> Ok (ForwardTcp f action)
                 | FlowUdp \<Rightarrow> Ok (ForwardUdp f action)))))"

section \<open>The contract of the packet parser\<close>

text \<open>
  What the engine relies on: the flow of a packet is computed from the same parse that the engine
  repeats to look at the payload, so the second parse cannot fail or disagree.
\<close>

locale packet_parser =
  fixes parse :: "bytes \<Rightarrow> (ip_stack_error, ip_packet) res"
    and transport :: "ip_packet \<Rightarrow> (ip_stack_error, transport_packet) res"
    and flow_of_packet :: "bytes \<Rightarrow> (ip_stack_error, flow) res"
  assumes flow_parses: "flow_of_packet p = Ok f \<Longrightarrow>
      \<exists>ip t. parse p = Ok ip \<and> transport ip = Ok t
        \<and> (protocol f = FlowUdp \<longleftrightarrow> (\<exists>d. t = TransportUdp d))"
    and flow_total: "flow_of_packet p \<noteq> Inl Panic"
begin

lemma udp_payload_found:
  assumes "flow_of_packet p = Ok f" "protocol f = FlowUdp"
  shows "\<exists>ip d. parse p = Ok ip \<and> transport ip = Ok (TransportUdp d)"
  using flow_parses [OF assms(1)] assms(2) by auto

lemma flow_cases:
  obtains f where "flow_of_packet p = Ok f" | e where "flow_of_packet p = Err e"
proof (cases "flow_of_packet p")
  case (Inl x)
  then show ?thesis using flow_total [of p] that(2) by (cases x) auto
next
  case (Inr f)
  then show ?thesis using that(1) by auto
qed

end

definition transport_of :: "ip_packet \<Rightarrow> (ip_stack_error, transport_packet) res" where
  "transport_of ip = (case ip of
      PacketV4 x \<Rightarrow> parse_transport (p4_protocol x) (p4_payload x)
    | PacketV6 x \<Rightarrow> parse_transport (p6_next_header x) (p6_payload x))"

lemma flow_from_packet_Ok:
  assumes "flow_from_packet p = Ok f"
  shows "\<exists>ip t src dst. parse_ip_packet p = Ok ip \<and> transport_of ip = Ok t \<and> f = flow_of src dst t"
proof -
  obtain ip where "parse_ip_packet p = Ok ip"
    using assms by (auto simp: flow_from_packet_def rbind_Inr_iff)
  then show ?thesis using assms
    by (cases ip) (auto simp: flow_from_packet_def rbind_Inr_iff transport_of_def)
qed

lemma protocol_flow_of: "protocol (flow_of src dst t) = FlowUdp \<longleftrightarrow> (\<exists>d. t = TransportUdp d)"
  by (simp add: flow_of_def split: transport_packet.splits)

interpretation ip_parser: packet_parser parse_ip_packet transport_of flow_from_packet
proof
  fix p f
  assume "flow_from_packet p = Ok f"
  then obtain ip t src dst where "parse_ip_packet p = Ok ip" "transport_of ip = Ok t"
    and "f = flow_of src dst t" using flow_from_packet_Ok by blast
  then show "\<exists>ip t. parse_ip_packet p = Ok ip \<and> transport_of ip = Ok t
      \<and> (protocol f = FlowUdp \<longleftrightarrow> (\<exists>d. t = TransportUdp d))"
    using protocol_flow_of by blast
next
  fix p
  show "flow_from_packet p \<noteq> Inl Panic" by (rule flow_from_packet_no_panic)
qed

text \<open>The DNS test of the message inside: a query with at least one question.\<close>

definition dns_query_message :: "bytes \<Rightarrow> bool" where
  "dns_query_message b \<longleftrightarrow> 12 \<le> length b \<and> \<not> bit (b ! 2) 7 \<and> (b ! 4 \<noteq> 0 \<or> b ! 5 \<noteq> 0)"

lemma bit_iff_odd_unat: "bit w n \<longleftrightarrow> odd (unat w div 2 ^ n)"
  using bit_iff_odd [of "unat w" n] by (simp add: bit_unsigned_iff)

lemma u16_from_be_high_bit: "u16_from_be a b AND 0x8000 = 0 \<longleftrightarrow> \<not> bit a 7"
proof -
  have "unat (u16_from_be a b) = 256 * unat a + unat b"
    by (simp add: unat_u16_from_be be16_def)
  then have "bit (u16_from_be a b) 15 \<longleftrightarrow> odd ((256 * unat a + unat b) div 2 ^ 15)"
    by (simp add: bit_iff_odd_unat)
  also have "(256 * unat a + unat b) div 2 ^ 15 = unat a div 2 ^ 7"
  proof -
    have "(256 * x + y) div 32768 = x div 128" if "y < 256" for x y :: nat
      using that by linarith
    from this [of "unat b" "unat a"] show ?thesis by simp
  qed
  also have "odd (unat a div 2 ^ 7) \<longleftrightarrow> bit a 7"
    by (simp add: bit_iff_odd_unat)
  finally have bit15: "bit (u16_from_be a b) 15 \<longleftrightarrow> bit a 7" .
  have "u16_from_be a b AND 0x8000 = 0 \<longleftrightarrow> \<not> bit (u16_from_be a b) 15"
    using and_exp_eq_0_iff_not_bit [of "u16_from_be a b" 15] by simp
  then show ?thesis using bit15 by simp
qed

lemma u16_from_be_positive: "0 < u16_from_be a b \<longleftrightarrow> a \<noteq> 0 \<or> b \<noteq> 0"
proof -
  have "unat (u16_from_be a b) = 256 * unat a + unat b"
    by (simp add: unat_u16_from_be be16_def)
  then have "u16_from_be a b = 0 \<longleftrightarrow> a = 0 \<and> b = 0"
    by (metis add_is_0 mult_is_0 unat_0 unat_eq_zero zero_neq_numeral)
  then show ?thesis by (simp add: word_gt_0)
qed

lemma looks_like_dns_query_eq: "looks_like_dns_query b = Ok (dns_query_message b)"
  by (simp add: looks_like_dns_query_def dns_query_message_def u16_from_be_high_bit
      u16_from_be_positive Let_def)

lemma inspect_Hijack_udp: "inspect c f = Hijack a p \<Longrightarrow> protocol f = FlowUdp"
  by (auto simp: inspect_def Let_def split: if_splits)

text \<open>The second parse never takes a fallback branch.\<close>

lemma is_dns_hijack_eq:
  assumes "flow_from_packet p = Ok f"
  shows "\<exists>b. is_dns_hijack c p f = Ok b \<and> (b \<longleftrightarrow> (inspect (dns_hijack c) f \<noteq> Pass
    \<and> (\<exists>ip d. parse_ip_packet p = Ok ip \<and> transport_of ip = Ok (TransportUdp d)
         \<and> dns_query_message (udp_payload d))))"
proof (cases "inspect (dns_hijack c) f")
  case Pass
  then show ?thesis by (intro exI [of _ False]) (simp add: is_dns_hijack_def)
next
  case (Hijack a q)
  then obtain ip d where ip: "parse_ip_packet p = Ok ip" "transport_of ip = Ok (TransportUdp d)"
    using ip_parser.udp_payload_found [OF assms] inspect_Hijack_udp by blast
  then have "is_dns_hijack c p f = looks_like_dns_query (udp_payload d)"
    by (simp add: is_dns_hijack_def Hijack transport_of_def split: ip_packet.splits)
  then show ?thesis using ip Hijack by (auto simp: looks_like_dns_query_eq)
qed

section \<open>Properties\<close>

text \<open>
  The packet path decides every packet without a panic, and the decision is determined as
  follows: a packet without a TCP or UDP flow is dropped as unsupported; a UDP flow to a hijacked
  DNS server whose payload is a DNS query is intercepted; otherwise a flow the routing table
  rejects is dropped and any other is forwarded with its own protocol and the table's action.
\<close>

theorem inspect_packet_decision:
  "inspect_packet c p = Ok
    (case flow_from_packet p of
       Inl _ \<Rightarrow> Drop UnsupportedPacket
     | Inr f \<Rightarrow>
        if inspect (dns_hijack c) f \<noteq> Pass
          \<and> (\<exists>ip d. parse_ip_packet p = Ok ip \<and> transport_of ip = Ok (TransportUdp d)
               \<and> dns_query_message (udp_payload d))
        then InterceptDns f
        else if decide (routing c) f = Reject then Drop RouteRejected
        else if protocol f = FlowTcp then ForwardTcp f (decide (routing c) f)
        else ForwardUdp f (decide (routing c) f))"
proof (rule ip_parser.flow_cases [of p])
  fix f
  assume f: "flow_from_packet p = Ok f"
  obtain b where "is_dns_hijack c p f = Ok b" "b \<longleftrightarrow> (inspect (dns_hijack c) f \<noteq> Pass
    \<and> (\<exists>ip d. parse_ip_packet p = Ok ip \<and> transport_of ip = Ok (TransportUdp d)
         \<and> dns_query_message (udp_payload d)))"
    using is_dns_hijack_eq [OF f] by blast
  then show ?thesis using f by (simp add: inspect_packet_def Let_def split: flow_protocol.splits)
next
  fix e
  assume "flow_from_packet p = Err e"
  then show ?thesis by (simp add: inspect_packet_def)
qed

text \<open>
  End to end, an IPv4 UDP packet to port 53 that carries a DNS query is intercepted by the
  default configuration, whatever the routing table says, and the flow handed on names the
  endpoints the packet names.
\<close>

theorem ipv4_dns_query_intercepted:
  assumes "dns_hijack c = default_dns_hijack"
    and "length mid = 5" "length chk = 2" "length ck = 2" "length body \<le> 65507"
    and "dns_query_message body"
  shows "inspect_packet c
      (ipv4_wire tos mid 17 chk src dst [] (udp_wire sport 53 ck body []) trailer)
    = Ok (InterceptDns \<lparr>source = \<lparr>address = V4 src, port = sport\<rparr>,
        destination = \<lparr>address = V4 dst, port = 53\<rparr>, protocol = FlowUdp\<rparr>)"
proof -
  let ?u = "udp_wire sport 53 ck body []"
  let ?p = "ipv4_wire tos mid 17 chk src dst [] ?u trailer"
  have "length ?u = 8 + length body" using assms(4) by (simp add: udp_wire_def)
  then have ip: "parse_ip_packet ?p = Ok (PacketV4 \<lparr>p4_source = src, p4_destination = dst,
      p4_protocol = Udp, p4_payload = ?u\<rparr>)"
    using assms by (simp add: parse_ip_packet_wire_v4 protocol_from_number_def)
  have udp: "parse_transport Udp ?u
      = Ok (TransportUdp \<lparr>udp_source_port = sport, udp_destination_port = 53, udp_payload = body\<rparr>)"
    using assms by (simp add: parse_transport_def parse_udp_wire)
  have "flow_from_packet ?p = Ok \<lparr>source = \<lparr>address = V4 src, port = sport\<rparr>,
        destination = \<lparr>address = V4 dst, port = 53\<rparr>, protocol = FlowUdp\<rparr>"
    by (simp add: flow_from_packet_def ip udp flow_of_def)
  then show ?thesis using assms(1,6)
    by (simp add: inspect_packet_decision ip transport_of_def udp inspect_def default_dns_hijack_def)
qed

theorem ipv4_dns_query_intercepted_witness:
  "inspect_packet \<lparr>routing = \<lparr>mode = RuleMode, rules = []\<rparr>, dns_hijack = default_dns_hijack\<rparr>
      (ipv4_wire 0 [0, 0, 0, 0, 64] 17 [0, 0] 1 2 []
        (udp_wire 5353 53 [0, 0] [0x12, 0x34, 0, 0, 0, 1, 0, 0, 0, 0, 0, 0] []) [])
    = Ok (InterceptDns \<lparr>source = \<lparr>address = V4 1, port = 5353\<rparr>,
        destination = \<lparr>address = V4 2, port = 53\<rparr>, protocol = FlowUdp\<rparr>)"
  by (rule ipv4_dns_query_intercepted) (simp_all add: dns_query_message_def)

end
