(* ===== verification/Buffer_Pool.thy ===== *)
theory Buffer_Pool
  imports Prelude
begin

text \<open>
  \<open>neoncore-kernel/src/buffer_pool.rs\<close>: the thread-local pool of byte buffers. A buffer that is
  dropped is cleared and kept for the next user, within a bound on the number of buffers and on
  the capacity of each. The owner of a buffer may write to it and grow it before it is dropped.
\<close>

definition MAX_RETAINED_BUFFERS :: nat where "MAX_RETAINED_BUFFERS = 64"
definition MAX_RETAINED_CAPACITY :: nat where "MAX_RETAINED_CAPACITY = 256 * 1024"

text \<open>A \<open>Vec<u8>\<close>: its bytes and its capacity.\<close>

record byte_vec =
  vec_data :: bytes
  vec_capacity :: nat

definition vec_new :: byte_vec where
  "vec_new = \<lparr>vec_data = [], vec_capacity = 0\<rparr>"

definition vec_clear :: "byte_vec \<Rightarrow> byte_vec" where
  "vec_clear v = v\<lparr>vec_data := []\<rparr>"

text \<open>
  \<open>Vec::reserve(additional)\<close>: nothing when \<open>additional\<close> more bytes fit; otherwise the capacity
  grows to the required one or to twice the old one (and to at least 8).
\<close>

definition vec_reserve :: "nat \<Rightarrow> byte_vec \<Rightarrow> byte_vec" where
  "vec_reserve additional v =
    (if additional \<le> vec_capacity v - length (vec_data v) then v
     else v\<lparr>vec_capacity := max 8 (max (2 * vec_capacity v) (length (vec_data v) + additional))\<rparr>)"

type_synonym pool = "byte_vec list"

definition with_capacity :: "nat \<Rightarrow> pool \<Rightarrow> byte_vec \<times> pool" where
  "with_capacity capacity pool =
    (let (v, pool') = (if pool = [] then (vec_new, []) else (last pool, butlast pool));
         buffer = vec_clear v
     in (if vec_capacity buffer < capacity
         then vec_reserve (capacity - vec_capacity buffer) buffer else buffer, pool'))"

definition drop_buffer :: "byte_vec \<Rightarrow> pool \<Rightarrow> pool" where
  "drop_buffer v pool =
    (if MAX_RETAINED_CAPACITY < vec_capacity v then pool
     else if length pool < MAX_RETAINED_BUFFERS then pool @ [vec_clear v] else pool)"

text \<open>\<open>into_vec\<close> takes the vector out; the wrapper is then dropped with an empty one in it.\<close>

definition into_vec :: "byte_vec \<Rightarrow> pool \<Rightarrow> byte_vec \<times> pool" where
  "into_vec v pool = (v, drop_buffer vec_new pool)"

datatype pool_op = Acquire nat | Release byte_vec | IntoVec byte_vec

fun pool_step :: "pool \<Rightarrow> pool_op \<Rightarrow> pool" where
  "pool_step pool (Acquire n) = snd (with_capacity n pool)"
| "pool_step pool (Release v) = drop_buffer v pool"
| "pool_step pool (IntoVec v) = snd (into_vec v pool)"

definition pool_ok :: "pool \<Rightarrow> bool" where
  "pool_ok pool \<longleftrightarrow> length pool \<le> MAX_RETAINED_BUFFERS
     \<and> (\<forall>v \<in> set pool. vec_data v = [] \<and> vec_capacity v \<le> MAX_RETAINED_CAPACITY)"

lemma vec_clear_simps [simp]:
  "vec_data (vec_clear v) = []" "vec_capacity (vec_clear v) = vec_capacity v"
  by (simp_all add: vec_clear_def)

lemma drop_buffer_ok: "pool_ok pool \<Longrightarrow> pool_ok (drop_buffer v pool)"
  by (auto simp: pool_ok_def drop_buffer_def)

lemma snd_with_capacity [simp]: "snd (with_capacity n pool) = butlast pool"
  by (simp add: with_capacity_def Let_def)

lemma pool_step_ok: "pool_ok pool \<Longrightarrow> pool_ok (pool_step pool opn)"
proof (cases opn)
  case (Acquire n)
  assume "pool_ok pool"
  then show ?thesis using Acquire
    by (auto simp: pool_ok_def dest: in_set_butlastD)
qed (simp_all add: drop_buffer_ok into_vec_def)

lemma vec_reserve_data [simp]: "vec_data (vec_reserve n v) = vec_data v"
  by (simp add: vec_reserve_def)

lemma vec_reserve_capacity:
  "length (vec_data v) + n \<le> max (vec_capacity (vec_reserve n v)) (length (vec_data v) + n)
   \<and> (length (vec_data v) \<le> vec_capacity v \<longrightarrow> length (vec_data v) + n \<le> vec_capacity (vec_reserve n v))
   \<and> vec_capacity v \<le> vec_capacity (vec_reserve n v)"
  by (auto simp: vec_reserve_def)

section \<open>Properties\<close>

text \<open>
  Whatever a thread does with its buffers (take some, grow and fill them, drop them, turn them
  into vectors), its pool never keeps more than 64 of them or one above 256 KiB, and every buffer
  it keeps is empty: no bytes of one user reach the next.
\<close>

theorem pool_bounded: "pool_ok (fold (\<lambda>opn pool. pool_step pool opn) ops [])"
proof -
  have "pool_ok pool \<Longrightarrow> pool_ok (fold (\<lambda>opn pool. pool_step pool opn) ops pool)" for pool
    by (induction ops arbitrary: pool) (simp_all add: pool_step_ok)
  moreover have "pool_ok []" by (simp add: pool_ok_def)
  ultimately show ?thesis by blast
qed

text \<open>
  A pooled buffer starts empty, but its capacity need not be what was asked for:
  \<open>with_capacity\<close> reserves the difference to the old capacity on a buffer of length zero, so a
  reused buffer keeps its old capacity as soon as that is half of the request. A new buffer gets
  the full capacity, and half of it is always there.
\<close>

theorem with_capacity_at_least_half:
  "case with_capacity n pool of (v, pool') \<Rightarrow>
     vec_data v = [] \<and> n \<le> 2 * vec_capacity v
     \<and> vec_capacity v = (if pool = [] then (if n = 0 then 0 else max 8 n)
         else if n \<le> 2 * vec_capacity (last pool) then vec_capacity (last pool)
         else max 8 (max (2 * vec_capacity (last pool)) (n - vec_capacity (last pool))))"
  by (auto simp: with_capacity_def vec_reserve_def vec_new_def vec_clear_def Let_def)

end
