(* ===== verification/Kernel_Session.thy ===== *)
theory Kernel_Session
  imports Ipv6_Text
begin

text \<open>
  \<open>neoncore-kernel/src/session.rs\<close> and \<open>connection.rs\<close>: the session file the kernel is started
  with, the target of a connection, and the context one connection carries.
\<close>

section \<open>The session\<close>

text \<open>
  \<open>parameters\<close> is a JSON object; the kernel only asks for the string under a key. A key is absent,
  holds a string (\<open>Some (Some s)\<close>) or holds another JSON value (\<open>Some None\<close>).
\<close>

record kernel_node =
  node_id :: "string option"
  node_protocol :: string
  server :: string
  server_port :: u16
  user_id :: string
  parameters :: "string \<Rightarrow> string option option"

definition parameter :: "kernel_node \<Rightarrow> string \<Rightarrow> string option" where
  "parameter n key = (case parameters n key of Some (Some s) \<Rightarrow> Some s | _ \<Rightarrow> None)"

datatype kernel_routing_mode = KGlobal | KRule | KDirect

datatype kernel_rule_matcher =
    Domain string
  | DomainSuffix string
  | DomainKeyword string
  | Cidr string

datatype kernel_route_action = KProxy "string option" | KDirectAction | KReject

record kernel_route_rule =
  krule_id :: string
  krule_matcher :: kernel_rule_matcher
  krule_action :: kernel_route_action
  krule_enabled :: bool

record kernel_routing_config =
  krouting_mode :: kernel_routing_mode
  krouting_rules :: "kernel_route_rule list"

record host_mapping =
  hostname :: string
  mapped_address :: string

record kernel_dns_config =
  hosts :: "host_mapping list"
  prefer_ipv6 :: bool
  proxy_bootstrap_nameservers :: "string list"
  fake_ip_cidrs :: "string list"

record kernel_session =
  listen_host :: string
  listen_port :: u16
  selected_node :: kernel_node
  nodes :: "kernel_node list"
  session_routing :: kernel_routing_config
  session_dns :: kernel_dns_config

record target_address =
  host :: string
  target_port :: u16

definition default_proxy_bootstrap_nameservers :: "string list" where
  "default_proxy_bootstrap_nameservers =
    [''https://1.1.1.1/dns-query'', ''https://1.0.0.1/dns-query'', ''https://8.8.8.8/resolve'']"

definition default_fake_ip_cidrs :: "string list" where
  "default_fake_ip_cidrs = [''198.18.0.0/15'']"

definition default_kernel_dns_config :: kernel_dns_config where
  "default_kernel_dns_config = \<lparr>hosts = [], prefer_ipv6 = False,
     proxy_bootstrap_nameservers = default_proxy_bootstrap_nameservers,
     fake_ip_cidrs = default_fake_ip_cidrs\<rparr>"

definition show_target :: "target_address \<Rightarrow> string" where
  "show_target t = host t @ '':'' @ show_nat (unat (target_port t))"

section \<open>Connections\<close>

datatype network_capability = NetTcp | NetUdp

datatype inbound_kind = Socks5 | Socks5Udp | HttpConnect | HttpForward

record outbound_selection =
  tag :: "string option"
  selected_protocol :: string

record connection_context =
  connection_id :: u64
  inbound :: inbound_kind
  conn_target :: target_address
  network :: network_capability
  selected_outbound :: "outbound_selection option"

text \<open>The connection counter is an \<open>AtomicU64\<close>: \<open>fetch_add\<close> returns the old value and wraps.\<close>

definition new_connection ::
    "inbound_kind \<Rightarrow> target_address \<Rightarrow> network_capability \<Rightarrow> u64 \<Rightarrow> connection_context \<times> u64" where
  "new_connection kind t net counter =
    (\<lparr>connection_id = counter, inbound = kind, conn_target = t, network = net,
      selected_outbound = None\<rparr>, counter + 1)"

definition select_outbound :: "connection_context \<Rightarrow> kernel_node \<Rightarrow> connection_context" where
  "select_outbound c n =
    c\<lparr>selected_outbound := Some \<lparr>tag = node_id n, selected_protocol = node_protocol n\<rparr>\<rparr>"

section \<open>The address codec of a protocol\<close>

text \<open>
  Every protocol of the kernel writes a target host as an address (IPv4 or IPv6 when the text
  parses as one, a domain name otherwise) and reads it back with the number of bytes it took.
  The interface: an address that was encoded decodes to the host it was made from, whatever
  follows it.
\<close>

definition host_ok :: "string \<Rightarrow> bool" where
  "host_ok h \<longleftrightarrow> length h \<le> 255 \<and> utf8_valid (as_bytes h)"

text \<open>
  The host the peer reads: an IPv6 address comes back in its canonical form, everything else
  unchanged.
\<close>

definition canonical_host :: "string \<Rightarrow> string" where
  "canonical_host h =
    (case parse_ipv4 h of
       Some a \<Rightarrow> show_ipv4 a
     | None \<Rightarrow> (case parse_ipv6 h of Some a \<Rightarrow> show_ipv6 a | None \<Rightarrow> h))"

lemma canonical_host_ipv4: "parse_ipv4 h = Some a \<Longrightarrow> canonical_host h = h"
  by (simp add: canonical_host_def parse_ipv4_canonical)

lemma canonical_host_domain: "parse_ipv6 h = None \<Longrightarrow> canonical_host h = h"
  by (simp add: canonical_host_def parse_ipv4_canonical split: option.splits)

lemma canonical_host_idem [simp]: "canonical_host (canonical_host h) = canonical_host h"
  by (simp add: canonical_host_def split: option.splits)

locale address_codec =
  fixes encode :: "string \<Rightarrow> ('e, bytes) res"
    and decode :: "bytes \<Rightarrow> ('e, string \<times> nat) res"
  assumes encode_total: "host_ok h \<Longrightarrow> \<exists>bs. encode h = Ok bs"
    and encode_nonempty: "encode h = Ok bs \<Longrightarrow> bs \<noteq> []"
    and decode_encode: "utf8_valid (as_bytes h) \<Longrightarrow> encode h = Ok bs \<Longrightarrow>
      decode (bs @ rest) = Ok (canonical_host h, length bs)"
begin

text \<open>No address is a proper prefix of another: the boundary of an address is determined.\<close>

lemma encode_prefix_free:
  assumes "utf8_valid (as_bytes h)" "utf8_valid (as_bytes h')"
    and "encode h = Ok bs" "encode h' = Ok bs'" "bs @ r = bs' @ r'"
  shows "canonical_host h = canonical_host h' \<and> bs = bs' \<and> r = r'"
proof -
  have "decode (bs @ r) = Ok (canonical_host h, length bs)"
    using assms(1,3) by (rule decode_encode)
  moreover have "decode (bs @ r) = Ok (canonical_host h', length bs')"
    unfolding assms(5) using assms(2,4) by (rule decode_encode)
  ultimately have h: "canonical_host h = canonical_host h'" and l: "length bs = length bs'" by auto
  then show ?thesis using assms(5) by (simp add: append_eq_append_conv)
qed

end

end
