(* ===== verification/Kernel_Dns.thy ===== *)
theory Kernel_Dns
  imports Kernel_Session
begin

text \<open>
  \<open>neoncore-kernel/src/dns.rs\<close>: the resolver of connection targets and the resolver of proxy
  servers, each with a cache. The system resolver and the DNS-over-HTTPS request are code outside
  the repository: they are the parameters \<open>system\<close> and \<open>doh\<close>. An \<open>Instant\<close> is a number of
  nanoseconds; an operation reads the clock once before a lookup and once after it.
\<close>

section \<open>Data\<close>

definition secs :: "nat \<Rightarrow> nat" where "secs n = n * 1000000000"

definition DNS_CACHE_TTL :: nat where "DNS_CACHE_TTL = 300"
definition MIN_PROXY_TTL :: nat where "MIN_PROXY_TTL = 30"
definition MAX_PROXY_TTL :: nat where "MAX_PROXY_TTL = 3600"

datatype dns_error =
    InvalidMappedAddress
  | BlockedAddress ip_addr
  | BlockedMapping ip_addr
  | NoUsableAddress string
  | NoARecords string
  | NoSystemRecords
  | NoEndpoints
  | LookupFailed string

record dns_entry =
  expires_at :: nat
  entry_addresses :: "socket_addr list"

type_synonym dns_cache = "string \<Rightarrow> dns_entry option"

record doh_answer =
  record_type :: u16
  answer_ttl :: "u64 option"
  answer_data :: string

record bootstrap_lookup =
  lookup_addresses :: "ip_addr list"
  lookup_ttl :: nat

type_synonym system_lookup = "string \<Rightarrow> u16 \<Rightarrow> (dns_error, socket_addr list) res"
type_synonym doh_lookup = "string \<Rightarrow> (dns_error, doh_answer list option) res"

section \<open>The resolver of targets\<close>

definition cache_key :: "target_address \<Rightarrow> string" where
  "cache_key t = to_ascii_lowercase (host t) @ '':'' @ show_nat (unat (target_port t))"

definition mapped_host :: "kernel_dns_config \<Rightarrow> string \<Rightarrow> host_mapping option" where
  "mapped_host cfg h = find (\<lambda>e. eq_ignore_ascii_case (hostname e) h) (hosts cfg)"

definition cache_get :: "dns_cache \<Rightarrow> string \<Rightarrow> nat \<Rightarrow> socket_addr list option" where
  "cache_get cache key now =
    (case cache key of
       Some e \<Rightarrow> (if now < expires_at e then Some (entry_addresses e) else None)
     | None \<Rightarrow> None)"

definition resolve :: "kernel_dns_config \<Rightarrow> system_lookup \<Rightarrow> nat \<Rightarrow> nat \<Rightarrow> target_address
    \<Rightarrow> dns_cache \<Rightarrow> (dns_error, socket_addr list) res \<times> dns_cache" where
  "resolve cfg system now later t cache =
    (case parse_ip (host t) of
       Some ip \<Rightarrow> (Ok [\<lparr>sa_ip = ip, sa_port = target_port t\<rparr>], cache)
     | None \<Rightarrow>
    (case mapped_host cfg (host t) of
       Some m \<Rightarrow> (rbind (from_option InvalidMappedAddress (parse_ip (mapped_address m)))
                    (\<lambda>ip. Ok [\<lparr>sa_ip = ip, sa_port = target_port t\<rparr>]), cache)
     | None \<Rightarrow>
    (case cache_get cache (cache_key t) now of
       Some addresses \<Rightarrow> (Ok addresses, cache)
     | None \<Rightarrow>
    (case system (host t) (target_port t) of
       Inl e \<Rightarrow> (Inl e, cache)
     | Inr found \<Rightarrow>
         (let addresses = (if prefer_ipv6 cfg
            then sort_key (\<lambda>a. if is_ipv6 (sa_ip a) then 0 else 1 :: nat) found else found)
          in (Ok addresses, cache(cache_key t \<mapsto>
               \<lparr>expires_at = later + secs DNS_CACHE_TTL, entry_addresses = addresses\<rparr>)))))))"

section \<open>Addresses a proxy server may have\<close>

definition normalize_ip :: "ip_addr \<Rightarrow> ip_addr" where
  "normalize_ip ip =
    (case ip of
       V6 a \<Rightarrow> (case ipv6_to_ipv4_mapped a of Some b \<Rightarrow> V4 b | None \<Rightarrow> V6 a)
     | V4 a \<Rightarrow> V4 a)"

definition is_usable_ipv4 :: "u32 \<Rightarrow> string list \<Rightarrow> bool" where
  "is_usable_ipv4 a cidrs =
    (let octets = ipv4_octets a
     in \<not> (ipv4_is_unspecified a \<or> ipv4_is_link_local a \<or> ipv4_is_broadcast a)
        \<and> \<not> list_ex (\<lambda>cidr. cidr = ''198.18.0.0/15'' \<and> octets ! 0 = 198
              \<and> (octets ! 1 = 18 \<or> octets ! 1 = 19)) cidrs)"

definition is_usable_ipv6 :: "u128 \<Rightarrow> bool" where
  "is_usable_ipv6 a = (\<not> (ipv6_is_unspecified a \<or> ipv6_is_unicast_link_local a))"

definition is_usable_ip :: "kernel_dns_config \<Rightarrow> ip_addr \<Rightarrow> bool" where
  "is_usable_ip cfg ip =
    (case ip of V4 a \<Rightarrow> is_usable_ipv4 a (fake_ip_cidrs cfg) | V6 a \<Rightarrow> is_usable_ipv6 a)"

definition sort_addresses :: "bool \<Rightarrow> socket_addr list \<Rightarrow> socket_addr list" where
  "sort_addresses prefer6 =
    sort_key (\<lambda>a. if prefer6 then (if is_ipv6 (sa_ip a) then 0 else 1)
                  else if is_ipv4 (sa_ip a) then 0 else 1 :: nat)"

definition normalize_ttl :: "u64 \<Rightarrow> nat" where
  "normalize_ttl v = min (max (unat v) MIN_PROXY_TTL) MAX_PROXY_TTL"

section \<open>The lookup of a proxy server\<close>

definition bootstrap_endpoints :: "kernel_dns_config \<Rightarrow> string list" where
  "bootstrap_endpoints cfg =
    (if proxy_bootstrap_nameservers cfg = []
     then [''https://1.1.1.1/dns-query'', ''https://1.0.0.1/dns-query'', ''https://8.8.8.8/resolve'']
     else proxy_bootstrap_nameservers cfg)"

text \<open>The closure of \<open>filter_map\<close>: it keeps the parsed A records and overwrites the TTL.\<close>

fun doh_records :: "nat \<Rightarrow> doh_answer list \<Rightarrow> ip_addr list \<times> nat" where
  "doh_records ttl [] = ([], ttl)"
| "doh_records ttl (a # as) =
    (if record_type a \<noteq> 1 then doh_records ttl as
     else (let ttl' = (case answer_ttl a of Some v \<Rightarrow> normalize_ttl v | None \<Rightarrow> ttl);
               (ips, final) = doh_records ttl' as
           in (case parse_ip (answer_data a) of Some ip \<Rightarrow> ip # ips | None \<Rightarrow> ips, final)))"

definition doh_url :: "string \<Rightarrow> string \<Rightarrow> string" where
  "doh_url endpoint h = endpoint @ ''?name='' @ h @ ''&type=A''"

definition lookup_doh_endpoint ::
    "doh_lookup \<Rightarrow> string \<Rightarrow> string \<Rightarrow> (dns_error, bootstrap_lookup) res" where
  "lookup_doh_endpoint doh endpoint h =
    (let endpoint = str_trim_end_matches (CHR ''/'') endpoint
     in rbind (doh (doh_url endpoint h)) (\<lambda>answer.
        let (addresses, ttl) = doh_records DNS_CACHE_TTL (case answer of None \<Rightarrow> [] | Some as \<Rightarrow> as)
        in if addresses = [] then Err (NoARecords endpoint)
           else Ok \<lparr>lookup_addresses = addresses, lookup_ttl = ttl\<rparr>))"

fun try_endpoints :: "doh_lookup \<Rightarrow> string \<Rightarrow> dns_error fault option \<Rightarrow> string list
    \<Rightarrow> (dns_error, bootstrap_lookup) res" where
  "try_endpoints doh h last_error [] =
    Inl (case last_error of Some e \<Rightarrow> e | None \<Rightarrow> Fail NoEndpoints)"
| "try_endpoints doh h last_error (e # es) =
    (case lookup_doh_endpoint doh e h of
       Inr r \<Rightarrow> Ok r
     | Inl err \<Rightarrow> try_endpoints doh h (Some err) es)"

definition lookup_bootstrap ::
    "kernel_dns_config \<Rightarrow> doh_lookup \<Rightarrow> string \<Rightarrow> (dns_error, bootstrap_lookup) res" where
  "lookup_bootstrap cfg doh h = try_endpoints doh h None (bootstrap_endpoints cfg)"

definition lookup_system :: "system_lookup \<Rightarrow> string \<Rightarrow> (dns_error, bootstrap_lookup) res" where
  "lookup_system system h =
    rbind (system h 0) (\<lambda>found.
      let addresses = map sa_ip found
      in if addresses = [] then Err NoSystemRecords
         else Ok \<lparr>lookup_addresses = addresses, lookup_ttl = DNS_CACHE_TTL\<rparr>)"

definition checked_ip :: "kernel_dns_config \<Rightarrow> u16 \<Rightarrow> (ip_addr \<Rightarrow> dns_error) \<Rightarrow> ip_addr
    \<Rightarrow> (dns_error, socket_addr list) res" where
  "checked_ip cfg p blocked ip =
    (let ip = normalize_ip ip
     in if is_usable_ip cfg ip then Ok [\<lparr>sa_ip = ip, sa_port = p\<rparr>] else Err (blocked ip))"

definition resolve_proxy_server :: "kernel_dns_config \<Rightarrow> system_lookup \<Rightarrow> doh_lookup \<Rightarrow> nat \<Rightarrow> nat
    \<Rightarrow> target_address \<Rightarrow> dns_cache \<Rightarrow> (dns_error, socket_addr list) res \<times> dns_cache" where
  "resolve_proxy_server cfg system doh now later t cache =
    (case parse_ip (host t) of
       Some ip \<Rightarrow> (checked_ip cfg (target_port t) BlockedAddress ip, cache)
     | None \<Rightarrow>
    (case mapped_host cfg (host t) of
       Some m \<Rightarrow> (rbind (from_option InvalidMappedAddress (parse_ip (mapped_address m)))
                    (checked_ip cfg (target_port t) BlockedMapping), cache)
     | None \<Rightarrow>
    (case cache_get cache (cache_key t) now of
       Some addresses \<Rightarrow> (Ok addresses, cache)
     | None \<Rightarrow>
    (case (case lookup_bootstrap cfg doh (host t) of
             Inr l \<Rightarrow> Ok l | Inl _ \<Rightarrow> lookup_system system (host t)) of
       Inl e \<Rightarrow> (Inl e, cache)
     | Inr l \<Rightarrow>
         (let addresses = sort_addresses (prefer_ipv6 cfg)
                (map (\<lambda>ip. \<lparr>sa_ip = ip, sa_port = target_port t\<rparr>)
                  (filter (is_usable_ip cfg) (map normalize_ip (lookup_addresses l))))
          in if addresses = [] then (Err (NoUsableAddress (host t)), cache)
             else (Ok addresses, cache(cache_key t \<mapsto>
                    \<lparr>expires_at = later + secs (lookup_ttl l),
                     entry_addresses = addresses\<rparr>)))))))"

section \<open>Lemmas\<close>

lemma cache_key_inj:
  "cache_key t = cache_key t' \<longleftrightarrow>
    to_ascii_lowercase (host t) = to_ascii_lowercase (host t') \<and> target_port t = target_port t'"
proof
  assume eq: "cache_key t = cache_key t'"
  have no: "CHR '':'' \<notin> set (show_nat n)" for n
  proof
    assume "CHR '':'' \<in> set (show_nat n)"
    then have "is_digit_char 10 (CHR '':'')"
      using show_nat_digits [of n] unfolding list_all_iff by blast
    then show False by simp
  qed
  have "rsplit_once (CHR '':'') (cache_key x)
      = Some (to_ascii_lowercase (host x), show_nat (unat (target_port x)))" for x
    using rsplit_once_append [OF no] by (simp add: cache_key_def)
  from this [of t] this [of t'] eq
  have "to_ascii_lowercase (host t) = to_ascii_lowercase (host t')"
    and "show_nat (unat (target_port t)) = show_nat (unat (target_port t'))" by auto
  then show "to_ascii_lowercase (host t) = to_ascii_lowercase (host t') \<and> target_port t = target_port t'"
    by (auto dest!: show_nat_inj simp: word_unat_eq_iff)
qed (simp add: cache_key_def)

lemma mapped_host_lowercase:
  "to_ascii_lowercase h = to_ascii_lowercase h' \<Longrightarrow> mapped_host cfg h = mapped_host cfg h'"
  by (simp add: mapped_host_def eq_ignore_ascii_case_def)

lemma normalize_ip_idem [simp]: "normalize_ip (normalize_ip ip) = normalize_ip ip"
  by (simp add: normalize_ip_def split: ip_addr.splits option.splits)

definition address_rank :: "bool \<Rightarrow> socket_addr \<Rightarrow> nat" where
  "address_rank prefer6 a =
    (if prefer6 then (if is_ipv6 (sa_ip a) then 0 else 1) else if is_ipv4 (sa_ip a) then 0 else 1)"

definition proxy_addresses_ok :: "kernel_dns_config \<Rightarrow> u16 \<Rightarrow> socket_addr list \<Rightarrow> bool" where
  "proxy_addresses_ok cfg p as \<longleftrightarrow> as \<noteq> []
     \<and> (\<forall>a \<in> set as. is_usable_ip cfg (sa_ip a) \<and> normalize_ip (sa_ip a) = sa_ip a \<and> sa_port a = p)
     \<and> sorted (map (address_rank (prefer_ipv6 cfg)) as)"

definition proxy_cache_ok :: "kernel_dns_config \<Rightarrow> dns_cache \<Rightarrow> bool" where
  "proxy_cache_ok cfg cache \<longleftrightarrow>
    (\<forall>t e. cache (cache_key t) = Some e \<longrightarrow> proxy_addresses_ok cfg (target_port t) (entry_addresses e))"

lemma checked_ip_ok: "checked_ip cfg p b ip = Ok as \<Longrightarrow> proxy_addresses_ok cfg p as"
  by (auto simp: checked_ip_def proxy_addresses_ok_def Let_def split: if_splits)

lemma sort_addresses_ok:
  assumes "as = sort_addresses (prefer_ipv6 cfg)
      (map (\<lambda>ip. \<lparr>sa_ip = ip, sa_port = p\<rparr>) (filter (is_usable_ip cfg) (map normalize_ip ips)))"
    and "as \<noteq> []"
  shows "proxy_addresses_ok cfg p as"
  using assms unfolding proxy_addresses_ok_def sort_addresses_def address_rank_def
  by (auto simp del: sort_key_simps)

lemma cache_get_ok:
  "proxy_cache_ok cfg cache \<Longrightarrow> cache_get cache (cache_key t) now = Some as
    \<Longrightarrow> proxy_addresses_ok cfg (target_port t) as"
  by (auto simp: proxy_cache_ok_def cache_get_def split: option.splits if_splits)

lemma cache_put_ok:
  "proxy_cache_ok cfg cache \<Longrightarrow> proxy_addresses_ok cfg (target_port t) (entry_addresses e)
    \<Longrightarrow> proxy_cache_ok cfg (cache(cache_key t \<mapsto> e))"
  by (auto simp: proxy_cache_ok_def cache_key_inj)

lemma normalize_ttl_range: "MIN_PROXY_TTL \<le> normalize_ttl v \<and> normalize_ttl v \<le> MAX_PROXY_TTL"
  by (simp add: normalize_ttl_def MIN_PROXY_TTL_def MAX_PROXY_TTL_def)

definition ttl_ok :: "nat \<Rightarrow> bool" where
  "ttl_ok n \<longleftrightarrow> MIN_PROXY_TTL \<le> n \<and> n \<le> MAX_PROXY_TTL"

lemma doh_records_ttl: "ttl_ok ttl \<Longrightarrow> ttl_ok (snd (doh_records ttl as))"
proof (induction as arbitrary: ttl)
  case Nil
  then show ?case by simp
next
  case (Cons a as)
  have "ttl_ok (case answer_ttl a of Some v \<Rightarrow> normalize_ttl v | None \<Rightarrow> ttl)"
    using Cons.prems normalize_ttl_range by (simp add: ttl_ok_def split: option.splits)
  from Cons.IH [OF this] Cons.IH [OF Cons.prems] show ?case
    by (simp add: Let_def case_prod_unfold)
qed

lemma lookup_doh_endpoint_ttl: "lookup_doh_endpoint doh e h = Ok l \<Longrightarrow>
    ttl_ok (lookup_ttl l) \<and> lookup_addresses l \<noteq> []"
  using doh_records_ttl [of DNS_CACHE_TTL]
  by (auto simp: lookup_doh_endpoint_def Let_def rbind_Inr_iff case_prod_unfold ttl_ok_def
      DNS_CACHE_TTL_def MIN_PROXY_TTL_def MAX_PROXY_TTL_def split: if_splits)

lemma try_endpoints_Ok_iff:
  "try_endpoints doh h le es = Ok l \<longleftrightarrow>
    (\<exists>pre e post. es = pre @ e # post \<and> (\<forall>q \<in> set pre. \<exists>err. lookup_doh_endpoint doh q h = Inl err)
       \<and> lookup_doh_endpoint doh e h = Ok l)"
proof
  show "\<exists>pre e post. es = pre @ e # post \<and> (\<forall>q \<in> set pre. \<exists>err. lookup_doh_endpoint doh q h = Inl err)
       \<and> lookup_doh_endpoint doh e h = Ok l"
    if "try_endpoints doh h le es = Ok l"
    using that
  proof (induction es arbitrary: le)
    case Nil
    then show ?case by simp
  next
    case (Cons a es)
    show ?case
    proof (cases "lookup_doh_endpoint doh a h")
      case (Inl err)
      then have "try_endpoints doh h (Some err) es = Ok l" using Cons.prems by simp
      from Cons.IH [OF this] obtain pre e post where "es = pre @ e # post"
        "\<forall>q \<in> set pre. \<exists>err. lookup_doh_endpoint doh q h = Inl err"
        "lookup_doh_endpoint doh e h = Ok l" by blast
      then show ?thesis using Inl by (intro exI [of _ "a # pre"] exI [of _ e] exI [of _ post]) simp
    next
      case (Inr r)
      then have "a # es = [] @ a # es \<and> (\<forall>q \<in> set []. \<exists>err. lookup_doh_endpoint doh q h = Inl err)
        \<and> lookup_doh_endpoint doh a h = Ok l" using Cons.prems by simp
      then show ?thesis by blast
    qed
  qed
next
  have "try_endpoints doh h le (pre @ e # post) = Ok l"
    if "\<forall>q \<in> set pre. \<exists>err. lookup_doh_endpoint doh q h = Inl err"
      "lookup_doh_endpoint doh e h = Ok l" for pre e post
    using that by (induction pre arbitrary: le) auto
  then show "try_endpoints doh h le es = Ok l"
    if "\<exists>pre e post. es = pre @ e # post \<and> (\<forall>q \<in> set pre. \<exists>err. lookup_doh_endpoint doh q h = Inl err)
       \<and> lookup_doh_endpoint doh e h = Ok l"
    using that by blast
qed

section \<open>Properties\<close>



text \<open>
  The bootstrap lookup asks the configured endpoints in order and takes the first that
  answers with at least one A record; its TTL lies between 30 seconds and an hour whatever the
  endpoint says, so no entry of the cache is kept forever or expires at once.
\<close>

theorem bootstrap_first_answer:
  "lookup_bootstrap cfg doh h = Ok l \<longleftrightarrow>
    (\<exists>pre e post. bootstrap_endpoints cfg = pre @ e # post
       \<and> (\<forall>q \<in> set pre. \<exists>err. lookup_doh_endpoint doh q h = Inl err)
       \<and> lookup_doh_endpoint doh e h = Ok l
       \<and> lookup_addresses l \<noteq> [] \<and> 30 \<le> lookup_ttl l \<and> lookup_ttl l \<le> 3600)"
  unfolding lookup_bootstrap_def try_endpoints_Ok_iff
  using lookup_doh_endpoint_ttl [of doh _ h l]
  by (auto simp: ttl_ok_def MIN_PROXY_TTL_def MAX_PROXY_TTL_def)

theorem bootstrap_first_answer_witness:
  "lookup_bootstrap default_kernel_dns_config
     (\<lambda>url. if url = ''https://1.0.0.1/dns-query?name=h&type=A''
        then Ok (Some [\<lparr>record_type = 1, answer_ttl = Some 5, answer_data = ''9.9.9.9''\<rparr>])
        else Err (LookupFailed ''timeout'')) ''h''
   = Ok \<lparr>lookup_addresses = [V4 0x09090909], lookup_ttl = 30\<rparr>"
proof -
  let ?doh = "\<lambda>url. if url = ''https://1.0.0.1/dns-query?name=h&type=A''
        then Ok (Some [\<lparr>record_type = 1, answer_ttl = Some 5, answer_data = ''9.9.9.9''\<rparr>])
        else Err (LookupFailed ''timeout'') :: (dns_error, doh_answer list option) res"
  let ?l = "\<lparr>lookup_addresses = [V4 0x09090909], lookup_ttl = 30\<rparr>"
  have "bootstrap_endpoints default_kernel_dns_config = [''https://1.1.1.1/dns-query'']
      @ ''https://1.0.0.1/dns-query'' # [''https://8.8.8.8/resolve'']" by code_simp
  moreover have "lookup_doh_endpoint ?doh ''https://1.1.1.1/dns-query'' ''h'' = Err (LookupFailed ''timeout'')"
    "lookup_doh_endpoint ?doh ''https://1.0.0.1/dns-query'' ''h'' = Ok ?l" by code_simp+
  ultimately have "\<exists>pre e post. bootstrap_endpoints default_kernel_dns_config = pre @ e # post
       \<and> (\<forall>q \<in> set pre. \<exists>err. lookup_doh_endpoint ?doh q ''h'' = Inl err)
       \<and> lookup_doh_endpoint ?doh e ''h'' = Ok ?l
       \<and> lookup_addresses ?l \<noteq> [] \<and> 30 \<le> lookup_ttl ?l \<and> lookup_ttl ?l \<le> 3600"
    by (intro exI [of _ "[''https://1.1.1.1/dns-query'']"] exI [of _ "''https://1.0.0.1/dns-query''"]
        exI [of _ "[''https://8.8.8.8/resolve'']"]) simp
  then show ?thesis unfolding bootstrap_first_answer .
qed

text \<open>
  The answer of a lookup is kept for five minutes. After a lookup of a name, every request
  for the same name (in any case) and port within 300 seconds of it returns the same addresses
  in the same order and asks no server, whatever the system resolver would say by then.
\<close>

theorem resolve_uses_cache:
  assumes "resolve cfg system now later t cache = (Ok as, cache')"
    and "parse_ip (host t) = None" "parse_ip (host t') = None"
    and "cache_get cache (cache_key t) now = None"
    and "to_ascii_lowercase (host t') = to_ascii_lowercase (host t)" "target_port t' = target_port t"
    and "now' < later + secs 300"
  shows "resolve cfg system' now' later' t' cache' = (Ok as, cache')"
proof -
  have key: "cache_key t' = cache_key t" using assms(5,6) by (simp add: cache_key_def)
  have map: "mapped_host cfg (host t') = mapped_host cfg (host t)"
    using mapped_host_lowercase [OF assms(5)] .
  show ?thesis
  proof (cases "mapped_host cfg (host t)")
    case (Some m)
    then show ?thesis using assms(1-3,6) map by (auto simp: resolve_def)
  next
    case None
    then obtain found where "system (host t) (target_port t) = Ok found"
      using assms(1,2,4) by (auto simp: resolve_def split: sum.splits)
    then have "cache' = cache(cache_key t \<mapsto> \<lparr>expires_at = later + secs 300, entry_addresses = as\<rparr>)"
      using assms(1,2,4) None by (auto simp: resolve_def Let_def DNS_CACHE_TTL_def)
    then show ?thesis using assms(3,7) None map key by (simp add: resolve_def cache_get_def)
  qed
qed

theorem resolve_uses_cache_witness:
  "\<exists>c. resolve default_kernel_dns_config (\<lambda>_ _. Err (LookupFailed ''down'')) (secs 299) 0
     \<lparr>host = ''LocalHost'', target_port = 80\<rparr> c = (Ok [\<lparr>sa_ip = V4 1, sa_port = 80\<rparr>], c)"
proof -
  let ?s = "\<lambda>h p. Ok [\<lparr>sa_ip = V4 1, sa_port = p\<rparr>] :: (dns_error, socket_addr list) res"
  let ?t = "\<lparr>host = ''localhost'', target_port = 80\<rparr>"
  let ?t' = "\<lparr>host = ''LocalHost'', target_port = 80\<rparr>"
  have ip: "parse_ip (host ?t) = None" "parse_ip (host ?t') = None"
    "to_ascii_lowercase (host ?t') = to_ascii_lowercase (host ?t)" by code_simp+
  then obtain c where "resolve default_kernel_dns_config ?s 0 0 ?t Map.empty
      = (Ok [\<lparr>sa_ip = V4 1, sa_port = 80\<rparr>], c)"
    by (simp add: resolve_def mapped_host_def default_kernel_dns_config_def cache_get_def Let_def)
  then show ?thesis
    using resolve_uses_cache [OF _ ip(1) ip(2) _ ip(3), of default_kernel_dns_config ?s 0 0
        Map.empty _ c "secs 299" "\<lambda>_ _. Err (LookupFailed ''down'')" 0]
    by (auto simp: cache_get_def secs_def)
qed

end
