(* ===== verification/Kernel_Router.thy ===== *)
theory Kernel_Router
  imports Kernel_Session Routing_Table
begin

text \<open>
  \<open>neoncore-kernel/src/routing.rs\<close>: the router of the proxy path. It matches the target's host
  (by name or, for a literal address, by CIDR) and names the node a connection goes out through.
\<close>

datatype route_decision = DecideProxy kernel_node | DecideDirect | DecideReject

datatype router_error = UnknownNode string

record router =
  router_selected :: kernel_node
  router_nodes :: "kernel_node list"
  router_config :: kernel_routing_config

definition new_router :: "kernel_session \<Rightarrow> router" where
  "new_router s = \<lparr>router_selected = selected_node s, router_nodes = nodes s,
     router_config = session_routing s\<rparr>"

definition matches_cidr :: "string \<Rightarrow> string \<Rightarrow> bool" where
  "matches_cidr h cidr =
    (case parse_ip h of None \<Rightarrow> False | Some ip \<Rightarrow> cidr_matches_ip ip cidr)"

fun matches_kernel_rule :: "kernel_rule_matcher \<Rightarrow> target_address \<Rightarrow> bool" where
  "matches_kernel_rule (Domain v) t = eq_ignore_ascii_case (host t) v"
| "matches_kernel_rule (DomainSuffix v) t =
    ends_with (to_ascii_lowercase (host t)) (to_ascii_lowercase v)"
| "matches_kernel_rule (DomainKeyword v) t =
    str_contains (to_ascii_lowercase (host t)) (to_ascii_lowercase v)"
| "matches_kernel_rule (Cidr v) t = matches_cidr (host t) v"

definition node_for :: "router \<Rightarrow> string option \<Rightarrow> (router_error, kernel_node) res" where
  "node_for r wanted =
    (case wanted of
       None \<Rightarrow> Ok (router_selected r)
     | Some i \<Rightarrow> from_option (UnknownNode i)
         (find (\<lambda>n. node_id n = Some i) (router_nodes r @ [router_selected r])))"

fun decide_rules :: "router \<Rightarrow> target_address \<Rightarrow> kernel_route_rule list
    \<Rightarrow> (router_error, route_decision) res" where
  "decide_rules r t [] = Ok (DecideProxy (router_selected r))"
| "decide_rules r t (rule # rest) =
    (if \<not> matches_kernel_rule (krule_matcher rule) t then decide_rules r t rest
     else (case krule_action rule of
             KDirectAction \<Rightarrow> Ok DecideDirect
           | KReject \<Rightarrow> Ok DecideReject
           | KProxy i \<Rightarrow> rbind (node_for r i) (\<lambda>n. Ok (DecideProxy n))))"

definition router_decide :: "router \<Rightarrow> target_address \<Rightarrow> (router_error, route_decision) res" where
  "router_decide r t =
    (case krouting_mode (router_config r) of
       KDirect \<Rightarrow> Ok DecideDirect
     | KGlobal \<Rightarrow> Ok (DecideProxy (router_selected r))
     | KRule \<Rightarrow> decide_rules r t (filter krule_enabled (krouting_rules (router_config r))))"

section \<open>Lemmas\<close>

lemma node_for_in:
  "node_for r i = Ok n \<Longrightarrow> n \<in> insert (router_selected r) (set (router_nodes r))"
  by (auto simp: node_for_def from_option_def find_eq_Some_iff split: option.splits)
    (metis in_set_conv_decomp insert_iff list.set(2) rotate1.simps(2) set_rotate1)

lemma node_for_id:
  "node_for r (Some i) = Ok n \<Longrightarrow> node_id n = Some i"
  by (auto simp: node_for_def from_option_def find_eq_Some_iff split: option.splits)

lemma node_for_error:
  "node_for r i = Err e \<longleftrightarrow> (\<exists>j. i = Some j \<and> e = UnknownNode j
    \<and> (\<forall>n \<in> insert (router_selected r) (set (router_nodes r)). node_id n \<noteq> Some j))"
proof (cases i)
  case None
  then show ?thesis by (simp add: node_for_def)
next
  case (Some j)
  show ?thesis
  proof (cases "find (\<lambda>n. node_id n = Some j) (router_nodes r @ [router_selected r])")
    case None
    then have "\<forall>n \<in> insert (router_selected r) (set (router_nodes r)). node_id n \<noteq> Some j"
      by (auto simp: find_None_iff)
    then show ?thesis using None Some by (auto simp: node_for_def)
  next
    case (Some n)
    then have "node_id n = Some j" "n \<in> insert (router_selected r) (set (router_nodes r))"
      by (auto simp: find_Some_iff nth_append split: if_splits)
    then show ?thesis using Some \<open>i = Some j\<close> by (auto simp: node_for_def)
  qed
qed

lemma node_for_no_panic: "node_for r i \<noteq> Inl Panic"
  by (auto simp: node_for_def from_option_def split: option.splits)

definition rule_outcome :: "router \<Rightarrow> kernel_route_action \<Rightarrow> (router_error, route_decision) res" where
  "rule_outcome r a =
    (case a of
       KDirectAction \<Rightarrow> Ok DecideDirect
     | KReject \<Rightarrow> Ok DecideReject
     | KProxy i \<Rightarrow> rbind (node_for r i) (\<lambda>n. Ok (DecideProxy n)))"

lemma decide_rules_eq:
  "decide_rules r t rs =
    (case find (\<lambda>rule. matches_kernel_rule (krule_matcher rule) t) rs of
       None \<Rightarrow> Ok (DecideProxy (router_selected r))
     | Some rule \<Rightarrow> rule_outcome r (krule_action rule))"
  by (induction rs) (simp_all add: rule_outcome_def)

lemma router_decide_known:
  "case router_decide r t of
     Inr (DecideProxy n) \<Rightarrow> n \<in> insert (router_selected r) (set (router_nodes r))
   | Inr _ \<Rightarrow> True
   | Inl e \<Rightarrow> (\<exists>i. e = Fail (UnknownNode i)
       \<and> (\<forall>n \<in> insert (router_selected r) (set (router_nodes r)). node_id n \<noteq> Some i))"
proof -
  have out: "case rule_outcome r a of
     Inr (DecideProxy n) \<Rightarrow> n \<in> insert (router_selected r) (set (router_nodes r))
   | Inr _ \<Rightarrow> True
   | Inl e \<Rightarrow> (\<exists>i. e = Fail (UnknownNode i)
       \<and> (\<forall>n \<in> insert (router_selected r) (set (router_nodes r)). node_id n \<noteq> Some i))" for a
  proof (cases a)
    case (KProxy i)
    show ?thesis
    proof (cases "node_for r i")
      case (Inr n)
      then show ?thesis using node_for_in [of r i n] KProxy by (simp add: rule_outcome_def)
    next
      case (Inl e)
      then obtain e' where e: "node_for r i = Err e'"
        using node_for_no_panic [of r i] by (cases e) simp_all
      then show ?thesis using node_for_error [of r i e'] KProxy by (auto simp: rule_outcome_def)
    qed
  qed (simp_all add: rule_outcome_def)
  show ?thesis
    using out by (auto simp: router_decide_def decide_rules_eq
        split: kernel_routing_mode.splits option.splits)
qed

section \<open>Properties\<close>


definition example_node :: "string \<Rightarrow> kernel_node" where
  "example_node i = \<lparr>node_id = Some i, node_protocol = ''direct'', server = ''unused'',
     server_port = 1, user_id = [], parameters = (\<lambda>_. None)\<rparr>"


text \<open>
  A connection the router sends to a proxy goes out through a node of the session (the
  selected node or one of the node list); a rule that names a node id gets a node with that id,
  and the only error is a rule that names an id no node of the session has.
\<close>

theorem router_node_known:
  "case router_decide r t of
     Inr (DecideProxy n) \<Rightarrow> n \<in> insert (router_selected r) (set (router_nodes r))
   | Inr _ \<Rightarrow> True
   | Inl e \<Rightarrow> (\<exists>i. e = Fail (UnknownNode i)
       \<and> (\<forall>n \<in> insert (router_selected r) (set (router_nodes r)). node_id n \<noteq> Some i))"
  by (rule router_decide_known)

theorem router_node_known_witness:
  "router_decide \<lparr>router_selected = example_node ''a'', router_nodes = [],
      router_config = \<lparr>krouting_mode = KRule, krouting_rules =
        [\<lparr>krule_id = ''r'', krule_matcher = DomainKeyword [],
          krule_action = KProxy (Some ''b''), krule_enabled = True\<rparr>]\<rparr>\<rparr>
     \<lparr>host = ''h'', target_port = 80\<rparr> = Err (UnknownNode ''b'')"
proof -
  let ?r = "\<lparr>router_selected = example_node ''a'', router_nodes = [],
      router_config = \<lparr>krouting_mode = KRule, krouting_rules =
        [\<lparr>krule_id = ''r'', krule_matcher = DomainKeyword [],
          krule_action = KProxy (Some ''b''), krule_enabled = True\<rparr>]\<rparr>\<rparr>"
  show ?thesis
    using router_node_known [of ?r "\<lparr>host = ''h'', target_port = 80\<rparr>"]
    by (simp add: router_decide_def decide_rules_eq rule_outcome_def node_for_def example_node_def
        starts_with_def to_ascii_lowercase_def)
qed

end
