(* ===== verification/Kernel_Runtime.thy ===== *)
theory Kernel_Runtime
  imports Kernel_Router Kernel_Dns
begin

text \<open>
  \<open>neoncore-kernel/src/adapter/mod.rs\<close>, \<open>outbound.rs\<close>, the runtime of \<open>main.rs\<close>, and the two
  adapters without a protocol of their own (\<open>adapter/direct.rs\<close>, \<open>adapter/http.rs\<close>). The adapters
  are trait objects: their names and networks are functions of the adapter, what an adapter does
  with a connection is an argument of the runtime's operations. Sockets are code outside the
  repository: \<open>tcp\<close> gives for an address the bytes the peer will send, or an error.
\<close>

section \<open>The registry of adapters\<close>

datatype outbound_adapter =
    DirectAdapter | HttpAdapter | ShadowsocksAdapter | Hy2Adapter | VlessAdapter | AnyTlsAdapter

fun protocol_names :: "outbound_adapter \<Rightarrow> string list" where
  "protocol_names DirectAdapter = [''direct'']"
| "protocol_names HttpAdapter = [''http'', ''https'']"
| "protocol_names ShadowsocksAdapter = [''ss'', ''shadowsocks'', ''ssr'', ''shadowsocksr'']"
| "protocol_names Hy2Adapter = [''hysteria2'', ''hy2'']"
| "protocol_names VlessAdapter = [''vless'']"
| "protocol_names AnyTlsAdapter = [''anytls'']"

fun networks :: "outbound_adapter \<Rightarrow> network_capability list" where
  "networks HttpAdapter = [NetTcp]"
| "networks DirectAdapter = [NetTcp, NetUdp]"
| "networks ShadowsocksAdapter = [NetTcp, NetUdp]"
| "networks Hy2Adapter = [NetTcp, NetUdp]"
| "networks VlessAdapter = [NetTcp, NetUdp]"
| "networks AnyTlsAdapter = [NetTcp, NetUdp]"

definition OUTBOUND_ADAPTERS :: "outbound_adapter list" where
  "OUTBOUND_ADAPTERS =
    [DirectAdapter, HttpAdapter, ShadowsocksAdapter, Hy2Adapter, VlessAdapter, AnyTlsAdapter]"

datatype kernel_error =
    RouterError router_error
  | RouteRejected target_address
  | UnsupportedProtocol string
  | UnsupportedNetwork string network_capability
  | NotLoopback
  | InvalidSelectedEndpoint
  | InvalidHttpEndpoint
  | DnsError dns_error
  | NoResolvedAddress
  | ConnectFailed
  | UnexpectedEof
  | NotUtf8
  | HeadTooLarge
  | HttpConnectFailed
  | AdapterError string

definition lift_err :: "('e \<Rightarrow> 'f) \<Rightarrow> ('e, 'a) res \<Rightarrow> ('f, 'a) res" where
  "lift_err f r = (case r of Inr x \<Rightarrow> Ok x | Inl Panic \<Rightarrow> Inl Panic | Inl (Fail e) \<Rightarrow> Err (f e))"

definition adapter_for :: "string \<Rightarrow> (kernel_error, outbound_adapter) res" where
  "adapter_for proto =
    from_option (UnsupportedProtocol proto)
      (find (\<lambda>a. list_ex (\<lambda>name. eq_ignore_ascii_case name proto) (protocol_names a))
        OUTBOUND_ADAPTERS)"

definition ensure_network ::
    "outbound_adapter \<Rightarrow> network_capability \<Rightarrow> (kernel_error, unit) res" where
  "ensure_network a net =
    (if net \<in> set (networks a) then Ok ()
     else Err (UnsupportedNetwork (hd (protocol_names a)) net))"

type_synonym 's adapter_connect = "outbound_adapter \<Rightarrow> kernel_node \<Rightarrow> target_address \<Rightarrow> (kernel_error, 's) res"
type_synonym adapter_udp =
  "outbound_adapter \<Rightarrow> kernel_node \<Rightarrow> target_address \<Rightarrow> bytes \<Rightarrow> (kernel_error, bytes) res"
type_synonym adapter_validate = "outbound_adapter \<Rightarrow> kernel_node \<Rightarrow> (kernel_error, unit) res"

definition validate_node :: "adapter_validate \<Rightarrow> kernel_node \<Rightarrow> (kernel_error, unit) res" where
  "validate_node validate n = rbind (adapter_for (node_protocol n)) (\<lambda>a. validate a n)"

definition connect_network :: "'s adapter_connect \<Rightarrow> kernel_node \<Rightarrow> target_address
    \<Rightarrow> network_capability \<Rightarrow> (kernel_error, 's) res" where
  "connect_network conn n t net =
    rbind (adapter_for (node_protocol n)) (\<lambda>a.
    rbind (ensure_network a net) (\<lambda>_. conn a n t))"

definition send_udp_network :: "adapter_udp \<Rightarrow> kernel_node \<Rightarrow> target_address \<Rightarrow> bytes
    \<Rightarrow> (kernel_error, bytes) res" where
  "send_udp_network udp n t payload =
    rbind (adapter_for (node_protocol n)) (\<lambda>a.
    rbind (ensure_network a NetUdp) (\<lambda>_. udp a n t payload))"

section \<open>The runtime\<close>

definition outbound_connect :: "'s adapter_connect \<Rightarrow> kernel_node \<Rightarrow> connection_context
    \<Rightarrow> connection_context \<times> (kernel_error, 's) res" where
  "outbound_connect conn n c =
    (let c' = select_outbound c n in (c', connect_network conn n (conn_target c') (network c')))"

definition outbound_send_udp :: "adapter_udp \<Rightarrow> kernel_node \<Rightarrow> bytes \<Rightarrow> connection_context
    \<Rightarrow> connection_context \<times> (kernel_error, bytes) res" where
  "outbound_send_udp udp n payload c =
    (let c' = select_outbound c n in (c', send_udp_network udp n (conn_target c') payload))"

definition direct_node :: kernel_node where
  "direct_node = \<lparr>node_id = Some ''direct.runtime'', node_protocol = ''direct'', server = ''direct'',
     server_port = 1, user_id = [], parameters = (\<lambda>_. None)\<rparr>"

definition runtime_connect :: "'s adapter_connect \<Rightarrow> router \<Rightarrow> connection_context
    \<Rightarrow> connection_context \<times> (kernel_error, 's) res" where
  "runtime_connect conn r c =
    (case lift_err RouterError (router_decide r (conn_target c)) of
       Inl e \<Rightarrow> (c, Inl e)
     | Inr DecideDirect \<Rightarrow> outbound_connect conn direct_node c
     | Inr (DecideProxy n) \<Rightarrow> outbound_connect conn n c
     | Inr DecideReject \<Rightarrow> (c, Err (RouteRejected (conn_target c))))"

definition runtime_send_udp :: "adapter_udp \<Rightarrow> router \<Rightarrow> bytes \<Rightarrow> connection_context
    \<Rightarrow> connection_context \<times> (kernel_error, bytes) res" where
  "runtime_send_udp udp r payload c =
    (case lift_err RouterError (router_decide r (conn_target c)) of
       Inl e \<Rightarrow> (c, Inl e)
     | Inr DecideDirect \<Rightarrow> outbound_send_udp udp direct_node payload c
     | Inr (DecideProxy n) \<Rightarrow> outbound_send_udp udp n payload c
     | Inr DecideReject \<Rightarrow> (c, Err (RouteRejected (conn_target c))))"

fun validate_all :: "adapter_validate \<Rightarrow> kernel_node list \<Rightarrow> (kernel_error, unit) res" where
  "validate_all validate [] = Ok ()"
| "validate_all validate (n # ns) =
    rbind (validate_node validate n) (\<lambda>_. validate_all validate ns)"

definition validate_session :: "adapter_validate \<Rightarrow> kernel_session \<Rightarrow> (kernel_error, unit) res" where
  "validate_session validate s =
    (if listen_host s \<noteq> ''127.0.0.1'' then Err NotLoopback
     else if server (selected_node s) = [] \<or> server_port (selected_node s) = 0
       then Err InvalidSelectedEndpoint
     else rbind (validate_node validate (selected_node s)) (\<lambda>_. validate_all validate (nodes s)))"

section \<open>The direct and the HTTP adapter\<close>

type_synonym tcp_connect = "socket_addr \<Rightarrow> (kernel_error, bytes) res"

text \<open>The loop over the resolved addresses: the first that accepts, or the last error.\<close>

fun dial_first :: "tcp_connect \<Rightarrow> kernel_error fault option \<Rightarrow> socket_addr list
    \<Rightarrow> (kernel_error, socket_addr \<times> bytes) res" where
  "dial_first tcp last_error [] =
    Inl (case last_error of Some e \<Rightarrow> e | None \<Rightarrow> Fail NoResolvedAddress)"
| "dial_first tcp last_error (a # as) =
    (case tcp a of Inr s \<Rightarrow> Ok (a, s) | Inl e \<Rightarrow> dial_first tcp (Some e) as)"

definition direct_connect :: "tcp_connect \<Rightarrow> (dns_error, socket_addr list) res
    \<Rightarrow> (kernel_error, socket_addr \<times> bytes) res" where
  "direct_connect tcp resolved = rbind (lift_err DnsError resolved) (dial_first tcp None)"

text \<open>The direct adapter sends a datagram to the first resolved address only.\<close>

definition direct_udp_destination :: "(dns_error, socket_addr list) res \<Rightarrow> (kernel_error, socket_addr) res" where
  "direct_udp_destination resolved =
    rbind (lift_err DnsError resolved) (\<lambda>as.
      case as of [] \<Rightarrow> Err NoResolvedAddress | a # _ \<Rightarrow> Ok a)"

definition http_validate :: "kernel_node \<Rightarrow> (kernel_error, unit) res" where
  "http_validate n =
    (if server n = [] \<or> server_port n = 0 then Err InvalidHttpEndpoint else Ok ())"

definition crlf :: string where "crlf = [CHR 0x0D, CHR 0x0A]"

definition http_connect_request :: "target_address \<Rightarrow> string" where
  "http_connect_request t =
    ''CONNECT '' @ show_target t @ '' HTTP/1.1'' @ crlf @ ''Host: '' @ show_target t @ crlf
    @ ''Proxy-Connection: keep-alive'' @ crlf @ crlf"

definition head_end :: bytes where "head_end = [13, 10, 13, 10]"

text \<open>The byte-by-byte loop that reads an HTTP head into a buffer of at most \<open>limit\<close> bytes.\<close>

fun read_head :: "nat \<Rightarrow> bytes \<Rightarrow> bytes \<Rightarrow> (kernel_error, bytes \<times> bytes) res" where
  "read_head limit buf [] = (if length buf < limit then Err UnexpectedEof else Err HeadTooLarge)"
| "read_head limit buf (b # s) =
    (if length buf < limit
     then (if ends_with (buf @ [b]) head_end then Ok (buf @ [b], s) else read_head limit (buf @ [b]) s)
     else Err HeadTooLarge)"

definition http_response_ok :: "string \<Rightarrow> bool" where
  "http_response_ok resp \<longleftrightarrow>
    starts_with resp ''HTTP/1.1 200'' \<or> starts_with resp ''HTTP/1.0 200''"

definition http_read_response :: "bytes \<Rightarrow> (kernel_error, bytes) res" where
  "http_read_response s =
    rbind (read_head 8192 [] s) (\<lambda>(head, rest).
    rbind (from_option NotUtf8 (from_utf8 head)) (\<lambda>resp.
      if http_response_ok resp then Ok rest else Err HttpConnectFailed))"

text \<open>The bytes written to the proxy and the stream the client gets.\<close>

definition http_connect :: "tcp_connect \<Rightarrow> (target_address \<Rightarrow> (dns_error, socket_addr list) res)
    \<Rightarrow> kernel_node \<Rightarrow> target_address \<Rightarrow> bytes \<times> (kernel_error, bytes) res" where
  "http_connect tcp resolve_server n t =
    (case rbind (http_validate n) (\<lambda>_.
          rbind (lift_err DnsError (resolve_server
              \<lparr>host = server n, target_port = server_port n\<rparr>)) (dial_first tcp None)) of
       Inl e \<Rightarrow> ([], Inl e)
     | Inr (a, s) \<Rightarrow> (as_bytes (http_connect_request t), http_read_response s))"

section \<open>Lemmas\<close>

lemma all_adapters: "a \<in> set OUTBOUND_ADAPTERS"
  by (cases a) (simp_all add: OUTBOUND_ADAPTERS_def)

lemma protocol_names_lower: "map to_ascii_lowercase (protocol_names a) = protocol_names a"
proof -
  have "list_all (\<lambda>a. map to_ascii_lowercase (protocol_names a) = protocol_names a) OUTBOUND_ADAPTERS"
    by code_simp
  then show ?thesis using all_adapters [of a] unfolding list_all_iff by blast
qed

lemma name_matches:
  "list_ex (\<lambda>name. eq_ignore_ascii_case name p) (protocol_names a)
    \<longleftrightarrow> to_ascii_lowercase p \<in> set (protocol_names a)"
proof -
  have "list_ex (\<lambda>name. eq_ignore_ascii_case name p) xs
      \<longleftrightarrow> to_ascii_lowercase p \<in> set (map to_ascii_lowercase xs)" for xs
    by (induction xs) (auto simp: eq_ignore_ascii_case_def)
  then show ?thesis by (simp only: protocol_names_lower)
qed

text \<open>No name is registered twice, so the order of the registry does not matter.\<close>

lemma adapter_for_iff: "adapter_for p = Ok a \<longleftrightarrow> to_ascii_lowercase p \<in> set (protocol_names a)"
  unfolding adapter_for_def name_matches OUTBOUND_ADAPTERS_def
  by (cases a) auto

lemma adapter_for_cases:
  obtains a where "adapter_for p = Ok a" | "adapter_for p = Err (UnsupportedProtocol p)"
  unfolding adapter_for_def by (cases "find (\<lambda>a. list_ex (\<lambda>name. eq_ignore_ascii_case name p)
    (protocol_names a)) OUTBOUND_ADAPTERS") auto

lemma ensure_network_Ok_iff: "ensure_network a net = Ok u \<longleftrightarrow> net \<in> set (networks a)"
  by (simp add: ensure_network_def)

lemma lift_err_Ok_iff [simp]: "lift_err f r = Ok x \<longleftrightarrow> r = Ok x"
  by (auto simp: lift_err_def split: sum.splits fault.splits)

lemma lift_err_Ok [simp]: "lift_err f (Ok x) = Ok x"
  by (simp add: lift_err_def)

lemma connect_network_Ok_iff:
  "connect_network conn n t net = Ok s \<longleftrightarrow>
    (\<exists>a. to_ascii_lowercase (node_protocol n) \<in> set (protocol_names a) \<and> net \<in> set (networks a)
       \<and> conn a n t = Ok s)"
  by (auto simp: connect_network_def rbind_Inr_iff adapter_for_iff ensure_network_Ok_iff)

lemma validate_all_Ok: "validate_all v ns = Ok () \<Longrightarrow> n \<in> set ns \<Longrightarrow> validate_node v n = Ok ()"
  by (induction ns) (auto simp: rbind_Inr_iff)

text \<open>The nodes of a session that passed validation all have a registered protocol.\<close>

lemma validated_nodes:
  assumes "validate_session v s = Ok ()" "n \<in> insert (selected_node s) (set (nodes s))"
  shows "\<exists>a. adapter_for (node_protocol n) = Ok a"
proof -
  have "validate_node v n = Ok ()"
    using assms validate_all_Ok
    by (auto simp: validate_session_def rbind_Inr_iff split: if_splits)
  then show ?thesis by (auto simp: validate_node_def rbind_Inr_iff)
qed

lemma connect_network_error:
  assumes "adapter_for (node_protocol n) = Ok a" "connect_network conn n t net = Inl e"
  shows "e = Fail (UnsupportedNetwork ''http'' NetUdp) \<and> net = NetUdp \<or> conn a n t = Inl e"
  using assms by (cases a; cases net) (auto simp: connect_network_def ensure_network_def)

lemma read_head_Ok_iff:
  "read_head limit buf s = Ok (h, r) \<longleftrightarrow>
    (\<exists>x. h = buf @ x \<and> s = x @ r \<and> x \<noteq> [] \<and> length h \<le> limit \<and> ends_with h head_end
       \<and> (\<forall>k. 0 < k \<and> k < length x \<longrightarrow> \<not> ends_with (buf @ take k x) head_end))"
  (is "_ \<longleftrightarrow> (\<exists>x. ?P buf s x)")
proof (induction s arbitrary: buf)
  case Nil
  then show ?case by auto
next
  case (Cons b s)
  have step: "?P buf (b # s) (b # y) \<longleftrightarrow> ?P (buf @ [b]) s y"
    if "y \<noteq> []" "\<not> ends_with (buf @ [b]) head_end" for y
  proof -
    have "(\<forall>k. 0 < k \<and> k < length (b # y) \<longrightarrow> \<not> ends_with (buf @ take k (b # y)) head_end)
      \<longleftrightarrow> (\<forall>k. 0 < k \<and> k < length y \<longrightarrow> \<not> ends_with ((buf @ [b]) @ take k y) head_end)" (is "?l = ?r")
    proof
      assume l: ?l
      show ?r
      proof (intro allI impI)
        fix k assume "0 < k \<and> k < length y"
        then show "\<not> ends_with ((buf @ [b]) @ take k y) head_end" using l [rule_format, of "Suc k"] by simp
      qed
    next
      assume r: ?r
      show ?l
      proof (intro allI impI)
        fix k assume "0 < k \<and> k < length (b # y)"
        then show "\<not> ends_with (buf @ take k (b # y)) head_end"
          using r [rule_format, of "k - 1"] that(2) by (cases k; cases "k - 1") auto
      qed
    qed
    then show ?thesis using that(1) by auto
  qed
  have first: "?P buf (b # s) x \<Longrightarrow> \<exists>y. x = b # y" for x by (cases x) auto
  show ?case
  proof (cases "length buf < limit \<and> \<not> ends_with (buf @ [b]) head_end")
    case True
    have "(\<exists>x. ?P buf (b # s) x) \<longleftrightarrow> (\<exists>y. ?P (buf @ [b]) s y)"
    proof
      assume "\<exists>x. ?P buf (b # s) x"
      then obtain x where x: "?P buf (b # s) x" by (elim exE)
      then obtain y where y: "x = b # y" using first by blast
      have "y \<noteq> []" using True x unfolding y by auto
      then have "?P (buf @ [b]) s y" using step True x unfolding y by blast
      then show "\<exists>y. ?P (buf @ [b]) s y" by (rule exI)
    next
      assume "\<exists>y. ?P (buf @ [b]) s y"
      then obtain y where y: "?P (buf @ [b]) s y" by (elim exE)
      then have "?P buf (b # s) (b # y)" using step True by blast
      then show "\<exists>x. ?P buf (b # s) x" by (rule exI)
    qed
    then show ?thesis using True Cons.IH [of "buf @ [b]"] by simp
  next
    case False
    show ?thesis
    proof (cases "length buf < limit")
      case True
      then have e: "ends_with (buf @ [b]) head_end" using False by simp
      have "?P buf (b # s) x \<Longrightarrow> x = [b]" for x
      proof -
        assume p: "?P buf (b # s) x"
        then obtain y where x: "x = b # y" using first by blast
        have "\<not> (1 < length x)" using p e x by (auto dest: spec [of _ 1])
        then show "x = [b]" using x by simp
      qed
      then show ?thesis using True e by auto
    next
      case False
      have "\<not> ?P buf (b # s) x" for x using False by (cases x) auto
      moreover have "read_head limit buf (b # s) \<noteq> Ok (h, r)" using False by simp
      ultimately show ?thesis by blast
    qed
  qed
qed

definition routed_node :: "router \<Rightarrow> target_address \<Rightarrow> kernel_node \<Rightarrow> bool" where
  "routed_node r t n \<longleftrightarrow> router_decide r t = Ok (DecideProxy n)
     \<or> router_decide r t = Ok DecideDirect \<and> n = direct_node"

lemma runtime_connect_cases:
  "(\<exists>n. routed_node r (conn_target c) n \<and> runtime_connect conn r c = outbound_connect conn n c)
   \<or> router_decide r (conn_target c) = Ok DecideReject
      \<and> runtime_connect conn r c = (c, Err (RouteRejected (conn_target c)))
   \<or> (\<exists>e. router_decide r (conn_target c) = Err e \<and> runtime_connect conn r c = (c, Err (RouterError e)))
   \<or> router_decide r (conn_target c) = Inl Panic \<and> runtime_connect conn r c = (c, Inl Panic)"
  by (simp add: runtime_connect_def routed_node_def lift_err_def
      split: sum.splits fault.splits route_decision.splits)

lemma runtime_udp_cases:
  assumes "runtime_send_udp udp r payload c = (c', Ok answer)"
  shows "\<exists>n. routed_node r (conn_target c) n \<and> outbound_send_udp udp n payload c = (c', Ok answer)"
  using assms by (auto simp: runtime_send_udp_def routed_node_def lift_err_def
      split: sum.splits fault.splits route_decision.splits)

section \<open>Properties\<close>

text \<open>
  C1: a connection gets a stream only along the router's decision. When the runtime connects, the
  router sent the target directly or to a node, the stream comes from the adapter registered for
  that node's protocol (whatever the case of its name), that adapter carries the connection's
  network, it was asked for the unchanged target, and the context records the node. The same holds
  for a UDP exchange, which needs an adapter that carries UDP.
\<close>

theorem runtime_follows_router:
  "(\<forall>c' s. runtime_connect conn r c = (c', Ok s) \<longrightarrow>
      (\<exists>n a. routed_node r (conn_target c) n
        \<and> to_ascii_lowercase (node_protocol n) \<in> set (protocol_names a) \<and> network c \<in> set (networks a)
        \<and> conn a n (conn_target c) = Ok s \<and> c' = select_outbound c n))
   \<and> (\<forall>c' answer. runtime_send_udp udp r payload c = (c', Ok answer) \<longrightarrow>
      (\<exists>n a. routed_node r (conn_target c) n
        \<and> to_ascii_lowercase (node_protocol n) \<in> set (protocol_names a) \<and> NetUdp \<in> set (networks a)
        \<and> udp a n (conn_target c) payload = Ok answer \<and> c' = select_outbound c n))"
  (is "?tcp \<and> ?udp")
proof
  show ?tcp
  proof (intro allI impI)
    fix c' s assume s: "runtime_connect conn r c = (c', Ok s)"
    then obtain n where n: "routed_node r (conn_target c) n" "outbound_connect conn n c = (c', Ok s)"
      using runtime_connect_cases [of r c conn] by auto
    moreover have "conn_target (select_outbound c n) = conn_target c"
      "network (select_outbound c n) = network c" by (simp_all add: select_outbound_def)
    ultimately show "\<exists>n a. routed_node r (conn_target c) n
        \<and> to_ascii_lowercase (node_protocol n) \<in> set (protocol_names a) \<and> network c \<in> set (networks a)
        \<and> conn a n (conn_target c) = Ok s \<and> c' = select_outbound c n"
      by (auto simp: outbound_connect_def connect_network_Ok_iff Let_def)
  qed
  show ?udp
  proof (intro allI impI)
    fix c' answer assume s: "runtime_send_udp udp r payload c = (c', Ok answer)"
    then obtain n where n: "routed_node r (conn_target c) n"
        "outbound_send_udp udp n payload c = (c', Ok answer)"
      using runtime_udp_cases by blast
    moreover have "conn_target (select_outbound c n) = conn_target c" by (simp add: select_outbound_def)
    ultimately show "\<exists>n a. routed_node r (conn_target c) n
        \<and> to_ascii_lowercase (node_protocol n) \<in> set (protocol_names a) \<and> NetUdp \<in> set (networks a)
        \<and> udp a n (conn_target c) payload = Ok answer \<and> c' = select_outbound c n"
      by (auto simp: outbound_send_udp_def send_udp_network_def rbind_Inr_iff adapter_for_iff
          ensure_network_Ok_iff Let_def)
  qed
qed

definition example_context :: "network_capability \<Rightarrow> connection_context" where
  "example_context net = \<lparr>connection_id = 1, inbound = Socks5,
     conn_target = \<lparr>host = ''h'', target_port = 80\<rparr>, network = net, selected_outbound = None\<rparr>"

definition example_router :: "string \<Rightarrow> router" where
  "example_router p = \<lparr>router_selected = (example_node ''n'')\<lparr>node_protocol := p\<rparr>, router_nodes = [],
     router_config = \<lparr>krouting_mode = KGlobal, krouting_rules = []\<rparr>\<rparr>"

lemma example_routed:
  "routed_node (example_router p) t n \<longleftrightarrow> n = (example_node ''n'')\<lparr>node_protocol := p\<rparr>"
  by (auto simp: routed_node_def example_router_def router_decide_def)

theorem runtime_follows_router_witness:
  "fst (runtime_connect (\<lambda>a n t. Ok a) (example_router ''SSR'') (example_context NetTcp))
     = select_outbound (example_context NetTcp) ((example_node ''n'')\<lparr>node_protocol := ''SSR''\<rparr>)"
proof -
  let ?n = "(example_node ''n'')\<lparr>node_protocol := ''SSR''\<rparr>"
  have "adapter_for ''SSR'' = Ok ShadowsocksAdapter" by code_simp
  then have "runtime_connect (\<lambda>a n t. Ok a) (example_router ''SSR'') (example_context NetTcp)
      = (fst (runtime_connect (\<lambda>a n t. Ok a) (example_router ''SSR'') (example_context NetTcp)),
         Ok ShadowsocksAdapter)"
    by (simp add: runtime_connect_def router_decide_def example_router_def lift_err_def
        outbound_connect_def connect_network_def ensure_network_def example_context_def
        select_outbound_def)
  with runtime_follows_router [of "\<lambda>a n t. Ok a" "example_router ''SSR''" "example_context NetTcp"]
  show ?thesis unfolding example_routed by blast
qed

text \<open>
  A session that passed validation never meets an unsupported protocol. For every target and
  every rule, an error of the runtime's connect is a rule that names an unknown node, a rejecting
  rule, UDP through an HTTP proxy, or an error of the adapter itself.
\<close>

theorem validated_session_connects:
  assumes "validate_session v s = Ok ()"
    and "runtime_connect conn (new_router s) c = (c', Inl e)"
  shows "(\<exists>i. e = Fail (RouterError (UnknownNode i))) \<or> e = Fail (RouteRejected (conn_target c))
    \<or> e = Fail (UnsupportedNetwork ''http'' NetUdp) \<and> network c = NetUdp
    \<or> (\<exists>a n. conn a n (conn_target c) = Inl e)"
proof -
  let ?r = "new_router s"
  have known: "case router_decide ?r t of
     Inr (DecideProxy n) \<Rightarrow> n \<in> insert (router_selected ?r) (set (router_nodes ?r))
   | Inr _ \<Rightarrow> True
   | Inl e \<Rightarrow> (\<exists>i. e = Fail (UnknownNode i)
       \<and> (\<forall>n \<in> insert (router_selected ?r) (set (router_nodes ?r)). node_id n \<noteq> Some i))" for t
    by (rule router_decide_known)
  from runtime_connect_cases [of ?r c conn] show ?thesis
  proof (elim disjE exE conjE)
    fix n assume n: "routed_node ?r (conn_target c) n"
      and c: "runtime_connect conn ?r c = outbound_connect conn n c"
    have "adapter_for (node_protocol direct_node) = Ok DirectAdapter" by code_simp
    then obtain a where "adapter_for (node_protocol n) = Ok a"
      using n known [of "conn_target c"] validated_nodes [OF assms(1), of n]
      by (auto simp: routed_node_def new_router_def)
    moreover have "conn_target (select_outbound c n) = conn_target c"
      "network (select_outbound c n) = network c" by (simp_all add: select_outbound_def)
    then have "connect_network conn n (conn_target c) (network c) = Inl e"
      using assms(2) c by (simp add: outbound_connect_def Let_def)
    ultimately show ?thesis using connect_network_error by blast
  next
    fix e' assume "router_decide ?r (conn_target c) = Err e'"
      and "runtime_connect conn ?r c = (c, Err (RouterError e'))"
    then show ?thesis using known [of "conn_target c"] assms(2) by auto
  qed (use assms(2) known [of "conn_target c"] in auto)
qed

theorem validated_session_connects_witness:
  "\<exists>e. runtime_connect (\<lambda>a n t. Ok ()) (example_router ''https'') (example_context NetUdp)
     = (select_outbound (example_context NetUdp) ((example_node ''n'')\<lparr>node_protocol := ''https''\<rparr>), Inl e)
     \<and> e = Fail (UnsupportedNetwork ''http'' NetUdp)"
proof -
  let ?n = "(example_node ''n'')\<lparr>node_protocol := ''https''\<rparr>"
  let ?s = "\<lparr>listen_host = ''127.0.0.1'', listen_port = 1, selected_node = ?n, nodes = [],
    session_routing = \<lparr>krouting_mode = KGlobal, krouting_rules = []\<rparr>,
    session_dns = default_kernel_dns_config\<rparr>"
  have a: "adapter_for ''https'' = Ok HttpAdapter" by code_simp
  then have v: "validate_session (\<lambda>_ _. Ok ()) ?s = Ok ()"
    by (simp add: validate_session_def validate_node_def example_node_def)
  have r: "new_router ?s = example_router ''https''" by (simp add: new_router_def example_router_def)
  obtain e where e: "runtime_connect (\<lambda>a n t. Ok ()) (example_router ''https'') (example_context NetUdp)
     = (select_outbound (example_context NetUdp) ?n, Inl e)"
    using a by (simp add: runtime_connect_def router_decide_def example_router_def lift_err_def
        outbound_connect_def connect_network_def ensure_network_def example_context_def
        select_outbound_def)
  then have "(\<exists>i. e = Fail (RouterError (UnknownNode i)))
      \<or> e = Fail (RouteRejected (conn_target (example_context NetUdp)))
      \<or> e = Fail (UnsupportedNetwork ''http'' NetUdp) \<and> network (example_context NetUdp) = NetUdp
      \<or> (\<exists>a n. (Ok () :: (kernel_error, unit) res) = Inl e)"
    using validated_session_connects [OF v, of "\<lambda>a n t. Ok ()" "example_context NetUdp"]
    unfolding r by blast
  moreover have "e \<noteq> Fail (RouterError (UnknownNode i))" "e \<noteq> Fail (RouteRejected t)" for i t
    using e a by (auto simp: runtime_connect_def router_decide_def example_router_def lift_err_def
        outbound_connect_def connect_network_def ensure_network_def example_context_def
        select_outbound_def)
  ultimately show ?thesis using e by auto
qed

text \<open>
  Reading an HTTP head takes exactly the bytes up to the first blank line. The loop succeeds
  iff the stream has a head within the limit; it returns that head and leaves everything behind it
  in the stream, so no byte of the tunnelled data is lost or taken for the head.
\<close>

theorem read_head_exact:
  "read_head limit buf s = Ok (h, r) \<longleftrightarrow>
    (\<exists>x. h = buf @ x \<and> s = x @ r \<and> x \<noteq> [] \<and> length h \<le> limit \<and> ends_with h head_end
       \<and> (\<forall>k. 0 < k \<and> k < length x \<longrightarrow> \<not> ends_with (buf @ take k x) head_end))"
  by (rule read_head_Ok_iff)

theorem read_head_exact_witness:
  "read_head 8192 [] (as_bytes ''HTTP/1.1 200'' @ head_end @ [1, 2])
    = Ok (as_bytes ''HTTP/1.1 200'' @ head_end, [1, 2])"
proof -
  let ?x = "as_bytes ''HTTP/1.1 200'' @ head_end"
  have "list_all (\<lambda>k. 0 < k \<longrightarrow> \<not> ends_with (take k ?x) head_end) [0..<length ?x]" by code_simp
  then have "\<forall>k. 0 < k \<and> k < length ?x \<longrightarrow> \<not> ends_with ([] @ take k ?x) head_end"
    by (auto simp only: list_all_iff set_upt atLeastLessThan_iff append_Nil le0)
  moreover have "length ?x \<le> 8192" "ends_with ?x head_end" by code_simp+
  ultimately show ?thesis
    unfolding read_head_exact by (intro exI [of _ ?x]) (simp add: head_end_def)
qed

end
