(* ===== verification/Rust_Lines.thy ===== *)
theory Rust_Lines
  imports Rust_Text
begin

text \<open>
  The part of \<open>str\<close> that an HTTP head is taken apart with: splitting at a separator string,
  splitting at white space, trimming and replacing.
\<close>

section \<open>White space\<close>

text \<open>
  The number of bytes of the white space character (Unicode \<open>White_Space\<close>, in UTF-8) a text starts
  with, zero when it starts with another character.
\<close>

definition ws_len :: "string \<Rightarrow> nat" where
  "ws_len s =
    (case map (of_char :: char \<Rightarrow> nat) (take 3 s) of
       [] \<Rightarrow> 0
     | a # r \<Rightarrow>
         if 9 \<le> a \<and> a \<le> 13 \<or> a = 32 then 1
         else (case r of
             [] \<Rightarrow> 0
           | b # r \<Rightarrow>
               if a = 0xC2 \<and> (b = 0x85 \<or> b = 0xA0) then 2
               else (case r of
                   [] \<Rightarrow> 0
                 | c # _ \<Rightarrow>
                     if a = 0xE1 \<and> b = 0x9A \<and> c = 0x80
                        \<or> a = 0xE2 \<and> b = 0x80 \<and> (0x80 \<le> c \<and> c \<le> 0x8A \<or> c = 0xA8 \<or> c = 0xA9 \<or> c = 0xAF)
                        \<or> a = 0xE2 \<and> b = 0x81 \<and> c = 0x9F
                        \<or> a = 0xE3 \<and> b = 0x80 \<and> c = 0x80
                     then 3 else 0)))"

function skip_ws :: "string \<Rightarrow> string" where
  "skip_ws s = (if s = [] \<or> ws_len s = 0 then s else skip_ws (drop (ws_len s) s))"
  by auto
termination by (relation "measure length") auto

declare skip_ws.simps [simp del]

fun take_word :: "string \<Rightarrow> string \<times> string" where
  "take_word [] = ([], [])"
| "take_word (c # s) =
    (if ws_len (c # s) \<noteq> 0 then ([], c # s)
     else (case take_word s of (w, r) \<Rightarrow> (c # w, r)))"

text \<open>\<open>split_whitespace().next()\<close>, with the rest of the text.\<close>

definition next_word :: "string \<Rightarrow> string option \<times> string" where
  "next_word s =
    (let s = skip_ws s
     in if s = [] then (None, []) else (case take_word s of (w, r) \<Rightarrow> (Some w, r)))"

text \<open>\<open>str::trim\<close>.\<close>

fun trim_end :: "string \<Rightarrow> string" where
  "trim_end s = (if skip_ws s = [] then [] else (case s of [] \<Rightarrow> [] | c # r \<Rightarrow> c # trim_end r))"

declare trim_end.simps [simp del]

definition str_trim :: "string \<Rightarrow> string" where
  "str_trim s = trim_end (skip_ws s)"

section \<open>Separators\<close>

text \<open>\<open>split(sep)\<close> for a separator string: the pieces, the first one always there.\<close>

function str_split :: "string \<Rightarrow> string \<Rightarrow> string list" where
  "str_split sep s =
    (if sep \<noteq> [] \<and> s \<noteq> [] \<and> starts_with s sep then [] # str_split sep (drop (length sep) s)
     else (case s of
         [] \<Rightarrow> [[]]
       | c # r \<Rightarrow> (case str_split sep r of [] \<Rightarrow> [[c]] | p # ps \<Rightarrow> (c # p) # ps)))"
  by auto
termination by (relation "measure (\<lambda>(sep, s). length s)") auto

declare str_split.simps [simp del]

text \<open>\<open>replacen(pat, rep, 1)\<close>.\<close>

fun replace_first :: "string \<Rightarrow> string \<Rightarrow> string \<Rightarrow> string" where
  "replace_first pat rep [] = (if pat = [] then rep else [])"
| "replace_first pat rep (c # s) =
    (if starts_with (c # s) pat then rep @ drop (length pat) (c # s)
     else c # replace_first pat rep s)"

lemma replace_first_prefix [simp]: "pat \<noteq> [] \<Longrightarrow> replace_first pat rep (pat @ s) = rep @ s"
  by (cases pat) (simp_all add: starts_with_def)

text \<open>\<open>strip_suffix\<close>, and \<open>lines()\<close> (at \<open>\n\<close>, without a trailing \<open>\r\<close> and without a last empty piece).\<close>

definition strip_suffix :: "string \<Rightarrow> string \<Rightarrow> string option" where
  "strip_suffix p s = (if ends_with s p then Some (take (length s - length p) s) else None)"

definition drop_cr :: "string \<Rightarrow> string" where
  "drop_cr s = (case strip_suffix [CHR 0x0D] s of Some r \<Rightarrow> r | None \<Rightarrow> s)"

definition str_lines :: "string \<Rightarrow> string list" where
  "str_lines s = (let ps = str_split [CHR 0x0A] s
     in map drop_cr (if last ps = [] then butlast ps else ps))"

section \<open>Lossy conversion\<close>

text \<open>
  One step of \<open>String::from_utf8_lossy\<close>: whether the bytes start with a whole character, and how
  many bytes the character, or the broken piece, has.
\<close>

definition utf8_step :: "bytes \<Rightarrow> bool \<times> nat" where
  "utf8_step bs =
    (let b = hd bs; at = (\<lambda>i. if i < length bs then bs ! i else 0)
     in if b < 0x80 then (True, 1)
        else if 0xC2 \<le> b \<and> b \<le> 0xDF then (if utf8_cont (at 1) then (True, 2) else (False, 1))
        else if 0xE0 \<le> b \<and> b \<le> 0xEF then
          (if utf8_cont (at 1) \<and> (b = 0xE0 \<longrightarrow> 0xA0 \<le> at 1) \<and> (b = 0xED \<longrightarrow> at 1 \<le> 0x9F)
           then (if utf8_cont (at 2) then (True, 3) else (False, 2))
           else (False, 1))
        else if 0xF0 \<le> b \<and> b \<le> 0xF4 then
          (if utf8_cont (at 1) \<and> (b = 0xF0 \<longrightarrow> 0x90 \<le> at 1) \<and> (b = 0xF4 \<longrightarrow> at 1 \<le> 0x8F)
           then (if utf8_cont (at 2) then (if utf8_cont (at 3) then (True, 4) else (False, 3))
                 else (False, 2))
           else (False, 1))
        else (False, 1))"

lemma utf8_step_pos [simp]: "0 < snd (utf8_step bs)"
  by (simp add: utf8_step_def Let_def)

function from_utf8_lossy :: "bytes \<Rightarrow> string" where
  "from_utf8_lossy bs =
    (if bs = [] then []
     else (if fst (utf8_step bs) then text_of (take (snd (utf8_step bs)) bs)
           else [CHR 0xEF, CHR 0xBF, CHR 0xBD]) @ from_utf8_lossy (drop (snd (utf8_step bs)) bs))"
  by auto
termination by (relation "measure length") auto

declare from_utf8_lossy.simps [simp del]

lemma utf8_step_valid:
  assumes "utf8_valid (b # r)"
  shows "fst (utf8_step (b # r))" "utf8_valid (drop (snd (utf8_step (b # r))) (b # r))"
proof -
  consider "b < 0x80" | "\<not> b < 0x80" "0xC2 \<le> b \<and> b \<le> 0xDF"
    | "\<not> b < 0x80" "\<not> (0xC2 \<le> b \<and> b \<le> 0xDF)" "0xE0 \<le> b \<and> b \<le> 0xEF"
    | "\<not> b < 0x80" "\<not> (0xC2 \<le> b \<and> b \<le> 0xDF)" "\<not> (0xE0 \<le> b \<and> b \<le> 0xEF)" "0xF0 \<le> b \<and> b \<le> 0xF4"
    using assms by (auto split: if_splits)
  then have "fst (utf8_step (b # r)) \<and> utf8_valid (drop (snd (utf8_step (b # r))) (b # r))"
  proof cases
    case 1
    then show ?thesis using assms by (simp add: utf8_step_def Let_def)
  next
    case 2
    then obtain c r' where r: "r = c # r'" using assms by (cases r) auto
    have f: "utf8_cont c" "utf8_valid r'" using 2 assms unfolding r by (simp_all only: utf8_valid.simps if_True if_False list.case simp_thms)
    have "utf8_step (b # r) = (True, 2)" using 2 f(1) unfolding r utf8_step_def Let_def by (simp only: list.sel if_True if_False simp_thms) simp
    then show ?thesis using f(2) r by simp
  next
    case 3
    then obtain c d r' where r: "r = c # d # r'" using assms by (cases r; cases "tl r") auto
    have f: "utf8_cont c" "b = 0xE0 \<longrightarrow> 0xA0 \<le> c" "b = 0xED \<longrightarrow> c \<le> 0x9F" "utf8_cont d" "utf8_valid r'"
      using 3 assms unfolding r by (simp_all only: utf8_valid.simps if_True if_False list.case simp_thms) blast+
    have "utf8_step (b # r) = (True, 3)"
      using 3 f(1-4) unfolding r utf8_step_def Let_def by (simp only: list.sel if_True if_False simp_thms) simp
    then show ?thesis using f(5) r by (simp add: eval_nat_numeral)
  next
    case 4
    then obtain c d e r' where r: "r = c # d # e # r'"
      using assms by (cases r; cases "tl r"; cases "tl (tl r)") auto
    have f: "utf8_cont c" "b = 0xF0 \<longrightarrow> 0x90 \<le> c" "b = 0xF4 \<longrightarrow> c \<le> 0x8F" "utf8_cont d" "utf8_cont e"
        "utf8_valid r'"
      using 4 assms unfolding r by (simp_all only: utf8_valid.simps if_True if_False list.case simp_thms) blast+
    have "utf8_step (b # r) = (True, 4)"
      using 4 f(1-5) unfolding r utf8_step_def Let_def by (simp only: list.sel if_True if_False simp_thms) simp
    then show ?thesis using f(6) r by (simp add: eval_nat_numeral)
  qed
  then show "fst (utf8_step (b # r))" "utf8_valid (drop (snd (utf8_step (b # r))) (b # r))" by auto
qed

lemma from_utf8_lossy_valid: "utf8_valid bs \<Longrightarrow> from_utf8_lossy bs = text_of bs"
proof (induction bs rule: length_induct)
  case (1 bs)
  show ?case
  proof (cases bs)
    case (Cons b r)
    let ?n = "snd (utf8_step bs)"
    have "utf8_valid (drop ?n bs)" "fst (utf8_step bs)" using utf8_step_valid [of b r] 1(2) Cons by auto
    moreover from this have "from_utf8_lossy (drop ?n bs) = text_of (drop ?n bs)"
      using 1(1) Cons utf8_step_pos [of bs] by (metis diff_less length_drop length_greater_0_conv list.distinct(1))
    ultimately have "from_utf8_lossy bs = text_of (take ?n bs) @ text_of (drop ?n bs)"
      using Cons by (subst from_utf8_lossy.simps) simp
    then show ?thesis by (simp add: text_of_def flip: map_append)
  qed (simp add: from_utf8_lossy.simps text_of_def)
qed

section \<open>Words of printable characters\<close>

definition visible :: "char \<Rightarrow> bool" where
  "visible c \<longleftrightarrow> 33 \<le> (of_char c :: nat) \<and> (of_char c :: nat) \<le> 126"

definition plain_word :: "string \<Rightarrow> bool" where
  "plain_word s \<longleftrightarrow> s \<noteq> [] \<and> list_all visible s"

lemma ws_len_visible [simp]: "visible c \<Longrightarrow> ws_len (c # s) = 0"
  by (auto simp: ws_len_def visible_def Let_def split: list.splits)

lemma ws_len_space [simp]: "ws_len (CHR '' '' # s) = Suc 0"
  by (simp add: ws_len_def)

lemma ws_len_cr [simp]: "ws_len (CHR 0x0D # s) = Suc 0"
  by (simp add: ws_len_def)

lemma take_word_plain:
  "list_all visible w \<Longrightarrow> r = [] \<or> ws_len r \<noteq> 0 \<Longrightarrow> take_word (w @ r) = (w, r)"
  by (induction w) (auto, cases r, auto)

lemma skip_ws_plain [simp]: "plain_word w \<Longrightarrow> skip_ws (w @ r) = w @ r"
  by (cases w) (auto simp: plain_word_def skip_ws.simps [of "_ # _"])

lemma str_trim_visible: "list_all visible w \<Longrightarrow> str_trim w = w"
proof -
  assume w: "list_all visible w"
  have keep: "list_all visible v \<Longrightarrow> skip_ws v = v" for v
    by (cases v) (simp_all add: skip_ws.simps)
  have "list_all visible v \<Longrightarrow> trim_end v = v" for v
    by (induction v) (simp_all add: trim_end.simps keep)
  then show ?thesis using w keep by (simp add: str_trim_def)
qed

lemma skip_ws_space [simp]: "skip_ws (CHR '' '' # s) = skip_ws s"
  by (simp add: skip_ws.simps [of "CHR '' '' # s"])

lemma next_word_plain:
  "plain_word w \<Longrightarrow> r = [] \<or> ws_len r \<noteq> 0 \<Longrightarrow> next_word (w @ r) = (Some w, r)"
  by (auto simp: next_word_def Let_def take_word_plain plain_word_def)

lemma next_word_space [simp]: "next_word (CHR '' '' # s) = next_word s"
  by (simp add: next_word_def)

lemma next_word_Nil [simp]: "next_word [] = (None, [])"
  by (simp add: next_word_def skip_ws.simps)

lemma str_split_first:
  assumes "sep \<noteq> []" "\<forall>k < length a. \<not> starts_with (drop k (a @ sep @ s)) sep"
  shows "str_split sep (a @ sep @ s) = a # str_split sep s"
  using assms(2)
proof (induction a)
  case Nil
  then show ?case using assms(1) by (subst str_split.simps) (simp add: starts_with_def)
next
  case (Cons c a)
  have "\<not> starts_with (c # a @ sep @ s) sep" using Cons.prems [rule_format, of 0] by simp
  moreover have "\<forall>k < length a. \<not> starts_with (drop k (a @ sep @ s)) sep"
  proof (intro allI impI)
    fix k assume "k < length a"
    then show "\<not> starts_with (drop k (a @ sep @ s)) sep" using Cons.prems [rule_format, of "Suc k"] by simp
  qed
  ultimately show ?case using Cons.IH by (subst str_split.simps) simp
qed

end
