(* ===== verification/Kernel_Inbound.thy ===== *)
theory Kernel_Inbound
  imports Kernel_Runtime Rust_Lines
begin

text \<open>
  The inbound side of \<open>neoncore-kernel/src/main.rs\<close>: the SOCKS5 and HTTP proxy a client of the
  kernel talks to. A handler reads the bytes the client sends (a list that ends when the client
  closes) and has written a prefix of its replies when it ends with a result or an error. The
  argument \<open>run\<close> is the runtime's connect on a fresh connection context.
\<close>

section \<open>Handlers\<close>

datatype inbound_error =
    Eof
  | InvalidUtf8
  | UnsupportedFirstByte byte
  | UnsupportedSocksCommand
  | UnsupportedSocksAddress
  | InvalidSocksUdpHeader
  | TruncatedSocksUdp
  | SocksUdpDomainTooLong
  | InvalidAuthority
  | InvalidPort
  | MissingHostHeader
  | HttpHeaderTooLarge
  | RuntimeError kernel_error

type_synonym 'a inb = "bytes \<times> (inbound_error, 'a) res"

definition wbind :: "'a inb \<Rightarrow> ('a \<Rightarrow> 'b inb) \<Rightarrow> 'b inb" where
  "wbind m f = (case m of
      (w, Inl e) \<Rightarrow> (w, Inl e)
    | (w, Inr x) \<Rightarrow> (case f x of (w', r) \<Rightarrow> (w @ w', r)))"

definition wlift :: "(inbound_error, 'a) res \<Rightarrow> 'a inb" where
  "wlift r = ([], r)"

definition wput :: "bytes \<Rightarrow> unit inb" where
  "wput bs = (bs, Ok ())"

lemma wbind_simps [simp]:
  "wbind (wlift (Inl e)) f = ([], Inl e)"
  "wbind (wlift (Inr x)) f = f x"
  "wbind (w, Inr x) f = (w @ fst (f x), snd (f x))"
  "wbind (wput bs) g = (bs @ fst (g ()), snd (g ()))"
  by (simp_all add: wbind_def wlift_def wput_def split: prod.splits)

lemma wlift_simps [simp]: "fst (wlift r) = []" "snd (wlift r) = r"
  by (simp_all add: wlift_def)

text \<open>
  What a handler ends with: a relay between the rest of the client's stream and the outbound
  stream (to which some bytes were written first), or a UDP association.
\<close>

datatype 's relay = Relay 's bytes bytes | UdpAssociate

type_synonym 's runner = "inbound_kind \<Rightarrow> target_address \<Rightarrow> network_capability \<Rightarrow> (kernel_error, 's) res"

section \<open>SOCKS5 addresses\<close>

definition socks_udp_host :: "bytes \<Rightarrow> (inbound_error, string \<times> nat) res" where
  "socks_udp_host p =
    rbind (idx p 3) (\<lambda>atyp.
      if atyp = 1 then
        (if length p < 4 + 4 then Err TruncatedSocksUdp
         else rbind (slice_of p 4 (4 + 4)) (\<lambda>b. Ok (show_ipv4 (ipv4_of_octets b), 4 + 4)))
      else if atyp = 3 then
        (if length p < 4 + 1 then Err TruncatedSocksUdp
         else rbind (idx p 4) (\<lambda>n.
           let len = unat n
           in if length p < 5 + len then Err TruncatedSocksUdp
              else rbind (slice_of p 5 (5 + len)) (\<lambda>b.
                rbind (from_option InvalidUtf8 (from_utf8 b)) (\<lambda>h. Ok (h, 5 + len)))))
      else if atyp = 4 then
        (if length p < 4 + 16 then Err TruncatedSocksUdp
         else rbind (slice_of p 4 (4 + 16)) (\<lambda>b. Ok (show_ipv6 (ipv6_of_octets b), 4 + 16)))
      else Err UnsupportedSocksAddress)"

definition parse_socks_udp_packet :: "bytes \<Rightarrow> (inbound_error, target_address \<times> bytes) res" where
  "parse_socks_udp_packet p =
    (if length p < 4 \<or> p ! 0 \<noteq> 0 \<or> p ! 1 \<noteq> 0 \<or> p ! 2 \<noteq> 0 then Err InvalidSocksUdpHeader
     else rbind (socks_udp_host p) (\<lambda>(h, index).
       if length p < index + 2 then Err TruncatedSocksUdp
       else rbind (idx p index) (\<lambda>a. rbind (idx p (index + 1)) (\<lambda>b.
            rbind (slice_of p (index + 2) (length p)) (\<lambda>payload.
              Ok (\<lparr>host = h, target_port = u16_from_be a b\<rparr>, payload))))))"

definition socks_address :: "string \<Rightarrow> (inbound_error, bytes) res" where
  "socks_address h =
    (case parse_ipv4 h of
       Some a \<Rightarrow> Ok (1 # ipv4_octets a)
     | None \<Rightarrow> (case parse_ipv6 h of
         Some a \<Rightarrow> Ok (4 # ipv6_octets a)
       | None \<Rightarrow> (let name = as_bytes h
           in if 255 < length name then Err SocksUdpDomainTooLong
              else Ok ([3, of_nat (length name)] @ name))))"

definition build_socks_udp_packet :: "target_address \<Rightarrow> bytes \<Rightarrow> (inbound_error, bytes) res" where
  "build_socks_udp_packet t payload =
    rbind (socks_address (host t)) (\<lambda>address.
      Ok ([0, 0, 0] @ address @ u16_to_be (target_port t) @ payload))"

definition read_socks_target :: "byte \<Rightarrow> bytes \<Rightarrow> (inbound_error, target_address \<times> bytes) res" where
  "read_socks_target atyp s =
    rbind
      (if atyp = 1 then rbind (read_exact Eof 4 s) (\<lambda>(b, s). Ok (show_ipv4 (ipv4_of_octets b), s))
       else if atyp = 3 then
         rbind (read_exact Eof 1 s) (\<lambda>(n, s).
         rbind (read_exact Eof (unat (n ! 0)) s) (\<lambda>(name, s).
         rbind (from_option InvalidUtf8 (from_utf8 name)) (\<lambda>h. Ok (h, s))))
       else if atyp = 4 then
         rbind (read_exact Eof 16 s) (\<lambda>(b, s). Ok (show_ipv6 (ipv6_of_octets b), s))
       else Err UnsupportedSocksAddress) (\<lambda>(h, s).
    rbind (read_exact Eof 2 s) (\<lambda>(p, s).
      Ok (\<lparr>host = h, target_port = u16_from_be (p ! 0) (p ! 1)\<rparr>, s)))"

section \<open>The SOCKS5 handshake\<close>

definition udp_associate_reply :: "socket_addr \<Rightarrow> bytes" where
  "udp_associate_reply local =
    [5, 0, 0, 1]
    @ (case sa_ip local of V4 a \<Rightarrow> ipv4_octets a | V6 _ \<Rightarrow> [127, 0, 0, 1])
    @ u16_to_be (sa_port local)"

definition handle_socks5 :: "'s runner \<Rightarrow> socket_addr \<Rightarrow> byte \<Rightarrow> bytes \<Rightarrow> 's relay inb" where
  "handle_socks5 run local version s =
    wbind (wlift (read_exact Eof 1 s)) (\<lambda>(n, s).
    wbind (wlift (read_exact Eof (unat (n ! 0)) s)) (\<lambda>(methods, s).
    wbind (wput [version, 0]) (\<lambda>_.
    wbind (wlift (read_exact Eof 4 s)) (\<lambda>(head, s).
      if head ! 1 = 3 then
        wbind (wlift (read_socks_target (head ! 3) s)) (\<lambda>_.
        wbind (wput (udp_associate_reply local)) (\<lambda>_. wlift (Ok UdpAssociate)))
      else if head ! 1 \<noteq> 1 then
        wbind (wput [5, 7, 0, 1, 0, 0, 0, 0, 0, 0]) (\<lambda>_. wlift (Err UnsupportedSocksCommand))
      else
        wbind (wlift (read_socks_target (head ! 3) s)) (\<lambda>(t, s).
        wbind (wlift (lift_err RuntimeError (run Socks5 t NetTcp))) (\<lambda>out.
        wbind (wput [5, 0, 0, 1, 0, 0, 0, 0, 0, 0]) (\<lambda>_. wlift (Ok (Relay out [] s)))))))))"

section \<open>The HTTP proxy\<close>

definition split_authority_path :: "string \<Rightarrow> string \<times> string" where
  "split_authority_path v =
    (case split_once (CHR ''/'') v of Some (a, p) \<Rightarrow> (a, CHR ''/'' # p) | None \<Rightarrow> (v, ''/''))"

definition parse_host_port :: "string \<Rightarrow> u16 \<Rightarrow> (inbound_error, target_address) res" where
  "parse_host_port v default_port =
    (case strip_prefix ''['' v of
       Some stripped \<Rightarrow>
         (case split_once (CHR '']'') stripped of
            None \<Rightarrow> Err InvalidAuthority
          | Some (h, rest) \<Rightarrow>
              rbind (case strip_prefix '':'' rest of
                  None \<Rightarrow> Ok default_port
                | Some p \<Rightarrow> from_option InvalidPort (parse_u16 p)) (\<lambda>p.
              Ok \<lparr>host = h, target_port = p\<rparr>))
     | None \<Rightarrow>
         (case rsplit_once (CHR '':'') v of
            Some (h, p) \<Rightarrow>
              (if CHR '':'' \<notin> set h
               then rbind (from_option InvalidPort (parse_u16 p)) (\<lambda>p. Ok \<lparr>host = h, target_port = p\<rparr>)
               else Ok \<lparr>host = v, target_port = default_port\<rparr>)
          | None \<Rightarrow> Ok \<lparr>host = v, target_port = default_port\<rparr>))"

definition host_header :: "string \<Rightarrow> string option" where
  "host_header line =
    (case strip_prefix ''Host:'' line of Some r \<Rightarrow> Some r | None \<Rightarrow> strip_prefix ''host:'' line)"

fun find_host :: "string list \<Rightarrow> string option" where
  "find_host [] = None"
| "find_host (l # ls) = (case host_header l of Some h \<Rightarrow> Some h | None \<Rightarrow> find_host ls)"

definition parse_http_forward_target ::
    "string \<Rightarrow> string \<Rightarrow> (inbound_error, target_address \<times> string) res" where
  "parse_http_forward_target uri request =
    (case strip_prefix ''http://'' uri of
       Some rest \<Rightarrow>
         (let (authority, path) = split_authority_path rest
          in rbind (parse_host_port authority 80) (\<lambda>t. Ok (t, path)))
     | None \<Rightarrow>
         rbind (from_option MissingHostHeader (map_option str_trim (find_host (str_split crlf request)))) (\<lambda>h.
         rbind (parse_host_port h 80) (\<lambda>t. Ok (t, uri))))"

definition request_line_of :: "string \<Rightarrow> string \<Rightarrow> string \<Rightarrow> string" where
  "request_line_of verb uri version = verb @ '' '' @ uri @ '' '' @ version"

definition rewrite_http_request ::
    "string \<Rightarrow> string \<Rightarrow> string \<Rightarrow> string \<Rightarrow> string \<Rightarrow> string" where
  "rewrite_http_request request verb original_uri version origin_uri =
    replace_first (request_line_of verb original_uri version)
      (request_line_of verb origin_uri version) request"

definition word_or :: "string \<Rightarrow> string option \<Rightarrow> string" where
  "word_or d w = (case w of Some s \<Rightarrow> s | None \<Rightarrow> d)"

text \<open>The method, the URI and the version of a request.\<close>

definition request_words :: "string \<Rightarrow> string \<times> string \<times> string" where
  "request_words request =
    (let line = hd (str_split crlf request);
         (m, r) = next_word line; (u, r) = next_word r; (v, r) = next_word r
     in (word_or [] m, word_or [] u, word_or ''HTTP/1.1'' v))"

definition connection_established :: bytes where
  "connection_established = as_bytes (''HTTP/1.1 200 Connection Established'' @ crlf @ crlf)"

definition inbound_head_error :: "kernel_error \<Rightarrow> inbound_error" where
  "inbound_head_error e = (if e = HeadTooLarge then HttpHeaderTooLarge else Eof)"

definition handle_http :: "'s runner \<Rightarrow> byte \<Rightarrow> bytes \<Rightarrow> 's relay inb" where
  "handle_http run first s =
    wbind (wlift (lift_err inbound_head_error (read_head 65536 [first] s))) (\<lambda>(head, s).
    wbind (wlift (from_option InvalidUtf8 (from_utf8 head))) (\<lambda>request.
      let (verb, uri, version) = request_words request
      in if eq_ignore_ascii_case verb ''CONNECT'' then
           wbind (wlift (parse_host_port uri 443)) (\<lambda>t.
           wbind (wlift (lift_err RuntimeError (run HttpConnect t NetTcp))) (\<lambda>out.
           wbind (wput connection_established) (\<lambda>_. wlift (Ok (Relay out [] s)))))
         else
           wbind (wlift (parse_http_forward_target uri request)) (\<lambda>(t, origin_uri).
           wbind (wlift (lift_err RuntimeError (run HttpForward t NetTcp))) (\<lambda>out.
             wlift (Ok (Relay out
               (as_bytes (rewrite_http_request request verb uri version origin_uri)) s))))))"

definition handle_client :: "'s runner \<Rightarrow> socket_addr \<Rightarrow> bytes \<Rightarrow> 's relay inb" where
  "handle_client run local s =
    wbind (wlift (read_exact Eof 1 s)) (\<lambda>(first, s).
      let b = first ! 0
      in if b = 5 then handle_socks5 run local b s
         else if b \<in> set (as_bytes ''CGPHDOT'') then handle_http run b s
         else wlift (Err (UnsupportedFirstByte b)))"

section \<open>The UDP association\<close>

text \<open>
  The loop of \<open>handle_socks5_udp_associate\<close> and the tasks it spawns. An event is a read on the
  control connection (its length), a datagram from a peer, or a task that finished with the
  runtime's answer. Tasks outlive the loop. A step yields the datagrams it sent.
\<close>

definition SOCKS_UDP_MAX_IN_FLIGHT :: nat where "SOCKS_UDP_MAX_IN_FLIGHT = 512"

record udp_task =
  task_target :: target_address
  task_payload :: bytes
  task_peer :: socket_addr

record udp_association =
  in_flight :: "udp_task list"
  assoc_end :: "(inbound_error, unit) res option"

datatype udp_event =
    ControlRead nat
  | Received bytes socket_addr
  | Finished nat "(kernel_error, bytes) res"

definition new_association :: udp_association where
  "new_association = \<lparr>in_flight = [], assoc_end = None\<rparr>"

definition task_reply :: "udp_task \<Rightarrow> (kernel_error, bytes) res \<Rightarrow> (bytes \<times> socket_addr) list" where
  "task_reply t r =
    (case r of
       Inl _ \<Rightarrow> []
     | Inr reply \<Rightarrow> (case build_socks_udp_packet (task_target t) reply of
         Inl _ \<Rightarrow> []
       | Inr packet \<Rightarrow> [(packet, task_peer t)]))"

fun udp_step :: "udp_association \<Rightarrow> udp_event \<Rightarrow> udp_association \<times> (bytes \<times> socket_addr) list" where
  "udp_step st (ControlRead n) =
    (if assoc_end st = None \<and> n = 0 then (st\<lparr>assoc_end := Some (Ok ())\<rparr>, []) else (st, []))"
| "udp_step st (Received p peer) =
    (if assoc_end st \<noteq> None then (st, [])
     else (case parse_socks_udp_packet p of
         Inl e \<Rightarrow> (st\<lparr>assoc_end := Some (Inl e)\<rparr>, [])
       | Inr (t, payload) \<Rightarrow>
           (if length (in_flight st) < SOCKS_UDP_MAX_IN_FLIGHT
            then (st\<lparr>in_flight := in_flight st
                   @ [\<lparr>task_target = t, task_payload = payload, task_peer = peer\<rparr>]\<rparr>, [])
            else (st, []))))"
| "udp_step st (Finished i r) =
    (if i < length (in_flight st)
     then (st\<lparr>in_flight := take i (in_flight st) @ drop (Suc i) (in_flight st)\<rparr>,
           task_reply (in_flight st ! i) r)
     else (st, []))"

inductive udp_run :: "udp_event list \<Rightarrow> udp_association \<Rightarrow> (bytes \<times> socket_addr) list \<Rightarrow> bool" where
  udp_start: "udp_run [] new_association []"
| udp_next: "udp_run es st out \<Longrightarrow> udp_step st e = (st', sent) \<Longrightarrow> udp_run (es @ [e]) st' (out @ sent)"

inductive_cases udp_run_startE: "udp_run [] st out"

lemma udp_run_start_iff [simp]: "udp_run [] st out \<longleftrightarrow> st = new_association \<and> out = []"
  by (auto elim: udp_run_startE intro: udp_start)

definition asked :: "udp_event list \<Rightarrow> target_address \<Rightarrow> socket_addr \<Rightarrow> bool" where
  "asked es t peer \<longleftrightarrow>
    (\<exists>p payload. Received p peer \<in> set es \<and> parse_socks_udp_packet p = Ok (t, payload))"

definition datagrams :: "udp_event list \<Rightarrow> nat" where
  "datagrams es = length (filter (\<lambda>e. case e of Received _ _ \<Rightarrow> True | _ \<Rightarrow> False) es)"

lemma task_reply_cases:
  "task_reply t r = [] \<or> (\<exists>reply packet. build_socks_udp_packet (task_target t) reply = Ok packet
     \<and> task_reply t r = [(packet, task_peer t)])"
  by (auto simp: task_reply_def split: sum.splits)

lemma asked_mono: "asked es t peer \<Longrightarrow> asked (es @ es') t peer"
  by (auto simp: asked_def)

lemma udp_run_invariant:
  assumes "udp_run es st out"
  shows "length (in_flight st) \<le> SOCKS_UDP_MAX_IN_FLIGHT
    \<and> (\<forall>t \<in> set (in_flight st). asked es (task_target t) (task_peer t))
    \<and> (\<forall>(packet, peer) \<in> set out. \<exists>t reply. asked es t peer \<and> build_socks_udp_packet t reply = Ok packet)
    \<and> length out + length (in_flight st) \<le> datagrams es"
  using assms
proof (induction rule: udp_run.induct)
  case udp_start
  then show ?case by (simp add: new_association_def)
next
  case (udp_next es st out e st' sent)
  have keep: "\<forall>t \<in> set (in_flight st). asked (es @ [e]) (task_target t) (task_peer t)"
    "\<forall>(packet, peer) \<in> set out. \<exists>t reply. asked (es @ [e]) t peer \<and> build_socks_udp_packet t reply = Ok packet"
    using udp_next.IH asked_mono by fastforce+
  show ?case
  proof (cases e)
    case (ControlRead n)
    then show ?thesis using udp_next keep by (auto simp: datagrams_def split: if_splits)
  next
    case (Received p peer)
    show ?thesis
    proof (cases "assoc_end st = None \<and> length (in_flight st) < SOCKS_UDP_MAX_IN_FLIGHT
        \<and> (\<exists>x. parse_socks_udp_packet p = Ok x)")
      case True
      then obtain t payload where p: "parse_socks_udp_packet p = Ok (t, payload)" by auto
      then have "asked (es @ [e]) t peer" using Received by (auto simp: asked_def)
      then show ?thesis using udp_next keep True Received p by (auto simp: datagrams_def)
    next
      case False
      then have "in_flight st' = in_flight st" "sent = []"
        using udp_next.hyps Received by (auto split: sum.splits if_splits)
      then show ?thesis using udp_next.IH keep Received by (simp add: datagrams_def)
    qed
  next
    case (Finished i r)
    show ?thesis
    proof (cases "i < length (in_flight st)")
      case True
      then have st': "in_flight st' = take i (in_flight st) @ drop (Suc i) (in_flight st)"
        and sent: "sent = task_reply (in_flight st ! i) r"
        using udp_next.hyps Finished by auto
      have "asked (es @ [e]) (task_target (in_flight st ! i)) (task_peer (in_flight st ! i))"
        using keep True by simp
      then have "\<forall>(packet, peer) \<in> set sent. \<exists>t reply. asked (es @ [e]) t peer
          \<and> build_socks_udp_packet t reply = Ok packet"
        using task_reply_cases [of "in_flight st ! i" r] sent
        by (auto intro!: exI [of _ "task_target (in_flight st ! i)"])
      moreover have "length sent \<le> 1" using task_reply_cases [of "in_flight st ! i" r] sent by auto
      moreover have "set (in_flight st') \<subseteq> set (in_flight st)"
        using st' set_take_subset set_drop_subset by fastforce
      moreover have "Suc (length (in_flight st')) = length (in_flight st)" using st' True by simp
      ultimately show ?thesis using udp_next.IH keep Finished by (auto simp: datagrams_def)
    next
      case False
      then show ?thesis using udp_next keep Finished by (auto simp: datagrams_def)
    qed
  qed
qed

section \<open>The two address parsers\<close>

lemma four_header [simp]:
  "idx (0 # 0 # 0 # a # s) 3 = Ok a"
  "length s < n \<Longrightarrow> length (0 # 0 # 0 # a # s) < 4 + n"
  by (simp_all add: idx_def)

lemma slice_header:
  "4 \<le> i \<Longrightarrow> i \<le> j \<Longrightarrow> j \<le> 4 + length s \<Longrightarrow>
    slice_of (a # b # c # d # s) i j = Ok (take (j - i) (drop (i - 4) s))"
  by (simp add: slice_of_def drop_Cons' diff_diff_left eval_nat_numeral)

lemma idx_header: "4 \<le> i \<Longrightarrow> i < 4 + length s \<Longrightarrow> idx (a # b # c # d # s) i = Ok (s ! (i - 4))"
  by (simp add: idx_def nth_Cons' diff_diff_left eval_nat_numeral)

definition udp_error :: "inbound_error \<Rightarrow> inbound_error" where
  "udp_error e = (if e = Eof then TruncatedSocksUdp else e)"

text \<open>The host part: the UDP parser works with an index, the stream reader with what is left.\<close>

definition socks_stream_host :: "byte \<Rightarrow> bytes \<Rightarrow> (inbound_error, string \<times> bytes) res" where
  "socks_stream_host atyp s =
    (if atyp = 1 then rbind (read_exact Eof 4 s) (\<lambda>(b, s). Ok (show_ipv4 (ipv4_of_octets b), s))
     else if atyp = 3 then
       rbind (read_exact Eof 1 s) (\<lambda>(n, s).
       rbind (read_exact Eof (unat (n ! 0)) s) (\<lambda>(name, s).
       rbind (from_option InvalidUtf8 (from_utf8 name)) (\<lambda>h. Ok (h, s))))
     else if atyp = 4 then
       rbind (read_exact Eof 16 s) (\<lambda>(b, s). Ok (show_ipv6 (ipv6_of_octets b), s))
     else Err UnsupportedSocksAddress)"

lemma socks_udp_host_stream:
  "socks_udp_host (0 # 0 # 0 # atyp # s) =
    rbind (lift_err udp_error (socks_stream_host atyp s)) (\<lambda>(h, r). Ok (h, 4 + length s - length r))"
proof -
  consider "atyp = 1" | "atyp = 4" | "atyp = 3" | "atyp \<notin> {1, 3, 4}" by blast
  then show ?thesis
  proof cases
    case 1
    then show ?thesis
      by (simp add: socks_udp_host_def socks_stream_host_def read_exact_def slice_header lift_err_def
          udp_error_def)
  next
    case 2
    then show ?thesis
      by (simp add: socks_udp_host_def socks_stream_host_def read_exact_def slice_header lift_err_def
          udp_error_def)
  next
    case 3
    show ?thesis
    proof (cases s)
      case Nil
      then show ?thesis using 3
        by (simp add: socks_udp_host_def socks_stream_host_def read_exact_def lift_err_def udp_error_def)
    next
      case (Cons n r)
      show ?thesis
      proof (cases "from_utf8 (take (unat n) r)")
        case None
        then show ?thesis using 3 Cons
          by (simp add: socks_udp_host_def socks_stream_host_def read_exact_def lift_err_def
              udp_error_def slice_header idx_header)
      next
        case (Some h)
        then show ?thesis using 3 Cons
          by (simp add: socks_udp_host_def socks_stream_host_def read_exact_def lift_err_def
              udp_error_def slice_header idx_header)
      qed
    qed
  qed (simp add: socks_udp_host_def socks_stream_host_def lift_err_def udp_error_def)
qed

lemma socks_stream_host_rest:
  "socks_stream_host atyp s = Ok (h, r) \<Longrightarrow> \<exists>x. s = x @ r"
  unfolding socks_stream_host_def
  by (auto simp: rbind_Inr_iff read_exact_Ok_iff split: if_splits)

lemma read_socks_target_host:
  "read_socks_target atyp s = rbind (socks_stream_host atyp s) (\<lambda>(h, s).
    rbind (read_exact Eof 2 s) (\<lambda>(p, s). Ok (\<lparr>host = h, target_port = u16_from_be (p ! 0) (p ! 1)\<rparr>, s)))"
  unfolding read_socks_target_def socks_stream_host_def ..

lemma read_two_port:
  "(if length (q @ r) < length q + 2 then Err TruncatedSocksUdp
    else rbind (idx (q @ r) (length q)) (\<lambda>a. rbind (idx (q @ r) (length q + 1)) (\<lambda>b.
      rbind (slice_of (q @ r) (length q + 2) (length (q @ r))) (\<lambda>payload. Ok (f a b, payload)))))
   = lift_err udp_error (rbind (read_exact Eof 2 r) (\<lambda>(p, s). Ok (f (p ! 0) (p ! 1), s)))"
proof (cases "length r < 2")
  case True
  then show ?thesis by (simp add: read_exact_def lift_err_def udp_error_def)
next
  case False
  then obtain a b r' where "r = a # b # r'"
    by (cases r; cases "tl r") auto
  then show ?thesis
    by (simp add: read_exact_def lift_err_def idx_def nth_append slice_of_def)
qed

lemma parse_socks_udp_stream:
  "parse_socks_udp_packet (0 # 0 # 0 # atyp # s) = lift_err udp_error (read_socks_target atyp s)"
proof (cases "socks_stream_host atyp s")
  case (Inl e)
  then show ?thesis
    by (cases e) (simp_all add: parse_socks_udp_packet_def socks_udp_host_stream read_socks_target_host
        lift_err_def)
next
  case (Inr x)
  then obtain h r where hr: "socks_stream_host atyp s = Ok (h, r)" by (cases x) auto
  then obtain y where s: "s = y @ r" using socks_stream_host_rest by blast
  let ?q = "0 # 0 # 0 # atyp # y"
  have host: "socks_udp_host (0 # 0 # 0 # atyp # s) = Ok (h, length ?q)"
    using hr s by (simp add: socks_udp_host_stream lift_err_def)
  have p: "0 # 0 # 0 # atyp # s = ?q @ r" using s by simp
  have "parse_socks_udp_packet (0 # 0 # 0 # atyp # s) =
    (if length (?q @ r) < length ?q + 2 then Err TruncatedSocksUdp
     else rbind (idx (?q @ r) (length ?q)) (\<lambda>a. rbind (idx (?q @ r) (length ?q + 1)) (\<lambda>b.
       rbind (slice_of (?q @ r) (length ?q + 2) (length (?q @ r))) (\<lambda>payload.
         Ok (\<lparr>host = h, target_port = u16_from_be a b\<rparr>, payload)))))"
    unfolding parse_socks_udp_packet_def host rbind_simps prod.case p [symmetric]
    by simp
  also have "\<dots> = lift_err udp_error (rbind (read_exact Eof 2 r)
      (\<lambda>(p, s). Ok (\<lparr>host = h, target_port = u16_from_be (p ! 0) (p ! 1)\<rparr>, s)))"
    unfolding read_two_port [where f = "\<lambda>a b. \<lparr>host = h, target_port = u16_from_be a b\<rparr>"] ..
  finally show ?thesis using hr by (simp add: read_socks_target_host)
qed

section \<open>Round trips\<close>

lemma socks_address_decode:
  assumes "utf8_valid (as_bytes h)" "socks_address h = Ok (atyp # x)"
  shows "socks_stream_host atyp (x @ r) = Ok (canonical_host h, r)"
proof -
  consider a where "parse_ipv4 h = Some a" | a where "parse_ipv4 h = None" "parse_ipv6 h = Some a"
    | "parse_ipv4 h = None" "parse_ipv6 h = None" by fastforce
  then show ?thesis
  proof cases
    case 3
    then have "length h \<le> 255" "atyp = 3" "x = of_nat (length h) # as_bytes h"
      using assms(2) by (auto simp: socks_address_def Let_def split: if_splits)
    moreover have "unat (of_nat (length h) :: byte) = length h"
      using \<open>length h \<le> 255\<close> by (simp add: unat_of_nat)
    ultimately show ?thesis using 3 assms(1)
      by (simp add: socks_stream_host_def canonical_host_def read_exact_def)
  qed (use assms(2) in \<open>auto simp: socks_address_def socks_stream_host_def canonical_host_def\<close>)
qed

lemma socks_address_total: "length h \<le> 255 \<Longrightarrow> \<exists>atyp x. socks_address h = Ok (atyp # x)"
  by (simp add: socks_address_def Let_def split: option.splits)

lemma socks_address_Cons: "socks_address h = Ok bs \<Longrightarrow> \<exists>atyp x. bs = atyp # x"
  by (auto simp: socks_address_def Let_def split: option.splits if_splits)

definition socks_decode :: "bytes \<Rightarrow> (inbound_error, string \<times> nat) res" where
  "socks_decode bs = (case bs of
      [] \<Rightarrow> Err Eof
    | atyp # s \<Rightarrow> rbind (socks_stream_host atyp s) (\<lambda>(h, r). Ok (h, length bs - length r)))"

interpretation socks: address_codec socks_address socks_decode
proof unfold_locales
  show "host_ok h \<Longrightarrow> \<exists>bs. socks_address h = Ok bs" for h
    using socks_address_total [of h] by (auto simp: host_ok_def)
  show "socks_address h = Ok bs \<Longrightarrow> bs \<noteq> []" for h bs
    using socks_address_Cons by fastforce
  show "socks_decode (bs @ rest) = Ok (canonical_host h, length bs)"
    if "utf8_valid (as_bytes h)" "socks_address h = Ok bs" for h bs rest
    using that socks_address_Cons [OF that(2)] socks_address_decode [of h]
    by (auto simp: socks_decode_def)
qed

lemma read_target_encoded:
  assumes "utf8_valid (as_bytes h)" "socks_address h = Ok (atyp # x)"
  shows "read_socks_target atyp (x @ u16_to_be p @ r)
    = Ok (\<lparr>host = canonical_host h, target_port = p\<rparr>, r)"
  using socks_address_decode [OF assms, of "u16_to_be p @ r"]
  by (simp add: read_socks_target_host)

section \<open>Authorities\<close>

lemma show_nat_no_char: "\<not> is_digit_char 10 c \<Longrightarrow> c \<notin> set (show_nat n)"
  using show_nat_digits [of n] unfolding list_all_iff by blast

lemma parse_host_port_plain:
  assumes "CHR '':'' \<notin> set h" "h = [] \<or> hd h \<noteq> CHR ''[''"
  shows "parse_host_port (h @ '':'' @ show_nat (unat p)) d = Ok \<lparr>host = h, target_port = p\<rparr>"
    and "parse_host_port h d = Ok \<lparr>host = h, target_port = d\<rparr>"
proof -
  have no: "CHR '':'' \<notin> set (show_nat (unat p))" by (rule show_nat_no_char) simp
  have np: "strip_prefix ''['' h = None" "strip_prefix ''['' (h @ '':'' @ show_nat (unat p)) = None"
    using assms(2) by (cases h; simp add: strip_prefix_def starts_with_def)+
  show "parse_host_port (h @ '':'' @ show_nat (unat p)) d = Ok \<lparr>host = h, target_port = p\<rparr>"
    using np(2) rsplit_once_append [OF no, of h] assms(1) by (simp add: parse_host_port_def)
  show "parse_host_port h d = Ok \<lparr>host = h, target_port = d\<rparr>"
    using np(1) assms(1) rsplit_once_None_iff [of "CHR '':''" h] by (simp add: parse_host_port_def)
qed

lemma parse_host_port_bracket:
  assumes "CHR '']'' \<notin> set h"
  shows "parse_host_port (''['' @ h @ '']:'' @ show_nat (unat p)) d = Ok \<lparr>host = h, target_port = p\<rparr>"
    and "parse_host_port (''['' @ h @ '']'') d = Ok \<lparr>host = h, target_port = d\<rparr>"
proof -
  have "split_once (CHR '']'') (h @ CHR '']'' # r) = Some (h, r)" for r
    using assms by (simp add: split_once_Some_iff)
  then show "parse_host_port (''['' @ h @ '']:'' @ show_nat (unat p)) d = Ok \<lparr>host = h, target_port = p\<rparr>"
    and "parse_host_port (''['' @ h @ '']'') d = Ok \<lparr>host = h, target_port = d\<rparr>"
    by (simp_all add: parse_host_port_def strip_prefix_def starts_with_def)
qed

section \<open>The head of a request\<close>

definition http_head :: "string \<Rightarrow> string \<Rightarrow> string \<Rightarrow> string \<Rightarrow> string" where
  "http_head verb uri version headers = request_line_of verb uri version @ crlf @ headers"

definition complete_head :: "string \<Rightarrow> bool" where
  "complete_head text \<longleftrightarrow> 2 \<le> length text \<and> length text \<le> 65536 \<and> utf8_valid (as_bytes text)
     \<and> ends_with (as_bytes text) head_end
     \<and> (\<forall>k. 1 < k \<and> k < length text \<longrightarrow> \<not> ends_with (take k (as_bytes text)) head_end)"

lemma no_cr_first_line:
  assumes "CHR 0x0D \<notin> set line"
  shows "hd (str_split crlf (line @ crlf @ rest)) = line"
proof -
  have "\<not> starts_with (drop k (line @ crlf @ rest)) crlf" if "k < length line" for k
  proof -
    have "drop k (line @ crlf @ rest) = (line ! k) # drop (Suc k) (line @ crlf @ rest)"
      using that Cons_nth_drop_Suc [of k "line @ crlf @ rest"] by (simp add: nth_append)
    moreover have "line ! k \<noteq> CHR 0x0D" using that assms nth_mem by fastforce
    ultimately show ?thesis by (simp add: starts_with_def crlf_def)
  qed
  then have "str_split crlf (line @ crlf @ rest) = line # str_split crlf rest"
    by (intro str_split_first) (simp_all add: crlf_def)
  then show ?thesis by simp
qed

lemma visible_not_cr: "visible c \<Longrightarrow> c \<noteq> CHR 0x0D"
  by (auto simp: visible_def)

lemma plain_word_no_cr: "plain_word w \<Longrightarrow> CHR 0x0D \<notin> set w"
  using visible_not_cr by (auto simp: plain_word_def list_all_iff)

lemma request_words_head:
  assumes "plain_word m" "plain_word u" "plain_word v"
  shows "request_words (http_head m u v headers) = (m, u, v)"
proof -
  have "CHR 0x0D \<notin> set (request_line_of m u v)"
    using assms plain_word_no_cr by (simp add: request_line_of_def)
  then have "hd (str_split crlf (http_head m u v headers)) = request_line_of m u v"
    unfolding http_head_def by (rule no_cr_first_line)
  moreover have "next_word (m @ '' '' @ u @ '' '' @ v) = (Some m, '' '' @ u @ '' '' @ v)"
    and "next_word (u @ '' '' @ v) = (Some u, '' '' @ v)"
    and "next_word v = (Some v, [])"
    using assms next_word_plain [of v "[]"] by (simp_all add: next_word_plain)
  ultimately show ?thesis by (simp add: request_words_def request_line_of_def word_or_def)
qed

lemma read_complete_head:
  assumes "complete_head (c # text)"
  shows "read_head 65536 [of_nat (of_char c)] (as_bytes text @ rest) = Ok (as_bytes (c # text), rest)"
proof -
  have split: "as_bytes (c # text) = [of_nat (of_char c)] @ as_bytes text" by (simp add: as_bytes_def)
  have "\<not> ends_with ([of_nat (of_char c)] @ take k (as_bytes text)) head_end" if "0 < k" "k < length text" for k
    using assms that unfolding complete_head_def split
    by (auto dest!: spec [of _ "Suc k"])
  moreover have "text \<noteq> []" using assms by (auto simp: complete_head_def)
  ultimately show ?thesis
    unfolding read_head_Ok_iff using assms
    by (intro exI [of _ "as_bytes text"]) (auto simp: complete_head_def split as_bytes_def)
qed

lemma handle_client_http:
  assumes "complete_head text" "hd (as_bytes text) \<in> set (as_bytes ''CGPHDOT'')"
  shows "handle_client run local (as_bytes text @ rest) =
    (let (verb, uri, version) = request_words text
     in if eq_ignore_ascii_case verb ''CONNECT'' then
           wbind (wlift (parse_host_port uri 443)) (\<lambda>t.
           wbind (wlift (lift_err RuntimeError (run HttpConnect t NetTcp))) (\<lambda>out.
           wbind (wput connection_established) (\<lambda>_. wlift (Ok (Relay out [] rest)))))
         else
           wbind (wlift (parse_http_forward_target uri text)) (\<lambda>(t, origin_uri).
           wbind (wlift (lift_err RuntimeError (run HttpForward t NetTcp))) (\<lambda>out.
             wlift (Ok (Relay out
               (as_bytes (rewrite_http_request text verb uri version origin_uri)) rest)))))"
proof -
  obtain c t where t: "text = c # t" using assms(1) by (cases "text") (auto simp: complete_head_def)
  let ?b = "of_nat (of_char c) :: byte"
  have b: "as_bytes text = ?b # as_bytes t" using t by (simp add: as_bytes_def)
  have "?b \<in> set (as_bytes ''CGPHDOT'')" using assms(2) unfolding b by simp
  moreover from this have "?b \<noteq> 5" by (auto simp: as_bytes_def)
  ultimately have "handle_client run local (as_bytes text @ rest) = handle_http run ?b (as_bytes t @ rest)"
    unfolding b by (simp add: handle_client_def read_exact_def)
  moreover have "read_head 65536 [?b] (as_bytes t @ rest) = Ok (as_bytes text, rest)"
    using read_complete_head [of c t rest] assms(1) t by simp
  moreover have "from_utf8 (as_bytes text) = Some text"
    using assms(1) by (simp add: complete_head_def)
  ultimately show ?thesis by (simp add: handle_http_def lift_err_def)
qed

section \<open>Properties\<close>

text \<open>
  C12: a SOCKS5 client that offers up to 255 methods and asks to connect gets exactly that
  connection. The kernel answers the method negotiation, connects to the host the client named (an
  IPv6 address in canonical text) at its port over TCP, and only when that succeeded sends the
  success reply and relays the rest of the client's bytes, all of them; when the connection fails
  the client has seen the method reply and nothing else.
\<close>

theorem socks5_connect_exact:
  assumes "length methods \<le> 255" "utf8_valid (as_bytes h)" "socks_address h = Ok addr"
  shows "handle_client run local
      ([5, of_nat (length methods)] @ methods @ [5, 1, 0] @ addr @ u16_to_be p @ rest)
    = (case lift_err RuntimeError
              (run Socks5 \<lparr>host = canonical_host h, target_port = p\<rparr> NetTcp) of
         Inr out \<Rightarrow> ([5, 0] @ [5, 0, 0, 1, 0, 0, 0, 0, 0, 0], Ok (Relay out [] rest))
       | Inl e \<Rightarrow> ([5, 0], Inl e))"
proof -
  obtain atyp x where addr: "addr = atyp # x" using socks_address_Cons [OF assms(3)] by blast
  have n: "unat (of_nat (length methods) :: byte) = length methods"
    using assms(1) by (simp add: unat_of_nat)
  have h: "read_exact Eof (length methods) (methods @ s) = Ok (methods, s)" for s by simp
  have t: "read_socks_target atyp (x @ u16_to_be p @ rest)
      = Ok (\<lparr>host = canonical_host h, target_port = p\<rparr>, rest)"
    using read_target_encoded assms(2,3) addr by simp
  have four: "read_exact Eof 4 (5 # 1 # 0 # atyp # s) = Ok ([5, 1, 0, atyp], s)" for s
    by (simp add: read_exact_def)
  have one: "read_exact Eof 1 (b # s) = Ok ([b], s)" for b s by (simp add: read_exact_def)
  show ?thesis
    using n h t four one
    by (simp add: handle_client_def handle_socks5_def addr wbind_def wlift_def wput_def split: sum.splits)
qed

theorem socks5_connect_exact_witness:
  "handle_client (\<lambda>k t net. Ok t) undefined
     [5, 1, 0, 5, 1, 0, 3, 2, 0x61, 0x62, 0, 80, 7, 8]
   = ([5, 0, 5, 0, 0, 1, 0, 0, 0, 0, 0, 0],
      Ok (Relay \<lparr>host = ''ab'', target_port = 80\<rparr> [] [7, 8]))"
proof -
  have "utf8_valid (as_bytes ''ab'')" "socks_address ''ab'' = Ok [3, 2, 0x61, 0x62]"
    "canonical_host ''ab'' = ''ab''" "u16_to_be 80 = [0, 80]" by code_simp+
  with socks5_connect_exact [of "[0]" "''ab''" "[3, 2, 0x61, 0x62]" "\<lambda>k t net. Ok t" undefined 80 "[7, 8]"]
  show ?thesis by (simp add: lift_err_def)
qed

text \<open>
  The two SOCKS address parsers agree. Behind a correct UDP header, the parser of UDP datagrams
  (which indexes into the packet) computes what the parser of the TCP handshake (which reads a
  stream) computes on the same bytes: the same target, the same rest, the same errors except that
  a truncated packet is reported as such. In particular it never indexes out of range.
\<close>

theorem socks_udp_parser_agrees:
  "parse_socks_udp_packet (0 # 0 # 0 # atyp # s) = lift_err udp_error (read_socks_target atyp s)"
  by (rule parse_socks_udp_stream)

text \<open>
  A UDP reply built for the client reads back as it was meant. For every host of at most 255
  bytes the packet exists, and parsing it gives the host in canonical text, the port and the
  payload, whatever the payload is.
\<close>

theorem socks_udp_roundtrip:
  assumes "host_ok (host t)"
  shows "\<exists>packet. build_socks_udp_packet t payload = Ok packet \<and>
    parse_socks_udp_packet packet
      = Ok (\<lparr>host = canonical_host (host t), target_port = target_port t\<rparr>, payload)"
proof -
  obtain atyp x where a: "socks_address (host t) = Ok (atyp # x)"
    using socks.encode_total [OF assms] socks_address_Cons by blast
  have "parse_socks_udp_packet (0 # 0 # 0 # atyp # x @ u16_to_be (target_port t) @ payload)
      = Ok (\<lparr>host = canonical_host (host t), target_port = target_port t\<rparr>, payload)"
    unfolding parse_socks_udp_stream
    using read_target_encoded [OF _ a] assms by (simp add: host_ok_def lift_err_def)
  then show ?thesis using a by (simp add: build_socks_udp_packet_def)
qed

theorem socks_udp_roundtrip_witness:
  "\<exists>packet. build_socks_udp_packet \<lparr>host = ''FE80::1'', target_port = 53\<rparr> [1] = Ok packet \<and>
    parse_socks_udp_packet packet = Ok (\<lparr>host = ''fe80::1'', target_port = 53\<rparr>, [1])"
proof -
  have "host_ok ''FE80::1''" "canonical_host ''FE80::1'' = ''fe80::1''" by code_simp+
  with socks_udp_roundtrip [of "\<lparr>host = ''FE80::1'', target_port = 53\<rparr>" "[1]"]
  show ?thesis by simp
qed

text \<open>
  An HTTP CONNECT tunnels to the authority the client named. For every complete head whose
  request line is \<open>CONNECT authority version\<close>, the kernel connects over TCP to the host and port
  of the authority (port 443 when it has none; IPv6 in brackets), confirms only after it has
  connected, and relays every byte behind the head unchanged.
\<close>

theorem http_connect_exact:
  assumes "plain_word uri" "plain_word version" "complete_head (http_head ''CONNECT'' uri version headers)"
    and "parse_host_port uri 443 = Ok t"
  shows "handle_client run local (as_bytes (http_head ''CONNECT'' uri version headers) @ rest)
    = (case lift_err RuntimeError (run HttpConnect t NetTcp) of
         Inr out \<Rightarrow> (connection_established, Ok (Relay out [] rest))
       | Inl e \<Rightarrow> ([], Inl e))"
proof -
  have "plain_word ''CONNECT''" "eq_ignore_ascii_case ''CONNECT'' ''CONNECT''" by code_simp+
  moreover have "hd (as_bytes (http_head ''CONNECT'' uri version headers)) \<in> set (as_bytes ''CGPHDOT'')"
    by (simp add: http_head_def request_line_of_def as_bytes_def)
  ultimately show ?thesis
    using assms handle_client_http [OF assms(3), of run local rest]
      request_words_head [of "''CONNECT''" uri version headers]
    by (simp add: wbind_def wlift_def wput_def split: sum.splits)
qed

theorem http_connect_exact_witness:
  "handle_client (\<lambda>k t net. Ok (k, t)) undefined
     (as_bytes (''CONNECT [::1]:8443 HTTP/1.1'' @ crlf @ crlf) @ [22, 3])
   = (connection_established,
      Ok (Relay (HttpConnect, \<lparr>host = ''::1'', target_port = 8443\<rparr>) [] [22, 3]))"
proof -
  have head: "''CONNECT [::1]:8443 HTTP/1.1'' @ crlf @ crlf
      = http_head ''CONNECT'' ''[::1]:8443'' ''HTTP/1.1'' crlf" by code_simp
  have "plain_word ''[::1]:8443''" "plain_word ''HTTP/1.1''"
    "parse_host_port ''[::1]:8443'' 443 = Ok \<lparr>host = ''::1'', target_port = 8443\<rparr>" by code_simp+
  moreover have "complete_head (http_head ''CONNECT'' ''[::1]:8443'' ''HTTP/1.1'' crlf)"
  proof -
    let ?t = "http_head ''CONNECT'' ''[::1]:8443'' ''HTTP/1.1'' crlf"
    have "list_all (\<lambda>k. 1 < k \<longrightarrow> \<not> ends_with (take k (as_bytes ?t)) head_end) [0..<length ?t]"
      by code_simp
    then have "\<forall>k. 1 < k \<and> k < length ?t \<longrightarrow> \<not> ends_with (take k (as_bytes ?t)) head_end"
      by (auto simp only: list_all_iff set_upt atLeastLessThan_iff le0)
    moreover have "2 \<le> length ?t" "length ?t \<le> 65536" "utf8_valid (as_bytes ?t)"
      "ends_with (as_bytes ?t) head_end" by code_simp+
    ultimately show ?thesis unfolding complete_head_def by blast
  qed
  ultimately have "handle_client (\<lambda>k t net. Ok (k, t)) undefined
     (as_bytes (http_head ''CONNECT'' ''[::1]:8443'' ''HTTP/1.1'' crlf) @ [22, 3])
   = (case lift_err RuntimeError (Ok (HttpConnect, \<lparr>host = ''::1'', target_port = 8443\<rparr>)) of
         Inr out \<Rightarrow> (connection_established, Ok (Relay out [] [22, 3]))
       | Inl e \<Rightarrow> ([], Inl e))"
    using http_connect_exact [of "''[::1]:8443''" "''HTTP/1.1''" crlf _ "\<lambda>k t net. Ok (k, t)"] by blast
  then show ?thesis unfolding head by (simp add: lift_err_def)
qed

text \<open>
  C14: a plain HTTP request with an absolute URI is forwarded in origin form. The target is the
  authority of the URI (port 80 when it has none), and the server receives the request with the
  absolute URI of its first line replaced by the path (\<open>/\<close> when there is none), every header
  and the rest of the stream unchanged.
\<close>

theorem http_forward_rewrites:
  assumes "plain_word verb" "plain_word (''http://'' @ authority @ path)" "plain_word version"
    and "CHR ''/'' \<notin> set authority" "path = [] \<or> hd path = CHR ''/''"
    and "complete_head (http_head verb (''http://'' @ authority @ path) version headers)"
    and "hd (as_bytes verb) \<in> set (as_bytes ''CGPHDOT'')" "\<not> eq_ignore_ascii_case verb ''CONNECT''"
    and "parse_host_port authority 80 = Ok t"
  shows "handle_client run local
      (as_bytes (http_head verb (''http://'' @ authority @ path) version headers) @ rest)
    = ([], rbind (lift_err RuntimeError (run HttpForward t NetTcp)) (\<lambda>out.
         Ok (Relay out (as_bytes (http_head verb (if path = [] then ''/'' else path) version headers)) rest)))"
proof -
  obtain origin where origin: "(if path = [] then ''/'' else path) = origin" by simp
  let ?uri = "''http://'' @ authority @ path"
  let ?text = "http_head verb ?uri version headers"
  have "hd (as_bytes ?text) = hd (as_bytes verb)"
    using assms(1) by (cases verb) (simp_all add: http_head_def request_line_of_def plain_word_def as_bytes_def)
  then have first: "hd (as_bytes ?text) \<in> set (as_bytes ''CGPHDOT'')" using assms(7) by simp
  have "split_authority_path (authority @ path) = (authority, origin)"
    using assms(4,5) origin [symmetric] split_once_None_iff [of "CHR ''/''" authority]
      split_once_Some_iff [of "CHR ''/''" "authority @ path" authority "tl path"]
    by (cases path) (auto simp: split_authority_path_def)
  then have target: "parse_http_forward_target ?uri ?text = Ok (t, origin)"
    using assms(9) by (simp add: parse_http_forward_target_def strip_prefix_def starts_with_def)
  have "request_line_of verb ?uri version \<noteq> []" by (simp add: request_line_of_def)
  then have "rewrite_http_request ?text verb ?uri version origin
      = http_head verb origin version headers"
    unfolding rewrite_http_request_def http_head_def by (rule replace_first_prefix)
  then show ?thesis
    using handle_client_http [OF assms(6) first, of run local rest] target assms(8)
      request_words_head [OF assms(1-3), of headers]
    by (simp add: wbind_def wlift_def origin split: sum.splits)
qed

theorem http_forward_rewrites_witness:
  "handle_client (\<lambda>k t net. Ok (k, t)) undefined
     (as_bytes (''GET http://h:8080/a?b HTTP/1.1'' @ crlf @ crlf) @ [7])
   = ([], Ok (Relay (HttpForward, \<lparr>host = ''h'', target_port = 8080\<rparr>)
       (as_bytes (''GET /a?b HTTP/1.1'' @ crlf @ crlf)) [7]))"
proof -
  let ?t = "http_head ''GET'' (''http://'' @ ''h:8080'' @ ''/a?b'') ''HTTP/1.1'' crlf"
  have head: "''GET http://h:8080/a?b HTTP/1.1'' @ crlf @ crlf = ?t"
    "''GET /a?b HTTP/1.1'' @ crlf @ crlf = http_head ''GET'' ''/a?b'' ''HTTP/1.1'' crlf" by code_simp+
  have "list_all (\<lambda>k. 1 < k \<longrightarrow> \<not> ends_with (take k (as_bytes ?t)) head_end) [0..<length ?t]"
    by code_simp
  then have "\<forall>k. 1 < k \<and> k < length ?t \<longrightarrow> \<not> ends_with (take k (as_bytes ?t)) head_end"
    by (auto simp only: list_all_iff set_upt atLeastLessThan_iff le0)
  moreover have "2 \<le> length ?t" "length ?t \<le> 65536" "utf8_valid (as_bytes ?t)"
    "ends_with (as_bytes ?t) head_end" by code_simp+
  ultimately have complete: "complete_head ?t" unfolding complete_head_def by blast
  have 1: "plain_word ''GET''" "plain_word (''http://'' @ ''h:8080'' @ ''/a?b'')" "plain_word ''HTTP/1.1''"
    by code_simp+
  have 2: "CHR ''/'' \<notin> set ''h:8080''" "''/a?b'' = [] \<or> hd ''/a?b'' = CHR ''/''" by code_simp+
  have 3: "hd (as_bytes ''GET'') \<in> set (as_bytes ''CGPHDOT'')" "\<not> eq_ignore_ascii_case ''GET'' ''CONNECT''"
    by code_simp+
  have 4: "parse_host_port ''h:8080'' 80 = Ok \<lparr>host = ''h'', target_port = 8080\<rparr>" by code_simp
  show ?thesis
    unfolding head
    using http_forward_rewrites [OF 1 2 complete 3 4, of "\<lambda>k t net. Ok (k, t)" undefined "[7]"]
    by simp
qed

text \<open>
  C13: a UDP association stays within its bounds and answers only who asked. Whatever arrives and
  in whatever order its tasks finish, at most 512 requests are in flight, every datagram it sends
  goes to a peer that sent a well-formed request and carries that request's target, and there is
  at most one answer per datagram received.
\<close>

theorem udp_association_safe:
  assumes "udp_run es st out"
  shows "length (in_flight st) \<le> 512
    \<and> (\<forall>(packet, peer) \<in> set out. \<exists>p t payload reply. Received p peer \<in> set es
         \<and> parse_socks_udp_packet p = Ok (t, payload) \<and> build_socks_udp_packet t reply = Ok packet)
    \<and> length out + length (in_flight st) \<le> datagrams es"
  using udp_run_invariant [OF assms] unfolding SOCKS_UDP_MAX_IN_FLIGHT_def asked_def by blast

theorem udp_association_safe_witness:
  "length (in_flight (fst (udp_step new_association
     (Received [0, 0, 0, 1, 127, 0, 0, 1, 0, 53, 9] \<lparr>sa_ip = V4 1, sa_port = 2\<rparr>)))) \<le> 512"
proof -
  let ?e = "Received [0, 0, 0, 1, 127, 0, 0, 1, 0, 53, 9] \<lparr>sa_ip = V4 1, sa_port = 2\<rparr>"
  have "udp_run ([] @ [?e]) (fst (udp_step new_association ?e)) ([] @ snd (udp_step new_association ?e))"
    by (rule udp_next [OF udp_start]) simp
  from udp_association_safe [OF this] show ?thesis by blast
qed

end
