(* ===== verification/Packet_Session.thy ===== *)
theory Packet_Session
  imports Prelude Rust_Text "HOL-Library.AList" "HOL-Library.Multiset"
begin

text \<open>
  \<open>neoncore-kernel/src/packet_session.rs\<close>: the demultiplexer that hands the UDP replies of a shared
  stream to the requests that wait for them. Each waiting request owns the sender of a oneshot
  channel; a reply with a source address goes to the oldest request for that address, a reply
  without one to the oldest request of all.

  The state is the map from keys to queues of waiters and the order of arrival. The abstract
  specification is one list of waiting requests in the order they were registered.
\<close>

section \<open>State and operations\<close>

record waiter =
  request_id :: u64
  sender :: nat

datatype reply = Payload bytes | Failure string

text \<open>
  What the receiver of a oneshot channel observes: a reply that was sent, or that the sender was
  dropped. Channels are numbered.
\<close>

datatype outcome = Sent reply | Closed

type_synonym event = "nat \<times> outcome"

record demux_state =
  pending :: "(string \<times> waiter list) list"
  fifo :: "(string \<times> u64) list"

definition new_demux :: demux_state where
  "new_demux = \<lparr>pending = [], fifo = []\<rparr>"

definition pending_count :: "demux_state \<Rightarrow> nat" where
  "pending_count st = sum_list (map (\<lambda>(k, q). length q) (pending st))"

definition register :: "string \<Rightarrow> u64 \<Rightarrow> nat \<Rightarrow> demux_state \<Rightarrow> demux_state" where
  "register key rid ch st =
    (let queue = (case map_of (pending st) key of None \<Rightarrow> [] | Some q \<Rightarrow> q)
     in \<lparr>pending = AList.update key (queue @ [\<lparr>request_id = rid, sender = ch\<rparr>]) (pending st),
         fifo = fifo st @ [(key, rid)]\<rparr>)"

text \<open>\<open>get_mut\<close>, a change of the queue, and \<open>remove\<close> when the queue has become empty.\<close>

definition put_queue :: "string \<Rightarrow> waiter list \<Rightarrow> (string \<times> waiter list) list
    \<Rightarrow> (string \<times> waiter list) list" where
  "put_queue key q p = (if q = [] then AList.delete key p else AList.update key q p)"

definition remove_by_id :: "string \<Rightarrow> u64 \<Rightarrow> demux_state \<Rightarrow> demux_state \<times> event list" where
  "remove_by_id key rid st =
    (let fifo' = filter (\<lambda>(k, i). k \<noteq> key \<or> i \<noteq> rid) (fifo st)
     in case map_of (pending st) key of
          None \<Rightarrow> (st\<lparr>fifo := fifo'\<rparr>, [])
        | Some q \<Rightarrow>
            (\<lparr>pending = put_queue key (filter (\<lambda>w. request_id w \<noteq> rid) q) (pending st),
              fifo = fifo'\<rparr>,
             map (\<lambda>w. (sender w, Closed)) (filter (\<lambda>w. request_id w = rid) q)))"

definition deliver :: "string \<Rightarrow> reply \<Rightarrow> demux_state \<Rightarrow> demux_state \<times> bool \<times> event list" where
  "deliver key result st =
    (case map_of (pending st) key of
       None \<Rightarrow> (st, False, [])
     | Some [] \<Rightarrow> (st\<lparr>pending := put_queue key [] (pending st)\<rparr>, False, [])
     | Some (w # q) \<Rightarrow>
         (\<lparr>pending = put_queue key q (pending st),
           fifo = filter (\<lambda>(k, i). k \<noteq> key \<or> i \<noteq> request_id w) (fifo st)\<rparr>,
          True, [(sender w, Sent result)]))"

text \<open>\<open>iter().position(..)\<close> and \<open>remove(position)\<close>: the first element that passes the test.\<close>

fun take_first :: "('a \<Rightarrow> bool) \<Rightarrow> 'a list \<Rightarrow> ('a \<times> 'a list) option" where
  "take_first P [] = None"
| "take_first P (x # xs) =
    (if P x then Some (x, xs)
     else (case take_first P xs of None \<Rightarrow> None | Some (y, ys) \<Rightarrow> Some (y, x # ys)))"

fun next_waiter :: "(string \<times> u64) list \<Rightarrow> (string \<times> waiter list) list
    \<Rightarrow> waiter option \<times> demux_state" where
  "next_waiter [] p = (None, \<lparr>pending = p, fifo = []\<rparr>)"
| "next_waiter ((key, rid) # rest) p =
    (case map_of p key of
       None \<Rightarrow> next_waiter rest p
     | Some q \<Rightarrow>
         (case take_first (\<lambda>w. request_id w = rid) q of
            None \<Rightarrow> next_waiter rest p
          | Some (w, q') \<Rightarrow> (Some w, \<lparr>pending = put_queue key q' p, fifo = rest\<rparr>)))"

definition deliver_next :: "reply \<Rightarrow> demux_state \<Rightarrow> demux_state \<times> bool \<times> event list" where
  "deliver_next result st =
    (case next_waiter (fifo st) (pending st) of
       (None, st') \<Rightarrow> (st', False, [])
     | (Some w, st') \<Rightarrow> (st', True, [(sender w, Sent result)]))"

definition fail_all :: "string \<Rightarrow> demux_state \<Rightarrow> demux_state \<times> event list" where
  "fail_all message st =
    (\<lparr>pending = [], fifo = []\<rparr>,
     map (\<lambda>w. (sender w, Sent (Failure message))) (concat (map snd (pending st))))"

definition packet_target_key :: "string \<Rightarrow> u16 \<Rightarrow> string" where
  "packet_target_key h p = to_ascii_lowercase h @ '':'' @ show_nat (unat p)"

section \<open>Commands and the abstract specification\<close>

datatype demux_cmd =
    Register string u64 nat
  | Remove string u64
  | Deliver string reply
  | DeliverNext reply
  | FailAll string

fun demux_step :: "demux_state \<Rightarrow> demux_cmd \<Rightarrow> demux_state \<times> bool \<times> event list" where
  "demux_step st (Register key rid ch) = (register key rid ch st, True, [])"
| "demux_step st (Remove key rid) = (case remove_by_id key rid st of (st', ev) \<Rightarrow> (st', True, ev))"
| "demux_step st (Deliver key r) = deliver key r st"
| "demux_step st (DeliverNext r) = deliver_next r st"
| "demux_step st (FailAll m) = (case fail_all m st of (st', ev) \<Rightarrow> (st', True, ev))"

type_synonym waiting = "(string \<times> waiter) list"

fun spec_step :: "waiting \<Rightarrow> demux_cmd \<Rightarrow> waiting \<times> bool \<times> event list" where
  "spec_step ws (Register key rid ch) =
    (ws @ [(key, \<lparr>request_id = rid, sender = ch\<rparr>)], True, [])"
| "spec_step ws (Remove key rid) =
    (filter (\<lambda>(k, w). \<not> (k = key \<and> request_id w = rid)) ws, True,
     map (\<lambda>(k, w). (sender w, Closed)) (filter (\<lambda>(k, w). k = key \<and> request_id w = rid) ws))"
| "spec_step ws (Deliver key r) =
    (case take_first (\<lambda>(k, w). k = key) ws of
       None \<Rightarrow> (ws, False, [])
     | Some ((k, w), ws') \<Rightarrow> (ws', True, [(sender w, Sent r)]))"
| "spec_step ws (DeliverNext r) =
    (case ws of
       [] \<Rightarrow> ([], False, [])
     | (k, w) # ws' \<Rightarrow> (ws', True, [(sender w, Sent r)]))"
| "spec_step ws (FailAll m) =
    ([], True, map (\<lambda>(k, w). (sender w, Sent (Failure m))) ws)"

text \<open>Request ids come from a counter: a request is registered once under its key.\<close>

definition ticket :: "string \<times> waiter \<Rightarrow> string \<times> u64" where
  "ticket x = (fst x, request_id (snd x))"

fun cmd_fresh :: "waiting \<Rightarrow> demux_cmd \<Rightarrow> bool" where
  "cmd_fresh ws (Register key rid ch) \<longleftrightarrow> (key, rid) \<notin> set (map ticket ws)"
| "cmd_fresh ws _ \<longleftrightarrow> True"

section \<open>The refinement relation\<close>

lemma ticket_pair [simp]: "ticket (k, w) = (k, request_id w)"
  by (simp add: ticket_def)

definition queue_of :: "(string \<times> waiter list) list \<Rightarrow> string \<Rightarrow> waiter list" where
  "queue_of p k = (case map_of p k of None \<Rightarrow> [] | Some q \<Rightarrow> q)"

definition wf_pending :: "(string \<times> waiter list) list \<Rightarrow> bool" where
  "wf_pending p \<longleftrightarrow> distinct (map fst p) \<and> (\<forall>x \<in> set p. snd x \<noteq> [])"

definition of_key :: "string \<Rightarrow> waiting \<Rightarrow> waiter list" where
  "of_key k ws = map snd (filter (\<lambda>x. fst x = k) ws)"

definition demux_rel :: "demux_state \<Rightarrow> waiting \<Rightarrow> bool" where
  "demux_rel st ws \<longleftrightarrow> wf_pending (pending st) \<and> fifo st = map ticket ws
     \<and> distinct (map ticket ws) \<and> (\<forall>k. queue_of (pending st) k = of_key k ws)"

lemma take_first_Some_iff:
  "take_first P xs = Some (x, ys) \<longleftrightarrow>
    (\<exists>pre post. xs = pre @ x # post \<and> ys = pre @ post \<and> P x \<and> (\<forall>q \<in> set pre. \<not> P q))"
proof
  show "\<exists>pre post. xs = pre @ x # post \<and> ys = pre @ post \<and> P x \<and> (\<forall>q \<in> set pre. \<not> P q)"
    if "take_first P xs = Some (x, ys)"
    using that
  proof (induction xs arbitrary: ys)
    case Nil
    then show ?case by simp
  next
    case (Cons a xs)
    show ?case
    proof (cases "P a")
      case True
      then have "a # xs = [] @ x # xs \<and> ys = [] @ xs \<and> P x \<and> (\<forall>q \<in> set []. \<not> P q)"
        using Cons.prems by simp
      then show ?thesis by blast
    next
      case False
      then obtain zs where "take_first P xs = Some (x, zs)" "ys = a # zs"
        using Cons.prems by (auto split: option.splits)
      moreover from Cons.IH [OF this(1)] obtain pre post where
        "xs = pre @ x # post" "zs = pre @ post" "P x" "\<forall>q \<in> set pre. \<not> P q" by blast
      ultimately show ?thesis using False by (intro exI [of _ "a # pre"] exI [of _ post]) simp
    qed
  qed
next
  have "take_first P (pre @ x # post) = Some (x, pre @ post)"
    if "P x" "\<forall>q \<in> set pre. \<not> P q" for pre post
    using that by (induction pre) auto
  then show "take_first P xs = Some (x, ys)"
    if "\<exists>pre post. xs = pre @ x # post \<and> ys = pre @ post \<and> P x \<and> (\<forall>q \<in> set pre. \<not> P q)"
    using that by blast
qed

lemma take_first_None_iff: "take_first P xs = None \<longleftrightarrow> (\<forall>x \<in> set xs. \<not> P x)"
  by (induction xs) (auto split: option.splits)

lemma queue_of_put [simp]: "queue_of (put_queue k q p) k' = (if k' = k then q else queue_of p k')"
  by (simp add: queue_of_def put_queue_def delete_conv update_conv)

lemma queue_of_update [simp]:
  "queue_of (AList.update k q p) k' = (if k' = k then q else queue_of p k')"
  by (simp add: queue_of_def update_conv)

lemma wf_update: "wf_pending p \<Longrightarrow> q \<noteq> [] \<Longrightarrow> wf_pending (AList.update k q p)"
  unfolding wf_pending_def
proof (intro conjI ballI)
  assume p: "distinct (map fst p) \<and> (\<forall>x \<in> set p. snd x \<noteq> [])" and q: "q \<noteq> []"
  show d: "distinct (map fst (AList.update k q p))" using p by (simp add: distinct_update)
  fix x assume "x \<in> set (AList.update k q p)"
  then have "map_of (AList.update k q p) (fst x) = Some (snd x)"
    using d by (cases x) (auto intro: map_of_is_SomeI)
  then show "snd x \<noteq> []"
    using p q by (auto simp: update_conv dest!: map_of_SomeD split: if_splits)
qed

lemma wf_put [intro]: "wf_pending p \<Longrightarrow> wf_pending (put_queue k q p)"
proof (cases "q = []")
  case True
  assume "wf_pending p"
  moreover have "set (AList.delete k p) \<subseteq> set p" by (auto simp: AList.delete_eq)
  ultimately show ?thesis using True by (auto simp: wf_pending_def put_queue_def distinct_delete)
next
  case False
  assume "wf_pending p"
  then show ?thesis using False by (simp add: put_queue_def wf_update)
qed

lemma wf_queue: "wf_pending p \<Longrightarrow> map_of p k = (if queue_of p k = [] then None else Some (queue_of p k))"
  by (auto simp: wf_pending_def queue_of_def split: option.splits dest!: map_of_SomeD)

lemma of_key_simps [simp]:
  "of_key k [] = []"
  "of_key k (x # ws) = (if fst x = k then snd x # of_key k ws else of_key k ws)"
  "of_key k (ws @ ws') = of_key k ws @ of_key k ws'"
  by (simp_all add: of_key_def)

lemma of_key_empty: "of_key k ws = [] \<longleftrightarrow> (\<forall>x \<in> set ws. fst x \<noteq> k)"
  by (auto simp: of_key_def filter_empty_conv)

lemma of_key_split:
  "of_key k ws = w # q \<Longrightarrow>
    \<exists>pre post. ws = pre @ (k, w) # post \<and> of_key k pre = [] \<and> q = of_key k post"
  unfolding of_key_def map_eq_Cons_conv filter_eq_Cons_iff
  by (auto simp: filter_empty_conv)

lemma take_first_key:
  "take_first (\<lambda>(k, w). k = key) ws =
    (case of_key key ws of [] \<Rightarrow> None | w # q \<Rightarrow> take_first (\<lambda>(k, w). k = key) ws)"
  by (auto simp: take_first_None_iff of_key_empty split: list.splits)

text \<open>With distinct tickets, \<open>retain\<close> on the ticket of one request drops that request only.\<close>

lemma retain_one:
  assumes "distinct (map ticket (pre @ (k, w) # post))"
  shows "filter (\<lambda>(k', i). k' \<noteq> k \<or> i \<noteq> request_id w) (map ticket (pre @ (k, w) # post))
    = map ticket (pre @ post)"
proof -
  have "filter (\<lambda>(k', i). k' \<noteq> k \<or> i \<noteq> request_id w) (map ticket xs) = map ticket xs"
    if "ticket (k, w) \<notin> ticket ` set xs" for xs
    using that by (intro filter_True) (auto simp: ticket_def)
  then show ?thesis using assms by (simp add: ticket_def)
qed

lemma retain_key:
  "filter (\<lambda>(k', i). k' \<noteq> k \<or> i \<noteq> rid) (map ticket ws)
    = map ticket (filter (\<lambda>(k', w). k' = k \<longrightarrow> request_id w \<noteq> rid) ws)"
  by (induction ws) (auto simp: ticket_def)

lemma of_key_remove:
  "of_key k' (filter (\<lambda>(k0, w). k0 = k \<longrightarrow> request_id w \<noteq> rid) ws)
    = (if k' = k then filter (\<lambda>w. request_id w \<noteq> rid) (of_key k ws) else of_key k' ws)"
  by (induction ws) auto

lemma of_key_removed:
  "map (\<lambda>(k0, w). (sender w, Closed)) (filter (\<lambda>(k0, w). k0 = k \<and> request_id w = rid) ws)
    = map (\<lambda>w. (sender w, Closed)) (filter (\<lambda>w. request_id w = rid) (of_key k ws))"
  by (induction ws) (simp_all add: case_prod_unfold)

lemma of_key_other:
  "of_key k (filter (\<lambda>y. fst y \<noteq> k') ws) = (if k = k' then [] else of_key k ws)"
  by (induction ws) auto

lemma mset_of_key:
  "mset (map snd ws) = mset (of_key k ws) + mset (map snd (filter (\<lambda>y. fst y \<noteq> k) ws))"
  by (induction ws) simp_all

lemma pending_mset:
  assumes "wf_pending p" "\<forall>k. queue_of p k = of_key k ws"
  shows "mset (concat (map snd p)) = mset (map snd ws)"
  using assms
proof (induction p arbitrary: ws)
  case Nil
  then have "of_key (fst x) ws = []" for x :: "string \<times> waiter" by (simp add: queue_of_def)
  then have "ws = []" unfolding of_key_empty by (cases ws) auto
  then show ?case by simp
next
  case (Cons x p)
  let ?ws = "filter (\<lambda>y. fst y \<noteq> fst x) ws"
  have wf: "wf_pending p" and none: "map_of p (fst x) = None"
    using Cons.prems(1) by (auto simp: wf_pending_def map_of_eq_None_iff)
  have "queue_of p k = of_key k ?ws" for k
    using Cons.prems(2) [rule_format, of k] none
    by (cases x) (auto simp: queue_of_def of_key_other split: if_splits)
  then have "mset (concat (map snd p)) = mset (map snd ?ws)" using Cons.IH wf by blast
  moreover have "snd x = of_key (fst x) ws"
    using Cons.prems(2) [rule_format, of "fst x"] by (cases x) (simp add: queue_of_def)
  ultimately show ?case using mset_of_key [of ws "fst x"] by simp
qed

section \<open>Each operation refines the list of waiting requests\<close>

lemma demux_relD:
  assumes "demux_rel st ws"
  shows "wf_pending (pending st)" "fifo st = map ticket ws" "distinct (map ticket ws)"
    "queue_of (pending st) k = of_key k ws"
  using assms by (simp_all add: demux_rel_def)

lemma new_demux_rel: "demux_rel new_demux []"
  by (simp add: demux_rel_def new_demux_def wf_pending_def queue_of_def)

lemma pending_lookup:
  "demux_rel st ws \<Longrightarrow>
    map_of (pending st) k = (if of_key k ws = [] then None else Some (of_key k ws))"
  using wf_queue [of "pending st" k] by (simp add: demux_relD)

lemma register_rel:
  assumes "demux_rel st ws" "(key, rid) \<notin> set (map ticket ws)"
  shows "demux_rel (register key rid ch st) (ws @ [(key, \<lparr>request_id = rid, sender = ch\<rparr>)])"
proof -
  have "register key rid ch st = \<lparr>pending = AList.update key
      (queue_of (pending st) key @ [\<lparr>request_id = rid, sender = ch\<rparr>]) (pending st),
      fifo = fifo st @ [(key, rid)]\<rparr>"
    by (simp add: register_def queue_of_def)
  then show ?thesis using assms by (simp add: demux_rel_def wf_update)
qed

lemma remove_rel:
  assumes "demux_rel st ws" "remove_by_id key rid st = (st', ev)"
  shows "demux_rel st' (filter (\<lambda>(k, w). \<not> (k = key \<and> request_id w = rid)) ws)"
    and "ev = map (\<lambda>(k, w). (sender w, Closed)) (filter (\<lambda>(k, w). k = key \<and> request_id w = rid) ws)"
proof -
  note rel = demux_relD [OF assms(1)]
  have d: "distinct (map ticket (filter (\<lambda>(k, w). \<not> (k = key \<and> request_id w = rid)) ws))"
    using rel(3) by (simp add: distinct_map inj_on_def)
  show "demux_rel st' (filter (\<lambda>(k, w). \<not> (k = key \<and> request_id w = rid)) ws)"
    using assms(2) d rel unfolding remove_by_id_def pending_lookup [OF assms(1)] rel(2) retain_key
    by (auto simp: demux_rel_def of_key_remove split: if_splits)
  show "ev = map (\<lambda>(k, w). (sender w, Closed)) (filter (\<lambda>(k, w). k = key \<and> request_id w = rid) ws)"
    using assms unfolding of_key_removed
    by (auto simp: remove_by_id_def pending_lookup split: if_splits)
qed

lemma rel_take:
  assumes "demux_rel st (pre @ (k, w) # post)" "of_key k pre = []"
  shows "demux_rel \<lparr>pending = put_queue k (of_key k post) (pending st),
      fifo = map ticket (pre @ post)\<rparr> (pre @ post)"
  using assms by (auto simp: demux_rel_def)

lemma deliver_rel:
  assumes "demux_rel st ws"
  shows "case take_first (\<lambda>(k, w). k = key) ws of
      None \<Rightarrow> deliver key r st = (st, False, [])
    | Some ((k, w), ws') \<Rightarrow> \<exists>st'. deliver key r st = (st', True, [(sender w, Sent r)]) \<and> demux_rel st' ws'"
proof (cases "of_key key ws")
  case Nil
  then show ?thesis
    using assms by (simp add: take_first_key deliver_def pending_lookup)
next
  case (Cons w q)
  from of_key_split [OF this] obtain pre post where
    ws: "ws = pre @ (key, w) # post" "of_key key pre = []" "q = of_key key post" by blast
  have "take_first (\<lambda>(k, w). k = key) ws = Some ((key, w), pre @ post)"
    unfolding take_first_Some_iff using ws
    by (intro exI [of _ pre] exI [of _ post]) (auto simp: of_key_empty)
  moreover have "filter (\<lambda>(k', i). k' \<noteq> key \<or> i \<noteq> request_id w) (fifo st) = map ticket (pre @ post)"
    using demux_relD(2,3) [OF assms] unfolding ws(1) by (simp only: retain_one)
  then have "deliver key r st = (\<lparr>pending = put_queue key (of_key key post) (pending st),
      fifo = map ticket (pre @ post)\<rparr>, True, [(sender w, Sent r)])"
    using Cons ws(3) by (simp add: deliver_def pending_lookup [OF assms])
  ultimately show ?thesis
    using rel_take [of st pre key w post] assms ws by auto
qed

text \<open>
  The loop of \<open>deliver_next\<close> skips tickets without a waiter. In a reachable state there are none:
  the first ticket belongs to the oldest request, which is also first in its queue.
\<close>

lemma deliver_next_rel:
  assumes "demux_rel st ws"
  shows "case ws of
      [] \<Rightarrow> \<exists>st'. deliver_next r st = (st', False, []) \<and> demux_rel st' []
    | (k, w) # ws' \<Rightarrow> \<exists>st'. deliver_next r st = (st', True, [(sender w, Sent r)]) \<and> demux_rel st' ws'"
proof (cases ws)
  case Nil
  then show ?thesis using assms by (simp add: deliver_next_def demux_rel_def)
next
  case (Cons x ws')
  obtain k w where x: "x = (k, w)" by (cases x)
  have "fifo st = (k, request_id w) # map ticket ws'"
    and "map_of (pending st) k = Some (w # of_key k ws')"
    using assms Cons x by (simp_all add: demux_relD pending_lookup ticket_def)
  then have "deliver_next r st = (\<lparr>pending = put_queue k (of_key k ws') (pending st),
      fifo = map ticket ws'\<rparr>, True, [(sender w, Sent r)])"
    by (simp add: deliver_next_def)
  then show ?thesis using rel_take [of st "[]" k w ws'] assms Cons x by simp
qed

lemma fail_all_rel:
  assumes "demux_rel st ws" "fail_all m st = (st', ev)"
  shows "demux_rel st' [] \<and> mset ev = mset (map (\<lambda>(k, w). (sender w, Sent (Failure m))) ws)"
proof -
  let ?f = "\<lambda>w. (sender w, Sent (Failure m))"
  have "mset (concat (map snd (pending st))) = mset (map snd ws)"
    by (rule pending_mset) (simp_all add: demux_relD [OF assms(1)])
  then have "mset (map ?f (concat (map snd (pending st)))) = mset (map ?f (map snd ws))"
    by (simp only: mset_map)
  then show ?thesis
    using assms(2) new_demux_rel by (auto simp: fail_all_def new_demux_def case_prod_unfold comp_def)
qed

lemma step_rel:
  assumes "demux_rel st ws" "cmd_fresh ws c" "demux_step st c = (st', b, ev)"
    and "spec_step ws c = (ws', b', ev')"
  shows "demux_rel st' ws' \<and> b = b' \<and> mset ev = mset ev'"
proof (cases c)
  case (Register k i ch)
  then show ?thesis using assms register_rel [of st ws k i ch] by auto
next
  case (Remove k i)
  then show ?thesis using assms remove_rel [of st ws k i] by (auto split: prod.splits)
next
  case (Deliver k r)
  then show ?thesis using assms deliver_rel [of st ws k r] by (auto split: option.splits)
next
  case (DeliverNext r)
  then show ?thesis using assms deliver_next_rel [of st ws r] by (auto split: list.splits)
next
  case (FailAll m)
  then show ?thesis using assms fail_all_rel [of st ws m] by (auto split: prod.splits)
qed

section \<open>What a client of the demultiplexer relies on\<close>

text \<open>
  A run of commands, and the channels the run registered. Every channel is accounted for: it is
  still waiting, or it got exactly one outcome.
\<close>

fun run_demux :: "('s \<Rightarrow> demux_cmd \<Rightarrow> 's \<times> bool \<times> event list) \<Rightarrow> 's \<Rightarrow> demux_cmd list
    \<Rightarrow> 's \<times> event list" where
  "run_demux step s [] = (s, [])"
| "run_demux step s (c # cs) =
    (case step s c of (s', b, ev) \<Rightarrow> (case run_demux step s' cs of (s'', evs) \<Rightarrow> (s'', ev @ evs)))"

fun registered :: "demux_cmd \<Rightarrow> nat list" where
  "registered (Register k i ch) = [ch]"
| "registered c = []"

fun all_fresh :: "waiting \<Rightarrow> demux_cmd list \<Rightarrow> bool" where
  "all_fresh ws [] \<longleftrightarrow> True"
| "all_fresh ws (c # cs) \<longleftrightarrow> cmd_fresh ws c \<and> all_fresh (fst (spec_step ws c)) cs"

definition channels :: "waiting \<Rightarrow> nat multiset" where
  "channels ws = mset (map (\<lambda>x. sender (snd x)) ws)"

lemma filter_channels:
  "channels (filter P ws) + channels (filter (\<lambda>x. \<not> P x) ws) = channels ws"
  by (induction ws) (simp_all add: channels_def)

lemma spec_step_channels:
  assumes "spec_step ws c = (ws', b, ev)"
  shows "channels ws' + mset (map fst ev) = channels ws + mset (registered c)"
proof (cases c)
  case (Register k i ch)
  then show ?thesis using assms by (auto simp: channels_def)
next
  case (Remove k i)
  let ?P = "\<lambda>(k', w). k' = k \<and> request_id w = i"
  have "ws' = filter (\<lambda>x. \<not> ?P x) ws" "mset (map fst ev) = channels (filter ?P ws)"
    using assms Remove
    by (auto simp: channels_def case_prod_unfold comp_def multiset.map_comp)
  then show ?thesis using filter_channels [of ?P ws] Remove by (simp add: add.commute)
next
  case (Deliver k r)
  then show ?thesis
    using assms by (auto simp: channels_def take_first_Some_iff split: option.splits)
next
  case (DeliverNext r)
  then show ?thesis using assms by (auto simp: channels_def split: list.splits)
next
  case (FailAll m)
  then show ?thesis
    using assms by (auto simp: channels_def case_prod_unfold comp_def multiset.map_comp)
qed

locale reply_demux =
  fixes step :: "'s \<Rightarrow> demux_cmd \<Rightarrow> 's \<times> bool \<times> event list"
    and waits :: "'s \<Rightarrow> waiting \<Rightarrow> bool"
  assumes step_refines: "waits s ws \<Longrightarrow> cmd_fresh ws c \<Longrightarrow> step s c = (s', b, ev) \<Longrightarrow>
      spec_step ws c = (ws', b', ev') \<Longrightarrow> waits s' ws' \<and> b = b' \<and> mset ev = mset ev'"
begin

lemma run_refines:
  assumes "waits s ws" "all_fresh ws cs" "run_demux step s cs = (s', evs)"
    and "run_demux spec_step ws cs = (ws', evs')"
  shows "waits s' ws' \<and> mset evs = mset evs'"
  using assms
proof (induction cs arbitrary: s ws s' ws' evs evs')
  case Nil
  then show ?case by simp
next
  case (Cons c cs)
  obtain s1 b ev where 1: "step s c = (s1, b, ev)" by (cases "step s c")
  obtain ws1 b1 ev1 where 2: "spec_step ws c = (ws1, b1, ev1)" by (cases "spec_step ws c")
  obtain s2 ev2 where 3: "run_demux step s1 cs = (s2, ev2)" by (cases "run_demux step s1 cs")
  obtain ws2 ev3 where 4: "run_demux spec_step ws1 cs = (ws2, ev3)"
    by (cases "run_demux spec_step ws1 cs")
  have "waits s1 ws1 \<and> mset ev = mset ev1"
    using step_refines [OF Cons.prems(1) _ 1 2] Cons.prems(2) by simp
  moreover have "waits s2 ws2 \<and> mset ev2 = mset ev3"
    using calculation Cons.IH [OF _ _ 3 4] Cons.prems(2) 2 by simp
  ultimately show ?case using Cons.prems(3,4) 1 2 3 4 by auto
qed

lemma run_accounts:
  assumes "waits s ws" "all_fresh ws cs" "run_demux step s cs = (s', evs)"
  shows "\<exists>ws'. waits s' ws'
    \<and> channels ws' + mset (map fst evs) = channels ws + mset (concat (map registered cs))"
proof -
  obtain ws' evs' where r: "run_demux spec_step ws cs = (ws', evs')"
    by (cases "run_demux spec_step ws cs")
  have "channels ws' + mset (map fst evs') = channels ws + mset (concat (map registered cs))"
    using r
  proof (induction cs arbitrary: ws ws' evs')
    case Nil
    then show ?case by simp
  next
    case (Cons c cs)
    obtain ws1 b ev where 1: "spec_step ws c = (ws1, b, ev)" by (cases "spec_step ws c")
    obtain ws2 ev2 where 2: "run_demux spec_step ws1 cs = (ws2, ev2)"
      by (cases "run_demux spec_step ws1 cs")
    have "channels ws1 + mset (map fst ev) = channels ws + mset (registered c)"
      by (rule spec_step_channels [OF 1])
    moreover have "channels ws2 + mset (map fst ev2) = channels ws1 + mset (concat (map registered cs))"
      by (rule Cons.IH [OF 2])
    moreover have "ws' = ws2" "evs' = ev @ ev2" using Cons.prems 1 2 by simp_all
    ultimately show ?case by (simp add: union_assoc) (metis union_assoc union_commute)
  qed
  moreover have "waits s' ws' \<and> mset evs = mset evs'"
    by (rule run_refines [OF assms r])
  ultimately have "waits s' ws'" "channels ws' + mset (map fst evs)
      = channels ws + mset (concat (map registered cs))"
    by (simp_all only: mset_map)
  then show ?thesis by blast
qed

end

interpretation kernel_demux: reply_demux demux_step demux_rel
  by unfold_locales (rule step_rel)

lemma pending_count_rel: "demux_rel st ws \<Longrightarrow> pending_count st = length ws"
  using arg_cong [OF pending_mset [of "pending st" ws], of size]
  by (simp add: demux_relD pending_count_def length_concat case_prod_unfold comp_def)

section \<open>Properties\<close>

text \<open>
  C3: the demultiplexer, with its map of queues, its arrival order and its clean-up of empty
  queues, implements one list of waiting requests: every operation keeps the two related, returns
  what the list operation returns and sends the same outcomes to the same channels (a reply with
  a source to the oldest request for it, a reply without one to the oldest request, a removed
  request only sees its channel closed). The only condition is that a request id is registered
  once under a key while it waits.
\<close>

theorem demux_step_refines:
  assumes "demux_rel st ws" "cmd_fresh ws c"
    and "demux_step st c = (st', b, ev)" "spec_step ws c = (ws', b', ev')"
  shows "demux_rel st' ws' \<and> b = b' \<and> mset ev = mset ev'"
  using assms by (rule kernel_demux.step_refines)

theorem demux_step_refines_witness:
  "demux_rel (register ''a:53'' 1 7 new_demux) [(''a:53'', \<lparr>request_id = 1, sender = 7\<rparr>)]"
  using demux_step_refines [OF new_demux_rel, of "Register ''a:53'' 1 7"]
  by simp

text \<open>
  C4: No reply is lost or duplicated. After any run of commands from an empty demultiplexer in
  which request ids are not reused while they wait, every channel that was registered is accounted
  for exactly once: it is still waiting (and counted by \<open>pending_count\<close>), or it received exactly
  one outcome.
\<close>

theorem demux_exactly_once:
  assumes "all_fresh [] cs" "run_demux demux_step new_demux cs = (st, evs)"
  shows "\<exists>ws. demux_rel st ws \<and> pending_count st = length ws
    \<and> channels ws + mset (map fst evs) = mset (concat (map registered cs))"
  using kernel_demux.run_accounts [OF new_demux_rel assms]
  by (auto simp: pending_count_rel channels_def)

theorem demux_exactly_once_witness:
  "\<exists>ws. pending_count (fst (run_demux demux_step new_demux
       [Register ''a'' 1 0, Register ''b'' 2 1, Deliver ''b'' (Payload [1]), Remove ''b'' 2])) = length ws
     \<and> channels ws + {#1#} = {#0, 1#}"
proof -
  let ?cs = "[Register ''a'' 1 0, Register ''b'' 2 1, Deliver ''b'' (Payload [1]), Remove ''b'' 2]"
  have "run_demux demux_step new_demux ?cs
      = (\<lparr>pending = [(''a'', [\<lparr>request_id = 1, sender = 0\<rparr>])], fifo = [(''a'', 1)]\<rparr>,
         [(1, Sent (Payload [1]))])"
    by (simp add: new_demux_def register_def deliver_def remove_by_id_def put_queue_def)
  with demux_exactly_once [of ?cs] show ?thesis by (auto simp: add_mset_commute)
qed

end
