(* ===== verification/Vless_Config.thy ===== *)
theory Vless_Config
  imports Kernel_Session
begin

text \<open>
  The configuration of the VLESS adapter (\<open>neoncore-kernel/src/adapter/vless.rs\<close>): how a node of
  the session becomes a \<open>VlessConfig\<close>, the request paths and authorities derived from it, the
  choice of a transport, and the table of shared mux workers.
\<close>

section \<open>Errors and data\<close>

datatype vless_error =
    InvalidUuid
  | MissingRealityParameter string
  | UnsupportedSecurity string
  | UnsupportedTransport string
  | UnsupportedXHttpMode string
  | UnsupportedHttpVersion string
  | InvalidNumber string
  | AddonTooLarge
  | DomainTooLong
  | AddressEmpty
  | AddressTruncated
  | InvalidAddressType byte
  | AddressNotUtf8
  | XudpTargetTruncated
  | XudpPayloadTooLarge
  | XudpMetadataTooLarge
  | XudpMetadataLength nat
  | UdpPayloadTooLarge
  | ResponseVersion byte
  | StreamClosed
  | TransportError

datatype vless_security = SecNone | SecReality string string "string option" | SecTls

datatype transport_kind = KTcp | KWebSocket | KGrpc | KH2 | KHttpUpgrade | KXHttp

datatype xhttp_mode = XAuto | StreamOne | StreamUp | PacketUp

datatype xhttp_version = VAuto | H1 | H2 | H3

record xmux_config =
  max_concurrency :: int
  max_connections :: int
  c_max_reuse_times :: int
  h_max_request_times :: int
  h_max_reusable_secs :: nat

record vless_transport =
  transport_kind :: transport_kind
  t_host :: "string option"
  t_path :: string
  t_service_name :: string
  t_authority :: "string option"
  t_mode :: xhttp_mode
  t_http_version :: xhttp_version
  sc_max_each_post_bytes :: nat
  sc_min_posts_interval_ms :: nat
  t_xmux :: xmux_config

record vless_config =
  v_server :: string
  v_server_port :: u16
  v_uuid :: bytes
  v_sni :: "string option"
  v_flow :: "string option"
  v_security :: vless_security
  v_transport :: vless_transport
  v_insecure :: bool

section \<open>Parsing the node's parameters\<close>

definition is_hex :: "char \<Rightarrow> bool" where
  "is_hex c = is_digit_char 16 c"

text \<open>\<open>u8::from_str_radix\<close> on two hexadecimal digits.\<close>

definition hex_byte :: "char \<Rightarrow> char \<Rightarrow> byte" where
  "hex_byte a b = of_nat (digits_value 16 [a, b])"

fun hex_bytes :: "string \<Rightarrow> bytes" where
  "hex_bytes (a # b # r) = hex_byte a b # hex_bytes r"
| "hex_bytes _ = []"

definition parse_uuid :: "string \<Rightarrow> (vless_error, bytes) res" where
  "parse_uuid v =
    (let compact = filter (\<lambda>c. c \<noteq> CHR ''-'') v
     in if length compact \<noteq> 32 \<or> \<not> list_all is_hex compact then Err InvalidUuid
        else Ok (hex_bytes compact))"

text \<open>\<open>or_else\<close> over the aliases of a parameter: the first that is a string.\<close>

definition first_parameter :: "kernel_node \<Rightarrow> string list \<Rightarrow> string option" where
  "first_parameter n keys = (case List.map_filter (parameter n) keys of [] \<Rightarrow> None | v # _ \<Rightarrow> Some v)"

definition or_default :: "'a \<Rightarrow> 'a option \<Rightarrow> 'a" where
  "or_default d x = (case x of Some v \<Rightarrow> v | None \<Rightarrow> d)"

definition show_bool :: "bool \<Rightarrow> string" where
  "show_bool b = (if b then ''true'' else ''false'')"

definition parse_unsigned_param ::
    "nat \<Rightarrow> kernel_node \<Rightarrow> string list \<Rightarrow> nat \<Rightarrow> (vless_error, nat) res" where
  "parse_unsigned_param m n keys dflt =
    (case first_parameter n keys of
       None \<Rightarrow> Ok dflt
     | Some v \<Rightarrow> from_option (InvalidNumber v) (parse_unsigned m v))"

definition parse_usize_param :: "kernel_node \<Rightarrow> string list \<Rightarrow> nat \<Rightarrow> (vless_error, nat) res" where
  "parse_usize_param = parse_unsigned_param (2 ^ 64 - 1)"

definition parse_u64_param :: "kernel_node \<Rightarrow> string list \<Rightarrow> nat \<Rightarrow> (vless_error, nat) res" where
  "parse_u64_param = parse_unsigned_param (2 ^ 64 - 1)"

text \<open>\<open>str::parse::<i32>\<close>: a sign, at least one digit, within the range.\<close>

definition parse_i32 :: "string \<Rightarrow> int option" where
  "parse_i32 s =
    (case s of
       c # r \<Rightarrow>
         (if c = CHR ''-'' then
            (if r \<noteq> [] \<and> list_all (is_digit_char 10) r \<and> digits_value 10 r \<le> 2 ^ 31
             then Some (- int (digits_value 10 r)) else None)
          else map_option int (parse_unsigned (2 ^ 31 - 1) s))
     | [] \<Rightarrow> None)"

definition parse_i32_param :: "kernel_node \<Rightarrow> string list \<Rightarrow> int \<Rightarrow> (vless_error, int) res" where
  "parse_i32_param n keys dflt =
    (case first_parameter n keys of
       None \<Rightarrow> Ok dflt
     | Some v \<Rightarrow> from_option (InvalidNumber v) (parse_i32 v))"

definition transport_kind_of :: "string \<Rightarrow> (vless_error, transport_kind) res" where
  "transport_kind_of v =
    (if v \<in> {''tcp'', ''raw''} then Ok KTcp
     else if v \<in> {''ws'', ''websocket''} then Ok KWebSocket
     else if v \<in> {''grpc'', ''gun'', ''multi''} then Ok KGrpc
     else if v \<in> {''h2'', ''http''} then Ok KH2
     else if v \<in> {''httpupgrade'', ''http-upgrade'', ''http_upgrade''} then Ok KHttpUpgrade
     else if v \<in> {''xhttp'', ''splithttp'', ''split-http'', ''split_http''} then Ok KXHttp
     else Err (UnsupportedTransport v))"

definition xhttp_mode_of :: "string \<Rightarrow> (vless_error, xhttp_mode) res" where
  "xhttp_mode_of v =
    (if v \<in> {''auto'', []} then Ok XAuto
     else if v \<in> {''stream-one'', ''stream_one''} then Ok StreamOne
     else if v \<in> {''stream-up'', ''stream_up''} then Ok StreamUp
     else if v \<in> {''packet-up'', ''packet_up''} then Ok PacketUp
     else Err (UnsupportedXHttpMode v))"

definition xhttp_version_of :: "string \<Rightarrow> (vless_error, xhttp_version) res" where
  "xhttp_version_of v =
    (if v \<in> {''auto'', []} then Ok VAuto
     else if v \<in> {''1'', ''1.1'', ''h1'', ''http/1.1''} then Ok H1
     else if v \<in> {''2'', ''h2'', ''http/2''} then Ok H2
     else if v \<in> {''3'', ''h3'', ''http/3''} then Ok H3
     else Err (UnsupportedHttpVersion v))"

definition transport_from_node :: "kernel_node \<Rightarrow> (vless_error, vless_transport) res" where
  "transport_from_node n =
    rbind (transport_kind_of (to_ascii_lowercase
        (or_default ''tcp'' (first_parameter n [''type'', ''network''])))) (\<lambda>kind.
    rbind (xhttp_mode_of (or_default ''auto'' (parameter n ''mode''))) (\<lambda>mode.
    rbind (xhttp_version_of (to_ascii_lowercase
        (or_default ''auto'' (first_parameter n [''httpVersion'', ''http_version'', ''alpn''])))) (\<lambda>version.
    rbind (parse_usize_param n
        [''scMaxEachPostBytes'', ''sc_max_each_post_bytes'', ''xhttp-post-bytes''] (256 * 1024)) (\<lambda>post.
    rbind (parse_u64_param n [''scMinPostsIntervalMs'', ''sc_min_posts_interval_ms''] 0) (\<lambda>interval.
    rbind (parse_i32_param n [''xmuxMaxConcurrency''] 0) (\<lambda>concurrency.
    rbind (parse_i32_param n [''xmuxMaxConnections''] 0) (\<lambda>connections.
    rbind (parse_i32_param n [''xmuxCMaxReuseTimes''] 0) (\<lambda>reuse.
    rbind (parse_i32_param n [''xmuxHMaxRequestTimes''] 0) (\<lambda>requests.
    rbind (parse_u64_param n [''xmuxHMaxReusableSecs''] 0) (\<lambda>reusable.
      Ok \<lparr>transport_kind = kind,
          t_host = first_parameter n [''host'', ''ws-host'', ''authority''],
          t_path = or_default ''/'' (first_parameter n [''path'', ''ws-path'', ''h2-path'', ''xhttp-path'']),
          t_service_name = or_default ''Tun''
            (first_parameter n [''serviceName'', ''service_name'', ''grpc-service-name'']),
          t_authority = parameter n ''authority'',
          t_mode = mode, t_http_version = version,
          sc_max_each_post_bytes = post, sc_min_posts_interval_ms = interval,
          t_xmux = \<lparr>max_concurrency = concurrency, max_connections = connections,
            c_max_reuse_times = reuse, h_max_request_times = requests,
            h_max_reusable_secs = reusable\<rparr>\<rparr>))))))))))"

definition security_from_node :: "kernel_node \<Rightarrow> (vless_error, vless_security) res" where
  "security_from_node n =
    (let v = or_default ''none'' (parameter n ''security'')
     in if v = ''none'' then Ok SecNone
        else if v = ''tls'' then Ok SecTls
        else if v = ''reality'' then
          rbind (from_option (MissingRealityParameter ''sni'') (parameter n ''sni'')) (\<lambda>_.
          rbind (from_option (MissingRealityParameter ''pbk'') (parameter n ''pbk'')) (\<lambda>pbk.
          rbind (from_option (MissingRealityParameter ''sid'') (parameter n ''sid'')) (\<lambda>sid.
            Ok (SecReality pbk sid (parameter n ''fp'')))))
        else Err (UnsupportedSecurity v))"

definition vless_from_node :: "kernel_node \<Rightarrow> (vless_error, vless_config) res" where
  "vless_from_node n =
    rbind (parse_uuid (user_id n)) (\<lambda>uuid.
    rbind (security_from_node n) (\<lambda>security.
    rbind (transport_from_node n) (\<lambda>transport.
      Ok \<lparr>v_server = server n, v_server_port = server_port n, v_uuid = uuid,
          v_sni = parameter n ''sni'', v_flow = parameter n ''flow'', v_security = security,
          v_transport = transport,
          v_insecure = (case parameter n ''insecure'' of
              Some v \<Rightarrow> v \<in> {''1'', ''true'', ''yes''} | None \<Rightarrow> False)\<rparr>)))"

section \<open>Authorities and paths\<close>

definition transport_host :: "vless_config \<Rightarrow> string option" where
  "transport_host c =
    (case t_host (v_transport c) of Some h \<Rightarrow> Some h
     | None \<Rightarrow> (case t_authority (v_transport c) of Some h \<Rightarrow> Some h | None \<Rightarrow> v_sni c))"

definition transport_authority :: "vless_config \<Rightarrow> bool \<Rightarrow> string" where
  "transport_authority c always_port =
    (let h = or_default (v_server c) (transport_host c);
         default_port = (if v_security c = SecNone then 80 else 443)
     in if always_port \<or> v_server_port c \<noteq> default_port
        then h @ '':'' @ show_nat (unat (v_server_port c)) else h)"

definition normalized_path :: "string \<Rightarrow> string" where
  "normalized_path path =
    (if path = [] then ''/'' else if starts_with path ''/'' then path else ''/'' @ path)"

definition h2_path :: "vless_config \<Rightarrow> string" where
  "h2_path c = normalized_path (t_path (v_transport c))"

definition xhttp_path :: "vless_config \<Rightarrow> string" where
  "xhttp_path c =
    (let path = normalized_path (t_path (v_transport c))
     in if ends_with path ''/'' then path else path @ ''/'')"

definition xhttp_path_with_query_raw :: "string \<Rightarrow> string \<Rightarrow> u64 option \<Rightarrow> string" where
  "xhttp_path_with_query_raw base session sq =
    (let join = (if CHR ''?'' \<in> set base then ''&'' else ''?'')
     in case sq of
          Some i \<Rightarrow> base @ join @ ''session='' @ session @ ''&seq='' @ show_nat (unat i)
        | None \<Rightarrow> base @ join @ ''session='' @ session)"

text \<open>The session id of an upload: sixteen random bytes in hexadecimal.\<close>

definition hex_text :: "bytes \<Rightarrow> string" where
  "hex_text bs = concat (map (\<lambda>b. [digit_char (unat b div 16), digit_char (unat b mod 16)]) bs)"

text \<open>\<open>rsplitn(2, '/')\<close>: the part behind the last slash, and the part before it.\<close>

definition grpc_path :: "string \<Rightarrow> string" where
  "grpc_path service_name =
    (if starts_with service_name ''/'' then
       (let (before, method) = (case rsplit_once (CHR ''/'') service_name of
              Some (a, b) \<Rightarrow> (a, b) | None \<Rightarrow> ([], service_name));
            service = str_trim_start_matches (CHR ''/'') before
        in if service = [] then ''/'' @ method else ''/'' @ service @ ''/'' @ method)
     else ''/'' @ service_name @ ''/Tun'')"

section \<open>The transport of a connection\<close>

definition resolved_xhttp_mode :: "vless_config \<Rightarrow> xhttp_mode" where
  "resolved_xhttp_mode c =
    (case t_mode (v_transport c) of
       XAuto \<Rightarrow> (case v_security c of SecReality _ _ _ \<Rightarrow> StreamOne | _ \<Rightarrow> PacketUp)
     | m \<Rightarrow> m)"

datatype transport_plan =
    PlanH3XHttp
  | PlanPooledPacketUp
  | PlanRaw
  | PlanWebSocket string
  | PlanHttpUpgrade string
  | PlanH2 string bool
  | PlanHttp1Stream string
  | PlanPacketUp

text \<open>
  \<open>open_vless_transport_stream\<close> and \<open>connect_xhttp_transport\<close>: which transport a connection gets.
  \<open>PlanH2 path True\<close> wraps the payload in gRPC messages.
\<close>

definition xhttp_plan :: "vless_config \<Rightarrow> transport_plan" where
  "xhttp_plan c =
    (if v_security c = SecNone then PlanHttp1Stream (xhttp_path c)
     else (case resolved_xhttp_mode c of
         PacketUp \<Rightarrow> PlanPacketUp
       | _ \<Rightarrow> PlanH2 (xhttp_path c) False))"

definition ws_uri :: "vless_config \<Rightarrow> string" where
  "ws_uri c =
    (if v_security c = SecNone then ''ws'' else ''wss'') @ ''://'' @ transport_authority c False
    @ normalized_path (t_path (v_transport c))"

definition http_upgrade_request :: "vless_config \<Rightarrow> string" where
  "http_upgrade_request c =
    (let crlf = [CHR 0x0D, CHR 0x0A];
         h = or_default (transport_authority c False) (transport_host c)
     in ''GET '' @ normalized_path (t_path (v_transport c)) @ '' HTTP/1.1'' @ crlf
        @ ''Host: '' @ h @ crlf @ ''Connection: Upgrade'' @ crlf @ ''Upgrade: websocket'' @ crlf
        @ ''User-Agent: Mozilla/5.0'' @ crlf @ crlf)"

definition transport_plan_of :: "vless_config \<Rightarrow> transport_plan" where
  "transport_plan_of c =
    (let t = v_transport c
     in if transport_kind t = KXHttp \<and> t_http_version t = H3 then PlanH3XHttp
        else if transport_kind t = KXHttp \<and> v_security c \<noteq> SecNone
                \<and> resolved_xhttp_mode c = PacketUp then PlanPooledPacketUp
        else (case transport_kind t of
            KTcp \<Rightarrow> PlanRaw
          | KWebSocket \<Rightarrow> PlanWebSocket (ws_uri c)
          | KHttpUpgrade \<Rightarrow> PlanHttpUpgrade (http_upgrade_request c)
          | KH2 \<Rightarrow> PlanH2 (h2_path c) False
          | KGrpc \<Rightarrow> PlanH2 (grpc_path (t_service_name t)) True
          | KXHttp \<Rightarrow> xhttp_plan c))"

text \<open>The protocols offered in the TLS handshake, and the server name it carries.\<close>

definition tls_alpns :: "transport_kind \<Rightarrow> string list" where
  "tls_alpns k =
    (case k of
       KH2 \<Rightarrow> [''h2'', ''http/1.1''] | KGrpc \<Rightarrow> [''h2'', ''http/1.1''] | KXHttp \<Rightarrow> [''h2'', ''http/1.1'']
     | KWebSocket \<Rightarrow> [''http/1.1''] | KHttpUpgrade \<Rightarrow> [''http/1.1'']
     | KTcp \<Rightarrow> [])"

definition security_sni :: "vless_config \<Rightarrow> string" where
  "security_sni c = or_default (v_server c) (v_sni c)"

section \<open>The table of mux workers\<close>

text \<open>
  The key is a text made of these parts. A worker is dead when the last strong reference to it is
  gone (the table holds weak ones).
\<close>

type_synonym mux_key = "string \<times> u16 \<times> string \<times> vless_security \<times> vless_transport \<times> string"

definition mux_key_of :: "vless_config \<Rightarrow> mux_key" where
  "mux_key_of c = (v_server c, v_server_port c, or_default [] (v_sni c), v_security c,
     v_transport c, or_default [] (v_flow c))"

record mux_entry =
  worker_id :: nat
  worker_config :: vless_config
  worker_alive :: bool
  worker_closed :: bool

type_synonym mux_table = "(mux_key \<times> mux_entry) list"

text \<open>\<open>opened\<close> is the outcome of opening the stream and the new worker's id.\<close>

definition mux_worker_for :: "(vless_error, nat) res \<Rightarrow> vless_config \<Rightarrow> mux_table
    \<Rightarrow> (vless_error, mux_entry) res \<times> mux_table" where
  "mux_worker_for opened c table =
    (let key = mux_key_of c;
         reuse = (case map_of table key of
             Some e \<Rightarrow> (if worker_alive e \<and> \<not> worker_closed e then Some e else None)
           | None \<Rightarrow> None);
         dropped = (case map_of table key of
             Some e \<Rightarrow> (if worker_alive e \<and> worker_closed e
                then filter (\<lambda>x. fst x \<noteq> key) table else table)
           | None \<Rightarrow> table)
     in case reuse of
          Some e \<Rightarrow> (Ok e, table)
        | None \<Rightarrow>
            (let kept = filter (\<lambda>x. worker_alive (snd x)) dropped
             in (let r = rbind opened (\<lambda>i. Ok \<lparr>worker_id = i, worker_config = c, worker_alive = True,
                    worker_closed = False\<rparr>)
                in (r, case r of Inr e \<Rightarrow> (key, e) # filter (\<lambda>x. fst x \<noteq> key) kept | Inl _ \<Rightarrow> kept))))"

section \<open>Lemmas\<close>

lemma hex_text_simps [simp]:
  "hex_text [] = []"
  "hex_text (b # bs) = digit_char (unat b div 16) # digit_char (unat b mod 16) # hex_text bs"
  by (simp_all add: hex_text_def)

lemma length_hex_text [simp]: "length (hex_text bs) = 2 * length bs"
  by (induction bs) simp_all

lemma nibble_bound: "unat (b :: byte) div 16 < 16"
  using unat_byte_bound [of b] by linarith

lemma hex_text_is_hex: "list_all is_hex (hex_text bs)"
  by (induction bs) (simp_all add: is_hex_def nibble_bound)

lemma digits_value_two:
  "a < 16 \<Longrightarrow> b < 16 \<Longrightarrow> digits_value 16 [digit_char a, digit_char b] = 16 * a + b"
  by (simp add: digits_value_def undigits_def)

lemma hex_bytes_hex_text [simp]: "hex_bytes (hex_text bs) = bs"
  by (induction bs) (simp_all add: hex_byte_def digits_value_two nibble_bound)

lemma length_hex_bytes: "length (hex_bytes s) = length s div 2"
  by (induction s rule: hex_bytes.induct) simp_all

lemma parse_uuid_length: "parse_uuid v = Ok bs \<Longrightarrow> length bs = 16"
  by (auto simp: parse_uuid_def Let_def length_hex_bytes split: if_splits)

definition i32_ok :: "int \<Rightarrow> bool" where
  "i32_ok x \<longleftrightarrow> - (2 ^ 31) \<le> x \<and> x < 2 ^ 31"

lemma parse_i32_ok: "parse_i32 s = Some x \<Longrightarrow> i32_ok x"
  by (auto simp: parse_i32_def i32_ok_def split: list.splits if_splits dest!: parse_unsigned_bound)

lemma parse_i32_param_ok: "parse_i32_param n keys 0 = Ok x \<Longrightarrow> i32_ok x"
  by (auto simp: parse_i32_param_def from_option_def i32_ok_def dest: parse_i32_ok [unfolded i32_ok_def]
      split: option.splits)

lemma parse_unsigned_param_ok:
  "parse_unsigned_param m n keys d = Ok x \<Longrightarrow> d \<le> m \<Longrightarrow> x \<le> m"
  by (auto simp: parse_unsigned_param_def from_option_def dest: parse_unsigned_bound split: option.splits)

definition transport_ok :: "vless_transport \<Rightarrow> bool" where
  "transport_ok t \<longleftrightarrow> sc_max_each_post_bytes t < 2 ^ 64 \<and> sc_min_posts_interval_ms t < 2 ^ 64
     \<and> i32_ok (max_concurrency (t_xmux t)) \<and> i32_ok (max_connections (t_xmux t))
     \<and> i32_ok (c_max_reuse_times (t_xmux t)) \<and> i32_ok (h_max_request_times (t_xmux t))
     \<and> h_max_reusable_secs (t_xmux t) < 2 ^ 64"

lemma transport_from_node_ok: "transport_from_node n = Ok t \<Longrightarrow> transport_ok t"
  unfolding transport_from_node_def parse_usize_param_def parse_u64_param_def
  by (auto simp: rbind_Inr_iff transport_ok_def parse_i32_param_ok
      dest!: parse_unsigned_param_ok)

lemma normalized_path_slash: "starts_with (normalized_path p) ''/''"
  by (simp add: normalized_path_def starts_with_def)

lemma ends_with_snoc [simp]: "ends_with (xs @ [c]) [c]"
  by (simp add: ends_with_def)

definition mux_table_ok :: "mux_table \<Rightarrow> bool" where
  "mux_table_ok table \<longleftrightarrow> (\<forall>(key, e) \<in> set table. mux_key_of (worker_config e) = key)"

lemma mux_worker_for_cases:
  assumes "mux_worker_for opened c table = (r, table')"
  obtains (reused) e where "map_of table (mux_key_of c) = Some e" "worker_alive e" "\<not> worker_closed e"
      "r = Ok e" "table' = table"
  | (created) i where "opened = Ok i"
      "r = Ok \<lparr>worker_id = i, worker_config = c, worker_alive = True, worker_closed = False\<rparr>"
      "set table' \<subseteq> insert (mux_key_of c,
         \<lparr>worker_id = i, worker_config = c, worker_alive = True, worker_closed = False\<rparr>) (set table)"
  | (failed) f where "opened = Inl f" "r = Inl f" "set table' \<subseteq> set table"
proof (cases "\<exists>e. map_of table (mux_key_of c) = Some e \<and> worker_alive e \<and> \<not> worker_closed e")
  case True
  then obtain e where e: "map_of table (mux_key_of c) = Some e" "worker_alive e" "\<not> worker_closed e"
    by blast
  then have "r = Ok e" "table' = table" using assms by (simp_all add: mux_worker_for_def)
  with e show ?thesis by (rule reused)
next
  case no: False
  define dropped where "dropped = (case map_of table (mux_key_of c) of
      Some e \<Rightarrow> (if worker_alive e \<and> worker_closed e
        then filter (\<lambda>x. fst x \<noteq> mux_key_of c) table else table)
    | None \<Rightarrow> table)"
  have sub: "set (filter P dropped) \<subseteq> set table" for P
    by (auto simp: dropped_def split: option.splits)
  have "mux_worker_for opened c table =
    (let kept = filter (\<lambda>x. worker_alive (snd x)) dropped;
         r = rbind opened (\<lambda>i. Ok \<lparr>worker_id = i, worker_config = c, worker_alive = True,
               worker_closed = False\<rparr>)
     in (r, case r of Inr e \<Rightarrow> (mux_key_of c, e) # filter (\<lambda>x. fst x \<noteq> mux_key_of c) kept
              | Inl _ \<Rightarrow> kept))"
    using no by (cases "map_of table (mux_key_of c)") (auto simp: mux_worker_for_def dropped_def Let_def)
  then have "r = rbind opened (\<lambda>i. Ok \<lparr>worker_id = i, worker_config = c, worker_alive = True,
        worker_closed = False\<rparr>)"
    and "table' = (case r of Inr e \<Rightarrow> (mux_key_of c, e)
        # filter (\<lambda>x. fst x \<noteq> mux_key_of c) (filter (\<lambda>x. worker_alive (snd x)) dropped)
      | Inl _ \<Rightarrow> filter (\<lambda>x. worker_alive (snd x)) dropped)"
    using assms by (auto simp: Let_def)
  then show ?thesis
  proof (cases opened)
    case (Inl f)
    then have "r = Inl f" "table' = filter (\<lambda>x. worker_alive (snd x)) dropped"
      using \<open>r = _\<close> \<open>table' = _\<close> by simp_all
    then show ?thesis using failed [OF Inl] sub by blast
  next
    case (Inr i)
    let ?e = "\<lparr>worker_id = i, worker_config = c, worker_alive = True, worker_closed = False\<rparr>"
    have "r = Ok ?e" "table' = (mux_key_of c, ?e)
        # filter (\<lambda>x. fst x \<noteq> mux_key_of c \<and> worker_alive (snd x)) dropped"
      using \<open>r = _\<close> \<open>table' = _\<close> Inr by (simp_all add: conj_commute)
    moreover from this have "set table' \<subseteq> insert (mux_key_of c, ?e) (set table)"
      using sub by (simp only: list.set(2)) blast
    ultimately show ?thesis using created [OF Inr] by blast
  qed
qed

section \<open>Properties\<close>

text \<open>
  C39: a node that passes the VLESS checks has a configuration in range: sixteen bytes of UUID, the
  pool limits within \<open>i32\<close>, the post size and intervals within 64 bits, and the SNI that a Reality
  handshake needs.
\<close>

theorem vless_config_in_range:
  assumes "vless_from_node n = Ok c"
  shows "length (v_uuid c) = 16 \<and> transport_ok (v_transport c)
    \<and> (\<forall>k i f. v_security c = SecReality k i f \<longrightarrow> v_sni c \<noteq> None)"
proof -
  from assms obtain u sec t where u: "parse_uuid (user_id n) = Ok u"
    and sec: "security_from_node n = Ok sec" and t: "transport_from_node n = Ok t"
    and c: "v_uuid c = u" "v_security c = sec" "v_transport c = t" "v_sni c = parameter n ''sni''"
    by (auto simp: vless_from_node_def rbind_Inr_iff)
  have "sec = SecReality k i f \<Longrightarrow> parameter n ''sni'' \<noteq> None" for k i f
    using sec by (auto simp: security_from_node_def Let_def rbind_Inr_iff from_option_def
        split: if_splits option.splits)
  then show ?thesis using c parse_uuid_length [OF u] transport_from_node_ok [OF t] by auto
qed

definition example_vless_node :: kernel_node where
  "example_vless_node = \<lparr>node_id = None, node_protocol = ''vless'', server = ''h'', server_port = 443,
     user_id = ''00112233-4455-6677-8899-aabbccddeeff'',
     parameters = [''security'' \<mapsto> Some ''tls'', ''xmuxMaxConnections'' \<mapsto> Some ''-7'']\<rparr>"

theorem vless_config_in_range_witness:
  "\<exists>c. vless_from_node example_vless_node = Ok c \<and> length (v_uuid c) = 16
     \<and> max_connections (t_xmux (v_transport c)) = -7 \<and> transport_ok (v_transport c)"
proof -
  have "\<not> isl (vless_from_node example_vless_node)
      \<and> max_connections (t_xmux (v_transport (projr (vless_from_node example_vless_node)))) = -7"
    by code_simp
  then obtain c where c: "vless_from_node example_vless_node = Ok c"
      "max_connections (t_xmux (v_transport c)) = -7"
    by (cases "vless_from_node example_vless_node") auto
  with vless_config_in_range [OF c(1)] show ?thesis by blast
qed

text \<open>
  A mux worker is shared only between nodes with the same endpoint. With a table the function
  itself filled, the worker it hands out is alive and open, and the node it was opened for has the
  same server, port, SNI, security, transport and flow; the table keeps the property, and a failed
  connection leaves no entry behind.
\<close>

theorem mux_worker_same_endpoint:
  assumes "mux_table_ok table" "mux_worker_for opened c table = (r, table')"
  shows "mux_table_ok table' \<and>
    (case r of
       Inr e \<Rightarrow> worker_alive e \<and> \<not> worker_closed e \<and> mux_key_of (worker_config e) = mux_key_of c
     | Inl _ \<Rightarrow> set table' \<subseteq> set table)"
  using assms(2)
proof (cases rule: mux_worker_for_cases)
  case (reused e)
  then show ?thesis using assms(1) by (auto simp: mux_table_ok_def dest!: map_of_SomeD)
next
  case (created i)
  then show ?thesis using assms(1) by (auto simp: mux_table_ok_def)
next
  case (failed f)
  then show ?thesis using assms(1) by (auto simp: mux_table_ok_def)
qed

definition example_vless_config :: vless_config where
  "example_vless_config = \<lparr>v_server = ''h'', v_server_port = 443, v_uuid = replicate 16 1, v_sni = None,
     v_flow = None, v_security = SecTls, v_transport = \<lparr>transport_kind = KTcp, t_host = None,
       t_path = ''/'', t_service_name = ''Tun'', t_authority = None, t_mode = XAuto,
       t_http_version = VAuto, sc_max_each_post_bytes = 1, sc_min_posts_interval_ms = 0,
       t_xmux = \<lparr>max_concurrency = 0, max_connections = 0, c_max_reuse_times = 0,
         h_max_request_times = 0, h_max_reusable_secs = 0\<rparr>\<rparr>, v_insecure = False\<rparr>"

theorem mux_worker_same_endpoint_witness:
  "mux_table_ok (snd (mux_worker_for (Ok 5) example_vless_config []))"
proof -
  obtain r table' where "mux_worker_for (Ok 5) example_vless_config [] = (r, table')"
    by (cases "mux_worker_for (Ok 5) example_vless_config []")
  moreover have "mux_table_ok []" by (simp add: mux_table_ok_def)
  ultimately show ?thesis using mux_worker_same_endpoint by simp
qed

text \<open>
  The key of the table leaves out who the user is. While a worker is open, a node that differs
  from the worker's only in its UUID (or in whether certificates are checked) is handed that very
  worker: its packets travel on a stream that was authenticated with the other node's UUID.
\<close>

theorem mux_worker_ignores_uuid:
  assumes "mux_worker_for (Ok i) c [] = (Ok e, table)"
  shows "mux_worker_for opened (c\<lparr>v_uuid := u, v_insecure := b\<rparr>) table = (Ok e, table)
    \<and> v_uuid (worker_config e) = v_uuid c"
proof -
  have e: "e = \<lparr>worker_id = i, worker_config = c, worker_alive = True, worker_closed = False\<rparr>"
    and t: "table = [(mux_key_of c, e)]"
    using assms by (auto simp: mux_worker_for_def Let_def)
  have "mux_key_of (c\<lparr>v_uuid := u, v_insecure := b\<rparr>) = mux_key_of c" by (simp add: mux_key_of_def)
  then show ?thesis by (simp add: e t mux_worker_for_def)
qed

theorem mux_worker_ignores_uuid_witness:
  "\<exists>e table. mux_worker_for (Err StreamClosed) (example_vless_config\<lparr>v_uuid := replicate 16 9\<rparr>) table
      = (Ok e, table) \<and> v_uuid (worker_config e) = replicate 16 1"
proof -
  obtain e table where "mux_worker_for (Ok 5) example_vless_config [] = (Ok e, table)"
    by (simp add: mux_worker_for_def Let_def)
  from mux_worker_ignores_uuid [OF this, of "Err StreamClosed" False "replicate 16 9"]
  show ?thesis by (auto simp: example_vless_config_def)
qed

text \<open>
  A UUID is read as its sixteen bytes, wherever the dashes are.
\<close>

theorem parse_uuid_hex:
  assumes "filter (\<lambda>c. c \<noteq> CHR ''-'') v = hex_text bs" "length bs = 16"
  shows "parse_uuid v = Ok bs"
  using assms by (simp add: parse_uuid_def hex_text_is_hex)

theorem parse_uuid_hex_witness:
  "parse_uuid ''00112233-4455-6677-8899-aabbccddeeff''
    = Ok [0x00, 0x11, 0x22, 0x33, 0x44, 0x55, 0x66, 0x77, 0x88, 0x99, 0xAA, 0xBB, 0xCC, 0xDD, 0xEE, 0xFF]"
  by (rule parse_uuid_hex) code_simp+

end
