(* ===== verification/Vless_Grpc.thy ===== *)
theory Vless_Grpc
  imports Prelude
begin

text \<open>
  The gRPC framing of the VLESS transport (\<open>neoncore-kernel/src/adapter/vless.rs\<close>,
  \<open>encode_grpc_hunk\<close> to \<open>read_protobuf_varint\<close>): a message is one protobuf field with the
  payload, behind a flag and a 32-bit length; the decoder keeps what is not complete yet.
\<close>

section \<open>Protobuf varints\<close>

function write_protobuf_varint :: "u64 \<Rightarrow> bytes" where
  "write_protobuf_varint v =
    (let b = ucast (v AND 0x7F) :: byte; v' = drop_bit 7 v
     in if v' \<noteq> 0 then (b OR 0x80) # write_protobuf_varint v' else [b])"
  by auto

lemma unat_drop_bit_7: "unat (drop_bit 7 (v :: u64)) = unat v div 128"
  by (simp add: drop_bit_eq_div unat_div)

termination write_protobuf_varint
proof (relation "measure unat")
  fix v v' :: u64 and b :: byte
  assume "v' = drop_bit 7 v" "v' \<noteq> 0"
  moreover from this have "unat v' \<noteq> 0" by (simp add: unat_eq_0)
  ultimately show "(v', v) \<in> measure unat" by (simp add: unat_drop_bit_7)
qed simp

declare write_protobuf_varint.simps [simp del]

fun read_varint_from :: "nat \<Rightarrow> u64 \<Rightarrow> bytes \<Rightarrow> (u64 \<times> nat) option" where
  "read_varint_from index v [] = None"
| "read_varint_from index v (b # r) =
    (let v' = v OR push_bit (7 * index) (ucast (b AND 0x7F))
     in if b AND 0x80 = 0 then Some (v', index + 1)
        else if 9 \<le> index then None else read_varint_from (index + 1) v' r)"

definition read_protobuf_varint :: "bytes \<Rightarrow> (u64 \<times> nat) option" where
  "read_protobuf_varint = read_varint_from 0 0"

section \<open>Messages\<close>

definition encode_grpc_hunk :: "bytes \<Rightarrow> bytes" where
  "encode_grpc_hunk payload =
    (let message = 0x0A # write_protobuf_varint (of_nat (length payload)) @ payload
     in 0 # to_be 4 (length message) @ message)"

definition decode_grpc_hunk_message :: "bytes \<Rightarrow> bytes option" where
  "decode_grpc_hunk_message message =
    (case message of
       [] \<Rightarrow> None
     | b # r \<Rightarrow>
         if b \<noteq> 0x0A then None
         else (case read_protobuf_varint r of
             None \<Rightarrow> None
           | Some (len, offset) \<Rightarrow>
               (let start = 1 + offset; stop = start + unat len
                in if 2 ^ 64 \<le> stop then None
                   else if stop \<le> length message then Some (take (stop - start) (drop start message))
                   else None)))"

text \<open>One turn of the decoder's loop, and the loop.\<close>

definition grpc_frame :: "bytes \<Rightarrow> (bytes list \<times> bytes) option" where
  "grpc_frame pending =
    (if length pending < 5 then None
     else (let len = be_nat (take 4 (drop 1 pending))
           in if pending ! 0 \<noteq> 0 \<or> length pending < 5 + len then None
              else Some (case decode_grpc_hunk_message (take len (drop 5 pending)) of
                     Some payload \<Rightarrow> [payload] | None \<Rightarrow> [],
                   drop (5 + len) pending)))"

lemma grpc_frame_shrinks: "grpc_frame p = Some (out, r) \<Longrightarrow> length r < length p"
  by (auto simp: grpc_frame_def Let_def split: if_splits)

function grpc_drain :: "bytes \<Rightarrow> bytes list \<times> bytes" where
  "grpc_drain p = (case grpc_frame p of
      None \<Rightarrow> ([], p)
    | Some (out, r) \<Rightarrow> (case grpc_drain r of (outs, p') \<Rightarrow> (out @ outs, p')))"
  by auto
termination by (relation "measure length") (auto dest: grpc_frame_shrinks)

declare grpc_drain.simps [simp del]

text \<open>\<open>GrpcHunkDecoder::push\<close>: the payloads that are complete now, and the new pending bytes.\<close>

definition grpc_push :: "bytes \<Rightarrow> bytes \<Rightarrow> bytes list \<times> bytes" where
  "grpc_push pending bs = grpc_drain (pending @ bs)"

section \<open>Round trip of varints\<close>

lemma mask7: "(0x7F :: byte) = mask 7" "(0x7F :: u64) = mask 7"
  by (simp_all add: mask_eq_exp_minus_1)

lemma varint_low:
  fixes v :: u64
  shows "ucast ((ucast (v AND 0x7F) :: byte) AND 0x7F) = take_bit 7 v"
  unfolding mask7 by (rule bit_word_eqI) (auto simp: bit_simps)

lemma varint_byte_low: "((b :: byte) OR 0x80) AND 0x7F = b AND 0x7F"
proof -
  have "(0x80 :: byte) AND mask 7 = 0" by code_simp
  then show ?thesis unfolding mask7 by (simp add: bit.conj_disj_distrib2)
qed

lemma varint_flag:
  "((ucast ((v :: u64) AND 0x7F) :: byte) AND 0x80) = 0" "((b :: byte) OR 0x80) AND 0x80 = 0x80"
proof -
  have low: "(take_bit 7 w :: byte) AND 0x80 = 0" for w
  proof (rule bit_word_eqI)
    fix n assume "n < LENGTH(8)"
    have "bit (0x80 :: byte) n \<Longrightarrow> n = 7"
      using bit_exp_iff [of 7 n, where 'a = byte] by simp
    then show "bit ((take_bit 7 w :: byte) AND 0x80) n = bit 0 n"
      by (cases "n = 7") (auto simp: bit_and_iff bit_take_bit_iff)
  qed
  have "(ucast (v AND mask 7) :: byte) = take_bit 7 (ucast v)"
    by (rule bit_word_eqI) (auto simp: bit_simps)
  then show "((ucast (v AND 0x7F) :: byte) AND 0x80) = 0"
    unfolding mask7 using low by simp
  show "((b :: byte) OR 0x80) AND 0x80 = 0x80"
    by (simp add: bit.conj_disj_distrib2)
qed

lemma varint_split: "take_bit 7 (v :: u64) OR push_bit 7 (drop_bit 7 v) = v"
proof (rule bit_word_eqI)
  fix n assume "n < LENGTH(64)"
  then show "bit (take_bit 7 v OR push_bit 7 (drop_bit 7 v)) n = bit v n"
    by (cases "n < 7") (simp_all add: bit_simps)
qed

lemma varint_room:
  assumes "unat (v :: u64) < 2 ^ (64 - 7 * i)" "i \<le> 8"
  shows "unat (drop_bit 7 v) < 2 ^ (64 - 7 * Suc i)"
proof -
  have "64 - 7 * i = 7 + (64 - 7 * Suc i)" using assms(2) by simp
  then have "(2 :: nat) ^ (64 - 7 * i) = 2 ^ 7 * 2 ^ (64 - 7 * Suc i)" by (simp only: power_add)
  then have "unat v < 2 ^ (64 - 7 * Suc i) * 128" using assms(1) by simp
  then show ?thesis unfolding unat_drop_bit_7 by (rule less_mult_imp_div_less)
qed

lemma read_varint_from_write:
  assumes "unat v < 2 ^ (64 - 7 * i)" "i \<le> 9"
  shows "read_varint_from i acc (write_protobuf_varint v @ rest)
    = Some (acc OR push_bit (7 * i) v, i + length (write_protobuf_varint v))"
  using assms
proof (induction v arbitrary: i acc rule: write_protobuf_varint.induct)
  case (1 v)
  let ?v' = "drop_bit 7 v"
  show ?case
  proof (cases "?v' = 0")
    case True
    then have "take_bit 7 v = v" using varint_split [of v] by simp
    then show ?thesis using True
      by (simp add: write_protobuf_varint.simps [of v] Let_def varint_flag varint_low)
  next
    case False
    then have pos: "unat v div 128 \<noteq> 0" using unat_drop_bit_7 [of v] unat_eq_zero [of "drop_bit 7 v"] by simp
    have i: "i \<le> 8"
    proof (rule ccontr)
      assume "\<not> i \<le> 8"
      then have "i = 9" using 1 by simp
      then show False using "1.prems"(1) pos by simp
    qed
    have "unat ?v' < 2 ^ (64 - 7 * Suc i)"
      using varint_room [OF "1.prems"(1) i] .
    then have "read_varint_from (Suc i) (acc OR push_bit (7 * i) (take_bit 7 v))
        (write_protobuf_varint ?v' @ rest)
      = Some ((acc OR push_bit (7 * i) (take_bit 7 v)) OR push_bit (7 * Suc i) ?v',
          Suc i + length (write_protobuf_varint ?v'))"
      using "1.IH" [OF refl refl False, of "Suc i"] i by simp
    moreover have "push_bit (7 * i) (take_bit 7 v) OR push_bit (7 * Suc i) ?v' = push_bit (7 * i) v"
    proof -
      have "push_bit (7 * Suc i) ?v' = push_bit (7 * i) (push_bit 7 ?v')" by (simp add: add.commute)
      then show ?thesis by (simp only: varint_split flip: push_bit_or)
    qed
    ultimately show ?thesis using False i
      by (simp add: write_protobuf_varint.simps [of v] Let_def varint_flag varint_low varint_byte_low
          or.assoc)
  qed
qed

lemma read_write_varint:
  "read_protobuf_varint (write_protobuf_varint v @ rest) = Some (v, length (write_protobuf_varint v))"
  using read_varint_from_write [of v 0 0 rest] unsigned_less [of v]
  by (simp add: read_protobuf_varint_def)

lemma length_write_varint: "1 \<le> length (write_protobuf_varint v) \<and> length (write_protobuf_varint v) \<le> 10"
proof -
  have "unat v < 2 ^ (64 - 7 * i) \<Longrightarrow> i \<le> 9 \<Longrightarrow> length (write_protobuf_varint v) \<le> 10 - i" for i
  proof (induction v arbitrary: i rule: write_protobuf_varint.induct)
    case (1 v)
    show ?case
    proof (cases "drop_bit 7 v = 0")
      case True
      then show ?thesis using "1.prems" by (simp add: write_protobuf_varint.simps [of v] Let_def)
    next
      case False
      then have pos: "unat v div 128 \<noteq> 0" using unat_drop_bit_7 [of v] unat_eq_zero [of "drop_bit 7 v"] by simp
      have i: "i \<le> 8"
      proof (rule ccontr)
        assume "\<not> i \<le> 8"
        then have "i = 9" using 1 by simp
        then show False using "1.prems"(1) pos by simp
      qed
      show ?thesis using "1.IH" [OF refl refl False, of "Suc i"] varint_room [OF "1.prems"(1) i] i False
        by (simp add: write_protobuf_varint.simps [of v] Let_def)
    qed
  qed
  from this [of 0] have "length (write_protobuf_varint v) \<le> 10"
    using unsigned_less [of v, where 'a = nat] by simp
  moreover have "1 \<le> length (write_protobuf_varint v)"
    by (simp add: write_protobuf_varint.simps [of v] Let_def)
  ultimately show ?thesis by blast
qed

section \<open>Frames\<close>

lemma decode_grpc_hunk:
  assumes "length payload < 2 ^ 32"
  shows "decode_grpc_hunk_message (0x0A # write_protobuf_varint (of_nat (length payload)) @ payload)
    = Some payload"
proof -
  let ?v = "of_nat (length payload) :: u64"
  have len: "unat ?v = length payload" using assms by (simp add: unat_of_nat)
  have "length (write_protobuf_varint ?v) \<le> 10" using length_write_varint by blast
  then have "1 + length (write_protobuf_varint ?v) + length payload < 2 ^ 64" using assms by simp
  then show ?thesis
    using len by (simp add: decode_grpc_hunk_message_def read_write_varint Let_def)
qed

lemma grpc_frame_message:
  assumes "length m < 2 ^ 32"
  shows "grpc_frame ((0 # to_be 4 (length m)) @ m @ r)
    = Some (case decode_grpc_hunk_message m of Some x \<Rightarrow> [x] | None \<Rightarrow> [], r)"
proof -
  let ?h = "0 # to_be 4 (length m) :: bytes"
  have h: "length ?h = 5" by simp
  have "be_nat (take 4 (drop 1 (?h @ m @ r))) = length m"
    using assms be_nat_to_be_small [of "length m" 4] by simp
  moreover have "take (length m) (drop 5 (?h @ m @ r)) = m" by (simp only: append_eq_conv_conj drop_append h) simp
  moreover have "drop (5 + length m) ((?h @ m) @ r) = r"
    by (subst drop_append) (simp del: append_Cons)
  ultimately show ?thesis
    unfolding grpc_frame_def Let_def by (simp del: drop_append take_append)
qed

lemma grpc_frame_encoded:
  assumes "length payload < 2 ^ 32 - 11"
  shows "grpc_frame (encode_grpc_hunk payload @ r) = Some ([payload], r)"
proof -
  let ?m = "0x0A # write_protobuf_varint (of_nat (length payload)) @ payload"
  have "length (write_protobuf_varint (of_nat (length payload))) \<le> 10"
    using length_write_varint by blast
  then have "length ?m < 2 ^ 32" using assms by simp
  from grpc_frame_message [OF this, of r] decode_grpc_hunk [of payload] assms
  show ?thesis by (simp add: encode_grpc_hunk_def Let_def)
qed

lemma grpc_frame_local:
  assumes "grpc_frame p = Some (out, r)"
  shows "grpc_frame (p @ d) = Some (out, r @ d)"
proof -
  let ?len = "be_nat (take 4 (drop 1 p))"
  have l: "5 \<le> length p" "p ! 0 = 0" "5 + ?len \<le> length p"
    using assms by (auto simp: grpc_frame_def Let_def split: if_splits)
  have "take 4 (drop 1 (p @ d)) = take 4 (drop 1 p)" using l(1) by simp
  moreover have "take ?len (drop 5 (p @ d)) = take ?len (drop 5 p)" using l(1,3) by simp
  moreover have "(p @ d) ! 0 = p ! 0" using l(1) by (cases p) simp_all
  ultimately show ?thesis using assms l by (auto simp: grpc_frame_def Let_def)
qed

interpretation grpc: frame_decoder grpc_frame grpc_drain
proof unfold_locales
  show "grpc_frame b = Some (out, r) \<Longrightarrow> length r < length b" for b out r
    by (rule grpc_frame_shrinks)
  show "grpc_frame b = Some (out, r) \<Longrightarrow> grpc_frame (b @ d) = Some (out, r @ d)" for b out r d
    by (rule grpc_frame_local)
  show "grpc_drain b = (case grpc_frame b of None \<Rightarrow> ([], b)
      | Some (out, r) \<Rightarrow> (case grpc_drain r of (outs, p) \<Rightarrow> (out @ outs, p)))" for b
    by (rule grpc_drain.simps)
qed

section \<open>Properties\<close>

text \<open>
  The gRPC decoder returns what was encoded, however the stream was cut. For payloads below
  the 32-bit limit of the frame, pushing the encoded frames in any sequence of reads yields
  exactly the payloads in order and leaves nothing behind.
\<close>

theorem grpc_chunks_roundtrip:
  assumes "\<forall>p \<in> set payloads. length p < 2 ^ 32 - 11"
    and "concat reads = concat (map encode_grpc_hunk payloads)"
  shows "feed_all grpc_drain [] reads = (payloads, [])"
proof -
  let ?fs = "map (\<lambda>p. (encode_grpc_hunk p, [p])) payloads"
  have "feed_all grpc_drain [] reads = (concat (map snd ?fs), [])"
  proof (rule grpc.feed_frames)
    show "\<forall>(f, out) \<in> set ?fs. \<forall>r. grpc_frame (f @ r) = Some (out, r)"
      using assms(1) grpc_frame_encoded by auto
    show "grpc_frame [] = None" by (simp add: grpc_frame_def)
    show "concat reads = concat (map fst ?fs)" using assms(2) by (simp add: comp_def)
  qed
  then show ?thesis by (simp add: comp_def)
qed

theorem grpc_chunks_roundtrip_witness:
  "feed_all grpc_drain [] [[0, 0, 0, 0, 5, 10], [3, 1, 2], [3, 0, 0, 0, 0, 2, 10, 0]] = ([[1, 2, 3], []], [])"
proof (rule grpc_chunks_roundtrip)
  show "\<forall>p \<in> set [[1, 2, 3 :: byte], []]. length p < 2 ^ 32 - 11" by simp
  show "concat [[0, 0, 0, 0, 5, 10], [3, 1, 2], [3, 0, 0, 0, 0, 2, 10, 0]]
      = concat (map encode_grpc_hunk [[1, 2, 3], []])" by code_simp
qed

text \<open>
  A protobuf varint reads back, with its length, in front of any bytes; it has one to ten
  bytes.
\<close>

theorem varint_roundtrip:
  "read_protobuf_varint (write_protobuf_varint v @ rest) = Some (v, length (write_protobuf_varint v))
   \<and> 1 \<le> length (write_protobuf_varint v) \<and> length (write_protobuf_varint v) \<le> 10"
  using read_write_varint length_write_varint by blast

end
