(* ===== verification/Vless_Codec.thy ===== *)
theory Vless_Codec
  imports Vless_Config Vless_Grpc
begin

text \<open>
  The VLESS messages of \<open>neoncore-kernel/src/adapter/vless.rs\<close>: the request header, addresses, the
  response header, and the XUDP frames that carry UDP over a mux stream.
\<close>

section \<open>Addresses\<close>

definition encode_address :: "string \<Rightarrow> (vless_error, bytes) res" where
  "encode_address h =
    (case parse_ipv4 h of
       Some a \<Rightarrow> Ok (1 # ipv4_octets a)
     | None \<Rightarrow> (case parse_ipv6 h of
         Some a \<Rightarrow> Ok (3 # ipv6_octets a)
       | None \<Rightarrow> (if 255 < length h then Err DomainTooLong
                  else Ok ([2, of_nat (length h)] @ as_bytes h))))"

definition decode_address :: "bytes \<Rightarrow> (vless_error, string \<times> nat) res" where
  "decode_address bs =
    (if bs = [] then Err AddressEmpty
     else (let atyp = bs ! 0
       in if atyp = 1 then
            (if length bs < 5 then Err AddressTruncated
             else rbind (slice_of bs 1 5) (\<lambda>b. Ok (show_ipv4 (ipv4_of_octets b), 5)))
          else if atyp = 2 then
            (if length bs < 2 then Err AddressTruncated
             else rbind (idx bs 1) (\<lambda>n. let len = unat n
               in if length bs < 2 + len then Err AddressTruncated
                  else rbind (slice_of bs 2 (2 + len)) (\<lambda>b.
                    rbind (from_option AddressNotUtf8 (from_utf8 b)) (\<lambda>h. Ok (h, 2 + len)))))
          else if atyp = 3 then
            (if length bs < 17 then Err AddressTruncated
             else rbind (slice_of bs 1 17) (\<lambda>b. Ok (show_ipv6 (ipv6_of_octets b), 17)))
          else Err (InvalidAddressType atyp)))"

definition encode_port_then_address :: "target_address \<Rightarrow> (vless_error, bytes) res" where
  "encode_port_then_address t =
    rbind (encode_address (host t)) (\<lambda>a. Ok (u16_to_be (target_port t) @ a))"

definition decode_port_then_address :: "bytes \<Rightarrow> (vless_error, target_address \<times> nat) res" where
  "decode_port_then_address bs =
    (if length bs < 3 then Err XudpTargetTruncated
     else rbind (idx bs 0) (\<lambda>a. rbind (idx bs 1) (\<lambda>b.
       rbind (slice_of bs 2 (length bs)) (\<lambda>r.
       rbind (decode_address r) (\<lambda>(h, n).
         Ok (\<lparr>host = h, target_port = u16_from_be a b\<rparr>, n + 2))))))"

section \<open>The request and the response header\<close>

datatype vless_command = CmdTcp | CmdUdp | CmdMux

fun command_code :: "vless_command \<Rightarrow> byte" where
  "command_code CmdTcp = 1"
| "command_code CmdUdp = 2"
| "command_code CmdMux = 3"

definition build_addon :: "string option \<Rightarrow> bytes" where
  "build_addon flow =
    (case flow of
       None \<Rightarrow> []
     | Some f \<Rightarrow> (if f = [] then []
         else 0x0A # write_protobuf_varint (of_nat (length f)) @ as_bytes f))"

definition build_request :: "string \<Rightarrow> string option \<Rightarrow> vless_command \<Rightarrow> target_address
    \<Rightarrow> (vless_error, bytes) res" where
  "build_request uuid flow cmd t =
    rbind (parse_uuid uuid) (\<lambda>u.
    let addon = build_addon flow
    in if 255 < length addon then Err AddonTooLarge
       else rbind (if cmd = CmdMux then Ok [] else encode_port_then_address t) (\<lambda>a.
         Ok ([0] @ u @ [of_nat (length addon)] @ addon @ [command_code cmd] @ a)))"

definition build_tcp_request :: "string \<Rightarrow> string option \<Rightarrow> target_address \<Rightarrow> (vless_error, bytes) res" where
  "build_tcp_request uuid flow t = build_request uuid flow CmdTcp t"

definition is_vision_flow :: "string option \<Rightarrow> bool" where
  "is_vision_flow flow \<longleftrightarrow> flow \<in> {Some ''xtls-rprx-vision'', Some ''xtls-rprx-vision-udp443''}"

definition vision_uuid :: "vless_config \<Rightarrow> bytes option" where
  "vision_uuid c = (if is_vision_flow (v_flow c) then Some (v_uuid c) else None)"

definition read_vless_response_header :: "bytes \<Rightarrow> (vless_error, bytes) res" where
  "read_vless_response_header s =
    rbind (read_exact StreamClosed 2 s) (\<lambda>(header, s).
      if header ! 0 \<noteq> 0 then Err (ResponseVersion (header ! 0))
      else if 0 < unat (header ! 1)
        then rbind (read_exact StreamClosed (unat (header ! 1)) s) (\<lambda>(addon, s). Ok s)
      else Ok s)"

text \<open>The datagrams of a plain VLESS UDP stream: a 16-bit length and the payload.\<close>

definition udp_request_packet :: "bytes \<Rightarrow> bytes \<Rightarrow> (vless_error, bytes) res" where
  "udp_request_packet request payload =
    (if 65535 < length payload then Err UdpPayloadTooLarge
     else Ok (request @ to_be 2 (length payload) @ payload))"

definition read_udp_packet :: "bytes \<Rightarrow> (vless_error, bytes \<times> bytes) res" where
  "read_udp_packet s =
    rbind (read_exact StreamClosed 2 s) (\<lambda>(len, s).
      read_exact StreamClosed (be16 (len ! 0) (len ! 1)) s)"

section \<open>XUDP frames\<close>

record xudp_packet =
  xudp_target :: "target_address option"
  xudp_payload :: bytes

definition encode_xudp_packet ::
    "target_address \<Rightarrow> bytes \<Rightarrow> bool \<Rightarrow> (vless_error, bytes) res" where
  "encode_xudp_packet t payload first_packet =
    (if 65535 < length payload then Err XudpPayloadTooLarge
     else rbind (encode_port_then_address t) (\<lambda>a.
       let meta = [0, 0, if first_packet then 1 else 2, 1, 2] @ a
             @ (if first_packet then replicate 8 0 else [])
       in if 65535 < length meta then Err XudpMetadataTooLarge
          else Ok (to_be 2 (length meta) @ meta @ to_be 2 (length payload) @ payload)))"

definition xudp_meta_target :: "bytes \<Rightarrow> (vless_error, target_address option) res" where
  "xudp_meta_target meta =
    (if 4 < length meta \<and> meta ! 4 = 2
     then rbind (slice_of meta 5 (length meta)) (\<lambda>m.
       rbind (decode_port_then_address m) (\<lambda>(t, n). Ok (Some t)))
     else Ok None)"

definition xudp_output :: "bytes \<Rightarrow> target_address option \<Rightarrow> bytes \<Rightarrow> xudp_packet list" where
  "xudp_output meta t payload =
    (if meta ! 2 = 4 then []
     else if (meta ! 3) AND 1 = 0 \<or> payload = [] then []
     else [\<lparr>xudp_target = t, xudp_payload = payload\<rparr>])"

text \<open>One turn of the loop of \<open>take_xudp_packet\<close>: nothing yet, a frame without a packet, or a packet.\<close>

definition xudp_frame :: "bytes \<Rightarrow> (vless_error, (xudp_packet list \<times> bytes) option) res" where
  "xudp_frame b =
    (if length b < 2 then Ok None
     else rbind (idx b 0) (\<lambda>l0. rbind (idx b 1) (\<lambda>l1.
       let meta_len = be16 l0 l1
       in if meta_len < 4 then Err (XudpMetadataLength meta_len)
          else if length b < 2 + meta_len + 2 then Ok None
          else rbind (slice_of b 2 (2 + meta_len)) (\<lambda>meta.
            rbind (xudp_meta_target meta) (\<lambda>t.
            let off = 2 + meta_len
            in rbind (idx b off) (\<lambda>p0. rbind (idx b (off + 1)) (\<lambda>p1.
               let frame_len = off + 2 + be16 p0 p1
               in if length b < frame_len then Ok None
                  else rbind (slice_of b (off + 2) frame_len) (\<lambda>payload.
                    Ok (Some (xudp_output meta t payload, drop frame_len b))))))))))"

lemma xudp_frame_shrinks: "xudp_frame b = Ok (Some (out, r)) \<Longrightarrow> length r < length b"
  by (auto simp: xudp_frame_def Let_def rbind_Inr_iff split: if_splits)

function take_xudp_packet :: "bytes \<Rightarrow> (vless_error, xudp_packet option \<times> bytes) res" where
  "take_xudp_packet b = (case xudp_frame b of
      Inl e \<Rightarrow> Inl e
    | Inr None \<Rightarrow> Ok (None, b)
    | Inr (Some ([], r)) \<Rightarrow> take_xudp_packet r
    | Inr (Some (p # ps, r)) \<Rightarrow> Ok (Some p, r))"
  by auto
termination by (relation "measure length") (auto dest: xudp_frame_shrinks)

declare take_xudp_packet.simps [simp del]

text \<open>
  The reader of the mux worker: it takes packets until none is complete (or the stream is
  malformed, then it stops), and appends the next read.
\<close>

function xudp_packets :: "bytes \<Rightarrow> xudp_packet list \<times> bytes" where
  "xudp_packets b = (case xudp_frame b of
      Inr (Some (out, r)) \<Rightarrow> (case xudp_packets r of (outs, p) \<Rightarrow> (out @ outs, p))
    | _ \<Rightarrow> ([], b))"
  by auto
termination by (relation "measure length") (auto dest: xudp_frame_shrinks)

declare xudp_packets.simps [simp del]

section \<open>Addresses decode to what was encoded\<close>

lemma encode_address_Cons: "encode_address h = Ok bs \<Longrightarrow> \<exists>atyp x. bs = atyp # x"
  by (auto simp: encode_address_def split: option.splits if_splits)

lemma encode_address_total: "length h \<le> 255 \<Longrightarrow> \<exists>bs. encode_address h = Ok bs"
  by (simp add: encode_address_def split: option.splits)

lemma length_encode_address:
  assumes "encode_address h = Ok bs"
  shows "2 \<le> length bs \<and> length bs \<le> 257"
  using assms by (auto simp: encode_address_def split: option.splits if_splits)

lemma slice_tail: "slice_of (a # s) 1 (Suc n) = (if n \<le> length s then Ok (take n s) else Inl Panic)"
  by (simp add: slice_of_def)

lemma decode_encode_address:
  assumes "utf8_valid (as_bytes h)" "encode_address h = Ok bs"
  shows "decode_address (bs @ r) = Ok (canonical_host h, length bs)"
proof -
  consider a where "parse_ipv4 h = Some a" | a where "parse_ipv4 h = None" "parse_ipv6 h = Some a"
    | "parse_ipv4 h = None" "parse_ipv6 h = None" by fastforce
  then show ?thesis
  proof cases
    case (1 a)
    then show ?thesis
      using assms(2) by (auto simp: encode_address_def decode_address_def canonical_host_def slice_of_def)
  next
    case (2 a)
    then show ?thesis
      using assms(2) by (auto simp: encode_address_def decode_address_def canonical_host_def slice_of_def)
  next
    case 3
    then have "length h \<le> 255" and bs: "bs = 2 # of_nat (length h) # as_bytes h"
      using assms(2) by (auto simp: encode_address_def split: if_splits)
    moreover have "unat (of_nat (length h) :: byte) = length h"
      using \<open>length h \<le> 255\<close> by (simp add: unat_of_nat)
    ultimately show ?thesis using 3 assms(1)
      by (simp add: decode_address_def canonical_host_def slice_of_def idx_def Let_def)
  qed
qed

interpretation vless: address_codec encode_address decode_address
proof unfold_locales
  show "host_ok h \<Longrightarrow> \<exists>bs. encode_address h = Ok bs" for h
    using encode_address_total by (simp add: host_ok_def)
  show "encode_address h = Ok bs \<Longrightarrow> bs \<noteq> []" for h bs
    using encode_address_Cons by blast
  show "utf8_valid (as_bytes h) \<Longrightarrow> encode_address h = Ok bs \<Longrightarrow>
      decode_address (bs @ rest) = Ok (canonical_host h, length bs)" for h bs rest
    by (rule decode_encode_address)
qed

lemma decode_port_then_encoded:
  assumes "utf8_valid (as_bytes (host t))" "encode_port_then_address t = Ok bs"
  shows "decode_port_then_address (bs @ r)
    = Ok (\<lparr>host = canonical_host (host t), target_port = target_port t\<rparr>, length bs)"
proof -
  obtain a where a: "encode_address (host t) = Ok a" and bs: "bs = u16_to_be (target_port t) @ a"
    using assms(2) by (auto simp: encode_port_then_address_def rbind_Inr_iff)
  obtain p0 p1 where p: "u16_to_be (target_port t) = [p0, p1]"
    using list_of_two [of "u16_to_be (target_port t)"] by (metis length_u16_to_be)
  have "u16_from_be p0 p1 = target_port t"
    using u16_from_be_to_be [of "target_port t"] p by simp
  moreover have "decode_address (a @ r) = Ok (canonical_host (host t), length a)"
    by (rule vless.decode_encode [OF assms(1) a])
  moreover obtain a0 a1 where "a = a0 # a1" using encode_address_Cons [OF a] by blast
  ultimately show ?thesis
    by (simp add: decode_port_then_address_def bs p idx_def slice_of_def)
qed

section \<open>The shape of a frame\<close>

lemma be16_to_be_pair: "n < 65536 \<Longrightarrow> \<exists>a b. to_be 2 n = [a, b] \<and> be16 a b = n"
  using list_of_two [of "to_be 2 n"] be16_to_be [of n] by (metis length_to_be mod_less)

lemma split_at: "n \<le> length xs \<Longrightarrow> \<exists>a b. xs = a @ b \<and> length a = n"
  by (intro exI [of _ "take n xs"] exI [of _ "drop n xs"]) simp

lemma xudp_frame_form:
  assumes "length meta = be16 l0 l1" "4 \<le> length meta" "length payload = be16 p0 p1"
  shows "xudp_frame (l0 # l1 # meta @ p0 # p1 # payload @ r)
    = rbind (xudp_meta_target meta) (\<lambda>t. Ok (Some (xudp_output meta t payload, r)))"
proof -
  let ?b = "l0 # l1 # meta @ p0 # p1 # payload @ r"
  have "slice_of ?b 2 (2 + length meta) = Ok meta" by (simp add: slice_of_def)
  moreover have "idx ?b (2 + length meta) = Ok p0" "idx ?b (2 + length meta + 1) = Ok p1"
    by (simp_all add: idx_def nth_append)
  moreover have "slice_of ?b (2 + length meta + 2) (2 + length meta + 2 + length payload) = Ok payload"
    by (simp add: slice_of_def)
  moreover have "drop (2 + length meta + 2 + length payload) ?b = r" by simp
  ultimately show ?thesis
    using assms by (simp add: xudp_frame_def Let_def idx_def)
qed

lemma xudp_frame_SomeD:
  assumes "xudp_frame b = Ok (Some (out, r))"
  shows "\<exists>l0 l1 meta p0 p1 payload t. b = l0 # l1 # meta @ p0 # p1 # payload @ r
    \<and> length meta = be16 l0 l1 \<and> 4 \<le> length meta \<and> length payload = be16 p0 p1
    \<and> xudp_meta_target meta = Ok t \<and> out = xudp_output meta t payload"
proof -
  have "2 \<le> length b" using assms by (simp add: xudp_frame_def split: if_splits)
  then obtain l0 l1 b1 where b: "b = l0 # l1 # b1" by (cases b; cases "tl b") auto
  let ?n = "be16 l0 l1"
  have n: "4 \<le> ?n" "?n + 2 \<le> length b1"
    using assms b by (auto simp: xudp_frame_def Let_def idx_def split: if_splits)
  then obtain meta b2 where b1: "b1 = meta @ b2" "length meta = ?n" using split_at [of ?n b1] by auto
  then obtain p0 p1 b3 where b2: "b2 = p0 # p1 # b3" using n(2) by (cases b2; cases "tl b2") auto
  let ?b = "l0 # l1 # meta @ p0 # p1 # b3"
  have idxs: "idx ?b (2 + length meta) = Ok p0" "idx ?b (2 + length meta + 1) = Ok p1"
      "slice_of ?b 2 (2 + length meta) = Ok meta"
    by (simp_all add: idx_def nth_append slice_of_def)
  have "be16 p0 p1 \<le> length b3"
    using assms b b1 b2 n idxs by (auto simp: xudp_frame_def Let_def idx_def rbind_Inr_iff split: if_splits)
  then obtain payload r' where b3: "b3 = payload @ r'" "length payload = be16 p0 p1"
    using split_at by blast
  have eq: "xudp_frame b = rbind (xudp_meta_target meta) (\<lambda>t. Ok (Some (xudp_output meta t payload, r')))"
    using xudp_frame_form [of meta l0 l1 payload p0 p1 r'] b b1 b2 b3 n by simp
  then obtain t where t: "xudp_meta_target meta = Ok t" "out = xudp_output meta t payload" "r' = r"
    using trans [OF eq [symmetric] assms] by (auto simp: rbind_Inr_iff)
  have "b = l0 # l1 # meta @ p0 # p1 # payload @ r" using b b1(1) b2 b3(1) t(3) by simp
  then show ?thesis using b1(2) b3(2) n(1) t(1,2)
    by - (rule exI [of _ l0], rule exI [of _ l1], rule exI [of _ meta],
        rule exI [of _ p0], rule exI [of _ p1], rule exI [of _ payload], rule exI [of _ t], simp)
qed

definition xudp_take :: "bytes \<Rightarrow> (xudp_packet list \<times> bytes) option" where
  "xudp_take b = (case xudp_frame b of Inr x \<Rightarrow> x | Inl _ \<Rightarrow> None)"

lemma xudp_take_Some: "xudp_take b = Some x \<longleftrightarrow> xudp_frame b = Ok (Some x)"
  by (simp add: xudp_take_def split: sum.splits)

interpretation xudp: frame_decoder xudp_take xudp_packets
proof unfold_locales
  show "xudp_take b = Some (out, r) \<Longrightarrow> length r < length b" for b out r
    by (simp add: xudp_take_Some xudp_frame_shrinks)
  show "xudp_take (b @ d) = Some (out, r @ d)" if "xudp_take b = Some (out, r)" for b out r d
  proof -
    from xudp_frame_SomeD [of b out r] that obtain l0 l1 meta p0 p1 payload t where
      "b = l0 # l1 # meta @ p0 # p1 # payload @ r" "length meta = be16 l0 l1" "4 \<le> length meta"
      "length payload = be16 p0 p1" "xudp_meta_target meta = Ok t" "out = xudp_output meta t payload"
      by (auto simp: xudp_take_Some)
    then show ?thesis
      using xudp_frame_form [of meta l0 l1 payload p0 p1 "r @ d"] by (simp add: xudp_take_Some)
  qed
  show "xudp_packets b = (case xudp_take b of None \<Rightarrow> ([], b)
      | Some (out, r) \<Rightarrow> (case xudp_packets r of (outs, p) \<Rightarrow> (out @ outs, p)))" for b
    by (subst xudp_packets.simps) (simp add: xudp_take_def split: sum.splits option.splits)
qed

text \<open>Taking the packets one at a time gives the same packets.\<close>

lemma xudp_frame_one: "xudp_frame b = Ok (Some (p # ps, r)) \<Longrightarrow> ps = []"
  by (auto dest!: xudp_frame_SomeD simp: xudp_output_def split: if_splits)

lemma take_xudp_packets:
  "take_xudp_packet b = Ok (x, r) \<Longrightarrow> xudp_packets b =
    (case x of None \<Rightarrow> ([], r) | Some p \<Rightarrow> (p # fst (xudp_packets r), snd (xudp_packets r)))"
proof (induction b rule: length_induct)
  case (1 b)
  show ?case
  proof (cases "xudp_frame b")
    case (Inl e)
    then show ?thesis using "1.prems" by (simp add: take_xudp_packet.simps [of b])
  next
    case (Inr f)
    show ?thesis
    proof (cases f)
      case None
      then have "take_xudp_packet b = Ok (None, b)" "xudp_packets b = ([], b)"
        using Inr by (simp_all add: take_xudp_packet.simps [of b] xudp_packets.simps [of b])
      then show ?thesis using "1.prems" by auto
    next
      case (Some g)
      then obtain out r1 where g: "xudp_frame b = Ok (Some (out, r1))" using Inr by (cases g) auto
      show ?thesis
      proof (cases out)
        case Nil
        then have "take_xudp_packet r1 = Ok (x, r)" "xudp_packets b = xudp_packets r1"
          using g "1.prems" by (simp_all add: take_xudp_packet.simps [of b] xudp_packets.simps [of b])
        then show ?thesis using "1.IH" xudp_frame_shrinks [OF g] by simp
      next
        case (Cons p ps)
        then have "ps = []" using g xudp_frame_one by blast
        then show ?thesis using g Cons "1.prems"
          by (auto simp: take_xudp_packet.simps [of b] xudp_packets.simps [of b] split: prod.splits)
      qed
    qed
  qed
qed

section \<open>Encoded packets\<close>

lemma encoded_xudp_frame:
  assumes "utf8_valid (as_bytes (host t))" "payload \<noteq> []"
    and "encode_xudp_packet t payload first_packet = Ok f"
  shows "xudp_frame (f @ r) = Ok (Some ([\<lparr>xudp_target = Some \<lparr>host = canonical_host (host t),
      target_port = target_port t\<rparr>, xudp_payload = payload\<rparr>], r))"
proof -
  from assms(3) obtain a where a: "encode_port_then_address t = Ok a"
    by (auto simp: encode_xudp_packet_def Let_def rbind_Inr_iff split: if_splits)
  let ?tail = "a @ (if first_packet then replicate 8 0 else [])"
  let ?meta = "[0, 0, if first_packet then 1 else 2, 1, 2] @ ?tail"
  have f: "f = to_be 2 (length ?meta) @ ?meta @ to_be 2 (length payload) @ payload"
    and len: "length ?meta \<le> 65535" "length payload \<le> 65535"
    using assms(3) a by (auto simp: encode_xudp_packet_def Let_def split: if_splits)
  obtain l0 l1 where l: "to_be 2 (length ?meta) = [l0, l1]" "be16 l0 l1 = length ?meta"
    using be16_to_be_pair [of "length ?meta"] len(1) by auto
  obtain p0 p1 where p: "to_be 2 (length payload) = [p0, p1]" "be16 p0 p1 = length payload"
    using be16_to_be_pair [of "length payload"] len(2) by auto
  have "decode_port_then_address ?tail
      = Ok (\<lparr>host = canonical_host (host t), target_port = target_port t\<rparr>, length a)"
    by (rule decode_port_then_encoded [OF assms(1) a])
  then have t: "xudp_meta_target ?meta
      = Ok (Some \<lparr>host = canonical_host (host t), target_port = target_port t\<rparr>)"
    unfolding xudp_meta_target_def by (simp add: slice_of_def)
  have out: "xudp_output ?meta x payload = [\<lparr>xudp_target = x, xudp_payload = payload\<rparr>]" for x
    using assms(2) by (simp add: xudp_output_def)
  have "f @ r = l0 # l1 # ?meta @ p0 # p1 # payload @ r" unfolding f l(1) p(1) by simp
  then have "xudp_frame (f @ r)
      = rbind (xudp_meta_target ?meta) (\<lambda>x. Ok (Some (xudp_output ?meta x payload, r)))"
    using xudp_frame_form [of ?meta l0 l1 payload p0 p1 r] l(2) p(2) by simp
  then show ?thesis unfolding t rbind_simps out .
qed

lemma encode_xudp_total:
  assumes "length (host t) \<le> 255" "length payload \<le> 65535"
  shows "\<exists>f. encode_xudp_packet t payload first_packet = Ok f"
proof -
  obtain a where a: "encode_address (host t) = Ok a" using encode_address_total [OF assms(1)] by blast
  then have "length a \<le> 257" using length_encode_address by blast
  then show ?thesis using a assms(2)
    by (simp add: encode_xudp_packet_def encode_port_then_address_def Let_def)
qed

section \<open>Requests\<close>

lemma build_addon_inj:
  assumes "build_addon f = build_addon f'" "length (or_default [] f) < 2 ^ 64"
    "length (or_default [] f') < 2 ^ 64"
  shows "or_default [] f = or_default [] f'"
proof -
  have shape: "build_addon g = (if or_default [] g = [] then []
      else 0x0A # write_protobuf_varint (of_nat (length (or_default [] g))) @ as_bytes (or_default [] g))" for g
    by (cases g) (simp_all add: build_addon_def or_default_def)
  let ?a = "or_default [] f" and ?b = "or_default [] f'"
  show ?thesis
  proof (cases "?a = [] \<or> ?b = []")
    case True
    then show ?thesis using assms(1) unfolding shape by (auto split: if_splits)
  next
    case False
    then have "write_protobuf_varint (of_nat (length ?a)) @ as_bytes ?a
        = write_protobuf_varint (of_nat (length ?b)) @ as_bytes ?b"
      using assms(1) unfolding shape by simp
    then have "read_protobuf_varint (write_protobuf_varint (of_nat (length ?a)) @ as_bytes ?a)
        = read_protobuf_varint (write_protobuf_varint (of_nat (length ?b)) @ as_bytes ?b)" by simp
    then have "length (write_protobuf_varint (of_nat (length ?a)))
        = length (write_protobuf_varint (of_nat (length ?b)))"
      unfolding read_write_varint by simp
    then have "as_bytes ?a = as_bytes ?b"
      using \<open>write_protobuf_varint _ @ as_bytes ?a = _\<close> by (simp add: append_eq_append_conv)
    then have "text_of (as_bytes ?a) = text_of (as_bytes ?b)" by simp
    then show ?thesis by simp
  qed
qed

lemma build_request_shape:
  assumes "build_request uuid flow cmd t = Ok req"
  obtains u a where "parse_uuid uuid = Ok u" "length (build_addon flow) \<le> 255"
    "req = [0] @ u @ [of_nat (length (build_addon flow))] @ build_addon flow @ [command_code cmd] @ a"
    "if cmd = CmdMux then a = [] else encode_port_then_address t = Ok a"
proof -
  from assms obtain u where u: "parse_uuid uuid = Ok u" and l: "length (build_addon flow) \<le> 255"
    and r: "rbind (if cmd = CmdMux then Ok [] else encode_port_then_address t) (\<lambda>a.
         Ok ([0] @ u @ [of_nat (length (build_addon flow))] @ build_addon flow @ [command_code cmd] @ a))
       = Ok req"
    by (auto simp: build_request_def rbind_Inr_iff Let_def split: if_splits)
  from r obtain a where "(if cmd = CmdMux then Ok [] else encode_port_then_address t) = Ok a"
    and "req = [0] @ u @ [of_nat (length (build_addon flow))] @ build_addon flow @ [command_code cmd] @ a"
    by (auto simp: rbind_Inr_iff simp del: append.simps)
  then show ?thesis using that [OF u l, of a] by (auto split: if_splits)
qed

lemma addon_length_flow: "length (build_addon f) \<le> 255 \<Longrightarrow> length (or_default [] f) < 2 ^ 64"
  by (cases f) (auto simp: build_addon_def or_default_def split: if_splits)

lemma command_code_inj: "command_code c = command_code c' \<Longrightarrow> c = c'"
  by (cases c; cases c') simp_all

section \<open>Properties\<close>



text \<open>
  Taking packets never loses or reorders bytes. Whatever bytes arrive, in any reads, the frames
  and errors found do not depend on how the bytes were cut, and taking the packets one at a time (as
  the reader does) yields the packets of the whole buffer in order.
\<close>

theorem xudp_reads_do_not_matter:
  "feed_all xudp_packets [] reads = xudp_packets (concat reads)
   \<and> (\<forall>b x r. take_xudp_packet b = Ok (x, r) \<longrightarrow> xudp_packets b =
       (case x of None \<Rightarrow> ([], r) | Some p \<Rightarrow> (p # fst (xudp_packets r), snd (xudp_packets r))))"
proof -
  have "xudp_take [] = None" by (simp add: xudp_take_def xudp_frame_def)
  from xudp.feed_concat [OF this, of reads] show ?thesis using take_xudp_packets by simp
qed

theorem xudp_reads_do_not_matter_witness:
  "xudp_packets [0, 4, 0, 0, 4, 0, 0, 0, 0, 9] = ([], [0, 9])"
proof -
  have "take_xudp_packet [0, 4, 0, 0, 4, 0, 0, 0, 0, 9] = Ok (None, [0, 9])" by code_simp
  then show ?thesis using xudp_reads_do_not_matter [of "[]"] by fastforce
qed

text \<open>
  C38: a request says who connects where, unambiguously. Two requests that begin two streams with
  the same bytes were built for the same UUID, the same flow, the same command and, unless it is
  the mux command, the same port and the same host up to the text of an IPv6 address; what follows
  the requests is the same too.
\<close>

theorem request_unambiguous:
  assumes "build_request uuid flow cmd t = Ok req" "build_request uuid' flow' cmd' t' = Ok req'"
    and "req @ r = req' @ r'" "utf8_valid (as_bytes (host t))" "utf8_valid (as_bytes (host t'))"
  shows "parse_uuid uuid = parse_uuid uuid' \<and> or_default [] flow = or_default [] flow' \<and> cmd = cmd'
    \<and> r = r' \<and> (cmd \<noteq> CmdMux \<longrightarrow> target_port t = target_port t'
        \<and> canonical_host (host t) = canonical_host (host t'))"
proof -
  obtain u a where u: "parse_uuid uuid = Ok u" "length (build_addon flow) \<le> 255"
    "req = [0] @ u @ [of_nat (length (build_addon flow))] @ build_addon flow @ [command_code cmd] @ a"
    "if cmd = CmdMux then a = [] else encode_port_then_address t = Ok a"
    by (rule build_request_shape [OF assms(1)])
  obtain u' a' where u': "parse_uuid uuid' = Ok u'" "length (build_addon flow') \<le> 255"
    "req' = [0] @ u' @ [of_nat (length (build_addon flow'))] @ build_addon flow' @ [command_code cmd'] @ a'"
    "if cmd' = CmdMux then a' = [] else encode_port_then_address t' = Ok a'"
    by (rule build_request_shape [OF assms(2)])
  have "length u = length u'" using parse_uuid_length u(1) u'(1) by simp
  then have uu: "u = u'"
    and n: "(of_nat (length (build_addon flow)) :: byte) = of_nat (length (build_addon flow'))"
    and rest: "build_addon flow @ [command_code cmd] @ a @ r = build_addon flow' @ [command_code cmd'] @ a' @ r'"
    using assms(3) u(3) u'(3) by auto
  have "length (build_addon flow) = length (build_addon flow')"
    using arg_cong [OF n, of unat] u(2) u'(2) by (simp add: unat_of_nat)
  then have addon: "build_addon flow = build_addon flow'"
    and cc: "command_code cmd = command_code cmd'" and ar: "a @ r = a' @ r'"
    using rest by auto
  have cmd: "cmd = cmd'" by (rule command_code_inj [OF cc])
  have flow: "or_default [] flow = or_default [] flow'"
    using build_addon_inj [OF addon] addon_length_flow u(2) u'(2) by blast
  show ?thesis
  proof (cases "cmd = CmdMux")
    case True
    then show ?thesis using u u' uu flow cmd ar by simp
  next
    case False
    then obtain h h' where h: "encode_address (host t) = Ok h" "a = u16_to_be (target_port t) @ h"
      and h': "encode_address (host t') = Ok h'" "a' = u16_to_be (target_port t') @ h'"
      using u(4) u'(4) cmd by (auto simp: encode_port_then_address_def rbind_Inr_iff)
    have "u16_to_be (target_port t) = u16_to_be (target_port t') \<and> h @ r = h' @ r'"
      using ar h(2) h'(2) by (simp add: append_eq_append_conv)
    then have "target_port t = target_port t'" "h @ r = h' @ r'"
      by (metis u16_from_be_to_be)+
    then show ?thesis
      using vless.encode_prefix_free [OF assms(4,5) h(1) h'(1)] u(1) u'(1) uu flow cmd by simp
  qed
qed

theorem request_unambiguous_witness:
  "parse_uuid ''00112233-4455-6677-8899-AABBCCDDEEFF'' = parse_uuid ''00112233445566778899aabbccddeeff''"
proof -
  let ?t = "\<lparr>host = ''a.b'', target_port = 443\<rparr>"
  let ?req = "[0, 0x00, 0x11, 0x22, 0x33, 0x44, 0x55, 0x66, 0x77, 0x88, 0x99, 0xAA, 0xBB, 0xCC, 0xDD,
    0xEE, 0xFF, 0, 1, 1, 187, 2, 3, 97, 46, 98] :: bytes"
  have "build_request ''00112233-4455-6677-8899-AABBCCDDEEFF'' None CmdTcp ?t = Ok ?req"
    "build_request ''00112233445566778899aabbccddeeff'' (Some []) CmdTcp ?t = Ok ?req"
    "utf8_valid (as_bytes (host ?t))" by code_simp+
  with request_unambiguous [of _ None CmdTcp ?t ?req _ "Some []" CmdTcp ?t ?req] show ?thesis by blast
qed

end
