(* ===== verification/Vless_Vision.thy ===== *)
theory Vless_Vision
  imports Prelude
begin

text \<open>
  The Vision flow of the VLESS adapter (\<open>neoncore-kernel/src/adapter/vless.rs\<close>, lines 2250 to
  2910): padding blocks, the decoder that takes them off the downlink, the stripper of the response
  header, the decision when the uplink stops padding, and the reader that stops at the end of a TLS
  record.
\<close>

section \<open>Padding blocks\<close>

definition xtls_padding :: "bytes option \<Rightarrow> byte \<Rightarrow> bytes option \<Rightarrow> bool \<Rightarrow> bytes" where
  "xtls_padding content command uuid long =
    (let content = (case content of Some c \<Rightarrow> c | None \<Rightarrow> []);
         padding_len = (if long \<and> length content < 900 then 900 - length content else 0)
     in (case uuid of Some u \<Rightarrow> u | None \<Rightarrow> [])
        @ [command] @ u16_to_be (of_nat (length content)) @ u16_to_be (of_nat padding_len)
        @ content @ replicate padding_len 0)"

section \<open>The decoder of the downlink\<close>

datatype unpadding_mode = UnknownMode | PaddingMode | RawMode

record unpadding_state =
  up_uuid :: bytes
  up_pending :: bytes
  up_mode :: unpadding_mode

definition new_unpadding :: "bytes \<Rightarrow> unpadding_state" where
  "new_unpadding uuid = \<lparr>up_uuid = uuid, up_pending = [], up_mode = UnknownMode\<rparr>"

definition block_content_len :: "bytes \<Rightarrow> nat" where
  "block_content_len p = be16 (p ! 1) (p ! 2)"

definition block_len :: "bytes \<Rightarrow> nat" where
  "block_len p = 5 + be16 (p ! 1) (p ! 2) + be16 (p ! 3) (p ! 4)"

definition block_content :: "bytes \<Rightarrow> bytes list" where
  "block_content p =
    (if 0 < block_content_len p then [take (block_content_len p) (drop 5 p)] else [])"

definition nonempty :: "bytes \<Rightarrow> bytes list" where
  "nonempty p = (if p = [] then [] else [p])"

lemma block_len_pos: "5 \<le> block_len p"
  by (simp add: block_len_def)

text \<open>
  The loop of \<open>push\<close> over the pending bytes: the chunks to pass on, whether the peer switched to
  direct copy, the mode and what stays pending.
\<close>

function unpad_loop :: "bytes \<Rightarrow> unpadding_mode \<Rightarrow> bytes \<Rightarrow> bytes list \<times> bool \<times> unpadding_mode \<times> bytes" where
  "unpad_loop uuid UnknownMode p =
    (if length p < 16 then ([], False, UnknownMode, p)
     else if take 16 p = uuid then unpad_loop uuid PaddingMode (drop 16 p)
     else ([p], False, RawMode, []))"
| "unpad_loop uuid PaddingMode p =
    (if length p < 5 then ([], False, PaddingMode, p)
     else if 2 < p ! 0 then ([p], False, RawMode, [])
     else if length p < block_len p then ([], False, PaddingMode, p)
     else if p ! 0 \<noteq> 0
       then (block_content p @ nonempty (drop (block_len p) p), p ! 0 = 2, RawMode, [])
     else (case unpad_loop uuid PaddingMode (drop (block_len p) p) of
         (out, direct, m, r) \<Rightarrow> (block_content p @ out, direct, m, r)))"
| "unpad_loop uuid RawMode p = (nonempty p, False, RawMode, [])"
  by pat_completeness auto
termination
  by (relation "measure (\<lambda>(uuid, m, p). length p)") (auto simp: block_len_def)

declare unpad_loop.simps(2) [simp del]

text \<open>\<open>push_without_pending\<close>: the same blocks, taken from the borrowed input at an offset.\<close>

function unpad_borrowed :: "bytes \<Rightarrow> nat \<Rightarrow> bytes list \<times> bool \<times> unpadding_mode \<times> bytes" where
  "unpad_borrowed input offset =
    (if length input \<le> offset then ([], False, PaddingMode, [])
     else if length input - offset < 5 then ([], False, PaddingMode, drop offset input)
     else if 2 < input ! offset then ([drop offset input], False, RawMode, [])
     else (let content_len = be16 (input ! (offset + 1)) (input ! (offset + 2));
               padding_len = be16 (input ! (offset + 3)) (input ! (offset + 4));
               len = 5 + content_len + padding_len
           in if length input - offset < len then ([], False, PaddingMode, drop offset input)
              else (let out = (if 0 < content_len then [take content_len (drop (offset + 5) input)] else []);
                        offset' = offset + len
                    in if input ! offset \<noteq> 0
                       then (out @ (if offset' < length input then [drop offset' input] else []),
                             input ! offset = 2, RawMode, [])
                       else (case unpad_borrowed input offset' of
                           (outs, direct, m, r) \<Rightarrow> (out @ outs, direct, m, r)))))"
  by auto
termination
  by (relation "measure (\<lambda>(input, offset). length input - offset)") auto

declare unpad_borrowed.simps [simp del]

definition push_without_pending :: "unpadding_state \<Rightarrow> bytes \<Rightarrow> bytes list \<times> bool \<times> unpadding_mode \<times> bytes" where
  "push_without_pending st bs =
    (if up_mode st = UnknownMode then
       (if length bs < 16 then ([], False, UnknownMode, bs)
        else if take 16 bs = up_uuid st then unpad_borrowed (drop 16 bs) 0
        else ([bs], False, RawMode, []))
     else unpad_borrowed bs 0)"

definition unpadding_push :: "unpadding_state \<Rightarrow> bytes \<Rightarrow> (bytes list \<times> bool) \<times> unpadding_state" where
  "unpadding_push st bs =
    (if up_mode st = RawMode then (([bs], False), st)
     else (case (if up_pending st = [] then push_without_pending st bs
                 else unpad_loop (up_uuid st) (up_mode st) (up_pending st @ bs)) of
         (out, direct, m, r) \<Rightarrow> ((out, direct), st\<lparr>up_mode := m, up_pending := r\<rparr>)))"

text \<open>The downlink of a connection: the bytes passed on for a sequence of reads.\<close>

fun unpadding_reads :: "unpadding_state \<Rightarrow> bytes list \<Rightarrow> bytes \<times> unpadding_state" where
  "unpadding_reads st [] = ([], st)"
| "unpadding_reads st (r # rs) =
    (case unpadding_push st r of ((out, direct), st') \<Rightarrow>
      (case unpadding_reads st' rs of (outs, st'') \<Rightarrow> (concat out @ outs, st'')))"

section \<open>The response header\<close>

record header_stripper =
  hs_pending :: bytes
  hs_done :: bool

definition new_stripper :: header_stripper where
  "new_stripper = \<lparr>hs_pending = [], hs_done = False\<rparr>"

definition stripper_push :: "header_stripper \<Rightarrow> bytes \<Rightarrow> bytes option \<times> header_stripper" where
  "stripper_push st bs =
    (if hs_done st then (Some bs, st)
     else (let p = hs_pending st @ bs
       in if length p < 2 then (None, st\<lparr>hs_pending := p\<rparr>)
          else if p ! 0 \<noteq> 0 then (Some p, \<lparr>hs_pending = [], hs_done = True\<rparr>)
          else (let header_len = 2 + unat (p ! 1)
            in if length p < header_len then (None, st\<lparr>hs_pending := p\<rparr>)
               else (Some (drop header_len p), \<lparr>hs_pending = [], hs_done = True\<rparr>))))"

fun stripper_reads :: "header_stripper \<Rightarrow> bytes list \<Rightarrow> bytes \<times> header_stripper" where
  "stripper_reads st [] = ([], st)"
| "stripper_reads st (r # rs) =
    (case stripper_push st r of (out, st') \<Rightarrow>
      (case stripper_reads st' rs of (outs, st'') \<Rightarrow>
        ((case out of Some b \<Rightarrow> b | None \<Rightarrow> []) @ outs, st'')))"

section \<open>The uplink\<close>

definition VISION_UPLINK_DIRECT_MIN_BYTES :: nat where
  "VISION_UPLINK_DIRECT_MIN_BYTES = 8 * 1024"
definition VISION_PACKET_FILTER_LIMIT :: int where "VISION_PACKET_FILTER_LIMIT = 8"

record link_state =
  padding :: bool
  direct_copy :: bool
  direct_sent :: bool

record traffic_state =
  packet_filter_remaining :: int
  is_tls :: bool
  is_tls12_or_above :: bool
  is_tls13 :: bool
  remaining_server_hello :: int
  uplink :: link_state

definition new_link :: link_state where
  "new_link = \<lparr>padding = True, direct_copy = False, direct_sent = False\<rparr>"

definition new_traffic :: traffic_state where
  "new_traffic = \<lparr>packet_filter_remaining = VISION_PACKET_FILTER_LIMIT, is_tls = False,
     is_tls12_or_above = False, is_tls13 = False, remaining_server_hello = -1, uplink = new_link\<rparr>"

definition has_prefix :: "bytes \<Rightarrow> bytes \<Rightarrow> bool" where
  "has_prefix bs p \<longleftrightarrow> take (length p) bs = p"

text \<open>\<open>windows(6).any(..)\<close>: the marker of TLS 1.3 in a server hello.\<close>

fun has_window :: "bytes \<Rightarrow> bytes \<Rightarrow> bool" where
  "has_window [] w = (w = [])"
| "has_window (b # bs) w = (has_prefix (b # bs) w \<or> has_window bs w)"

definition filter_tls :: "bytes \<Rightarrow> traffic_state \<Rightarrow> traffic_state" where
  "filter_tls bs t =
    (if packet_filter_remaining t \<le> 0 then t
     else (let t = t\<lparr>packet_filter_remaining := packet_filter_remaining t - 1\<rparr>
       in if length bs < 6 then t
          else if has_prefix bs [0x16, 0x03] then t\<lparr>is_tls := True\<rparr>
          else if has_prefix bs [0x16, 0x03, 0x03] \<and> bs ! 5 = 0x02 then
            (let t = t\<lparr>is_tls := True, is_tls12_or_above := True,
                       remaining_server_hello := int (be16 (bs ! 3) (bs ! 4)) + 5\<rparr>
             in if has_window bs [0x00, 0x2b, 0x00, 0x02, 0x03, 0x04]
                then t\<lparr>is_tls13 := True, packet_filter_remaining := 0\<rparr> else t)
          else t))"

definition is_tls_handshake :: "bytes \<Rightarrow> bool" where
  "is_tls_handshake bs \<longleftrightarrow> has_prefix bs [0x16, 0x03]"

function complete_records :: "bytes \<Rightarrow> nat \<Rightarrow> bool" where
  "complete_records bs offset =
    (if length bs \<le> offset then offset = length bs
     else if length bs - offset < 5 then False
     else if bs ! offset \<noteq> 0x17 \<or> bs ! (offset + 1) \<noteq> 0x03 \<or> bs ! (offset + 2) \<noteq> 0x03 then False
     else (let record_len = be16 (bs ! (offset + 3)) (bs ! (offset + 4))
           in if length bs - (offset + 5) < record_len then False
              else complete_records bs (offset + 5 + record_len)))"
  by auto
termination by (relation "measure (\<lambda>(bs, offset). length bs - offset)") auto

declare complete_records.simps [simp del]

lemma complete_records_end: "offset = length bs \<Longrightarrow> complete_records bs offset"
  by (simp add: complete_records.simps)

definition is_complete_tls_application_data :: "bytes \<Rightarrow> bool" where
  "is_complete_tls_application_data bs = complete_records bs 0"

record uplink_decision =
  d_command :: byte
  d_direct :: bool

definition command_for :: "bytes \<Rightarrow> bool \<Rightarrow> traffic_state \<Rightarrow> uplink_decision \<times> traffic_state" where
  "command_for bs peer_direct_confirmed t =
    (let t = filter_tls bs t
     in if is_tls_handshake bs then (\<lparr>d_command = 0, d_direct = False\<rparr>, t)
        else if is_tls t \<and> \<not> direct_sent (uplink t) \<and> has_prefix bs [0x17, 0x03, 0x03]
                \<and> (peer_direct_confirmed \<or> VISION_UPLINK_DIRECT_MIN_BYTES \<le> length bs)
                \<and> is_complete_tls_application_data bs
          then (\<lparr>d_command = 2, d_direct = True\<rparr>,
                t\<lparr>uplink := \<lparr>padding = False, direct_copy = True, direct_sent = True\<rparr>\<rparr>)
        else if \<not> is_tls t
          then (\<lparr>d_command = 1, d_direct = False\<rparr>, t\<lparr>uplink := (uplink t)\<lparr>padding := False\<rparr>\<rparr>)
        else (\<lparr>d_command = 0, d_direct = False\<rparr>, t))"

text \<open>
  The uplink task of \<open>bridge_vless_stream\<close> with a Vision flow: what it writes to the remote for
  the request, the payload of the first read (if any came in time) and the later reads.
\<close>

fun uplink_reads :: "traffic_state \<Rightarrow> bytes list \<Rightarrow> bytes" where
  "uplink_reads t [] = []"
| "uplink_reads t (r # rs) =
    (if padding (uplink t)
     then (case command_for r False t of (d, t') \<Rightarrow>
       xtls_padding (Some r) (d_command d) None True @ uplink_reads t' rs)
     else r @ uplink_reads t rs)"

definition bridge_uplink :: "bytes \<Rightarrow> bytes option \<Rightarrow> bytes option \<Rightarrow> bytes list \<Rightarrow> bytes" where
  "bridge_uplink request uuid first reads =
    request @ (case uuid of
      Some u \<Rightarrow> xtls_padding first 0 (Some u) True @ uplink_reads new_traffic reads
    | None \<Rightarrow> (case first of Some p \<Rightarrow> p | None \<Rightarrow> []) @ concat reads)"

section \<open>The two decoders agree\<close>

lemma block_drop:
  assumes "offset + 5 \<le> length input"
  shows "block_len (drop offset input) = 5 + be16 (input ! (offset + 1)) (input ! (offset + 2))
      + be16 (input ! (offset + 3)) (input ! (offset + 4))"
    and "block_content (drop offset input) =
      (if 0 < be16 (input ! (offset + 1)) (input ! (offset + 2))
       then [take (be16 (input ! (offset + 1)) (input ! (offset + 2))) (drop (offset + 5) input)] else [])"
    and "drop offset input ! 0 = input ! offset"
  using assms by (simp_all add: block_len_def block_content_def block_content_len_def add.commute)

lemma unpad_borrowed_loop:
  "offset \<le> length input \<Longrightarrow> unpad_borrowed input offset = unpad_loop uuid PaddingMode (drop offset input)"
proof (induction input offset rule: unpad_borrowed.induct)
  case (1 input offset)
  let ?p = "drop offset input"
  show ?case
  proof (cases "length input - offset < 5")
    case True
    then show ?thesis using 1
      by (auto simp: unpad_borrowed.simps [of input offset] unpad_loop.simps(2) [of uuid ?p])
  next
    case False
    then have l: "offset + 5 \<le> length input" using "1.prems" by simp
    note b = block_drop [OF l]
    show ?thesis
    proof (cases "2 < input ! offset \<or> length input - offset < block_len ?p")
      case True
      then show ?thesis using l b
        by (auto simp: unpad_borrowed.simps [of input offset] unpad_loop.simps(2) [of uuid ?p] Let_def)
    next
      case False
      then have n: "\<not> 2 < input ! offset" "offset + block_len ?p \<le> length input" using l by auto
      have d: "drop (block_len ?p) ?p = drop (offset + block_len ?p) input" by (simp add: add.commute)
      show ?thesis
      proof (cases "input ! offset = 0")
        case True
        then have "unpad_borrowed input (offset + block_len ?p)
            = unpad_loop uuid PaddingMode (drop (offset + block_len ?p) input)"
          using "1.IH" [OF _ _ _ refl refl refl _ refl refl] n l b by auto
        then show ?thesis using True n l b d
          by (simp add: unpad_borrowed.simps [of input offset] unpad_loop.simps(2) [of uuid ?p] Let_def)
      next
        case False
        then show ?thesis using n l b d
          by (simp add: unpad_borrowed.simps [of input offset] unpad_loop.simps(2) [of uuid ?p] Let_def
              nonempty_def)
      qed
    qed
  qed
qed

lemma push_without_pending_loop:
  "up_mode st \<noteq> RawMode \<Longrightarrow> push_without_pending st bs = unpad_loop (up_uuid st) (up_mode st) bs"
  using unpad_borrowed_loop [of 0 bs "up_uuid st"] unpad_borrowed_loop [of 0 "drop 16 bs" "up_uuid st"]
  by (cases "up_mode st") (auto simp: push_without_pending_def)

lemma unpadding_push_loop:
  "up_mode st \<noteq> RawMode \<Longrightarrow> unpadding_push st bs =
    (case unpad_loop (up_uuid st) (up_mode st) (up_pending st @ bs) of
       (out, direct, m, r) \<Rightarrow> ((out, direct), st\<lparr>up_mode := m, up_pending := r\<rparr>))"
  by (simp add: unpadding_push_def push_without_pending_loop)

section \<open>Decoding does not depend on the reads\<close>

lemma block_append:
  assumes "5 \<le> length p"
  shows "block_len (p @ d) = block_len p" "(p @ d) ! 0 = p ! 0"
    and "block_len p \<le> length p \<Longrightarrow> block_content (p @ d) = block_content p"
proof -
  have n: "(p @ d) ! i = p ! i" if "i < 5" for i using assms that by (simp add: nth_append)
  show l: "block_len (p @ d) = block_len p" "(p @ d) ! 0 = p ! 0" using n by (simp_all add: block_len_def)
  have c: "block_content_len (p @ d) = block_content_len p" using n by (simp add: block_content_len_def)
  show "block_len p \<le> length p \<Longrightarrow> block_content (p @ d) = block_content p"
    using assms unfolding block_content_def c
    by (simp add: block_len_def block_content_len_def)
qed

lemma concat_nonempty [simp]: "concat (nonempty p) = p"
  by (simp add: nonempty_def)

text \<open>What is known after the loop, and how it goes on when more bytes arrive.\<close>

lemma unpad_loop_append:
  assumes "m \<noteq> RawMode" "unpad_loop uuid m p = (out, direct, m', r)"
  shows "if m' = RawMode
    then r = [] \<and> (\<exists>out'. unpad_loop uuid m (p @ d) = (out', direct, RawMode, []) \<and> concat out' = concat out @ d)
    else \<not> direct \<and> unpad_loop uuid m' r = ([], False, m', r)
      \<and> unpad_loop uuid m (p @ d) = (case unpad_loop uuid m' (r @ d) of
           (out2, direct2, m2, r2) \<Rightarrow> (out @ out2, direct2, m2, r2))"
  using assms
proof (induction uuid m p arbitrary: out direct m' r rule: unpad_loop.induct)
  case (1 uuid p)
  show ?case
  proof (cases "length p < 16")
    case True
    then show ?thesis using 1 by (auto split: prod.splits)
  next
    case False
    then show ?thesis using 1 by (cases "take 16 p = uuid") (auto split: prod.splits)
  qed
next
  case (2 uuid p)
  consider "length p < 5" | "5 \<le> length p" "2 < p ! 0"
    | "5 \<le> length p" "\<not> 2 < p ! 0" "length p < block_len p"
    | "5 \<le> length p" "\<not> 2 < p ! 0" "block_len p \<le> length p" "p ! 0 \<noteq> 0"
    | "5 \<le> length p" "\<not> 2 < p ! 0" "block_len p \<le> length p" "p ! 0 = 0" by linarith
  then show ?case
  proof cases
    case 1
    then have "unpad_loop uuid PaddingMode p = ([], False, PaddingMode, p)"
      by (simp add: unpad_loop.simps(2) [of uuid p])
    then show ?thesis using "2.prems" by (auto split: prod.splits)
  next
    case c: 2
    then show ?thesis using "2.prems" block_append [of p d]
      by (auto simp: unpad_loop.simps(2) [of uuid p] unpad_loop.simps(2) [of uuid "p @ d"])
  next
    case 3
    then have "unpad_loop uuid PaddingMode p = ([], False, PaddingMode, p)"
      by (simp add: unpad_loop.simps(2) [of uuid p])
    then show ?thesis using "2.prems" by (auto split: prod.splits)
  next
    case 4
    then show ?thesis using "2.prems" block_append [of p d]
      by (auto simp: unpad_loop.simps(2) [of uuid p] unpad_loop.simps(2) [of uuid "p @ d"])
  next
    case 5
    let ?q = "drop (block_len p) p"
    obtain out1 where l: "unpad_loop uuid PaddingMode ?q = (out1, direct, m', r)"
      and out: "out = block_content p @ out1"
      using "2.prems" 5 by (auto simp: unpad_loop.simps(2) [of uuid p] split: prod.splits)
    have step: "unpad_loop uuid PaddingMode (p @ d) = (case unpad_loop uuid PaddingMode (?q @ d) of
         (out, direct, m, r) \<Rightarrow> (block_content p @ out, direct, m, r))"
      using 5 block_append [of p d] by (simp add: unpad_loop.simps(2) [of uuid "p @ d"])
    from "2.IH" [OF _ _ _ _ _ l] 5 have IH: "if m' = RawMode
    then r = [] \<and> (\<exists>out'. unpad_loop uuid PaddingMode (?q @ d) = (out', direct, RawMode, []) \<and> concat out' = concat out1 @ d)
    else \<not> direct \<and> unpad_loop uuid m' r = ([], False, m', r)
      \<and> unpad_loop uuid PaddingMode (?q @ d) = (case unpad_loop uuid m' (r @ d) of
           (out2, direct2, m2, r2) \<Rightarrow> (out1 @ out2, direct2, m2, r2))"
      by simp
    then show ?thesis using step out by (auto split: prod.splits if_splits)
  qed
next
  case (3 uuid p)
  then show ?case by simp
qed

definition settled :: "unpadding_state \<Rightarrow> bool" where
  "settled st \<longleftrightarrow> (if up_mode st = RawMode then up_pending st = []
     else unpad_loop (up_uuid st) (up_mode st) (up_pending st) = ([], False, up_mode st, up_pending st))"

definition decode_from :: "unpadding_state \<Rightarrow> bytes \<Rightarrow> bytes" where
  "decode_from st bs =
    (if up_mode st = RawMode then bs
     else concat (fst (unpad_loop (up_uuid st) (up_mode st) (up_pending st @ bs))))"

lemma unpadding_push_decode:
  assumes "settled st" "unpadding_push st r = ((out, direct), st')"
  shows "settled st' \<and> up_uuid st' = up_uuid st \<and> decode_from st (r @ rest) = concat out @ decode_from st' rest"
proof (cases "up_mode st = RawMode")
  case True
  then show ?thesis using assms by (auto simp: unpadding_push_def decode_from_def)
next
  case False
  obtain out1 direct1 m1 r1
    where l: "unpad_loop (up_uuid st) (up_mode st) (up_pending st @ r) = (out1, direct1, m1, r1)"
    by (metis prod_cases4)
  then have st': "st' = st\<lparr>up_mode := m1, up_pending := r1\<rparr>" and out: "out = out1"
    using assms(2) False by (simp_all add: unpadding_push_loop)
  from unpad_loop_append [OF False l, of rest] show ?thesis
    using False st' out by (auto simp: settled_def decode_from_def split: if_splits prod.splits)
qed

lemma unpadding_reads_decode:
  "settled st \<Longrightarrow> fst (unpadding_reads st rs) = decode_from st (concat rs)"
proof (induction rs arbitrary: st)
  case Nil
  then show ?case by (auto simp: settled_def decode_from_def)
next
  case (Cons r rs)
  obtain out direct st' where p: "unpadding_push st r = ((out, direct), st')" by (metis prod.collapse)
  obtain outs st'' where "unpadding_reads st' rs = (outs, st'')" by (cases "unpadding_reads st' rs")
  with unpadding_push_decode [OF Cons.prems p, of "concat rs"] Cons.IH [of st']
  show ?case by (simp add: p)
qed

lemma settled_new: "length uuid = 16 \<Longrightarrow> settled (new_unpadding uuid)"
  by (simp add: settled_def new_unpadding_def)

section \<open>Blocks decode to their content\<close>

lemma u16_pair: "\<exists>a b. u16_to_be w = [a, b] \<and> be16 a b = unat w"
proof -
  obtain a b where ab: "u16_to_be w = [a, b]"
    using list_of_two [of "u16_to_be w"] by (metis length_u16_to_be)
  have "u16_from_be a b = w" using u16_from_be_to_be [of w] ab by simp
  then show ?thesis using ab unat_u16_from_be [of a b] by auto
qed

lemma unpad_block:
  assumes "length c < 65536" "cmd \<le> 2"
  shows "unpad_loop uuid PaddingMode (xtls_padding (Some c) cmd None long @ r) =
    (if cmd \<noteq> 0 then (nonempty c @ nonempty r, cmd = 2, RawMode, [])
     else (case unpad_loop uuid PaddingMode r of (out, direct, m, p) \<Rightarrow> (nonempty c @ out, direct, m, p)))"
proof -
  let ?n = "if long \<and> length c < 900 then 900 - length c else 0"
  obtain a b where ab: "u16_to_be (of_nat (length c)) = [a, b]" "be16 a b = length c"
    using u16_pair [of "of_nat (length c)"] assms(1) by (auto simp: unat_of_nat)
  obtain a' b' where ab': "u16_to_be (of_nat ?n) = [a', b']" "be16 a' b' = ?n"
    using u16_pair [of "of_nat ?n"] by (auto simp: unat_of_nat)
  let ?p = "cmd # a # b # a' # b' # c @ replicate ?n 0 @ r"
  have p: "xtls_padding (Some c) cmd None long @ r = ?p"
    using ab(1) ab'(1) unfolding xtls_padding_def Let_def option.case by simp
  have len: "block_len ?p = 5 + length c + ?n" using ab(2) ab'(2) by (simp add: block_len_def)
  have content: "block_content ?p = nonempty c"
    using ab(2) by (simp add: block_content_def block_content_len_def nonempty_def)
  have rest: "drop (block_len ?p) ?p = r"
  proof -
    let ?x = "cmd # a # b # a' # b' # c @ replicate ?n 0"
    have "?p = ?x @ r" "block_len ?p = length ?x" unfolding len by simp_all
    then show ?thesis by (metis append_eq_conv_conj)
  qed
  have "\<not> length ?p < block_len ?p" unfolding len by simp
  moreover have "\<not> 2 < ?p ! 0" using assms(2) by simp
  ultimately show ?thesis
    unfolding p unpad_loop.simps(2) [of uuid ?p] rest content by simp
qed

lemma unpad_first_block:
  assumes "length u = 16"
  shows "unpad_loop u UnknownMode (xtls_padding c cmd (Some u) long @ r)
    = unpad_loop u PaddingMode (xtls_padding (Some (case c of Some x \<Rightarrow> x | None \<Rightarrow> [])) cmd None long @ r)"
  using assms by (simp add: xtls_padding_def Let_def)

section \<open>The uplink state\<close>

lemma filter_tls_uplink [simp]: "uplink (filter_tls bs t) = uplink t"
  by (simp add: filter_tls_def Let_def)

text \<open>Command 0 keeps the padding on; the commands 1 and 2 switch it off.\<close>

lemma command_for_padding:
  assumes "command_for r confirmed t = (d, t')" "padding (uplink t)"
  shows "d_command d = 0 \<and> padding (uplink t')
    \<or> (d_command d = 1 \<or> d_command d = 2) \<and> \<not> padding (uplink t')"
  using assms by (auto simp: command_for_def Let_def split: if_splits)

lemma uplink_raw: "\<not> padding (uplink t) \<Longrightarrow> uplink_reads t rs = concat rs"
  by (induction rs) simp_all

lemma unpad_uplink:
  assumes "\<forall>r \<in> set rs. length r < 65536" "padding (uplink t)"
  shows "concat (fst (unpad_loop u PaddingMode (uplink_reads t rs))) = concat rs"
  using assms
proof (induction rs arbitrary: t)
  case Nil
  then show ?case by (simp add: unpad_loop.simps(2) [of u "[]"])
next
  case (Cons r rs)
  obtain d t' where d: "command_for r False t = (d, t')" by (cases "command_for r False t")
  have bytes: "uplink_reads t (r # rs) = xtls_padding (Some r) (d_command d) None True @ uplink_reads t' rs"
    using Cons.prems(2) d by simp
  have r: "length r < 65536" using Cons.prems(1) by simp
  from command_for_padding [OF d Cons.prems(2)] show ?case
  proof (elim disjE conjE)
    assume c: "d_command d = 0" and "padding (uplink t')"
    then have "concat (fst (unpad_loop u PaddingMode (uplink_reads t' rs))) = concat rs"
      using Cons by simp
    then show ?thesis using unpad_block [OF r, of "d_command d" u True "uplink_reads t' rs"] c bytes
      by (simp split: prod.splits)
  next
    assume c: "d_command d = 1" and "\<not> padding (uplink t')"
    then show ?thesis
      using unpad_block [OF r, of "d_command d" u True "uplink_reads t' rs"] bytes
      by (simp add: uplink_raw)
  next
    assume c: "d_command d = 2" and "\<not> padding (uplink t')"
    then show ?thesis
      using unpad_block [OF r, of "d_command d" u True "uplink_reads t' rs"] bytes
      by (simp add: uplink_raw)
  qed
qed

section \<open>The record reader\<close>

text \<open>
  \<open>RecordLimitedTcp\<close> never reads past the end of a TLS record, so that the bytes behind the record
  are still in the socket when the stream is switched to raw. A poll asks for \<open>room\<close> bytes; \<open>avail\<close>
  is what the socket holds (an empty read is the end of the stream). It yields the bytes read, or
  \<open>None\<close> when it lets the task yield once.
\<close>

record record_reader =
  rr_header :: bytes
  rr_remaining :: "nat option"
  rr_yield :: bool

definition new_record_reader :: record_reader where
  "new_record_reader = \<lparr>rr_header = [], rr_remaining = None, rr_yield = False\<rparr>"

definition record_poll :: "record_reader \<Rightarrow> nat \<Rightarrow> bytes \<Rightarrow> bytes option \<times> record_reader \<times> bytes" where
  "record_poll st room avail =
    (if rr_yield st then (None, st\<lparr>rr_yield := False\<rparr>, avail)
     else if room = 0 then (Some [], st, avail)
     else (let limit = (case rr_remaining st of
               Some n \<Rightarrow> min n room | None \<Rightarrow> min (5 - length (rr_header st)) room);
               got = take (min limit (16 * 1024)) avail;
               left = drop (length got) avail
       in if got = [] then (Some [], st, left)
          else (case rr_remaining st of
              Some n \<Rightarrow>
                (if n - length got = 0
                 then (Some got, \<lparr>rr_header = [], rr_remaining = None, rr_yield = True\<rparr>, left)
                 else (Some got, st\<lparr>rr_remaining := Some (n - length got)\<rparr>, left))
            | None \<Rightarrow>
                (let header = rr_header st @ got
                 in if length header = 5
                    then (let body = be16 (header ! 3) (header ! 4)
                      in if body = 0
                         then (Some got, \<lparr>rr_header = [], rr_remaining = None, rr_yield = True\<rparr>, left)
                         else (Some got, st\<lparr>rr_header := header, rr_remaining := Some body\<rparr>, left))
                    else (Some got, st\<lparr>rr_header := header\<rparr>, left)))))"

text \<open>Polls with the given rooms, until one of them yields.\<close>

fun record_polls :: "record_reader \<Rightarrow> nat list \<Rightarrow> bytes \<Rightarrow> bytes \<times> record_reader \<times> bytes" where
  "record_polls st [] avail = ([], st, avail)"
| "record_polls st (room # rooms) avail =
    (case record_poll st room avail of
       (None, st', left) \<Rightarrow> ([], st', left)
     | (Some got, st', left) \<Rightarrow> (case record_polls st' rooms left of (out, r) \<Rightarrow> (got @ out, r)))"

definition tls_record :: "bytes \<Rightarrow> bool" where
  "tls_record rec \<longleftrightarrow> 5 \<le> length rec \<and> length rec = 5 + be16 (rec ! 3) (rec ! 4)"

text \<open>The state after the bytes \<open>done\<close> of the record \<open>rec\<close>.\<close>

definition reader_at :: "bytes \<Rightarrow> bytes \<Rightarrow> record_reader" where
  "reader_at rec sofar =
    (if length sofar < 5 then \<lparr>rr_header = sofar, rr_remaining = None, rr_yield = False\<rparr>
     else \<lparr>rr_header = take 5 sofar, rr_remaining = Some (length rec - length sofar), rr_yield = False\<rparr>)"

definition record_end :: record_reader where
  "record_end = \<lparr>rr_header = [], rr_remaining = None, rr_yield = True\<rparr>"

lemma record_poll_step:
  assumes "tls_record rec" "rec = sofar @ todo" "todo \<noteq> []" "0 < room"
  shows "\<exists>got todo'. got \<noteq> [] \<and> todo = got @ todo' \<and>
    record_poll (reader_at rec sofar) room (todo @ rest)
      = (Some got, if todo' = [] then record_end else reader_at rec (sofar @ got), todo' @ rest)"
proof (cases "length sofar < 5")
  case True
  let ?limit = "min (min (5 - length sofar) room) (16 * 1024)"
  have n: "0 < ?limit" "?limit \<le> 5 - length sofar" "?limit \<le> length todo"
    using True assms by (auto simp: tls_record_def)
  define got where "got = take ?limit todo"
  have todo: "todo = got @ drop ?limit todo" by (simp add: got_def)
  have len: "length got = ?limit" using n(3) by (simp add: got_def)
  have got: "take ?limit (todo @ rest) = got" "got \<noteq> []" using n assms(3) by (auto simp: got_def)
  have left: "drop (length got) (todo @ rest) = drop ?limit todo @ rest" using len n(3) by simp
  have poll: "record_poll (reader_at rec sofar) room (todo @ rest) =
      (let header = sofar @ got
       in if length header = 5
          then (let body = be16 (header ! 3) (header ! 4)
            in if body = 0
               then (Some got, \<lparr>rr_header = [], rr_remaining = None, rr_yield = True\<rparr>, drop ?limit todo @ rest)
               else (Some got, \<lparr>rr_header = header, rr_remaining = Some body, rr_yield = False\<rparr>, drop ?limit todo @ rest))
          else (Some got, \<lparr>rr_header = header, rr_remaining = None, rr_yield = False\<rparr>, drop ?limit todo @ rest))"
    using True assms(3,4) got left
    by (simp add: record_poll_def reader_at_def Let_def del: take_append drop_append)
  show ?thesis
  proof (cases "length (sofar @ got) = 5")
    case full: True
    have rec: "rec = (sofar @ got) @ drop ?limit todo" using assms(2) todo by simp
    have "rec ! i = (sofar @ got) ! i" if "i < 5" for i
      using that full by (subst rec) (simp only: nth_append if_True)
    then have b: "be16 ((sofar @ got) ! 3) ((sofar @ got) ! 4) = length rec - 5"
      using assms(1) by (simp add: tls_record_def)
    have "length rec = 5 + length (drop ?limit todo)" using full by (subst rec) simp
    then show ?thesis using poll full b got(2) todo
      by (intro exI [of _ got] exI [of _ "drop ?limit todo"]) (simp add: Let_def reader_at_def record_end_def)
  next
    case False
    then have "length (sofar @ got) < 5" using len n(2) True by simp
    moreover from this have "drop ?limit todo \<noteq> []" using assms(1,2) len by (auto simp: tls_record_def)
    ultimately have "record_poll (reader_at rec sofar) room (todo @ rest)
        = (Some got, if drop ?limit todo = [] then record_end else reader_at rec (sofar @ got),
           drop ?limit todo @ rest)"
      using poll by (simp add: Let_def reader_at_def del: drop_eq_Nil)
    then show ?thesis using got(2) todo by blast
  qed
next
  case False
  let ?limit = "min (min (length rec - length sofar) room) (16 * 1024)"
  have n: "0 < ?limit" "?limit \<le> length todo" "length rec - length sofar = length todo"
    using assms by auto
  define got where "got = take ?limit todo"
  have todo: "todo = got @ drop ?limit todo" by (simp add: got_def)
  have len: "length got = ?limit" using n(2) by (simp add: got_def)
  have got: "take ?limit (todo @ rest) = got" "got \<noteq> []" using n assms(3) by (auto simp: got_def)
  have left: "drop (length got) (todo @ rest) = drop ?limit todo @ rest" using len n(2) by simp
  have "record_poll (reader_at rec sofar) room (todo @ rest) =
      (if length rec - length sofar - length got = 0
       then (Some got, \<lparr>rr_header = [], rr_remaining = None, rr_yield = True\<rparr>, drop ?limit todo @ rest)
       else (Some got, \<lparr>rr_header = take 5 sofar,
          rr_remaining = Some (length rec - length sofar - length got), rr_yield = False\<rparr>,
          drop ?limit todo @ rest))"
    using False assms(3,4) got left n(3)
    by (auto simp: record_poll_def reader_at_def Let_def simp del: take_append drop_append)
  moreover have "length rec - length sofar - length got = length (drop ?limit todo)"
    using n(3) len by simp
  moreover have "reader_at rec (sofar @ got)
      = \<lparr>rr_header = take 5 sofar, rr_remaining = Some (length rec - length sofar - length got), rr_yield = False\<rparr>"
    using False by (simp add: reader_at_def)
  ultimately have "record_poll (reader_at rec sofar) room (todo @ rest)
      = (Some got, if drop ?limit todo = [] then record_end else reader_at rec (sofar @ got),
         drop ?limit todo @ rest)"
    by (cases "drop ?limit todo") (simp_all only: record_end_def if_True if_False list.size list.distinct
      add_Suc_right nat.distinct simp_thms)
  then show ?thesis using got(2) todo by blast
qed

lemma record_polls_stay:
  assumes "tls_record rec" "rec = sofar @ todo" "todo \<noteq> []" "\<forall>room \<in> set rooms. 0 < room"
    and "record_polls (reader_at rec sofar) rooms (todo @ rest) = (got, st, left)"
  shows "\<exists>todo'. todo = got @ todo' \<and> left = todo' @ rest \<and> (length todo < length rooms \<longrightarrow> todo' = [])"
  using assms(2-)
proof (induction rooms arbitrary: sofar todo got st left)
  case Nil
  then show ?case by simp
next
  case (Cons room rooms)
  obtain g todo1 where g: "g \<noteq> []" "todo = g @ todo1" and
    poll: "record_poll (reader_at rec sofar) room (todo @ rest)
      = (Some g, if todo1 = [] then record_end else reader_at rec (sofar @ g), todo1 @ rest)"
    using record_poll_step [OF assms(1) Cons.prems(1,2), of room rest] Cons.prems(3) by auto
  show ?case
  proof (cases "todo1 = []")
    case True
    have "record_polls record_end rs bs = ([], st', l) \<Longrightarrow> l = bs" for rs bs st' l
      by (cases rs) (auto simp: record_end_def record_poll_def)
    moreover have "fst (record_polls record_end rs bs) = []" for rs bs
      by (cases rs) (simp_all add: record_end_def record_poll_def)
    ultimately show ?thesis
      using True Cons.prems(4) poll g
      by (cases "record_polls record_end rooms rest") (auto, metis fst_conv, metis fst_conv)
  next
    case False
    obtain out st' l where r: "record_polls (reader_at rec (sofar @ g)) rooms (todo1 @ rest) = (out, st', l)"
      by (metis prod_cases3)
    have "\<exists>todo'. todo1 = out @ todo' \<and> l = todo' @ rest \<and> (length todo1 < length rooms \<longrightarrow> todo' = [])"
      using Cons.IH [OF _ False _ r] Cons.prems(1,3) g by simp
    moreover have "got = g @ out" "left = l" using Cons.prems(4) poll False r by auto
    ultimately show ?thesis using g by (cases g) auto
  qed
qed

section \<open>The response header stripper\<close>

lemma stripper_done: "hs_done st \<Longrightarrow> fst (stripper_reads st rs) = concat rs"
  by (induction rs) (simp_all add: stripper_push_def case_prod_unfold)

definition strip_header :: "bytes \<Rightarrow> bytes" where
  "strip_header p =
    (if length p < 2 then []
     else if p ! 0 \<noteq> 0 then p
     else drop (2 + unat (p ! 1)) p)"

lemma strip_header_append:
  assumes "2 \<le> length p" "p ! 0 = 0 \<Longrightarrow> 2 + unat (p ! 1) \<le> length p"
  shows "strip_header (p @ d) = strip_header p @ d"
proof -
  have "(p @ d) ! 0 = p ! 0" "(p @ d) ! 1 = p ! 1" using assms(1) by (auto simp: nth_append)
  then show ?thesis using assms by (auto simp: strip_header_def)
qed

lemma stripper_reads_strip:
  assumes "\<not> hs_done st" "length (hs_pending st) < 2 \<or>
    hs_pending st ! 0 = 0 \<and> length (hs_pending st) < 2 + unat (hs_pending st ! 1)"
  shows "fst (stripper_reads st rs) = strip_header (hs_pending st @ concat rs)"
  using assms
proof (induction rs arbitrary: st)
  case Nil
  then show ?case by (auto simp: strip_header_def)
next
  case (Cons r rs)
  let ?p = "hs_pending st @ r"
  show ?case
  proof (cases "length ?p < 2 \<or> ?p ! 0 = 0 \<and> length ?p < 2 + unat (?p ! 1)")
    case True
    then have push: "stripper_push st r = (None, st\<lparr>hs_pending := ?p\<rparr>)"
      using Cons.prems(1) by (auto simp: stripper_push_def Let_def)
    have "fst (stripper_reads (st\<lparr>hs_pending := ?p\<rparr>) rs) = strip_header (?p @ concat rs)"
      using Cons.IH [of "st\<lparr>hs_pending := ?p\<rparr>"] Cons.prems(1) True by simp
    then show ?thesis using push by (simp add: case_prod_unfold)
  next
    case False
    then have l: "2 \<le> length ?p" "?p ! 0 = 0 \<Longrightarrow> 2 + unat (?p ! 1) \<le> length ?p" by auto
    then have push: "stripper_push st r = (Some (strip_header ?p), \<lparr>hs_pending = [], hs_done = True\<rparr>)"
      using Cons.prems(1) False by (auto simp: stripper_push_def Let_def strip_header_def)
    have "fst (stripper_reads \<lparr>hs_pending = [], hs_done = True\<rparr> rs) = concat rs"
      by (rule stripper_done) simp
    moreover have "strip_header (?p @ concat rs) = strip_header ?p @ concat rs"
      using strip_header_append l by blast
    ultimately show ?thesis using push by (simp add: case_prod_unfold)
  qed
qed

section \<open>Oversized blocks\<close>

text \<open>The length field of a block has 16 bits, the reads of the uplink up to 128 KiB.\<close>

lemma unpad_zeros: "unpad_loop uuid PaddingMode (replicate n 0) = ([], False, PaddingMode, replicate (n mod 5) 0)"
proof (induction n rule: less_induct)
  case (less n)
  show ?case
  proof (cases "n < 5")
    case True
    then show ?thesis by (simp add: unpad_loop.simps(2) [of uuid "replicate n 0"])
  next
    case False
    have "block_len (replicate n 0) = 5" "block_content (replicate n 0) = []"
      using False by (simp_all add: block_len_def block_content_def block_content_len_def be16_def)
    moreover have "(n - 5) mod 5 = n mod 5" using False by (simp add: le_mod_geq)
    ultimately show ?thesis using False less [of "n - 5"]
      by (simp add: unpad_loop.simps(2) [of uuid "replicate n 0"])
  qed
qed

section \<open>Properties\<close>

text \<open>
  C8: the downlink decoder is independent of the reads. However the bytes of a stream are cut into
  reads, the decoder (whose two code paths, the buffered one and the borrowed one, are proved equal)
  passes on the same bytes as for one read, in the same order.
\<close>

theorem vision_downlink_reads:
  assumes "length uuid = 16"
  shows "fst (unpadding_reads (new_unpadding uuid) reads)
    = concat (fst (unpad_loop uuid UnknownMode (concat reads)))"
  using unpadding_reads_decode [OF settled_new [OF assms], of reads]
  by (simp add: decode_from_def new_unpadding_def)

theorem vision_downlink_reads_witness:
  "fst (unpadding_reads (new_unpadding (replicate 16 7))
      [replicate 10 7, replicate 6 7 @ [1, 0], [2, 0, 1, 65, 66, 0, 9]]) = [65, 66, 9]"
proof -
  let ?reads = "[replicate 10 7, replicate 6 7 @ [1, 0], [2, 0, 1, 65, 66, 0, 9]] :: bytes list"
  have "concat (fst (unpad_loop (replicate 16 7) UnknownMode (concat ?reads))) = [65, 66, 9]" by code_simp
  with vision_downlink_reads [of "replicate 16 7" ?reads] show ?thesis by simp
qed

text \<open>
  The Vision uplink delivers what the client wrote. For every sequence of reads below 64 KiB,
  the decoder recovers from what the bridge writes behind the request exactly the bytes of the first
  payload and of the reads, whatever the traffic filter decides, and wherever padding ends.
\<close>

theorem vision_uplink_delivers:
  assumes "length uuid = 16" "length (case first of Some p \<Rightarrow> p | None \<Rightarrow> []) < 65536"
    and "\<forall>r \<in> set reads. length r < 65536"
  shows "\<exists>block. bridge_uplink request (Some uuid) first reads = request @ block \<and>
    concat (fst (unpad_loop uuid UnknownMode block))
      = (case first of Some p \<Rightarrow> p | None \<Rightarrow> []) @ concat reads"
proof -
  let ?first = "case first of Some p \<Rightarrow> p | None \<Rightarrow> []"
  let ?rest = "uplink_reads new_traffic reads"
  have rest: "concat (fst (unpad_loop uuid PaddingMode ?rest)) = concat reads"
    using assms(3) by (intro unpad_uplink) (simp_all add: new_traffic_def new_link_def)
  have "concat (fst (unpad_loop uuid UnknownMode (xtls_padding first 0 (Some uuid) True @ ?rest)))
      = ?first @ concat reads"
    unfolding unpad_first_block [OF assms(1)]
    using unpad_block [OF assms(2), of 0 uuid True ?rest] rest by (simp split: prod.splits)
  then show ?thesis by (simp add: bridge_uplink_def)
qed

theorem vision_uplink_delivers_witness:
  "\<exists>block. bridge_uplink [1] (Some (replicate 16 7)) (Some [5]) [[0x16, 3, 1, 0, 1, 9], [0x41]] = [1] @ block
     \<and> concat (fst (unpad_loop (replicate 16 7) UnknownMode block)) = [5, 0x16, 3, 1, 0, 1, 9, 0x41]"
  using vision_uplink_delivers [of "replicate 16 7" "Some [5]" "[[0x16, 3, 1, 0, 1, 9], [0x41]]" "[1]"]
  by simp

text \<open>
  A read of 64 KiB or more does not survive the padding. The length of the content is cut to
  16 bits, so for a read of 65536 zero bytes the decoder finds a block without content followed by
  empty blocks, and the client's bytes are gone.
\<close>

theorem vision_oversized_read_lost:
  "concat (fst (unpad_loop uuid PaddingMode (xtls_padding (Some (replicate 65536 0)) 0 None True))) = []"
proof -
  have "u16_to_be (of_nat 65536) = replicate 2 0" by code_simp
  moreover have "u16_to_be (of_nat 0) = replicate 2 0" by code_simp
  moreover have "replicate 5 (0 :: byte) = 0 # replicate 2 0 @ replicate 2 0"
    by (simp add: numeral_eq_Suc)
  ultimately have "xtls_padding (Some (replicate 65536 0)) 0 None True = replicate (5 + 65536) 0"
    unfolding xtls_padding_def Let_def option.case replicate_add by simp
  then show ?thesis unfolding unpad_zeros by (simp add: unpad_zeros)
qed

text \<open>
  The response header is taken off exactly once. However the stream is cut into reads, the
  stripper passes on everything behind the two bytes and the addon they announce, and everything
  when the first byte is not a VLESS version.
\<close>

theorem response_header_stripped:
  "fst (stripper_reads new_stripper reads) = strip_header (concat reads)"
  using stripper_reads_strip [of new_stripper reads] by (simp add: new_stripper_def)

text \<open>
  The record reader stops at the end of the TLS record. For a record followed by anything and
  polls with any positive room, what it has passed on is a prefix of the record and the rest is
  still in the socket; enough polls pass on the whole record and not one byte behind it.
\<close>

theorem record_reader_stops:
  assumes "tls_record rec" "\<forall>room \<in> set rooms. 0 < room"
    and "record_polls new_record_reader rooms (rec @ rest) = (got, st, left)"
  shows "\<exists>todo. rec = got @ todo \<and> left = todo @ rest \<and> (length rec < length rooms \<longrightarrow> got = rec)"
proof -
  have "rec \<noteq> []" using assms(1) by (auto simp: tls_record_def)
  moreover have "new_record_reader = reader_at rec []" by (simp add: new_record_reader_def reader_at_def)
  ultimately show ?thesis using record_polls_stay [OF assms(1), of "[]" rec rooms rest got st left] assms(2,3)
    by auto
qed

theorem record_reader_stops_witness:
  "\<exists>todo. [0x17, 3, 3, 0, 2, 8, 9] = fst (record_polls new_record_reader [3, 9, 1, 4] ([0x17, 3, 3, 0, 2, 8, 9] @ [1])) @ todo"
proof -
  obtain got st left where r:
    "record_polls new_record_reader [3, 9, 1, 4] ([0x17, 3, 3, 0, 2, 8, 9] @ [1]) = (got, st, left)"
    by (metis prod_cases3)
  have "tls_record [0x17, 3, 3, 0, 2, 8, 9]" by code_simp
  from record_reader_stops [OF this _ r] r show ?thesis by auto
qed

text \<open>
  The uplink of the plain bridge announces a switch it does not make. After a TLS handshake
  record seen behind the first payload, a complete application data record of 8 KiB or more is
  marked with command 2 (direct copy); the bridge ignores the decision's \<open>direct\<close> flag and goes on
  writing through the same stream, so the later reads follow unpadded and still encrypted.
\<close>

theorem vision_bridge_sends_direct:
  assumes "VISION_UPLINK_DIRECT_MIN_BYTES \<le> length r" "is_complete_tls_application_data r"
    and "has_prefix r [0x17, 3, 3]"
  shows "uplink_reads new_traffic ([0x16, 3, 3, 0, 1, 0x10] # r # rs)
    = xtls_padding (Some [0x16, 3, 3, 0, 1, 0x10]) 0 None True
      @ xtls_padding (Some r) 2 None True @ concat rs"
proof -
  have p: "\<not> has_prefix r [0x16, 3]" "6 \<le> length r"
    using assms(1,3) by (auto simp: has_prefix_def VISION_UPLINK_DIRECT_MIN_BYTES_def take_Cons' split: if_splits)
      (cases r; auto)+
  have "has_prefix [0x16, 3, 3, 0, 1, 0x10] [0x16, 3]" by code_simp
  then show ?thesis
    using assms p
    by (simp add: command_for_def filter_tls_def is_tls_handshake_def new_traffic_def new_link_def
        VISION_PACKET_FILTER_LIMIT_def Let_def uplink_raw)
qed

lemma complete_tls_replicate:
  assumes "n < 65536"
  shows "is_complete_tls_application_data (0x17 # 3 # 3 # u16_to_be (of_nat n) @ replicate n 0)"
proof -
  have two: "length u = 2 \<Longrightarrow> \<exists>a b. u = [a, b]" for u :: bytes
    by (cases u; cases "tl u") auto
  obtain a b where ab: "u16_to_be (of_nat n) = [a, b]" using two [OF length_u16_to_be] by metis
  then have "be16 a b = n"
    using be16_to_be [of "unat (of_nat n :: u16)"] assms by (simp add: u16_to_be_def unat_of_nat)
  then show ?thesis unfolding is_complete_tls_application_data_def ab
    by (subst complete_records.simps) (simp add: complete_records_end Let_def numeral_eq_Suc)
qed

theorem vision_bridge_sends_direct_witness:
  "uplink_reads new_traffic [[0x16, 3, 3, 0, 1, 0x10],
      0x17 # 3 # 3 # u16_to_be (of_nat 8192) @ replicate 8192 0, [7]]
    = xtls_padding (Some [0x16, 3, 3, 0, 1, 0x10]) 0 None True
      @ xtls_padding (Some (0x17 # 3 # 3 # u16_to_be (of_nat 8192) @ replicate 8192 0)) 2 None True @ [7]"
proof -
  let ?r = "0x17 # 3 # 3 # u16_to_be (of_nat 8192) @ replicate 8192 0"
  have "VISION_UPLINK_DIRECT_MIN_BYTES \<le> length ?r" by (simp add: VISION_UPLINK_DIRECT_MIN_BYTES_def)
  moreover have "has_prefix ?r [0x17, 3, 3]" by (simp add: has_prefix_def)
  ultimately show ?thesis
    using vision_bridge_sends_direct [of ?r "[[7]]"] complete_tls_replicate [of 8192] by simp
qed

end
