(* ===== verification/Address_Codec.thy ===== *)
theory Address_Codec
  imports Kernel_Session
begin

text \<open>
  Most adapters write a target host the same way: a tag byte, then four or sixteen octets when the
  text parses as an IP address, otherwise a length byte and the name; and they read it back from a
  stream. They differ in the three tags and in the errors. This theory states the two routines over
  the tags and proves their round trip once.
\<close>

definition tagged_address :: "'e \<Rightarrow> byte \<Rightarrow> byte \<Rightarrow> byte \<Rightarrow> string \<Rightarrow> ('e, bytes) res" where
  "tagged_address too_long v4 v6 name_tag h =
    (case parse_ipv4 h of
       Some a \<Rightarrow> Ok (v4 # ipv4_octets a)
     | None \<Rightarrow> (case parse_ipv6 h of
         Some a \<Rightarrow> Ok (v6 # ipv6_octets a)
       | None \<Rightarrow> (if 255 < length h then Err too_long
                  else Ok ([name_tag, of_nat (length h)] @ as_bytes h))))"

text \<open>The reader takes the tag and what follows it from the stream; it returns the rest.\<close>

definition read_tagged_host ::
    "'e \<Rightarrow> 'e \<Rightarrow> 'e \<Rightarrow> byte \<Rightarrow> byte \<Rightarrow> byte \<Rightarrow> bytes \<Rightarrow> ('e, string \<times> bytes) res" where
  "read_tagged_host eof not_utf8 unsupported v4 v6 name_tag s =
    rbind (read_exact eof 1 s) (\<lambda>(atyp, s).
      if atyp ! 0 = v4 then
        rbind (read_exact eof 4 s) (\<lambda>(b, s). Ok (show_ipv4 (ipv4_of_octets b), s))
      else if atyp ! 0 = v6 then
        rbind (read_exact eof 16 s) (\<lambda>(b, s). Ok (show_ipv6 (ipv6_of_octets b), s))
      else if atyp ! 0 = name_tag then
        rbind (read_exact eof 1 s) (\<lambda>(n, s).
        rbind (read_exact eof (unat (n ! 0)) s) (\<lambda>(name, s).
        rbind (from_option not_utf8 (from_utf8 name)) (\<lambda>h. Ok (h, s))))
      else Err unsupported)"

text \<open>An address followed by the port in network order.\<close>

definition tagged_target :: "'e \<Rightarrow> byte \<Rightarrow> byte \<Rightarrow> byte \<Rightarrow> target_address \<Rightarrow> ('e, bytes) res" where
  "tagged_target too_long v4 v6 name_tag t =
    rbind (tagged_address too_long v4 v6 name_tag (host t)) (\<lambda>a. Ok (a @ u16_to_be (target_port t)))"

definition read_tagged_target ::
    "'e \<Rightarrow> 'e \<Rightarrow> 'e \<Rightarrow> byte \<Rightarrow> byte \<Rightarrow> byte \<Rightarrow> bytes \<Rightarrow> ('e, target_address \<times> bytes) res" where
  "read_tagged_target eof not_utf8 unsupported v4 v6 name_tag s =
    rbind (read_tagged_host eof not_utf8 unsupported v4 v6 name_tag s) (\<lambda>(h, s).
    rbind (read_exact eof 2 s) (\<lambda>(p, s).
      Ok (\<lparr>host = h, target_port = u16_from_be (p ! 0) (p ! 1)\<rparr>, s)))"

definition canonical_target :: "target_address \<Rightarrow> target_address" where
  "canonical_target t = \<lparr>host = canonical_host (host t), target_port = target_port t\<rparr>"

lemma canonical_target_idem [simp]: "canonical_target (canonical_target t) = canonical_target t"
  by (simp add: canonical_target_def)

lemma tagged_address_total: "length h \<le> 255 \<Longrightarrow> \<exists>bs. tagged_address e v4 v6 name_tag h = Ok bs"
  by (simp add: tagged_address_def split: option.splits)

lemma tagged_address_Cons: "tagged_address e v4 v6 name_tag h = Ok bs \<Longrightarrow> \<exists>tag x. bs = tag # x"
  by (auto simp: tagged_address_def split: option.splits if_splits)

lemma tagged_address_no_panic [simp]: "tagged_address e v4 v6 name_tag h \<noteq> Inl Panic"
  by (simp add: tagged_address_def split: option.splits)

lemma length_tagged_address:
  "tagged_address e v4 v6 name_tag h = Ok bs \<Longrightarrow> 2 \<le> length bs \<and> length bs \<le> 257"
  by (auto simp: tagged_address_def split: option.splits if_splits)

lemma tagged_target_total: "length (host t) \<le> 255 \<Longrightarrow> \<exists>bs. tagged_target e v4 v6 name_tag t = Ok bs"
  using tagged_address_total [of "host t" e v4 v6 name_tag] by (auto simp: tagged_target_def)

lemma length_tagged_target:
  "tagged_target e v4 v6 name_tag t = Ok bs \<Longrightarrow> 4 \<le> length bs \<and> length bs \<le> 259"
  using length_tagged_address [of e v4 v6 name_tag "host t"]
  by (auto simp: tagged_target_def rbind_Inr_iff)

locale address_tags =
  fixes v4 v6 name_tag :: byte
  assumes tags_differ: "v4 \<noteq> v6" "v4 \<noteq> name_tag" "v6 \<noteq> name_tag"
begin

lemma read_host:
  assumes "utf8_valid (as_bytes h)" "tagged_address e v4 v6 name_tag h = Ok bs"
  shows "read_tagged_host eof not_utf8 unsupported v4 v6 name_tag (bs @ r) = Ok (canonical_host h, r)"
proof -
  consider a where "parse_ipv4 h = Some a" | a where "parse_ipv4 h = None" "parse_ipv6 h = Some a"
    | "parse_ipv4 h = None" "parse_ipv6 h = None" by fastforce
  then show ?thesis
  proof cases
    case (1 a)
    then show ?thesis using assms(2)
      by (auto simp: tagged_address_def read_tagged_host_def canonical_host_def
          read_exact_append [of "[_]", simplified])
  next
    case (2 a)
    then show ?thesis using assms(2) tags_differ
      by (auto simp: tagged_address_def read_tagged_host_def canonical_host_def
          read_exact_append [of "[_]", simplified])
  next
    case 3
    then have "length h \<le> 255" and bs: "bs = name_tag # of_nat (length h) # as_bytes h"
      using assms(2) by (auto simp: tagged_address_def split: if_splits)
    moreover have "unat (of_nat (length h) :: byte) = length h"
      using \<open>length h \<le> 255\<close> by (simp add: unat_of_nat)
    ultimately show ?thesis using 3 assms(1) tags_differ
      by (simp add: read_tagged_host_def canonical_host_def read_exact_def)
  qed
qed

lemma read_target:
  assumes "utf8_valid (as_bytes (host t))" "tagged_target e v4 v6 name_tag t = Ok bs"
  shows "read_tagged_target eof not_utf8 unsupported v4 v6 name_tag (bs @ r) = Ok (canonical_target t, r)"
proof -
  obtain a where a: "tagged_address e v4 v6 name_tag (host t) = Ok a" "bs = a @ u16_to_be (target_port t)"
    using assms(2) by (auto simp: tagged_target_def rbind_Inr_iff)
  then show ?thesis
    using read_host [OF assms(1) a(1), of eof not_utf8 unsupported "u16_to_be (target_port t) @ r"]
    by (simp add: read_tagged_target_def canonical_target_def)
qed

end

text \<open>The tags are an interface of their own: an encoder over them is an address codec.\<close>

definition tagged_decode ::
    "'e \<Rightarrow> 'e \<Rightarrow> 'e \<Rightarrow> byte \<Rightarrow> byte \<Rightarrow> byte \<Rightarrow> bytes \<Rightarrow> ('e, string \<times> nat) res" where
  "tagged_decode eof not_utf8 unsupported v4 v6 name_tag bs =
    rbind (read_tagged_host eof not_utf8 unsupported v4 v6 name_tag bs) (\<lambda>(h, r). Ok (h, length bs - length r))"

sublocale address_tags \<subseteq> codec: address_codec "tagged_address e v4 v6 name_tag"
    "tagged_decode eof not_utf8 unsupported v4 v6 name_tag" for e eof not_utf8 unsupported
proof unfold_locales
  show "host_ok h \<Longrightarrow> \<exists>bs. tagged_address e v4 v6 name_tag h = Ok bs" for h
    using tagged_address_total [of h e] by (simp add: host_ok_def)
  show "tagged_address e v4 v6 name_tag h = Ok bs \<Longrightarrow> bs \<noteq> []" for h bs
    by (auto dest: tagged_address_Cons)
  show "utf8_valid (as_bytes h) \<Longrightarrow> tagged_address e v4 v6 name_tag h = Ok bs \<Longrightarrow>
      tagged_decode eof not_utf8 unsupported v4 v6 name_tag (bs @ rest) = Ok (canonical_host h, length bs)"
    for h bs rest
    using read_host [of h e bs eof not_utf8 unsupported rest] by (simp add: tagged_decode_def)
qed

end
