(* ===== verification/Anytls_Codec.thy ===== *)
theory Anytls_Codec
  imports Address_Codec Rust_Lines Vless_Config
begin

text \<open>
  The data of \<open>neoncore-kernel/src/adapter/anytls.rs\<close>: the configuration of a node, the frames of a
  session, the padding scheme and the padded writes, and the packets of UDP over TCP.
  SHA-256 and MD5 are library functions: their results are arguments.
\<close>

section \<open>Configuration\<close>

datatype anytls_error =
    AnytlsEndpoint
  | AnytlsPassword
  | AnytlsFrameTooLarge
  | AnytlsDomainTooLong
  | UotPayloadTooLarge
  | UotDomainTooLong
  | UotAddressType
  | UotNotUtf8
  | AnytlsEof
  | PaddingStopMissing
  | PaddingStopInvalid
  | AnytlsSessionClosed
  | AnytlsWriterClosed
  | AnytlsServerError string
  | AnytlsSniEmpty

definition CMD_WASTE :: byte where "CMD_WASTE = 0"
definition CMD_SYN :: byte where "CMD_SYN = 1"
definition CMD_PUSH :: byte where "CMD_PUSH = 2"
definition CMD_FIN :: byte where "CMD_FIN = 3"
definition CMD_SETTINGS :: byte where "CMD_SETTINGS = 4"
definition CMD_ALERT :: byte where "CMD_ALERT = 5"
definition CMD_UPDATE_PADDING_SCHEME :: byte where "CMD_UPDATE_PADDING_SCHEME = 6"
definition CMD_SYNACK :: byte where "CMD_SYNACK = 7"
definition CMD_HEART_REQUEST :: byte where "CMD_HEART_REQUEST = 8"
definition CMD_HEART_RESPONSE :: byte where "CMD_HEART_RESPONSE = 9"
definition CMD_SERVER_SETTINGS :: byte where "CMD_SERVER_SETTINGS = 10"

lemmas command_defs = CMD_WASTE_def CMD_SYN_def CMD_PUSH_def CMD_FIN_def CMD_SETTINGS_def CMD_ALERT_def
  CMD_UPDATE_PADDING_SCHEME_def CMD_SYNACK_def CMD_HEART_REQUEST_def CMD_HEART_RESPONSE_def
  CMD_SERVER_SETTINGS_def

text \<open>A \<open>Duration\<close> is its number of milliseconds.\<close>

definition DEFAULT_IDLE_SESSION_TIMEOUT :: nat where "DEFAULT_IDLE_SESSION_TIMEOUT = 30000"
definition DEFAULT_MIN_IDLE_SESSIONS :: nat where "DEFAULT_MIN_IDLE_SESSIONS = 0"

definition parse_duration :: "string \<Rightarrow> nat option" where
  "parse_duration value =
    (let value = str_trim value
     in case strip_suffix ''s'' value of
          Some seconds \<Rightarrow> map_option (\<lambda>n. n * 1000) (parse_unsigned (2 ^ 64 - 1) seconds)
        | None \<Rightarrow>
       (case strip_suffix ''ms'' value of
          Some milliseconds \<Rightarrow> parse_unsigned (2 ^ 64 - 1) milliseconds
        | None \<Rightarrow> map_option (\<lambda>n. n * 1000) (parse_unsigned (2 ^ 64 - 1) value)))"

record anytls_config =
  at_server :: string
  at_server_port :: u16
  at_password :: string
  at_sni :: string
  at_insecure :: bool
  at_idle_timeout :: nat
  at_min_idle :: nat

definition anytls_from_node :: "kernel_node \<Rightarrow> (anytls_error, anytls_config) res" where
  "anytls_from_node n =
    (if server n = [] \<or> server_port n = 0 then Err AnytlsEndpoint
     else if user_id n = [] then Err AnytlsPassword
     else Ok \<lparr>at_server = server n, at_server_port = server_port n, at_password = user_id n,
       at_sni = or_default (server n) (parameter n ''sni''),
       at_insecure = (case first_parameter n [''insecure'', ''skip-cert-verify''] of
           Some v \<Rightarrow> v \<in> {''1'', ''true'', ''yes''} | None \<Rightarrow> False),
       at_idle_timeout = or_default DEFAULT_IDLE_SESSION_TIMEOUT
         (Option.bind (first_parameter n [''idle_session_timeout'', ''idle-session-timeout'']) parse_duration),
       at_min_idle = or_default DEFAULT_MIN_IDLE_SESSIONS
         (Option.bind (first_parameter n [''min_idle_session'', ''min-idle-session''])
           (parse_unsigned (2 ^ 64 - 1)))\<rparr>)"

definition anytls_cache_key :: "anytls_config \<Rightarrow> string" where
  "anytls_cache_key c = at_server c @ '':'' @ show_nat (unat (at_server_port c)) @ ''|'' @ at_sni c @ ''|''
    @ at_password c @ ''|'' @ (if at_insecure c then ''true'' else ''false'')"

section \<open>Frames\<close>

record frame =
  f_cmd :: byte
  f_stream :: u32
  f_data :: bytes

definition HEADER_LEN :: nat where "HEADER_LEN = 7"

definition append_frame :: "bytes \<Rightarrow> byte \<Rightarrow> u32 \<Rightarrow> bytes \<Rightarrow> (anytls_error, bytes) res" where
  "append_frame out cmd sid bs =
    (if 65535 < length bs then Err AnytlsFrameTooLarge
     else Ok (out @ [cmd] @ to_be 4 (unat sid) @ to_be 2 (length bs) @ bs))"

definition decode_frame :: "bytes \<Rightarrow> (frame \<times> bytes) option" where
  "decode_frame buffer =
    (if length buffer < HEADER_LEN then None
     else (let data_len = be16 (buffer ! 5) (buffer ! 6)
       in if length buffer < HEADER_LEN + data_len then None
          else Some (\<lparr>f_cmd = buffer ! 0, f_stream = of_nat (be_nat (take 4 (drop 1 buffer))),
                     f_data = take data_len (drop HEADER_LEN buffer)\<rparr>,
                   drop (HEADER_LEN + data_len) buffer)))"

lemma decode_frame_shrinks: "decode_frame b = Some (f, r) \<Longrightarrow> length r < length b"
  by (auto simp: decode_frame_def Let_def HEADER_LEN_def split: if_splits)

text \<open>The loop \<open>while let Some(frame) = decode_frame(&mut buffer)\<close> of \<open>read_loop\<close>.\<close>

function decode_frames :: "bytes \<Rightarrow> frame list \<times> bytes" where
  "decode_frames b = (case decode_frame b of
      None \<Rightarrow> ([], b)
    | Some (f, r) \<Rightarrow> (case decode_frames r of (fs, p) \<Rightarrow> (f # fs, p)))"
  by auto
termination by (relation "measure length") (auto dest: decode_frame_shrinks)

declare decode_frames.simps [simp del]

section \<open>Padding\<close>

datatype padding_size = PadPayload nat | PadCheck

record padding_factory =
  pf_md5 :: string
  pf_stop :: u32
  pf_entries :: "padding_size list list"

definition DEFAULT_PADDING_SCHEME :: string where
  "DEFAULT_PADDING_SCHEME = ''stop=8'' @ [CHR 0x0A] @ ''0=30-30'' @ [CHR 0x0A] @ ''1=100-400'' @ [CHR 0x0A]
    @ ''2=400-500,c,500-1000,c,500-1000,c,500-1000,c,500-1000'' @ [CHR 0x0A] @ ''3=9-9,500-1000'' @ [CHR 0x0A]
    @ ''4=500-1000'' @ [CHR 0x0A] @ ''5=500-1000'' @ [CHR 0x0A] @ ''6=500-1000'' @ [CHR 0x0A] @ ''7=500-1000''"

text \<open>
  The sizes of one line. Every part draws at most one random number; \<open>draw k\<close> is the number the
  generator gives to the \<open>k\<close>th part, and \<open>gen_range(low..high)\<close> reduces it to the range.
\<close>

definition gen_range :: "nat \<Rightarrow> nat \<Rightarrow> nat \<Rightarrow> nat" where
  "gen_range low high x = low + x mod (high - low)"

definition padding_part :: "nat \<Rightarrow> string \<Rightarrow> padding_size list" where
  "padding_part x part =
    (if part = ''c'' then [PadCheck]
     else (case split_once (CHR ''-'') part of
       None \<Rightarrow> []
     | Some (a, b) \<Rightarrow>
         (case (parse_unsigned (2 ^ 64 - 1) a, parse_unsigned (2 ^ 64 - 1) b) of
            (Some m, Some n) \<Rightarrow>
              (if m = 0 \<or> n = 0 then []
               else (let low = min m n; high = max m n
                 in [PadPayload (if low = high then low else gen_range low high x)]))
          | _ \<Rightarrow> [])))"

fun padding_parts :: "(nat \<Rightarrow> nat) \<Rightarrow> nat \<Rightarrow> string list \<Rightarrow> padding_size list" where
  "padding_parts draw k [] = []"
| "padding_parts draw k (p # ps) = padding_part (draw k) (str_trim p) @ padding_parts draw (Suc k) ps"

definition parse_padding_sizes :: "(nat \<Rightarrow> nat) \<Rightarrow> string \<Rightarrow> padding_size list" where
  "parse_padding_sizes draw value = padding_parts draw 0 (str_split '','' value)"

text \<open>
  \<open>entries.resize(index + 1, ..)\<close> panics when the size of the vector overflows: an entry is a
  vector of three machine words.
\<close>

definition MAX_ENTRIES :: nat where "MAX_ENTRIES = (2 ^ 63 - 1) div 24"

fun padding_lines :: "(nat \<Rightarrow> nat \<Rightarrow> nat) \<Rightarrow> nat \<Rightarrow> string list \<Rightarrow> u32 option \<Rightarrow> padding_size list list
    \<Rightarrow> (anytls_error, u32 option \<times> padding_size list list) res" where
  "padding_lines draw k [] stop es = Ok (stop, es)"
| "padding_lines draw k (l # ls) stop es =
    (case split_once (CHR ''='') (str_trim l) of
       None \<Rightarrow> padding_lines draw (Suc k) ls stop es
     | Some (key, value) \<Rightarrow>
         (if key = ''stop'' then
            rbind (from_option PaddingStopInvalid (parse_unsigned (2 ^ 32 - 1) value)) (\<lambda>n.
              padding_lines draw (Suc k) ls (Some (of_nat n)) es)
          else (case parse_unsigned (2 ^ 64 - 1) key of
              None \<Rightarrow> padding_lines draw (Suc k) ls stop es
            | Some index \<Rightarrow>
                (if MAX_ENTRIES \<le> index then Inl Panic
                 else (let es' = (if length es \<le> index then es @ replicate (index + 1 - length es) [] else es)
                   in padding_lines draw (Suc k) ls stop
                        (es'[index := parse_padding_sizes (draw k) value]))))))"

definition padding_new :: "(bytes \<Rightarrow> string) \<Rightarrow> (nat \<Rightarrow> nat \<Rightarrow> nat) \<Rightarrow> bytes
    \<Rightarrow> (anytls_error, padding_factory) res" where
  "padding_new md5 draw raw =
    rbind (padding_lines draw 0 (str_lines (from_utf8_lossy raw)) None (replicate 32 [])) (\<lambda>(stop, es).
    rbind (from_option PaddingStopMissing stop) (\<lambda>s.
      Ok \<lparr>pf_md5 = md5 raw, pf_stop = s, pf_entries = es\<rparr>))"

definition padding_sizes :: "padding_factory \<Rightarrow> u32 \<Rightarrow> padding_size list" where
  "padding_sizes p packet =
    (if unat packet < length (pf_entries p) then pf_entries p ! unat packet else [])"

text \<open>
  \<open>write_with_padding\<close>: the writes it makes, and what is left of the buffer (or the error of a
  padding frame that is too large). A break leaves the loop, a check with bytes left goes on.
\<close>

fun pad_writes :: "padding_size list \<Rightarrow> bytes \<Rightarrow> bytes list \<times> (anytls_error, bytes) res" where
  "pad_writes [] buffer = ([], Ok buffer)"
| "pad_writes (PadCheck # ss) buffer =
    (if buffer = [] then ([], Ok []) else pad_writes ss buffer)"
| "pad_writes (PadPayload n # ss) buffer =
    (if n < length buffer then
       (case pad_writes ss (drop n buffer) of (ws, r) \<Rightarrow> (take n buffer # ws, r))
     else if buffer \<noteq> [] then
       (let padding_len = n - (length buffer + HEADER_LEN);
            padded = (if 0 < padding_len
              then buffer @ [CMD_WASTE] @ to_be 4 0 @ to_be 2 padding_len @ replicate padding_len 0
              else buffer)
        in case pad_writes ss [] of (ws, r) \<Rightarrow> (padded # ws, r))
     else (case append_frame [] CMD_WASTE 0 (replicate n 0) of
         Inl e \<Rightarrow> ([], Inl e)
       | Inr waste \<Rightarrow> (case pad_writes ss [] of (ws, r) \<Rightarrow> (waste # ws, r))))"

definition write_with_padding :: "padding_factory \<Rightarrow> u32 \<Rightarrow> bytes
    \<Rightarrow> bytes list \<times> (anytls_error, unit) res" where
  "write_with_padding p packet buffer =
    (case (if packet < pf_stop p then pad_writes (padding_sizes p packet) buffer else ([], Ok buffer)) of
       (ws, Inl e) \<Rightarrow> (ws, Inl e)
     | (ws, Inr r) \<Rightarrow> ((if r = [] then ws else ws @ [r]), Ok ()))"

section \<open>The session's first packets\<close>

definition authentication :: "bytes \<Rightarrow> bytes" where
  "authentication password_hash = password_hash @ u16_to_be 30 @ replicate 30 0"

definition settings_text :: "padding_factory \<Rightarrow> string" where
  "settings_text p = ''v=2'' @ [CHR 0x0A] @ ''client=neoncore/0.1.0'' @ [CHR 0x0A] @ ''padding-md5='' @ pf_md5 p"

definition encode_socks_address :: "target_address \<Rightarrow> (anytls_error, bytes) res" where
  "encode_socks_address t = tagged_target AnytlsDomainTooLong 1 4 3 t"

section \<open>UDP over TCP\<close>

definition encode_uot_address :: "target_address \<Rightarrow> (anytls_error, bytes) res" where
  "encode_uot_address t = tagged_target UotDomainTooLong 0 1 2 t"

definition encode_uot_packet :: "target_address \<Rightarrow> bytes \<Rightarrow> (anytls_error, bytes) res" where
  "encode_uot_packet t payload =
    (if 65535 < length payload then Err UotPayloadTooLarge
     else rbind (encode_uot_address t) (\<lambda>a. Ok (a @ to_be 2 (length payload) @ payload)))"

definition read_uot_address :: "bytes \<Rightarrow> (anytls_error, target_address \<times> bytes) res" where
  "read_uot_address s = read_tagged_target AnytlsEof UotNotUtf8 UotAddressType 0 1 2 s"

definition read_uot_packet :: "bool \<Rightarrow> bytes \<Rightarrow> (anytls_error, (target_address option \<times> bytes) \<times> bytes) res" where
  "read_uot_packet is_connect s =
    rbind (if is_connect then Ok (None, s)
           else rbind (read_uot_address s) (\<lambda>(t, s). Ok (Some t, s))) (\<lambda>(destination, s).
    rbind (read_exact AnytlsEof 2 s) (\<lambda>(len, s).
    rbind (read_exact AnytlsEof (be16 (len ! 0) (len ! 1)) s) (\<lambda>(payload, s).
      Ok ((destination, payload), s))))"

section \<open>Frames decode to what was encoded\<close>

text \<open>A whole frame, as the code appends it.\<close>

definition frame_bytes :: "frame \<Rightarrow> bytes" where
  "frame_bytes f = [f_cmd f] @ to_be 4 (unat (f_stream f)) @ to_be 2 (length (f_data f)) @ f_data f"

lemma append_frame_Ok_iff:
  "append_frame out cmd sid bs = Ok b \<longleftrightarrow>
    length bs \<le> 65535 \<and> b = out @ frame_bytes \<lparr>f_cmd = cmd, f_stream = sid, f_data = bs\<rparr>"
  by (auto simp: append_frame_def frame_bytes_def)

lemma decode_frame_bytes:
  assumes "length (f_data f) \<le> 65535"
  shows "decode_frame (frame_bytes f @ r) = Some (f, r)"
proof -
  obtain s0 s1 s2 s3 where s: "to_be 4 (unat (f_stream f)) = [s0, s1, s2, s3]"
    using list_of_four [of "to_be 4 (unat (f_stream f))"] by (metis length_to_be)
  have "be_nat [s0, s1, s2, s3] = unat (f_stream f)"
    using be_nat_to_be_small [of "unat (f_stream f)" 4] unsigned_less [of "f_stream f", where 'a = nat]
    by (simp add: s)
  moreover obtain l0 l1 where l: "to_be 2 (length (f_data f)) = [l0, l1]"
    using list_of_two [of "to_be 2 (length (f_data f))"] by (metis length_to_be)
  have "be16 l0 l1 = length (f_data f)"
    using be16_to_be [of "length (f_data f)"] assms by (simp add: l)
  ultimately show ?thesis using s l
    by (simp add: decode_frame_def frame_bytes_def HEADER_LEN_def Let_def eval_nat_numeral)
qed

definition frame_take :: "bytes \<Rightarrow> (frame list \<times> bytes) option" where
  "frame_take b = map_option (\<lambda>(f, r). ([f], r)) (decode_frame b)"

lemma decode_frame_local: "decode_frame b = Some (f, r) \<Longrightarrow> decode_frame (b @ d) = Some (f, r @ d)"
  by (auto simp: decode_frame_def Let_def HEADER_LEN_def nth_append split: if_splits)

interpretation anytls: frame_decoder frame_take decode_frames
proof unfold_locales
  show "frame_take b = Some (out, r) \<Longrightarrow> length r < length b" for b out r
    by (auto simp: frame_take_def dest: decode_frame_shrinks)
  show "frame_take b = Some (out, r) \<Longrightarrow> frame_take (b @ d) = Some (out, r @ d)" for b out r d
    by (auto simp: frame_take_def dest: decode_frame_local)
  show "decode_frames b = (case frame_take b of None \<Rightarrow> ([], b)
      | Some (out, r) \<Rightarrow> (case decode_frames r of (outs, p) \<Rightarrow> (out @ outs, p)))" for b
    by (subst decode_frames.simps) (auto simp: frame_take_def split: option.splits prod.splits)
qed

lemma frame_take_bytes:
  "length (f_data f) \<le> 65535 \<Longrightarrow> frame_take (frame_bytes f @ r) = Some ([f], r)"
  by (simp add: frame_take_def decode_frame_bytes)

lemma decode_frames_concat:
  assumes "\<forall>f \<in> set fs. length (f_data f) \<le> 65535"
  shows "decode_frames (concat (map frame_bytes fs)) = (fs, [])"
proof -
  have "frame_take [] = None" by (simp add: frame_take_def decode_frame_def HEADER_LEN_def)
  then have "decode_frames (concat (map fst (map (\<lambda>f. (frame_bytes f, [f])) fs)) @ [])
      = (concat (map snd (map (\<lambda>f. (frame_bytes f, [f])) fs)), [])"
    using assms by (intro anytls.drain_frames) (auto simp: frame_take_bytes)
  then show ?thesis by (simp add: comp_def)
qed

section \<open>Padding adds waste frames only\<close>

definition waste_frame :: "nat \<Rightarrow> frame" where
  "waste_frame n = \<lparr>f_cmd = CMD_WASTE, f_stream = 0, f_data = replicate n 0\<rparr>"

lemma waste_bytes: "frame_bytes (waste_frame n) = [CMD_WASTE] @ to_be 4 0 @ to_be 2 n @ replicate n 0"
  by (simp add: frame_bytes_def waste_frame_def)

text \<open>Sizes that fit the length field of a frame.\<close>

fun size_fits :: "padding_size \<Rightarrow> bool" where
  "size_fits (PadPayload n) = (n \<le> 65535)"
| "size_fits PadCheck = True"

lemma pad_writes_waste:
  assumes "list_all size_fits ss" "pad_writes ss buffer = (ws, r)"
  shows "\<exists>left wastes. r = Ok left \<and> concat ws @ left = buffer @ concat (map (\<lambda>n. frame_bytes (waste_frame n)) wastes)
    \<and> list_all (\<lambda>n. n \<le> 65535) wastes"
  using assms
proof (induction ss buffer arbitrary: ws r rule: pad_writes.induct)
  case (1 buffer)
  then show ?case by (intro exI [of _ buffer] exI [of _ "[]"]) simp
next
  case (2 ss buffer)
  show ?case
  proof (cases "buffer = []")
    case True
    then show ?thesis using 2 by (intro exI [of _ "[]"]) simp
  qed (use 2 in simp)
next
  case (3 n ss buffer)
  consider "n < length buffer" | "\<not> n < length buffer" "buffer \<noteq> []" | "buffer = []" by blast
  then show ?case
  proof cases
    case 1
    obtain ws' r' where p: "pad_writes ss (drop n buffer) = (ws', r')" by (cases "pad_writes ss (drop n buffer)")
    obtain left wastes where "r' = Ok left"
      "concat ws' @ left = drop n buffer @ concat (map (\<lambda>n. frame_bytes (waste_frame n)) wastes)"
      "list_all (\<lambda>n. n \<le> 65535) wastes"
      using "3.IH"(1) [OF 1 _ p] "3.prems"(1) by auto
    moreover have "take n buffer @ drop n buffer @ xs = buffer @ xs" for xs
      by (simp flip: append_assoc)
    ultimately show ?thesis using "3.prems"(2) 1 p
      by (intro exI [of _ left] exI [of _ wastes]) auto
  next
    case 2
    let ?n = "n - (length buffer + HEADER_LEN)"
    obtain ws' r' where p: "pad_writes ss [] = (ws', r')" by (cases "pad_writes ss []")
    obtain left wastes where h: "r' = Ok left"
      "concat ws' @ left = concat (map (\<lambda>n. frame_bytes (waste_frame n)) wastes)"
      "list_all (\<lambda>n. n \<le> 65535) wastes"
      using "3.IH"(2) [OF 2(1) 2(2) refl refl _ p] "3.prems"(1) by auto
    show ?thesis
    proof (cases "0 < ?n")
      case True
      then show ?thesis using "3.prems" 2 p h
        by (intro exI [of _ left] exI [of _ "?n # wastes"]) (auto simp: Let_def waste_bytes)
    next
      case False
      then show ?thesis using "3.prems" 2 p h
        by (intro exI [of _ left] exI [of _ wastes]) (auto simp: Let_def)
    qed
  next
    case 3
    have "append_frame [] CMD_WASTE 0 (replicate n 0) = Ok (frame_bytes (waste_frame n))"
      using "3.prems"(1) by (simp add: append_frame_Ok_iff waste_frame_def)
    moreover obtain ws' r' where p: "pad_writes ss [] = (ws', r')" by (cases "pad_writes ss []")
    moreover obtain left wastes where "r' = Ok left"
      "concat ws' @ left = concat (map (\<lambda>n. frame_bytes (waste_frame n)) wastes)"
      "list_all (\<lambda>n. n \<le> 65535) wastes"
      using "3.IH"(3) [OF _ _ calculation(1) _ p] 3 "3.prems"(1) by auto
    ultimately show ?thesis using "3.prems" 3
      by (intro exI [of _ left] exI [of _ "n # wastes"]) auto
  qed
qed

lemma write_with_padding_waste:
  assumes "list_all size_fits (padding_sizes p packet)" "write_with_padding p packet buffer = (ws, r)"
  shows "\<exists>wastes. r = Ok () \<and> concat ws = buffer @ concat (map (\<lambda>n. frame_bytes (waste_frame n)) wastes)
    \<and> list_all (\<lambda>n. n \<le> 65535) wastes"
proof (cases "packet < pf_stop p")
  case True
  obtain ws1 r1 where p: "pad_writes (padding_sizes p packet) buffer = (ws1, r1)"
    by (cases "pad_writes (padding_sizes p packet) buffer")
  from pad_writes_waste [OF assms(1) p] obtain left wastes where "r1 = Ok left"
    "concat ws1 @ left = buffer @ concat (map (\<lambda>n. frame_bytes (waste_frame n)) wastes)"
    "list_all (\<lambda>n. n \<le> 65535) wastes" by blast
  then show ?thesis using assms(2) True p
    by (intro exI [of _ wastes]) (auto simp: write_with_padding_def split: if_splits)
next
  case False
  then show ?thesis using assms(2)
    by (intro exI [of _ "[]"]) (auto simp: write_with_padding_def split: if_splits)
qed

section \<open>Packets of UDP over TCP\<close>

interpretation uot_tags: address_tags 0 1 2
  by unfold_locales auto

interpretation socks_tags: address_tags 1 4 3
  by unfold_locales auto

lemma read_encoded_uot:
  assumes "utf8_valid (as_bytes (host t))" "encode_uot_packet t payload = Ok bs"
  shows "read_uot_packet False (bs @ r) = Ok ((Some (canonical_target t), payload), r)"
proof -
  obtain a where a: "encode_uot_address t = Ok a" and bs: "bs = a @ to_be 2 (length payload) @ payload"
    and l: "length payload \<le> 65535"
    using assms(2) by (auto simp: encode_uot_packet_def rbind_Inr_iff split: if_splits)
  have "read_uot_address (a @ x) = Ok (canonical_target t, x)" for x
    using uot_tags.read_target [OF assms(1) a [unfolded encode_uot_address_def]]
    by (simp add: read_uot_address_def)
  moreover have "be16 (to_be 2 (length payload) ! 0) (to_be 2 (length payload) ! Suc 0) = length payload"
    using l by (simp add: be16_to_be)
  ultimately show ?thesis unfolding read_uot_packet_def bs by simp
qed

section \<open>Properties\<close>

text \<open>
  C17: Padding never changes what the peer receives. For frames within the 16-bit length, a scheme
  whose sizes fit that length, any packet counter and any way the written bytes are cut into reads,
  the write succeeds and the peer decodes exactly the frames that were written, apart from waste
  frames, with no byte left over.
\<close>

theorem anytls_padding_transparent:
  assumes "\<forall>f \<in> set fs. length (f_data f) \<le> 65535" "list_all size_fits (padding_sizes p packet)"
    and "write_with_padding p packet (concat (map frame_bytes fs)) = (ws, r)" "concat reads = concat ws"
  shows "r = Ok () \<and> (\<exists>out. feed_all decode_frames [] reads = (out, [])
    \<and> filter (\<lambda>f. f_cmd f \<noteq> CMD_WASTE) out = filter (\<lambda>f. f_cmd f \<noteq> CMD_WASTE) fs)"
proof -
  obtain wastes where r: "r = Ok ()" and w: "list_all (\<lambda>n. n \<le> 65535) wastes"
    and ws: "concat ws = concat (map frame_bytes (fs @ map waste_frame wastes))"
    using write_with_padding_waste [OF assms(2,3)] by (auto simp: comp_def)
  have "\<forall>f \<in> set (fs @ map waste_frame wastes). length (f_data f) \<le> 65535"
    using assms(1) w by (auto simp: list_all_iff waste_frame_def)
  then have "decode_frames (concat reads) = (fs @ map waste_frame wastes, [])"
    unfolding assms(4) ws by (rule decode_frames_concat)
  moreover have "feed_all decode_frames [] reads = decode_frames ([] @ concat reads)"
    by (rule anytls.feed_concat) (simp add: frame_take_def decode_frame_def HEADER_LEN_def)
  ultimately show ?thesis using r by (simp add: waste_frame_def filter_empty_conv)
qed

theorem anytls_padding_transparent_witness:
  "\<exists>out. feed_all decode_frames [] [[2, 0, 0, 0, 9, 0, 1], [77, 0, 0], [0, 0, 0, 0, 2, 0, 0, 0, 0, 0, 0, 0, 0, 1, 0]]
      = (out, []) \<and> filter (\<lambda>f. f_cmd f \<noteq> CMD_WASTE) out = [\<lparr>f_cmd = 2, f_stream = 9, f_data = [77]\<rparr>]"
proof -
  let ?p = "\<lparr>pf_md5 = [], pf_stop = 8, pf_entries = [[PadPayload 17, PadCheck, PadPayload 1]]\<rparr>"
  let ?fs = "[\<lparr>f_cmd = 2, f_stream = 9, f_data = [77]\<rparr>]"
  let ?p' = "\<lparr>pf_md5 = [], pf_stop = 8, pf_entries = [[PadPayload 17, PadPayload 1]]\<rparr>"
  have w: "write_with_padding ?p' 0 (concat (map frame_bytes ?fs))
      = ([[2, 0, 0, 0, 9, 0, 1, 77, 0, 0, 0, 0, 0, 0, 2, 0, 0], [0, 0, 0, 0, 0, 0, 1, 0]], Ok ())"
    by code_simp
  show ?thesis
    using anytls_padding_transparent [of ?fs ?p' 0, OF _ _ w,
        of "[[2, 0, 0, 0, 9, 0, 1], [77, 0, 0], [0, 0, 0, 0, 2, 0, 0, 0, 0, 0, 0, 0, 0, 1, 0]]"]
    by (simp add: padding_sizes_def CMD_WASTE_def)
qed

text \<open>
  A packet of UDP over TCP reads back as it was sent. For every target whose name is text of at
  most 255 bytes and every payload below 64 KiB the encoder succeeds, and the reader takes exactly
  the packet off the stream, with the target (an IPv6 address in canonical form) and the payload.
\<close>

theorem anytls_uot_roundtrip:
  assumes "host_ok (host t)" "length payload \<le> 65535"
  shows "\<exists>bs. encode_uot_packet t payload = Ok bs
    \<and> read_uot_packet False (bs @ rest) = Ok ((Some (canonical_target t), payload), rest)"
proof -
  obtain a where "encode_uot_address t = Ok a"
    using tagged_target_total [of t UotDomainTooLong 0 1 2] assms(1)
    by (auto simp: encode_uot_address_def host_ok_def)
  then obtain bs where "encode_uot_packet t payload = Ok bs"
    using assms(2) by (auto simp: encode_uot_packet_def)
  then show ?thesis using read_encoded_uot assms(1) by (auto simp: host_ok_def)
qed

theorem anytls_uot_roundtrip_witness:
  "\<exists>bs. encode_uot_packet \<lparr>host = ''ab'', target_port = 53\<rparr> [1, 2] = Ok bs
    \<and> read_uot_packet False (bs @ [9]) = Ok ((Some (canonical_target \<lparr>host = ''ab'', target_port = 53\<rparr>), [1, 2]), [9])"
proof -
  have "host_ok (host \<lparr>host = ''ab'', target_port = 53\<rparr>)" by code_simp
  from anytls_uot_roundtrip [OF this, of "[1, 2]" "[9]"] show ?thesis by simp
qed

text \<open>
  A timeout in milliseconds is never understood. A text that ends in \<open>ms\<close> also ends in \<open>s\<close>, which
  is tried first; the number before it then ends in \<open>m\<close> and does not parse, so the setting falls
  back to the default.
\<close>

theorem anytls_milliseconds_rejected:
  assumes "str_trim value = digits @ ''ms''"
  shows "parse_duration value = None"
proof -
  have "strip_suffix ''s'' (digits @ ''ms'') = Some (digits @ ''m'')"
    by (simp add: strip_suffix_def ends_with_def)
  moreover have "parse_unsigned m (digits @ ''m'') = None" for m
    by (cases digits) (auto simp: parse_unsigned_def Let_def is_digit_char_def to_digit_def)
  ultimately show ?thesis by (simp add: parse_duration_def assms)
qed

theorem anytls_milliseconds_rejected_witness: "parse_duration ''500ms'' = None"
proof -
  have "str_trim ''500ms'' = ''500'' @ ''ms''" by code_simp
  then show ?thesis by (rule anytls_milliseconds_rejected)
qed

text \<open>
  The server's padding scheme can stop the program. A scheme sent by the server whose first line
  names the largest machine number as its packet makes \<open>PaddingFactory::new\<close> panic (the size of the
  table overflows), whatever follows it.
\<close>

theorem anytls_scheme_index_panics:
  "padding_new md5 draw (as_bytes (''18446744073709551615=1-1'' @ [CHR 0x0A])) = Inl Panic"
proof -
  have lines: "str_lines (from_utf8_lossy (as_bytes (''18446744073709551615=1-1'' @ [CHR 0x0A])))
      = [''18446744073709551615=1-1'']"
    by code_simp
  have 1: "split_once (CHR ''='') (str_trim ''18446744073709551615=1-1'') = Some (''18446744073709551615'', ''1-1'')"
    by code_simp
  have 2: "parse_unsigned (2 ^ 64 - 1) ''18446744073709551615'' = Some 18446744073709551615"
    by code_simp
  have 3: "''18446744073709551615'' \<noteq> ''stop''" by simp
  have 4: "MAX_ENTRIES \<le> 18446744073709551615" by (simp add: MAX_ENTRIES_def)
  have panic: "padding_lines draw 0 [''18446744073709551615=1-1''] None es = Inl Panic" for es
    by (simp only: padding_lines.simps(2) 1 2 3 4 option.case prod.case if_False if_True)
  show ?thesis unfolding padding_new_def lines panic by simp
qed

end
