(* ===== verification/Anytls_Session.thy ===== *)
theory Anytls_Session
  imports Anytls_Codec Packet_Session
begin

text \<open>
  The AnyTLS session of \<open>neoncore-kernel/src/adapter/anytls.rs\<close>: many streams over one connection.
  The state is that of \<open>AnyTlsSession\<close> with the queue of its writer; every operation runs under the
  locks of the maps it touches, so a run is a sequence of operations. What the reader of a stream
  and the receiver of a SYNACK observe are events on numbered channels.
\<close>

section \<open>State\<close>

datatype session_write = WriteRaw bytes | WriteFrames bytes | WriteFrame byte u32 bytes | WriteClose

datatype stream_event = StreamData bytes | StreamEnd | SynAck "string option" | SynAckDropped

type_synonym channel_event = "nat \<times> stream_event"

record anytls_session =
  sn_streams :: "(u32 \<times> nat) list"
  sn_synacks :: "(u32 \<times> nat) list"
  sn_next_id :: u32
  sn_padding :: padding_factory
  sn_counter :: u32
  sn_closed :: bool
  sn_queue :: "session_write list"
  sn_writing :: bool

definition new_session :: "padding_factory \<Rightarrow> anytls_session" where
  "new_session p = \<lparr>sn_streams = [], sn_synacks = [], sn_next_id = 1, sn_padding = p, sn_counter = 1,
     sn_closed = False, sn_queue = [], sn_writing = True\<rparr>"

text \<open>\<open>write_tx.send\<close> fails once the writer has dropped its end.\<close>

definition queue_write :: "session_write \<Rightarrow> anytls_session \<Rightarrow> bool \<times> anytls_session" where
  "queue_write w st = (if sn_writing st then (True, st\<lparr>sn_queue := sn_queue st @ [w]\<rparr>) else (False, st))"

text \<open>Inserting into a map drops the sender that was there, removing one drops it.\<close>

definition ended :: "u32 \<Rightarrow> (u32 \<times> nat) list \<Rightarrow> stream_event \<Rightarrow> channel_event list" where
  "ended sid m ev = (case map_of m sid of Some ch \<Rightarrow> [(ch, ev)] | None \<Rightarrow> [])"

section \<open>Operations\<close>

text \<open>\<open>AnyTlsSession::open_stream\<close>: \<open>ch\<close> numbers the two channels it creates.\<close>

definition open_stream :: "nat \<Rightarrow> target_address \<Rightarrow> anytls_session
    \<Rightarrow> (anytls_error, u32) res \<times> anytls_session \<times> channel_event list" where
  "open_stream ch t st =
    (if sn_closed st then (Err AnytlsSessionClosed, st, [])
     else (let sid = sn_next_id st;
               ev = ended sid (sn_streams st) StreamEnd @ ended sid (sn_synacks st) SynAckDropped;
               st1 = st\<lparr>sn_next_id := sid + 1, sn_streams := AList.update sid ch (sn_streams st),
                        sn_synacks := AList.update sid ch (sn_synacks st)\<rparr>
       in case rbind (append_frame [] CMD_SYN sid []) (\<lambda>initial.
            rbind (encode_socks_address t) (\<lambda>destination. append_frame initial CMD_PUSH sid destination)) of
            Inl e \<Rightarrow> (Inl e, st1, ev)
          | Inr initial \<Rightarrow> (case queue_write (WriteFrames initial) st1 of
                (True, st2) \<Rightarrow> (Ok sid, st2, ev)
              | (False, st2) \<Rightarrow> (Err AnytlsWriterClosed, st2, ev))))"

definition write_data :: "u32 \<Rightarrow> bytes \<Rightarrow> anytls_session \<Rightarrow> (anytls_error, nat) res \<times> anytls_session" where
  "write_data sid bs st =
    (case queue_write (WriteFrame CMD_PUSH sid bs) st of
       (True, st') \<Rightarrow> (Ok (length bs), st')
     | (False, st') \<Rightarrow> (Err AnytlsWriterClosed, st'))"

definition finish_stream :: "u32 \<Rightarrow> anytls_session \<Rightarrow> anytls_session" where
  "finish_stream sid st = snd (queue_write (WriteFrame CMD_FIN sid []) st)"

definition close_handle :: "anytls_session \<Rightarrow> anytls_session" where
  "close_handle st = snd (queue_write WriteClose (st\<lparr>sn_closed := True\<rparr>))"

text \<open>The task that \<open>Drop\<close> and \<open>poll_shutdown\<close> spawn.\<close>

definition forget_stream :: "u32 \<Rightarrow> anytls_session \<Rightarrow> anytls_session \<times> channel_event list" where
  "forget_stream sid st =
    (st\<lparr>sn_streams := AList.delete sid (sn_streams st), sn_synacks := AList.delete sid (sn_synacks st)\<rparr>,
     ended sid (sn_streams st) StreamEnd @ ended sid (sn_synacks st) SynAckDropped)"

definition close_session :: "anytls_session \<Rightarrow> anytls_session \<times> channel_event list" where
  "close_session st =
    (if sn_closed st then (st, [])
     else (st\<lparr>sn_closed := True, sn_synacks := [], sn_streams := []\<rparr>,
           map (\<lambda>(sid, ch). (ch, SynAck (Some ''AnyTLS session closed''))) (sn_synacks st)
           @ map (\<lambda>(sid, ch). (ch, StreamEnd)) (sn_streams st)))"

text \<open>\<open>handle_frame\<close>; \<open>update\<close> is \<open>PaddingFactory::new\<close> on the data of the frame.\<close>

definition handle_frame :: "(bytes \<Rightarrow> (anytls_error, padding_factory) res) \<Rightarrow> frame \<Rightarrow> anytls_session
    \<Rightarrow> anytls_session \<times> channel_event list" where
  "handle_frame update f st =
    (let cmd = f_cmd f; sid = f_stream f
     in if cmd = CMD_PUSH then (st, ended sid (sn_streams st) (StreamData (f_data f)))
        else if cmd = CMD_FIN then
          (st\<lparr>sn_streams := AList.delete sid (sn_streams st)\<rparr>, ended sid (sn_streams st) StreamEnd)
        else if cmd = CMD_SYNACK then
          (st\<lparr>sn_synacks := AList.delete sid (sn_synacks st)\<rparr>,
           ended sid (sn_synacks st) (SynAck (if f_data f = [] then None
             else Some (''AnyTLS server error: '' @ from_utf8_lossy (f_data f)))))
        else if cmd = CMD_ALERT then close_session st
        else if cmd = CMD_UPDATE_PADDING_SCHEME then
          (case update (f_data f) of Inr next \<Rightarrow> (st\<lparr>sn_padding := next\<rparr>, []) | Inl _ \<Rightarrow> (st, []))
        else if cmd = CMD_HEART_REQUEST then
          (snd (queue_write (WriteFrame CMD_HEART_RESPONSE sid []) st), [])
        else (st, []))"

text \<open>
  One item of \<open>write_loop\<close>: the writes it makes on the connection, with the item's result. The
  packet counter is taken when a packet is padded. Writes of the connection itself do not fail here.
\<close>

definition write_padded :: "bytes \<Rightarrow> anytls_session \<Rightarrow> bytes list \<times> (anytls_error, unit) res \<times> anytls_session" where
  "write_padded buffer st =
    (case write_with_padding (sn_padding st) (sn_counter st) buffer of
       (ws, r) \<Rightarrow> (ws, r, st\<lparr>sn_counter := sn_counter st + 1\<rparr>))"

definition write_item :: "session_write \<Rightarrow> anytls_session
    \<Rightarrow> bytes list \<times> (anytls_error, unit) res \<times> anytls_session" where
  "write_item w st =
    (case w of
       WriteRaw bs \<Rightarrow> ([bs], Ok (), st)
     | WriteFrames fs \<Rightarrow> write_padded fs st
     | WriteFrame cmd sid bs \<Rightarrow>
         (case append_frame [] cmd sid bs of
            Inl e \<Rightarrow> ([], Inl e, st)
          | Inr f \<Rightarrow> write_padded f st)
     | WriteClose \<Rightarrow> ([], Ok (), st))"

definition stop_writer :: "anytls_session \<Rightarrow> anytls_session" where
  "stop_writer st = st\<lparr>sn_queue := [], sn_writing := False\<rparr>"

definition write_step :: "anytls_session \<Rightarrow> bytes list \<times> anytls_session" where
  "write_step st =
    (if \<not> sn_writing st then ([], st)
     else (case sn_queue st of
         [] \<Rightarrow> ([], st)
       | WriteClose # _ \<Rightarrow> ([], stop_writer st)
       | w # q \<Rightarrow>
           (case write_item w (st\<lparr>sn_queue := q\<rparr>) of
              (ws, Inl e, st') \<Rightarrow> (ws, stop_writer (close_handle st'))
            | (ws, Inr _, st') \<Rightarrow> (ws, st'))))"

text \<open>The end of the connection, seen by \<open>read_loop\<close>, is \<open>close_session\<close>.\<close>

datatype session_cmd =
    CmdOpen nat target_address
  | CmdWrite u32 bytes
  | CmdShutdown u32
  | CmdFrame frame
  | CmdWriterTurn
  | CmdClose
  | CmdReadEnd

fun session_step :: "(bytes \<Rightarrow> (anytls_error, padding_factory) res) \<Rightarrow> anytls_session \<Rightarrow> session_cmd
    \<Rightarrow> anytls_session \<times> channel_event list" where
  "session_step update st (CmdOpen ch t) = (case open_stream ch t st of (r, st', ev) \<Rightarrow> (st', ev))"
| "session_step update st (CmdWrite sid bs) =
    (if sn_closed st then (st, []) else (snd (write_data sid bs st), []))"
| "session_step update st (CmdShutdown sid) = forget_stream sid (finish_stream sid st)"
| "session_step update st (CmdFrame f) = handle_frame update f st"
| "session_step update st CmdWriterTurn = (snd (write_step st), [])"
| "session_step update st CmdClose = (close_handle st, [])"
| "session_step update st CmdReadEnd = close_session st"

fun session_run :: "(bytes \<Rightarrow> (anytls_error, padding_factory) res) \<Rightarrow> anytls_session \<Rightarrow> session_cmd list
    \<Rightarrow> anytls_session \<times> channel_event list" where
  "session_run update st [] = (st, [])"
| "session_run update st (c # cs) =
    (case session_step update st c of (st', ev) \<Rightarrow>
      (case session_run update st' cs of (st'', evs) \<Rightarrow> (st'', ev @ evs)))"

text \<open>
  The new session of \<open>create_session\<close>: it queues the authentication and its settings before the
  two loops start. \<open>hash\<close> is the SHA-256 of the password, \<open>p\<close> the default padding factory.
\<close>

definition start_session :: "padding_factory \<Rightarrow> bytes \<Rightarrow> (anytls_error, anytls_session) res" where
  "start_session p hash =
    rbind (append_frame [] CMD_SETTINGS 0 (as_bytes (settings_text p))) (\<lambda>settings.
      Ok (snd (queue_write (WriteFrames settings)
        (snd (queue_write (WriteRaw (authentication hash)) (new_session p))))))"

section \<open>Tables of senders\<close>

text \<open>
  The two maps of a session change in the same five ways. \<open>final\<close> says which events are the last one
  of a channel; the step's new channel, if it makes one, is the second argument.
\<close>

definition table_ok :: "(u32 \<times> nat) list \<Rightarrow> bool" where
  "table_ok m \<longleftrightarrow> distinct (map fst m) \<and> distinct (map snd m)"

inductive table_step :: "(stream_event \<Rightarrow> bool) \<Rightarrow> (u32 \<times> nat) list \<Rightarrow> nat option \<Rightarrow> channel_event list
    \<Rightarrow> (u32 \<times> nat) list \<Rightarrow> bool" for final where
  table_keep: "table_step final m None [] m"
| table_data: "\<not> final e \<Longrightarrow> table_step final m None (ended sid m e) m"
| table_drop: "final e \<Longrightarrow> table_step final m None (ended sid m e) (AList.delete sid m)"
| table_put: "final e \<Longrightarrow> table_step final m (Some ch) (ended sid m e) (AList.update sid ch m)"
| table_clear: "final e \<Longrightarrow> table_step final m None (map (\<lambda>(sid, ch). (ch, e)) m) []"

definition events_of :: "nat \<Rightarrow> channel_event list \<Rightarrow> stream_event list" where
  "events_of ch evs = map snd (filter (\<lambda>x. fst x = ch) evs)"

lemma events_of_simps [simp]:
  "events_of ch [] = []"
  "events_of ch ((c, e) # evs) = (if c = ch then e # events_of ch evs else events_of ch evs)"
  "events_of ch (evs @ evs') = events_of ch evs @ events_of ch evs'"
  by (simp_all add: events_of_def)

text \<open>Only the last event of a channel is final.\<close>

definition final_last :: "(stream_event \<Rightarrow> bool) \<Rightarrow> stream_event list \<Rightarrow> bool" where
  "final_last final es \<longleftrightarrow> (\<forall>e \<in> set (butlast es). \<not> final e)"

definition table_history :: "(stream_event \<Rightarrow> bool) \<Rightarrow> nat set \<Rightarrow> (u32 \<times> nat) list \<Rightarrow> channel_event list \<Rightarrow> bool" where
  "table_history final used m evs \<longleftrightarrow> table_ok m \<and> set (map snd m) \<union> set (map fst evs) \<subseteq> used
    \<and> (\<forall>ch \<in> set (map snd m). \<forall>e \<in> set (events_of ch evs). \<not> final e)
    \<and> (\<forall>ch. final_last final (events_of ch evs))"

lemma update_chans: "set (map snd (AList.update k v m)) \<subseteq> insert v (set (map snd m))"
  by (induction m) auto

lemma delete_chans: "set (map snd (AList.delete k m)) \<subseteq> set (map snd m)"
  by (auto simp: AList.delete_eq)

lemma table_ok_update: "table_ok m \<Longrightarrow> ch \<notin> set (map snd m) \<Longrightarrow> table_ok (AList.update k ch m)"
proof (induction m)
  case (Cons x m)
  obtain k' c where x: "x = (k', c)" by (cases x)
  have "table_ok m" using Cons.prems(1) by (simp add: table_ok_def)
  then show ?case
    using Cons x update_chans [of k ch m] AList.dom_update [of k ch m]
    by (auto simp: table_ok_def AList.update_keys)
qed (simp add: table_ok_def)

lemma table_ok_delete: "table_ok m \<Longrightarrow> table_ok (AList.delete k m)"
  by (simp add: table_ok_def AList.delete_eq distinct_map_filter)

lemma ended_gone:
  assumes "table_ok m" "map_of m k = Some c"
  shows "c \<notin> set (map snd (AList.delete k m))" "c \<noteq> ch \<Longrightarrow> c \<notin> set (map snd (AList.update k ch m))"
proof -
  show "c \<notin> set (map snd (AList.delete k m))"
    using assms by (induction m) (force simp: table_ok_def AList.delete_eq split: if_splits dest: map_of_SomeD)+
  show "c \<notin> set (map snd (AList.update k ch m))" if "c \<noteq> ch"
    using assms that by (induction m) (force simp: table_ok_def split: if_splits dest: map_of_SomeD)+
qed

lemma ended_cases:
  "ended sid m e = [] \<and> map_of m sid = None \<or> (\<exists>c. map_of m sid = Some c \<and> ended sid m e = [(c, e)])"
  by (simp add: ended_def split: option.split)

lemma final_last_snoc: "final_last final (es @ [e]) \<longleftrightarrow> (\<forall>x \<in> set es. \<not> final x)"
  by (simp add: final_last_def)

lemma events_of_clear:
  assumes "distinct (map snd m)"
  shows "events_of ch (map (\<lambda>(sid, c). (c, e)) m) = (if ch \<in> set (map snd m) then [e] else [])"
  using assms by (induction m) (force split: if_splits)+

text \<open>The history of one event more, on a channel of the table.\<close>

lemma history_event:
  assumes "table_history final used m evs" "map_of m sid = Some c"
    and "table_ok m'" "set (map snd m') \<subseteq> used'" "used \<subseteq> used'"
    and "set (map snd m') \<subseteq> set (map snd m) \<union> (used' - used)" "final e \<Longrightarrow> c \<notin> set (map snd m')"
  shows "table_history final used' m' (evs @ [(c, e)])"
proof -
  have c: "c \<in> set (map snd m)" using assms(2) by (force dest: map_of_SomeD)
  then have open_c: "\<forall>x \<in> set (events_of c evs). \<not> final x" "c \<in> used"
    using assms(1) unfolding table_history_def by auto
  have unused: "events_of ch evs = []" if "ch \<notin> used" for ch
    using assms(1) that unfolding table_history_def events_of_def by (auto simp: filter_empty_conv)
  have "set (map fst (evs @ [(c, e)])) \<subseteq> used'"
    using assms(1,5) open_c(2) unfolding table_history_def by auto
  moreover have "\<not> final x" if "ch \<in> set (map snd m')" "x \<in> set (events_of ch (evs @ [(c, e)]))" for ch x
  proof (cases "ch \<in> used")
    case True
    then have "ch \<in> set (map snd m)" using that(1) assms(6) by blast
    then have "\<forall>y \<in> set (events_of ch evs). \<not> final y" using assms(1) unfolding table_history_def by blast
    then show ?thesis using that assms(7) by (cases "ch = c") auto
  next
    case False
    then show ?thesis using that(2) unused [OF False] open_c(2) by (auto split: if_splits)
  qed
  moreover have "final_last final (events_of ch (evs @ [(c, e)]))" for ch
    using assms(1) open_c(1) unfolding table_history_def by (simp add: final_last_snoc)
  ultimately show ?thesis using assms(3,4) unfolding table_history_def by blast
qed

lemma history_quiet:
  assumes "table_history final used m evs" "table_ok m'" "used \<subseteq> used'"
    and "set (map snd m') \<subseteq> used'" "set (map snd m') \<subseteq> set (map snd m) \<union> (used' - used)"
  shows "table_history final used' m' evs"
proof -
  have unused: "events_of ch evs = []" if "ch \<notin> used" for ch
    using assms(1) that unfolding table_history_def events_of_def by (auto simp: filter_empty_conv)
  have "\<forall>e \<in> set (events_of ch evs). \<not> final e" if "ch \<in> set (map snd m')" for ch
    using assms(1,5) that unused [of ch] unfolding table_history_def by (cases "ch \<in> used") auto
  then show ?thesis using assms unfolding table_history_def by blast
qed

lemma history_step:
  assumes "table_history final used m evs" "table_step final m new ev m'"
    and "\<forall>ch. new = Some ch \<longrightarrow> ch \<notin> used"
  shows "table_history final (used \<union> set_option new) m' (evs @ ev)"
  using assms(2)
proof cases
  case table_keep
  then show ?thesis using assms(1) by simp
next
  case (table_data e sid)
  have ok: "table_ok m" "set (map snd m) \<subseteq> used" using assms(1) unfolding table_history_def by auto
  from ended_cases [of sid m e] show ?thesis
    using table_data assms(1) history_event [OF assms(1) _ ok(1) ok(2), of sid _ e] by auto
next
  case (table_drop e sid)
  have ok: "table_ok m" "set (map snd m) \<subseteq> used" using assms(1) unfolding table_history_def by auto
  have sub: "set (map snd m') \<subseteq> used" "set (map snd m') \<subseteq> set (map snd m) \<union> (used - used)"
    using delete_chans [of sid m] ok(2) table_drop by auto
  have ok': "table_ok m'" using table_ok_delete [OF ok(1)] table_drop by simp
  from ended_cases [of sid m e] show ?thesis
  proof
    assume "ended sid m e = [] \<and> map_of m sid = None"
    then show ?thesis using table_drop history_quiet [OF assms(1) ok' subset_refl sub] by simp
  next
    assume "\<exists>c. map_of m sid = Some c \<and> ended sid m e = [(c, e)]"
    then obtain c where c: "map_of m sid = Some c" "ended sid m e = [(c, e)]" by blast
    have "table_history final used m' (evs @ [(c, e)])"
      by (rule history_event [OF assms(1) c(1) ok' sub(1) subset_refl sub(2)])
        (use ended_gone(1) [OF ok(1) c(1)] table_drop in simp)
    then show ?thesis using c(2) table_drop by simp
  qed
next
  case (table_put e ch sid)
  have ok: "table_ok m" "set (map snd m) \<subseteq> used" using assms(1) unfolding table_history_def by auto
  have ch: "ch \<notin> used" using assms(3) table_put by simp
  then have ch': "ch \<notin> set (map snd m)" using ok(2) by blast
  let ?used = "used \<union> set_option new"
  have sub: "set (map snd m') \<subseteq> ?used" "set (map snd m') \<subseteq> set (map snd m) \<union> (?used - used)"
    using update_chans [of sid ch m] ok(2) table_put ch by auto
  have ok': "table_ok m'" using table_ok_update [OF ok(1) ch'] table_put by simp
  from ended_cases [of sid m e] show ?thesis
  proof
    assume "ended sid m e = [] \<and> map_of m sid = None"
    then show ?thesis using table_put history_quiet [OF assms(1) ok' Un_upper1 sub] by simp
  next
    assume "\<exists>c. map_of m sid = Some c \<and> ended sid m e = [(c, e)]"
    then obtain c where c: "map_of m sid = Some c" "ended sid m e = [(c, e)]" by blast
    have "c \<noteq> ch" using c(1) ch' by (force dest: map_of_SomeD)
    then have "table_history final ?used m' (evs @ [(c, e)])"
      by (intro history_event [OF assms(1) c(1) ok' sub(1) _ sub(2)])
        (use ended_gone(2) [OF ok(1) c(1)] table_put in auto)
    then show ?thesis using c(2) table_put by simp
  qed
next
  case (table_clear e)
  have ok: "table_ok m" "set (map snd m) \<subseteq> used" using assms(1) unfolding table_history_def by auto
  have "final_last final (events_of ch (evs @ ev))" for ch
    using assms(1) table_clear ok(1) unfolding table_history_def
    by (auto simp: events_of_clear table_ok_def final_last_snoc)
  moreover have "set (map fst ev) \<subseteq> set (map snd m)" using table_clear by force
  ultimately show ?thesis using assms(1) table_clear unfolding table_history_def
    by (auto simp: table_ok_def)
qed

section \<open>A session moves its tables\<close>

fun stream_kind :: "stream_event \<Rightarrow> bool" where
  "stream_kind (StreamData _) = True"
| "stream_kind StreamEnd = True"
| "stream_kind _ = False"

definition stream_events :: "channel_event list \<Rightarrow> channel_event list" where
  "stream_events evs = filter (stream_kind \<circ> snd) evs"

definition synack_events :: "channel_event list \<Rightarrow> channel_event list" where
  "synack_events evs = filter (\<lambda>x. \<not> stream_kind (snd x)) evs"

fun opens :: "session_cmd \<Rightarrow> nat list" where
  "opens (CmdOpen ch t) = [ch]"
| "opens _ = []"

text \<open>The channel that a command really makes.\<close>

definition made :: "anytls_session \<Rightarrow> session_cmd \<Rightarrow> nat option" where
  "made st c = (case c of CmdOpen ch t \<Rightarrow> if sn_closed st then None else Some ch | _ \<Rightarrow> None)"

lemma queue_write_same [simp]:
  "sn_streams (snd (queue_write w st)) = sn_streams st" "sn_synacks (snd (queue_write w st)) = sn_synacks st"
  by (simp_all add: queue_write_def)

lemma close_handle_same [simp]:
  "sn_streams (close_handle st) = sn_streams st" "sn_synacks (close_handle st) = sn_synacks st"
  by (simp_all add: close_handle_def)

lemma write_padded_same: "write_padded b st = (ws, r, st') \<Longrightarrow>
    sn_streams st' = sn_streams st \<and> sn_synacks st' = sn_synacks st"
  by (auto simp: write_padded_def split: prod.splits)

lemma write_item_same: "write_item w st = (ws, r, st') \<Longrightarrow>
    sn_streams st' = sn_streams st \<and> sn_synacks st' = sn_synacks st"
  by (auto simp: write_item_def split: session_write.splits sum.splits dest!: write_padded_same)

lemma write_step_same [simp]:
  "sn_streams (snd (write_step st)) = sn_streams st" "sn_synacks (snd (write_step st)) = sn_synacks st"
  by (auto simp: write_step_def stop_writer_def split: list.splits session_write.splits prod.splits sum.splits
      dest!: write_item_same)

lemma events_kinds [simp]:
  "stream_events [] = []" "synack_events [] = []"
  "stream_events (a @ b) = stream_events a @ stream_events b"
  "synack_events (a @ b) = synack_events a @ synack_events b"
  "stream_kind e \<Longrightarrow> stream_events (ended sid m e) = ended sid m e"
  "stream_kind e \<Longrightarrow> synack_events (ended sid m e) = []"
  "\<not> stream_kind e \<Longrightarrow> stream_events (ended sid m e) = []"
  "\<not> stream_kind e \<Longrightarrow> synack_events (ended sid m e) = ended sid m e"
  by (simp_all add: stream_events_def synack_events_def ended_def split: option.split)

lemma clear_kinds [simp]:
  "stream_kind e \<Longrightarrow> stream_events (map (\<lambda>(sid, ch). (ch, e)) m) = map (\<lambda>(sid, ch). (ch, e)) m"
  "stream_kind e \<Longrightarrow> synack_events (map (\<lambda>(sid, ch). (ch, e)) m) = []"
  "\<not> stream_kind e \<Longrightarrow> stream_events (map (\<lambda>(sid, ch). (ch, e)) m) = []"
  "\<not> stream_kind e \<Longrightarrow> synack_events (map (\<lambda>(sid, ch). (ch, e)) m) = map (\<lambda>(sid, ch). (ch, e)) m"
  by (induction m) (auto simp: stream_events_def synack_events_def)

lemma close_session_tables:
  assumes "close_session st = (st', ev)"
  shows "table_step ((=) StreamEnd) (sn_streams st) None (stream_events ev) (sn_streams st')"
    and "table_step (\<lambda>e. True) (sn_synacks st) None (synack_events ev) (sn_synacks st')"
  using assms by (auto simp: close_session_def intro!: table_step.intros split: if_splits)

lemma handle_frame_tables:
  assumes "handle_frame update f st = (st', ev)"
  shows "table_step ((=) StreamEnd) (sn_streams st) None (stream_events ev) (sn_streams st')"
    and "table_step (\<lambda>e. True) (sn_synacks st) None (synack_events ev) (sn_synacks st')"
  using assms close_session_tables [of st st' ev]
  by (auto simp: handle_frame_def Let_def intro!: table_step.intros split: if_splits sum.splits)

lemma open_stream_tables:
  assumes "open_stream ch t st = (r, st', ev)"
  shows "table_step ((=) StreamEnd) (sn_streams st) (if sn_closed st then None else Some ch)
      (stream_events ev) (sn_streams st')"
    and "table_step (\<lambda>e. True) (sn_synacks st) (if sn_closed st then None else Some ch)
      (synack_events ev) (sn_synacks st')"
  using assms
  by (auto simp: open_stream_def Let_def queue_write_def intro!: table_step.intros split: if_splits sum.splits)

lemma session_step_tables:
  assumes "session_step update st c = (st', ev)"
  shows "table_step ((=) StreamEnd) (sn_streams st) (made st c) (stream_events ev) (sn_streams st')"
    and "table_step (\<lambda>e. True) (sn_synacks st) (made st c) (synack_events ev) (sn_synacks st')"
proof -
  have "table_step ((=) StreamEnd) (sn_streams st) (made st c) (stream_events ev) (sn_streams st')
    \<and> table_step (\<lambda>e. True) (sn_synacks st) (made st c) (synack_events ev) (sn_synacks st')"
  proof (cases c)
    case (CmdOpen ch t)
    then show ?thesis using assms open_stream_tables [of ch t st]
      by (auto simp: made_def split: prod.splits)
  next
    case (CmdWrite sid bs)
    then show ?thesis using assms
      by (auto simp: made_def write_data_def queue_write_def intro!: table_step.intros split: if_splits)
  next
    case (CmdShutdown sid)
    then show ?thesis using assms
      by (auto simp: made_def forget_stream_def finish_stream_def intro!: table_step.intros)
  next
    case (CmdFrame f)
    then show ?thesis using assms handle_frame_tables [of update f st st' ev] by (simp add: made_def)
  next
    case CmdReadEnd
    then show ?thesis using assms close_session_tables [of st st' ev] by (simp add: made_def)
  qed (use assms in \<open>auto simp: made_def intro!: table_step.intros\<close>)
  then show "table_step ((=) StreamEnd) (sn_streams st) (made st c) (stream_events ev) (sn_streams st')"
    and "table_step (\<lambda>e. True) (sn_synacks st) (made st c) (synack_events ev) (sn_synacks st')" by auto
qed

lemma session_run_history:
  assumes "table_history ((=) StreamEnd) used (sn_streams st) (stream_events evs)"
    and "table_history (\<lambda>e. True) used (sn_synacks st) (synack_events evs)"
    and "distinct (concat (map opens cs))" "set (concat (map opens cs)) \<inter> used = {}"
    and "session_run update st cs = (st', evs')"
  shows "\<exists>used'. table_history ((=) StreamEnd) used' (sn_streams st') (stream_events (evs @ evs'))
    \<and> table_history (\<lambda>e. True) used' (sn_synacks st') (synack_events (evs @ evs'))"
  using assms
proof (induction cs arbitrary: st used evs evs')
  case Nil
  then show ?case by auto
next
  case (Cons c cs)
  obtain st1 ev where step: "session_step update st c = (st1, ev)" by (cases "session_step update st c")
  obtain evs1 where rest: "session_run update st1 cs = (st', evs1)" and evs': "evs' = ev @ evs1"
    using Cons.prems(5) step by (auto split: prod.splits)
  have new: "\<forall>ch. made st c = Some ch \<longrightarrow> ch \<notin> used" "set_option (made st c) \<subseteq> set (opens c)"
    using Cons.prems(4) by (auto simp: made_def split: session_cmd.splits if_splits)
  let ?used = "used \<union> set_option (made st c)"
  have "table_history ((=) StreamEnd) ?used (sn_streams st1) (stream_events (evs @ ev))"
    using history_step [OF Cons.prems(1) session_step_tables(1) [OF step] new(1)] by simp
  moreover have "table_history (\<lambda>e. True) ?used (sn_synacks st1) (synack_events (evs @ ev))"
    using history_step [OF Cons.prems(2) session_step_tables(2) [OF step] new(1)] by simp
  moreover have "distinct (concat (map opens cs))" "set (concat (map opens cs)) \<inter> ?used = {}"
    using Cons.prems(3,4) new(2) by auto
  ultimately show ?case using Cons.IH [OF _ _ _ _ rest, of ?used "evs @ ev"] evs' by simp
qed

section \<open>What one stream sees\<close>

text \<open>
  The specification of one stream: the data of its own PUSH frames, in order, up to its FIN or to an
  alert (which ends every stream of a session that is not closed yet).
\<close>

fun stream_view :: "bool \<Rightarrow> u32 \<Rightarrow> frame list \<Rightarrow> stream_event list" where
  "stream_view closed sid [] = []"
| "stream_view closed sid (f # fs) =
    (if f_cmd f = CMD_PUSH \<and> f_stream f = sid then StreamData (f_data f) # stream_view closed sid fs
     else if f_cmd f = CMD_FIN \<and> f_stream f = sid then [StreamEnd]
     else if f_cmd f = CMD_ALERT \<and> \<not> closed then [StreamEnd]
     else stream_view closed sid fs)"

lemma chan_unique: "table_ok m \<Longrightarrow> map_of m a = Some c \<Longrightarrow> map_of m b = Some c \<Longrightarrow> a = b"
  by (auto simp: table_ok_def distinct_map dest!: map_of_SomeD dest: inj_onD [of snd "set m" "(a, c)" "(b, c)"])

lemma events_of_ended:
  assumes "table_ok m" "map_of m sid = Some ch"
  shows "events_of ch (ended sid' m e) = (if sid' = sid then [e] else [])"
proof (cases "map_of m sid'")
  case (Some c)
  then show ?thesis
    using assms(2) chan_unique [OF assms(1) assms(2), of sid'] by (cases "c = ch") (auto simp: ended_def)
qed (use assms(2) in \<open>auto simp: ended_def\<close>)

lemma no_channel_event:
  assumes "ch \<notin> set (map snd m)"
  shows "events_of ch (ended sid m e) = []" "events_of ch (map (\<lambda>(sid, c). (c, e)) m) = []"
proof -
  show "events_of ch (ended sid m e) = []" using assms by (force simp: ended_def dest: map_of_SomeD split: option.split)
  show "events_of ch (map (\<lambda>(sid, c). (c, e)) m) = []" using assms by (induction m) auto
qed

text \<open>No frame adds a channel, and a channel outside the table gets no event.\<close>

lemma frame_quiet:
  assumes "ch \<notin> set (map snd (sn_streams st))" "handle_frame update f st = (st', ev)"
  shows "events_of ch (stream_events ev) = [] \<and> ch \<notin> set (map snd (sn_streams st'))"
  using handle_frame_tables(1) [OF assms(2)]
proof cases
  case (table_drop e sid)
  then show ?thesis using assms(1) delete_chans [of sid "sn_streams st"] no_channel_event(1) by auto
qed (use assms(1) no_channel_event in auto)

lemma frames_quiet:
  assumes "ch \<notin> set (map snd (sn_streams st))" "session_run update st (map CmdFrame fs) = (st', evs)"
  shows "events_of ch (stream_events evs) = []"
  using assms
proof (induction fs arbitrary: st evs)
  case (Cons f fs)
  obtain st1 ev where step: "handle_frame update f st = (st1, ev)" by (cases "handle_frame update f st")
  show ?case using Cons.IH [of st1] frame_quiet [OF Cons.prems(1) step] Cons.prems(2) step
    by (auto split: prod.splits)
qed simp

lemma handle_frame_stream:
  assumes "table_ok (sn_streams st)" "map_of (sn_streams st) sid = Some ch"
    and "handle_frame update f st = (st', ev)"
  shows "table_ok (sn_streams st')"
    and "f_cmd f = CMD_PUSH \<and> f_stream f = sid \<Longrightarrow> events_of ch (stream_events ev) = [StreamData (f_data f)]"
    and "f_cmd f = CMD_FIN \<and> f_stream f = sid \<or> f_cmd f = CMD_ALERT \<and> \<not> sn_closed st \<Longrightarrow>
      events_of ch (stream_events ev) = [StreamEnd] \<and> ch \<notin> set (map snd (sn_streams st'))"
    and "\<not> (f_cmd f \<in> {CMD_PUSH, CMD_FIN} \<and> f_stream f = sid) \<and> \<not> (f_cmd f = CMD_ALERT \<and> \<not> sn_closed st) \<Longrightarrow>
      events_of ch (stream_events ev) = [] \<and> map_of (sn_streams st') sid = Some ch"
    and "\<not> (f_cmd f = CMD_ALERT \<and> \<not> sn_closed st) \<Longrightarrow> sn_closed st' = sn_closed st"
proof -
  have ch: "ch \<in> set (map snd (sn_streams st))" using assms(2) by (force dest: map_of_SomeD)
  note defs = handle_frame_def close_session_def Let_def command_defs
  show "table_ok (sn_streams st')"
    using handle_frame_tables(1) [OF assms(3)] assms(1)
    by cases (auto simp: table_ok_delete, simp add: table_ok_def)
  show "events_of ch (stream_events ev) = [StreamData (f_data f)]"
    if "f_cmd f = CMD_PUSH \<and> f_stream f = sid"
    using that assms(3) events_of_ended [OF assms(1,2)] by (auto simp: defs)
  show "events_of ch (stream_events ev) = [StreamEnd] \<and> ch \<notin> set (map snd (sn_streams st'))"
    if "f_cmd f = CMD_FIN \<and> f_stream f = sid \<or> f_cmd f = CMD_ALERT \<and> \<not> sn_closed st"
  proof (cases "f_cmd f = CMD_FIN \<and> f_stream f = sid")
    case True
    then show ?thesis
      using assms(3) events_of_ended [OF assms(1,2)] ended_gone(1) [OF assms(1,2)] by (auto simp: defs)
  next
    case False
    have "distinct (map snd (sn_streams st))" using assms(1) by (simp add: table_ok_def)
    then show ?thesis
      using False that assms(3) events_of_clear [of "sn_streams st" ch StreamEnd] ch by (auto simp: defs)
  qed
  show "events_of ch (stream_events ev) = [] \<and> map_of (sn_streams st') sid = Some ch"
    if "\<not> (f_cmd f \<in> {CMD_PUSH, CMD_FIN} \<and> f_stream f = sid) \<and> \<not> (f_cmd f = CMD_ALERT \<and> \<not> sn_closed st)"
    using that assms events_of_ended [OF assms(1,2)]
    by (auto simp: defs AList.delete_conv' queue_write_def split: if_splits sum.splits)
  show "sn_closed st' = sn_closed st" if "\<not> (f_cmd f = CMD_ALERT \<and> \<not> sn_closed st)"
    using that assms(3) by (auto simp: defs queue_write_def split: if_splits sum.splits)
qed

lemma frames_stream:
  assumes "table_ok (sn_streams st)" "map_of (sn_streams st) sid = Some ch"
    and "session_run update st (map CmdFrame fs) = (st', evs)"
  shows "events_of ch (stream_events evs) = stream_view (sn_closed st) sid fs"
  using assms
proof (induction fs arbitrary: st evs)
  case (Cons f fs)
  obtain st1 ev where step: "handle_frame update f st = (st1, ev)" by (cases "handle_frame update f st")
  obtain evs1 where rest: "session_run update st1 (map CmdFrame fs) = (st', evs1)" and evs: "evs = ev @ evs1"
    using Cons.prems(3) step by (auto split: prod.splits)
  note step = handle_frame_stream [OF Cons.prems(1,2) step]
  have differ: "CMD_PUSH \<noteq> CMD_FIN" "CMD_PUSH \<noteq> CMD_ALERT" "CMD_FIN \<noteq> CMD_ALERT"
    by (simp_all add: command_defs)
  consider "f_cmd f = CMD_PUSH \<and> f_stream f = sid"
    | "f_cmd f = CMD_FIN \<and> f_stream f = sid \<or> f_cmd f = CMD_ALERT \<and> \<not> sn_closed st"
    | "\<not> (f_cmd f \<in> {CMD_PUSH, CMD_FIN} \<and> f_stream f = sid) \<and> \<not> (f_cmd f = CMD_ALERT \<and> \<not> sn_closed st)"
    by blast
  then show ?case
  proof cases
    case 1
    then have "map_of (sn_streams st1) sid = Some ch"
      using \<open>handle_frame update f st = (st1, ev)\<close> Cons.prems(2) by (simp add: handle_frame_def)
    then show ?thesis using Cons.IH [OF step(1) _ rest] step(2,5) 1 evs differ by auto
  next
    case 2
    then show ?thesis using step(3) frames_quiet [OF _ rest] evs differ by auto
  next
    case 3
    then show ?thesis using Cons.IH [OF step(1) _ rest] step(4,5) evs by auto
  qed
qed simp

section \<open>Properties\<close>

definition example_factory :: padding_factory where
  "example_factory = \<lparr>pf_md5 = [], pf_stop = 0, pf_entries = []\<rparr>"



text \<open>
  C16: Every channel of a session is settled at most once. In any run of a new session in which every
  opened stream gets channels of its own, no data and no second end follow the end of a stream, and
  a SYNACK result is delivered at most once, whatever order frames, writes, shut-downs, closing and
  the end of the connection come in, and even when stream identifiers wrap around.
\<close>

theorem anytls_channels_settle_once:
  assumes "distinct (concat (map opens cs))" "session_run update (new_session p) cs = (st, evs)"
  shows "final_last ((=) StreamEnd) (events_of ch (stream_events evs))
    \<and> length (events_of ch (synack_events evs)) \<le> 1"
proof -
  have "table_history final {} [] []" for final
    by (simp add: table_history_def table_ok_def final_last_def)
  then obtain used where h: "table_history ((=) StreamEnd) used (sn_streams st) (stream_events evs)"
      "table_history (\<lambda>e. True) used (sn_synacks st) (synack_events evs)"
    using session_run_history [of "{}" "new_session p" "[]" cs update st evs] assms
    by (auto simp: new_session_def)
  have "final_last (\<lambda>e. True) (events_of ch (synack_events evs))"
    using h(2) by (simp add: table_history_def)
  then have "butlast (events_of ch (synack_events evs)) = []"
    by (simp add: final_last_def)
  then have "length (events_of ch (synack_events evs)) \<le> 1"
    using length_butlast [of "events_of ch (synack_events evs)"] by simp
  then show ?thesis using h(1) by (simp add: table_history_def)
qed

theorem anytls_channels_settle_once_witness:
  "length (events_of 4 (synack_events (snd (session_run (\<lambda>_. Err AnytlsEof) (new_session example_factory)
      [CmdOpen 4 \<lparr>host = ''a'', target_port = 80\<rparr>, CmdFrame \<lparr>f_cmd = 7, f_stream = 1, f_data = []\<rparr>,
       CmdFrame \<lparr>f_cmd = 7, f_stream = 1, f_data = []\<rparr>, CmdReadEnd])))) \<le> 1"
  using anytls_channels_settle_once [where cs = "[CmdOpen 4 \<lparr>host = ''a'', target_port = 80\<rparr>,
      CmdFrame \<lparr>f_cmd = 7, f_stream = 1, f_data = []\<rparr>,
      CmdFrame \<lparr>f_cmd = 7, f_stream = 1, f_data = []\<rparr>, CmdReadEnd]", OF _ surjective_pairing]
  by simp

text \<open>
  One large write takes the whole session down, silently. A write of 64 KiB or more is accepted
  in full; the writer then cannot frame it and closes the session, and because the session already
  counts as closed, the end of the connection ends none of its streams: no reader of the session
  gets an event any more.
\<close>

theorem anytls_large_write_kills_session:
  assumes "\<not> sn_closed st" "sn_writing st" "sn_queue st = []" "65535 < length bs"
  shows "fst (write_data sid bs st) = Ok (length bs)
    \<and> (\<exists>st'. session_run update st [CmdWrite sid bs, CmdWriterTurn, CmdReadEnd] = (st', [])
      \<and> sn_closed st' \<and> \<not> sn_writing st' \<and> sn_streams st' = sn_streams st \<and> sn_synacks st' = sn_synacks st)"
  using assms
  by (simp add: write_data_def queue_write_def write_step_def write_item_def append_frame_def stop_writer_def
      close_handle_def close_session_def)

theorem anytls_large_write_kills_session_witness:
  "\<exists>st'. session_run (\<lambda>_. Err AnytlsEof) ((new_session example_factory)\<lparr>sn_streams := [(1, 7)]\<rparr>)
      [CmdWrite 1 (replicate 65536 0), CmdWriterTurn, CmdReadEnd] = (st', []) \<and> sn_streams st' = [(1, 7)]"
  using anytls_large_write_kills_session [of "(new_session example_factory)\<lparr>sn_streams := [(1, 7)]\<rparr>" "replicate 65536 0" 1]
  by (auto simp: new_session_def)

end
