(* ===== verification/Anytls_Client.thy ===== *)
theory Anytls_Client
  imports Anytls_Session Kernel_Dns
begin

text \<open>
  The client side of \<open>neoncore-kernel/src/adapter/anytls.rs\<close>: the table of clients, the pool of idle
  sessions, the reading half of a stream, and UDP over TCP (the table of packet connections and the
  reader that hands replies to the demultiplexer).
\<close>

section \<open>The table of clients\<close>

text \<open>
  \<open>CLIENTS\<close> holds weak references: \<open>cl_alive\<close> says whether the client still exists. \<open>resolved\<close> is
  the outcome of the resolver, \<open>i\<close> the new client. The table is unlocked in between: \<open>between\<close> is
  what other tasks make of it.
\<close>

record client_entry =
  cl_id :: nat
  cl_alive :: bool

type_synonym client_table = "(string \<times> client_entry) list"

definition client_lookup :: "string \<Rightarrow> client_table \<Rightarrow> nat option \<times> client_table" where
  "client_lookup key table =
    (case map_of table key of
       Some e \<Rightarrow> if cl_alive e then (Some (cl_id e), table)
         else (None, filter (\<lambda>x. cl_alive (snd x)) table)
     | None \<Rightarrow> (None, filter (\<lambda>x. cl_alive (snd x)) table))"

definition client_for :: "'e \<Rightarrow> ('e, socket_addr list) res \<Rightarrow> nat \<Rightarrow> (client_table \<Rightarrow> client_table)
    \<Rightarrow> anytls_config \<Rightarrow> client_table \<Rightarrow> ('e, nat \<times> anytls_config option) res \<times> client_table" where
  "client_for no_address resolved i between c table =
    (case client_lookup (anytls_cache_key c) table of
       (Some k, table') \<Rightarrow> (Ok (k, None), table')
     | (None, table') \<Rightarrow>
         (case resolved of
            Inl e \<Rightarrow> (Inl e, between table')
          | Inr [] \<Rightarrow> (Err no_address, between table')
          | Inr (a # _) \<Rightarrow>
              (Ok (i, Some (c\<lparr>at_server := show_ip (sa_ip a)\<rparr>)),
               AList.update (anytls_cache_key c) \<lparr>cl_id = i, cl_alive = True\<rparr> (between table'))))"

section \<open>Idle sessions\<close>

record idle_session =
  idle_id :: nat
  idle_since :: nat

text \<open>\<open>closed\<close> tells which sessions are closed; the pool is used from the back.\<close>

function take_idle :: "(nat \<Rightarrow> bool) \<Rightarrow> idle_session list \<Rightarrow> nat option \<times> idle_session list" where
  "take_idle closed pool =
    (if pool = [] then (None, [])
     else if closed (idle_id (last pool)) then take_idle closed (butlast pool)
     else (Some (idle_id (last pool)), butlast pool))"
  by auto
termination by (relation "measure (\<lambda>(closed, pool). length pool)") auto

declare take_idle.simps [simp del]

definition release :: "(nat \<Rightarrow> bool) \<Rightarrow> nat \<Rightarrow> nat \<Rightarrow> idle_session list \<Rightarrow> idle_session list" where
  "release closed now i pool =
    (if closed i then pool else pool @ [\<lparr>idle_id = i, idle_since = now\<rparr>])"

text \<open>\<open>cleanup_idle\<close>: the pool that is kept, and the sessions it closes.\<close>

fun cleanup_from :: "(nat \<Rightarrow> bool) \<Rightarrow> nat \<Rightarrow> nat \<Rightarrow> nat \<Rightarrow> idle_session list \<Rightarrow> idle_session list
    \<Rightarrow> idle_session list \<times> nat list" where
  "cleanup_from closed now timeout min_idle [] kept = (kept, [])"
| "cleanup_from closed now timeout min_idle (e # es) kept =
    (let expired = timeout \<le> now - idle_since e
     in if closed (idle_id e) \<or> (expired \<and> min_idle \<le> length kept)
        then (case cleanup_from closed now timeout min_idle es kept of (k, cl) \<Rightarrow> (k, idle_id e # cl))
        else cleanup_from closed now timeout min_idle es (kept @ [e]))"

definition cleanup_idle :: "(nat \<Rightarrow> bool) \<Rightarrow> nat \<Rightarrow> anytls_config \<Rightarrow> idle_session list \<Rightarrow> idle_session list \<times> nat list" where
  "cleanup_idle closed now c pool = cleanup_from closed now (at_idle_timeout c) (at_min_idle c) pool []"

text \<open>
  The pool in use: \<open>AnyTlsClient::open_stream\<close> cleans up, takes an idle session or makes one (\<open>fresh\<close>,
  \<open>None\<close> when the connection fails), and the session comes back when its stream is dropped.
\<close>

record session_pool =
  sp_idle :: "idle_session list"
  sp_busy :: "nat list"
  sp_closed :: "nat list"

datatype pool_cmd = PoolOpen nat "nat option" | PoolDrop nat nat | PoolClosed nat

fun pool_next :: "anytls_config \<Rightarrow> session_pool \<Rightarrow> pool_cmd \<Rightarrow> session_pool" where
  "pool_next c p (PoolOpen now fresh) =
    (case cleanup_idle (\<lambda>i. i \<in> set (sp_closed p)) now c (sp_idle p) of (kept, shut) \<Rightarrow>
      (let closed = sp_closed p @ shut
       in case take_idle (\<lambda>i. i \<in> set closed) kept of
            (Some i, rest) \<Rightarrow> \<lparr>sp_idle = rest, sp_busy = i # sp_busy p, sp_closed = closed\<rparr>
          | (None, rest) \<Rightarrow>
              (case fresh of
                 Some i \<Rightarrow> \<lparr>sp_idle = rest, sp_busy = i # sp_busy p, sp_closed = closed\<rparr>
               | None \<Rightarrow> \<lparr>sp_idle = rest, sp_busy = sp_busy p, sp_closed = closed\<rparr>)))"
| "pool_next c p (PoolDrop now i) =
    (if i \<in> set (sp_busy p)
     then p\<lparr>sp_busy := remove1 i (sp_busy p),
            sp_idle := release (\<lambda>i. i \<in> set (sp_closed p)) now i (sp_idle p)\<rparr>
     else p)"
| "pool_next c p (PoolClosed i) = p\<lparr>sp_closed := i # sp_closed p\<rparr>"

section \<open>The reading half of a stream\<close>

datatype synack_state = SynWaiting | SynDone | SynRefused string | SynLost

datatype stream_poll = PollData bytes | PollFailed string | PollPending

record anytls_reader =
  ar_synack :: "synack_state option"
  ar_current :: "bytes option"
  ar_incoming :: "bytes list"
  ar_open :: bool

text \<open>The loop of \<open>poll_read\<close>: what it returns, the current piece and the queue that is left.\<close>

fun read_loop :: "nat \<Rightarrow> bytes option \<Rightarrow> bytes list \<Rightarrow> bool \<Rightarrow> stream_poll \<times> bytes option \<times> bytes list" where
  "read_loop room current incoming opened =
    (let n = (case current of Some c \<Rightarrow> min (length c) room | None \<Rightarrow> 0)
     in if 0 < n then
          (let c = the current in
           (PollData (take n c), if drop n c = [] then None else Some (drop n c), incoming))
        else (case incoming of
            piece # rest \<Rightarrow> read_loop room (Some piece) rest opened
          | [] \<Rightarrow> (if opened then PollPending else PollData [], current, [])))"

declare read_loop.simps [simp del]

definition stream_poll_read :: "nat \<Rightarrow> anytls_reader \<Rightarrow> stream_poll \<times> anytls_reader" where
  "stream_poll_read room st =
    (case ar_synack st of
       Some (SynRefused message) \<Rightarrow> (PollFailed message, st\<lparr>ar_synack := None\<rparr>)
     | s \<Rightarrow>
         (let s' = (if s = Some SynWaiting then s else None)
          in case read_loop room (ar_current st) (ar_incoming st) (ar_open st) of
               (r, cur, inc) \<Rightarrow> (r, st\<lparr>ar_synack := s', ar_current := cur, ar_incoming := inc\<rparr>)))"

text \<open>Polls in a row, as long as they return data; the room of each poll is the reader's choice.\<close>

fun stream_reads :: "nat list \<Rightarrow> anytls_reader \<Rightarrow> bytes list \<times> anytls_reader" where
  "stream_reads [] st = ([], st)"
| "stream_reads (room # rooms) st =
    (case stream_poll_read room st of
       (PollData d, st') \<Rightarrow> (case stream_reads rooms st' of (ds, st'') \<Rightarrow> (d # ds, st''))
     | (_, st') \<Rightarrow> ([], st'))"

section \<open>UDP over TCP\<close>

definition udp_conn_key :: "target_address \<Rightarrow> string" where
  "udp_conn_key t = packet_target_key (host t) (target_port t)"

text \<open>The table of packet connections: a connection is closed or was last used at some time.\<close>

record udp_conn =
  uc_id :: nat
  uc_closed :: bool
  uc_last_used :: nat

type_synonym udp_table = "(string \<times> udp_conn) list"

definition udp_lookup :: "string \<Rightarrow> udp_table \<Rightarrow> udp_conn option" where
  "udp_lookup key table =
    (case map_of table key of Some c \<Rightarrow> if uc_closed c then None else Some c | None \<Rightarrow> None)"

text \<open>After the connection was opened, another task may have put one there.\<close>

definition udp_insert :: "string \<Rightarrow> udp_conn \<Rightarrow> udp_table \<Rightarrow> udp_conn \<times> udp_table" where
  "udp_insert key c table =
    (case udp_lookup key table of Some e \<Rightarrow> (e, table) | None \<Rightarrow> (c, AList.update key c table))"

definition remove_udp_conn :: "string \<Rightarrow> nat \<Rightarrow> udp_table \<Rightarrow> udp_table" where
  "remove_udp_conn key i table =
    (case map_of table key of
       Some c \<Rightarrow> if uc_id c = i then AList.delete key table else table | None \<Rightarrow> table)"

definition cleanup_udp :: "nat \<Rightarrow> anytls_config \<Rightarrow> udp_table \<Rightarrow> udp_table" where
  "cleanup_udp now c table =
    filter (\<lambda>(k, u). \<not> uc_closed u \<and> now - uc_last_used u < at_idle_timeout c) table"

definition udp_conn_for :: "string \<Rightarrow> (anytls_error, udp_conn) res \<Rightarrow> udp_table
    \<Rightarrow> (anytls_error, udp_conn) res \<times> udp_table" where
  "udp_conn_for key opened table =
    (case udp_lookup key table of
       Some c \<Rightarrow> (Ok c, table)
     | None \<Rightarrow> (case opened of
           Inl e \<Rightarrow> (Inl e, table)
         | Inr c \<Rightarrow> (case udp_insert key c table of (c', table') \<Rightarrow> (Ok c', table'))))"

text \<open>
  \<open>send_uot\<close>: one attempt on the table's connection; when it fails, the connection is closed and
  removed and a second attempt made on a new one. \<open>send\<close> is the outcome of \<open>AnyTlsUdpConn::send\<close>.
\<close>

definition send_uot :: "nat \<Rightarrow> anytls_config \<Rightarrow> (nat \<Rightarrow> (anytls_error, udp_conn) res)
    \<Rightarrow> (nat \<Rightarrow> udp_conn \<Rightarrow> (anytls_error, bytes) res) \<Rightarrow> target_address \<Rightarrow> udp_table
    \<Rightarrow> (anytls_error, bytes) res \<times> udp_table" where
  "send_uot now c opened send t table =
    (let key = udp_conn_key t
     in case udp_conn_for key (opened 0) (cleanup_udp now c table) of
          (Inl e, table) \<Rightarrow> (Inl e, table)
        | (Inr conn, table) \<Rightarrow>
            (case send 0 conn of
               Inr response \<Rightarrow> (Ok response, table)
             | Inl _ \<Rightarrow>
                 (case udp_conn_for key (opened 1) (remove_udp_conn key (uc_id conn) table) of
                    (Inl e, table) \<Rightarrow> (Inl e, table)
                  | (Inr conn, table) \<Rightarrow> (send 1 conn, table))))"

text \<open>
  \<open>AnyTlsUdpConn::send\<close>, up to the point where it waits and from there on. The connection is the
  demultiplexer and the flag that says it is closed; \<open>written\<close> says whether the packet could be
  written. What it waits for is the outcome of its channel or the timeout.
\<close>

record udp_conn_state =
  us_pending :: demux_state
  us_closed :: bool

definition udp_close :: "udp_conn_state \<Rightarrow> udp_conn_state \<times> event list" where
  "udp_close c = (case fail_all ''AnyTLS UoT packet connection closed'' (us_pending c) of
     (d, ev) \<Rightarrow> (\<lparr>us_pending = d, us_closed = True\<rparr>, ev))"

definition udp_send_start :: "target_address \<Rightarrow> bytes \<Rightarrow> u64 \<Rightarrow> nat \<Rightarrow> bool \<Rightarrow> udp_conn_state
    \<Rightarrow> (anytls_error, bytes) res \<times> udp_conn_state \<times> event list" where
  "udp_send_start t payload rid ch written c =
    (if us_closed c then (Err AnytlsSessionClosed, c, [])
     else (case encode_uot_packet t payload of
         Inl e \<Rightarrow> (Inl e, c, [])
       | Inr packet \<Rightarrow>
           (let d = register (udp_conn_key t) rid ch (us_pending c)
            in if written then (Ok packet, c\<lparr>us_pending := d\<rparr>, [])
               else (case remove_by_id (udp_conn_key t) rid d of (d', ev) \<Rightarrow>
                 (case udp_close (c\<lparr>us_pending := d'\<rparr>) of (c', ev') \<Rightarrow>
                   (Err AnytlsWriterClosed, c', ev @ ev'))))))"

datatype wait_end = WaitReply reply | WaitDropped | WaitTimeout

definition udp_send_finish :: "target_address \<Rightarrow> u64 \<Rightarrow> wait_end \<Rightarrow> udp_conn_state
    \<Rightarrow> (anytls_error, bytes) res \<times> udp_conn_state \<times> event list" where
  "udp_send_finish t rid w c =
    (case w of
       WaitReply (Payload p) \<Rightarrow> (Ok p, c, [])
     | WaitReply (Failure e) \<Rightarrow> (Err (AnytlsServerError e), c, [])
     | WaitDropped \<Rightarrow>
         (case remove_by_id (udp_conn_key t) rid (us_pending c) of (d, ev) \<Rightarrow>
           (case udp_close (c\<lparr>us_pending := d\<rparr>) of (c', ev') \<Rightarrow> (Err AnytlsSessionClosed, c', ev @ ev')))
     | WaitTimeout \<Rightarrow>
         (case remove_by_id (udp_conn_key t) rid (us_pending c) of (d, ev) \<Rightarrow>
           (Err (AnytlsServerError ''AnyTLS UoT packet timed out''), c\<lparr>us_pending := d\<rparr>, ev)))"

text \<open>
  \<open>spawn_anytls_uot_reader\<close> over the bytes of its stream: packets are delivered to the waiters of
  their source until a packet cannot be read, then every waiter fails.
\<close>

lemma read_uot_shrinks:
  assumes "read_uot_packet c s = Ok (x, r)"
  shows "length r < length s"
  using assms
  by (auto simp: read_uot_packet_def read_uot_address_def read_tagged_target_def read_tagged_host_def
      rbind_Inr_iff read_exact_Ok_iff split: if_splits)

function uot_reader :: "string \<Rightarrow> demux_state \<Rightarrow> bytes \<Rightarrow> demux_state \<times> event list" where
  "uot_reader message d s =
    (case read_uot_packet False s of
       Inl e \<Rightarrow> fail_all message d
     | Inr ((destination, payload), rest) \<Rightarrow>
         (case destination of
            None \<Rightarrow> uot_reader message d rest
          | Some t \<Rightarrow> (case deliver (udp_conn_key t) (Payload payload) d of
                (d', b, ev) \<Rightarrow> (case uot_reader message d' rest of (d'', evs) \<Rightarrow> (d'', ev @ evs)))))"
  by auto
termination by (relation "measure (\<lambda>(m, d, s). length s)") (auto dest: read_uot_shrinks)

declare uot_reader.simps [simp del]

section \<open>Sessions are used by one stream at a time\<close>

lemma cleanup_from_split:
  assumes "cleanup_from closed now timeout m es kept = (k, cl)"
  shows "\<exists>more. k = kept @ more \<and> subseq more es \<and> (\<forall>e \<in> set more. \<not> closed (idle_id e))
    \<and> (\<forall>j < length more. timeout \<le> now - idle_since (more ! j) \<longrightarrow> length kept + j < m)
    \<and> min m (length kept + length (filter (\<lambda>e. \<not> closed (idle_id e)) es)) \<le> length k
    \<and> set cl \<subseteq> idle_id ` set es"
  using assms
proof (induction es arbitrary: kept k cl)
  case (Cons e es)
  show ?case
  proof (cases "closed (idle_id e) \<or> (timeout \<le> now - idle_since e \<and> m \<le> length kept)")
    case True
    obtain k' cl' where r: "cleanup_from closed now timeout m es kept = (k', cl')"
      by (cases "cleanup_from closed now timeout m es kept")
    from Cons.IH [OF r] obtain more where m: "k' = kept @ more" "subseq more es"
      "\<forall>e \<in> set more. \<not> closed (idle_id e)"
      "\<forall>j < length more. timeout \<le> now - idle_since (more ! j) \<longrightarrow> length kept + j < m"
      "min m (length kept + length (filter (\<lambda>e. \<not> closed (idle_id e)) es)) \<le> length k'"
      "set cl' \<subseteq> idle_id ` set es" by blast
    moreover have "k = k'" "cl = idle_id e # cl'" using Cons.prems True r by (auto simp: Let_def split: if_splits)
    moreover have "subseq more (e # es)" using m(2) by (rule list_emb_Cons)
    moreover have "min m (length kept + length (filter (\<lambda>e. \<not> closed (idle_id e)) (e # es))) \<le> length k'"
      using m(1,5) True by auto
    ultimately show ?thesis by (intro exI [of _ more]) auto
  next
    case False
    obtain k' cl' where r: "cleanup_from closed now timeout m es (kept @ [e]) = (k', cl')"
      by (cases "cleanup_from closed now timeout m es (kept @ [e])")
    from Cons.IH [OF r] obtain more where m: "k' = (kept @ [e]) @ more" "subseq more es"
      "\<forall>e \<in> set more. \<not> closed (idle_id e)"
      "\<forall>j < length more. timeout \<le> now - idle_since (more ! j) \<longrightarrow> length (kept @ [e]) + j < m"
      "min m (length (kept @ [e]) + length (filter (\<lambda>e. \<not> closed (idle_id e)) es)) \<le> length k'"
      "set cl' \<subseteq> idle_id ` set es" by blast
    have k: "k = k'" "cl = cl'" using Cons.prems False r by (auto simp: Let_def split: if_splits)
    have "timeout \<le> now - idle_since ((e # more) ! j) \<longrightarrow> length kept + j < m" if "j < length (e # more)" for j
      using that m(4) False by (cases j) auto
    then show ?thesis using m k False by (intro exI [of _ "e # more"]) auto
  qed
qed simp

lemma take_idle_split:
  assumes "take_idle closed pool = (r, rest)"
  shows "\<exists>gone. pool = rest @ gone \<and> (case r of
      Some i \<Rightarrow> \<not> closed i \<and> i \<in> idle_id ` set gone | None \<Rightarrow> rest = [])"
  using assms
proof (induction closed pool rule: take_idle.induct)
  case (1 closed pool)
  consider "pool = []" | "pool \<noteq> []" "closed (idle_id (last pool))" | "pool \<noteq> []" "\<not> closed (idle_id (last pool))"
    by blast
  then show ?case
  proof cases
    case 1
    then show ?thesis using "1.prems" by (simp add: take_idle.simps)
  next
    case 2
    then have "take_idle closed (butlast pool) = (r, rest)" using "1.prems" by (simp add: take_idle.simps [of _ pool])
    from "1.IH" [OF 2 this] obtain gone where g: "butlast pool = rest @ gone"
      "case r of Some i \<Rightarrow> \<not> closed i \<and> i \<in> idle_id ` set gone | None \<Rightarrow> rest = []" by blast
    have "pool = rest @ gone @ [last pool]" using g(1) 2(1) by (metis append_assoc append_butlast_last_id)
    then show ?thesis using g(2) by (intro exI [of _ "gone @ [last pool]"]) (auto split: option.splits)
  next
    case 3
    then show ?thesis using "1.prems"
      by (intro exI [of _ "[last pool]"]) (auto simp: take_idle.simps [of _ pool])
  qed
qed

definition pool_ok :: "session_pool \<Rightarrow> bool" where
  "pool_ok p \<longleftrightarrow> distinct (map idle_id (sp_idle p) @ sp_busy p)"

text \<open>A new session is none of those in use or idle.\<close>

fun pool_fresh :: "session_pool \<Rightarrow> pool_cmd \<Rightarrow> bool" where
  "pool_fresh p (PoolOpen now (Some i)) \<longleftrightarrow> i \<notin> set (map idle_id (sp_idle p) @ sp_busy p)"
| "pool_fresh p _ \<longleftrightarrow> True"

inductive pool_reachable :: "anytls_config \<Rightarrow> session_pool \<Rightarrow> bool" for c where
  pool_start: "pool_reachable c \<lparr>sp_idle = [], sp_busy = [], sp_closed = []\<rparr>"
| pool_step: "pool_reachable c p \<Longrightarrow> pool_fresh p cmd \<Longrightarrow> pool_reachable c (pool_next c p cmd)"

lemma subseq_set: "subseq xs ys \<Longrightarrow> set xs \<subseteq> set ys"
  by (auto elim: list_emb_set)

lemma distinct_subseq_ids:
  assumes "subseq xs ys" "distinct (map f ys)"
  shows "distinct (map f xs)"
  using assms
proof (induction rule: list_emb.induct)
  case (list_emb_Cons2 x y xs ys)
  then show ?case using subseq_set [of xs ys] by auto
qed auto

lemma pool_next_ok:
  assumes "pool_ok p" "pool_fresh p cmd"
  shows "pool_ok (pool_next c p cmd)"
proof (cases cmd)
  case (PoolOpen now fresh)
  obtain kept shut where cl: "cleanup_idle (\<lambda>i. i \<in> set (sp_closed p)) now c (sp_idle p) = (kept, shut)"
    by (cases "cleanup_idle (\<lambda>i. i \<in> set (sp_closed p)) now c (sp_idle p)")
  have sub: "subseq kept (sp_idle p)"
    using cleanup_from_split [OF cl [unfolded cleanup_idle_def]] by auto
  obtain r rest where t: "take_idle (\<lambda>i. i \<in> set (sp_closed p @ shut)) kept = (r, rest)"
    by (cases "take_idle (\<lambda>i. i \<in> set (sp_closed p @ shut)) kept")
  obtain gone where g: "kept = rest @ gone" "case r of
      Some i \<Rightarrow> i \<notin> set (sp_closed p @ shut) \<and> i \<in> idle_id ` set gone | None \<Rightarrow> rest = []"
    using take_idle_split [OF t] by auto
  have ids: "distinct (map idle_id kept)" "set (map idle_id kept) \<subseteq> set (map idle_id (sp_idle p))"
    using assms(1) distinct_subseq_ids [OF sub, of idle_id] subseq_set [OF sub]
    by (auto simp: pool_ok_def)
  show ?thesis
  proof (cases r)
    case (Some i)
    have dis: "idle_id ` set (sp_idle p) \<inter> set (sp_busy p) = {}" using assms(1) by (auto simp: pool_ok_def)
    have i: "i \<in> idle_id ` set gone" using g(2) Some by simp
    have "idle_id ` set gone \<subseteq> idle_id ` set (sp_idle p)" "idle_id ` set rest \<subseteq> idle_id ` set (sp_idle p)"
      "idle_id ` set rest \<inter> idle_id ` set gone = {}"
      using ids unfolding g(1) by auto
    then have "i \<notin> idle_id ` set rest" "i \<notin> set (sp_busy p)" "idle_id ` set rest \<inter> set (sp_busy p) = {}"
      using i dis by blast+
    then show ?thesis using assms(1) ids(1) PoolOpen cl t g(1) Some by (simp add: pool_ok_def Let_def)
  next
    case None
    then show ?thesis using assms PoolOpen cl t g by (cases fresh) (auto simp: pool_ok_def Let_def)
  qed
next
  case (PoolDrop now i)
  then show ?thesis using assms(1)
    by (auto simp: pool_ok_def release_def set_remove1_eq split: if_splits)
next
  case (PoolClosed i)
  then show ?thesis using assms(1) by (simp add: pool_ok_def)
qed

section \<open>Reading a stream\<close>

definition unread :: "anytls_reader \<Rightarrow> bytes" where
  "unread st = (case ar_current st of Some c \<Rightarrow> c | None \<Rightarrow> []) @ concat (ar_incoming st)"

lemma read_loop_data:
  assumes "0 < room" "read_loop room cur inc opened = (PollData d, cur', inc')"
  shows "(case cur of Some c \<Rightarrow> c | None \<Rightarrow> []) @ concat inc
      = d @ (case cur' of Some c \<Rightarrow> c | None \<Rightarrow> []) @ concat inc'
    \<and> (d = [] \<longrightarrow> \<not> opened \<and> inc' = [] \<and> (case cur of Some c \<Rightarrow> c | None \<Rightarrow> []) @ concat inc = [])"
  using assms
proof (induction room cur inc opened rule: read_loop.induct)
  case (1 room cur inc opened)
  note room = "1.prems"(1)
  show ?case
  proof (cases "0 < (case cur of Some c \<Rightarrow> min (length c) room | None \<Rightarrow> 0)")
    case True
    then obtain c where c: "cur = Some c" "c \<noteq> []" by (cases cur) auto
    then show ?thesis using "1.prems" room True
      by (auto simp: read_loop.simps [of room] Let_def split: if_splits)
  next
    case False
    then have empty: "(case cur of Some c \<Rightarrow> c | None \<Rightarrow> []) = []" using room by (cases cur) auto
    show ?thesis
    proof (cases inc)
      case Nil
      then show ?thesis using "1.prems" False empty
        by (auto simp: read_loop.simps [of room] Let_def split: if_splits)
    next
      case (Cons piece rest)
      then have "read_loop room (Some piece) rest opened = (PollData d, cur', inc')"
        using "1.prems" False by (simp add: read_loop.simps [of room cur])
      from "1.IH" [OF refl False Cons room this] show ?thesis using empty Cons by simp
    qed
  qed
qed

text \<open>A refused SYNACK is reported once; before and after it, polls read the data.\<close>

definition not_refused :: "anytls_reader \<Rightarrow> bool" where
  "not_refused st \<longleftrightarrow> (\<forall>m. ar_synack st \<noteq> Some (SynRefused m))"

lemma stream_poll_data:
  assumes "0 < room" "not_refused st" "stream_poll_read room st = (PollData d, st')"
  shows "unread st = d @ unread st' \<and> not_refused st' \<and> ar_open st' = ar_open st
    \<and> (d = [] \<longrightarrow> \<not> ar_open st \<and> unread st = [])"
proof -
  obtain r cur inc where l: "read_loop room (ar_current st) (ar_incoming st) (ar_open st) = (r, cur, inc)"
    by (metis prod_cases3)
  have "r = PollData d" and st': "ar_current st' = cur" "ar_incoming st' = inc" "ar_open st' = ar_open st"
      "not_refused st'"
    using assms(2,3) l
    by (auto simp: stream_poll_read_def not_refused_def Let_def split: option.splits synack_state.splits if_splits)
  then show ?thesis using read_loop_data [OF assms(1), of "ar_current st" "ar_incoming st" "ar_open st" d cur inc] l
    by (auto simp: unread_def)
qed

section \<open>Replies of UDP over TCP\<close>

lemma uot_reader_delivers:
  assumes "list_all2 (\<lambda>(t, p) bs. utf8_valid (as_bytes (host t)) \<and> encode_uot_packet t p = Ok bs) packets encoded"
  shows "uot_reader message d (concat encoded)
    = run_demux demux_step d (map (\<lambda>(t, p). Deliver (udp_conn_key (canonical_target t)) (Payload p)) packets
        @ [FailAll message])"
  using assms
proof (induction packets encoded arbitrary: d rule: list_all2_induct)
  case Nil
  have "read_uot_packet False [] = Err AnytlsEof"
    by (simp add: read_uot_packet_def read_uot_address_def read_tagged_target_def read_tagged_host_def read_exact_def)
  then show ?case by (simp add: uot_reader.simps [of _ _ "[]"] split: prod.split)
next
  case (Cons x packets bs encoded)
  obtain t p where x: "x = (t, p)" by (cases x)
  have "read_uot_packet False (bs @ concat encoded) = Ok ((Some (canonical_target t), p), concat encoded)"
    using Cons.hyps(1) x by (intro read_encoded_uot) auto
  then show ?case
    using Cons.IH x by (simp add: uot_reader.simps [of _ _ "bs @ concat encoded"] split: prod.split)
qed

section \<open>Properties\<close>

text \<open>
  C18: a session serves one stream at a time. However streams are opened and dropped, sessions fail
  and time passes, no session is idle twice, in use twice, or idle while it is in use.
\<close>

theorem anytls_sessions_exclusive:
  assumes "pool_reachable c p"
  shows "distinct (map idle_id (sp_idle p) @ sp_busy p)"
proof -
  have "pool_ok p" using assms
    by induction (auto intro: pool_next_ok simp: pool_ok_def [of "\<lparr>sp_idle = [], sp_busy = [], sp_closed = []\<rparr>"])
  then show ?thesis by (simp add: pool_ok_def)
qed

definition example_anytls_config :: anytls_config where
  "example_anytls_config = \<lparr>at_server = ''a'', at_server_port = 443, at_password = ''p'', at_sni = ''a'',
     at_insecure = False, at_idle_timeout = 30000, at_min_idle = 0\<rparr>"

theorem anytls_sessions_exclusive_witness:
  "pool_next example_anytls_config (pool_next example_anytls_config (pool_next example_anytls_config
      \<lparr>sp_idle = [], sp_busy = [], sp_closed = []\<rparr> (PoolOpen 0 (Some 7))) (PoolDrop 5 7)) (PoolOpen 9 None)
    = \<lparr>sp_idle = [], sp_busy = [7], sp_closed = []\<rparr> \<and> distinct (map idle_id [] @ [7 :: nat])"
proof -
  let ?c = example_anytls_config and ?s = "\<lparr>sp_idle = [], sp_busy = [], sp_closed = []\<rparr>"
  have r: "pool_reachable ?c (pool_next ?c (pool_next ?c (pool_next ?c ?s (PoolOpen 0 (Some 7))) (PoolDrop 5 7)) (PoolOpen 9 None))"
    by (intro pool_reachable.intros) auto
  have e: "pool_next ?c (pool_next ?c (pool_next ?c ?s (PoolOpen 0 (Some 7))) (PoolDrop 5 7)) (PoolOpen 9 None)
      = \<lparr>sp_idle = [], sp_busy = [7], sp_closed = []\<rparr>" by code_simp
  from anytls_sessions_exclusive [OF r] show ?thesis unfolding e by simp
qed

text \<open>
  Cleaning up keeps what it should. The pool that is left is a part of the old one in its order,
  without closed sessions; a session past its idle timeout is only kept among the first of the
  configured minimum; and at least that minimum stays, as far as there are open sessions.
\<close>

theorem anytls_cleanup_keeps_minimum:
  assumes "cleanup_idle closed now c pool = (kept, shut)"
  shows "subseq kept pool \<and> (\<forall>e \<in> set kept. \<not> closed (idle_id e))
    \<and> (\<forall>j < length kept. at_idle_timeout c \<le> now - idle_since (kept ! j) \<longrightarrow> j < at_min_idle c)
    \<and> min (at_min_idle c) (length (filter (\<lambda>e. \<not> closed (idle_id e)) pool)) \<le> length kept"
  using cleanup_from_split [OF assms [unfolded cleanup_idle_def]] by auto

theorem anytls_cleanup_keeps_minimum_witness:
  "\<forall>e \<in> set (fst (cleanup_idle (\<lambda>i. i = 2) 60000 (example_anytls_config\<lparr>at_min_idle := 1\<rparr>)
      [\<lparr>idle_id = 1, idle_since = 0\<rparr>, \<lparr>idle_id = 2, idle_since = 59000\<rparr>, \<lparr>idle_id = 3, idle_since = 5\<rparr>])).
    idle_id e \<noteq> 2"
  using anytls_cleanup_keeps_minimum [OF surjective_pairing, of "\<lambda>i. i = 2" 60000
      "example_anytls_config\<lparr>at_min_idle := 1\<rparr>"] by simp

text \<open>
  C19: a stream is read in order and completely. Polls with room for at least one byte return, one
  after the other, exactly the bytes that arrived, in whatever pieces they came; an empty result
  means that the stream has ended and every byte was returned.
\<close>

theorem anytls_reads_in_order:
  assumes "\<forall>room \<in> set rooms. 0 < room" "not_refused st" "stream_reads rooms st = (ds, st')"
  shows "\<exists>lost. unread st = concat ds @ lost \<and> ([] \<in> set ds \<longrightarrow> \<not> ar_open st \<and> lost = [])"
  using assms
proof (induction rooms arbitrary: st ds st')
  case Nil
  then show ?case by simp
next
  case (Cons room rooms)
  obtain r st1 where r: "stream_poll_read room st = (r, st1)" by (cases "stream_poll_read room st")
  show ?case
  proof (cases r)
    case (PollData d)
    have room: "0 < room" using Cons.prems(1) by simp
    from stream_poll_data [OF this Cons.prems(2) r [unfolded PollData]]
    have d: "unread st = d @ unread st1" "not_refused st1" "ar_open st1 = ar_open st"
      "d = [] \<longrightarrow> \<not> ar_open st \<and> unread st = []" by auto
    obtain ds1 st2 where rest: "stream_reads rooms st1 = (ds1, st2)" by (cases "stream_reads rooms st1")
    obtain lost where l: "unread st1 = concat ds1 @ lost" "[] \<in> set ds1 \<longrightarrow> \<not> ar_open st1 \<and> lost = []"
      using Cons.IH [OF _ d(2) rest] Cons.prems(1) by auto
    have "ds = d # ds1" using Cons.prems(3) r PollData rest by simp
    then show ?thesis using d l by auto
  qed (use Cons.prems(3) r in auto)
qed

theorem anytls_reads_in_order_witness:
  "\<exists>lost. [1, 2, 3, 4, 5] = concat (fst (stream_reads [2, 9, 9]
      \<lparr>ar_synack = Some SynWaiting, ar_current = None, ar_incoming = [[1, 2, 3], [], [4, 5]], ar_open = True\<rparr>)) @ lost"
  using anytls_reads_in_order [OF _ _ surjective_pairing, of "[2, 9, 9]"
      "\<lparr>ar_synack = Some SynWaiting, ar_current = None, ar_incoming = [[1, 2, 3], [], [4, 5]], ar_open = True\<rparr>"]
  by (auto simp: unread_def not_refused_def)

text \<open>
  A poll without room loses data. When the reader's buffer has no room left, the poll takes the
  next piece from the queue over the one it was still returning, and the bytes of that are gone.
\<close>

theorem anytls_empty_poll_loses_data:
  "stream_poll_read 0 \<lparr>ar_synack = None, ar_current = Some c, ar_incoming = [d], ar_open = True\<rparr>
    = (PollPending, \<lparr>ar_synack = None, ar_current = Some d, ar_incoming = [], ar_open = True\<rparr>)"
  by (simp add: stream_poll_read_def read_loop.simps [of 0])

text \<open>
  The reader of UDP over TCP is the demultiplexer fed with the packets. For any packets encoded
  one after the other on its stream, it delivers each payload under the key of its (canonical)
  target, in order, and fails every request that is still waiting when the stream ends.
\<close>

theorem anytls_uot_reader_delivers:
  assumes "list_all2 (\<lambda>(t, p) bs. utf8_valid (as_bytes (host t)) \<and> encode_uot_packet t p = Ok bs) packets encoded"
  shows "uot_reader message d (concat encoded)
    = run_demux demux_step d (map (\<lambda>(t, p). Deliver (udp_conn_key (canonical_target t)) (Payload p)) packets
        @ [FailAll message])"
  using uot_reader_delivers [OF assms] .

theorem anytls_uot_reader_delivers_witness:
  "uot_reader ''closed'' (register ''ab:53'' 1 7 new_demux) [2, 2, 97, 98, 0, 53, 0, 1, 9]
    = (new_demux, [(7, Sent (Payload [9]))])"
proof -
  have "list_all2 (\<lambda>(t, p) bs. utf8_valid (as_bytes (host t)) \<and> encode_uot_packet t p = Ok bs)
      [(\<lparr>host = ''ab'', target_port = 53\<rparr>, [9])] [[2, 2, 97, 98, 0, 53, 0, 1, 9]]"
    by code_simp
  from anytls_uot_reader_delivers [OF this, of "''closed''" "register ''ab:53'' 1 7 new_demux"]
  have "uot_reader ''closed'' (register ''ab:53'' 1 7 new_demux) [2, 2, 97, 98, 0, 53, 0, 1, 9]
    = run_demux demux_step (register ''ab:53'' 1 7 new_demux)
        [Deliver (udp_conn_key (canonical_target \<lparr>host = ''ab'', target_port = 53\<rparr>)) (Payload [9]), FailAll ''closed'']"
    by simp
  also have "\<dots> = (new_demux, [(7, Sent (Payload [9]))])" by code_simp
  finally show ?thesis .
qed

end
