(* ===== verification/Hysteria2.thy ===== *)
theory Hysteria2
  imports Kernel_Dns Vless_Config Rust_Lines "HOL-Library.AList"
begin

unbundle bit_operations_syntax

text \<open>
  \<open>neoncore-kernel/src/adapter/hysteria2.rs\<close>: the configuration of a node, the cache of clients and
  the retry of \<open>connect\<close>, the messages and the Salamander obfuscation. The client of the \<open>hysteria2\<close>
  package (QUIC) and the hash are parameters.
\<close>

section \<open>Configuration\<close>

datatype hy2_obfs = Salamander string | Gecko string

datatype bbr_profile = Conservative | Standard | Aggressive

record hy2_config =
  hy_server :: string
  hy_server_port :: u16
  hy_auth :: string
  hy_sni :: string
  hy_insecure :: bool
  hy_obfs :: "hy2_obfs option"
  hy_port_range :: "(u16 \<times> u16) option"
  hy_fast_open :: bool
  hy_udp_timeout_ms :: nat
  hy_bbr :: bbr_profile

text \<open>The errors of the client library that \<open>is_session_level_error\<close> names, and the others.\<close>

datatype hysteria_error =
    QuicConnectionError
  | QuicConnectError
  | QuicWriteError
  | QuicStreamClosed
  | H3ConnectionError
  | OtherError string

datatype hy2_error =
    Hy2NoAuth
  | SalamanderNoPassword
  | GeckoNoPassword
  | UnsupportedObfs string
  | UnsupportedBbr string
  | InvalidPort string
  | InvalidPortRange
  | Hy2Resolve dns_error
  | Hy2NoAddress
  | Hy2ConnectFailed hysteria_error
  | Hy2ReconnectFailed hysteria_error hysteria_error
  | Hy2RelayFailed hysteria_error
  | ResponseEmpty
  | ResponseStatus byte
  | MessageTruncated
  | PaddingTruncated
  | VarintTruncated
  | NotUtf8
  | UdpTooShort
  | UdpFragment
  | UdpAddressTruncated
  | SalamanderTooShort
  | DatagramTooLarge

definition hy2_bool_param :: "kernel_node \<Rightarrow> string list \<Rightarrow> bool option" where
  "hy2_bool_param n keys =
    map_option (\<lambda>v. v \<in> {''1'', ''true'', ''yes'', ''on''}) (first_parameter n keys)"

definition parse_bbr_profile :: "string option \<Rightarrow> (hy2_error, bbr_profile) res" where
  "parse_bbr_profile v =
    (let text = to_ascii_lowercase (or_default ''standard'' v)
     in if text = ''conservative'' then Ok Conservative
        else if text = '''' \<or> text = ''standard'' then Ok Standard
        else if text = ''aggressive'' then Ok Aggressive
        else Err (UnsupportedBbr text))"

definition parse_port :: "string \<Rightarrow> (hy2_error, u16) res" where
  "parse_port s = from_option (InvalidPort s) (parse_u16 (str_trim s))"

definition parse_port_hopping_range :: "string option \<Rightarrow> (hy2_error, (u16 \<times> u16) option) res" where
  "parse_port_hopping_range value =
    (case value of
       None \<Rightarrow> Ok None
     | Some v \<Rightarrow>
         (case split_once (CHR ''-'') v of
            Some (lo, hi) \<Rightarrow>
              rbind (parse_port lo) (\<lambda>s. rbind (parse_port hi) (\<lambda>e.
                if e < s then Err InvalidPortRange else Ok (Some (s, e))))
          | None \<Rightarrow> rbind (parse_port v) (\<lambda>p. Ok (Some (p, p)))))"

definition obfs_from_node :: "kernel_node \<Rightarrow> (hy2_error, hy2_obfs option) res" where
  "obfs_from_node n =
    (let password = first_parameter n [''obfs-password'', ''obfs_password'']
     in case parameter n ''obfs'' of
          None \<Rightarrow> Ok None
        | Some v \<Rightarrow>
            (if v = ''salamander'' then
               rbind (from_option SalamanderNoPassword password) (\<lambda>p. Ok (Some (Salamander p)))
             else if v = ''gecko'' then
               rbind (from_option GeckoNoPassword password) (\<lambda>p. Ok (Some (Gecko p)))
             else Err (UnsupportedObfs v)))"

definition hy2_from_node :: "kernel_node \<Rightarrow> (hy2_error, hy2_config) res" where
  "hy2_from_node n =
    (if user_id n = [] then Err Hy2NoAuth
     else rbind (obfs_from_node n) (\<lambda>obfs.
          rbind (parse_port_hopping_range (parameter n ''mport'')) (\<lambda>range.
          rbind (parse_bbr_profile (first_parameter n [''bbr-profile'', ''bbr_profile''])) (\<lambda>bbr.
            Ok \<lparr>hy_server = server n, hy_server_port = server_port n, hy_auth = user_id n,
              hy_sni = or_default (server n) (first_parameter n [''sni'', ''peer'']),
              hy_insecure = (case first_parameter n [''insecure'', ''skip-cert-verify'', ''skip_cert_verify''] of
                  Some v \<Rightarrow> v \<in> {''1'', ''true'', ''yes''} | None \<Rightarrow> False),
              hy_obfs = obfs, hy_port_range = range,
              hy_fast_open = or_default True (hy2_bool_param n [''fast-open'', ''fast_open'']),
              hy_udp_timeout_ms = or_default 15000 (Option.bind
                (first_parameter n [''udp-timeout-ms'', ''udp_timeout_ms'']) (parse_unsigned (2 ^ 64 - 1))),
              hy_bbr = bbr\<rparr>))))"

text \<open>
  The key of the cache. \<open>debug\<close> is how \<open>{:?}\<close> prints the options behind the first five fields.
\<close>

definition hy2_cache_key :: "(hy2_obfs option \<Rightarrow> string) \<Rightarrow> ((u16 \<times> u16) option \<Rightarrow> string) \<Rightarrow> (bbr_profile \<Rightarrow> string)
    \<Rightarrow> hy2_config \<Rightarrow> string" where
  "hy2_cache_key debug_obfs debug_range debug_bbr c =
    str_join '':'' [hy_server c, show_nat (unat (hy_server_port c)), hy_auth c, hy_sni c, show_bool (hy_insecure c),
      debug_obfs (hy_obfs c), debug_range (hy_port_range c), show_bool (hy_fast_open c),
      show_nat (hy_udp_timeout_ms c), debug_bbr (hy_bbr c)]"

section \<open>The cache of clients\<close>

definition HY2_CLIENT_POOL_SIZE :: nat where "HY2_CLIENT_POOL_SIZE = 4"

record hy2_pool =
  hp_clients :: "nat list"
  hp_next :: nat

type_synonym hy2_clients = "(string \<times> hy2_pool) list"

text \<open>The counter is a \<open>usize\<close> that wraps.\<close>

definition next_client :: "hy2_pool \<Rightarrow> nat option \<times> hy2_pool" where
  "next_client p =
    (if hp_clients p = [] then (None, p)
     else (Some (hp_clients p ! (hp_next p mod length (hp_clients p))),
           p\<lparr>hp_next := (hp_next p + 1) mod 2 ^ 64\<rparr>))"

definition cached_client :: "string \<Rightarrow> hy2_clients \<Rightarrow> nat option \<times> hy2_clients" where
  "cached_client key table =
    (case map_of table key of
       None \<Rightarrow> (None, table)
     | Some p \<Rightarrow> (case next_client p of (r, p') \<Rightarrow> (r, AList.update key p' table)))"

definition remove_cached_client :: "string \<Rightarrow> hy2_clients \<Rightarrow> hy2_clients" where
  "remove_cached_client key table = AList.delete key table"

text \<open>The second lock: \<open>fresh\<close> is the client made in between, and other tasks may have changed the table.\<close>

definition insert_client :: "nat \<Rightarrow> string \<Rightarrow> hy2_clients \<Rightarrow> nat \<times> hy2_clients" where
  "insert_client fresh key table =
    (let p = (case map_of table key of Some p \<Rightarrow> p | None \<Rightarrow> \<lparr>hp_clients = [], hp_next = 0\<rparr>)
     in if length (hp_clients p) < HY2_CLIENT_POOL_SIZE
        then (fresh, AList.update key (p\<lparr>hp_clients := hp_clients p @ [fresh]\<rparr>) table)
        else (case next_client p of (r, p') \<Rightarrow> (or_default fresh r, AList.update key p' table)))"

definition get_or_connect_client :: "nat \<Rightarrow> (hy2_clients \<Rightarrow> hy2_clients) \<Rightarrow> string \<Rightarrow> hy2_clients \<Rightarrow> nat \<times> hy2_clients" where
  "get_or_connect_client fresh between key table =
    (case cached_client key table of
       (Some c, table') \<Rightarrow> (c, table')
     | (None, table') \<Rightarrow> insert_client fresh key (between table'))"

section \<open>Connecting\<close>

definition is_session_level_error :: "hysteria_error \<Rightarrow> bool" where
  "is_session_level_error e \<longleftrightarrow>
    e \<in> {QuicConnectionError, QuicConnectError, QuicWriteError, QuicStreamClosed, H3ConnectionError}"

text \<open>
  \<open>connect\<close> behind the configuration and the lookup: \<open>dial k c a\<close> is the outcome of the \<open>k\<close>th
  \<open>tcp_connect\<close> on client \<open>c\<close>; \<open>fresh k\<close> the client made for it if one is made. The address of the
  server is part of the key.
\<close>

definition hy2_connect :: "(hy2_config \<Rightarrow> string) \<Rightarrow> (dns_error, socket_addr list) res
    \<Rightarrow> (nat \<Rightarrow> nat) \<Rightarrow> (nat \<Rightarrow> hy2_clients \<Rightarrow> hy2_clients)
    \<Rightarrow> (nat \<Rightarrow> nat \<Rightarrow> string \<Rightarrow> hysteria_error + 's)
    \<Rightarrow> kernel_node \<Rightarrow> target_address \<Rightarrow> hy2_clients \<Rightarrow> (hy2_error, 's) res \<times> hy2_clients" where
  "hy2_connect key_of resolved fresh between dial n t table =
    (case hy2_from_node n of
       Inl e \<Rightarrow> (Inl e, table)
     | Inr config \<Rightarrow>
         (case resolved of
            Inl Panic \<Rightarrow> (Inl Panic, table)
          | Inl (Fail e) \<Rightarrow> (Err (Hy2Resolve e), table)
          | Inr [] \<Rightarrow> (Err Hy2NoAddress, table)
          | Inr (a # _) \<Rightarrow>
              (let key = key_of (config\<lparr>hy_server := show_ip (sa_ip a)\<rparr>)
               in case get_or_connect_client (fresh 0) (between 0) key table of
                    (client, table) \<Rightarrow>
                      (case dial 0 client (show_target t) of
                         Inr stream \<Rightarrow> (Ok stream, table)
                       | Inl first \<Rightarrow>
                           (if \<not> is_session_level_error first then (Err (Hy2ConnectFailed first), table)
                            else (case get_or_connect_client (fresh 1) (between 1) key
                                (remove_cached_client key table) of
                                (client, table) \<Rightarrow>
                                  (case dial 1 client (show_target t) of
                                     Inr stream \<Rightarrow> (Ok stream, table)
                                   | Inl e \<Rightarrow> (Err (Hy2ReconnectFailed e first), table))))))))"

text \<open>\<open>send_udp\<close>: one exchange on a client of the cache, never repeated.\<close>

definition hy2_send_udp :: "(hy2_config \<Rightarrow> string) \<Rightarrow> (dns_error, socket_addr list) res
    \<Rightarrow> nat \<Rightarrow> (hy2_clients \<Rightarrow> hy2_clients) \<Rightarrow> (nat \<Rightarrow> string \<Rightarrow> bytes \<Rightarrow> hysteria_error + bytes)
    \<Rightarrow> kernel_node \<Rightarrow> target_address \<Rightarrow> bytes \<Rightarrow> hy2_clients \<Rightarrow> (hy2_error, bytes) res \<times> hy2_clients" where
  "hy2_send_udp key_of resolved fresh between exchange n t payload table =
    (case hy2_from_node n of
       Inl e \<Rightarrow> (Inl e, table)
     | Inr config \<Rightarrow>
         (case resolved of
            Inl Panic \<Rightarrow> (Inl Panic, table)
          | Inl (Fail e) \<Rightarrow> (Err (Hy2Resolve e), table)
          | Inr [] \<Rightarrow> (Err Hy2NoAddress, table)
          | Inr (a # _) \<Rightarrow>
              (case get_or_connect_client fresh between (key_of (config\<lparr>hy_server := show_ip (sa_ip a)\<rparr>)) table of
                 (client, table) \<Rightarrow>
                   (case exchange client (show_target t) payload of
                      Inr reply \<Rightarrow> (Ok reply, table)
                    | Inl e \<Rightarrow> (Err (Hy2RelayFailed e), table)))))"

text \<open>The configuration handed to the client library.\<close>

record hy2_client_config =
  hc_auth :: string
  hc_server_addr :: string
  hc_server_name :: string
  hc_insecure :: bool
  hc_obfs :: "(string \<times> string) option"
  hc_port_range :: "(u16 \<times> u16) option"
  hc_fast_open :: bool
  hc_udp_timeout_ms :: nat
  hc_bbr :: bbr_profile

definition hysteria2_config :: "hy2_config \<Rightarrow> hy2_client_config" where
  "hysteria2_config c =
    \<lparr>hc_auth = hy_auth c, hc_server_addr = hy_server c @ '':'' @ show_nat (unat (hy_server_port c)),
     hc_server_name = hy_sni c, hc_insecure = hy_insecure c,
     hc_obfs = map_option (\<lambda>ob. case ob of Salamander p \<Rightarrow> (''salamander'', p) | Gecko p \<Rightarrow> (''gecko'', p)) (hy_obfs c),
     hc_port_range = hy_port_range c, hc_fast_open = hy_fast_open c, hc_udp_timeout_ms = hy_udp_timeout_ms c,
     hc_bbr = hy_bbr c\<rparr>"

section \<open>Variable-length integers\<close>

definition write_quic_varint :: "u64 \<Rightarrow> bytes" where
  "write_quic_varint v =
    (if v \<le> 63 then [ucast v]
     else if v \<le> 16383 then to_be 2 (unat ((ucast v :: u16) OR 0x4000))
     else if v \<le> 1073741823 then to_be 4 (unat ((ucast v :: u32) OR 0x80000000))
     else to_be 8 (unat (v OR 0xC000000000000000)))"

text \<open>The reader takes an offset into the input and moves it.\<close>

definition read_quic_varint :: "bytes \<Rightarrow> nat \<Rightarrow> (hy2_error, u64 \<times> nat) res" where
  "read_quic_varint input offset =
    (if length input \<le> offset then Err VarintTruncated
     else rbind (idx input offset) (\<lambda>first.
       let tag = drop_bit 6 first;
           len = (if tag = 0 then 1 else if tag = 1 then 2 else if tag = 2 then 4 else 8)
       in if length input < offset + len then Err VarintTruncated
          else if len = 1 then Ok (ucast (first AND 0x3F), offset + 1)
          else rbind (slice_of input offset (offset + len)) (\<lambda>bs.
            let raw = of_nat (be_nat bs) :: u64
            in Ok (raw AND (if len = 2 then 0x3FFF else if len = 4 then 0x3FFFFFFF else 0x3FFFFFFFFFFFFFFF),
                   offset + len))))"

section \<open>Messages\<close>

record hy2_tcp_response =
  tr_ok :: bool
  tr_message :: string

record hy2_udp_message =
  um_session :: u32
  um_packet :: u16
  um_fragment :: byte
  um_count :: byte
  um_address :: string
  um_payload :: bytes

definition hy2_build_tcp_request :: "string \<Rightarrow> bytes \<Rightarrow> bytes" where
  "hy2_build_tcp_request address pad =
    write_quic_varint 0x401 @ write_quic_varint (of_nat (length address)) @ as_bytes address
    @ write_quic_varint (of_nat (length pad)) @ pad"

definition parse_tcp_response :: "bytes \<Rightarrow> (hy2_error, hy2_tcp_response) res" where
  "parse_tcp_response input =
    (if input = [] then Err ResponseEmpty
     else rbind (if input ! 0 = 0 then Ok True else if input ! 0 = 1 then Ok False
                 else Err (ResponseStatus (input ! 0))) (\<lambda>ok.
          rbind (read_quic_varint input 1) (\<lambda>(n, offset).
            let message_len = unat n
            in if length input < offset + message_len then Err MessageTruncated
               else rbind (slice_of input offset (offset + message_len)) (\<lambda>m.
                    rbind (from_option NotUtf8 (from_utf8 m)) (\<lambda>message.
                    let offset = offset + message_len
                    in rbind (read_quic_varint input offset) (\<lambda>(p, offset).
                       if length input < offset + unat p then Err PaddingTruncated
                       else Ok \<lparr>tr_ok = ok, tr_message = message\<rparr>))))))"

definition build_udp_message :: "hy2_udp_message \<Rightarrow> bytes" where
  "build_udp_message m =
    to_be 4 (unat (um_session m)) @ to_be 2 (unat (um_packet m)) @ [um_fragment m, um_count m]
    @ write_quic_varint (of_nat (length (um_address m))) @ as_bytes (um_address m) @ um_payload m"

definition parse_udp_message :: "bytes \<Rightarrow> (hy2_error, hy2_udp_message) res" where
  "parse_udp_message input =
    (if length input < 8 then Err UdpTooShort
     else rbind (slice_of input 0 4) (\<lambda>s. rbind (slice_of input 4 6) (\<lambda>p.
          rbind (idx input 6) (\<lambda>fragment. rbind (idx input 7) (\<lambda>count.
          if count = 0 \<or> count \<le> fragment then Err UdpFragment
          else rbind (read_quic_varint input 8) (\<lambda>(n, offset).
            let address_len = unat n
            in if length input < offset + address_len then Err UdpAddressTruncated
               else rbind (slice_of input offset (offset + address_len)) (\<lambda>a.
                    rbind (from_option NotUtf8 (from_utf8 a)) (\<lambda>address.
                    rbind (slice_of input (offset + address_len) (length input)) (\<lambda>payload.
                      Ok \<lparr>um_session = of_nat (be_nat s), um_packet = of_nat (be_nat p), um_fragment = fragment,
                        um_count = count, um_address = address, um_payload = payload\<rparr>)))))))))"

section \<open>Salamander\<close>

text \<open>\<open>hash\<close> is BLAKE2b with 32 bytes of output over the key and the salt.\<close>

definition salamander_xor :: "(bytes \<Rightarrow> bytes) \<Rightarrow> bytes \<Rightarrow> bytes \<Rightarrow> bytes \<Rightarrow> bytes" where
  "salamander_xor hash payload key salt =
    (let h = hash (key @ salt) in map (\<lambda>(i, b). b XOR h ! (i mod length h)) (List.enumerate 0 payload))"

definition salamander_obfuscate :: "(bytes \<Rightarrow> bytes) \<Rightarrow> bytes \<Rightarrow> bytes \<Rightarrow> bytes \<Rightarrow> bytes" where
  "salamander_obfuscate hash salt packet key = salt @ salamander_xor hash packet key salt"

definition salamander_deobfuscate :: "(bytes \<Rightarrow> bytes) \<Rightarrow> bytes \<Rightarrow> bytes \<Rightarrow> (hy2_error, bytes) res" where
  "salamander_deobfuscate hash datagram key =
    (if length datagram < 8 then Err SalamanderTooShort
     else rbind (slice_of datagram 0 8) (\<lambda>salt. rbind (slice_of datagram 8 (length datagram)) (\<lambda>payload.
       Ok (salamander_xor hash payload key salt))))"

text \<open>
  \<open>recv_from\<close>: the receive buffer holds eight bytes more than the caller's, and the system cuts a
  longer datagram off. \<open>room\<close> is the size of the caller's buffer.
\<close>

definition salamander_recv :: "(bytes \<Rightarrow> bytes) \<Rightarrow> bytes \<Rightarrow> nat \<Rightarrow> bytes \<Rightarrow> (hy2_error, bytes) res" where
  "salamander_recv hash key room datagram =
    rbind (salamander_deobfuscate hash (take (room + 8) datagram) key) (\<lambda>decoded.
      if room < length decoded then Err DatagramTooLarge else Ok decoded)"

section \<open>Round trips\<close>

lemma or_tag_nat:
  assumes "(w :: nat) < 2 ^ k"
  shows "w OR push_bit k t = w + t * 2 ^ k"
proof -
  have w: "bit w n \<Longrightarrow> n < k" for n
    using assms by (metis bit_take_bit_iff take_bit_nat_eq_self_iff)
  have "w + push_bit k t = w OR push_bit k t"
    by (rule disjunctive_add) (use w in \<open>fastforce simp: bit_push_bit_iff\<close>)
  then show ?thesis by (simp add: push_bit_eq_mult)
qed

lemma or_tag:
  fixes w t :: "'a :: len word"
  assumes "unat w < 2 ^ k" "unat t * 2 ^ k < 2 ^ LENGTH('a)"
  shows "unat (w OR push_bit k t) = unat w + unat t * 2 ^ k"
proof -
  have "unat (push_bit k t) = take_bit LENGTH('a) (push_bit k (unat t))"
    by (simp add: unsigned_push_bit_eq)
  then have "unat (push_bit k t) = push_bit k (unat t)"
    using assms(2) by (simp add: push_bit_eq_mult take_bit_eq_mod)
  then show ?thesis using or_tag_nat [OF assms(1)] by (simp add: unsigned_or_eq)
qed

lemma quic_form:
  assumes "n < 2 ^ k" "8 * m = k + 2" "t < 4" "0 < m"
  shows "\<exists>b bs. to_be m (n + t * 2 ^ k) = b # bs \<and> drop_bit 6 b = of_nat t"
    and "be_nat (to_be m (n + t * 2 ^ k)) mod 2 ^ k = n"
proof -
  have N: "n + t * 2 ^ k < 256 ^ m"
  proof -
    have "n + t * 2 ^ k < 2 ^ k + t * 2 ^ k" using assms(1) by simp
    also have "\<dots> = Suc t * 2 ^ k" by simp
    also have "\<dots> \<le> 4 * 2 ^ k" using assms(3) by (intro mult_le_mono1) simp
    also have "\<dots> = 2 ^ (8 * m)" unfolding assms(2) by (simp add: power_add)
    also have "\<dots> = (256 :: nat) ^ m" by (simp add: power_mult)
    finally show ?thesis .
  qed
  then show "be_nat (to_be m (n + t * 2 ^ k)) mod 2 ^ k = n"
    using assms(1) by (simp add: be_nat_to_be_small)
  obtain b bs where b: "to_be m (n + t * 2 ^ k) = b # bs" using assms(4) by (cases "to_be m (n + t * 2 ^ k)") (auto dest: arg_cong [of _ _ length])
  have l: "length bs = m - 1" using arg_cong [OF b, of length] by simp
  have k: "k = 8 * (m - 1) + 6" using assms(2,4) by simp
  have "n + t * 2 ^ k = unat b * 256 ^ (m - 1) + be_nat bs"
    using be_nat_to_be_small [OF N] b l by (simp add: be_nat_Cons)
  moreover have "be_nat bs < 256 ^ (m - 1)" using be_nat_bound [of bs] l by simp
  ultimately have "(n + t * 2 ^ k) div 256 ^ (m - 1) = unat b" by simp
  then have "unat b div 64 = (n + t * 2 ^ k) div (256 ^ (m - 1) * 64)"
    by (simp add: div_mult2_eq)
  also have "256 ^ (m - 1) * 64 = (2 :: nat) ^ k" unfolding k by (simp add: power_add power_mult)
  also have "(n + t * 2 ^ k) div 2 ^ k = t" using assms(1) by simp
  finally have "unat (drop_bit 6 b) = t" by (simp add: unat_div_distrib drop_bit_eq_div)
  then have "drop_bit 6 b = of_nat t" by (metis of_nat_unat ucast_id)
  then show "\<exists>b bs. to_be m (n + t * 2 ^ k) = b # bs \<and> drop_bit 6 b = of_nat t" using b by blast
qed

lemma read_write_quic:
  assumes "unat v < 2 ^ 62" "length pre = o1"
  shows "read_quic_varint (pre @ write_quic_varint v @ rest) o1 = Ok (v, o1 + length (write_quic_varint v))"
proof -
  have word: "(of_nat x :: u64) AND mask k = v" if "x mod 2 ^ k = unat v" "k \<le> 64" for x k
  proof -
    have "take_bit k (of_nat x :: u64) = of_nat (x mod 2 ^ k)"
      by (simp only: take_bit_eq_mod [of k x, symmetric] of_nat_take_bit)
    then show ?thesis using that(1) by (simp only: take_bit_eq_mask of_nat_unat ucast_id)
  qed
  have masks: "(0x3FFF :: u64) = mask 14" "(0x3FFFFFFF :: u64) = mask 30" "(0x3FFFFFFFFFFFFFFF :: u64) = mask 62"
    by (simp_all add: mask_eq_exp_minus_1)
  have long: "read_quic_varint (pre @ w @ rest) o1 = Ok (v, o1 + m)"
    if m: "m = 2 \<and> t = 1 \<or> m = 4 \<and> t = 2 \<or> m = 8 \<and> t = 3" and k: "8 * m = k + 2" and n: "unat v < 2 ^ k"
      and w: "w = to_be m (unat v + t * 2 ^ k)" for m t k w
  proof -
    have t4: "t < 4" "0 < m" using m by auto
    obtain b bs where b: "w = b # bs" "drop_bit 6 b = of_nat t" using quic_form(1) [OF n k t4] w by auto
    have lw: "length w = m" using w by simp
    have raw: "be_nat w mod 2 ^ k = unat v" using quic_form(2) [OF n k t4] w by simp
    have "slice_of (pre @ w @ rest) o1 (o1 + m) = Ok w" using assms(2) lw by (simp add: slice_of_def)
    moreover have "idx (pre @ w @ rest) o1 = Ok b" using assms(2) b(1) by (simp add: idx_def nth_append)
    moreover have "(of_nat (be_nat w) :: u64) AND mask k = v" using word [OF raw] m k by auto
    ultimately show ?thesis using m k b lw assms(2)
      by (auto simp: read_quic_varint_def Let_def masks)
  qed
  have cast: "unat (ucast v :: 'a :: len word) = unat v" if "unat v < 2 ^ LENGTH('a)"
    using that by (simp add: unsigned_ucast_eq take_bit_eq_mod)
  consider "v \<le> 63" | "\<not> v \<le> 63" "v \<le> 16383" | "\<not> v \<le> 63" "\<not> v \<le> 16383" "v \<le> 1073741823"
    | "\<not> v \<le> 63" "\<not> v \<le> 16383" "\<not> v \<le> 1073741823" by blast
  then show ?thesis
  proof cases
    case 1
    then have n: "unat v \<le> 63" by (simp add: word_le_nat_alt)
    then have c: "unat (ucast v :: byte) = unat v" by (intro cast) simp
    have "unat (drop_bit 6 (ucast v :: byte)) = 0" using c n by (simp add: drop_bit_eq_div unat_div)
    then have tag: "drop_bit 6 (ucast v :: byte) = 0" by (simp only: unat_eq_0)
    have "(0x3F :: byte) = mask 6" by (simp add: mask_eq_exp_minus_1)
    then have "(ucast v :: byte) AND 0x3F = take_bit 6 (ucast v)" by (simp add: take_bit_eq_mask)
    moreover have "unat (take_bit 6 (ucast v) :: byte) = unat v"
      using c n by (simp add: take_bit_eq_mod unat_mod)
    ultimately have b: "unat ((ucast v :: byte) AND 0x3F) = unat v" by (simp only:)
    have "unat (ucast ((ucast v :: byte) AND 0x3F) :: u64) = unat v mod 2 ^ 64"
      unfolding unsigned_ucast_eq b by (simp add: take_bit_eq_mod)
    then have "unat (ucast ((ucast v :: byte) AND 0x3F) :: u64) = unat v" using n by simp
    then have "ucast ((ucast v :: byte) AND 0x3F) = v" by (rule unsigned_word_eqI)
    then show ?thesis using 1 tag assms(2)
      by (simp add: write_quic_varint_def read_quic_varint_def idx_def nth_append)
  next
    case 2
    then have n: "unat v < 2 ^ 14" by (simp add: word_le_nat_alt)
    then have c: "unat (ucast v :: u16) = unat v" by (intro cast) simp
    have "(0x4000 :: u16) = push_bit 14 1" by (simp add: push_bit_eq_mult)
    then have "unat ((ucast v :: u16) OR 0x4000) = unat v + 1 * 2 ^ 14"
      using or_tag [of "ucast v :: u16" 14 1] n c by simp
    then show ?thesis using 2 long [of 2 1 14 "write_quic_varint v"] n by (simp add: write_quic_varint_def)
  next
    case 3
    then have n: "unat v < 2 ^ 30" by (simp add: word_le_nat_alt)
    then have c: "unat (ucast v :: u32) = unat v" by (intro cast) simp
    have "(0x80000000 :: u32) = push_bit 30 2" by (simp add: push_bit_eq_mult)
    then have "unat ((ucast v :: u32) OR 0x80000000) = unat v + 2 * 2 ^ 30"
      using or_tag [of "ucast v :: u32" 30 2] n c by simp
    then show ?thesis using 3 long [of 4 2 30 "write_quic_varint v"] n by (simp add: write_quic_varint_def)
  next
    case 4
    have "(0xC000000000000000 :: u64) = push_bit 62 3" by (simp add: push_bit_eq_mult)
    then have "unat (v OR 0xC000000000000000) = unat v + 3 * 2 ^ 62"
      using or_tag [of v 62 3] assms(1) by simp
    then show ?thesis using 4 long [of 8 3 62 "write_quic_varint v"] assms(1) by (simp add: write_quic_varint_def)
  qed
qed

lemma write_quic_nonempty [simp]: "write_quic_varint v \<noteq> []"
  by (auto simp: write_quic_varint_def dest: arg_cong [of _ _ length])

lemma read_write_length:
  assumes "n < 2 ^ 62" "length pre = o1"
  shows "read_quic_varint (pre @ write_quic_varint (of_nat n) @ rest) o1
      = Ok (of_nat n, o1 + length (write_quic_varint (of_nat n)))"
    and "unat (of_nat n :: u64) = n"
proof -
  show n: "unat (of_nat n :: u64) = n" using assms(1) by (simp add: unat_of_nat)
  show "read_quic_varint (pre @ write_quic_varint (of_nat n) @ rest) o1
      = Ok (of_nat n, o1 + length (write_quic_varint (of_nat n)))"
    using assms n by (intro read_write_quic) simp_all
qed

lemma salamander_involution:
  "salamander_xor hash (salamander_xor hash payload key salt) key salt = payload"
  by (simp add: salamander_xor_def Let_def enumerate_map_upt xor.assoc list_eq_iff_nth_eq nth_enumerate_eq)

lemma salamander_xor_length [simp]: "length (salamander_xor hash p key salt) = length p"
  by (simp add: salamander_xor_def Let_def)

lemma take_enumerate: "take n (List.enumerate k xs) = List.enumerate k (take n xs)"
  by (induction xs arbitrary: n k) (auto simp: take_Cons split: nat.splits)

section \<open>Properties\<close>

text \<open>
  C36: a UDP message reads back as it was built. For every message whose fragment number is below its
  fragment count and whose address is text, parsing what was built returns the message itself.
\<close>

theorem hy2_udp_roundtrip:
  assumes "um_fragment m < um_count m" "utf8_valid (as_bytes (um_address m))" "length (um_address m) < 2 ^ 62"
  shows "parse_udp_message (build_udp_message m) = Ok m"
proof -
  let ?s = "to_be 4 (unat (um_session m))" and ?p = "to_be 2 (unat (um_packet m))"
  let ?v = "write_quic_varint (of_nat (length (um_address m)))"
  let ?head = "?s @ ?p @ [um_fragment m, um_count m]"
  let ?rest = "as_bytes (um_address m) @ um_payload m"
  have build: "build_udp_message m = ?head @ ?v @ ?rest" by (simp add: build_udp_message_def)
  have s: "slice_of (?head @ ?v @ ?rest) 0 4 = Ok ?s" by (simp add: slice_of_def)
  have p: "slice_of (?head @ ?v @ ?rest) 4 6 = Ok ?p" by (simp add: slice_of_def)
  have i: "idx (?head @ ?v @ ?rest) 6 = Ok (um_fragment m)" "idx (?head @ ?v @ ?rest) 7 = Ok (um_count m)"
    by (simp_all add: idx_def nth_append)
  have varint: "read_quic_varint (?head @ ?v @ ?rest) 8 = Ok (of_nat (length (um_address m)), 8 + length ?v)"
    by (rule read_write_length(1) [OF assms(3)]) simp
  have a: "slice_of (?head @ ?v @ ?rest) (8 + length ?v) (8 + length ?v + length (um_address m))
      = Ok (as_bytes (um_address m))" by (simp add: slice_of_def)
  have y: "slice_of (?head @ ?v @ ?rest) (8 + length ?v + length (um_address m)) (length (?head @ ?v @ ?rest))
      = Ok (um_payload m)" by (simp add: slice_of_def)
  have n: "be_nat ?s = unat (um_session m)" "be_nat ?p = unat (um_packet m)"
    using unsigned_less [of "um_session m", where 'a = nat] by (simp_all add: be_nat_to_be)
  have c: "\<not> (um_count m = 0 \<or> um_count m \<le> um_fragment m)" using assms(1) by auto
  have "8 \<le> length (?head @ ?v @ ?rest)" by simp
  then show ?thesis
    unfolding build parse_udp_message_def s p i varint rbind_simps prod.case Let_def read_write_length(2) [OF assms(3)]
    using c a y n assms(2) by (simp add: from_utf8_as_bytes read_write_length(2) [OF assms(3)])
qed

theorem hy2_udp_roundtrip_witness:
  "parse_udp_message (build_udp_message \<lparr>um_session = 7, um_packet = 3, um_fragment = 0, um_count = 1,
      um_address = ''a:53'', um_payload = [1, 2]\<rparr>)
    = Ok \<lparr>um_session = 7, um_packet = 3, um_fragment = 0, um_count = 1, um_address = ''a:53'', um_payload = [1, 2]\<rparr>"
proof -
  have "utf8_valid (as_bytes ''a:53'')" by code_simp
  then show ?thesis by (intro hy2_udp_roundtrip) simp_all
qed

text \<open>
  Salamander is undone by the peer. With the same key, a receiver whose buffer has room for the
  datagram gets exactly what was sent, for every salt of eight bytes and every hash; a larger datagram
  arrives cut to the buffer, and a foreign one of fewer than eight bytes is refused.
\<close>

theorem salamander_roundtrip:
  assumes "length salt = 8"
  shows "salamander_recv hash key room (salamander_obfuscate hash salt packet key) = Ok (take room packet)"
    and "length junk < 8 \<Longrightarrow> salamander_recv hash key room junk = Err SalamanderTooShort"
proof -
  have "take (room + 8) (salamander_obfuscate hash salt packet key)
      = salamander_obfuscate hash salt (take room packet) key"
    using assms by (simp add: salamander_obfuscate_def salamander_xor_def Let_def take_map take_enumerate)
  then show "salamander_recv hash key room (salamander_obfuscate hash salt packet key) = Ok (take room packet)"
    using assms by (simp add: salamander_recv_def salamander_deobfuscate_def salamander_obfuscate_def slice_of_def
        salamander_involution salamander_xor_length)
qed (simp add: salamander_recv_def salamander_deobfuscate_def)

theorem salamander_roundtrip_witness:
  "salamander_recv (\<lambda>x. replicate 32 (hd x)) [9] 1
    (salamander_obfuscate (\<lambda>x. replicate 32 (hd x)) [1, 2, 3, 4, 5, 6, 7, 8] [40, 41] [9]) = Ok [40]
    \<and> salamander_recv (\<lambda>x. replicate 32 (hd x)) [9] 1 [3] = Err SalamanderTooShort"
  using salamander_roundtrip [of "[1, 2, 3, 4, 5, 6, 7, 8]"] by simp

text \<open>
  The client pool never holds more than one client when requests come one after the other. The
  cache is asked first and answers whenever its pool has a client, so the pool only grows beyond the
  first client when tasks race, although it is meant to hold four.
\<close>

theorem hy2_pool_never_grows:
  assumes "table = [] \<or> (\<exists>i n. map_of table key = Some \<lparr>hp_clients = [i], hp_next = n\<rparr>)"
    and "get_or_connect_client fresh id key table = (c, table')"
  shows "\<exists>n. map_of table' key = Some \<lparr>hp_clients = [c], hp_next = n\<rparr>"
  using assms
  by (auto simp: get_or_connect_client_def cached_client_def next_client_def insert_client_def Let_def
      HY2_CLIENT_POOL_SIZE_def update_conv')

theorem hy2_pool_never_grows_witness:
  "\<exists>n. map_of (snd (get_or_connect_client 5 id ''k'' (snd (get_or_connect_client 4 id ''k'' [])))) ''k''
    = Some \<lparr>hp_clients = [4], hp_next = n\<rparr>"
proof -
  have e: "get_or_connect_client 4 id ''k'' [] = (4, [(''k'', \<lparr>hp_clients = [4], hp_next = 0\<rparr>)])"
    "get_or_connect_client 5 id ''k'' [(''k'', \<lparr>hp_clients = [4], hp_next = 0\<rparr>)]
      = (4, [(''k'', \<lparr>hp_clients = [4], hp_next = 1\<rparr>)])" by code_simp+
  show ?thesis using hy2_pool_never_grows [OF _ e(2)] e by simp
qed

text \<open>
  Two different users can share a connection. The key of the cache joins the secret and the
  server name with a colon that either may contain, so moving the text behind a colon from one to
  the other gives another user the same key.
\<close>

theorem hy2_cache_key_collides:
  "hy2_cache_key debug_obfs debug_range debug_bbr (c\<lparr>hy_auth := a @ '':'' @ b, hy_sni := s\<rparr>)
    = hy2_cache_key debug_obfs debug_range debug_bbr (c\<lparr>hy_auth := a, hy_sni := b @ '':'' @ s\<rparr>)"
  by (simp add: hy2_cache_key_def)

text \<open>
  A connection is retried once, and only after the session failed. The adapter hands out a stream
  exactly when its first dial succeeds, or fails with an error of the session and the second dial
  succeeds; with any other error the first dial is the only one that counts.
\<close>

theorem hy2_connect_retries_once:
  assumes "hy2_from_node n = Ok config" "resolved = Ok (a # addresses)"
    and "fst (hy2_connect key_of resolved fresh between dial n t table) = Ok stream"
  shows "\<exists>c0. dial 0 c0 (show_target t) = Inr stream
    \<or> (\<exists>c1 e. dial 0 c0 (show_target t) = Inl e \<and> is_session_level_error e \<and> dial 1 c1 (show_target t) = Inr stream)"
  using assms
  by (auto simp: hy2_connect_def Let_def split: prod.splits sum.splits if_splits)

definition example_hy2_node :: kernel_node where
  "example_hy2_node = \<lparr>node_id = None, node_protocol = ''hy2'', server = ''a'', server_port = 443,
     user_id = ''u'', parameters = (\<lambda>_. None)\<rparr>"

theorem hy2_connect_retries_once_witness:
  "fst (hy2_connect hy_server (Ok [\<lparr>sa_ip = V4 0x01020304, sa_port = 443\<rparr>]) id (\<lambda>_. id)
      (\<lambda>k c a. if k = 0 then Inl QuicWriteError else Inr (c + 10)) example_hy2_node
      \<lparr>host = ''b'', target_port = 80\<rparr> []) = Ok 11
    \<and> (\<exists>c1. c1 + 10 = (11 :: nat))"
proof -
  let ?dial = "\<lambda>k c a. if k = 0 then Inl QuicWriteError else Inr (c + 10) :: hysteria_error + nat"
  obtain config where n: "hy2_from_node example_hy2_node = Ok config"
    by (simp add: hy2_from_node_def example_hy2_node_def obfs_from_node_def parse_port_hopping_range_def
        parse_bbr_profile_def parameter_def first_parameter_def or_default_def map_filter_def
        to_ascii_lowercase_def lower_char_def)
  have e: "fst (hy2_connect hy_server (Ok [\<lparr>sa_ip = V4 0x01020304, sa_port = 443\<rparr>]) id (\<lambda>_. id) ?dial
      example_hy2_node \<lparr>host = ''b'', target_port = 80\<rparr> []) = Ok 11" by code_simp
  from hy2_connect_retries_once [OF n refl e] e show ?thesis by auto
qed

end
