(* ===== verification/Ss_Options.thy ===== *)
theory Ss_Options
  imports Vless_Config Rust_Lines
begin

text \<open>
  The plugin options of the Shadowsocks adapter (end of \<open>adapter/shadowsocks/config.rs\<close>): a text of
  \<open>key=value\<close> items separated by semicolons, in which a backslash escapes the next character. The
  loops of the code carry the flag \<open>escaped\<close>; so do the definitions. Text is a list of bytes, and the
  three characters the loops look for are ASCII, so a byte and a character of the code agree on them.
\<close>

section \<open>Splitting and unescaping\<close>

abbreviation backslash :: char where
  "backslash \<equiv> CHR 0x5C"

fun split_options_loop :: "string list \<Rightarrow> string \<Rightarrow> bool \<Rightarrow> string \<Rightarrow> string list" where
  "split_options_loop items current escaped [] =
    items @ [if escaped then current @ [backslash] else current]"
| "split_options_loop items current escaped (c # r) =
    (if escaped then split_options_loop items (current @ [backslash, c]) False r
     else if c = backslash then split_options_loop items current True r
     else if c = CHR '';'' then split_options_loop (items @ [current]) [] False r
     else split_options_loop items (current @ [c]) False r)"

definition split_plugin_options :: "string \<Rightarrow> string list" where
  "split_plugin_options options = split_options_loop [] [] False options"

text \<open>The loop pushes to the key until it has seen an equals sign, then to the value.\<close>

fun option_pair_loop :: "string \<Rightarrow> string \<Rightarrow> bool \<Rightarrow> bool \<Rightarrow> string \<Rightarrow> (string \<times> string) option" where
  "option_pair_loop key val escaped seen [] =
    (let (key, val) = (if escaped then (if seen then (key, val @ [backslash]) else (key @ [backslash], val))
       else (key, val))
     in if seen then Some (key, val) else None)"
| "option_pair_loop key val escaped seen (c # r) =
    (if escaped then
       (if seen then option_pair_loop key (val @ [backslash, c]) False seen r
        else option_pair_loop (key @ [backslash, c]) val False seen r)
     else if c = backslash then option_pair_loop key val True seen r
     else if c = CHR ''='' \<and> \<not> seen then option_pair_loop key val False True r
     else if seen then option_pair_loop key (val @ [c]) False seen r
     else option_pair_loop (key @ [c]) val False seen r)"

definition split_plugin_option_pair :: "string \<Rightarrow> (string \<times> string) option" where
  "split_plugin_option_pair item = option_pair_loop [] [] False False item"

fun unescape_loop :: "string \<Rightarrow> bool \<Rightarrow> string \<Rightarrow> string" where
  "unescape_loop output escaped [] = (if escaped then output @ [backslash] else output)"
| "unescape_loop output escaped (c # r) =
    (if escaped then unescape_loop (output @ [c]) False r
     else if c = backslash then unescape_loop output True r
     else unescape_loop (output @ [c]) False r)"

definition unescape_plugin_option :: "string \<Rightarrow> string" where
  "unescape_plugin_option v = unescape_loop [] False v"

section \<open>The table of options\<close>

type_synonym option_values = "string \<rightharpoonup> string"

definition option_key :: "string \<Rightarrow> string" where
  "option_key key = to_ascii_lowercase (str_trim (unescape_plugin_option key))"

definition insert_option :: "option_values \<Rightarrow> string \<Rightarrow> option_values" where
  "insert_option opts item =
    (case split_plugin_option_pair item of
       None \<Rightarrow> opts
     | Some (key, val) \<Rightarrow>
         (if option_key key = [] then opts
          else opts(option_key key \<mapsto> str_trim (unescape_plugin_option val))))"

definition parse_plugin_options :: "string \<Rightarrow> option_values" where
  "parse_plugin_options options = foldl insert_option Map.empty (split_plugin_options options)"

text \<open>The options that tell how to start the plugin are not passed on to it.\<close>

definition launcher_keys :: "string set" where
  "launcher_keys = {''program'', ''path'', ''plugin'', ''plugin_program'', ''plugin-program'',
     ''plugin_path'', ''plugin-path''}"

definition passed_on :: "string \<Rightarrow> bool" where
  "passed_on item =
    (case split_plugin_option_pair item of Some (key, _) \<Rightarrow> option_key key \<notin> launcher_keys | None \<Rightarrow> True)"

definition sanitize_sip003_options :: "string \<Rightarrow> string" where
  "sanitize_sip003_options options =
    str_join '';'' (filter passed_on (split_plugin_options options))"

section \<open>Reading options\<close>

definition plugin_bool :: "option_values \<Rightarrow> string \<Rightarrow> bool" where
  "plugin_bool opts key =
    (case opts key of
       Some v \<Rightarrow> to_ascii_lowercase (str_trim v) \<notin> {'''', ''0'', ''false'', ''no'', ''off''}
     | None \<Rightarrow> False)"

definition plugin_string :: "option_values \<Rightarrow> string \<Rightarrow> string \<Rightarrow> string" where
  "plugin_string opts key dflt =
    (case opts key of Some v \<Rightarrow> if v = [] then dflt else v | None \<Rightarrow> dflt)"

text \<open>\<open>or_else\<close> over the aliases of an option: the first that is there.\<close>

definition first_value :: "option_values \<Rightarrow> string list \<Rightarrow> (string \<times> string) option" where
  "first_value opts keys =
    (case filter (\<lambda>k. opts k \<noteq> None) keys of [] \<Rightarrow> None | k # _ \<Rightarrow> Some (k, the (opts k)))"

text \<open>\<open>parse_plugin_number\<close>, with \<open>T::from_str\<close> as an argument; the error names the key.\<close>

definition parse_plugin_number :: "(string \<Rightarrow> 'e) \<Rightarrow> (string \<Rightarrow> 'a option) \<Rightarrow> option_values \<Rightarrow> string list \<Rightarrow> 'a
    \<Rightarrow> ('e, 'a) res" where
  "parse_plugin_number invalid from_str opts keys dflt =
    (case first_value opts keys of
       None \<Rightarrow> Ok dflt
     | Some (key, v) \<Rightarrow> (if v = [] then Ok dflt else from_option (invalid key) (from_str v)))"

section \<open>Writing options\<close>

text \<open>The text whose reading the properties speak of: every special character escaped.\<close>

fun escape_option :: "string \<Rightarrow> string" where
  "escape_option [] = []"
| "escape_option (c # r) =
    (if c \<in> {backslash, CHR '';'', CHR ''=''} then backslash # c # escape_option r else c # escape_option r)"

definition write_option :: "string \<times> string \<Rightarrow> string" where
  "write_option kv = escape_option (fst kv) @ ''='' @ escape_option (snd kv)"

definition write_options :: "(string \<times> string) list \<Rightarrow> string" where
  "write_options kvs = str_join '';'' (map write_option kvs)"

text \<open>What an item leaves in the table, said of the pair it was written from.\<close>

definition enter_option :: "option_values \<Rightarrow> string \<times> string \<Rightarrow> option_values" where
  "enter_option opts kv =
    (let key = to_ascii_lowercase (str_trim (fst kv))
     in if key = [] then opts else opts(key \<mapsto> str_trim (snd kv)))"

section \<open>Items and their separators\<close>

text \<open>
  \<open>closed_item\<close>: no separator outside an escape, no escape left open at the end. The last item of a
  text may leave one open (\<open>last_item\<close>).
\<close>

fun last_item :: "string \<Rightarrow> bool" where
  "last_item [] \<longleftrightarrow> True"
| "last_item [c] \<longleftrightarrow> c \<noteq> CHR '';''"
| "last_item (c # d # r) \<longleftrightarrow> (if c = backslash then last_item r else c \<noteq> CHR '';'' \<and> last_item (d # r))"

fun closed_item :: "string \<Rightarrow> bool" where
  "closed_item [] \<longleftrightarrow> True"
| "closed_item [c] \<longleftrightarrow> c \<noteq> CHR '';'' \<and> c \<noteq> backslash"
| "closed_item (c # d # r) \<longleftrightarrow> (if c = backslash then closed_item r else c \<noteq> CHR '';'' \<and> closed_item (d # r))"

lemma closed_last_item: "closed_item s \<Longrightarrow> last_item s"
  by (induction s rule: closed_item.induct) (auto split: if_splits)

lemma closed_item_append: "closed_item s \<Longrightarrow> closed_item (s @ t) = closed_item t"
proof (induction s rule: closed_item.induct)
  case (2 c)
  then show ?case by (cases t) auto
qed auto

lemma last_item_append: "closed_item s \<Longrightarrow> last_item (s @ t) = last_item t"
proof (induction s rule: closed_item.induct)
  case (2 c)
  then show ?case by (cases t) auto
qed auto

lemma split_closed: "closed_item s \<Longrightarrow>
    split_options_loop items current False (s @ r) = split_options_loop items (current @ s) False r"
  by (induction s arbitrary: current rule: closed_item.induct) (auto split: if_splits)

lemma split_last: "last_item s \<Longrightarrow> split_options_loop items current False s = items @ [current @ s]"
  by (induction s arbitrary: current rule: last_item.induct) (auto split: if_splits)

text \<open>Joining what splitting may return and splitting it again gives the items back.\<close>

lemma split_join:
  assumes "\<forall>s \<in> set front. closed_item s" "last_item s"
  shows "split_plugin_options (str_join '';'' (front @ [s])) = front @ [s]"
proof -
  have "split_options_loop items current False (current' @ str_join '';'' (front @ [s]))
      = items @ (case front @ [s] of x # r \<Rightarrow> (current @ current' @ x) # r)"
    if "closed_item current'" for items current current'
    using assms(1) that
  proof (induction front arbitrary: items current current')
    case Nil
    then show ?case using assms(2) by (simp add: split_closed split_last)
  next
    case (Cons x xs)
    have j: "str_join '';'' ((x # xs) @ [s]) = x @ '';'' @ str_join '';'' (xs @ [s])"
      by (cases xs) simp_all
    have "split_options_loop items current False (current' @ str_join '';'' ((x # xs) @ [s]))
        = split_options_loop (items @ [current @ current' @ x]) [] False ([] @ str_join '';'' (xs @ [s]))"
      using Cons.prems unfolding j by (simp add: split_closed)
    also have "\<dots> = (items @ [current @ current' @ x]) @ (case xs @ [s] of y # r \<Rightarrow> ([] @ [] @ y) # r)"
      using Cons.prems(1) by (intro Cons.IH) simp_all
    also have "\<dots> = items @ (case (x # xs) @ [s] of y # r \<Rightarrow> (current @ current' @ y) # r)"
      by (cases xs) simp_all
    finally show ?case .
  qed
  from this [of "[]" "[]" "[]"] show ?thesis
    by (cases front) (simp_all add: split_plugin_options_def)
qed

text \<open>Every text splits into such items.\<close>

lemma split_items:
  assumes "\<forall>s \<in> set items. closed_item s" "closed_item current"
  shows "\<exists>front s. split_options_loop items current escaped r = front @ [s]
    \<and> (\<forall>x \<in> set front. closed_item x) \<and> last_item s"
  using assms
proof (induction items current escaped r rule: split_options_loop.induct)
  case (1 items current escaped)
  have "last_item (current @ (if escaped then [backslash] else []))"
    using 1 by (simp add: last_item_append)
  then show ?case using 1 by (auto intro!: exI [of _ items])
next
  case (2 items current escaped c r)
  then show ?case by (auto simp: closed_item_append)
qed

lemma split_plugin_options_items:
  "\<exists>front s. split_plugin_options options = front @ [s] \<and> (\<forall>x \<in> set front. closed_item x) \<and> last_item s"
  unfolding split_plugin_options_def by (rule split_items) simp_all

section \<open>Written items are read back\<close>

lemma closed_escape [simp]: "closed_item (escape_option s)"
proof (induction s)
  case (Cons c r)
  then show ?case by (cases "escape_option r") auto
qed simp

lemma closed_write_option [simp]: "closed_item (write_option kv)"
proof -
  have "closed_item (CHR ''='' # escape_option v)" for v
    by (cases "escape_option v") (use closed_escape [of v] in auto)
  then show ?thesis by (simp add: write_option_def closed_item_append)
qed

lemma unescape_append: "unescape_loop out False (escape_option s) = out @ s"
  by (induction s arbitrary: out) auto

lemma unescape_escape [simp]: "unescape_plugin_option (escape_option s) = s"
  by (simp add: unescape_plugin_option_def unescape_append)

lemma pair_value: "option_pair_loop key val False True (escape_option v) = Some (key, val @ escape_option v)"
  by (induction v arbitrary: val) auto

lemma pair_key:
  "option_pair_loop key val False False (escape_option k @ r) = option_pair_loop (key @ escape_option k) val False False r"
  by (induction k arbitrary: key) auto

lemma pair_write [simp]:
  "split_plugin_option_pair (write_option kv) = Some (escape_option (fst kv), escape_option (snd kv))"
  by (simp add: split_plugin_option_pair_def write_option_def pair_key pair_value)

lemma insert_write [simp]: "insert_option opts (write_option kv) = enter_option opts kv"
  by (simp add: insert_option_def enter_option_def option_key_def Let_def)

lemma insert_empty [simp]: "insert_option opts [] = opts"
  by (simp add: insert_option_def split_plugin_option_pair_def)

lemma parse_written: "parse_plugin_options (write_options kvs) = foldl enter_option Map.empty kvs"
proof (cases kvs rule: rev_exhaust)
  case Nil
  then show ?thesis by (simp add: parse_plugin_options_def write_options_def split_plugin_options_def)
next
  case (snoc front kv)
  have "split_plugin_options (write_options kvs) = map write_option kvs"
    using split_join [of "map write_option front" "write_option kv"]
    by (simp add: write_options_def snoc closed_last_item)
  moreover have "foldl insert_option m (map write_option xs) = foldl enter_option m xs" for m xs
    by (induction xs arbitrary: m) simp_all
  ultimately show ?thesis by (simp add: parse_plugin_options_def)
qed

section \<open>Sanitised options\<close>

lemma insert_passed_on: "passed_on item \<Longrightarrow>
    insert_option (m |` (- launcher_keys)) item = insert_option m item |` (- launcher_keys)"
  by (auto simp: insert_option_def passed_on_def restrict_map_def fun_eq_iff split: option.splits)

lemma insert_dropped: "\<not> passed_on item \<Longrightarrow>
    insert_option m item |` (- launcher_keys) = m |` (- launcher_keys)"
  by (auto simp: insert_option_def passed_on_def restrict_map_def fun_eq_iff split: option.splits)

lemma foldl_passed_on:
  "foldl insert_option (m |` (- launcher_keys)) (filter passed_on items)
    = foldl insert_option m items |` (- launcher_keys)"
proof (induction items arbitrary: m)
  case (Cons x items)
  then show ?case
    by (cases "passed_on x") (simp_all add: insert_passed_on, metis insert_dropped)
qed simp

lemma split_sanitized:
  "filter passed_on (split_plugin_options options) \<noteq> [] \<Longrightarrow>
    split_plugin_options (sanitize_sip003_options options) = filter passed_on (split_plugin_options options)"
proof -
  obtain front s where fs: "split_plugin_options options = front @ [s]"
    "\<forall>x \<in> set front. closed_item x" "last_item s"
    using split_plugin_options_items by blast
  assume "filter passed_on (split_plugin_options options) \<noteq> []"
  then obtain front' s' where k: "filter passed_on (split_plugin_options options) = front' @ [s']"
    by (meson rev_exhaust)
  have "set front' \<subseteq> set front \<and> (s' = s \<or> s' \<in> set front)"
  proof (cases "passed_on s")
    case True
    then show ?thesis using k fs(1) filter_is_subset [of passed_on front] by auto
  next
    case False
    then have "set (front' @ [s']) \<subseteq> set front" using k fs(1) by (metis append_Nil2 filter.simps filter_append filter_is_subset)
    then show ?thesis by auto
  qed
  then have "\<forall>x \<in> set front'. closed_item x" "last_item s'" using fs closed_last_item by auto
  from split_join [OF this] show ?thesis by (simp add: sanitize_sip003_options_def k)
qed

lemma sanitized_table:
  "parse_plugin_options (sanitize_sip003_options options) = parse_plugin_options options |` (- launcher_keys)"
proof (cases "filter passed_on (split_plugin_options options) = []")
  case True
  then have "parse_plugin_options (sanitize_sip003_options options) = Map.empty"
    by (simp add: sanitize_sip003_options_def parse_plugin_options_def split_plugin_options_def)
  moreover have "parse_plugin_options options |` (- launcher_keys) = Map.empty"
    using foldl_passed_on [of Map.empty "split_plugin_options options"] True
    by (simp add: parse_plugin_options_def)
  ultimately show ?thesis by simp
next
  case False
  then show ?thesis
    using foldl_passed_on [of Map.empty "split_plugin_options options"]
    by (simp add: parse_plugin_options_def split_sanitized)
qed

section \<open>Properties\<close>

text \<open>
  Options that were written with their special characters escaped are read back. For any list
  of pairs of texts, the table holds for every key (trimmed, in lower case, not empty) the value of
  the last pair with that key (trimmed), whatever semicolons, equals signs and backslashes it has.
\<close>

theorem plugin_options_roundtrip:
  "parse_plugin_options (write_options kvs) = foldl enter_option Map.empty kvs"
  by (rule parse_written)

text \<open>
  The plugin gets every option except the launcher's. For every text of options, well-formed or
  not, reading the sanitised text gives the same table without the keys that say how to start the
  plugin: nothing else is lost, changed or split differently.
\<close>

theorem sanitize_keeps_other_options:
  "parse_plugin_options (sanitize_sip003_options options) = parse_plugin_options options |` (- launcher_keys)"
  by (rule sanitized_table)

end
