(* ===== verification/Ss_Address.thy ===== *)
theory Ss_Address
  imports Kernel_Session
begin

text \<open>
  Addresses as the Shadowsocks adapter uses them (\<open>adapter/shadowsocks\<close>: \<open>target_address\<close> in \<open>config.rs\<close>,
  \<open>udp_pending_key\<close> and \<open>address_display\<close> in \<open>direct_udp.rs\<close>), with the text of a \<open>SocketAddr\<close> of the
  standard library. The scope of an IPv6 socket address is not part of the model.
\<close>

section \<open>Socket addresses as text\<close>

definition show_socket_addr :: "socket_addr \<Rightarrow> string" where
  "show_socket_addr a =
    (case sa_ip a of
       V4 _ \<Rightarrow> show_ip (sa_ip a) @ '':'' @ show_nat (unat (sa_port a))
     | V6 _ \<Rightarrow> ''['' @ show_ip (sa_ip a) @ '']:'' @ show_nat (unat (sa_port a)))"

text \<open>The port takes any number of digits, leading zeros included; its value must fit.\<close>

definition read_port :: "string \<Rightarrow> (u16 \<times> string) option" where
  "read_port s =
    (case s of
       c # r \<Rightarrow> (if c = CHR '':'' then
           map_option (\<lambda>(n, r'). (of_nat n, r')) (read_number 10 (length r) True 65535 r) else None)
     | [] \<Rightarrow> None)"

definition read_socket_addr :: "string \<Rightarrow> (socket_addr \<times> string) option" where
  "read_socket_addr s =
    (case Option.bind (read_ipv4 s) (\<lambda>(a, r). map_option (\<lambda>(p, r'). (\<lparr>sa_ip = V4 a, sa_port = p\<rparr>, r')) (read_port r)) of
       Some x \<Rightarrow> Some x
     | None \<Rightarrow>
         (case s of
            c # r \<Rightarrow>
              (if c = CHR ''['' then
                 Option.bind (read_ipv6 r) (\<lambda>(a, r). case r of
                     d # r' \<Rightarrow> (if d = CHR '']'' then
                         map_option (\<lambda>(p, r''). (\<lparr>sa_ip = V6 a, sa_port = p\<rparr>, r'')) (read_port r') else None)
                   | [] \<Rightarrow> None)
               else None)
          | [] \<Rightarrow> None))"

definition parse_socket_addr :: "string \<Rightarrow> socket_addr option" where
  "parse_socket_addr = parse_all read_socket_addr"

section \<open>Targets\<close>

text \<open>\<open>Address\<close> of the \<open>shadowsocks\<close> package has these two forms.\<close>

datatype ss_address = SocketAddress socket_addr | DomainNameAddress string u16

definition target_address_of :: "target_address \<Rightarrow> ss_address" where
  "target_address_of t =
    (case parse_socket_addr (show_target t) of
       Some a \<Rightarrow> SocketAddress a
     | None \<Rightarrow> DomainNameAddress (host t) (target_port t))"

definition address_display :: "ss_address \<Rightarrow> string" where
  "address_display a =
    (case a of
       SocketAddress s \<Rightarrow> show_socket_addr s
     | DomainNameAddress h p \<Rightarrow> h @ '':'' @ show_nat (unat p))"

definition udp_pending_key :: "ss_address \<Rightarrow> string" where
  "udp_pending_key a =
    (case a of
       SocketAddress s \<Rightarrow> show_socket_addr s
     | DomainNameAddress h p \<Rightarrow> to_ascii_lowercase h @ '':'' @ show_nat (unat p))"

section \<open>Reading back\<close>

lemma read_port_show: "read_port (CHR '':'' # show_nat (unat (p :: u16))) = Some (p, [])"
proof -
  have d: "takeWhile (is_digit_char 10) (show_nat (unat p)) = show_nat (unat p)"
    using show_nat_digits [of "unat p"] by (simp add: takeWhile_eq_all_conv list_all_iff)
  have "unat p \<le> 65535" using unat_u16_bound [of p] by linarith
  then have "read_number 10 (length (show_nat (unat p))) True 65535 (show_nat (unat p)) = Some (unat p, [])"
    by (simp add: read_number_def d Let_def)
  then show ?thesis by (simp add: read_port_def)
qed

lemma parse_socket_addr_v4 [simp]:
  "parse_socket_addr (show_ipv4 a @ CHR '':'' # show_nat (unat p)) = Some \<lparr>sa_ip = V4 a, sa_port = p\<rparr>"
proof -
  have "read_ipv4 (show_ipv4 a @ CHR '':'' # show_nat (unat p)) = Some (a, CHR '':'' # show_nat (unat p))"
    by (rule read_ipv4_show) (simp add: is_digit_char_def to_digit_def)
  then show ?thesis by (simp add: parse_socket_addr_def parse_all_def read_socket_addr_def read_port_show)
qed

lemma target_address_v4:
  "host t = show_ipv4 a \<Longrightarrow> target_address_of t = SocketAddress \<lparr>sa_ip = V4 a, sa_port = target_port t\<rparr>"
  by (simp add: target_address_of_def show_target_def)

lemma parse_socket_addr_v6D:
  "parse_socket_addr s = Some x \<Longrightarrow> is_ipv6 (sa_ip x) \<Longrightarrow> \<exists>r. s = CHR ''['' # r"
  by (auto simp: parse_socket_addr_def parse_all_def read_socket_addr_def is_ipv6_def Option.bind_eq_Some_conv
      split: option.splits list.splits if_splits)

section \<open>No bracket in the text of an address\<close>

lemma show_radix_16_chars: "c \<in> set (show_radix 16 n) \<Longrightarrow> is_digit_char 16 c"
  using show_radix_digits [of 16 n] by (simp add: list_all_iff)

lemma no_bracket_radix: "CHR ''['' \<notin> set (show_radix 16 n)"
  using show_radix_16_chars [of "CHR ''[''" n] by (auto simp: is_digit_char_def to_digit_def)

lemma no_bracket_nat: "CHR ''['' \<notin> set (show_nat n)"
  using show_nat_digits [of n] by (auto simp: list_all_iff is_digit_char_def to_digit_def)

lemma str_join_char: "c \<in> set (str_join sep xs) \<Longrightarrow> c \<in> set sep \<or> (\<exists>x \<in> set xs. c \<in> set x)"
  by (induction sep xs rule: str_join.induct) auto

lemma no_bracket_ipv4: "CHR ''['' \<notin> set (show_ipv4 a)"
  using str_join_char [of "CHR ''[''" "''.''"] no_bracket_nat by (force simp: show_ipv4_def)

lemma no_bracket_segments: "CHR ''['' \<notin> set (show_segments gs)"
  using str_join_char [of "CHR ''[''" "'':''"] no_bracket_radix by (force simp: show_segments_def)

lemma no_bracket_ipv6: "CHR ''['' \<notin> set (show_ipv6 a)"
  using no_bracket_segments no_bracket_ipv4
  by (auto simp: show_ipv6_def Let_def split: option.splits prod.splits if_splits)

lemma lower_bracket: "CHR ''['' = lower_char c \<Longrightarrow> c = CHR ''[''"
proof -
  assume l: "CHR ''['' = lower_char c"
  then have "of_char (lower_char c) = (of_char CHR ''['' :: nat)" by metis
  then have "of_char (lower_char c) = (91 :: nat)" by simp
  show "c = CHR ''[''"
  proof (cases "65 \<le> (of_char c :: nat) \<and> (of_char c :: nat) \<le> 90")
    case True
    then have "of_char (lower_char c) = (of_char c + 32 :: nat)" by (simp add: lower_char_def Let_def)
    then show ?thesis using True \<open>of_char (lower_char c) = 91\<close> by linarith
  next
    case False
    then have "lower_char c = c" by (auto simp: lower_char_def Let_def)
    then show ?thesis using l by simp
  qed
qed

section \<open>Properties\<close>

text \<open>
  An IPv4 reply finds its request. The key of a request whose host is the text of an IPv4
  address is the key of the socket address the server answers from.
\<close>

theorem ss_ipv4_key_matches:
  "udp_pending_key (target_address_of \<lparr>host = show_ipv4 a, target_port = p\<rparr>)
    = udp_pending_key (SocketAddress \<lparr>sa_ip = V4 a, sa_port = p\<rparr>)"
  by (simp add: target_address_v4)

text \<open>
  An IPv6 reply never finds its request. A target is turned into an address by parsing
  \<open>host:port\<close>, which for an IPv6 host without brackets is not a socket address; the request then waits
  under a key without brackets, while every reply from an IPv6 address is looked up under one with
  them. So no datagram sent to an IPv6 address is ever answered.
\<close>

theorem ss_ipv6_key_never_matches:
  "udp_pending_key (target_address_of \<lparr>host = show_ipv6 a, target_port = p\<rparr>)
    \<noteq> udp_pending_key (SocketAddress \<lparr>sa_ip = V6 b, sa_port = q\<rparr>)"
proof -
  let ?t = "\<lparr>host = show_ipv6 a, target_port = p\<rparr>"
  have hd_key: "\<exists>r. udp_pending_key (SocketAddress \<lparr>sa_ip = V6 b, sa_port = q\<rparr>) = CHR ''['' # r"
    by (simp add: udp_pending_key_def show_socket_addr_def)
  have no: "\<nexists>r. show_target ?t = CHR ''['' # r"
    using no_bracket_ipv6 [of a] by (cases "show_ipv6 a") (auto simp: show_target_def)
  show ?thesis
  proof (cases "parse_socket_addr (show_target ?t)")
    case None
    have "CHR ''['' \<notin> set (to_ascii_lowercase (show_ipv6 a))"
      using no_bracket_ipv6 [of a] by (force simp: to_ascii_lowercase_def dest: lower_bracket)
    then have "\<nexists>r. udp_pending_key (target_address_of ?t) = CHR ''['' # r"
      using None by (cases "to_ascii_lowercase (show_ipv6 a)") (auto simp: udp_pending_key_def target_address_of_def)
    then show ?thesis using hd_key by metis
  next
    case (Some x)
    then have "is_ipv4 (sa_ip x)" using parse_socket_addr_v6D no is_ipv6_not_ipv4 by blast
    then obtain c where "sa_ip x = V4 c" by (cases "sa_ip x") simp_all
    then have "\<nexists>r. udp_pending_key (target_address_of ?t) = CHR ''['' # r"
      using Some no_bracket_ipv4 [of c]
      by (cases "show_ipv4 c") (auto simp: udp_pending_key_def target_address_of_def show_socket_addr_def show_ip_def)
    then show ?thesis using hd_key by metis
  qed
qed

end
