(* ===== verification/Ss_Config.thy ===== *)
theory Ss_Config
  imports Ss_Options Ss_Address Kernel_Dns
begin

text \<open>
  The configuration of the Shadowsocks adapter: \<open>adapter/shadowsocks/config.rs\<close>, the registry of
  ShadowsocksR names (\<open>ssr_registry.rs\<close>), the ciphers of \<open>legacy.rs\<close> as far as the configuration knows
  them. The ciphers of the \<open>shadowsocks\<close> package are values of a type \<open>'c\<close>: how their names parse, their
  category and their keys are parameters. The modes and versions of XHTTP are those of VLESS.
\<close>

section \<open>Ciphers\<close>

datatype cipher_category = CategoryNone | CategoryStream | CategoryOther

datatype neon_legacy_cipher =
  BlowfishCfb | Cast5Cfb | DesCfb | IdeaCfb | Rc2Cfb | SeedCfb | Salsa20 | Rc4Md5_6

definition legacy_key_len :: "neon_legacy_cipher \<Rightarrow> nat" where
  "legacy_key_len m = (case m of DesCfb \<Rightarrow> 8 | Salsa20 \<Rightarrow> 32 | _ \<Rightarrow> 16)"

definition legacy_iv_len :: "neon_legacy_cipher \<Rightarrow> nat" where
  "legacy_iv_len m = (case m of SeedCfb \<Rightarrow> 16 | _ \<Rightarrow> 8)"

datatype 'c shadowsocks_cipher = BuiltIn 'c | NeonLegacy neon_legacy_cipher

definition cipher_category :: "('c \<Rightarrow> cipher_category) \<Rightarrow> 'c shadowsocks_cipher \<Rightarrow> cipher_category" where
  "cipher_category category m = (case m of BuiltIn c \<Rightarrow> category c | NeonLegacy _ \<Rightarrow> CategoryStream)"

text \<open>\<open>split_whitespace\<close> joined with a hyphen: the words of the text.\<close>

function split_whitespace :: "string \<Rightarrow> string list" where
  "split_whitespace s =
    (case take_word (skip_ws s) of
       ([], _) \<Rightarrow> []
     | (w, r) \<Rightarrow> if length r < length s then w # split_whitespace r else [w])"
  by auto
termination by (relation "measure length") auto

declare split_whitespace.simps [simp del]

definition replace_char :: "char \<Rightarrow> char \<Rightarrow> string \<Rightarrow> string" where
  "replace_char a b = List.map (\<lambda>c. if c = a then b else c)"

definition normalize_shadowsocks_cipher :: "string \<Rightarrow> string" where
  "normalize_shadowsocks_cipher v =
    (let lowered = str_join ''-'' (split_whitespace
           (replace_char CHR ''_'' CHR ''-'' (to_ascii_lowercase (str_trim v))))
     in if lowered = ''plain'' then ''none''
        else if lowered = ''aes-128-cfb128'' then ''aes-128-cfb''
        else if lowered = ''aes-192-cfb128'' then ''aes-192-cfb''
        else if lowered = ''aes-256-cfb128'' then ''aes-256-cfb''
        else if lowered = ''camellia-128-cfb128'' then ''camellia-128-cfb''
        else if lowered = ''camellia-192-cfb128'' then ''camellia-192-cfb''
        else if lowered = ''camellia-256-cfb128'' then ''camellia-256-cfb''
        else if lowered = ''chacha20'' then ''chacha20-ietf''
        else if lowered = ''chacha20-poly1305'' then ''chacha20-ietf-poly1305''
        else if lowered = ''xchacha20-poly1305'' then ''xchacha20-ietf-poly1305''
        else lowered)"

datatype ss_error =
    InvalidEndpoint
  | NoPassword
  | UnsupportedCipher string
  | UnsupportedSsrProtocol string
  | NativeNeedsStream
  | UnsupportedSsrObfs string
  | ServerKeyError
  | UnsupportedPlugin string
  | UnsupportedObfuscation string
  | UnsupportedSimpleObfs string
  | UnsupportedWebSocketMode string string
  | ShadowTlsVersionInvalid
  | ShadowTlsVersionUnsupported nat
  | InvalidPluginOption string
  | Sip003ProgramEmpty
  | SsXHttpMode string
  | SsXHttpVersion string
  | UotRequired
  | UdpNeedsUot string
  | UdpRelayDisabled
  | DirectUdpNeedsNoUot

definition legacy_cipher_of :: "string \<Rightarrow> neon_legacy_cipher option" where
  "legacy_cipher_of n =
    (if n = ''bf-cfb'' \<or> n = ''blowfish-cfb'' then Some BlowfishCfb
     else if n = ''cast5-cfb'' then Some Cast5Cfb
     else if n = ''des-cfb'' then Some DesCfb
     else if n = ''idea-cfb'' then Some IdeaCfb
     else if n = ''rc2-cfb'' then Some Rc2Cfb
     else if n = ''seed-cfb'' then Some SeedCfb
     else if n = ''salsa20'' then Some Salsa20
     else if n = ''rc4-md5-6'' then Some Rc4Md5_6
     else None)"

definition parse_shadowsocks_cipher :: "(string \<Rightarrow> 'c option) \<Rightarrow> string \<Rightarrow> (ss_error, 'c shadowsocks_cipher) res" where
  "parse_shadowsocks_cipher builtin v =
    (let normalized = normalize_shadowsocks_cipher v
     in case legacy_cipher_of normalized of
          Some m \<Rightarrow> Ok (NeonLegacy m)
        | None \<Rightarrow> rbind (from_option (UnsupportedCipher v) (builtin normalized)) (\<lambda>c. Ok (BuiltIn c)))"

section \<open>The registry of ShadowsocksR names\<close>

record ssr_registry_entry =
  canonical :: string
  aliases :: "string list"

definition ssr_protocol_registry :: "ssr_registry_entry list" where
  "ssr_protocol_registry =
    [\<lparr>canonical = ''origin'', aliases = ['''', ''origin'', ''plain'']\<rparr>,
     \<lparr>canonical = ''verify_simple'', aliases = [''verify_simple'']\<rparr>,
     \<lparr>canonical = ''verify_sha1'', aliases = [''verify_sha1'', ''ota'']\<rparr>,
     \<lparr>canonical = ''auth_simple'', aliases = [''auth_simple'']\<rparr>,
     \<lparr>canonical = ''auth_sha1'', aliases = [''auth_sha1'']\<rparr>,
     \<lparr>canonical = ''auth_sha1_v2'', aliases = [''auth_sha1_v2'']\<rparr>,
     \<lparr>canonical = ''auth_sha1_v4'', aliases = [''auth_sha1_v4'']\<rparr>,
     \<lparr>canonical = ''auth_aes128_md5'', aliases = [''auth_aes128_md5'', ''auth-aes128_md5'']\<rparr>,
     \<lparr>canonical = ''auth_aes128_sha1'', aliases = [''auth_aes128_sha1'', ''auth-aes128_sha1'']\<rparr>,
     \<lparr>canonical = ''auth_chain_a'', aliases = [''auth_chain_a'']\<rparr>,
     \<lparr>canonical = ''auth_chain_b'', aliases = [''auth_chain_b'']\<rparr>,
     \<lparr>canonical = ''auth_chain_c'', aliases = [''auth_chain_c'']\<rparr>,
     \<lparr>canonical = ''auth_chain_d'', aliases = [''auth_chain_d'']\<rparr>,
     \<lparr>canonical = ''auth_chain_e'', aliases = [''auth_chain_e'']\<rparr>,
     \<lparr>canonical = ''auth_chain_f'', aliases = [''auth_chain_f'']\<rparr>]"

definition ssr_obfs_registry :: "ssr_registry_entry list" where
  "ssr_obfs_registry =
    [\<lparr>canonical = ''plain'', aliases = ['''', ''plain'', ''none'']\<rparr>,
     \<lparr>canonical = ''http_simple'', aliases = [''http_simple'', ''http-simple'']\<rparr>,
     \<lparr>canonical = ''http_post'', aliases = [''http_post'', ''http-post'']\<rparr>,
     \<lparr>canonical = ''random_head'', aliases = [''random_head'', ''random-head'']\<rparr>,
     \<lparr>canonical = ''tls1.2_ticket_auth'', aliases = [''tls1.2_ticket_auth'', ''tls1_2_ticket_auth'']\<rparr>,
     \<lparr>canonical = ''tls1.2_ticket_fastauth'', aliases = [''tls1.2_ticket_fastauth'', ''tls1_2_ticket_fastauth'']\<rparr>]"

definition normalize_ssr_registry_name :: "string \<Rightarrow> string" where
  "normalize_ssr_registry_name v = replace_char CHR ''-'' CHR ''_'' (to_ascii_lowercase (str_trim v))"

definition registry_names :: "ssr_registry_entry \<Rightarrow> string list" where
  "registry_names e = canonical e # List.map normalize_ssr_registry_name (aliases e)"

definition canonical_name :: "ssr_registry_entry list \<Rightarrow> string \<Rightarrow> string option" where
  "canonical_name registry v =
    map_option canonical (find (\<lambda>e. normalize_ssr_registry_name v \<in> set (registry_names e)) registry)"

definition canonical_ssr_protocol_name :: "string \<Rightarrow> string option" where
  "canonical_ssr_protocol_name = canonical_name ssr_protocol_registry"

definition canonical_ssr_obfs_name :: "string \<Rightarrow> string option" where
  "canonical_ssr_obfs_name = canonical_name ssr_obfs_registry"

datatype ssr_protocol =
    Origin | VerifySimple | VerifySha1 | AuthSimple | AuthSha1 | AuthSha1V2 | AuthSha1V4
  | AuthAes128Md5 | AuthAes128Sha1 | AuthChainA | AuthChainB | AuthChainC | AuthChainD | AuthChainE | AuthChainF

definition is_native :: "ssr_protocol \<Rightarrow> bool" where
  "is_native p \<longleftrightarrow> p \<noteq> Origin"

definition ssr_protocol_of :: "string \<Rightarrow> (ss_error, ssr_protocol) res" where
  "ssr_protocol_of n =
    (if n = ''origin'' then Ok Origin
     else if n = ''verify_simple'' then Ok VerifySimple
     else if n = ''verify_sha1'' then Ok VerifySha1
     else if n = ''auth_simple'' then Ok AuthSimple
     else if n = ''auth_sha1'' then Ok AuthSha1
     else if n = ''auth_sha1_v2'' then Ok AuthSha1V2
     else if n = ''auth_sha1_v4'' then Ok AuthSha1V4
     else if n = ''auth_aes128_md5'' then Ok AuthAes128Md5
     else if n = ''auth_aes128_sha1'' then Ok AuthAes128Sha1
     else if n = ''auth_chain_a'' then Ok AuthChainA
     else if n = ''auth_chain_b'' then Ok AuthChainB
     else if n = ''auth_chain_c'' then Ok AuthChainC
     else if n = ''auth_chain_d'' then Ok AuthChainD
     else if n = ''auth_chain_e'' then Ok AuthChainE
     else if n = ''auth_chain_f'' then Ok AuthChainF
     else Err (UnsupportedSsrProtocol n))"

definition is_ssr :: "kernel_node \<Rightarrow> bool" where
  "is_ssr n \<longleftrightarrow> eq_ignore_ascii_case (node_protocol n) ''ssr'' \<or> eq_ignore_ascii_case (node_protocol n) ''shadowsocksr''"

definition ssr_protocol_from_node :: "('c \<Rightarrow> cipher_category) \<Rightarrow> kernel_node \<Rightarrow> 'c shadowsocks_cipher
    \<Rightarrow> (ss_error, ssr_protocol) res" where
  "ssr_protocol_from_node category n m =
    (if \<not> is_ssr n then Ok Origin
     else let name = str_trim (or_default ''origin'' (parameter n ''protocol''))
       in rbind (from_option (UnsupportedSsrProtocol name) (canonical_ssr_protocol_name name)) (\<lambda>c.
          rbind (ssr_protocol_of c) (\<lambda>p.
            if is_native p \<and> cipher_category category m \<noteq> CategoryStream \<and> cipher_category category m \<noteq> CategoryNone
            then Err NativeNeedsStream else Ok p)))"

section \<open>kcptun\<close>

record kcptun_config =
  kc_key :: string
  kc_crypt :: string
  kc_mode :: string
  kc_conn :: nat
  kc_auto_expire :: nat
  kc_scavenge_ttl :: nat
  kc_mtu :: nat
  kc_rate_limit :: nat
  kc_snd_wnd :: nat
  kc_rcv_wnd :: nat
  kc_data_shard :: nat
  kc_parity_shard :: nat
  kc_dscp :: nat
  kc_no_comp :: bool
  kc_ack_nodelay :: bool
  kc_no_delay :: int
  kc_interval :: int
  kc_resend :: int
  kc_no_congestion :: bool
  kc_sock_buf :: nat
  kc_smux_ver :: nat
  kc_smux_buf :: nat
  kc_frame_size :: nat
  kc_stream_buf :: nat
  kc_keep_alive :: nat

definition clamp :: "nat \<Rightarrow> nat \<Rightarrow> nat \<Rightarrow> nat" where
  "clamp lo hi x = (if x < lo then lo else if hi < x then hi else x)"

definition mode_delays :: "int \<Rightarrow> int \<Rightarrow> kcptun_config \<Rightarrow> kcptun_config" where
  "mode_delays no_delay interval c =
    c\<lparr>kc_no_delay := no_delay, kc_interval := interval, kc_resend := 2, kc_no_congestion := True\<rparr>"

definition apply_mode :: "kcptun_config \<Rightarrow> kcptun_config" where
  "apply_mode c =
    (let c = (if kc_mode c = ''normal'' then mode_delays 0 40 c
       else if kc_mode c = ''fast'' then mode_delays 0 30 c
       else if kc_mode c = ''fast2'' then mode_delays 1 20 c
       else if kc_mode c = ''fast3'' then mode_delays 1 10 c
       else c)
     in c\<lparr>kc_smux_ver := (if kc_smux_ver c = 0 then 1 else if 2 < kc_smux_ver c then 2 else kc_smux_ver c),
       kc_conn := clamp 1 16 (kc_conn c), kc_frame_size := clamp 1 65535 (kc_frame_size c),
       kc_stream_buf := min (kc_stream_buf c) (kc_smux_buf c)\<rparr>)"

definition kcptun_default :: kcptun_config where
  "kcptun_default = apply_mode
    \<lparr>kc_key = ''it'' @ [CHR 0x27] @ ''s a secrect'', kc_crypt = ''aes'', kc_mode = ''fast'', kc_conn = 1,
     kc_auto_expire = 0, kc_scavenge_ttl = 600, kc_mtu = 1350, kc_rate_limit = 0, kc_snd_wnd = 128, kc_rcv_wnd = 512,
     kc_data_shard = 10, kc_parity_shard = 3, kc_dscp = 0, kc_no_comp = False, kc_ack_nodelay = False,
     kc_no_delay = 0, kc_interval = 50, kc_resend = 0, kc_no_congestion = False, kc_sock_buf = 4194304,
     kc_smux_ver = 1, kc_smux_buf = 4194304, kc_frame_size = 8192, kc_stream_buf = 2097152, kc_keep_alive = 10\<rparr>"

definition plugin_unsigned :: "nat \<Rightarrow> option_values \<Rightarrow> string list \<Rightarrow> nat \<Rightarrow> (ss_error, nat) res" where
  "plugin_unsigned m = parse_plugin_number InvalidPluginOption (parse_unsigned m)"

definition plugin_usize :: "option_values \<Rightarrow> string list \<Rightarrow> nat \<Rightarrow> (ss_error, nat) res" where
  "plugin_usize = plugin_unsigned (2 ^ 64 - 1)"

definition plugin_u64 :: "option_values \<Rightarrow> string list \<Rightarrow> nat \<Rightarrow> (ss_error, nat) res" where
  "plugin_u64 = plugin_unsigned (2 ^ 64 - 1)"

definition plugin_u32 :: "option_values \<Rightarrow> string list \<Rightarrow> nat \<Rightarrow> (ss_error, nat) res" where
  "plugin_u32 = plugin_unsigned (2 ^ 32 - 1)"

definition plugin_u16 :: "option_values \<Rightarrow> string list \<Rightarrow> nat \<Rightarrow> (ss_error, nat) res" where
  "plugin_u16 = plugin_unsigned (2 ^ 16 - 1)"

definition plugin_u8 :: "option_values \<Rightarrow> string list \<Rightarrow> nat \<Rightarrow> (ss_error, nat) res" where
  "plugin_u8 = plugin_unsigned (2 ^ 8 - 1)"

definition plugin_i32 :: "option_values \<Rightarrow> string list \<Rightarrow> int \<Rightarrow> (ss_error, int) res" where
  "plugin_i32 = parse_plugin_number InvalidPluginOption parse_i32"

definition from_kcptun_options :: "string \<Rightarrow> (ss_error, kcptun_config) res" where
  "from_kcptun_options options =
    (let v = parse_plugin_options options; d = kcptun_default
     in rbind (plugin_usize v [''conn''] (kc_conn d)) (\<lambda>conn.
        rbind (plugin_u64 v [''autoexpire'', ''auto-expire''] (kc_auto_expire d)) (\<lambda>auto_expire.
        rbind (plugin_u64 v [''scavengettl'', ''scavenge-ttl''] (kc_scavenge_ttl d)) (\<lambda>scavenge_ttl.
        rbind (plugin_usize v [''mtu''] (kc_mtu d)) (\<lambda>mtu.
        rbind (plugin_u32 v [''ratelimit'', ''rate-limit''] (kc_rate_limit d)) (\<lambda>rate_limit.
        rbind (plugin_u16 v [''sndwnd'', ''send-window''] (kc_snd_wnd d)) (\<lambda>snd_wnd.
        rbind (plugin_u16 v [''rcvwnd'', ''receive-window''] (kc_rcv_wnd d)) (\<lambda>rcv_wnd.
        rbind (plugin_usize v [''datashard'', ''data-shard''] (kc_data_shard d)) (\<lambda>data_shard.
        rbind (plugin_usize v [''parityshard'', ''parity-shard''] (kc_parity_shard d)) (\<lambda>parity_shard.
        rbind (plugin_u32 v [''dscp''] (kc_dscp d)) (\<lambda>dscp.
        rbind (plugin_i32 v [''nodelay'', ''no-delay''] (kc_no_delay d)) (\<lambda>no_delay.
        rbind (plugin_i32 v [''interval''] (kc_interval d)) (\<lambda>interval.
        rbind (plugin_i32 v [''resend''] (kc_resend d)) (\<lambda>resend.
        rbind (plugin_usize v [''sockbuf'', ''socket-buffer''] (kc_sock_buf d)) (\<lambda>sock_buf.
        rbind (plugin_u8 v [''smuxver'', ''smux-version''] (kc_smux_ver d)) (\<lambda>smux_ver.
        rbind (plugin_usize v [''smuxbuf'', ''smux-buffer''] (kc_smux_buf d)) (\<lambda>smux_buf.
        rbind (plugin_usize v [''framesize'', ''frame-size''] (kc_frame_size d)) (\<lambda>frame_size.
        rbind (plugin_usize v [''streambuf'', ''stream-buffer''] (kc_stream_buf d)) (\<lambda>stream_buf.
        rbind (plugin_u64 v [''keepalive'', ''keep-alive''] (kc_keep_alive d)) (\<lambda>keep_alive.
          Ok (apply_mode
            \<lparr>kc_key = plugin_string v ''key'' (kc_key d),
             kc_crypt = to_ascii_lowercase (plugin_string v ''crypt'' (kc_crypt d)),
             kc_mode = to_ascii_lowercase (plugin_string v ''mode'' (kc_mode d)),
             kc_conn = conn, kc_auto_expire = auto_expire, kc_scavenge_ttl = scavenge_ttl, kc_mtu = mtu,
             kc_rate_limit = rate_limit, kc_snd_wnd = snd_wnd, kc_rcv_wnd = rcv_wnd, kc_data_shard = data_shard,
             kc_parity_shard = parity_shard, kc_dscp = dscp,
             kc_no_comp = (plugin_bool v ''nocomp'' \<or> plugin_bool v ''no-comp''),
             kc_ack_nodelay = (plugin_bool v ''acknodelay'' \<or> plugin_bool v ''ack-nodelay''),
             kc_no_delay = no_delay, kc_interval = interval, kc_resend = resend,
             kc_no_congestion = (plugin_bool v ''nc'' \<or> plugin_bool v ''no-congestion''),
             kc_sock_buf = sock_buf, kc_smux_ver = smux_ver, kc_smux_buf = smux_buf,
             kc_frame_size = frame_size, kc_stream_buf = stream_buf, kc_keep_alive = keep_alive\<rparr>)))))))))))))))))))))"

definition show_int :: "int \<Rightarrow> string" where
  "show_int i = (if i < 0 then CHR ''-'' # show_nat (nat (- i)) else show_nat (nat i))"

text \<open>\<open>sha256\<close> is the hexadecimal digest.\<close>

definition kcptun_pool_key :: "(string \<Rightarrow> string) \<Rightarrow> kcptun_config \<Rightarrow> socket_addr \<Rightarrow> string" where
  "kcptun_pool_key sha256 c a =
    str_join ''|'' [show_socket_addr a, sha256 (kc_key c), kc_crypt c, kc_mode c, show_nat (kc_conn c),
      show_nat (kc_auto_expire c), show_nat (kc_scavenge_ttl c), show_nat (kc_mtu c), show_nat (kc_rate_limit c),
      show_nat (kc_snd_wnd c), show_nat (kc_rcv_wnd c), show_nat (kc_data_shard c), show_nat (kc_parity_shard c),
      show_nat (kc_dscp c), show_bool (kc_no_comp c), show_bool (kc_ack_nodelay c), show_int (kc_no_delay c),
      show_int (kc_interval c), show_int (kc_resend c), show_bool (kc_no_congestion c), show_nat (kc_smux_ver c),
      show_nat (kc_smux_buf c), show_nat (kc_frame_size c), show_nat (kc_stream_buf c)]"

section \<open>Plugins\<close>

record xhttp_plugin_config =
  xp_host :: string
  xp_path :: string
  xp_tls :: bool
  xp_mode :: xhttp_mode
  xp_version :: xhttp_version
  xp_max_each_post_bytes :: nat
  xp_min_posts_interval_ms :: nat
  xp_skip_cert_verify :: bool

record shadow_tls_config =
  st_host :: string
  st_password :: string
  st_version :: nat
  st_alpn :: "string list"
  st_skip_cert_verify :: bool

datatype shadowsocks_plugin =
    PluginNone
  | SimpleObfsHttp string u16
  | SsrHttp string u16 bool string
  | SimpleObfsTls string
  | SsrTls string bytes
  | RandomHead
  | WebSocketPlugin string string bool
  | XHttpPlugin xhttp_plugin_config
  | ExternalSip003 string string
  | ShadowTls shadow_tls_config
  | Kcptun kcptun_config
  | H2Plugin string string bool

definition transport_name :: "shadowsocks_plugin \<Rightarrow> string" where
  "transport_name p =
    (case p of
       PluginNone \<Rightarrow> ''direct Shadowsocks UDP''
     | SimpleObfsHttp _ _ \<Rightarrow> ''simple-obfs HTTP''
     | SsrHttp _ _ _ _ \<Rightarrow> ''ShadowsocksR HTTP obfs''
     | SimpleObfsTls _ \<Rightarrow> ''simple-obfs TLS''
     | SsrTls _ _ \<Rightarrow> ''ShadowsocksR TLS obfs''
     | RandomHead \<Rightarrow> ''ShadowsocksR random-head obfs''
     | WebSocketPlugin _ _ _ \<Rightarrow> ''WebSocket plugin''
     | XHttpPlugin _ \<Rightarrow> ''XHTTP plugin''
     | ExternalSip003 _ _ \<Rightarrow> ''SIP003 plugin''
     | ShadowTls _ \<Rightarrow> ''ShadowTLS plugin''
     | Kcptun _ \<Rightarrow> ''kcptun plugin''
     | H2Plugin _ _ _ \<Rightarrow> ''HTTP/2 plugin'')"

text \<open>\<open>or_else\<close> first over the options, then over the parameters of the node.\<close>

definition option_or_parameter :: "kernel_node \<Rightarrow> option_values \<Rightarrow> string list \<Rightarrow> string list \<Rightarrow> string option" where
  "option_or_parameter n v option_keys node_keys =
    (case first_value v option_keys of Some (_, x) \<Rightarrow> Some x | None \<Rightarrow> first_parameter n node_keys)"

definition nonempty_or :: "string \<Rightarrow> string option \<Rightarrow> string" where
  "nonempty_or dflt x = (case x of Some v \<Rightarrow> if v = [] then dflt else v | None \<Rightarrow> dflt)"

definition plugin_host :: "kernel_node \<Rightarrow> option_values \<Rightarrow> string" where
  "plugin_host n v = nonempty_or (server n)
    (option_or_parameter n v [''obfs-host'', ''host''] [''obfs-host'', ''obfs_host'', ''host''])"

definition plugin_path :: "kernel_node \<Rightarrow> option_values \<Rightarrow> string" where
  "plugin_path n v = nonempty_or ''/'' (option_or_parameter n v [''path''] [''path''])"

definition parameter_bool :: "kernel_node \<Rightarrow> string list \<Rightarrow> bool option" where
  "parameter_bool n keys =
    map_option (\<lambda>v. to_ascii_lowercase (str_trim v) \<notin> {'''', ''0'', ''false'', ''no'', ''off''}) (first_parameter n keys)"

definition parse_xhttp_mode :: "string \<Rightarrow> (ss_error, xhttp_mode) res" where
  "parse_xhttp_mode v =
    (let m = replace_char CHR ''_'' CHR ''-'' (to_ascii_lowercase (str_trim v))
     in if m = '''' \<or> m = ''auto'' then Ok XAuto
        else if m = ''stream-one'' then Ok StreamOne
        else if m = ''stream-up'' then Ok StreamUp
        else if m = ''packet-up'' then Ok PacketUp
        else Err (SsXHttpMode m))"

definition parse_xhttp_version :: "string \<Rightarrow> (ss_error, xhttp_version) res" where
  "parse_xhttp_version v =
    (let m = to_ascii_lowercase (str_trim v)
     in if m = '''' \<or> m = ''auto'' then Ok VAuto
        else if m \<in> {''1'', ''1.1'', ''h1'', ''http/1.1''} then Ok H1
        else if m \<in> {''2'', ''h2'', ''http/2''} then Ok H2
        else if m \<in> {''3'', ''h3'', ''http/3''} then Ok H3
        else Err (SsXHttpVersion m))"

definition xhttp_plugin_of :: "kernel_node \<Rightarrow> option_values \<Rightarrow> string \<Rightarrow> bool \<Rightarrow> (ss_error, xhttp_plugin_config) res" where
  "xhttp_plugin_of n v hst tls =
    rbind (parse_xhttp_mode (or_default ''auto'' (option_or_parameter n v [''mode''] [''xhttp-mode'', ''xhttp_mode''])))
      (\<lambda>mode.
    rbind (parse_xhttp_version (or_default ''auto'' (option_or_parameter n v
        [''httpversion'', ''http-version'', ''http_version'', ''alpn'']
        [''httpVersion'', ''http-version'', ''http_version'', ''alpn'']))) (\<lambda>version.
    rbind (plugin_usize v [''scmaxeachpostbytes'', ''sc-max-each-post-bytes'', ''sc_max_each_post_bytes'',
        ''xhttp-post-bytes''] (256 * 1024)) (\<lambda>post_bytes.
    rbind (plugin_u64 v [''scminpostsintervalms'', ''sc-min-posts-interval-ms'', ''sc_min_posts_interval_ms'',
        ''xhttp-post-interval-ms''] 0) (\<lambda>interval.
      Ok \<lparr>xp_host = hst, xp_path = plugin_path n v, xp_tls = tls, xp_mode = mode, xp_version = version,
        xp_max_each_post_bytes = post_bytes, xp_min_posts_interval_ms = interval,
        xp_skip_cert_verify = (plugin_bool v ''skip-cert-verify'' \<or> plugin_bool v ''skip_cert_verify''
          \<or> plugin_bool v ''allowinsecure''
          \<or> or_default False (parameter_bool n [''skip-cert-verify'', ''skip_cert_verify'', ''allowInsecure'']))\<rparr>))))"

definition from_obfuscation :: "kernel_node \<Rightarrow> string \<Rightarrow> string \<Rightarrow> (ss_error, shadowsocks_plugin) res" where
  "from_obfuscation n obfuscation options =
    (let v = parse_plugin_options options; hst = plugin_host n v;
         tls_enabled = (plugin_bool v ''tls''
           \<or> or_default False (parameter_bool n [''obfuscation-tls'', ''obfuscation_tls'', ''tls'']));
         h2_tls = (tls_enabled \<or> \<not> (plugin_bool v ''h2c'' \<or> or_default False (parameter_bool n [''h2c''])))
     in if obfuscation \<in> {''http'', ''h1''} then Ok (SimpleObfsHttp hst (server_port n))
        else if obfuscation \<in> {''tls'', ''ssl''} then Ok (SimpleObfsTls hst)
        else if obfuscation \<in> {''websocket'', ''ws'', ''httpupgrade'', ''http_upgrade''} then
          Ok (WebSocketPlugin hst (plugin_path n v) tls_enabled)
        else if obfuscation = ''wss'' then Ok (WebSocketPlugin hst (plugin_path n v) True)
        else if obfuscation = ''h2'' then Ok (H2Plugin hst (plugin_path n v) h2_tls)
        else if obfuscation = ''xhttp'' then
          rbind (xhttp_plugin_of n v hst h2_tls) (\<lambda>x. Ok (XHttpPlugin x))
        else Err (UnsupportedObfuscation obfuscation))"

text \<open>
  \<open>split_ssr_http_obfs_param\<close> (\<open>obfs.rs\<close>): the first host of the list before \<open>#\<close>, the headers behind it
  with line breaks written as \<open>\n\<close> or as a line feed.
\<close>

fun replace_text :: "string \<Rightarrow> string \<Rightarrow> nat \<Rightarrow> string \<Rightarrow> string" where
  "replace_text pat rep skip [] = []"
| "replace_text pat rep (Suc skip) (c # r) = replace_text pat rep skip r"
| "replace_text pat rep 0 (c # r) =
    (if starts_with (c # r) pat then rep @ replace_text pat rep (length pat - 1) r
     else c # replace_text pat rep 0 r)"

definition split_char :: "char \<Rightarrow> string \<Rightarrow> string list" where
  "split_char c s = (case foldr (\<lambda>x (w, ws). if x = c then ([], w # ws) else (x # w, ws)) s ([], []) of (w, ws) \<Rightarrow> w # ws)"

definition split_ssr_http_obfs_param :: "string \<Rightarrow> string \<Rightarrow> string \<times> string" where
  "split_ssr_http_obfs_param param fallback_host =
    (let trimmed = str_trim param;
         (hst, headers) = or_default (trimmed, []) (split_once CHR ''#'' trimmed);
         crlf = [CHR 0x0D, CHR 0x0A]
     in (or_default fallback_host (find (\<lambda>v. v \<noteq> []) (List.map str_trim (split_char CHR '','' hst))),
         str_trim (replace_text [CHR 0x0A] crlf 0 (replace_text [backslash, CHR ''n''] crlf 0 headers))))"

text \<open>
  The key of the TLS obfuscation: for a cipher of the package, \<open>server_key\<close> is the key of a
  \<open>ServerConfig\<close> with the node's password; for the others, \<open>EVP_BytesToKey\<close> (\<open>legacy.rs\<close>) over \<open>md5\<close>.
  The loop appends digests until the key is long enough; its fuel is the length asked for, one round
  for every byte being enough for a digest that is not empty.
\<close>

fun evp_loop :: "(bytes \<Rightarrow> bytes) \<Rightarrow> bytes \<Rightarrow> nat \<Rightarrow> nat \<Rightarrow> bytes \<Rightarrow> bytes \<Rightarrow> bytes" where
  "evp_loop md5 password key_len fuel previous key =
    (if length key < key_len then
       (case fuel of
          0 \<Rightarrow> key
        | Suc fuel \<Rightarrow>
            (let previous = md5 (previous @ password)
             in evp_loop md5 password key_len fuel previous (key @ previous)))
     else key)"

declare evp_loop.simps [simp del]

definition legacy_evp_bytes_to_key :: "(bytes \<Rightarrow> bytes) \<Rightarrow> bytes \<Rightarrow> nat \<Rightarrow> bytes" where
  "legacy_evp_bytes_to_key md5 password key_len = take key_len (evp_loop md5 password key_len key_len [] [])"

definition ssr_obfs_key_from_node :: "(string \<Rightarrow> 'c option) \<Rightarrow> (string \<Rightarrow> 'c \<Rightarrow> bytes option) \<Rightarrow> (bytes \<Rightarrow> bytes)
    \<Rightarrow> kernel_node \<Rightarrow> (ss_error, bytes) res" where
  "ssr_obfs_key_from_node builtin server_key md5 n =
    rbind (parse_shadowsocks_cipher builtin (or_default ''aes-256-cfb'' (first_parameter n [''method'', ''cipher''])))
      (\<lambda>m. case m of
         BuiltIn c \<Rightarrow> from_option ServerKeyError (server_key (user_id n) c)
       | NeonLegacy l \<Rightarrow> Ok (legacy_evp_bytes_to_key md5 (as_bytes (user_id n)) (legacy_key_len l)))"

definition from_ssr_node :: "(string \<Rightarrow> 'c option) \<Rightarrow> (string \<Rightarrow> 'c \<Rightarrow> bytes option) \<Rightarrow> (bytes \<Rightarrow> bytes)
    \<Rightarrow> kernel_node \<Rightarrow> (ss_error, shadowsocks_plugin) res" where
  "from_ssr_node builtin server_key md5 n =
    (let obfs = str_trim (or_default ''plain'' (parameter n ''obfs''));
         param = nonempty_or (server n) (first_parameter n [''obfs_param'', ''obfs-param''])
     in rbind (from_option (UnsupportedSsrObfs obfs) (canonical_ssr_obfs_name obfs)) (\<lambda>c.
        if c = ''plain'' then Ok PluginNone
        else if c = ''http_simple'' \<or> c = ''http_post'' then
          (case split_ssr_http_obfs_param param (server n) of
             (hst, headers) \<Rightarrow> Ok (SsrHttp hst (server_port n) (c = ''http_post'') headers))
        else if c = ''random_head'' then Ok RandomHead
        else if c = ''tls1.2_ticket_auth'' \<or> c = ''tls1.2_ticket_fastauth'' then
          rbind (ssr_obfs_key_from_node builtin server_key md5 n) (\<lambda>key. Ok (SsrTls param key))
        else Err (UnsupportedSsrObfs c)))"

definition from_simple_obfs_options :: "kernel_node \<Rightarrow> string \<Rightarrow> (ss_error, shadowsocks_plugin) res" where
  "from_simple_obfs_options n options =
    (let v = parse_plugin_options options;
         mode = to_ascii_lowercase (or_default ''http'' (option_or_parameter n v [''obfs'', ''mode''] [''obfs'']));
         hst = plugin_host n v
     in if mode \<in> {''http'', ''http_simple'', ''http-post'', ''http_post''} then Ok (SimpleObfsHttp hst (server_port n))
        else if mode \<in> {''tls'', ''tls1.2_ticket_auth'', ''tls1_2_ticket_auth''} then Ok (SimpleObfsTls hst)
        else Err (UnsupportedSimpleObfs mode))"

definition from_websocket_plugin_options :: "kernel_node \<Rightarrow> string \<Rightarrow> string \<Rightarrow> (ss_error, shadowsocks_plugin) res" where
  "from_websocket_plugin_options n options name =
    (let v = parse_plugin_options options; mode = to_ascii_lowercase (or_default ''websocket'' (v ''mode''))
     in if mode \<noteq> ''websocket'' then Err (UnsupportedWebSocketMode name mode)
        else Ok (WebSocketPlugin (plugin_host n v) (plugin_path n v) (plugin_bool v ''tls'')))"

definition from_shadow_tls_options :: "kernel_node \<Rightarrow> string \<Rightarrow> (ss_error, shadowsocks_plugin) res" where
  "from_shadow_tls_options n options =
    (let v = parse_plugin_options options
     in rbind (from_option ShadowTlsVersionInvalid (parse_u8 (or_default ''2'' (option_or_parameter n v
          [''version'', ''v''] [''shadow-tls-version'', ''shadow_tls_version''])))) (\<lambda>version.
        if version \<notin> {1, 2, 3} then Err (ShadowTlsVersionUnsupported version)
        else Ok (ShadowTls
          \<lparr>st_host = plugin_host n v,
           st_password = nonempty_or (user_id n) (option_or_parameter n v [''password'', ''passwd'', ''psk'']
             [''shadow-tls-password'', ''shadow_tls_password'']),
           st_version = version,
           st_alpn = (case v ''alpn'' of
               Some a \<Rightarrow> filter (\<lambda>x. x \<noteq> []) (List.map str_trim (split_char CHR '','' a))
             | None \<Rightarrow> []),
           st_skip_cert_verify = (plugin_bool v ''skip-cert-verify'' \<or> plugin_bool v ''skip_cert_verify''
             \<or> plugin_bool v ''allowinsecure'')\<rparr>)))"

definition from_external_sip003_options :: "kernel_node \<Rightarrow> string \<Rightarrow> string \<Rightarrow> (ss_error, shadowsocks_plugin) res" where
  "from_external_sip003_options n options plugin =
    (let v = parse_plugin_options options;
         fallback = (if plugin = ''cloak'' then ''ck-client''
           else if plugin \<in> {''external-sip003'', ''external_sip003'', ''sip003''} then '''' else plugin);
         program = str_trim (or_default fallback (option_or_parameter n v [''program'', ''path'', ''plugin'']
           [''plugin_path'', ''plugin-path'', ''plugin_program'', ''plugin-program'']))
     in if program = [] then Err Sip003ProgramEmpty
        else Ok (ExternalSip003 program (sanitize_sip003_options options)))"

definition plugin_from_node :: "(string \<Rightarrow> 'c option) \<Rightarrow> (string \<Rightarrow> 'c \<Rightarrow> bytes option) \<Rightarrow> (bytes \<Rightarrow> bytes)
    \<Rightarrow> kernel_node \<Rightarrow> (ss_error, shadowsocks_plugin) res" where
  "plugin_from_node builtin server_key md5 n =
    (if is_ssr n then from_ssr_node builtin server_key md5 n
     else
       (let plugin = to_ascii_lowercase (str_trim (or_default '''' (first_parameter n [''plugin'', ''plugin_name''])));
            options = or_default '''' (first_parameter n
              [''plugin_opts'', ''plugin-opts'', ''plugin_options'', ''pluginOptions'']);
            obfuscation = to_ascii_lowercase (str_trim (or_default ''''
              (first_parameter n [''obfuscation'', ''obfs'', ''mode''])))
        in if plugin = [] then
             (if obfuscation \<noteq> [] \<and> obfuscation \<noteq> ''none'' then from_obfuscation n obfuscation options
              else Ok PluginNone)
           else if plugin \<in> {''obfs-local'', ''simple-obfs'', ''simple_obfs''} then from_simple_obfs_options n options
           else if plugin \<in> {''v2ray-plugin'', ''v2ray_plugin''} then
             from_websocket_plugin_options n options ''v2ray-plugin''
           else if plugin \<in> {''gost'', ''gost-plugin''} then from_websocket_plugin_options n options ''gost-plugin''
           else if plugin \<in> {''shadow-tls'', ''shadow_tls''} then from_shadow_tls_options n options
           else if plugin = ''kcptun'' then rbind (from_kcptun_options options) (\<lambda>k. Ok (Kcptun k))
           else if plugin \<in> {''cloak'', ''ck-client'', ''external-sip003'', ''external_sip003'', ''sip003''} then
             from_external_sip003_options n options plugin
           else if obfuscation \<noteq> [] \<and> obfuscation \<noteq> ''none'' then from_obfuscation n obfuscation options
           else Err (UnsupportedPlugin plugin)))"

section \<open>The configuration of a node\<close>

record 'c shadowsocks_config =
  ss_server :: string
  ss_server_port :: u16
  ss_password :: string
  ss_cipher :: "'c shadowsocks_cipher"
  ss_plugin :: shadowsocks_plugin
  ss_protocol :: ssr_protocol
  ss_protocol_param :: string
  ss_one_time_auth :: bool
  ss_tcp_fast_open :: bool
  ss_udp_relay :: bool
  ss_udp_over_tcp :: bool

text \<open>What the code asks of the packages: the names of ciphers, their categories and keys, and MD5.\<close>

record 'c ss_library =
  lib_parse :: "string \<Rightarrow> 'c option"
  lib_category :: "'c \<Rightarrow> cipher_category"
  lib_key :: "string \<Rightarrow> 'c \<Rightarrow> bytes option"
  lib_md5 :: "bytes \<Rightarrow> bytes"

definition ss_from_node :: "'c ss_library \<Rightarrow> kernel_node \<Rightarrow> (ss_error, 'c shadowsocks_config) res" where
  "ss_from_node lib n =
    (if server n = [] \<or> server_port n = 0 then Err InvalidEndpoint
     else if user_id n = [] then Err NoPassword
     else rbind (parse_shadowsocks_cipher (lib_parse lib)
            (or_default ''2022-blake3-aes-256-gcm'' (first_parameter n [''method'', ''cipher'']))) (\<lambda>m.
          rbind (ssr_protocol_from_node (lib_category lib) n m) (\<lambda>p.
          rbind (plugin_from_node (lib_parse lib) (lib_key lib) (lib_md5 lib) n) (\<lambda>plugin.
            Ok \<lparr>ss_server = server n, ss_server_port = server_port n, ss_password = user_id n, ss_cipher = m,
              ss_plugin = plugin, ss_protocol = p,
              ss_protocol_param = or_default '''' (first_parameter n [''protocol_param'', ''protocol-param'']),
              ss_one_time_auth = or_default False
                (parameter_bool n [''one-time-auth'', ''one_time_auth'', ''ota'']),
              ss_tcp_fast_open = or_default False
                (parameter_bool n [''tcp-fast-open'', ''tcp_fast_open'', ''fast-open'', ''fast_open'']),
              ss_udp_relay = or_default True (parameter_bool n [''udp-relay'', ''udp_relay'', ''udp'']),
              ss_udp_over_tcp = or_default False
                (parameter_bool n [''udp-over-tcp'', ''udp_over_tcp'', ''uot''])\<rparr>))))"

section \<open>Which way datagrams go\<close>

datatype shadowsocks_udp_mode = DirectUdp | UdpOverTcp | UdpDisabled

definition udp_mode :: "'c shadowsocks_config \<Rightarrow> shadowsocks_udp_mode" where
  "udp_mode c =
    (if \<not> ss_udp_relay c then UdpDisabled
     else if ss_udp_over_tcp c then UdpOverTcp
     else if ss_plugin c \<noteq> PluginNone then UdpDisabled
     else DirectUdp)"

definition ensure_udp_supported :: "'c shadowsocks_config \<Rightarrow> (ss_error, unit) res" where
  "ensure_udp_supported c =
    (case udp_mode c of
       DirectUdp \<Rightarrow> Ok ()
     | UdpOverTcp \<Rightarrow> Err UotRequired
     | UdpDisabled \<Rightarrow>
         (if ss_udp_relay c \<and> ss_plugin c \<noteq> PluginNone then Err (UdpNeedsUot (transport_name (ss_plugin c)))
          else Err UdpRelayDisabled))"

definition ensure_uot_supported :: "'c shadowsocks_config \<Rightarrow> (ss_error, unit) res" where
  "ensure_uot_supported c =
    (case udp_mode c of
       UdpOverTcp \<Rightarrow> Ok ()
     | DirectUdp \<Rightarrow> Err DirectUdpNeedsNoUot
     | UdpDisabled \<Rightarrow> Err UdpRelayDisabled)"

definition ensure_tcp_supported :: "'c shadowsocks_config \<Rightarrow> (ss_error, unit) res" where
  "ensure_tcp_supported c = Ok ()"

definition should_use_uot :: "'c shadowsocks_config \<Rightarrow> bool" where
  "should_use_uot c \<longleftrightarrow> udp_mode c = UdpOverTcp"

definition ss_validate :: "'c ss_library \<Rightarrow> kernel_node \<Rightarrow> (ss_error, unit) res" where
  "ss_validate lib n = rbind (ss_from_node lib n) ensure_tcp_supported"

section \<open>Connecting\<close>

text \<open>
  \<open>connect_transport\<close> chooses how the server is reached. The TCP connection and what is opened over
  it are the caller's: \<open>tcp\<close> is the outcome of dialling, with an error of a type of its own.
\<close>

datatype 's ss_transport =
    OpenKcptun kcptun_config
  | OpenSip003 string string
  | OpenXHttpH3 xhttp_plugin_config
  | OverTcp 's shadowsocks_plugin

definition open_over_tcp :: "'s \<Rightarrow> shadowsocks_plugin \<Rightarrow> ('e, 's ss_transport) res" where
  "open_over_tcp raw p =
    (case p of
       Kcptun _ \<Rightarrow> Inl Panic
     | ExternalSip003 _ _ \<Rightarrow> Inl Panic
     | _ \<Rightarrow> Ok (OverTcp raw p))"

definition connect_transport :: "('e, 's) res \<Rightarrow> 'c shadowsocks_config \<Rightarrow> ('e, 's ss_transport) res" where
  "connect_transport tcp c =
    (case ss_plugin c of
       Kcptun k \<Rightarrow> Ok (OpenKcptun k)
     | ExternalSip003 program options \<Rightarrow> Ok (OpenSip003 program options)
     | XHttpPlugin x \<Rightarrow>
         (if xp_version x = H3 then Ok (OpenXHttpH3 x) else rbind tcp (\<lambda>raw. open_over_tcp raw (ss_plugin c)))
     | _ \<Rightarrow> rbind tcp (\<lambda>raw. open_over_tcp raw (ss_plugin c)))"

section \<open>Names that resolve\<close>

lemma canonical_name_normalized:
  "normalize_ssr_registry_name v = normalize_ssr_registry_name w \<Longrightarrow> canonical_name r v = canonical_name r w"
  by (simp add: canonical_name_def)

text \<open>The registries as tables of literal names, which \<open>find\<close> searches without normalising again.\<close>

definition plain_name :: "string \<Rightarrow> string" where
  "plain_name v = replace_char CHR ''-'' CHR ''_'' (to_ascii_lowercase v)"

lemma normalize_visible: "list_all visible v \<Longrightarrow> normalize_ssr_registry_name v = plain_name v"
  by (simp add: normalize_ssr_registry_name_def plain_name_def str_trim_visible)

definition name_table :: "ssr_registry_entry list \<Rightarrow> (string \<times> string list) list" where
  "name_table r = List.map (\<lambda>e. (canonical e, canonical e # List.map plain_name (aliases e))) r"

definition all_visible :: "ssr_registry_entry list \<Rightarrow> bool" where
  "all_visible r \<longleftrightarrow> list_all (\<lambda>e. list_all visible (canonical e) \<and> list_all (list_all visible) (aliases e)) r"

definition table_find :: "(string \<times> string list) list \<Rightarrow> string \<Rightarrow> string option" where
  "table_find t v = map_option fst (find (\<lambda>(c, ns). v \<in> set ns) t)"

lemma canonical_name_table:
  "all_visible r \<Longrightarrow> canonical_name r v = table_find (name_table r) (normalize_ssr_registry_name v)"
proof (induction r)
  case (Cons e r)
  then have "registry_names e = canonical e # List.map plain_name (aliases e)"
    by (auto simp: all_visible_def registry_names_def normalize_visible list_all_iff)
  then show ?case using Cons by (simp add: canonical_name_def table_find_def name_table_def all_visible_def)
qed (simp add: canonical_name_def table_find_def name_table_def)

definition table_closed :: "(string \<times> string list) list \<Rightarrow> bool" where
  "table_closed t \<longleftrightarrow> list_all (\<lambda>(c, ns). plain_name c \<in> set ns \<and> list_all (\<lambda>v. table_find t v = Some c) ns) t"

lemma visible_registries: "all_visible ssr_protocol_registry" "all_visible ssr_obfs_registry"
  by code_simp+

lemma closed_registries: "table_closed (name_table ssr_protocol_registry)" "table_closed (name_table ssr_obfs_registry)"
  by code_simp+

definition registry_closed :: "ssr_registry_entry list \<Rightarrow> bool" where
  "registry_closed r \<longleftrightarrow> (\<forall>e \<in> set r. \<forall>v \<in> set (canonical e # aliases e). canonical_name r v = Some (canonical e))"

lemma registry_closed_table:
  assumes "all_visible r" "table_closed (name_table r)"
  shows "registry_closed r"
  unfolding registry_closed_def
proof (intro ballI)
  fix e v assume e: "e \<in> set r" and v: "v \<in> set (canonical e # aliases e)"
  have "list_all visible v" using assms(1) e v by (auto simp: all_visible_def list_all_iff)
  moreover have "table_find (name_table r) (plain_name v) = Some (canonical e)"
    using assms(2) e v by (auto simp: table_closed_def name_table_def list_all_iff)
  ultimately show "canonical_name r v = Some (canonical e)"
    by (simp add: canonical_name_table [OF assms(1)] normalize_visible)
qed

lemma registries_closed [simp]: "registry_closed ssr_protocol_registry" "registry_closed ssr_obfs_registry"
  by (rule registry_closed_table [OF visible_registries(1) closed_registries(1)],
      rule registry_closed_table [OF visible_registries(2) closed_registries(2)])

lemma canonical_name_member:
  "canonical_name r v = Some c \<Longrightarrow> \<exists>e \<in> set r. canonical e = c"
  by (auto simp: canonical_name_def find_Some_iff)

lemma canonical_name_idem:
  "registry_closed r \<Longrightarrow> canonical_name r v = Some c \<Longrightarrow> canonical_name r c = Some c"
  using canonical_name_member [of r v c] by (auto simp: registry_closed_def)

lemma protocol_names_known:
  "list_all (\<lambda>e. case ssr_protocol_of (canonical e) of Inr _ \<Rightarrow> True | Inl _ \<Rightarrow> False) ssr_protocol_registry"
  by code_simp

lemma ssr_protocol_of_canonical:
  "canonical_ssr_protocol_name v = Some c \<Longrightarrow> \<exists>p. ssr_protocol_of c = Ok p"
  using protocol_names_known canonical_name_member [of ssr_protocol_registry v c]
  by (cases "ssr_protocol_of c") (auto simp: canonical_ssr_protocol_name_def list_all_iff)

lemma obfs_names:
  "canonical_ssr_obfs_name v = Some c \<Longrightarrow> c \<in> {''plain'', ''http_simple'', ''http_post'', ''random_head'',
    ''tls1.2_ticket_auth'', ''tls1.2_ticket_fastauth''}"
  using canonical_name_member [of ssr_obfs_registry v c]
  by (auto simp: canonical_ssr_obfs_name_def ssr_obfs_registry_def)

section \<open>Configurations in range\<close>

definition kcptun_in_range :: "kcptun_config \<Rightarrow> bool" where
  "kcptun_in_range k \<longleftrightarrow> 1 \<le> kc_conn k \<and> kc_conn k \<le> 16 \<and> (kc_smux_ver k = 1 \<or> kc_smux_ver k = 2)
    \<and> 1 \<le> kc_frame_size k \<and> kc_frame_size k \<le> 65535 \<and> kc_stream_buf k \<le> kc_smux_buf k"

definition plugin_ok :: "shadowsocks_plugin \<Rightarrow> bool" where
  "plugin_ok p =
    (case p of
       Kcptun k \<Rightarrow> kcptun_in_range k
     | ShadowTls t \<Rightarrow> st_version t \<in> {1, 2, 3} \<and> [] \<notin> set (st_alpn t)
     | ExternalSip003 program options \<Rightarrow>
         program \<noteq> [] \<and> launcher_keys \<inter> dom (parse_plugin_options options) = {}
     | _ \<Rightarrow> True)"

lemma apply_mode_in_range [simp]: "kcptun_in_range (apply_mode c)"
  by (auto simp: apply_mode_def Let_def kcptun_in_range_def clamp_def mode_delays_def)

lemma from_kcptun_in_range: "from_kcptun_options options = Ok k \<Longrightarrow> kcptun_in_range k"
proof -
  have step: "(\<And>x. f x = Ok k \<Longrightarrow> P) \<Longrightarrow> rbind r f = Ok k \<Longrightarrow> P" for r :: "(ss_error, 'x) res" and f P
    by (auto simp: rbind_Inr_iff)
  assume "from_kcptun_options options = Ok k"
  then show ?thesis unfolding from_kcptun_options_def Let_def
    by (elim step [rotated]) (simp only: sum.inject, elim subst, rule apply_mode_in_range)
qed

lemma sanitized_without_launcher: "launcher_keys \<inter> dom (parse_plugin_options (sanitize_sip003_options options)) = {}"
proof -
  have "parse_plugin_options (sanitize_sip003_options options) = parse_plugin_options options |` (- launcher_keys)"
    by (rule sanitized_table)
  then show ?thesis by auto
qed

text \<open>Every plugin a source returns is in range: \<open>sources\<close> of plugins are followed branch by branch.\<close>

lemma plugin_ok_simps [simp]:
  "plugin_ok (Kcptun k) = kcptun_in_range k"
  "plugin_ok (ShadowTls t) \<longleftrightarrow> st_version t \<in> {1, 2, 3} \<and> [] \<notin> set (st_alpn t)"
  "plugin_ok (ExternalSip003 program options)
    \<longleftrightarrow> program \<noteq> [] \<and> launcher_keys \<inter> dom (parse_plugin_options options) = {}"
  "plugin_ok PluginNone" "plugin_ok (SimpleObfsHttp h p)" "plugin_ok (SsrHttp h p b hs)" "plugin_ok (SimpleObfsTls h)"
  "plugin_ok (SsrTls h key)" "plugin_ok RandomHead" "plugin_ok (WebSocketPlugin h path b)" "plugin_ok (XHttpPlugin x)"
  "plugin_ok (H2Plugin h path b)"
  by (simp_all add: plugin_ok_def)

lemma plugin_sources [branches]:
  "results plugin_ok (from_external_sip003_options n options plugin)"
  "results plugin_ok (from_shadow_tls_options n options)"
  "results plugin_ok (from_obfuscation n obfuscation options)"
  "results plugin_ok (from_websocket_plugin_options n options name)"
  "results plugin_ok (from_simple_obfs_options n options)"
  "results plugin_ok (from_ssr_node builtin key md5 n)"
  unfolding from_external_sip003_options_def from_shadow_tls_options_def from_obfuscation_def
    from_websocket_plugin_options_def from_simple_obfs_options_def from_ssr_node_def Let_def
  by (intro branches; simp add: sanitized_without_launcher split: option.split)+

lemma plugin_from_node_ok: "results plugin_ok (plugin_from_node builtin key md5 n)"
  unfolding plugin_from_node_def Let_def
  by (intro branches; simp add: from_kcptun_in_range)

lemma ssr_protocol_from_node_ok:
  "ssr_protocol_from_node category n m = Ok p \<Longrightarrow> is_native p \<Longrightarrow>
    is_ssr n \<and> cipher_category category m \<in> {CategoryStream, CategoryNone}"
  by (auto simp: ssr_protocol_from_node_def Let_def rbind_Inr_iff is_native_def split: if_splits)

lemma first_value_empty [simp]: "first_value Map.empty keys = None"
  by (simp add: first_value_def)

section \<open>Properties\<close>

text \<open>
  C35: a configuration that is accepted is sound. The endpoint is complete and there is a password; the
  numbers of kcptun and the version of ShadowTLS are in their ranges; an external plugin has a program
  and is given none of the launcher's options; and a native ShadowsocksR protocol only comes with a
  stream cipher or none.
\<close>

theorem ss_config_sound:
  assumes "ss_from_node lib n = Ok c"
  shows "ss_server c \<noteq> [] \<and> ss_server_port c \<noteq> 0 \<and> ss_password c \<noteq> [] \<and> plugin_ok (ss_plugin c)
    \<and> (is_native (ss_protocol c) \<longrightarrow> cipher_category (lib_category lib) (ss_cipher c) \<in> {CategoryStream, CategoryNone})"
proof -
  obtain m p plugin where "server n \<noteq> []" "server_port n \<noteq> 0" "user_id n \<noteq> []"
    "ssr_protocol_from_node (lib_category lib) n m = Ok p"
    "plugin_from_node (lib_parse lib) (lib_key lib) (lib_md5 lib) n = Ok plugin"
    and "ss_server c = server n" "ss_server_port c = server_port n" "ss_password c = user_id n" "ss_cipher c = m"
    "ss_plugin c = plugin" "ss_protocol c = p"
    using assms by (auto simp: ss_from_node_def rbind_Inr_iff split: if_splits)
  then show ?thesis using ssr_protocol_from_node_ok [of "lib_category lib" n m p] resultsD [OF plugin_from_node_ok]
    by auto
qed

definition example_ss_node :: kernel_node where
  "example_ss_node = \<lparr>node_id = None, node_protocol = ''ss'', server = ''a'', server_port = 443, user_id = ''p'',
     parameters = (\<lambda>k. if k = ''plugin'' then Some (Some ''kcptun'')
       else if k = ''plugin_opts'' then Some (Some ''conn=99'') else None)\<rparr>"

definition example_ss_library :: "nat ss_library" where
  "example_ss_library = \<lparr>lib_parse = (\<lambda>_. Some 0), lib_category = (\<lambda>_. CategoryOther), lib_key = (\<lambda>_ _. None),
     lib_md5 = id\<rparr>"

lemma ss_example: "map_sum id (\<lambda>c. case ss_plugin c of Kcptun k \<Rightarrow> kc_conn k | _ \<Rightarrow> 0)
    (ss_from_node example_ss_library example_ss_node) = Ok 16"
  by code_simp

theorem ss_config_sound_witness:
  "\<exists>c. ss_from_node example_ss_library example_ss_node = Ok c \<and> plugin_ok (ss_plugin c) \<and> ss_server c \<noteq> []"
proof -
  obtain c where "ss_from_node example_ss_library example_ss_node = Ok c"
    using ss_example by (cases "ss_from_node example_ss_library example_ss_node") auto
  with ss_config_sound [OF this] show ?thesis by blast
qed

text \<open>
  The registry and the protocols agree. Whatever text a name is written in (case, outer white
  space, hyphens for underscores), a name that the registry resolves is the name of a protocol, its
  canonical form resolves to itself, and two texts that normalise alike resolve alike; every name and
  alias of the registry resolves to its own entry.
\<close>

theorem ssr_registry_agrees:
  "(canonical_ssr_protocol_name v = Some c \<longrightarrow> (\<exists>p. ssr_protocol_of c = Ok p) \<and> canonical_ssr_protocol_name c = Some c)
    \<and> (normalize_ssr_registry_name v = normalize_ssr_registry_name w
        \<longrightarrow> canonical_ssr_protocol_name v = canonical_ssr_protocol_name w)
    \<and> (\<forall>e \<in> set ssr_protocol_registry. \<forall>a \<in> set (aliases e). canonical_ssr_protocol_name a = Some (canonical e))"
  using ssr_protocol_of_canonical canonical_name_idem [OF registries_closed(1)] registries_closed(1)
  by (auto simp: canonical_ssr_protocol_name_def registry_closed_def intro: canonical_name_normalized)

lemma alias_resolves: "canonical_ssr_protocol_name ''ota'' = Some ''verify_sha1''"
proof -
  have "\<lparr>canonical = ''verify_sha1'', aliases = [''verify_sha1'', ''ota'']\<rparr> \<in> set ssr_protocol_registry"
    by (simp add: ssr_protocol_registry_def)
  from bspec [OF registries_closed(1) [unfolded registry_closed_def] this]
  show ?thesis by (simp add: canonical_ssr_protocol_name_def)
qed

theorem ssr_registry_agrees_witness:
  "(\<exists>p. ssr_protocol_of ''verify_sha1'' = Ok p) \<and> canonical_ssr_protocol_name ''verify_sha1'' = Some ''verify_sha1''"
  using ssr_registry_agrees [of "''ota''" "''verify_sha1''" "''ota''"] alias_resolves by simp

text \<open>
  Datagrams take one way, and never around a plugin. Exactly one of the three modes is chosen, the
  two checks accept exactly their own mode, and a node that hides its traffic behind a plugin never
  sends a datagram directly.
\<close>

theorem ss_udp_never_bypasses_plugin:
  "(ensure_udp_supported c = Ok () \<longleftrightarrow> ss_udp_relay c \<and> \<not> ss_udp_over_tcp c \<and> ss_plugin c = PluginNone)
    \<and> (ensure_uot_supported c = Ok () \<longleftrightarrow> should_use_uot c)
    \<and> (should_use_uot c \<longleftrightarrow> ss_udp_relay c \<and> ss_udp_over_tcp c)
    \<and> (ensure_udp_supported c = Ok () \<longrightarrow> \<not> should_use_uot c)"
  by (auto simp: ensure_udp_supported_def ensure_uot_supported_def should_use_uot_def udp_mode_def)

theorem ss_udp_never_bypasses_plugin_witness:
  "\<exists>c :: nat shadowsocks_config. ss_from_node example_ss_library (example_ss_node\<lparr>parameters := (\<lambda>_. None)\<rparr>) = Ok c
    \<and> ss_plugin c = PluginNone \<and> \<not> should_use_uot c"
proof -
  let ?r = "ss_from_node example_ss_library (example_ss_node\<lparr>parameters := (\<lambda>_. None)\<rparr>)"
  have "map_sum id ensure_udp_supported ?r = Ok (Ok () :: (ss_error, unit) res)" by code_simp
  then obtain c where c: "?r = Ok c" "ensure_udp_supported c = (Ok () :: (ss_error, unit) res)"
    by (cases ?r) auto
  with ss_udp_never_bypasses_plugin [of c] show ?thesis by blast
qed

text \<open>
  The transport never runs into its unreachable cases. Opening the transport of any configuration
  fails only where dialling fails, and what is opened over TCP is neither kcptun, nor an external
  plugin, nor XHTTP over HTTP/3.
\<close>

theorem ss_transport_total:
  "connect_transport (Ok raw) c \<noteq> Inl e
    \<and> (connect_transport (Ok raw) c = Ok (OverTcp raw' p) \<longrightarrow> raw' = raw \<and> p = ss_plugin c
        \<and> (\<forall>k. p \<noteq> Kcptun k) \<and> (\<forall>program options. p \<noteq> ExternalSip003 program options)
        \<and> (\<forall>x. p = XHttpPlugin x \<longrightarrow> xp_version x \<noteq> H3))"
  by (cases "ss_plugin c") (auto simp: connect_transport_def open_over_tcp_def)

theorem ss_transport_total_witness:
  "\<exists>c :: nat shadowsocks_config. connect_transport (Ok (7 :: nat)) c = (Ok (OverTcp 7 PluginNone) :: (unit, nat ss_transport) res)
    \<and> ss_plugin c = PluginNone"
proof -
  let ?r = "ss_from_node example_ss_library (example_ss_node\<lparr>parameters := (\<lambda>_. None)\<rparr>)"
  have "map_sum id (connect_transport (Ok 7)) ?r = Ok (Ok (OverTcp 7 PluginNone) :: (unit, nat ss_transport) res)"
    by code_simp
  then obtain c :: "nat shadowsocks_config" where
    c: "connect_transport (Ok 7) c = (Ok (OverTcp 7 PluginNone) :: (unit, nat ss_transport) res)"
    by (cases ?r) auto
  with ss_transport_total [of "7 :: nat" c "Panic :: unit fault" 7 PluginNone] show ?thesis by metis
qed

text \<open>
  Manual mode of kcptun is not what its defaults say. The defaults are the ones of the mode
  \<open>fast\<close>, which has already been applied to them, so a node that asks for the mode \<open>manual\<close> (or any
  other unknown mode) without further options gets the interval 30 and resend 2 of \<open>fast\<close> instead of
  the 50 and 0 the structure is written with.
\<close>

theorem kcptun_manual_inherits_fast:
  assumes "parse_plugin_options options = [''mode'' \<mapsto> ''manual'']"
  shows "\<exists>k. from_kcptun_options options = Ok k \<and> kc_mode k = ''manual'' \<and> kc_interval k = 30 \<and> kc_resend k = 2
    \<and> \<not> kc_no_congestion k"
  by (simp add: from_kcptun_options_def assms Let_def plugin_usize_def plugin_u64_def plugin_u32_def plugin_u16_def
      plugin_u8_def plugin_i32_def plugin_unsigned_def parse_plugin_number_def first_value_def kcptun_default_def
      apply_mode_def mode_delays_def plugin_string_def plugin_bool_def to_ascii_lowercase_def lower_char_def)

theorem kcptun_manual_inherits_fast_witness:
  "\<exists>k. from_kcptun_options ''mode=manual'' = Ok k \<and> kc_interval k = 30"
proof -
  have "split_plugin_options ''mode=manual'' = [''mode=manual'']"
    "split_plugin_option_pair ''mode=manual'' = Some (''mode'', ''manual'')"
    "option_key ''mode'' = ''mode''" "str_trim (unescape_plugin_option ''manual'') = ''manual''" by code_simp+
  then have "parse_plugin_options ''mode=manual'' = [''mode'' \<mapsto> ''manual'']"
    by (simp add: parse_plugin_options_def insert_option_def)
  from kcptun_manual_inherits_fast [OF this] show ?thesis by blast
qed

end
