(* ===== verification/Poll_Io.thy ===== *)
theory Poll_Io
  imports Rust_Lines
begin

text \<open>
  Asynchronous byte streams the way the adapters poll them, and the helpers of
  \<open>adapter/shadowsocks/obfs.rs\<close> that are shared by its streams (\<open>PendingWrite\<close>, \<open>drain_buffer\<close>).

  A poll returns at once: with a value, with an error, or with \<open>Pending\<close>. A transport is a script of
  what its next polls do, with the bytes it has accepted so far; a script that has run out blocks. A
  caller that gets \<open>Pending\<close> from a write polls again with the same bytes (the contract of
  \<open>AsyncWrite\<close>), which is the driver \<open>write_all\<close>.
\<close>

section \<open>Polls and transports\<close>

datatype io_error = TransportError | UnexpectedEof | WriteZero | InvalidData | InvalidInput

datatype 'a poll = Pending | Fault io_error | Ready 'a

text \<open>No bytes at all are the end of the stream, which stays.\<close>

datatype read_event = ReadBlock | ReadFail io_error | ReadData bytes

text \<open>\<open>WriteAccept n\<close> takes at most \<open>n\<close> bytes.\<close>

datatype write_event = WriteBlock | WriteFail io_error | WriteAccept nat

record transport =
  tr_in :: "read_event list"
  tr_out :: "write_event list"
  tr_sent :: bytes

definition poll_read_io :: "nat \<Rightarrow> transport \<Rightarrow> bytes poll \<times> transport" where
  "poll_read_io room io =
    (case tr_in io of
       [] \<Rightarrow> (Pending, io)
     | ReadBlock # es \<Rightarrow> (Pending, io\<lparr>tr_in := es\<rparr>)
     | ReadFail e # es \<Rightarrow> (Fault e, io\<lparr>tr_in := es\<rparr>)
     | ReadData bs # es \<Rightarrow>
         (if bs = [] then (Ready [], io)
          else if length bs \<le> room then (Ready bs, io\<lparr>tr_in := es\<rparr>)
          else (Ready (take room bs), io\<lparr>tr_in := ReadData (drop room bs) # es\<rparr>)))"

definition poll_write_io :: "bytes \<Rightarrow> transport \<Rightarrow> nat poll \<times> transport" where
  "poll_write_io bs io =
    (case tr_out io of
       [] \<Rightarrow> (Pending, io)
     | WriteBlock # es \<Rightarrow> (Pending, io\<lparr>tr_out := es\<rparr>)
     | WriteFail e # es \<Rightarrow> (Fault e, io\<lparr>tr_out := es\<rparr>)
     | WriteAccept n # es \<Rightarrow>
         (Ready (min n (length bs)), io\<lparr>tr_out := es, tr_sent := tr_sent io @ take n bs\<rparr>))"

section \<open>Pending writes\<close>

record pending_write =
  pw_data :: bytes
  pw_offset :: nat
  pw_original_len :: nat

definition new_pending :: "bytes \<Rightarrow> nat \<Rightarrow> pending_write" where
  "new_pending d n = \<lparr>pw_data = d, pw_offset = 0, pw_original_len = n\<rparr>"

text \<open>
  \<open>poll_write_all\<close> over any stream: \<open>w\<close> polls it. Every round that goes on has moved the offset.
\<close>

function poll_write_all :: "(bytes \<Rightarrow> 's \<Rightarrow> nat poll \<times> 's) \<Rightarrow> pending_write \<Rightarrow> 's \<Rightarrow> nat poll \<times> pending_write \<times> 's" where
  "poll_write_all w p s =
    (if pw_offset p < length (pw_data p) then
       (case w (drop (pw_offset p) (pw_data p)) s of
          (Pending, s') \<Rightarrow> (Pending, p, s')
        | (Fault e, s') \<Rightarrow> (Fault e, p, s')
        | (Ready n, s') \<Rightarrow>
            (if n = 0 then (Fault WriteZero, p, s')
             else poll_write_all w (p\<lparr>pw_offset := pw_offset p + n\<rparr>) s'))
     else (Ready (pw_original_len p), p, s))"
  by auto
termination by (relation "measure (\<lambda>(w, p, s). length (pw_data p) - pw_offset p)") auto

declare poll_write_all.simps [simp del]

text \<open>
  What every stream does with the write it may still hold: take it, poll it, and put it back when it
  blocks. No result means that there was none.
\<close>

definition flush_pending :: "(bytes \<Rightarrow> 's \<Rightarrow> nat poll \<times> 's) \<Rightarrow> pending_write option \<Rightarrow> 's
    \<Rightarrow> nat poll option \<times> pending_write option \<times> 's" where
  "flush_pending w pending s =
    (case pending of
       None \<Rightarrow> (None, None, s)
     | Some p \<Rightarrow>
         (case poll_write_all w p s of
            (Pending, p', s') \<Rightarrow> (Some Pending, Some p', s')
          | (Fault e, p', s') \<Rightarrow> (Some (Fault e), None, s')
          | (Ready n, p', s') \<Rightarrow> (Some (Ready n), None, s')))"

text \<open>\<open>drain_buffer\<close>: what goes into a buffer with \<open>room\<close> bytes left, and what stays.\<close>

definition drain_buffer :: "bytes \<Rightarrow> nat \<Rightarrow> (bytes \<times> bytes) option" where
  "drain_buffer buffer room =
    (if buffer = [] \<or> room = 0 then None else Some (take room buffer, drop room buffer))"

section \<open>Callers\<close>

text \<open>
  A caller that writes everything, with fuel for the number of polls: it polls again with the same
  bytes after \<open>Pending\<close> and with the rest after a partial write.
\<close>

fun write_all :: "nat \<Rightarrow> (bytes \<Rightarrow> 's \<Rightarrow> nat poll \<times> 's) \<Rightarrow> bytes \<Rightarrow> 's \<Rightarrow> 's option" where
  "write_all fuel w [] s = Some s"
| "write_all 0 w (b # bs) s = None"
| "write_all (Suc fuel) w (b # bs) s =
    (case w (b # bs) s of
       (Pending, s') \<Rightarrow> write_all fuel w (b # bs) s'
     | (Fault e, s') \<Rightarrow> None
     | (Ready n, s') \<Rightarrow> (if n = 0 then None else write_all fuel w (drop n (b # bs)) s'))"

text \<open>A caller that reads with buffers of the given sizes, and what it has got, the last poll first.\<close>

fun read_polls :: "(nat \<Rightarrow> 's \<Rightarrow> bytes poll \<times> 's) \<Rightarrow> nat list \<Rightarrow> 's \<Rightarrow> bytes poll list \<times> 's" where
  "read_polls r [] s = ([], s)"
| "read_polls r (room # rooms) s =
    (case r room s of (x, s') \<Rightarrow> (case read_polls r rooms s' of (xs, s'') \<Rightarrow> (x # xs, s'')))"

definition got :: "bytes poll list \<Rightarrow> bytes" where
  "got xs = concat (map (\<lambda>x. case x of Ready bs \<Rightarrow> bs | _ \<Rightarrow> []) xs)"

section \<open>A pending write is sent exactly once\<close>

text \<open>The polls of a pending write on the transport, again with fuel.\<close>

fun pump :: "nat \<Rightarrow> pending_write \<Rightarrow> transport \<Rightarrow> transport option" where
  "pump 0 p io = None"
| "pump (Suc fuel) p io =
    (case poll_write_all poll_write_io p io of
       (Pending, p', io') \<Rightarrow> pump fuel p' io'
     | (Fault e, p', io') \<Rightarrow> None
     | (Ready n, p', io') \<Rightarrow> Some io')"

text \<open>A script that blocks or accepts, but never fails and never accepts nothing.\<close>

definition lively :: "write_event list \<Rightarrow> bool" where
  "lively es \<longleftrightarrow> (\<forall>e \<in> set es. case e of WriteBlock \<Rightarrow> True | WriteAccept n \<Rightarrow> 0 < n | WriteFail _ \<Rightarrow> False)"

fun accepts :: "write_event list \<Rightarrow> nat" where
  "accepts [] = 0"
| "accepts (WriteAccept n # es) = Suc (accepts es)"
| "accepts (_ # es) = accepts es"

lemma lively_Cons: "lively (e # es) \<longleftrightarrow> (e = WriteBlock \<or> (\<exists>n. 0 < n \<and> e = WriteAccept n)) \<and> lively es"
  by (cases e) (auto simp: lively_def)

lemma accepts_le_length: "accepts es \<le> length es"
  by (induction es rule: accepts.induct) auto

text \<open>One poll of a pending write: what is on the wire and what is still to come never change.\<close>

lemma poll_write_all_sent:
  assumes "poll_write_all poll_write_io p io = (r, p', io')" "pw_offset p \<le> length (pw_data p)"
  shows "tr_sent io' @ drop (pw_offset p') (pw_data p') = tr_sent io @ drop (pw_offset p) (pw_data p)
    \<and> pw_offset p' \<le> length (pw_data p') \<and> pw_data p' = pw_data p \<and> pw_original_len p' = pw_original_len p
    \<and> tr_in io' = tr_in io \<and> (\<forall>n. r = Ready n \<longrightarrow> n = pw_original_len p \<and> pw_offset p' = length (pw_data p'))"
  using assms
proof (induction poll_write_io p io arbitrary: r rule: poll_write_all.induct)
  case (1 p io)
  show ?case
  proof (cases "pw_offset p < length (pw_data p)")
    case False
    then show ?thesis using 1(2,3) by (auto simp: poll_write_all.simps [of poll_write_io p])
  next
    case True
    obtain x io1 where w: "poll_write_io (drop (pw_offset p) (pw_data p)) io = (x, io1)" by fastforce
    show ?thesis
    proof (cases x)
      case (Ready n)
      have n: "n \<le> length (pw_data p) - pw_offset p" "tr_in io1 = tr_in io"
        "tr_sent io1 = tr_sent io @ take n (drop (pw_offset p) (pw_data p))"
        using w Ready by (auto simp: poll_write_io_def min_def split: list.splits write_event.splits if_splits)
      show ?thesis
      proof (cases "n = 0")
        case True
        then show ?thesis using 1(2,3) w Ready n \<open>pw_offset p < length (pw_data p)\<close>
          by (auto simp: poll_write_all.simps [of poll_write_io p])
      next
        case False
        then have "poll_write_all poll_write_io (p\<lparr>pw_offset := pw_offset p + n\<rparr>) io1 = (r, p', io')"
          using 1(2) w Ready True by (simp add: poll_write_all.simps [of poll_write_io p])
        moreover have "pw_offset p + n \<le> length (pw_data p)" using n(1) True by linarith
        moreover have "take n (drop (pw_offset p) (pw_data p)) @ drop (pw_offset p + n) (pw_data p)
            = drop (pw_offset p) (pw_data p)" by (metis append_take_drop_id drop_drop add.commute)
        ultimately show ?thesis using 1(1) [OF True w [symmetric] Ready False, of r] n by auto
      qed
    qed (use 1(2,3) w True in \<open>auto simp: poll_write_all.simps [of poll_write_io p] poll_write_io_def
        split: list.splits write_event.splits\<close>)
  qed
qed

lemma poll_write_all_len:
  "poll_write_all w p s = (r, p', s') \<Longrightarrow>
    pw_original_len p' = pw_original_len p \<and> (\<forall>n. r = Ready n \<longrightarrow> n = pw_original_len p)"
proof (induction w p s rule: poll_write_all.induct)
  case (1 w p s)
  obtain x s1 where x: "w (drop (pw_offset p) (pw_data p)) s = (x, s1)" by fastforce
  show ?case
  proof (cases "pw_offset p < length (pw_data p) \<and> (\<exists>n. x = Ready n \<and> n \<noteq> 0)")
    case True
    then obtain n where n: "pw_offset p < length (pw_data p)" "x = Ready n" "n \<noteq> 0" by blast
    then have "poll_write_all w (p\<lparr>pw_offset := pw_offset p + n\<rparr>) s1 = (r, p', s')"
      using 1(2) x by (simp add: poll_write_all.simps [of w p])
    from 1(1) [OF n(1) x [symmetric] n(2,3) this] show ?thesis by simp
  next
    case False
    then show ?thesis using 1(2) x
      by (cases x) (auto simp: poll_write_all.simps [of w p] split: if_splits)
  qed
qed

lemma poll_write_all_offset: "poll_write_all w p s = (r, p', s') \<Longrightarrow> pw_offset p \<le> pw_offset p'"
proof (induction w p s rule: poll_write_all.induct)
  case (1 w p s)
  obtain x s1 where x: "w (drop (pw_offset p) (pw_data p)) s = (x, s1)" by fastforce
  show ?case
  proof (cases "pw_offset p < length (pw_data p) \<and> (\<exists>n. x = Ready n \<and> n \<noteq> 0)")
    case True
    then obtain n where n: "pw_offset p < length (pw_data p)" "x = Ready n" "n \<noteq> 0" by blast
    then have "poll_write_all w (p\<lparr>pw_offset := pw_offset p + n\<rparr>) s1 = (r, p', s')"
      using 1(2) x by (simp add: poll_write_all.simps [of w p])
    from 1(1) [OF n(1) x [symmetric] n(2,3) this] show ?thesis by simp
  next
    case False
    then show ?thesis using 1(2) x
      by (cases x) (auto simp: poll_write_all.simps [of w p] split: if_splits)
  qed
qed

text \<open>On a lively script a poll only blocks after the script has moved on.\<close>

lemma poll_write_all_lively:
  assumes "poll_write_all poll_write_io p io = (r, p', io')" "lively (tr_out io)"
  shows "lively (tr_out io') \<and> (\<forall>e. r \<noteq> Fault e)
    \<and> accepts (tr_out io) + length (tr_sent io) \<le> accepts (tr_out io') + length (tr_sent io')
    \<and> (r = Pending \<longrightarrow> tr_out io \<noteq> [] \<longrightarrow> length (tr_out io') < length (tr_out io))
    \<and> length (tr_out io') \<le> length (tr_out io)"
  using assms
proof (induction poll_write_io p io arbitrary: r rule: poll_write_all.induct)
  case (1 p io)
  show ?case
  proof (cases "pw_offset p < length (pw_data p)")
    case False
    then show ?thesis using 1(2,3) by (auto simp: poll_write_all.simps [of poll_write_io p])
  next
    case True
    obtain x io1 where w: "poll_write_io (drop (pw_offset p) (pw_data p)) io = (x, io1)" by fastforce
    have "tr_out io = [] \<and> x = Pending \<and> io1 = io \<or> (\<exists>e es. tr_out io = e # es \<and> lively es \<and> tr_out io1 = es
        \<and> (e = WriteBlock \<and> x = Pending \<and> tr_sent io1 = tr_sent io
          \<or> (\<exists>n. x = Ready n \<and> 0 < n \<and> accepts (e # es) = Suc (accepts es)
              \<and> length (tr_sent io) < length (tr_sent io1))))"
      using w True 1(3)
      by (auto simp: poll_write_io_def lively_Cons split: list.splits write_event.splits)
    then consider "tr_out io = []" "x = Pending" "io1 = io"
      | es where "tr_out io = WriteBlock # es" "lively es" "tr_out io1 = es" "x = Pending" "tr_sent io1 = tr_sent io"
      | e es n where "tr_out io = e # es" "lively es" "tr_out io1 = es" "x = Ready n" "0 < n"
          "accepts (e # es) = Suc (accepts es)" "length (tr_sent io) < length (tr_sent io1)"
      by blast
    then show ?thesis
    proof cases
      case 3
      then have "poll_write_all poll_write_io (p\<lparr>pw_offset := pw_offset p + n\<rparr>) io1 = (r, p', io')"
        using 1(2) w True by (simp add: poll_write_all.simps [of poll_write_io p])
      from 1(1) [OF True w [symmetric] 3(4) _ this] 3 show ?thesis by auto
    qed (use 1(2,3) w True in \<open>auto simp: poll_write_all.simps [of poll_write_io p]\<close>)
  qed
qed

lemma pump_sent:
  assumes "pump fuel p io = Some io'" "pw_offset p \<le> length (pw_data p)"
  shows "tr_sent io' = tr_sent io @ drop (pw_offset p) (pw_data p) \<and> tr_in io' = tr_in io"
  using assms
proof (induction fuel arbitrary: p io)
  case (Suc fuel)
  obtain r p1 io1 where r: "poll_write_all poll_write_io p io = (r, p1, io1)" by (metis prod_cases3)
  show ?case
  proof (cases r)
    case Pending
    then have "pump fuel p1 io1 = Some io'" using Suc.prems(1) r by simp
    from Suc.IH [OF this] show ?thesis using poll_write_all_sent [OF r Suc.prems(2)] by auto
  qed (use Suc.prems r poll_write_all_sent [OF r Suc.prems(2)] in auto)
qed simp

text \<open>It is sent, whenever the script has room for it: one accepted byte for every byte is enough.\<close>

lemma pump_lively:
  assumes "lively (tr_out io)" "length (pw_data p) - pw_offset p \<le> accepts (tr_out io)"
    and "pw_offset p \<le> length (pw_data p)" "length (tr_out io) < fuel"
  shows "\<exists>io'. pump fuel p io = Some io' \<and> lively (tr_out io')"
  using assms
proof (induction fuel arbitrary: p io)
  case (Suc fuel)
  obtain r p1 io1 where r: "poll_write_all poll_write_io p io = (r, p1, io1)" by (metis prod_cases3)
  note s = poll_write_all_sent [OF r Suc.prems(3)] and l = poll_write_all_lively [OF r Suc.prems(1)]
  show ?case
  proof (cases r)
    case Pending
    have len: "length (tr_sent io1) + (length (pw_data p1) - pw_offset p1)
        = length (tr_sent io) + (length (pw_data p) - pw_offset p)"
      using arg_cong [OF conjunct1 [OF s], of length] by simp
    have "tr_out io \<noteq> []"
    proof
      assume "tr_out io = []"
      then have "\<not> pw_offset p < length (pw_data p)" using Suc.prems(2) by simp
      then show False using r Pending by (simp add: poll_write_all.simps [of poll_write_io p])
    qed
    then have "length (tr_out io1) < fuel" "length (pw_data p1) - pw_offset p1 \<le> accepts (tr_out io1)"
      using l Pending Suc.prems(2,4) len by auto
    then have "\<exists>io'. pump fuel p1 io1 = Some io' \<and> lively (tr_out io')" using Suc.IH [of io1 p1] s l by blast
    then show ?thesis using r Pending by simp
  next
    case (Fault e)
    then show ?thesis using l by blast
  next
    case (Ready n)
    then show ?thesis using r l by simp
  qed
qed simp

lemma new_pending_simps [simp]:
  "pw_data (new_pending d n) = d" "pw_offset (new_pending d n) = 0" "pw_original_len (new_pending d n) = n"
  by (simp_all add: new_pending_def)

lemma pump_new:
  assumes "lively (tr_out io)" "length d \<le> accepts (tr_out io)" "length (tr_out io) < fuel"
  shows "\<exists>io'. pump fuel (new_pending d n) io = Some io' \<and> tr_sent io' = tr_sent io @ d \<and> tr_in io' = tr_in io"
proof -
  obtain io' where "pump fuel (new_pending d n) io = Some io'" using pump_lively [of io "new_pending d n" fuel] assms by auto
  then show ?thesis using pump_sent [of fuel "new_pending d n" io io'] by simp
qed

section \<open>Writers that hold one pending write\<close>

text \<open>What went out between two states of a transport, and that the script only got shorter by it.\<close>

definition sends :: "transport \<Rightarrow> bytes \<Rightarrow> transport \<Rightarrow> bool" where
  "sends io d io' \<longleftrightarrow> tr_sent io' = tr_sent io @ d \<and> tr_in io' = tr_in io \<and> lively (tr_out io')
    \<and> accepts (tr_out io) \<le> accepts (tr_out io') + length d \<and> length (tr_out io') \<le> length (tr_out io)"

text \<open>The transport has room for \<open>d\<close>, and \<open>fuel\<close> is enough polls.\<close>

definition has_room :: "nat \<Rightarrow> transport \<Rightarrow> bytes \<Rightarrow> bool" where
  "has_room fuel io d \<longleftrightarrow> lively (tr_out io) \<and> length d \<le> accepts (tr_out io) \<and> length (tr_out io) < fuel"

lemma sends_trans: "sends io d io1 \<Longrightarrow> sends io1 d' io2 \<Longrightarrow> sends io (d @ d') io2"
  by (auto simp: sends_def)

lemma has_room_first: "has_room fuel io (d @ d') \<Longrightarrow> has_room fuel io d"
  by (simp add: has_room_def)

lemma has_room_next: "has_room fuel io (d @ d') \<Longrightarrow> sends io d io1 \<Longrightarrow> has_room fuel io1 d'"
  by (auto simp: has_room_def sends_def)

lemma sends_nothing: "has_room fuel io d \<Longrightarrow> sends io [] io"
  by (simp add: sends_def has_room_def)

lemma poll_write_all_sends:
  assumes "poll_write_all poll_write_io p io = (r, p', io')" "pw_offset p \<le> length (pw_data p)" "lively (tr_out io)"
  shows "\<exists>d. drop (pw_offset p) (pw_data p) = d @ drop (pw_offset p') (pw_data p') \<and> sends io d io'"
proof -
  note s = poll_write_all_sent [OF assms(1,2)] and l = poll_write_all_lively [OF assms(1,3)]
  have "length (drop (pw_offset p') (pw_data p')) \<le> length (drop (pw_offset p) (pw_data p))"
    using s poll_write_all_offset [OF assms(1)] by simp
  then have "length (tr_sent io) \<le> length (tr_sent io')"
    using arg_cong [OF conjunct1 [OF s], of length] by simp
  then obtain d where d: "tr_sent io' = tr_sent io @ d"
    using s by (metis append_eq_append_conv_if append_take_drop_id)
  then show ?thesis using s l by (intro exI [of _ d]) (auto simp: sends_def)
qed

lemma pump_keeps:
  "pump fuel p io = Some io' \<Longrightarrow> lively (tr_out io) \<Longrightarrow> lively (tr_out io')
    \<and> accepts (tr_out io) + length (tr_sent io) \<le> accepts (tr_out io') + length (tr_sent io')
    \<and> length (tr_out io') \<le> length (tr_out io)"
proof (induction fuel arbitrary: p io)
  case (Suc fuel)
  obtain r p1 io1 where r: "poll_write_all poll_write_io p io = (r, p1, io1)" by (metis prod_cases3)
  note l = poll_write_all_lively [OF r Suc.prems(2)]
  show ?case
  proof (cases r)
    case Pending
    then have "pump fuel p1 io1 = Some io'" using Suc.prems(1) r by simp
    from Suc.IH [OF this] l show ?thesis by auto
  qed (use Suc.prems(1) r l in auto)
qed simp

lemma pump_sends:
  assumes "has_room fuel io d"
  shows "\<exists>io'. pump fuel (new_pending d n) io = Some io' \<and> sends io d io'"
proof -
  obtain io' where io': "pump fuel (new_pending d n) io = Some io'" "tr_sent io' = tr_sent io @ d" "tr_in io' = tr_in io"
    using pump_new [of io d fuel n] assms by (auto simp: has_room_def)
  with pump_keeps [OF io'(1)] assms show ?thesis by (auto simp: sends_def has_room_def)
qed

text \<open>How a poll passes on what became of the pending write.\<close>

definition settle :: "(pending_write option \<Rightarrow> transport \<Rightarrow> 's) \<Rightarrow> nat poll \<times> pending_write \<times> transport \<Rightarrow> nat poll \<times> 's" where
  "settle wrap = (\<lambda>(r, p, io). (r, wrap (case r of Pending \<Rightarrow> Some p | _ \<Rightarrow> None) io))"

lemma flush_pending_settle:
  "flush_pending poll_write_io (Some p) io = (r, pending, io') \<longleftrightarrow>
    (\<exists>x. r = Some x \<and> settle (\<lambda>pending io. (pending, io)) (poll_write_all poll_write_io p io) = (x, pending, io'))"
  by (auto simp: flush_pending_def settle_def split: prod.splits poll.splits)

text \<open>
  The contract of a stream that turns a write into one packet: a stream with a pending write (whose
  caller still waits for its length) polls that write and nothing else.
\<close>

locale pending_writer =
  fixes poll :: "bytes \<Rightarrow> 's \<Rightarrow> nat poll \<times> 's" and wrap :: "pending_write option \<Rightarrow> transport \<Rightarrow> 's"
  assumes poll_pending: "0 < pw_original_len p \<Longrightarrow>
    poll buf (wrap (Some p) io) = settle wrap (poll_write_all poll_write_io p io)"
begin

lemma write_pending:
  assumes "buf \<noteq> []" "pw_original_len p = length buf"
  shows "write_all fuel poll buf (wrap (Some p) io) = map_option (wrap None) (pump fuel p io)"
  using assms
proof (induction fuel arbitrary: p io)
  case 0
  then show ?case by (cases buf) simp_all
next
  case (Suc fuel)
  obtain r p1 io1 where r: "poll_write_all poll_write_io p io = (r, p1, io1)" by (metis prod_cases3)
  obtain b bs where b: "buf = b # bs" using Suc.prems(1) by (cases buf) auto
  have q: "poll buf (wrap (Some p) io) = (r, wrap (case r of Pending \<Rightarrow> Some p1 | _ \<Rightarrow> None) io1)"
    using poll_pending [of p buf io] Suc.prems r by (simp add: settle_def)
  have len: "pw_original_len p1 = pw_original_len p \<and> (\<forall>n. r = Ready n \<longrightarrow> n = pw_original_len p)"
    by (rule poll_write_all_len [OF r])
  show ?case
  proof (cases r)
    case Pending
    then show ?thesis using q r Suc.IH [of p1 io1] Suc.prems len b by simp
  qed (use q r len Suc.prems b in auto)
qed

text \<open>One packet for one write, whatever the transport does in between.\<close>

lemma write_packet:
  assumes "poll buf s = settle wrap (poll_write_all poll_write_io (new_pending packet (length buf)) io)"
    and "buf \<noteq> []" "has_room fuel io packet"
  shows "\<exists>io'. write_all fuel poll buf s = Some (wrap None io') \<and> sends io packet io'"
proof -
  let ?p = "new_pending packet (length buf)"
  obtain io' where io': "pump fuel ?p io = Some io'" "sends io packet io'" using pump_sends [OF assms(3)] by blast
  obtain r p1 io1 where r: "poll_write_all poll_write_io ?p io = (r, p1, io1)" by (metis prod_cases3)
  obtain b bs where b: "buf = b # bs" using assms(2) by (cases buf) auto
  obtain k where k: "fuel = Suc k" using io'(1) by (cases fuel) auto
  have len: "pw_original_len p1 = length buf \<and> (\<forall>n. r = Ready n \<longrightarrow> n = length buf)"
    using poll_write_all_len [OF r] by simp
  have "write_all fuel poll buf s = map_option (wrap None) (pump fuel ?p io)"
    using assms(1) r b k len write_pending [OF assms(2), of p1 k io1]
    by (cases r) (simp_all add: settle_def)
  then have "write_all fuel poll buf s = Some (wrap None io')" using io'(1) by simp
  then show ?thesis using io'(2) by blast
qed

end

section \<open>Several writes\<close>

fun write_each :: "nat \<Rightarrow> (bytes \<Rightarrow> 's \<Rightarrow> nat poll \<times> 's) \<Rightarrow> bytes list \<Rightarrow> 's \<Rightarrow> 's option" where
  "write_each fuel w [] s = Some s"
| "write_each fuel w (bs # bss) s =
    (case write_all fuel w bs s of Some s' \<Rightarrow> write_each fuel w bss s' | None \<Rightarrow> None)"

text \<open>The transport itself.\<close>

lemma write_all_io:
  assumes "has_room fuel io bs"
  shows "\<exists>io'. write_all fuel poll_write_io bs io = Some io' \<and> sends io bs io'"
  using assms
proof (induction fuel arbitrary: bs io)
  case 0
  then show ?case by (simp add: has_room_def)
next
  case (Suc fuel)
  show ?case
  proof (cases bs)
    case Nil
    then show ?thesis using sends_nothing Suc.prems by auto
  next
    case (Cons b r)
    then obtain e es where e: "tr_out io = e # es" "lively es" "e = WriteBlock \<or> (\<exists>n. 0 < n \<and> e = WriteAccept n)"
      using Suc.prems by (cases "tr_out io") (auto simp: has_room_def lively_Cons)
    from e(3) show ?thesis
    proof (elim disjE exE conjE)
      assume "e = WriteBlock"
      then have "poll_write_io bs io = (Pending, io\<lparr>tr_out := es\<rparr>)" "has_room fuel (io\<lparr>tr_out := es\<rparr>) bs"
        using e Suc.prems by (auto simp: poll_write_io_def has_room_def)
      with Suc.IH [OF this(2)] e Cons \<open>e = WriteBlock\<close> show ?thesis by (auto simp: sends_def)
    next
      fix n assume n: "0 < n" "e = WriteAccept n"
      let ?io = "io\<lparr>tr_out := es, tr_sent := tr_sent io @ take n bs\<rparr>"
      have w: "poll_write_io bs io = (Ready (min n (length bs)), ?io)"
        using e n by (simp add: poll_write_io_def)
      have "has_room fuel ?io (drop (min n (length bs)) bs)"
        using e n Suc.prems Cons by (auto simp: has_room_def)
      from Suc.IH [OF this] obtain io' where "write_all fuel poll_write_io (drop (min n (length bs)) bs) ?io = Some io'"
        "sends ?io (drop (min n (length bs)) bs) io'" by blast
      moreover have "sends io (take n bs) ?io" using e n Cons by (auto simp: sends_def)
      moreover have "take n bs @ drop (min n (length bs)) bs = bs" by (cases "n \<le> length bs") (auto simp: min_def)
      ultimately show ?thesis using w n Cons sends_trans by (fastforce simp: min_def split: if_splits)
    qed
  qed
qed

section \<open>Reading\<close>

text \<open>The bytes a script still holds: every round of a read loop takes some of them.\<close>

fun in_size :: "read_event list \<Rightarrow> nat" where
  "in_size [] = 0"
| "in_size (ReadData bs # es) = length bs + in_size es"
| "in_size (_ # es) = in_size es"

lemma poll_read_io_size:
  "poll_read_io room io = (Ready bs, io') \<Longrightarrow> bs \<noteq> [] \<Longrightarrow> in_size (tr_in io') < in_size (tr_in io)"
  by (auto simp: poll_read_io_def split: list.splits read_event.splits if_splits)

lemma poll_read_io_sizeI:
  "(Ready bs, io') = poll_read_io room io \<Longrightarrow> bs \<noteq> [] \<Longrightarrow> in_size (tr_in io') < in_size (tr_in io)"
  by (metis poll_read_io_size)

text \<open>What the input carries.\<close>

fun in_data :: "read_event list \<Rightarrow> bytes" where
  "in_data [] = []"
| "in_data (ReadData bs # es) = bs @ in_data es"
| "in_data (_ # es) = in_data es"

lemma poll_read_io_data:
  "poll_read_io room io = (r, io') \<Longrightarrow>
    (case r of Ready bs \<Rightarrow> bs | _ \<Rightarrow> []) @ in_data (tr_in io') = in_data (tr_in io)"
  by (auto simp: poll_read_io_def split: list.splits read_event.splits if_splits)

lemma drain_buffer_Some: "drain_buffer buffer room = Some (out, rest) \<Longrightarrow> out @ rest = buffer"
  by (auto simp: drain_buffer_def split: if_splits)

definition poll_data :: "bytes poll \<Rightarrow> bytes" where
  "poll_data r = (case r of Ready bs \<Rightarrow> bs | _ \<Rightarrow> [])"

lemma poll_data_simps [simp]: "poll_data (Ready bs) = bs" "poll_data Pending = []" "poll_data (Fault e) = []"
  by (simp_all add: poll_data_def)

lemma got_simps [simp]: "got [] = []" "got (x # xs) = poll_data x @ got xs"
  by (simp_all add: got_def poll_data_def)

lemma poll_read_io_keeps: "poll_read_io room io = (r, io') \<Longrightarrow> poll_data r @ in_data (tr_in io') = in_data (tr_in io)"
  using poll_read_io_data [of room io r io'] by (simp add: poll_data_def)

text \<open>Pieces that arrive without a gap.\<close>

lemma poll_read_io_pieces:
  assumes "tr_in io = List.map ReadData chunks @ es" "[] \<notin> set chunks" "chunks \<noteq> []" "0 < room"
  shows "\<exists>bs chunks' io'. poll_read_io room io = (Ready bs, io') \<and> bs \<noteq> [] \<and> tr_in io' = List.map ReadData chunks' @ es
    \<and> [] \<notin> set chunks' \<and> concat chunks = bs @ concat chunks'"
proof -
  obtain c cs where c: "chunks = c # cs" using assms(3) by (cases chunks) auto
  show ?thesis
  proof (cases "length c \<le> room")
    case True
    then show ?thesis using assms c by (auto simp: poll_read_io_def intro!: exI [of _ cs])
  next
    case False
    then show ?thesis using assms c by (auto simp: poll_read_io_def intro!: exI [of _ "drop room c # cs"])
  qed
qed

end
