(* ===== verification/Ss_Obfs.thy ===== *)
theory Ss_Obfs
  imports Poll_Io Rust_Net
begin

text \<open>
  The obfuscation streams of the Shadowsocks adapter (\<open>adapter/shadowsocks/obfs.rs\<close>): simple-obfs over
  HTTP and TLS, the HTTP obfuscation and the random head of ShadowsocksR. A stream is a record of its
  fields with the transport beside it; its polls are functions on the pair. Random values, the time,
  Base64 and CRC-32 are arguments.
\<close>

section \<open>Requests\<close>

abbreviation crlf :: string where
  "crlf \<equiv> [CHR 0x0D, CHR 0x0A]"

definition header_end :: bytes where
  "header_end = [0x0D, 0x0A, 0x0D, 0x0A]"

fun find_header_end :: "bytes \<Rightarrow> nat option" where
  "find_header_end [] = None"
| "find_header_end (b # bs) =
    (if take 4 (b # bs) = header_end then Some 0 else map_option Suc (find_header_end bs))"

definition host_header :: "string \<Rightarrow> u16 \<Rightarrow> string" where
  "host_header h p = (if p = 80 then h else h @ '':'' @ show_nat (unat p))"

text \<open>\<open>key\<close> are the 16 random bytes, \<open>r\<close> the random byte of the version, \<open>base64\<close> the URL-safe encoding.\<close>

definition http_obfs_request :: "(bytes \<Rightarrow> string) \<Rightarrow> string \<Rightarrow> u16 \<Rightarrow> bytes \<Rightarrow> byte \<Rightarrow> bytes \<Rightarrow> bytes" where
  "http_obfs_request base64 h p key r payload =
    as_bytes (''GET / HTTP/1.1'' @ crlf @ ''Host: '' @ host_header h p @ crlf
      @ ''User-Agent: curl/7.'' @ show_nat (unat r mod 54) @ ''.0'' @ crlf
      @ ''Upgrade: websocket'' @ crlf @ ''Connection: Upgrade'' @ crlf
      @ ''Sec-WebSocket-Key: '' @ base64 key @ crlf
      @ ''Content-Length: '' @ show_nat (length payload) @ crlf @ crlf) @ payload"

definition hex_char :: "nat \<Rightarrow> char" where
  "hex_char n = ''0123456789abcdef'' ! n"

definition percent_encode :: "bytes \<Rightarrow> string" where
  "percent_encode bs = concat (List.map (\<lambda>b. [CHR ''%'', hex_char (unat b div 16), hex_char (unat b mod 16)]) bs)"

definition default_ssr_headers :: string where
  "default_ssr_headers =
    ''User-Agent: Mozilla/5.0'' @ crlf
    @ ''Accept: text/html,application/xhtml+xml,application/xml;q=0.9,*/*;q=0.8'' @ crlf
    @ ''Accept-Language: en-US,en;q=0.8'' @ crlf @ ''Accept-Encoding: gzip, deflate'' @ crlf
    @ ''DNT: 1'' @ crlf @ ''Connection: keep-alive'' @ crlf @ crlf"

text \<open>How many bytes of the payload go into the path; \<open>r\<close> is random.\<close>

definition ssr_head_len :: "byte \<Rightarrow> nat \<Rightarrow> nat" where
  "ssr_head_len r n =
    (let head_len = min n 30
     in min (if 64 < n - head_len then head_len + unat r mod 65 else n) n)"

definition ssr_http_obfs_request :: "string \<Rightarrow> u16 \<Rightarrow> bool \<Rightarrow> string \<Rightarrow> byte \<Rightarrow> bytes \<Rightarrow> bytes" where
  "ssr_http_obfs_request h p post headers r payload =
    (let k = ssr_head_len r (length payload)
     in as_bytes ((if post then ''POST /'' else ''GET /'') @ percent_encode (take k payload)
          @ '' HTTP/1.1'' @ crlf @ ''Host: '' @ host_header h p @ crlf
          @ (if headers = [] then default_ssr_headers else headers @ crlf @ crlf)) @ drop k payload)"

definition tls_obfs_record :: "bytes \<Rightarrow> bytes" where
  "tls_obfs_record payload = [0x17, 0x03, 0x03] @ to_be 2 (length payload) @ payload"

definition hello_ciphers :: bytes where
  "hello_ciphers =
    [0xc0, 0x2c, 0xc0, 0x30, 0x00, 0x9f, 0xcc, 0xa9, 0xcc, 0xa8, 0xcc, 0xaa, 0xc0, 0x2b, 0xc0,
     0x2f, 0x00, 0x9e, 0xc0, 0x24, 0xc0, 0x28, 0x00, 0x6b, 0xc0, 0x23, 0xc0, 0x27, 0x00, 0x67,
     0xc0, 0x0a, 0xc0, 0x14, 0x00, 0x39, 0xc0, 0x09, 0xc0, 0x13, 0x00, 0x33, 0x00, 0x9d, 0x00,
     0x9c, 0x00, 0x3d, 0x00, 0x3c, 0x00, 0x35, 0x00, 0x2f, 0x00, 0xff]"

definition hello_tail :: bytes where
  "hello_tail =
    [0x00, 0x0b, 0x00, 0x04, 0x03, 0x01, 0x00, 0x02]
    @ [0x00, 0x0a, 0x00, 0x0a, 0x00, 0x08, 0x00, 0x1d, 0x00, 0x17, 0x00, 0x19, 0x00, 0x18]
    @ [0x00, 0x0d, 0x00, 0x20, 0x00, 0x1e, 0x06, 0x01, 0x06, 0x02, 0x06, 0x03, 0x05, 0x01, 0x05,
       0x02, 0x05, 0x03, 0x04, 0x01, 0x04, 0x02, 0x04, 0x03, 0x03, 0x01, 0x03, 0x02, 0x03, 0x03,
       0x02, 0x01, 0x02, 0x02, 0x02, 0x03]
    @ [0x00, 0x16, 0x00, 0x00] @ [0x00, 0x17, 0x00, 0x00]"

text \<open>\<open>time\<close> is the clock in seconds, \<open>rnd\<close> the 28 random bytes, \<open>sid\<close> the 32 of the session id.\<close>

definition tls_obfs_client_hello :: "u32 \<Rightarrow> bytes \<Rightarrow> bytes \<Rightarrow> bytes \<Rightarrow> string \<Rightarrow> bytes" where
  "tls_obfs_client_hello time rnd sid payload server =
    [22] @ [0x03, 0x01] @ to_be 2 (212 + length payload + length server) @ [1] @ [0]
    @ to_be 2 (208 + length payload + length server) @ [0x03, 0x03] @ to_be 4 (unat time) @ rnd
    @ [32] @ sid @ [0x00, 0x38] @ hello_ciphers @ [0x01, 0x00]
    @ to_be 2 (79 + length payload + length server) @ [0x00, 0x23] @ to_be 2 (length payload) @ payload
    @ [0x00, 0x00] @ to_be 2 (length server + 5) @ to_be 2 (length server + 3) @ [0] @ to_be 2 (length server)
    @ as_bytes server @ hello_tail"

section \<open>simple-obfs over HTTP\<close>

record http_obfs =
  ho_host :: string
  ho_port :: u16
  ho_first_request :: bool
  ho_first_response :: bool
  ho_read_buffer :: bytes
  ho_pending :: "pending_write option"

definition new_http_obfs :: "string \<Rightarrow> u16 \<Rightarrow> http_obfs" where
  "new_http_obfs h p = \<lparr>ho_host = h, ho_port = p, ho_first_request = True, ho_first_response = True,
     ho_read_buffer = [], ho_pending = None\<rparr>"

text \<open>\<open>request\<close> makes the request from the bytes of the first write.\<close>

definition http_obfs_poll_write :: "(bytes \<Rightarrow> bytes) \<Rightarrow> bytes \<Rightarrow> http_obfs \<times> transport
    \<Rightarrow> nat poll \<times> http_obfs \<times> transport" where
  "http_obfs_poll_write request buf = (\<lambda>(st, io).
    (let go = (\<lambda>io.
       let first = ho_first_request st;
           pending = (if first then Some (new_pending (request buf) (length buf)) else None);
           st = st\<lparr>ho_first_request := False\<rparr>
       in case flush_pending poll_write_io pending io of
            (Some r, pending, io) \<Rightarrow> (r, st\<lparr>ho_pending := pending\<rparr>, io)
          | (None, pending, io) \<Rightarrow>
              (case poll_write_io buf io of (r, io) \<Rightarrow> (r, st\<lparr>ho_pending := None\<rparr>, io)))
     in case flush_pending poll_write_io (ho_pending st) io of
          (None, pending, io) \<Rightarrow> go io
        | (Some (Ready n), pending, io) \<Rightarrow> (if 0 < n then (Ready n, st\<lparr>ho_pending := None\<rparr>, io) else go io)
        | (Some r, pending, io) \<Rightarrow> (r, st\<lparr>ho_pending := pending\<rparr>, io)))"

text \<open>The loop that waits for the end of the response's head.\<close>

function http_obfs_read_head :: "nat \<Rightarrow> http_obfs \<Rightarrow> transport \<Rightarrow> bytes poll \<times> http_obfs \<times> transport" where
  "http_obfs_read_head room st io =
    (case poll_read_io 8192 io of
       (Pending, io') \<Rightarrow> (Pending, st, io')
     | (Fault e, io') \<Rightarrow> (Fault e, st, io')
     | (Ready bs, io') \<Rightarrow>
         (if bs = [] then (Fault UnexpectedEof, st, io')
          else let buffer = ho_read_buffer st @ bs in
            (case find_header_end buffer of
               Some i \<Rightarrow>
                 (let body = drop (i + 4) buffer; st = st\<lparr>ho_first_response := False\<rparr>
                  in case drain_buffer body room of
                       Some (out, rest) \<Rightarrow> (Ready out, st\<lparr>ho_read_buffer := rest\<rparr>, io')
                     | None \<Rightarrow> (Ready [], st\<lparr>ho_read_buffer := body\<rparr>, io'))
             | None \<Rightarrow> http_obfs_read_head room (st\<lparr>ho_read_buffer := buffer\<rparr>) io')))"
  by auto
termination by (relation "measure (\<lambda>(room, st, io). in_size (tr_in io))") (auto dest: poll_read_io_sizeI)

declare http_obfs_read_head.simps [simp del]

definition http_obfs_poll_read :: "nat \<Rightarrow> http_obfs \<times> transport \<Rightarrow> bytes poll \<times> http_obfs \<times> transport" where
  "http_obfs_poll_read room = (\<lambda>(st, io).
    (case drain_buffer (ho_read_buffer st) room of
       Some (out, rest) \<Rightarrow> (Ready out, st\<lparr>ho_read_buffer := rest\<rparr>, io)
     | None \<Rightarrow>
         (if \<not> ho_first_response st then (case poll_read_io room io of (r, io) \<Rightarrow> (r, st, io))
          else http_obfs_read_head room st io)))"

section \<open>The HTTP obfuscation of ShadowsocksR\<close>

text \<open>It reads through a \<open>SimpleObfsHttpStream\<close> and writes to the transport below that.\<close>

record ssr_http_obfs =
  sh_inner :: http_obfs
  sh_post :: bool
  sh_headers :: string
  sh_first_request :: bool
  sh_pending :: "pending_write option"

definition new_ssr_http_obfs :: "string \<Rightarrow> u16 \<Rightarrow> bool \<Rightarrow> string \<Rightarrow> ssr_http_obfs" where
  "new_ssr_http_obfs h p post headers = \<lparr>sh_inner = new_http_obfs h p, sh_post = post, sh_headers = headers,
     sh_first_request = True, sh_pending = None\<rparr>"

definition ssr_http_obfs_poll_read :: "nat \<Rightarrow> ssr_http_obfs \<times> transport \<Rightarrow> bytes poll \<times> ssr_http_obfs \<times> transport" where
  "ssr_http_obfs_poll_read room = (\<lambda>(st, io).
    (case http_obfs_poll_read room (sh_inner st, io) of (r, inner, io) \<Rightarrow> (r, st\<lparr>sh_inner := inner\<rparr>, io)))"

definition ssr_http_obfs_poll_write :: "byte \<Rightarrow> bytes \<Rightarrow> ssr_http_obfs \<times> transport
    \<Rightarrow> nat poll \<times> ssr_http_obfs \<times> transport" where
  "ssr_http_obfs_poll_write rnd buf = (\<lambda>(st, io).
    (case flush_pending poll_write_io (sh_pending st) io of
       (Some r, pending, io) \<Rightarrow> (r, st\<lparr>sh_pending := pending\<rparr>, io)
     | (None, _, io) \<Rightarrow>
         (if sh_first_request st then
            (let packet = ssr_http_obfs_request (ho_host (sh_inner st)) (ho_port (sh_inner st)) (sh_post st)
                   (sh_headers st) rnd buf
             in case flush_pending poll_write_io (Some (new_pending packet (length buf))) io of
                  (Some r, pending, io) \<Rightarrow> (r, st\<lparr>sh_first_request := False, sh_pending := pending\<rparr>, io)
                | (None, _, io) \<Rightarrow>
                    (case poll_write_io buf io of (r, io) \<Rightarrow> (r, st\<lparr>sh_first_request := False\<rparr>, io)))
          else (case poll_write_io buf io of (r, io) \<Rightarrow> (r, st, io)))))"

section \<open>simple-obfs over TLS\<close>

text \<open>
  \<open>TlsReadState\<close>: the bytes of the header read so far (the array with \<open>header_read\<close>), the bytes of the
  payload still to be thrown away, and the payload's remaining length once the header is complete.
\<close>

record tls_read_state =
  rs_header :: bytes
  rs_discard :: nat
  rs_remaining :: "nat option"

definition new_tls_read_state :: "nat \<Rightarrow> tls_read_state" where
  "new_tls_read_state discard = \<lparr>rs_header = [], rs_discard = discard, rs_remaining = None\<rparr>"

function tls_read_header :: "bytes \<Rightarrow> transport \<Rightarrow> unit poll \<times> bytes \<times> transport" where
  "tls_read_header header io =
    (if length header < 5 then
       (case poll_read_io (5 - length header) io of
          (Pending, io') \<Rightarrow> (Pending, header, io')
        | (Fault e, io') \<Rightarrow> (Fault e, header, io')
        | (Ready bs, io') \<Rightarrow>
            (if bs = [] then (Fault UnexpectedEof, header, io') else tls_read_header (header @ bs) io'))
     else (Ready (), header, io))"
  by auto
termination by (relation "measure (\<lambda>(header, io). in_size (tr_in io))") (auto dest: poll_read_io_sizeI)

declare tls_read_header.simps [simp del]

text \<open>The output is a local variable of the poll.\<close>

function tls_read_payload :: "nat \<Rightarrow> nat \<Rightarrow> bytes \<Rightarrow> transport \<Rightarrow> bytes poll \<times> nat \<times> nat \<times> transport" where
  "tls_read_payload remaining discard output io =
    (if 0 < remaining then
       (case poll_read_io (min remaining 8192) io of
          (Pending, io') \<Rightarrow> (Pending, remaining, discard, io')
        | (Fault e, io') \<Rightarrow> (Fault e, remaining, discard, io')
        | (Ready bs, io') \<Rightarrow>
            (if bs = [] then (Fault UnexpectedEof, remaining, discard, io')
             else let d = min discard (length bs)
               in tls_read_payload (remaining - length bs) (discard - d) (output @ drop d bs) io'))
     else (Ready output, remaining, discard, io))"
  by auto
termination by (relation "measure (\<lambda>(remaining, discard, output, io). in_size (tr_in io))") (auto dest: poll_read_io_sizeI)

declare tls_read_payload.simps [simp del]

text \<open>A record is its content type and its payload.\<close>

definition poll_read_record :: "tls_read_state \<Rightarrow> transport \<Rightarrow> (byte \<times> bytes) poll \<times> tls_read_state \<times> transport" where
  "poll_read_record st io =
    (case tls_read_header (rs_header st) io of
       (Pending, header, io) \<Rightarrow> (Pending, st\<lparr>rs_header := header\<rparr>, io)
     | (Fault e, header, io) \<Rightarrow> (Fault e, st\<lparr>rs_header := header\<rparr>, io)
     | (Ready _, header, io) \<Rightarrow>
         (if header ! 0 \<notin> {0x14, 0x16, 0x17} \<or> header ! 1 \<noteq> 0x03 then
            (Fault InvalidData, st\<lparr>rs_header := header\<rparr>, io)
          else
            (let remaining = (case rs_remaining st of Some n \<Rightarrow> n | None \<Rightarrow> be16 (header ! 3) (header ! 4))
             in case tls_read_payload remaining (rs_discard st) [] io of (r, remaining, discard, io) \<Rightarrow>
                  ((case r of Pending \<Rightarrow> Pending | Fault e \<Rightarrow> Fault e | Ready out \<Rightarrow> Ready (header ! 0, out)),
                   \<lparr>rs_header = header, rs_discard = discard, rs_remaining = Some remaining\<rparr>, io))))"

record tls_obfs =
  to_host :: string
  to_first_request :: bool
  to_first_response :: bool
  to_read_state :: "tls_read_state option"
  to_read_buffer :: bytes
  to_pending :: "pending_write option"

definition new_tls_obfs :: "string \<Rightarrow> tls_obfs" where
  "new_tls_obfs h = \<lparr>to_host = h, to_first_request = True, to_first_response = True, to_read_state = None,
     to_read_buffer = [], to_pending = None\<rparr>"

lemma poll_read_io_size_le: "(r, io') = poll_read_io room io \<Longrightarrow> in_size (tr_in io') \<le> in_size (tr_in io)"
  by (auto simp: poll_read_io_def split: list.splits read_event.splits if_splits)

lemma tls_read_header_size:
  "tls_read_header header io = (r, header', io') \<Longrightarrow>
    in_size (tr_in io') \<le> in_size (tr_in io) \<and> (length header < 5 \<and> r = Ready () \<longrightarrow> in_size (tr_in io') < in_size (tr_in io))"
proof (induction header io rule: tls_read_header.induct)
  case (1 header io)
  obtain x io1 where x: "poll_read_io (5 - length header) io = (x, io1)" by fastforce
  show ?case
  proof (cases "length header < 5")
    case False
    then show ?thesis using 1(2) by (simp add: tls_read_header.simps [of header])
  next
    case True
    show ?thesis
    proof (cases x)
      case (Ready bs)
      show ?thesis
      proof (cases "bs = []")
        case False
        have "in_size (tr_in io1) < in_size (tr_in io)" using poll_read_io_size x Ready False by blast
        moreover have "tls_read_header (header @ bs) io1 = (r, header', io')"
          using 1(2) True x Ready False by (simp add: tls_read_header.simps [of header])
        ultimately show ?thesis using 1(1) [OF True x [symmetric] Ready False] by linarith
      qed (use 1(2) True x Ready poll_read_io_size_le [OF x [symmetric]] in \<open>auto simp: tls_read_header.simps [of header]\<close>)
    qed (use 1(2) True x poll_read_io_size_le [OF x [symmetric]] in \<open>auto simp: tls_read_header.simps [of header]\<close>)
  qed
qed

lemma tls_read_payload_size:
  "tls_read_payload remaining discard out io = (r, remaining', discard', io') \<Longrightarrow> in_size (tr_in io') \<le> in_size (tr_in io)"
proof (induction remaining discard out io rule: tls_read_payload.induct)
  case (1 remaining discard out io)
  obtain x io1 where x: "poll_read_io (min remaining 8192) io = (x, io1)" by fastforce
  note le = poll_read_io_size_le [OF x [symmetric]]
  show ?case
  proof (cases "0 < remaining \<and> (\<exists>bs. x = Ready bs \<and> bs \<noteq> [])")
    case True
    then obtain bs where bs: "0 < remaining" "x = Ready bs" "bs \<noteq> []" by blast
    then have "tls_read_payload (remaining - length bs) (discard - min discard (length bs))
        (out @ drop (min discard (length bs)) bs) io1 = (r, remaining', discard', io')"
      using 1(2) x by (simp add: tls_read_payload.simps [of remaining] Let_def)
    from 1(1) [OF bs(1) x [symmetric] bs(2,3) refl this] le show ?thesis by linarith
  next
    case False
    then show ?thesis using 1(2) x le
      by (cases x) (auto simp: tls_read_payload.simps [of remaining] split: if_splits)
  qed
qed

lemma poll_read_record_size:
  assumes "(Ready x, st', io') = poll_read_record st io"
  shows "in_size (tr_in io') \<le> in_size (tr_in io) \<and>
    (length (rs_header st) < 5 \<longrightarrow> in_size (tr_in io') < in_size (tr_in io))"
proof -
  obtain r header io1 where h: "tls_read_header (rs_header st) io = (r, header, io1)" by (metis prod_cases3)
  with assms have "r = Ready ()" by (cases r) (simp_all add: poll_read_record_def)
  moreover have "\<exists>remaining r' a b. tls_read_payload remaining (rs_discard st) [] io1 = (r', a, b, io')"
    using assms h \<open>r = Ready ()\<close> by (auto simp: poll_read_record_def Let_def split: prod.splits if_splits)
  ultimately show ?thesis using tls_read_header_size [OF h] tls_read_payload_size by (metis le_less_trans le_trans)
qed

text \<open>Records of other types are skipped until the first one of application data.\<close>

function tls_obfs_loop :: "nat \<Rightarrow> tls_obfs \<Rightarrow> transport \<Rightarrow> bytes poll \<times> tls_obfs \<times> transport" where
  "tls_obfs_loop room st io =
    (case poll_read_record (case to_read_state st of Some rs \<Rightarrow> rs | None \<Rightarrow> new_tls_read_state 0) io of
       (Pending, rs, io') \<Rightarrow> (Pending, st\<lparr>to_read_state := Some rs\<rparr>, io')
     | (Fault e, rs, io') \<Rightarrow> (Fault e, st\<lparr>to_read_state := None\<rparr>, io')
     | (Ready (content, payload), rs, io') \<Rightarrow>
         (if to_first_response st \<and> content \<noteq> 0x17 then tls_obfs_loop room (st\<lparr>to_read_state := None\<rparr>) io'
          else let buffer = to_read_buffer st @ payload;
                 st = st\<lparr>to_read_state := None, to_first_response := False\<rparr>
            in case drain_buffer buffer room of
                 Some (out, rest) \<Rightarrow> (Ready out, st\<lparr>to_read_buffer := rest\<rparr>, io')
               | None \<Rightarrow> (Ready [], st\<lparr>to_read_buffer := buffer\<rparr>, io')))"
  by auto
termination
  by (relation "measure (\<lambda>(room, st, io). 2 * in_size (tr_in io) + (if to_read_state st = None then 0 else 1))")
    (auto dest: poll_read_record_size simp: new_tls_read_state_def split: option.splits if_splits)

declare tls_obfs_loop.simps [simp del]

definition tls_obfs_poll_read :: "nat \<Rightarrow> tls_obfs \<times> transport \<Rightarrow> bytes poll \<times> tls_obfs \<times> transport" where
  "tls_obfs_poll_read room = (\<lambda>(st, io).
    (case drain_buffer (to_read_buffer st) room of
       Some (out, rest) \<Rightarrow> (Ready out, st\<lparr>to_read_buffer := rest\<rparr>, io)
     | None \<Rightarrow> tls_obfs_loop room st io))"

text \<open>\<open>hello\<close> makes the client hello from the bytes of the first write and the host.\<close>

definition tls_obfs_poll_write :: "(bytes \<Rightarrow> string \<Rightarrow> bytes) \<Rightarrow> bytes \<Rightarrow> tls_obfs \<times> transport
    \<Rightarrow> nat poll \<times> tls_obfs \<times> transport" where
  "tls_obfs_poll_write hello buf = (\<lambda>(st, io).
    (case flush_pending poll_write_io (to_pending st) io of
       (Some r, pending, io) \<Rightarrow> (r, st\<lparr>to_pending := pending\<rparr>, io)
     | (None, _, io) \<Rightarrow>
         (let packet = (if to_first_request st then hello buf (to_host st) else tls_obfs_record buf);
              st = st\<lparr>to_first_request := False\<rparr>
          in case flush_pending poll_write_io (Some (new_pending packet (length buf))) io of
               (Some r, pending, io) \<Rightarrow> (r, st\<lparr>to_pending := pending\<rparr>, io)
             | (None, pending, io) \<Rightarrow> (Ready (length buf), st\<lparr>to_pending := pending\<rparr>, io))))"

section \<open>The random head of ShadowsocksR\<close>

record random_head =
  rh_sent_header :: bool
  rh_received_response :: bool
  rh_flushed_payload :: bool
  rh_pending :: "pending_write option"
  rh_buffered :: bytes

definition new_random_head :: random_head where
  "new_random_head = \<lparr>rh_sent_header = False, rh_received_response = False, rh_flushed_payload = False,
     rh_pending = None, rh_buffered = []\<rparr>"

text \<open>\<open>r\<close> is the random byte of the length, \<open>rnd\<close> the random bytes, \<open>crc32\<close> their checksum.\<close>

definition random_head_len :: "byte \<Rightarrow> nat" where
  "random_head_len r = unat r mod 96 + 4"

definition random_head_packet :: "(bytes \<Rightarrow> u32) \<Rightarrow> bytes \<Rightarrow> bytes" where
  "random_head_packet crc32 rnd = rnd @ rev (to_be 4 (unat (0xffffffff - crc32 rnd)))"

text \<open>
  The first read from the server is thrown away, and what was written in the meantime is sent. The
  poll returns \<open>Pending\<close> although the transport did not block.
\<close>

definition random_head_poll_read :: "nat \<Rightarrow> random_head \<times> transport \<Rightarrow> bytes poll \<times> random_head \<times> transport" where
  "random_head_poll_read room = (\<lambda>(st, io).
    (let go = (\<lambda>st io.
       if rh_received_response st then (case poll_read_io room io of (r, io) \<Rightarrow> (r, st, io))
       else (case poll_read_io 8192 io of
          (Pending, io) \<Rightarrow> (Pending, st, io)
        | (Fault e, io) \<Rightarrow> (Fault e, st, io)
        | (Ready bs, io) \<Rightarrow>
            (if bs = [] then (Ready [], st, io)
             else
               (let pending = (if rh_buffered st = [] then None else Some (new_pending (rh_buffered st) 0));
                    st = st\<lparr>rh_received_response := True, rh_flushed_payload := True, rh_buffered := []\<rparr>
                in case flush_pending poll_write_io pending io of
                     (Some (Fault e), pending, io) \<Rightarrow> (Fault e, st\<lparr>rh_pending := pending\<rparr>, io)
                   | (_, pending, io) \<Rightarrow> (Pending, st\<lparr>rh_pending := pending\<rparr>, io)))))
     in case flush_pending poll_write_io (rh_pending st) io of
          (Some Pending, pending, io) \<Rightarrow> (Pending, st\<lparr>rh_pending := pending\<rparr>, io)
        | (Some (Fault e), pending, io) \<Rightarrow> (Fault e, st\<lparr>rh_pending := pending\<rparr>, io)
        | (_, pending, io) \<Rightarrow> go (st\<lparr>rh_pending := pending\<rparr>) io))"

definition random_head_poll_write :: "bytes \<Rightarrow> bytes \<Rightarrow> random_head \<times> transport \<Rightarrow> nat poll \<times> random_head \<times> transport" where
  "random_head_poll_write head buf = (\<lambda>(st, io).
    (let write = (\<lambda>st io.
       if rh_received_response st then (case poll_write_io buf io of (r, io) \<Rightarrow> (r, st, io))
       else
         (let st = st\<lparr>rh_buffered := rh_buffered st @ buf\<rparr>
          in if rh_sent_header st then (Ready (length buf), st, io)
             else (case flush_pending poll_write_io (Some (new_pending head (length buf))) io of
                 (Some r, pending, io) \<Rightarrow> (r, st\<lparr>rh_sent_header := True, rh_pending := pending\<rparr>, io)
               | (None, pending, io) \<Rightarrow> (Ready (length buf), st\<lparr>rh_sent_header := True\<rparr>, io))));
       go = (\<lambda>st io.
         if rh_received_response st \<and> \<not> rh_flushed_payload st then
           (let pending = (if rh_buffered st = [] then None else Some (new_pending (rh_buffered st) 0));
                st = st\<lparr>rh_flushed_payload := True, rh_buffered := []\<rparr>
            in case flush_pending poll_write_io pending io of
                 (Some Pending, pending, io) \<Rightarrow> (Pending, st\<lparr>rh_pending := pending\<rparr>, io)
               | (Some (Fault e), pending, io) \<Rightarrow> (Fault e, st\<lparr>rh_pending := pending\<rparr>, io)
               | (_, pending, io) \<Rightarrow> write (st\<lparr>rh_pending := pending\<rparr>) io)
         else write st io)
     in case flush_pending poll_write_io (rh_pending st) io of
          (Some Pending, pending, io) \<Rightarrow> (Pending, st\<lparr>rh_pending := pending\<rparr>, io)
        | (Some (Fault e), pending, io) \<Rightarrow> (Fault e, st\<lparr>rh_pending := pending\<rparr>, io)
        | (_, pending, io) \<Rightarrow> go (st\<lparr>rh_pending := pending\<rparr>) io))"

section \<open>Writing through the streams\<close>

text \<open>After the first write.\<close>

definition http_wrap :: "http_obfs \<Rightarrow> pending_write option \<Rightarrow> transport \<Rightarrow> http_obfs \<times> transport" where
  "http_wrap st pending io = (st\<lparr>ho_first_request := False, ho_pending := pending\<rparr>, io)"

interpretation http_writer: pending_writer "http_obfs_poll_write request" "http_wrap st"
  by unfold_locales
    (auto simp: http_obfs_poll_write_def http_wrap_def settle_def flush_pending_def Let_def poll_write_all_len
      split: prod.splits poll.splits dest!: poll_write_all_len)

definition ssr_http_wrap :: "ssr_http_obfs \<Rightarrow> pending_write option \<Rightarrow> transport \<Rightarrow> ssr_http_obfs \<times> transport" where
  "ssr_http_wrap st pending io = (st\<lparr>sh_first_request := False, sh_pending := pending\<rparr>, io)"

interpretation ssr_http_writer: pending_writer "ssr_http_obfs_poll_write rnd" "ssr_http_wrap st"
  by unfold_locales
    (auto simp: ssr_http_obfs_poll_write_def ssr_http_wrap_def settle_def flush_pending_def
      split: prod.splits poll.splits)

definition tls_wrap :: "tls_obfs \<Rightarrow> pending_write option \<Rightarrow> transport \<Rightarrow> tls_obfs \<times> transport" where
  "tls_wrap st pending io = (st\<lparr>to_first_request := False, to_pending := pending\<rparr>, io)"

interpretation tls_writer: pending_writer "tls_obfs_poll_write hello" "tls_wrap st"
  by unfold_locales
    (auto simp: tls_obfs_poll_write_def tls_wrap_def settle_def flush_pending_def split: prod.splits poll.splits)

lemma http_first_write:
  assumes "ho_first_request st" "ho_pending st = None" "buf \<noteq> []" "has_room fuel io (request buf)"
  shows "\<exists>io'. write_all fuel (http_obfs_poll_write request) buf (st, io) = Some (http_wrap st None io')
    \<and> sends io (request buf) io'"
  using assms
  by (intro http_writer.write_packet)
    (auto simp: http_obfs_poll_write_def http_wrap_def settle_def flush_pending_def Let_def
      split: prod.splits poll.splits)

lemma http_later_write:
  "http_obfs_poll_write request buf (http_wrap st None io)
    = (case poll_write_io buf io of (r, io') \<Rightarrow> (r, http_wrap st None io'))"
  by (auto simp: http_obfs_poll_write_def http_wrap_def flush_pending_def Let_def split: prod.splits)

lemma ssr_http_first_write:
  assumes "sh_first_request st" "sh_pending st = None" "buf \<noteq> []"
    and "packet = ssr_http_obfs_request (ho_host (sh_inner st)) (ho_port (sh_inner st)) (sh_post st) (sh_headers st) rnd buf"
    and "has_room fuel io packet"
  shows "\<exists>io'. write_all fuel (ssr_http_obfs_poll_write rnd) buf (st, io) = Some (ssr_http_wrap st None io')
    \<and> sends io packet io'"
  using assms
  by (intro ssr_http_writer.write_packet)
    (auto simp: ssr_http_obfs_poll_write_def ssr_http_wrap_def settle_def flush_pending_def Let_def
      split: prod.splits poll.splits)

lemma ssr_http_later_write:
  "ssr_http_obfs_poll_write rnd buf (ssr_http_wrap st None io)
    = (case poll_write_io buf io of (r, io') \<Rightarrow> (r, ssr_http_wrap st None io'))"
  by (auto simp: ssr_http_obfs_poll_write_def ssr_http_wrap_def flush_pending_def Let_def split: prod.splits)

lemma tls_one_write:
  assumes "to_pending st = None" "buf \<noteq> []"
    and "packet = (if to_first_request st then hello buf (to_host st) else tls_obfs_record buf)"
    and "has_room fuel io packet"
  shows "\<exists>io'. write_all fuel (tls_obfs_poll_write hello) buf (st, io) = Some (tls_wrap st None io')
    \<and> sends io packet io'"
  using assms
  by (intro tls_writer.write_packet)
    (auto simp: tls_obfs_poll_write_def tls_wrap_def settle_def flush_pending_def Let_def
      split: prod.splits poll.splits)

text \<open>Streams that hand on later writes as they are.\<close>

lemma write_all_through:
  assumes "\<And>buf io. w buf (wrap io) = (case poll_write_io buf io of (r, io') \<Rightarrow> (r, wrap io'))"
  shows "write_all fuel w buf (wrap io) = map_option wrap (write_all fuel poll_write_io buf io)"
  by (induction fuel poll_write_io buf io rule: write_all.induct) (auto simp: assms split: prod.splits poll.splits)

lemma write_each_through:
  assumes "\<And>buf io. w buf (wrap io) = (case poll_write_io buf io of (r, io') \<Rightarrow> (r, wrap io'))"
    and "has_room fuel io (concat bufs)"
  shows "\<exists>io'. write_each fuel w bufs (wrap io) = Some (wrap io') \<and> sends io (concat bufs) io'"
  using assms(2)
proof (induction bufs arbitrary: io)
  case Nil
  then show ?case using sends_nothing by auto
next
  case (Cons buf bufs)
  obtain io1 where io1: "write_all fuel poll_write_io buf io = Some io1" "sends io buf io1"
    using write_all_io [of fuel io buf] has_room_first [of fuel io buf "concat bufs"] Cons.prems by auto
  have "has_room fuel io1 (concat bufs)" using has_room_next Cons.prems io1(2) by simp
  from Cons.IH [OF this] io1 sends_trans show ?case
    by (fastforce simp: write_all_through [where w = w and wrap = wrap, OF assms(1)])
qed

lemma tls_later_writes:
  assumes "\<not> to_first_request st" "to_pending st = None" "[] \<notin> set bufs"
    and "has_room fuel io (concat (List.map tls_obfs_record bufs))"
  shows "\<exists>st' io'. write_each fuel (tls_obfs_poll_write hello) bufs (st, io) = Some (st', io')
    \<and> sends io (concat (List.map tls_obfs_record bufs)) io'"
  using assms
proof (induction bufs arbitrary: st io)
  case Nil
  then show ?case using sends_nothing by auto
next
  case (Cons buf bufs)
  obtain io1 where io1: "write_all fuel (tls_obfs_poll_write hello) buf (st, io) = Some (tls_wrap st None io1)"
    "sends io (tls_obfs_record buf) io1"
    using tls_one_write [of st buf "tls_obfs_record buf" hello fuel io] Cons.prems has_room_first by fastforce
  have "has_room fuel io1 (concat (List.map tls_obfs_record bufs))" using has_room_next Cons.prems(4) io1(2) by simp
  from Cons.IH [OF _ _ _ this, of "st\<lparr>to_first_request := False, to_pending := None\<rparr>"] Cons.prems io1 sends_trans
  show ?case by (fastforce simp: tls_wrap_def)
qed

section \<open>Reading through the streams\<close>

lemma find_header_end_append: "find_header_end b = Some i \<Longrightarrow> find_header_end (b @ c) = Some i"
proof (induction b arbitrary: i)
  case (Cons x b)
  have "take 4 (x # b) = header_end \<Longrightarrow> take 4 (x # b @ c) = header_end"
  proof -
    assume h: "take 4 (x # b) = header_end"
    then have "length (take 4 (x # b)) = 4" by (simp add: header_end_def)
    then have "4 \<le> length (x # b)" by simp
    then have "take 4 ((x # b) @ c) = take 4 (x # b)" unfolding take_append by auto
    then show "take 4 (x # b @ c) = header_end" using h by (metis append_Cons)
  qed
  moreover have "take 4 (x # b @ c) = header_end \<Longrightarrow> take 4 (x # b) \<noteq> header_end \<Longrightarrow> find_header_end b = None"
  proof -
    assume h: "take 4 (x # b @ c) = header_end" "take 4 (x # b) \<noteq> header_end"
    then have "length b < 3" by (cases "3 \<le> length b") (auto simp: take_Cons')
    then show ?thesis
      by (cases b rule: list.exhaust; cases "tl b" rule: list.exhaust; cases "tl (tl b)" rule: list.exhaust)
        (auto simp: header_end_def)
  qed
  ultimately show ?case using Cons by (auto split: if_splits)
qed simp

lemma find_header_end_bound: "find_header_end b = Some i \<Longrightarrow> i + 4 \<le> length b"
proof (induction b arbitrary: i)
  case (Cons x b)
  have "take 4 (x # b) = header_end \<Longrightarrow> 4 \<le> length (x # b)"
  proof -
    assume "take 4 (x # b) = header_end"
    then have "length (take 4 (x # b)) = 4" by (simp add: header_end_def)
    then show ?thesis by simp
  qed
  then show ?case using Cons by (fastforce split: if_splits)
qed simp

text \<open>
  A reader behind the head loses nothing: what it has returned, what it holds and what is still to
  come is the body.
\<close>

definition http_body_inv :: "bytes \<Rightarrow> bytes \<Rightarrow> http_obfs \<times> transport \<Rightarrow> bool" where
  "http_body_inv body returned = (\<lambda>(st, io).
    \<not> ho_first_response st \<and> returned @ ho_read_buffer st @ in_data (tr_in io) = body)"

lemma http_read_head_done:
  assumes "ho_first_response st" "ho_read_buffer st @ in_data (tr_in io) = response"
    and "tr_in io = List.map ReadData chunks @ es" "[] \<notin> set chunks"
    and "find_header_end (ho_read_buffer st) = None" "find_header_end (ho_read_buffer st @ concat chunks) = Some i"
    and "http_obfs_read_head room st io = (r, st', io')"
  shows "\<exists>bs. r = Ready bs \<and> http_body_inv (drop (i + 4) response) bs (st', io')"
  using assms
proof (induction room st io arbitrary: chunks rule: http_obfs_read_head.induct)
  case (1 room st io)
  have "chunks \<noteq> []" using 1(6,7) by auto
  then obtain bs chunks' io1 where x: "poll_read_io 8192 io = (Ready bs, io1)" "bs \<noteq> []"
    "tr_in io1 = List.map ReadData chunks' @ es" "[] \<notin> set chunks'" "concat chunks = bs @ concat chunks'"
    using poll_read_io_pieces [OF 1(4,5), of 8192] by auto
  let ?buffer = "ho_read_buffer st @ bs"
  have data: "response = ?buffer @ in_data (tr_in io1)" using poll_read_io_keeps [OF x(1)] 1(3) by simp
  note step = http_obfs_read_head.simps [of room st io]
  show ?case
  proof (cases "find_header_end ?buffer")
    case None
    have "http_obfs_read_head room (st\<lparr>ho_read_buffer := ?buffer\<rparr>) io1 = (r, st', io')"
      using 1(8) x None by (simp add: step Let_def)
    then show ?thesis
      using 1(1) [OF x(1) [symmetric] refl x(2) refl None, of chunks'] 1(2,7) data x None by simp
  next
    case (Some j)
    have "j = i" using find_header_end_append [OF Some, of "concat chunks'"] 1(7) x(5) by simp
    moreover have "j + 4 \<le> length ?buffer" by (rule find_header_end_bound [OF Some])
    ultimately have rest: "drop (i + 4) response = drop (i + 4) ?buffer @ in_data (tr_in io1)" unfolding data by simp
    show ?thesis
    proof (cases "drain_buffer (drop (i + 4) ?buffer) room")
      case None
      then show ?thesis using 1(8) x Some rest \<open>j = i\<close> by (auto simp: step Let_def http_body_inv_def)
    next
      case (Some p)
      then obtain out left where p: "drain_buffer (drop (i + 4) ?buffer) room = Some (out, left)" by (cases p) auto
      show ?thesis using 1(8) x \<open>find_header_end ?buffer = Some j\<close> \<open>j = i\<close> rest p drain_buffer_Some [OF p]
        by (auto simp: step Let_def http_body_inv_def)
    qed
  qed
qed

lemma http_poll_read_body:
  assumes "http_body_inv body returned s" "http_obfs_poll_read room s = (r, s')"
  shows "http_body_inv body (returned @ poll_data r) s'"
proof -
  obtain st io where s: "s = (st, io)" by fastforce
  show ?thesis
  proof (cases "drain_buffer (ho_read_buffer st) room")
    case (Some p)
    obtain out rest where p: "p = (out, rest)" by fastforce
    from drain_buffer_Some [of _ room out rest] show ?thesis
      using assms Some p by (fastforce simp: http_obfs_poll_read_def http_body_inv_def s)
  next
    case None
    obtain r1 io1 where x: "poll_read_io room io = (r1, io1)" by fastforce
    have "room = 0 \<or> ho_read_buffer st = []" using None by (auto simp: drain_buffer_def split: if_splits)
    moreover have "room = 0 \<Longrightarrow> poll_data r1 = []"
      using x by (auto simp: poll_read_io_def split: list.splits read_event.splits if_splits)
    ultimately show ?thesis using assms None x poll_read_io_keeps [OF x]
      by (auto simp: http_obfs_poll_read_def http_body_inv_def s)
  qed
qed

lemma http_read_polls_body:
  "http_body_inv body returned s \<Longrightarrow> read_polls http_obfs_poll_read rooms s = (xs, s') \<Longrightarrow>
    http_body_inv body (returned @ got xs) s'"
proof (induction rooms arbitrary: s xs returned)
  case (Cons room rooms)
  obtain r s1 where r: "http_obfs_poll_read room s = (r, s1)" by (cases "http_obfs_poll_read room s")
  obtain ys where ys: "read_polls http_obfs_poll_read rooms s1 = (ys, s')" "xs = r # ys"
    using Cons.prems(2) r by (auto split: prod.splits)
  from Cons.IH [OF http_poll_read_body [OF Cons.prems(1) r] ys(1)] ys(2) show ?case by simp
qed simp

section \<open>Decoding the path\<close>

fun percent_decode :: "string \<Rightarrow> bytes" where
  "percent_decode (c # a # b # r) =
    (if c = CHR ''%'' then of_nat (digits_value 16 [a, b]) # percent_decode r else [])"
| "percent_decode _ = []"

lemma hex_char_digit: "n < 16 \<Longrightarrow> hex_char n = digit_char n"
proof -
  have "\<forall>n \<in> set [0..<16]. hex_char n = digit_char n" by code_simp
  then show "n < 16 \<Longrightarrow> ?thesis" by simp
qed

lemma percent_decode_encode: "percent_decode (percent_encode bs) = bs"
proof (induction bs)
  case (Cons b bs)
  have "unat b div 16 < 16" "unat b mod 16 < 16"
    using unat_byte_bound [of b] by (simp_all add: less_mult_imp_div_less)
  then have "digits_value 16 [hex_char (unat b div 16), hex_char (unat b mod 16)] = 16 * (unat b div 16) + unat b mod 16"
    by (simp add: hex_char_digit digits_value_def undigits_Cons)
  then show ?case using Cons by (simp add: percent_encode_def)
qed (simp add: percent_encode_def)

section \<open>Properties\<close>

text \<open>
  Simple-obfs over TLS sends every write exactly once. However the transport blocks and however
  little it accepts at a time, as long as it accepts enough bytes in the end: a caller that writes
  everything gets through, and the wire holds the client hello with the first write and then one record
  for each of the others.
\<close>

theorem tls_obfs_writes_exact:
  assumes "[] \<notin> set (buf # bufs)" "wire = hello buf h @ concat (List.map tls_obfs_record bufs)"
    and "has_room fuel io wire"
  shows "\<exists>st' io'. write_each fuel (tls_obfs_poll_write hello) (buf # bufs) (new_tls_obfs h, io) = Some (st', io')
    \<and> tr_sent io' = tr_sent io @ wire"
proof -
  let ?st = "new_tls_obfs h"
  obtain io1 where io1: "write_all fuel (tls_obfs_poll_write hello) buf (?st, io) = Some (tls_wrap ?st None io1)"
    "sends io (hello buf h) io1"
    using tls_one_write [of ?st buf "hello buf h" hello fuel io] assms has_room_first
    by (auto simp: new_tls_obfs_def)
  have "has_room fuel io1 (concat (List.map tls_obfs_record bufs))" using has_room_next assms(2,3) io1(2) by simp
  from tls_later_writes [OF _ _ _ this, of "?st\<lparr>to_first_request := False, to_pending := None\<rparr>" hello] assms(1)
  obtain st' io' where "write_each fuel (tls_obfs_poll_write hello) bufs (tls_wrap ?st None io1) = Some (st', io')"
    "sends io1 (concat (List.map tls_obfs_record bufs)) io'"
    by (auto simp: tls_wrap_def)
  then show ?thesis using io1 assms(2) by (auto simp: sends_def)
qed

definition slow_transport :: "read_event list \<Rightarrow> transport" where
  "slow_transport es = \<lparr>tr_in = es,
     tr_out = concat (replicate 20 [WriteBlock, WriteAccept 1, WriteAccept 3]), tr_sent = []\<rparr>"

lemma slow_has_room: "length d \<le> 40 \<Longrightarrow> has_room 61 (slow_transport es) d"
proof -
  let ?es = "\<lambda>k. concat (replicate k [WriteBlock, WriteAccept 1, WriteAccept 3])"
  have "lively (?es k) \<and> accepts (?es k) = 2 * k \<and> length (?es k) = 3 * k" for k
    by (induction k) (auto simp: lively_Cons, simp add: lively_def)
  from this [of 20] show "length d \<le> 40 \<Longrightarrow> ?thesis"
    unfolding has_room_def slow_transport_def by simp
qed

theorem tls_obfs_writes_exact_witness:
  "\<exists>st' io'. write_each 61 (tls_obfs_poll_write (\<lambda>buf h. 22 # buf)) [[1, 2], [3], [4, 5]] (new_tls_obfs ''a'', slow_transport [])
    = Some (st', io') \<and> tr_sent io' = [] @ [22, 1, 2, 0x17, 3, 3, 0, 1, 3, 0x17, 3, 3, 0, 2, 4, 5]"
proof -
  let ?wire = "[22, 1, 2, 0x17, 3, 3, 0, 1, 3, 0x17, 3, 3, 0, 2, 4, 5] :: bytes"
  have wire: "?wire = (\<lambda>buf h. 22 # buf) [1, 2] ''a'' @ concat (List.map tls_obfs_record [[3], [4, 5]])"
    by code_simp
  have room: "has_room 61 (slow_transport []) ?wire" by (rule slow_has_room) simp
  have sent: "tr_sent (slow_transport []) = []" by (simp add: slow_transport_def)
  have "[] \<notin> set [[1, 2], [3], [4, 5]]" by simp
  from tls_obfs_writes_exact [where hello = "\<lambda>buf h. 22 # buf" and h = "''a''", OF this wire room]
  show ?thesis unfolding sent .
qed

text \<open>
  The HTTP obfuscations send every write exactly once. Both the request of simple-obfs and the one
  of ShadowsocksR go out once, in front of the later writes as they are, whatever the transport does in
  between; and the payload of the ShadowsocksR request is the decoded path followed by its body.
\<close>

theorem http_obfs_writes_exact:
  assumes "buf \<noteq> []"
  shows "(has_room fuel io (http_obfs_request base64 h p key r buf @ concat bufs) \<longrightarrow>
      (\<exists>st' io'. write_each fuel (http_obfs_poll_write (http_obfs_request base64 h p key r)) (buf # bufs)
          (new_http_obfs h p, io) = Some (st', io')
        \<and> tr_sent io' = tr_sent io @ http_obfs_request base64 h p key r buf @ concat bufs))
    \<and> (has_room fuel io (ssr_http_obfs_request h p post headers rnd buf @ concat bufs) \<longrightarrow>
      (\<exists>st' io'. write_each fuel (ssr_http_obfs_poll_write rnd) (buf # bufs) (new_ssr_http_obfs h p post headers, io)
          = Some (st', io')
        \<and> tr_sent io' = tr_sent io @ ssr_http_obfs_request h p post headers rnd buf @ concat bufs))
    \<and> (\<exists>start rest k. ssr_http_obfs_request h p post headers rnd buf
          = as_bytes (start @ percent_encode (take k buf) @ rest) @ drop k buf
        \<and> percent_decode (percent_encode (take k buf)) @ drop k buf = buf)"
proof (intro conjI impI)
  let ?request = "http_obfs_request base64 h p key r" and ?st = "new_http_obfs h p"
  assume room: "has_room fuel io (?request buf @ concat bufs)"
  obtain io1 where io1: "write_all fuel (http_obfs_poll_write ?request) buf (?st, io) = Some (http_wrap ?st None io1)"
    "sends io (?request buf) io1"
    using http_first_write [of ?st buf fuel io ?request] assms has_room_first [OF room] by (auto simp: new_http_obfs_def)
  from write_each_through [where wrap = "http_wrap ?st None", OF http_later_write has_room_next [OF room io1(2)]] io1
  show "\<exists>st' io'. write_each fuel (http_obfs_poll_write ?request) (buf # bufs) (?st, io) = Some (st', io')
      \<and> tr_sent io' = tr_sent io @ ?request buf @ concat bufs"
    by (fastforce simp: http_wrap_def sends_def)
next
  let ?request = "ssr_http_obfs_request h p post headers rnd" and ?st = "new_ssr_http_obfs h p post headers"
  assume room: "has_room fuel io (?request buf @ concat bufs)"
  obtain io1 where io1: "write_all fuel (ssr_http_obfs_poll_write rnd) buf (?st, io) = Some (ssr_http_wrap ?st None io1)"
    "sends io (?request buf) io1"
    using ssr_http_first_write [of ?st buf "?request buf" rnd fuel io] assms has_room_first [OF room]
    by (auto simp: new_ssr_http_obfs_def new_http_obfs_def)
  from write_each_through [where wrap = "ssr_http_wrap ?st None", OF ssr_http_later_write has_room_next [OF room io1(2)]] io1
  show "\<exists>st' io'. write_each fuel (ssr_http_obfs_poll_write rnd) (buf # bufs) (?st, io) = Some (st', io')
      \<and> tr_sent io' = tr_sent io @ ?request buf @ concat bufs"
    by (fastforce simp: ssr_http_wrap_def sends_def)
next
  show "\<exists>start rest k. ssr_http_obfs_request h p post headers rnd buf
      = as_bytes (start @ percent_encode (take k buf) @ rest) @ drop k buf
      \<and> percent_decode (percent_encode (take k buf)) @ drop k buf = buf"
    unfolding ssr_http_obfs_request_def Let_def percent_decode_encode append_take_drop_id by blast
qed

theorem http_obfs_writes_exact_witness:
  "\<exists>st' io'. write_each 301 (http_obfs_poll_write (http_obfs_request (\<lambda>_. '''') ''a'' 80 [] 0)) [[1, 2], [3]]
      (new_http_obfs ''a'' 80, \<lparr>tr_in = [], tr_out = replicate 300 (WriteAccept 7), tr_sent = []\<rparr>) = Some (st', io')
    \<and> tr_sent io' = http_obfs_request (\<lambda>_. '''') ''a'' 80 [] 0 [1, 2] @ [3]"
proof -
  have "length (http_obfs_request (\<lambda>_. '''') ''a'' 80 [] 0 [1, 2]) < 300" by code_simp
  moreover have "lively (replicate n (WriteAccept 7)) \<and> accepts (replicate n (WriteAccept 7)) = n" for n
    by (induction n) (auto simp: lively_def)
  ultimately have "has_room 301 \<lparr>tr_in = [], tr_out = replicate 300 (WriteAccept 7), tr_sent = []\<rparr>
      (http_obfs_request (\<lambda>_. '''') ''a'' 80 [] 0 [1, 2] @ concat [[3]])" by (simp add: has_room_def)
  with http_obfs_writes_exact [of "[1, 2]" 301 "\<lparr>tr_in = [], tr_out = replicate 300 (WriteAccept 7), tr_sent = []\<rparr>"
      "\<lambda>_. ''''" "''a''" 80 "[]" 0 "[[3]]"] show ?thesis by simp
qed

text \<open>
  Behind the head of the response nothing is lost. When the head arrives without a gap, every
  sequence of reads, with buffers of any size and however the transport cuts and blocks after that,
  returns the body in order: what was returned, what is buffered and what is still to come always
  make up the whole body.
\<close>

theorem http_obfs_reads_body:
  assumes "tr_in io = List.map ReadData chunks @ es" "[] \<notin> set chunks"
    and "find_header_end (concat chunks) = Some i"
    and "read_polls http_obfs_poll_read (room # rooms) (new_http_obfs h p, io) = (xs, st', io')"
  shows "got xs @ ho_read_buffer st' @ in_data (tr_in io') = drop (i + 4) (in_data (tr_in io))
    \<and> \<not> ho_first_response st' \<and> (\<exists>bs. hd xs = Ready bs)"
proof -
  obtain r st1 io1 where r: "http_obfs_read_head room (new_http_obfs h p) io = (r, st1, io1)" by (metis prod_cases3)
  then obtain bs where bs: "r = Ready bs" "http_body_inv (drop (i + 4) (in_data (tr_in io))) bs (st1, io1)"
    using http_read_head_done [of "new_http_obfs h p" io _ chunks es i room r] assms(1-3) by (auto simp: new_http_obfs_def)
  have first: "http_obfs_poll_read room (new_http_obfs h p, io) = (r, st1, io1)"
    using r by (simp add: http_obfs_poll_read_def drain_buffer_def new_http_obfs_def)
  obtain ys where ys: "read_polls http_obfs_poll_read rooms (st1, io1) = (ys, st', io')" "xs = r # ys"
    using assms(4) first by (auto split: prod.splits)
  from http_read_polls_body [OF bs(2) ys(1)] show ?thesis using ys(2) bs(1) by (simp add: http_body_inv_def)
qed

theorem http_obfs_reads_body_witness:
  "got (fst (read_polls http_obfs_poll_read [1, 9] (new_http_obfs ''a'' 80,
      slow_transport [ReadData [65, 13, 10], ReadData [13, 10, 1, 2], ReadBlock, ReadData [3]]))) = [1, 2]"
proof -
  let ?io = "slow_transport [ReadData [65, 13, 10], ReadData [13, 10, 1, 2], ReadBlock, ReadData [3]]"
  obtain xs st' io' where x: "read_polls http_obfs_poll_read [1, 9] (new_http_obfs ''a'' 80, ?io) = (xs, st', io')"
    by (metis prod_cases3)
  have e: "ho_read_buffer (fst (snd (read_polls http_obfs_poll_read [1, 9] (new_http_obfs ''a'' 80, ?io)))) = []"
    "in_data (tr_in (snd (snd (read_polls http_obfs_poll_read [1, 9] (new_http_obfs ''a'' 80, ?io))))) = [3]"
    by code_simp+
  have "tr_in ?io = List.map ReadData [[65, 13, 10], [13, 10, 1, 2]] @ [ReadBlock, ReadData [3]]"
    by (simp add: slow_transport_def)
  from http_obfs_reads_body [OF this _ _ x, of 1] e x show ?thesis
    by (simp add: header_end_def slow_transport_def)
qed

text \<open>
  A response whose head arrives in two parts is corrupted, and one that arrives without its body
  looks like the end. When the transport blocks inside the head, the next poll returns the first part
  of the head to the reader as data; and when the head is complete and nothing has arrived behind it,
  the poll returns no bytes, which a reader takes for the end of the stream, whatever comes next.
\<close>

theorem http_obfs_split_head_leaks:
  assumes "part \<noteq> []" "length part \<le> 8192" "find_header_end part = None" "0 < room"
    and "find_header_end head = Some i" "length head = i + 4" "length head \<le> 8192"
  shows "fst (read_polls http_obfs_poll_read [k, room]
        (new_http_obfs h p, io\<lparr>tr_in := ReadData part # ReadBlock # es\<rparr>)) = [Pending, Ready (take room part)]
    \<and> fst (read_polls http_obfs_poll_read [room] (new_http_obfs h p, io\<lparr>tr_in := ReadData head # es\<rparr>)) = [Ready []]"
  using assms
  by (auto simp: http_obfs_poll_read_def new_http_obfs_def drain_buffer_def http_obfs_read_head.simps
      poll_read_io_def split: prod.splits)

theorem http_obfs_split_head_leaks_witness:
  "fst (read_polls http_obfs_poll_read [4, 4]
        (new_http_obfs ''a'' 80, (slow_transport [])\<lparr>tr_in := ReadData [72, 84] # ReadBlock # []\<rparr>)) = [Pending, Ready [72, 84]]
    \<and> fst (read_polls http_obfs_poll_read [4] (new_http_obfs ''a'' 80,
        (slow_transport [])\<lparr>tr_in := ReadData [13, 10, 13, 10] # [ReadData [1]]\<rparr>)) = [Ready []]"
proof -
  have "find_header_end [72, 84] = None" "find_header_end [13, 10, 13, 10] = Some 0" by code_simp+
  note leaks = http_obfs_split_head_leaks [where io = "slow_transport []" and k = 4 and room = 4 and h = "''a''" and p = 80,
      OF _ _ this(1) _ this(2)]
  from leaks [where es = "[]"] leaks [where es = "[ReadData [1]]"]
  show ?thesis by simp
qed

text \<open>
  A gap inside a record loses what came before it. When the transport blocks in the middle of the
  payload of a record, the poll gives up the bytes it has already read; the next one returns only what
  arrives after the gap, and the stream goes on as if the record had been read.
\<close>

theorem tls_obfs_gap_loses_bytes:
  assumes "before \<noteq> []" "after \<noteq> []" "length before \<le> 8192" "length after \<le> 8192" "0 < room"
    and "tr_in io = ReadData ([0x17, 3, 3] @ to_be 2 (length before + length after))
      # ReadData before # ReadBlock # ReadData after # es"
  shows "fst (read_polls tls_obfs_poll_read [k, room] (new_tls_obfs h, io)) = [Pending, Ready (take room after)]"
proof -
  let ?header = "[0x17, 3, 3] @ to_be 2 (length before + length after)"
  have len: "be16 (to_be 2 (length before + length after) ! 0) (to_be 2 (length before + length after) ! Suc 0)
      = length before + length after"
    using assms(3,4) by (simp add: be16_to_be)
  have full: "tls_read_header (0x17 # 3 # 3 # to_be 2 n) x = (Ready (), 0x17 # 3 # 3 # to_be 2 n, x)" for n x
    by (simp add: tls_read_header.simps [of "_ # _"])
  have header: "tls_read_header [] io = (Ready (), ?header, io\<lparr>tr_in := tl (tr_in io)\<rparr>)"
    using assms(6) by (simp add: tls_read_header.simps [of "[]"] full poll_read_io_def)
  let ?io1 = "io\<lparr>tr_in := ReadData before # ReadBlock # ReadData after # es\<rparr>"
  let ?io2 = "io\<lparr>tr_in := ReadData after # es\<rparr>"
  have pay1: "tls_read_payload (length before + length after) 0 [] ?io1 = (Pending, length after, 0, ?io2)"
    using assms(1-4)
    by (simp add: tls_read_payload.simps [of "length before + length after"] tls_read_payload.simps [of "length after"]
        poll_read_io_def Let_def)
  have pay2: "tls_read_payload (length after) 0 [] ?io2 = (Ready after, 0, 0, io\<lparr>tr_in := es\<rparr>)"
    using assms(2,4)
    by (simp add: tls_read_payload.simps [of "length after"] tls_read_payload.simps [of 0] poll_read_io_def Let_def)
  have rec1: "poll_read_record (new_tls_read_state 0) io
      = (Pending, \<lparr>rs_header = ?header, rs_discard = 0, rs_remaining = Some (length after)\<rparr>, ?io2)"
    using header pay1 len assms(6) by (simp add: poll_read_record_def new_tls_read_state_def Let_def)
  have rec2: "poll_read_record \<lparr>rs_header = ?header, rs_discard = 0, rs_remaining = Some (length after)\<rparr> ?io2
      = (Ready (0x17, after), \<lparr>rs_header = ?header, rs_discard = 0, rs_remaining = Some 0\<rparr>, io\<lparr>tr_in := es\<rparr>)"
    using pay2 by (simp add: poll_read_record_def full Let_def)
  show ?thesis
    using rec1 rec2 assms(2,5)
    by (simp add: tls_obfs_poll_read_def tls_obfs_loop.simps new_tls_obfs_def drain_buffer_def Let_def)
qed

theorem tls_obfs_gap_loses_bytes_witness:
  "fst (read_polls tls_obfs_poll_read [9, 9] (new_tls_obfs ''a'',
      slow_transport [ReadData [0x17, 3, 3, 0, 3], ReadData [1, 2], ReadBlock, ReadData [3]])) = [Pending, Ready [3]]"
proof -
  have "[0x17, 3, 3] @ to_be 2 (length [1 :: byte, 2] + length [3 :: byte]) = [0x17, 3, 3, 0, 3]" by code_simp
  with tls_obfs_gap_loses_bytes [of "[1, 2]" "[3]" 9
      "slow_transport [ReadData [0x17, 3, 3, 0, 3], ReadData [1, 2], ReadBlock, ReadData [3]]" "[]" 9 "''a''"]
  show ?thesis by (simp add: slow_transport_def)
qed

text \<open>
  The random head doubles the first write when the transport blocks. The caller writes \<open>buf\<close> once;
  the transport blocks once before it takes the head; when the server's first bytes arrive, \<open>buf\<close> is
  sent twice, and the poll that sends it returns \<open>Pending\<close> although the transport has not blocked.
\<close>

theorem random_head_doubles_write:
  assumes "head \<noteq> []" "buf \<noteq> []" "length head \<le> n" "2 * length buf \<le> m" "bs \<noteq> []"
    and "tr_out io = [WriteBlock, WriteAccept n, WriteAccept m]" "tr_in io = [ReadData bs, ReadData cs]"
  shows "\<exists>st io' st' io''. write_all 2 (random_head_poll_write head) buf (new_random_head, io) = Some (st, io')
    \<and> tr_sent io' = tr_sent io @ head
    \<and> random_head_poll_read room (st, io') = (Pending, st', io'')
    \<and> (length bs \<le> 8192 \<longrightarrow> tr_in io'' = [ReadData cs]) \<and> tr_sent io'' = tr_sent io @ head @ buf @ buf"
proof -
  obtain b r where b: "buf = b # r" using assms(2) by (cases buf) auto
  let ?io1 = "io\<lparr>tr_out := [WriteAccept n, WriteAccept m]\<rparr>"
  let ?io2 = "io\<lparr>tr_out := [WriteAccept m], tr_sent := tr_sent io @ head\<rparr>"
  let ?pw = "new_pending head (length buf)"
  have p1: "poll_write_all poll_write_io ?pw io = (Pending, ?pw, ?io1)"
    using assms(1,6) by (simp add: poll_write_all.simps [of poll_write_io ?pw] poll_write_io_def)
  have p2: "poll_write_all poll_write_io ?pw ?io1 = (Ready (length buf), ?pw\<lparr>pw_offset := length head\<rparr>, ?io2)"
    using assms(1,3)
    by (simp add: poll_write_all.simps [of poll_write_io ?pw] poll_write_all.simps [of poll_write_io "_\<lparr>pw_offset := _\<rparr>"]
        poll_write_io_def)
  let ?st1 = "new_random_head\<lparr>rh_buffered := buf, rh_sent_header := True, rh_pending := Some ?pw\<rparr>"
  let ?st2 = "new_random_head\<lparr>rh_buffered := buf @ buf, rh_sent_header := True\<rparr>"
  have w1: "random_head_poll_write head buf (new_random_head, io) = (Pending, ?st1, ?io1)"
    using p1 by (simp add: random_head_poll_write_def new_random_head_def flush_pending_def Let_def)
  have w2: "random_head_poll_write head buf (?st1, ?io1) = (Ready (length buf), ?st2, ?io2)"
    using p2 by (simp add: random_head_poll_write_def new_random_head_def flush_pending_def Let_def)
  have "write_all 2 (random_head_poll_write head) buf (new_random_head, io) = Some (?st2, ?io2)"
    using w1 w2 b by (simp add: numeral_2_eq_2)
  moreover have "\<exists>st' io''. random_head_poll_read room (?st2, ?io2) = (Pending, st', io'')
      \<and> (length bs \<le> 8192 \<longrightarrow> tr_in io'' = [ReadData cs]) \<and> tr_sent io'' = tr_sent io @ head @ buf @ buf"
    using assms(2,4,5,7)
    by (auto simp: random_head_poll_read_def new_random_head_def flush_pending_def poll_read_io_def Let_def
        poll_write_all.simps [of poll_write_io "new_pending _ _"] poll_write_all.simps [of poll_write_io "_\<lparr>pw_offset := _\<rparr>"]
        poll_write_io_def)
  ultimately show ?thesis by fastforce
qed

theorem random_head_doubles_write_witness:
  "\<exists>st io'. write_all 2 (random_head_poll_write [9]) [1] (new_random_head,
      \<lparr>tr_in = [ReadData [5], ReadData [6]], tr_out = [WriteBlock, WriteAccept 1, WriteAccept 2], tr_sent = []\<rparr>) = Some (st, io')
    \<and> tr_sent (snd (snd (random_head_poll_read 4 (st, io')))) = [9, 1, 1]"
  using random_head_doubles_write [of "[9]" "[1]" 1 2 "[5]"
      "\<lparr>tr_in = [ReadData [5], ReadData [6]], tr_out = [WriteBlock, WriteAccept 1, WriteAccept 2], tr_sent = []\<rparr>" "[6]" 4]
  by fastforce

end
