(* ===== verification/Ss_Ticket.thy ===== *)
theory Ss_Ticket
  imports Ss_Obfs Ip_Stack
begin

text \<open>
  The TLS ticket obfuscation of ShadowsocksR (\<open>adapter/shadowsocks/ssr/obfs/tls_ticket.rs\<close>): a fake TLS
  handshake that is authenticated with HMAC-SHA1, then TLS records of random sizes around the
  stream. HMAC-SHA1, the clock and the random values are arguments; the random sizes of the records
  come from a sequence that the stream carries along.
\<close>

section \<open>Records\<close>

definition ticket_pack_record :: "bytes \<Rightarrow> bytes" where
  "ticket_pack_record payload = [0x17, 0x03, 0x03] @ to_be 2 (length payload) @ payload"

text \<open>The records of a payload, and the random values that are left.\<close>

function ticket_records :: "bool \<Rightarrow> (nat \<Rightarrow> u16) \<Rightarrow> bytes \<Rightarrow> bytes \<times> (nat \<Rightarrow> u16)" where
  "ticket_records random_chunks rnd remaining =
    (if 2048 < length remaining then
       (let size = min (if random_chunks then unat (rnd 0) mod 4096 + 100 else 2048) (length remaining);
            (out, rnd') = ticket_records random_chunks (if random_chunks then rnd \<circ> Suc else rnd) (drop size remaining)
        in (ticket_pack_record (take size remaining) @ out, rnd'))
     else (if remaining = [] then [] else ticket_pack_record remaining, rnd))"
  by auto
termination by (relation "measure (\<lambda>(b, rnd, remaining). length remaining)") auto

declare ticket_records.simps [simp del]

text \<open>\<open>ssr_tls_ticket_drain_records\<close>: what it returns, what it leaves of \<open>raw\<close>, and the longer \<open>output\<close>.\<close>

function ticket_drain_records :: "bool \<Rightarrow> bytes \<Rightarrow> bytes \<Rightarrow> (io_error, bool) res \<times> bytes \<times> bytes" where
  "ticket_drain_records drained raw out =
    (if length raw < 5 then (Ok drained, raw, out)
     else if take 3 raw \<noteq> [0x17, 0x03, 0x03] then (Err InvalidData, [], out)
     else let size = be16 (raw ! 3) (raw ! 4)
       in if length raw < 5 + size then (Ok drained, raw, out)
          else ticket_drain_records True (drop (5 + size) raw) (out @ drop 5 (take (5 + size) raw)))"
  by auto
termination by (relation "measure (\<lambda>(drained, raw, out). length raw)") auto

declare ticket_drain_records.simps [simp del]

section \<open>The handshake\<close>

definition ticket_hmac :: "(bytes \<Rightarrow> bytes \<Rightarrow> bytes) \<Rightarrow> bytes \<Rightarrow> bytes \<Rightarrow> bytes \<Rightarrow> bytes" where
  "ticket_hmac hmac_sha1 key client_id d = hmac_sha1 (key @ client_id) d"

definition ticket_pack_auth_data :: "(bytes \<Rightarrow> bytes \<Rightarrow> bytes) \<Rightarrow> u32 \<Rightarrow> bytes \<Rightarrow> bytes \<Rightarrow> bytes \<Rightarrow> bytes" where
  "ticket_pack_auth_data hmac_sha1 time rnd key client_id =
    (let d = to_be 4 (unat time) @ rnd in d @ take 10 (ticket_hmac hmac_sha1 key client_id d))"

definition ticket_pack_sni :: "string \<Rightarrow> bytes" where
  "ticket_pack_sni h =
    [0, 0] @ to_be 2 (length h + 5) @ to_be 2 (length h + 3) @ [0] @ to_be 2 (length h) @ as_bytes h"

text \<open>\<open>r\<close> is the random byte of the length, \<open>fill n\<close> are \<open>n\<close> random bytes.\<close>

definition ticket_pack_ticket :: "byte \<Rightarrow> (nat \<Rightarrow> bytes) \<Rightarrow> bytes" where
  "ticket_pack_ticket r fill =
    (let len = 16 * (unat r mod 17 + 8) in [0x00, 0x23] @ to_be 2 len @ fill len)"

text \<open>One of the hosts of a list, \<open>r\<close> is random; a host that ends with a digit (an address) is left out.\<close>

definition ticket_host :: "nat \<Rightarrow> string \<Rightarrow> string" where
  "ticket_host r h =
    (let trimmed = str_trim h
     in if trimmed \<noteq> [] \<and> is_digit_char 10 (last trimmed) then []
        else let hosts = filter (\<lambda>v. v \<noteq> []) (List.map str_trim (str_split '','' trimmed))
          in if hosts = [] then [] else hosts ! (r mod length hosts))"


definition ticket_client_hello :: "(bytes \<Rightarrow> bytes \<Rightarrow> bytes) \<Rightarrow> u32 \<Rightarrow> bytes \<Rightarrow> nat \<Rightarrow> byte \<Rightarrow> (nat \<Rightarrow> bytes)
    \<Rightarrow> string \<Rightarrow> bytes \<Rightarrow> bytes \<Rightarrow> bytes" where
  "ticket_client_hello hmac_sha1 time rnd pick r fill hst key client_id =
    (let d = [0x03, 0x03] @ ticket_pack_auth_data hmac_sha1 time rnd key client_id @ [0x20] @ client_id
           @ [0x00, 0x1c, 0xc0, 0x2b, 0xc0, 0x2f, 0xcc, 0xa9, 0xcc, 0xa8, 0xcc, 0x14, 0xcc, 0x13, 0xc0,
              0x0a, 0xc0, 0x14, 0xc0, 0x09, 0xc0, 0x13, 0x00, 0x9c, 0x00, 0x35, 0x00, 0x2f, 0x00, 0x0a,
              0x01, 0x00];
         ext = [0xff, 0x01, 0x00, 0x01, 0x00] @ ticket_pack_sni (ticket_host pick hst)
           @ [0x00, 0x17, 0x00, 0x00] @ ticket_pack_ticket r fill
           @ [0x00, 0x0d, 0x00, 0x16, 0x00, 0x14, 0x06, 0x01, 0x06, 0x03, 0x05, 0x01, 0x05, 0x03, 0x04,
              0x01, 0x04, 0x03, 0x03, 0x01, 0x03, 0x03, 0x02, 0x01, 0x02, 0x03, 0x00, 0x05, 0x00, 0x05,
              0x01, 0x00, 0x00, 0x00, 0x00, 0x00, 0x12, 0x00, 0x00, 0x75, 0x50, 0x00, 0x00, 0x00, 0x0b,
              0x00, 0x02, 0x01, 0x00, 0x00, 0x0a, 0x00, 0x06, 0x00, 0x04, 0x00, 0x17, 0x00, 0x18];
         d = d @ to_be 2 (length ext) @ ext
     in [0x16, 0x03, 0x01] @ to_be 2 (length d + 4) @ [0x01, 0x00] @ to_be 2 (length d) @ d)"

text \<open>\<open>rnd\<close> are 22 random bytes.\<close>

definition ticket_finish :: "(bytes \<Rightarrow> bytes \<Rightarrow> bytes) \<Rightarrow> bytes \<Rightarrow> bytes \<Rightarrow> bytes \<Rightarrow> bytes \<Rightarrow> bytes" where
  "ticket_finish hmac_sha1 rnd key client_id buffered =
    (let out = [0x14, 0x03, 0x03, 0x00, 0x01, 0x01, 0x16, 0x03, 0x03, 0x00, 0x20] @ rnd
     in out @ take 10 (ticket_hmac hmac_sha1 key client_id out) @ buffered)"

definition has_server_handshake :: "bytes \<Rightarrow> bool" where
  "has_server_handshake buffer \<longleftrightarrow> 11 + 32 + 1 + 32 \<le> length buffer"

definition verify_server_handshake :: "(bytes \<Rightarrow> bytes \<Rightarrow> bytes) \<Rightarrow> bytes \<Rightarrow> bytes \<Rightarrow> bytes \<Rightarrow> (io_error, unit) res" where
  "verify_server_handshake hmac_sha1 buffer key client_id =
    (if length buffer < 43 then Err InvalidData
     else rbind (slice_of buffer 11 33) (\<lambda>d. rbind (slice_of buffer 33 43) (\<lambda>tag.
       let first = ticket_hmac hmac_sha1 key client_id d;
           final_tag = ticket_hmac hmac_sha1 key client_id (take (length buffer - 10) buffer)
       in guard_or (take 10 first = tag \<and> take 10 final_tag = drop (length buffer - 10) buffer) InvalidData)))"

section \<open>The stream\<close>

record ticket =
  tk_host :: string
  tk_key :: bytes
  tk_client_id :: bytes
  tk_status :: nat
  tk_raw :: bytes
  tk_read_buffer :: bytes
  tk_send_buffer :: bytes
  tk_pending :: "pending_write option"
  tk_random :: "nat \<Rightarrow> u16"

definition new_ticket :: "string \<Rightarrow> bytes \<Rightarrow> bytes \<Rightarrow> (nat \<Rightarrow> u16) \<Rightarrow> ticket" where
  "new_ticket hst key client_id rnd = \<lparr>tk_host = hst, tk_key = key, tk_client_id = client_id, tk_status = 0,
     tk_raw = [], tk_read_buffer = [], tk_send_buffer = [], tk_pending = None, tk_random = rnd\<rparr>"

definition SSR_TLS_TICKET_MAX_PENDING_BYTES :: nat where
  "SSR_TLS_TICKET_MAX_PENDING_BYTES = 1024 * 1024"

definition queue_finish :: "(bytes \<Rightarrow> bytes \<Rightarrow> bytes \<Rightarrow> bytes) \<Rightarrow> ticket \<Rightarrow> ticket" where
  "queue_finish finish st =
    st\<lparr>tk_status := 8, tk_send_buffer := [],
       tk_pending := Some (new_pending (finish (tk_key st) (tk_client_id st) (tk_send_buffer st)) 0)\<rparr>"


text \<open>
  \<open>poll_write\<close>. Until the server has answered, the records are collected; the first write sends the
  client hello, and reports its own length.
\<close>

definition ticket_poll_write :: "(string \<Rightarrow> bytes \<Rightarrow> bytes \<Rightarrow> bytes) \<Rightarrow> bytes \<Rightarrow> ticket \<times> transport
    \<Rightarrow> nat poll \<times> ticket \<times> transport" where
  "ticket_poll_write hello buf = (\<lambda>(st, io).
    (let send = (\<lambda>st io. case flush_pending poll_write_io (tk_pending st) io of
         (Some r, pending, io) \<Rightarrow> (r, st\<lparr>tk_pending := pending\<rparr>, io)
       | (None, pending, io) \<Rightarrow> (Ready (length buf), st\<lparr>tk_pending := pending\<rparr>, io));
       start = (\<lambda>st io.
         if tk_status st = 8 then
           (case ticket_records True (tk_random st) buf of (packet, rnd) \<Rightarrow>
              send (st\<lparr>tk_pending := Some (new_pending packet (length buf)), tk_random := rnd\<rparr>) io)
         else if buf \<noteq> [] \<and> SSR_TLS_TICKET_MAX_PENDING_BYTES < length (tk_send_buffer st) + length buf then
           (Fault InvalidData, st, io)
         else
           let st = (if buf = [] then st else case ticket_records True (tk_random st) buf of (packet, rnd) \<Rightarrow>
             st\<lparr>tk_send_buffer := tk_send_buffer st @ packet, tk_random := rnd\<rparr>)
           in if tk_status st = 0 then
                send (st\<lparr>tk_status := 1, tk_pending :=
                  Some (new_pending (hello (tk_host st) (tk_key st) (tk_client_id st)) (length buf))\<rparr>) io
              else (Ready (length buf), st, io))
     in case flush_pending poll_write_io (tk_pending st) io of
          (None, pending, io) \<Rightarrow> start (st\<lparr>tk_pending := pending\<rparr>) io
        | (Some (Ready n), pending, io) \<Rightarrow>
            (if 0 < n then (Ready n, st\<lparr>tk_pending := pending\<rparr>, io) else start (st\<lparr>tk_pending := pending\<rparr>) io)
        | (Some r, pending, io) \<Rightarrow> (r, st\<lparr>tk_pending := pending\<rparr>, io)))"

text \<open>
  The loop of \<open>poll_read\<close>: decode what there is, or answer the handshake, then read more. The poll that
  answers the handshake returns \<open>Pending\<close> whatever the transport says.
\<close>

function ticket_read_loop :: "(bytes \<Rightarrow> bytes \<Rightarrow> bytes) \<Rightarrow> (bytes \<Rightarrow> bytes \<Rightarrow> bytes \<Rightarrow> bytes) \<Rightarrow> nat \<Rightarrow> ticket \<Rightarrow> transport
    \<Rightarrow> bytes poll \<times> ticket \<times> transport" where
  "ticket_read_loop hmac_sha1 finish room st io =
    (let go = (\<lambda>st. case poll_read_io 8192 io of
         (Pending, io') \<Rightarrow> (Pending, st, io')
       | (Fault e, io') \<Rightarrow> (Fault e, st, io')
       | (Ready bs, io') \<Rightarrow>
           (if bs = [] then (Ready [], st, io')
            else ticket_read_loop hmac_sha1 finish room (st\<lparr>tk_raw := tk_raw st @ bs\<rparr>) io'))
     in if tk_status st = 8 then
          (case ticket_drain_records False (tk_raw st) (tk_read_buffer st) of
             (Inl e, raw, buffer) \<Rightarrow> (Fault InvalidData, st\<lparr>tk_raw := raw, tk_read_buffer := buffer\<rparr>, io)
           | (Inr drained, raw, buffer) \<Rightarrow>
               (let st = st\<lparr>tk_raw := raw, tk_read_buffer := buffer\<rparr>
                in case (if drained then drain_buffer buffer room else None) of
                     Some (out, rest) \<Rightarrow> (Ready out, st\<lparr>tk_read_buffer := rest\<rparr>, io)
                   | None \<Rightarrow> go st))
        else if has_server_handshake (tk_raw st) then
          (case verify_server_handshake hmac_sha1 (tk_raw st) (tk_key st) (tk_client_id st) of
             Inl e \<Rightarrow> (Fault InvalidData, st, io)
           | Inr _ \<Rightarrow>
               (let st = queue_finish finish (st\<lparr>tk_raw := []\<rparr>)
                in case flush_pending poll_write_io (tk_pending st) io of
                     (Some (Fault e), pending, io) \<Rightarrow> (Fault e, st\<lparr>tk_pending := pending\<rparr>, io)
                   | (_, pending, io) \<Rightarrow> (Pending, st\<lparr>tk_pending := pending\<rparr>, io)))
        else go st)"
  by auto
termination
  by (relation "measure (\<lambda>(h, f, room, st, io). in_size (tr_in io))") (auto dest: poll_read_io_sizeI)

declare ticket_read_loop.simps [simp del]

definition ticket_poll_read :: "(bytes \<Rightarrow> bytes \<Rightarrow> bytes) \<Rightarrow> (bytes \<Rightarrow> bytes \<Rightarrow> bytes \<Rightarrow> bytes) \<Rightarrow> nat \<Rightarrow> ticket \<times> transport
    \<Rightarrow> bytes poll \<times> ticket \<times> transport" where
  "ticket_poll_read hmac_sha1 finish room = (\<lambda>(st, io).
    (let read = (\<lambda>st io. case drain_buffer (tk_read_buffer st) room of
         Some (out, rest) \<Rightarrow> (Ready out, st\<lparr>tk_read_buffer := rest\<rparr>, io)
       | None \<Rightarrow> ticket_read_loop hmac_sha1 finish room st io)
     in case flush_pending poll_write_io (tk_pending st) io of
          (Some Pending, pending, io) \<Rightarrow> (Pending, st\<lparr>tk_pending := pending\<rparr>, io)
        | (Some (Fault e), pending, io) \<Rightarrow> (Fault e, st\<lparr>tk_pending := pending\<rparr>, io)
        | (_, pending, io) \<Rightarrow> read (st\<lparr>tk_pending := pending\<rparr>) io))"

text \<open>\<open>poll_flush\<close>, before it flushes the transport.\<close>

definition ticket_poll_flush :: "ticket \<times> transport \<Rightarrow> unit poll \<times> ticket \<times> transport" where
  "ticket_poll_flush = (\<lambda>(st, io).
    (case flush_pending poll_write_io (tk_pending st) io of
       (Some Pending, pending, io) \<Rightarrow> (Pending, st\<lparr>tk_pending := pending\<rparr>, io)
     | (Some (Fault e), pending, io) \<Rightarrow> (Fault e, st\<lparr>tk_pending := pending\<rparr>, io)
     | (_, pending, io) \<Rightarrow> (Ready (), st\<lparr>tk_pending := pending\<rparr>, io)))"


section \<open>Decoding records\<close>

definition ticket_frame :: "bytes \<Rightarrow> (bytes \<times> bytes) option" where
  "ticket_frame raw =
    (if length raw < 5 \<or> take 3 raw \<noteq> [0x17, 0x03, 0x03] \<or> length raw < 5 + be16 (raw ! 3) (raw ! 4) then None
     else Some (take (be16 (raw ! 3) (raw ! 4)) (drop 5 raw), drop (5 + be16 (raw ! 3) (raw ! 4)) raw))"

lemma ticket_frame_shrinks: "ticket_frame b = Some (out, r) \<Longrightarrow> length r < length b"
  by (auto simp: ticket_frame_def split: if_splits)

function ticket_decode :: "bytes \<Rightarrow> bytes \<times> bytes" where
  "ticket_decode b = (case ticket_frame b of None \<Rightarrow> ([], b)
    | Some (out, r) \<Rightarrow> (case ticket_decode r of (outs, p) \<Rightarrow> (out @ outs, p)))"
  by auto
termination by (relation "measure length") (auto dest: ticket_frame_shrinks)

declare ticket_decode.simps [simp del]

interpretation ticket: frame_decoder ticket_frame ticket_decode
proof unfold_locales
  show "ticket_frame b = Some (out, r) \<Longrightarrow> length r < length b" for b out r by (rule ticket_frame_shrinks)
  show "ticket_frame b = Some (out, r) \<Longrightarrow> ticket_frame (b @ d) = Some (out, r @ d)" for b out r d
    by (auto simp: ticket_frame_def nth_append split: if_splits)
  show "ticket_decode b = (case ticket_frame b of None \<Rightarrow> ([], b)
      | Some (out, r) \<Rightarrow> (case ticket_decode r of (outs, p) \<Rightarrow> (out @ outs, p)))" for b
    by (rule ticket_decode.simps)
qed

text \<open>What the decoder leaves begins with something that is no record.\<close>

definition bad_record :: "bytes \<Rightarrow> bool" where
  "bad_record raw \<longleftrightarrow> 5 \<le> length raw \<and> take 3 raw \<noteq> [0x17, 0x03, 0x03]"

lemma bad_record_append: "bad_record raw \<Longrightarrow> bad_record (raw @ d)"
  by (auto simp: bad_record_def)

lemma bad_record_stuck: "bad_record raw \<Longrightarrow> ticket_frame raw = None"
  by (auto simp: bad_record_def ticket_frame_def)

lemma drain_records_decode:
  "\<not> bad_record (snd (ticket_decode raw)) \<Longrightarrow> ticket_drain_records drained raw out
    = (Ok (drained \<or> ticket_frame raw \<noteq> None), snd (ticket_decode raw), out @ fst (ticket_decode raw))"
proof (induction drained raw out rule: ticket_drain_records.induct)
  case (1 drained raw out)
  show ?case
  proof (cases "ticket_frame raw")
    case None
    then have "ticket_decode raw = ([], raw)" by (rule ticket.drain_stuck)
    then show ?thesis using None 1(2)
      by (auto simp: ticket_drain_records.simps [of drained raw] bad_record_def ticket_frame_def Let_def split: if_splits)
  next
    case (Some f)
    obtain d r where f: "f = (d, r)" by fastforce
    let ?n = "be16 (raw ! 3) (raw ! 4)"
    have raw: "\<not> length raw < 5" "\<not> take 3 raw \<noteq> [0x17, 0x03, 0x03]" "\<not> length raw < 5 + ?n"
      and d: "d = drop 5 (take (5 + ?n) raw)" "r = drop (5 + ?n) raw"
      using Some f by (auto simp: ticket_frame_def drop_take split: if_splits)
    have dec: "ticket_decode raw = (d @ fst (ticket_decode r), snd (ticket_decode r))"
      using Some f by (simp add: ticket_decode.simps [of raw] split: prod.splits)
    then have "ticket_drain_records True r (out @ d)
        = (Ok (True \<or> ticket_frame r \<noteq> None), snd (ticket_decode r), (out @ d) @ fst (ticket_decode r))"
      using 1(1) [OF raw(1,2) refl raw(3)] 1(2) by (simp add: d)
    then show ?thesis
      using raw d dec Some by (simp add: ticket_drain_records.simps [of drained raw] Let_def)
  qed
qed

lemma ticket_frame_pack:
  "length d \<le> 65535 \<Longrightarrow> ticket_frame (ticket_pack_record d @ r) = Some (d, r)"
  using be16_to_be [of "length d"] two_bytes [of "to_be 2 (length d)"]
  by (auto simp: ticket_frame_def ticket_pack_record_def nth_append numeral_3_eq_3 drop_plus)

lemma ticket_decode_Nil: "ticket_decode [] = ([], [])"
  by (simp add: ticket_decode.simps [of "[]"] ticket_frame_def)

lemma ticket_decode_pack:
  "length d \<le> 65535 \<Longrightarrow> ticket_decode (ticket_pack_record d @ r) = (d @ fst (ticket_decode r), snd (ticket_decode r))"
  by (simp add: ticket_decode.simps [of "ticket_pack_record d @ r"] ticket_frame_pack split: prod.splits)

lemma ticket_decode_records:
  "ticket_decode (fst (ticket_records b rnd d) @ r) = (d @ fst (ticket_decode r), snd (ticket_decode r))"
proof (induction b rnd d arbitrary: r rule: ticket_records.induct)
  case (1 b rnd d)
  show ?case
  proof (cases "2048 < length d")
    case False
    then show ?thesis by (auto simp: ticket_records.simps [of b rnd d] ticket_decode_pack)
  next
    case True
    let ?n = "min (if b then unat (rnd 0) mod 4096 + 100 else 2048) (length d)"
    obtain out rnd' where out: "ticket_records b (if b then rnd \<circ> Suc else rnd) (drop ?n d) = (out, rnd')" by fastforce
    have "fst (ticket_records b rnd d) = ticket_pack_record (take ?n d) @ out"
      using True out by (simp add: ticket_records.simps [of b rnd d] Let_def)
    moreover have "length (take ?n d) \<le> 65535" by auto
    ultimately show ?thesis using 1 [OF True refl, of r] out by (simp add: ticket_decode_pack)
  qed
qed

text \<open>The records of several writes.\<close>

fun ticket_wire :: "(nat \<Rightarrow> u16) \<Rightarrow> bytes list \<Rightarrow> bytes \<times> (nat \<Rightarrow> u16)" where
  "ticket_wire rnd [] = ([], rnd)"
| "ticket_wire rnd (b # bs) =
    (case ticket_records True rnd b of (d, rnd') \<Rightarrow> (case ticket_wire rnd' bs of (ds, rnd'') \<Rightarrow> (d @ ds, rnd'')))"

lemma ticket_decode_wire: "ticket_decode (fst (ticket_wire rnd bs) @ r) = (concat bs @ fst (ticket_decode r), snd (ticket_decode r))"
proof (induction bs arbitrary: rnd)
  case (Cons b bs)
  obtain d rnd' ds rnd'' where d: "ticket_records True rnd b = (d, rnd')" "ticket_wire rnd' bs = (ds, rnd'')" by fastforce
  then show ?case using Cons.IH [of rnd'] ticket_decode_records [of True rnd b "ds @ r"] by simp
qed simp


section \<open>Reading through the stream\<close>

definition ticket_rest :: "ticket \<Rightarrow> transport \<Rightarrow> bytes" where
  "ticket_rest st io = tk_raw st @ in_data (tr_in io)"

definition ticket_read_inv :: "bytes \<Rightarrow> bytes \<Rightarrow> ticket \<times> transport \<Rightarrow> bool" where
  "ticket_read_inv payload returned = (\<lambda>(st, io).
    tk_status st = 8 \<and> ticket_frame (tk_raw st) = None \<and> \<not> bad_record (snd (ticket_decode (ticket_rest st io)))
      \<and> returned @ tk_read_buffer st @ fst (ticket_decode (ticket_rest st io)) = payload)"

lemma bad_record_decode: "bad_record raw \<Longrightarrow> ticket_decode raw = ([], raw)"
  by (simp add: ticket.drain_stuck bad_record_stuck)

lemma ticket_decode_append:
  "fst (ticket_decode (raw @ d)) = fst (ticket_decode raw) @ fst (ticket_decode (snd (ticket_decode raw) @ d))"
  "snd (ticket_decode (raw @ d)) = snd (ticket_decode (snd (ticket_decode raw) @ d))"
  using ticket.drain_append [of raw d] by (simp_all split: prod.splits)

lemma not_bad_prefix:
  "\<not> bad_record (snd (ticket_decode (raw @ d))) \<Longrightarrow> \<not> bad_record (snd (ticket_decode raw))"
  using bad_record_append [of "snd (ticket_decode raw)" d] bad_record_decode [of "snd (ticket_decode raw) @ d"]
  by (auto simp: ticket_decode_append(2) [of raw d])

text \<open>One round of the loop behind the handshake.\<close>

definition ticket_decoded :: "ticket \<Rightarrow> ticket" where
  "ticket_decoded st = st\<lparr>tk_raw := snd (ticket_decode (tk_raw st)),
     tk_read_buffer := tk_read_buffer st @ fst (ticket_decode (tk_raw st))\<rparr>"

lemma ticket_loop_step:
  assumes "tk_status st = 8" "\<not> bad_record (snd (ticket_decode (tk_raw st)))"
  shows "ticket_read_loop hmac_sha1 finish room st io =
    (case if ticket_frame (tk_raw st) \<noteq> None then drain_buffer (tk_read_buffer (ticket_decoded st)) room else None of
       Some (out, rest) \<Rightarrow> (Ready out, (ticket_decoded st)\<lparr>tk_read_buffer := rest\<rparr>, io)
     | None \<Rightarrow> (case poll_read_io 8192 io of
         (Pending, io') \<Rightarrow> (Pending, ticket_decoded st, io')
       | (Fault e, io') \<Rightarrow> (Fault e, ticket_decoded st, io')
       | (Ready bs, io') \<Rightarrow>
           (if bs = [] then (Ready [], ticket_decoded st, io')
            else ticket_read_loop hmac_sha1 finish room
              ((ticket_decoded st)\<lparr>tk_raw := tk_raw (ticket_decoded st) @ bs\<rparr>) io')))"
  using assms
  by (cases "ticket_frame (tk_raw st)")
    (auto simp: ticket_read_loop.simps [of hmac_sha1 finish room st io] drain_records_decode ticket_decoded_def Let_def
      split: prod.splits option.splits poll.splits)

lemma ticket_decoded_simps [simp]:
  "tk_status (ticket_decoded st) = tk_status st"
  "tk_raw (ticket_decoded st) = snd (ticket_decode (tk_raw st))"
  "tk_read_buffer (ticket_decoded st) = tk_read_buffer st @ fst (ticket_decode (tk_raw st))"
  by (simp_all add: ticket_decoded_def)

lemma ticket_loop_reads:
  assumes "ticket_read_loop hmac_sha1 finish room st io = (r, st', io')" "tk_status st = 8"
    and "\<not> bad_record (snd (ticket_decode (ticket_rest st io)))"
  shows "ticket_read_inv (tk_read_buffer st @ fst (ticket_decode (ticket_rest st io))) (poll_data r) (st', io')"
  using assms
proof (induction "in_size (tr_in io)" arbitrary: st io rule: less_induct)
  case less
  note step = ticket_loop_step [OF less(3) not_bad_prefix [OF less(4) [unfolded ticket_rest_def]], of hmac_sha1 finish room io]
  have stuck: "ticket_frame (snd (ticket_decode (tk_raw st))) = None" by (rule ticket.drain_rest_stuck)
  have inv: "ticket_read_inv (tk_read_buffer st @ fst (ticket_decode (ticket_rest st io))) [] (ticket_decoded st, io)"
    using less(3,4) stuck
    by (simp add: ticket_read_inv_def ticket_rest_def ticket_decode_append [of "tk_raw st" "in_data (tr_in io)"])
  obtain x io1 where x: "poll_read_io 8192 io = (x, io1)" by fastforce
  have data: "in_data (tr_in io) = poll_data x @ in_data (tr_in io1)" using poll_read_io_keeps [OF x] by simp
  show ?case
  proof (cases "if ticket_frame (tk_raw st) \<noteq> None then drain_buffer (tk_read_buffer (ticket_decoded st)) room else None")
    case (Some y)
    obtain out more where y: "y = (out, more)" by fastforce
    then have "tk_read_buffer (ticket_decoded st) = out @ more"
      using drain_buffer_Some [of _ room out more] Some by (auto split: if_splits)
    then show ?thesis using less(2) step Some y inv by (auto simp: ticket_read_inv_def ticket_rest_def)
  next
    case None
    show ?thesis
    proof (cases "\<exists>bs. x = Ready bs \<and> bs \<noteq> []")
      case True
      then obtain bs where bs: "x = Ready bs" "bs \<noteq> []" by blast
      let ?st = "(ticket_decoded st)\<lparr>tk_raw := tk_raw (ticket_decoded st) @ bs\<rparr>"
      have rest: "ticket_rest ?st io1 = ticket_rest (ticket_decoded st) io" using data bs by (simp add: ticket_rest_def)
      have "ticket_read_loop hmac_sha1 finish room ?st io1 = (r, st', io')"
        using less(2) None x bs unfolding step by simp
      then have "ticket_read_inv (tk_read_buffer ?st @ fst (ticket_decode (ticket_rest ?st io1))) (poll_data r) (st', io')"
        using less(1) [OF poll_read_io_size [OF _ bs(2)], of 8192 io1 ?st] x bs less(3) inv
        unfolding rest ticket_read_inv_def by simp
      moreover have "tk_read_buffer ?st @ fst (ticket_decode (ticket_rest ?st io1))
          = tk_read_buffer st @ fst (ticket_decode (ticket_rest st io))"
        using inv unfolding rest by (simp add: ticket_read_inv_def)
      ultimately show ?thesis by simp
    next
      case False
      then have "poll_data x = []" by (cases x) auto
      then have "ticket_read_inv payload [] (ticket_decoded st, io1) = ticket_read_inv payload [] (ticket_decoded st, io)" for payload
        using data by (simp add: ticket_read_inv_def ticket_rest_def)
      then show ?thesis using less(2) step None x False inv by (cases x) auto
    qed
  qed
qed


lemma poll_write_all_in: "poll_write_all poll_write_io p io = (r, p', io') \<Longrightarrow> tr_in io' = tr_in io"
proof (induction poll_write_io p io arbitrary: r rule: poll_write_all.induct)
  case (1 p io)
  obtain x io1 where x: "poll_write_io (drop (pw_offset p) (pw_data p)) io = (x, io1)" by fastforce
  have "tr_in io1 = tr_in io"
    using x by (auto simp: poll_write_io_def split: list.splits write_event.splits)
  then show ?case
    using 1(2) 1(1) [OF _ x [symmetric]] x
    by (cases x) (auto simp: poll_write_all.simps [of poll_write_io p] split: if_splits)
qed

lemma flush_pending_in: "flush_pending poll_write_io pending io = (r, pending', io') \<Longrightarrow> tr_in io' = tr_in io"
  by (auto simp: flush_pending_def split: option.splits prod.splits poll.splits dest: poll_write_all_in)

lemma ticket_poll_reads:
  assumes "ticket_read_inv payload returned s" "ticket_poll_read hmac_sha1 finish room s = (r, s')"
  shows "ticket_read_inv payload (returned @ poll_data r) s'"
proof -
  obtain st io st' io' where s: "s = (st, io)" "s' = (st', io')" by fastforce
  obtain x pending io1 where x: "flush_pending poll_write_io (tk_pending st) io = (x, pending, io1)" by (metis prod_cases3)
  let ?st = "st\<lparr>tk_pending := pending\<rparr>"
  have inv: "ticket_read_inv payload returned (?st, io1)"
    using assms(1) flush_pending_in [OF x] by (simp add: s ticket_read_inv_def ticket_rest_def)
  consider "x = Some Pending \<or> (\<exists>e. x = Some (Fault e))"
    | out rest where "x = None \<or> (\<exists>n. x = Some (Ready n))" "drain_buffer (tk_read_buffer ?st) room = Some (out, rest)"
    | "x = None \<or> (\<exists>n. x = Some (Ready n))" "drain_buffer (tk_read_buffer ?st) room = None"
    by (metis not_None_eq poll.exhaust surj_pair)
  then show ?thesis
  proof cases
    case 1
    then show ?thesis using assms(2) x inv by (auto simp: ticket_poll_read_def s)
  next
    case 2
    then show ?thesis using assms(2) x inv drain_buffer_Some [OF 2(2)]
      by (auto simp: ticket_poll_read_def s ticket_read_inv_def ticket_rest_def Let_def)
  next
    case 3
    then have "ticket_read_loop hmac_sha1 finish room ?st io1 = (r, st', io')"
      using assms(2) x by (auto simp: ticket_poll_read_def s Let_def)
    from ticket_loop_reads [OF this] inv s show ?thesis by (simp add: ticket_read_inv_def)
  qed
qed

lemma ticket_read_polls:
  "ticket_read_inv payload returned s \<Longrightarrow> read_polls (ticket_poll_read hmac_sha1 finish) rooms s = (xs, s') \<Longrightarrow>
    ticket_read_inv payload (returned @ got xs) s'"
proof (induction rooms arbitrary: s xs returned)
  case (Cons room rooms)
  obtain r s1 where r: "ticket_poll_read hmac_sha1 finish room s = (r, s1)" by (cases "ticket_poll_read hmac_sha1 finish room s")
  obtain ys where ys: "read_polls (ticket_poll_read hmac_sha1 finish) rooms s1 = (ys, s')" "xs = r # ys"
    using Cons.prems(2) r by (auto split: prod.splits)
  from Cons.IH [OF ticket_poll_reads [OF Cons.prems(1) r] ys(1)] ys(2) show ?case by simp
qed simp

section \<open>Writing through the stream\<close>

definition ticket_wrap :: "ticket \<Rightarrow> pending_write option \<Rightarrow> transport \<Rightarrow> ticket \<times> transport" where
  "ticket_wrap st pending io = (st\<lparr>tk_pending := pending\<rparr>, io)"

interpretation ticket_writer: pending_writer "ticket_poll_write hello" "ticket_wrap st"
  by unfold_locales
    (auto simp: ticket_poll_write_def ticket_wrap_def settle_def flush_pending_def Let_def
      split: prod.splits poll.splits dest!: poll_write_all_len)

definition ticket_sent :: "ticket \<Rightarrow> bytes \<Rightarrow> bytes \<times> ticket" where
  "ticket_sent st buf = (case ticket_records True (tk_random st) buf of (packet, rnd) \<Rightarrow> (packet, st\<lparr>tk_random := rnd\<rparr>))"

lemma ticket_one_write:
  assumes "tk_status st = 8" "tk_pending st = None" "buf \<noteq> []" "ticket_sent st buf = (packet, st')" "has_room fuel io packet"
  shows "\<exists>io'. write_all fuel (ticket_poll_write hello) buf (st, io) = Some (ticket_wrap st' None io') \<and> sends io packet io'"
  using assms
  by (intro ticket_writer.write_packet)
    (auto simp: ticket_poll_write_def ticket_sent_def ticket_wrap_def settle_def flush_pending_def Let_def
      split: prod.splits poll.splits)

text \<open>A write behind a finish message that is not on the wire yet.\<close>

lemma ticket_write_behind:
  assumes "tk_status st = 8" "tk_pending st = Some p" "pw_original_len p = 0" "pw_offset p \<le> length (pw_data p)"
    and "buf \<noteq> []" "ticket_sent st buf = (packet, st')" "has_room fuel io (drop (pw_offset p) (pw_data p) @ packet)"
  shows "\<exists>io'. write_all fuel (ticket_poll_write hello) buf (st, io) = Some (ticket_wrap st' None io')
    \<and> sends io (drop (pw_offset p) (pw_data p) @ packet) io'"
  using assms
proof (induction fuel arbitrary: p st st' io)
  case 0
  then show ?case by (simp add: has_room_def)
next
  case (Suc fuel)
  obtain r p1 io1 where r: "poll_write_all poll_write_io p io = (r, p1, io1)" by (metis prod_cases3)
  have lively: "lively (tr_out io)" using Suc.prems(7) by (simp add: has_room_def)
  note sent = poll_write_all_sent [OF r Suc.prems(4)] and live = poll_write_all_lively [OF r lively]
  obtain d where d: "drop (pw_offset p) (pw_data p) = d @ drop (pw_offset p1) (pw_data p1)" "sends io d io1"
    using poll_write_all_sends [OF r Suc.prems(4) lively] by blast
  have room: "has_room (Suc fuel) io1 (drop (pw_offset p1) (pw_data p1) @ packet)"
    using has_room_next [of "Suc fuel" io d] Suc.prems(7) d by simp
  obtain b bs where b: "buf = b # bs" using Suc.prems(5) by (cases buf) auto
  show ?case
  proof (cases r)
    case Pending
    have "tr_out io \<noteq> []"
    proof
      assume "tr_out io = []"
      then have "\<not> pw_offset p < length (pw_data p)" using Suc.prems(7) by (simp add: has_room_def)
      then show False using r Pending by (simp add: poll_write_all.simps [of poll_write_io p])
    qed
    then have "has_room fuel io1 (drop (pw_offset p1) (pw_data p1) @ packet)"
      using room live Pending Suc.prems(7) by (auto simp: has_room_def)
    moreover have "ticket_sent (st\<lparr>tk_pending := Some p1\<rparr>) buf = (packet, st'\<lparr>tk_pending := Some p1\<rparr>)"
      using Suc.prems(6) by (auto simp: ticket_sent_def split: prod.splits)
    ultimately obtain io' where "write_all fuel (ticket_poll_write hello) buf (st\<lparr>tk_pending := Some p1\<rparr>, io1)
        = Some (ticket_wrap (st'\<lparr>tk_pending := Some p1\<rparr>) None io')" "sends io1 (drop (pw_offset p1) (pw_data p1) @ packet) io'"
      using Suc.IH [of "st\<lparr>tk_pending := Some p1\<rparr>" p1 "st'\<lparr>tk_pending := Some p1\<rparr>" io1] Suc.prems sent by auto
    moreover have "ticket_poll_write hello buf (st, io) = (Pending, st\<lparr>tk_pending := Some p1\<rparr>, io1)"
      using r Pending Suc.prems(2) by (simp add: ticket_poll_write_def flush_pending_def Let_def)
    ultimately show ?thesis using b d sends_trans [OF d(2)] by (auto simp: ticket_wrap_def)
  next
    case (Fault e)
    then show ?thesis using live by blast
  next
    case (Ready n)
    then have n: "n = 0" "drop (pw_offset p1) (pw_data p1) = []" using sent Suc.prems(3) by auto
    have "ticket_poll_write hello buf (st, io)
        = settle (ticket_wrap st') (poll_write_all poll_write_io (new_pending packet (length buf)) io1)"
      using r Ready n(1) Suc.prems(1,2,6)
      by (auto simp: ticket_poll_write_def ticket_sent_def ticket_wrap_def settle_def flush_pending_def Let_def
          split: prod.splits poll.splits)
    from ticket_writer.write_packet [OF this Suc.prems(5), of "Suc fuel"] room n(2) d sends_trans [OF d(2)]
    show ?thesis by auto
  qed
qed

text \<open>Later writes.\<close>

lemma ticket_later_writes:
  assumes "tk_status st = 8" "tk_pending st = None" "[] \<notin> set bufs" "has_room fuel io (fst (ticket_wire (tk_random st) bufs))"
  shows "\<exists>st' io'. write_each fuel (ticket_poll_write hello) bufs (st, io) = Some (st', io')
    \<and> sends io (fst (ticket_wire (tk_random st) bufs)) io'"
  using assms
proof (induction bufs arbitrary: st io)
  case Nil
  then show ?case using sends_nothing by auto
next
  case (Cons buf bufs)
  obtain packet rnd where p: "ticket_records True (tk_random st) buf = (packet, rnd)" by fastforce
  let ?st = "st\<lparr>tk_random := rnd\<rparr>"
  have wire: "fst (ticket_wire (tk_random st) (buf # bufs)) = packet @ fst (ticket_wire rnd bufs)"
    using p by (simp split: prod.splits)
  have room: "has_room fuel io (packet @ fst (ticket_wire rnd bufs))" using Cons.prems(4) unfolding wire .
  have "ticket_sent st buf = (packet, ?st)" by (simp add: ticket_sent_def p)
  then obtain io1 where io1: "write_all fuel (ticket_poll_write hello) buf (st, io) = Some (ticket_wrap ?st None io1)"
    "sends io packet io1"
    using ticket_one_write [of st buf packet ?st fuel io hello] Cons.prems has_room_first [OF room] by auto
  from Cons.IH [of "?st\<lparr>tk_pending := None\<rparr>" io1] Cons.prems io1 has_room_next [OF room io1(2)] wire sends_trans [OF io1(2)]
  show ?case by (auto simp: ticket_wrap_def)
qed


section \<open>Writing across the handshake\<close>

lemma length_records: "length d \<le> length (fst (ticket_records b rnd d))"
proof (induction b rnd d rule: ticket_records.induct)
  case (1 b rnd d)
  then show ?case
    by (cases "2048 < length d")
      (auto simp: ticket_records.simps [of b rnd d] ticket_pack_record_def Let_def split: prod.splits)
qed

lemma ticket_first_write:
  assumes "tk_status st = 0" "tk_pending st = None" "buf \<noteq> []" "ticket_records True (tk_random st) buf = (packet, rnd)"
    and "length (tk_send_buffer st) + length buf \<le> SSR_TLS_TICKET_MAX_PENDING_BYTES"
    and "has_room fuel io (hello (tk_host st) (tk_key st) (tk_client_id st))"
  shows "\<exists>io'. write_all fuel (ticket_poll_write hello) buf (st, io)
      = Some (ticket_wrap (st\<lparr>tk_status := 1, tk_send_buffer := tk_send_buffer st @ packet, tk_random := rnd\<rparr>) None io')
    \<and> sends io (hello (tk_host st) (tk_key st) (tk_client_id st)) io'"
  using assms
  by (intro ticket_writer.write_packet)
    (auto simp: ticket_poll_write_def ticket_wrap_def settle_def flush_pending_def Let_def
      split: prod.splits poll.splits)

lemma ticket_early_writes:
  assumes "tk_status st = 1" "tk_pending st = None" "[] \<notin> set bufs" "0 < fuel"
    and "length (tk_send_buffer st) + length (fst (ticket_wire (tk_random st) bufs)) \<le> SSR_TLS_TICKET_MAX_PENDING_BYTES"
  shows "write_each fuel (ticket_poll_write hello) bufs (st, io)
    = Some (st\<lparr>tk_send_buffer := tk_send_buffer st @ fst (ticket_wire (tk_random st) bufs),
          tk_random := snd (ticket_wire (tk_random st) bufs)\<rparr>, io)"
  using assms
proof (induction bufs arbitrary: st)
  case (Cons buf bufs)
  obtain packet rnd where p: "ticket_records True (tk_random st) buf = (packet, rnd)" by fastforce
  obtain d rnd' where d: "ticket_wire rnd bufs = (d, rnd')" by fastforce
  let ?st = "st\<lparr>tk_send_buffer := tk_send_buffer st @ packet, tk_random := rnd\<rparr>"
  obtain b bs where b: "buf = b # bs" using Cons.prems(3) by (cases buf) auto
  obtain k where k: "fuel = Suc k" using Cons.prems(4) by (cases fuel) auto
  have "length buf \<le> length packet" using length_records [of buf True "tk_random st"] p by simp
  then have "ticket_poll_write hello buf (st, io) = (Ready (length buf), ?st, io)"
    using Cons.prems p d b by (auto simp: ticket_poll_write_def flush_pending_def Let_def)
  then have "write_all fuel (ticket_poll_write hello) buf (st, io) = Some (?st, io)" using b k by simp
  then show ?case using Cons.IH [of ?st] Cons.prems p d by simp
qed simp

text \<open>The poll that answers the handshake: the finish message is on its way.\<close>

lemma ticket_answers:
  assumes "tk_status st = 1" "tk_pending st = None" "tk_raw st = []" "tk_read_buffer st = []"
    and "tr_in io = ReadData sh # es" "has_server_handshake sh" "length sh \<le> 8192"
    and "verify_server_handshake hmac_sha1 sh (tk_key st) (tk_client_id st) = Ok ()"
    and "m = finish (tk_key st) (tk_client_id st) (tk_send_buffer st)" "lively (tr_out io)"
  shows "\<exists>st' io' d. ticket_poll_read hmac_sha1 finish room (st, io) = (Pending, st', io') \<and> sends (io\<lparr>tr_in := es\<rparr>) d io'
    \<and> tk_status st' = 8 \<and> tk_random st' = tk_random st
    \<and> (tk_pending st' = None \<and> m = d
      \<or> (\<exists>p. tk_pending st' = Some p \<and> pw_original_len p = 0 \<and> pw_offset p \<le> length (pw_data p)
          \<and> m = d @ drop (pw_offset p) (pw_data p)))"
proof -
  let ?io = "io\<lparr>tr_in := es\<rparr>" and ?p = "new_pending m 0"
  obtain r p1 io1 where r: "poll_write_all poll_write_io ?p ?io = (r, p1, io1)" by (metis prod_cases3)
  obtain d where d: "m = d @ drop (pw_offset p1) (pw_data p1)" "sends ?io d io1"
    using poll_write_all_sends [OF r] assms(10) by auto
  have sent: "pw_original_len p1 = 0" "pw_offset p1 \<le> length (pw_data p1)"
    "\<And>n. r = Ready n \<Longrightarrow> pw_offset p1 = length (pw_data p1)" "\<And>e. r \<noteq> Fault e"
    using poll_write_all_sent [OF r] poll_write_all_lively [OF r] assms(10) by auto
  have same: "st\<lparr>tk_pending := None\<rparr> = st" using assms(2) by (cases st) simp
  have "sh \<noteq> []" using assms(6) by (auto simp: has_server_handshake_def)
  then have read: "poll_read_io 8192 io = (Ready sh, ?io)" using assms(5,7) by (simp add: poll_read_io_def)
  let ?st = "queue_finish finish (st\<lparr>tk_raw := []\<rparr>)"
  have "ticket_read_loop hmac_sha1 finish room (st\<lparr>tk_raw := sh\<rparr>) ?io
      = (Pending, ?st\<lparr>tk_pending := (case r of Pending \<Rightarrow> Some p1 | _ \<Rightarrow> None)\<rparr>, io1)"
    using assms(1,6,8,9) r sent(4)
    by (cases r) (auto simp: ticket_read_loop.simps [of hmac_sha1 finish room "st\<lparr>tk_raw := sh\<rparr>"] queue_finish_def
        flush_pending_def Let_def)
  moreover have "ticket_read_loop hmac_sha1 finish room st io = ticket_read_loop hmac_sha1 finish room (st\<lparr>tk_raw := sh\<rparr>) ?io"
    using assms(1,3) read \<open>sh \<noteq> []\<close>
    by (simp add: ticket_read_loop.simps [of hmac_sha1 finish room st] has_server_handshake_def Let_def)
  ultimately have "ticket_poll_read hmac_sha1 finish room (st, io)
      = (Pending, ?st\<lparr>tk_pending := (case r of Pending \<Rightarrow> Some p1 | _ \<Rightarrow> None)\<rparr>, io1)"
    using assms(4) unfolding ticket_poll_read_def
    by (simp add: flush_pending_def drain_buffer_def same assms(2) Let_def)
  then show ?thesis using d sent by (cases r) (fastforce simp: queue_finish_def)+
qed


text \<open>Writes behind the answer, whether or not the finish message is out.\<close>

lemma ticket_writes_after:
  assumes "tk_status st = 8" "[] \<notin> set (c # cs)" "has_room fuel io (rest @ fst (ticket_wire (tk_random st) (c # cs)))"
    and "tk_pending st = None \<and> rest = [] \<or> (\<exists>q. tk_pending st = Some q \<and> pw_original_len q = 0
        \<and> pw_offset q \<le> length (pw_data q) \<and> rest = drop (pw_offset q) (pw_data q))"
  shows "\<exists>st' io'. write_each fuel (ticket_poll_write hello) (c # cs) (st, io) = Some (st', io')
    \<and> sends io (rest @ fst (ticket_wire (tk_random st) (c # cs))) io'"
proof -
  obtain packet rnd where p: "ticket_records True (tk_random st) c = (packet, rnd)" by fastforce
  let ?st = "st\<lparr>tk_random := rnd\<rparr>"
  have wire: "fst (ticket_wire (tk_random st) (c # cs)) = packet @ fst (ticket_wire rnd cs)"
    using p by (simp split: prod.splits)
  have room: "has_room fuel io ((rest @ packet) @ fst (ticket_wire rnd cs))" using assms(3) unfolding wire by simp
  have sent: "ticket_sent st c = (packet, ?st)" by (simp add: ticket_sent_def p)
  have "c \<noteq> []" using assms(2) by auto
  then obtain io1 where io1: "write_all fuel (ticket_poll_write hello) c (st, io) = Some (ticket_wrap ?st None io1)"
    "sends io (rest @ packet) io1"
    using assms(1,4) ticket_one_write [of st c packet ?st fuel io hello, OF _ _ _ sent]
      ticket_write_behind [of st _ c packet ?st fuel io hello, OF _ _ _ _ _ sent] has_room_first [OF room] by auto
  from ticket_later_writes [of "?st\<lparr>tk_pending := None\<rparr>" cs fuel io1 hello] assms io1 has_room_next [OF room io1(2)]
    wire sends_trans [OF io1(2)]
  show ?thesis by (auto simp: ticket_wrap_def)
qed

lemma ticket_answer_then_writes:
  assumes "tk_status st = 8" "tk_pending st = None \<and> m = e \<or> (\<exists>q. tk_pending st = Some q \<and> pw_original_len q = 0
        \<and> pw_offset q \<le> length (pw_data q) \<and> m = e @ drop (pw_offset q) (pw_data q))"
    and "sends (io1\<lparr>tr_in := es\<rparr>) e io" "[] \<notin> set (c # cs)"
    and "has_room fuel io1 (m @ fst (ticket_wire (tk_random st) (c # cs)))"
  shows "\<exists>st' io'. write_each fuel (ticket_poll_write hello) (c # cs) (st, io) = Some (st', io')
    \<and> tr_sent io' = tr_sent io1 @ m @ fst (ticket_wire (tk_random st) (c # cs))"
proof -
  obtain rest where rest: "m = e @ rest" "tk_pending st = None \<and> rest = [] \<or> (\<exists>q. tk_pending st = Some q \<and> pw_original_len q = 0
        \<and> pw_offset q \<le> length (pw_data q) \<and> rest = drop (pw_offset q) (pw_data q))"
    using assms(2) by fastforce
  have "has_room fuel (io1\<lparr>tr_in := es\<rparr>) (e @ rest @ fst (ticket_wire (tk_random st) (c # cs)))"
    using assms(5) rest(1) by (simp add: has_room_def)
  from has_room_next [OF this assms(3)] ticket_writes_after [OF assms(1,4) _ rest(2)] assms(3) rest(1)
  show ?thesis by (fastforce simp: sends_def)
qed

section \<open>Properties\<close>




text \<open>
  What is read through the TLS ticket stream is what the server's records carry. Behind the
  handshake, for every way the records arrive (in any pieces, with any gaps) and for any sizes of the
  caller's buffers: what the polls have returned, followed by what the stream still holds and what the
  input still carries, is the payload; when the input has all been read, nothing is missing.
\<close>

theorem ticket_stream_reads:
  assumes "tk_status st = 8" "tk_raw st = []" "tk_read_buffer st = []"
    and "in_data (tr_in io) = fst (ticket_records random_chunks rnd payload)"
    and "read_polls (ticket_poll_read hmac_sha1 finish) rooms (st, io) = (xs, st', io')"
  shows "got xs @ tk_read_buffer st' @ fst (ticket_decode (tk_raw st' @ in_data (tr_in io'))) = payload
    \<and> (in_data (tr_in io') = [] \<longrightarrow> got xs @ tk_read_buffer st' = payload)"
proof -
  have "ticket_decode (ticket_rest st io) = (payload, [])"
    using ticket_decode_records [of random_chunks rnd payload "[]"] assms(2,4) by (simp add: ticket_rest_def ticket_decode_Nil)
  then have "ticket_read_inv payload [] (st, io)"
    using assms(1-3) by (simp add: ticket_read_inv_def bad_record_def ticket_frame_def)
  from ticket_read_polls [OF this assms(5)]
  have inv: "ticket_frame (tk_raw st') = None" "got xs @ tk_read_buffer st' @ fst (ticket_decode (tk_raw st' @ in_data (tr_in io'))) = payload"
    by (simp_all add: ticket_read_inv_def ticket_rest_def)
  then show ?thesis using ticket.drain_stuck [OF inv(1)] by auto
qed

theorem ticket_stream_reads_witness:
  "got (fst (read_polls (ticket_poll_read (\<lambda>k d. []) (\<lambda>k c b. [])) [1, 9, 9, 9]
      ((new_ticket ''a'' [] [] (\<lambda>_. 0))\<lparr>tk_status := 8\<rparr>,
       slow_transport [ReadData [23, 3, 3, 0], ReadBlock, ReadData [2, 1], ReadBlock, ReadData [2]]))) = [1, 2]"
proof -
  let ?st = "(new_ticket ''a'' [] [] (\<lambda>_. 0))\<lparr>tk_status := 8\<rparr>"
  let ?io = "slow_transport [ReadData [23, 3, 3, 0], ReadBlock, ReadData [2, 1], ReadBlock, ReadData [2]]"
  let ?r = "read_polls (ticket_poll_read (\<lambda>k d. []) (\<lambda>k c b. [])) [1, 9, 9, 9] (?st, ?io)"
  obtain xs st' io' where x: "?r = (xs, st', io')" by (metis prod_cases3)
  have e: "tk_read_buffer (fst (snd ?r)) = []" "in_data (tr_in (snd (snd ?r))) = []" by code_simp+
  have records: "in_data (tr_in ?io) = fst (ticket_records False (\<lambda>_. 0) [1, 2])"
    by (simp add: slow_transport_def ticket_records.simps [of False "\<lambda>_. 0" "[1, 2]"] ticket_pack_record_def to_be_def numeral_2_eq_2)
  from ticket_stream_reads [OF _ _ _ records x] e x show ?thesis by (simp add: new_ticket_def)
qed

text \<open>
  A read between the polls of a write repeats the write. When the transport blocks in the middle
  of a write, a read of the same stream may finish it and drop the fact; the writer, which was told to
  try again, then sends the same bytes once more.
\<close>

theorem ticket_read_repeats_write:
  assumes "tk_status st = 8" "tk_pending st = None" "tk_raw st = []" "tk_read_buffer st = []" "buf \<noteq> []"
    and "ticket_wire (tk_random st) [buf, buf] = (twice, rnd)"
    and "tr_out io = [WriteBlock, WriteAccept n, WriteAccept n]" "length twice \<le> n" "tr_in io = []"
  shows "\<exists>st1 io1 st2 io2 st3 io3. ticket_poll_write hello buf (st, io) = (Pending, st1, io1)
    \<and> ticket_poll_read hmac finish room (st1, io1) = (Pending, st2, io2)
    \<and> ticket_poll_write hello buf (st2, io2) = (Ready (length buf), st3, io3)
    \<and> tr_sent io3 = tr_sent io @ twice \<and> ticket_decode twice = (buf @ buf, [])"
proof -
  obtain p1 rnd1 where p1: "ticket_records True (tk_random st) buf = (p1, rnd1)" by fastforce
  obtain p2 rnd2 where p2: "ticket_records True rnd1 buf = (p2, rnd2)" by fastforce
  have twice: "twice = p1 @ p2" using assms(6) p1 p2 by simp
  have "length buf \<le> length p1" "length buf \<le> length p2"
    using length_records [of buf True "tk_random st"] length_records [of buf True rnd1] p1 p2 by simp_all
  then have ne: "p1 \<noteq> []" "p2 \<noteq> []" "length p1 \<le> n" "length p2 \<le> n" using assms(5,8) twice by auto
  let ?st1 = "st\<lparr>tk_pending := Some (new_pending p1 (length buf)), tk_random := rnd1\<rparr>"
  let ?io1 = "io\<lparr>tr_out := [WriteAccept n, WriteAccept n]\<rparr>"
  let ?st2 = "st\<lparr>tk_pending := None, tk_random := rnd1\<rparr>"
  let ?io2 = "io\<lparr>tr_out := [WriteAccept n], tr_sent := tr_sent io @ p1\<rparr>"
  have send: "poll_write_all poll_write_io (new_pending d k) x
      = (Ready k, (new_pending d k)\<lparr>pw_offset := length d\<rparr>, x\<lparr>tr_out := es, tr_sent := tr_sent x @ d\<rparr>)"
    if "d \<noteq> []" "length d \<le> n" "tr_out x = WriteAccept n # es" for d k x es
    using that by (simp add: poll_write_all.simps [of poll_write_io "new_pending d k"] poll_write_io_def
        poll_write_all.simps [of poll_write_io "_\<lparr>pw_offset := _\<rparr>"])
  have w1: "ticket_poll_write hello buf (st, io) = (Pending, ?st1, ?io1)"
    using assms(1,2,7) p1 ne
    by (simp add: ticket_poll_write_def flush_pending_def poll_write_all.simps [of poll_write_io "new_pending _ _"] poll_write_io_def Let_def)
  have r: "ticket_poll_read hmac finish room (?st1, ?io1) = (Pending, ?st2, ?io2)"
    using assms(1,3,4,9) send [of p1 ?io1 "[WriteAccept n]" "length buf"] ne
      ticket_loop_step [of ?st2 hmac finish room ?io2] ticket_decode_Nil
    by (cases st) (simp add: ticket_poll_read_def flush_pending_def drain_buffer_def ticket_decoded_def ticket_frame_def
        bad_record_def poll_read_io_def Let_def)
  have w2: "ticket_poll_write hello buf (?st2, ?io2)
      = (Ready (length buf), st\<lparr>tk_pending := None, tk_random := rnd2\<rparr>, io\<lparr>tr_out := [], tr_sent := tr_sent io @ p1 @ p2\<rparr>)"
    using assms(1) send [of p2 ?io2 "[]" "length buf"] ne p2
    by (simp add: ticket_poll_write_def flush_pending_def Let_def)
  have "ticket_decode twice = (buf @ buf, [])"
    using ticket_decode_wire [of "tk_random st" "[buf, buf]" "[]"] assms(6) by (simp add: ticket_decode_Nil)
  then show ?thesis using w1 r w2 twice by auto
qed

theorem ticket_read_repeats_write_witness:
  "\<exists>st1 io1 st2 io2 st3 io3.
      ticket_poll_write (\<lambda>h k c. []) [7] ((new_ticket ''a'' [] [] (\<lambda>_. 0))\<lparr>tk_status := 8\<rparr>,
        \<lparr>tr_in = [], tr_out = [WriteBlock, WriteAccept 20, WriteAccept 20], tr_sent = []\<rparr>) = (Pending, st1, io1)
    \<and> ticket_poll_read (\<lambda>k d. []) (\<lambda>k c b. []) 9 (st1, io1) = (Pending, st2, io2)
    \<and> ticket_poll_write (\<lambda>h k c. []) [7] (st2, io2) = (Ready 1, st3, io3)
    \<and> tr_sent io3 = [23, 3, 3, 0, 1, 7, 23, 3, 3, 0, 1, 7]"
proof -
  have records: "ticket_records True (\<lambda>_. 0) [x] = ([23, 3, 3, 0, 1, x], \<lambda>_. 0)" for x
    by (simp add: ticket_records.simps [of True "\<lambda>_. 0" "[x]"] ticket_pack_record_def to_be_def numeral_2_eq_2)
  show ?thesis
    using ticket_read_repeats_write [of "(new_ticket ''a'' [] [] (\<lambda>_. 0))\<lparr>tk_status := 8\<rparr>" "[7]" _ _
        "\<lparr>tr_in = [], tr_out = [WriteBlock, WriteAccept 20, WriteAccept 20], tr_sent = []\<rparr>" 20
        "\<lambda>h k c. []" "\<lambda>k d. []" "\<lambda>k c b. []" 9]
    by (fastforce simp: new_ticket_def records)
qed

end
