(* ===== verification/Ss_Legacy.thy ===== *)
theory Ss_Legacy
  imports Poll_Io Ss_Config
begin

text \<open>
  The stream ciphers that the Shadowsocks adapter runs by itself (\<open>adapter/shadowsocks/legacy.rs\<close>) and
  the client stream on top of an encrypted one (\<open>client.rs\<close>). SEED in CFB mode is written out in the
  source and is modelled here over its block cipher; the other ciphers come from packages and are the
  functions of a library record: making a cipher from a key and an IV, and running it over some
  bytes, which gives its next state.
\<close>

section \<open>SEED in CFB mode\<close>

text \<open>\<open>sc_block\<close> is the block cipher with its key.\<close>

record seed_cfb =
  sc_block :: "bytes \<Rightarrow> bytes"
  sc_encrypt :: bool
  sc_feedback :: bytes
  sc_keystream :: bytes
  sc_pos :: nat

definition seed_cfb_new :: "(bytes \<Rightarrow> (bytes \<Rightarrow> bytes) option) \<Rightarrow> bytes \<Rightarrow> bytes \<Rightarrow> bool \<Rightarrow> seed_cfb option" where
  "seed_cfb_new seed key iv encrypt =
    (if length iv \<noteq> 16 then None
     else map_option (\<lambda>block. \<lparr>sc_block = block, sc_encrypt = encrypt, sc_feedback = iv,
       sc_keystream = replicate 16 0, sc_pos = 16\<rparr>) (seed key))"

text \<open>The body of the loop of \<open>apply\<close>.\<close>

definition seed_cfb_byte :: "seed_cfb \<Rightarrow> byte \<Rightarrow> byte \<times> seed_cfb" where
  "seed_cfb_byte st input =
    (let st = (if sc_pos st = 16
           then st\<lparr>sc_keystream := sc_block st (sc_feedback st), sc_feedback := replicate 16 0, sc_pos := 0\<rparr>
           else st);
         out = input XOR sc_keystream st ! sc_pos st
     in (out, st\<lparr>sc_feedback := (sc_feedback st)[sc_pos st := (if sc_encrypt st then out else input)],
          sc_pos := Suc (sc_pos st)\<rparr>))"

fun seed_cfb_apply :: "seed_cfb \<Rightarrow> bytes \<Rightarrow> bytes \<times> seed_cfb" where
  "seed_cfb_apply st [] = ([], st)"
| "seed_cfb_apply st (b # bs) =
    (case seed_cfb_byte st b of (x, st) \<Rightarrow> (case seed_cfb_apply st bs of (xs, st) \<Rightarrow> (x # xs, st)))"

section \<open>The ciphers\<close>

datatype 'c neon_cipher =
    BlowfishCfbEnc 'c | BlowfishCfbDec 'c | Cast5CfbEnc 'c | Cast5CfbDec 'c | DesCfbEnc 'c | DesCfbDec 'c
  | IdeaCfbEnc 'c | IdeaCfbDec 'c | Rc2CfbEnc 'c | Rc2CfbDec 'c
  | SeedCfbCipher seed_cfb | Salsa20Cipher 'c | Rc4Cipher 'c

text \<open>
  What comes from packages: a cipher from a key and an IV, in one of the two directions (\<open>None\<close> when a
  length is wrong), its run over a buffer, the SEED block cipher of a key, and MD5.
\<close>

record 'c cipher_library =
  lib_new :: "neon_legacy_cipher \<Rightarrow> bool \<Rightarrow> bytes \<Rightarrow> bytes \<Rightarrow> 'c option"
  lib_crypt :: "'c \<Rightarrow> bytes \<Rightarrow> bytes \<times> 'c"
  lib_rc4 :: "bytes \<Rightarrow> 'c option"
  lib_seed :: "bytes \<Rightarrow> (bytes \<Rightarrow> bytes) option"
  lib_digest :: "bytes \<Rightarrow> bytes"

definition new_with_direction :: "'c cipher_library \<Rightarrow> neon_legacy_cipher \<Rightarrow> bytes \<Rightarrow> bytes \<Rightarrow> bool
    \<Rightarrow> 'c neon_cipher option" where
  "new_with_direction lib m key iv encrypt =
    (case m of
       BlowfishCfb \<Rightarrow> map_option (if encrypt then BlowfishCfbEnc else BlowfishCfbDec) (lib_new lib m encrypt key iv)
     | Cast5Cfb \<Rightarrow> map_option (if encrypt then Cast5CfbEnc else Cast5CfbDec) (lib_new lib m encrypt key iv)
     | DesCfb \<Rightarrow> map_option (if encrypt then DesCfbEnc else DesCfbDec) (lib_new lib m encrypt key iv)
     | IdeaCfb \<Rightarrow> map_option (if encrypt then IdeaCfbEnc else IdeaCfbDec) (lib_new lib m encrypt key iv)
     | Rc2Cfb \<Rightarrow> map_option (if encrypt then Rc2CfbEnc else Rc2CfbDec) (lib_new lib m encrypt key iv)
     | SeedCfb \<Rightarrow> map_option SeedCfbCipher (seed_cfb_new (lib_seed lib) key iv encrypt)
     | Salsa20 \<Rightarrow> map_option Salsa20Cipher (lib_new lib m encrypt key iv)
     | Rc4Md5_6 \<Rightarrow> map_option Rc4Cipher (lib_rc4 lib (lib_digest lib (key @ iv))))"

definition neon_cipher_new :: "'c cipher_library \<Rightarrow> neon_legacy_cipher \<Rightarrow> bytes \<Rightarrow> bytes \<Rightarrow> 'c neon_cipher option" where
  "neon_cipher_new lib m key iv = new_with_direction lib m key iv True"

definition cipher_apply :: "'c cipher_library \<Rightarrow> 'c neon_cipher \<Rightarrow> bytes \<Rightarrow> bytes \<times> 'c neon_cipher" where
  "cipher_apply lib c d =
    (let run = (\<lambda>wrap x. case lib_crypt lib x d of (out, x') \<Rightarrow> (out, wrap x'))
     in case c of
       BlowfishCfbEnc x \<Rightarrow> run BlowfishCfbEnc x
     | BlowfishCfbDec x \<Rightarrow> run BlowfishCfbDec x
     | Cast5CfbEnc x \<Rightarrow> run Cast5CfbEnc x
     | Cast5CfbDec x \<Rightarrow> run Cast5CfbDec x
     | DesCfbEnc x \<Rightarrow> run DesCfbEnc x
     | DesCfbDec x \<Rightarrow> run DesCfbDec x
     | IdeaCfbEnc x \<Rightarrow> run IdeaCfbEnc x
     | IdeaCfbDec x \<Rightarrow> run IdeaCfbDec x
     | Rc2CfbEnc x \<Rightarrow> run Rc2CfbEnc x
     | Rc2CfbDec x \<Rightarrow> run Rc2CfbDec x
     | SeedCfbCipher x \<Rightarrow> (case seed_cfb_apply x d of (out, x') \<Rightarrow> (out, SeedCfbCipher x'))
     | Salsa20Cipher x \<Rightarrow> run Salsa20Cipher x
     | Rc4Cipher x \<Rightarrow> run Rc4Cipher x)"

section \<open>The encrypted stream\<close>

record 'c legacy_stream =
  ls_method :: neon_legacy_cipher
  ls_key :: bytes
  ls_write_iv :: bytes
  ls_sent_iv :: bool
  ls_encryptor :: "'c neon_cipher"
  ls_decryptor :: "'c neon_cipher option"
  ls_read_iv :: bytes
  ls_read_buffer :: bytes
  ls_pending :: "pending_write option"

text \<open>\<open>iv\<close> are the random bytes.\<close>

definition new_legacy_stream :: "'c cipher_library \<Rightarrow> neon_legacy_cipher \<Rightarrow> string \<Rightarrow> bytes \<Rightarrow> 'c legacy_stream option" where
  "new_legacy_stream lib m password iv =
    (let key = legacy_evp_bytes_to_key (lib_digest lib) (as_bytes password) (legacy_key_len m)
     in map_option (\<lambda>c. \<lparr>ls_method = m, ls_key = key, ls_write_iv = iv, ls_sent_iv = False, ls_encryptor = c,
          ls_decryptor = None, ls_read_iv = [], ls_read_buffer = [], ls_pending = None\<rparr>)
        (neon_cipher_new lib m key iv))"

text \<open>
  The loop that reads the peer's IV and makes the decryptor. No result means that it is there and the
  poll goes on.
\<close>

function read_peer_iv :: "'c cipher_library \<Rightarrow> 'c legacy_stream \<Rightarrow> transport
    \<Rightarrow> bytes poll option \<times> 'c legacy_stream \<times> transport" where
  "read_peer_iv lib st io =
    (if ls_decryptor st \<noteq> None then (None, st, io)
     else let need = legacy_iv_len (ls_method st) - length (ls_read_iv st)
       in if need = 0 then
            (case new_with_direction lib (ls_method st) (ls_key st) (ls_read_iv st) False of
               None \<Rightarrow> (Some (Fault InvalidInput), st, io)
             | Some c \<Rightarrow> (None, st\<lparr>ls_decryptor := Some c\<rparr>, io))
          else
            (case poll_read_io need io of
               (Pending, io') \<Rightarrow> (Some Pending, st, io')
             | (Fault e, io') \<Rightarrow> (Some (Fault e), st, io')
             | (Ready bs, io') \<Rightarrow>
                 (if bs = [] then (Some (Ready []), st, io')
                  else read_peer_iv lib (st\<lparr>ls_read_iv := ls_read_iv st @ bs\<rparr>) io')))"
  by auto
termination
  by (relation "measure (\<lambda>(lib, st, io). in_size (tr_in io))") (auto dest: poll_read_io_sizeI)

declare read_peer_iv.simps [simp del]

definition poll_read_decrypted :: "'c cipher_library \<Rightarrow> nat \<Rightarrow> 'c legacy_stream \<times> transport
    \<Rightarrow> bytes poll \<times> 'c legacy_stream \<times> transport" where
  "poll_read_decrypted lib room = (\<lambda>(st, io).
    (case drain_buffer (ls_read_buffer st) room of
       Some (out, rest) \<Rightarrow> (Ready out, st\<lparr>ls_read_buffer := rest\<rparr>, io)
     | None \<Rightarrow>
         (case read_peer_iv lib st io of
            (Some r, st, io) \<Rightarrow> (r, st, io)
          | (None, st, io) \<Rightarrow>
              (case poll_read_io room io of
                 (Ready bs, io) \<Rightarrow>
                   (if bs = [] then (Ready [], st, io)
                    else case ls_decryptor st of
                        Some c \<Rightarrow> (case cipher_apply lib c bs of
                          (out, c') \<Rightarrow> (Ready out, st\<lparr>ls_decryptor := Some c'\<rparr>, io))
                      | None \<Rightarrow> (Ready bs, st, io))
               | (Fault e, io) \<Rightarrow> (Fault e, st, io)
               | (Pending, io) \<Rightarrow> (Pending, st, io)))))"

text \<open>
  A pending write is finished first, and then \<open>buf\<close> is encrypted and sent, whether or not the pending
  write was the same \<open>buf\<close>.
\<close>

definition poll_write_encrypted :: "'c cipher_library \<Rightarrow> bytes \<Rightarrow> 'c legacy_stream \<times> transport
    \<Rightarrow> nat poll \<times> 'c legacy_stream \<times> transport" where
  "poll_write_encrypted lib buf = (\<lambda>(st, io).
    (let send = (\<lambda>st io. case cipher_apply lib (ls_encryptor st) buf of
         (out, c) \<Rightarrow>
           (let packet = (if ls_sent_iv st then [] else ls_write_iv st) @ out;
                st = st\<lparr>ls_sent_iv := True, ls_encryptor := c\<rparr>
            in case flush_pending poll_write_io (Some (new_pending packet (length buf))) io of
                 (Some (Ready _), pending, io) \<Rightarrow> (Ready (length buf), st\<lparr>ls_pending := pending\<rparr>, io)
               | (Some r, pending, io) \<Rightarrow> (r, st\<lparr>ls_pending := pending\<rparr>, io)
               | (None, pending, io) \<Rightarrow> (Ready (length buf), st\<lparr>ls_pending := pending\<rparr>, io)))
     in case flush_pending poll_write_io (ls_pending st) io of
          (Some Pending, pending, io) \<Rightarrow> (Pending, st\<lparr>ls_pending := pending\<rparr>, io)
        | (Some (Fault e), pending, io) \<Rightarrow> (Fault e, st\<lparr>ls_pending := pending\<rparr>, io)
        | (_, pending, io) \<Rightarrow> send (st\<lparr>ls_pending := pending\<rparr>) io))"

section \<open>The client stream\<close>

text \<open>
  \<open>ShadowCryptoStream\<close> is the stream of the package (with its polls as functions) or the one above; the
  client stream polls either through the same interface, here its poll function \<open>w\<close> on a state.
\<close>

datatype ('b, 's) shadow_crypto = CryptoBuiltIn 'b | CryptoLegacy 's

definition crypto_poll_write :: "(bytes \<Rightarrow> 'b \<Rightarrow> nat poll \<times> 'b) \<Rightarrow> (bytes \<Rightarrow> 's \<Rightarrow> nat poll \<times> 's) \<Rightarrow> bytes
    \<Rightarrow> ('b, 's) shadow_crypto \<Rightarrow> nat poll \<times> ('b, 's) shadow_crypto" where
  "crypto_poll_write builtin legacy buf c =
    (case c of
       CryptoBuiltIn b \<Rightarrow> (case builtin buf b of (r, b) \<Rightarrow> (r, CryptoBuiltIn b))
     | CryptoLegacy s \<Rightarrow> (case legacy buf s of (r, s) \<Rightarrow> (r, CryptoLegacy s)))"

definition crypto_poll_read :: "(nat \<Rightarrow> 'b \<Rightarrow> bytes poll \<times> 'b) \<Rightarrow> (nat \<Rightarrow> 's \<Rightarrow> bytes poll \<times> 's) \<Rightarrow> nat
    \<Rightarrow> ('b, 's) shadow_crypto \<Rightarrow> bytes poll \<times> ('b, 's) shadow_crypto" where
  "crypto_poll_read builtin legacy room c =
    (case c of
       CryptoBuiltIn b \<Rightarrow> (case builtin room b of (r, b) \<Rightarrow> (r, CryptoBuiltIn b))
     | CryptoLegacy s \<Rightarrow> (case legacy room s of (r, s) \<Rightarrow> (r, CryptoLegacy s)))"

record client_stream =
  cs_target :: "ss_address option"
  cs_pending :: "pending_write option"

definition new_client_stream :: "ss_address \<Rightarrow> client_stream" where
  "new_client_stream target = \<lparr>cs_target = Some target, cs_pending = None\<rparr>"

text \<open>\<open>write_address\<close> is \<open>Address::write_to_buf\<close> of the package.\<close>

definition client_poll_write :: "(ss_address \<Rightarrow> bytes) \<Rightarrow> (bytes \<Rightarrow> 's \<Rightarrow> nat poll \<times> 's) \<Rightarrow> bytes
    \<Rightarrow> client_stream \<times> 's \<Rightarrow> nat poll \<times> client_stream \<times> 's" where
  "client_poll_write write_address w buf = (\<lambda>(st, io).
    (case flush_pending w (cs_pending st) io of
       (Some r, pending, io) \<Rightarrow> (r, st\<lparr>cs_pending := pending\<rparr>, io)
     | (None, pending, io) \<Rightarrow>
         (let payload = (case cs_target st of Some target \<Rightarrow> write_address target | None \<Rightarrow> []) @ buf;
              st = st\<lparr>cs_target := None\<rparr>
          in case flush_pending w (Some (new_pending payload (length buf))) io of
               (Some r, pending, io) \<Rightarrow> (r, st\<lparr>cs_pending := pending\<rparr>, io)
             | (None, pending, io) \<Rightarrow> (Ready (length buf), st\<lparr>cs_pending := pending\<rparr>, io))))"


section \<open>SEED-CFB is CFB\<close>

text \<open>The mode block by block: a block of ciphertext is the feedback of the next.\<close>

abbreviation xor_bytes :: "bytes \<Rightarrow> bytes \<Rightarrow> bytes" where
  "xor_bytes \<equiv> map2 (XOR)"

function cfb_encrypt :: "(bytes \<Rightarrow> bytes) \<Rightarrow> bytes \<Rightarrow> bytes \<Rightarrow> bytes" where
  "cfb_encrypt block iv d =
    (if d = [] then []
     else let c = xor_bytes (take 16 d) (block iv) in c @ cfb_encrypt block c (drop 16 d))"
  by auto
termination by (relation "measure (\<lambda>(block, iv, d). length d)") auto

function cfb_decrypt :: "(bytes \<Rightarrow> bytes) \<Rightarrow> bytes \<Rightarrow> bytes \<Rightarrow> bytes" where
  "cfb_decrypt block iv c =
    (if c = [] then []
     else xor_bytes (take 16 c) (block iv) @ cfb_decrypt block (take 16 c) (drop 16 c))"
  by auto
termination by (relation "measure (\<lambda>(block, iv, c). length c)") auto

declare cfb_encrypt.simps [simp del] cfb_decrypt.simps [simp del]

lemma xor_bytes_twice: "length x \<le> length k \<Longrightarrow> xor_bytes (xor_bytes x k) k = x"
  by (induction x arbitrary: k) (auto simp: Suc_le_length_iff word_bw_assocs(3))

lemma cfb_roundtrip:
  assumes "\<And>x. length (block x) = 16"
  shows "cfb_decrypt block iv (cfb_encrypt block iv d) = d"
  using assms
proof (induction block iv d rule: cfb_encrypt.induct)
  case (1 block iv d)
  note len16 = 1(2)
  show ?case
  proof (cases "d = []")
    case True
    then show ?thesis by (simp add: cfb_encrypt.simps cfb_decrypt.simps)
  next
    case False
    let ?c = "xor_bytes (take 16 d) (block iv)"
    let ?r = "cfb_encrypt block ?c (drop 16 d)"
    have len: "length ?c = min (length d) 16" using len16 [of iv] by simp
    have enc: "cfb_encrypt block iv d = ?c @ ?r" using False by (simp add: cfb_encrypt.simps [of block iv d] Let_def)
    have parts: "take 16 (?c @ ?r) = ?c" "drop 16 (?c @ ?r) = ?r"
      using len by (cases "16 \<le> length d") (auto simp: len16 min_def cfb_encrypt.simps [of block _ "[]"])
    have ne: "(?c @ ?r = []) = False" using len False by (metis append_is_Nil_conv length_0_conv min_0R min_def zero_neq_numeral)
    have "cfb_decrypt block iv (?c @ ?r) = xor_bytes ?c (block iv) @ cfb_decrypt block ?c ?r"
      by (simp only: cfb_decrypt.simps [of block iv "?c @ ?r"] parts ne if_False)
    moreover have "xor_bytes ?c (block iv) = take 16 d" using len16 [of iv] by (intro xor_bytes_twice) simp
    moreover have "cfb_decrypt block ?c ?r = drop 16 d" using 1(1) [OF False refl len16] by blast
    ultimately show ?thesis using enc by simp
  qed
qed

lemma seed_cfb_apply_append:
  "seed_cfb_apply st (a @ b) =
    (case seed_cfb_apply st a of (x, st') \<Rightarrow> (case seed_cfb_apply st' b of (y, st'') \<Rightarrow> (x @ y, st'')))"
  by (induction a arbitrary: st) (auto split: prod.splits)

text \<open>Within a block.\<close>

lemma seed_cfb_within:
  assumes "sc_pos st + length d \<le> 16" "length (sc_keystream st) = 16" "length (sc_feedback st) = 16"
  shows "seed_cfb_apply st d = (xor_bytes d (drop (sc_pos st) (sc_keystream st)),
    st\<lparr>sc_feedback := take (sc_pos st) (sc_feedback st)
         @ (if sc_encrypt st then xor_bytes d (drop (sc_pos st) (sc_keystream st)) else d)
         @ drop (sc_pos st + length d) (sc_feedback st),
       sc_pos := sc_pos st + length d\<rparr>)"
  using assms
proof (induction d arbitrary: st)
  case (Cons b d)
  have pos: "sc_pos st < 16" using Cons.prems(1) by simp
  let ?x = "b XOR sc_keystream st ! sc_pos st"
  let ?f = "(sc_feedback st)[sc_pos st := (if sc_encrypt st then ?x else b)]"
  have byte: "seed_cfb_byte st b = (?x, st\<lparr>sc_feedback := ?f, sc_pos := Suc (sc_pos st)\<rparr>)"
    using pos by (simp add: seed_cfb_byte_def Let_def)
  have drop: "drop (sc_pos st) (sc_keystream st) = sc_keystream st ! sc_pos st # drop (Suc (sc_pos st)) (sc_keystream st)"
    using pos Cons.prems(2) by (simp add: Cons_nth_drop_Suc)
  show ?case
    using Cons.IH [of "st\<lparr>sc_feedback := ?f, sc_pos := Suc (sc_pos st)\<rparr>"] Cons.prems byte drop pos
    by (auto simp: take_Suc_conv_app_nth take_update_swap list_update_append)
qed simp


text \<open>From a block boundary on.\<close>

lemma seed_cfb_fresh:
  assumes "sc_pos st = 16" "d \<noteq> []"
  shows "seed_cfb_apply st d = seed_cfb_apply
    (st\<lparr>sc_keystream := sc_block st (sc_feedback st), sc_feedback := replicate 16 0, sc_pos := 0\<rparr>) d"
  using assms by (cases d) (simp_all add: seed_cfb_byte_def Let_def)

lemma seed_cfb_modes:
  assumes "sc_pos st = 16" "length (sc_feedback st) = 16" "\<And>x. length (sc_block st x) = 16"
  shows "fst (seed_cfb_apply st d)
    = (if sc_encrypt st then cfb_encrypt else cfb_decrypt) (sc_block st) (sc_feedback st) d"
  using assms
proof (induction "length d" arbitrary: st d rule: less_induct)
  case less
  show ?case
  proof (cases "d = []")
    case True
    then show ?thesis by (simp add: cfb_encrypt.simps cfb_decrypt.simps)
  next
    case False
    let ?k = "sc_block st (sc_feedback st)"
    let ?st = "st\<lparr>sc_keystream := ?k, sc_feedback := replicate 16 0, sc_pos := 0\<rparr>"
    let ?x = "xor_bytes (take 16 d) ?k"
    let ?st' = "?st\<lparr>sc_feedback := (if sc_encrypt st then ?x else take 16 d) @ drop (length (take 16 d)) (replicate 16 0),
        sc_pos := length (take 16 d)\<rparr>"
    have first: "seed_cfb_apply ?st (take 16 d) = (?x, ?st')"
      using seed_cfb_within [of ?st "take 16 d"] less.prems by simp
    have whole: "seed_cfb_apply st d = seed_cfb_apply ?st (take 16 d @ drop 16 d)"
      using seed_cfb_fresh [OF less.prems(1) False] by simp
    then have apply_d: "fst (seed_cfb_apply st d) = ?x @ fst (seed_cfb_apply ?st' (drop 16 d))"
      unfolding whole seed_cfb_apply_append first by (simp split: prod.splits)
    have rest: "fst (seed_cfb_apply ?st' (drop 16 d))
        = (if sc_encrypt st then cfb_encrypt else cfb_decrypt) (sc_block st) (if sc_encrypt st then ?x else take 16 d) (drop 16 d)"
    proof (cases "16 < length d")
      case True
      then show ?thesis using less.hyps [of "drop 16 d" ?st'] less.prems False by simp
    next
      case False
      then show ?thesis by (simp add: cfb_encrypt.simps cfb_decrypt.simps)
    qed
    show ?thesis
      using apply_d rest False cfb_encrypt.simps [of "sc_block st" "sc_feedback st" d]
        cfb_decrypt.simps [of "sc_block st" "sc_feedback st" d]
      by (simp add: Let_def)
  qed
qed


section \<open>What is relied on of the packages\<close>

text \<open>
  A stream cipher of a package may be run over its input in pieces and keeps lengths; the two
  directions of a key and IV invert each other, and the key stream of RC4 inverts itself; SEED maps
  blocks to blocks of 16 bytes.
\<close>

definition streaming :: "('s \<Rightarrow> bytes \<Rightarrow> bytes \<times> 's) \<Rightarrow> bool" where
  "streaming crypt \<longleftrightarrow> (\<forall>c a b. crypt c (a @ b) = (case crypt c a of (x, c') \<Rightarrow> (case crypt c' b of (y, c'') \<Rightarrow> (x @ y, c''))))
    \<and> (\<forall>c d. length (fst (crypt c d)) = length d)"

definition library_ok :: "'c cipher_library \<Rightarrow> bool" where
  "library_ok lib \<longleftrightarrow> streaming (lib_crypt lib)
    \<and> (\<forall>m key iv e d x. lib_new lib m True key iv = Some e \<longrightarrow> lib_new lib m False key iv = Some d
        \<longrightarrow> fst (lib_crypt lib d (fst (lib_crypt lib e x))) = x)
    \<and> (\<forall>k c x. lib_rc4 lib k = Some c \<longrightarrow> fst (lib_crypt lib c (fst (lib_crypt lib c x))) = x)
    \<and> (\<forall>k block x. lib_seed lib k = Some block \<longrightarrow> length (block x) = 16)"

lemma streamingD:
  assumes "streaming crypt"
  shows "crypt c (a @ b) = (case crypt c a of (x, c') \<Rightarrow> (case crypt c' b of (y, c'') \<Rightarrow> (x @ y, c'')))"
    "length (fst (crypt c d)) = length d"
  using assms unfolding streaming_def by blast+

lemma length_seed_cfb_apply: "length (fst (seed_cfb_apply st d)) = length d"
  by (induction d arbitrary: st) (auto split: prod.splits, (metis fst_conv)+)

lemma streaming_seed: "streaming seed_cfb_apply"
  unfolding streaming_def using seed_cfb_apply_append length_seed_cfb_apply by blast

text \<open>So every cipher of the adapter runs in pieces, and decryption gives back what was encrypted.\<close>

lemma streaming_cipher:
  assumes "library_ok lib"
  shows "streaming (cipher_apply lib)"
proof -
  have "streaming (lib_crypt lib)" using assms by (simp add: library_ok_def)
  note crypt = streamingD [OF this] and seed = streamingD [OF streaming_seed]
  show ?thesis
    unfolding streaming_def
  proof (intro conjI allI)
    show "cipher_apply lib c (a @ b) = (case cipher_apply lib c a of (x, c') \<Rightarrow>
        (case cipher_apply lib c' b of (y, c'') \<Rightarrow> (x @ y, c'')))" for c a b
      by (cases c) (simp_all add: cipher_apply_def crypt(1) seed_cfb_apply_append split: prod.splits)
    show "length (fst (cipher_apply lib c d)) = length d" for c d
      using crypt(2) seed(2)
      by (cases c) (auto simp: cipher_apply_def split: prod.splits, (metis fst_conv)+)
  qed
qed

lemma fst_cipher_apply:
  "fst (cipher_apply lib c d) = (case c of SeedCfbCipher x \<Rightarrow> fst (seed_cfb_apply x d)
    | BlowfishCfbEnc x \<Rightarrow> fst (lib_crypt lib x d) | BlowfishCfbDec x \<Rightarrow> fst (lib_crypt lib x d)
    | Cast5CfbEnc x \<Rightarrow> fst (lib_crypt lib x d) | Cast5CfbDec x \<Rightarrow> fst (lib_crypt lib x d)
    | DesCfbEnc x \<Rightarrow> fst (lib_crypt lib x d) | DesCfbDec x \<Rightarrow> fst (lib_crypt lib x d)
    | IdeaCfbEnc x \<Rightarrow> fst (lib_crypt lib x d) | IdeaCfbDec x \<Rightarrow> fst (lib_crypt lib x d)
    | Rc2CfbEnc x \<Rightarrow> fst (lib_crypt lib x d) | Rc2CfbDec x \<Rightarrow> fst (lib_crypt lib x d)
    | Salsa20Cipher x \<Rightarrow> fst (lib_crypt lib x d) | Rc4Cipher x \<Rightarrow> fst (lib_crypt lib x d))"
  by (cases c) (simp_all add: cipher_apply_def split: prod.splits)

lemma cipher_inverse:
  assumes "library_ok lib" "new_with_direction lib m key iv True = Some e" "new_with_direction lib m key iv False = Some d"
  shows "fst (cipher_apply lib d (fst (cipher_apply lib e x))) = x"
proof (cases "m = SeedCfb")
  case True
  then obtain block where b: "lib_seed lib key = Some block" "length iv = 16"
    "e = SeedCfbCipher \<lparr>sc_block = block, sc_encrypt = True, sc_feedback = iv, sc_keystream = replicate 16 0, sc_pos = 16\<rparr>"
    "d = SeedCfbCipher \<lparr>sc_block = block, sc_encrypt = False, sc_feedback = iv, sc_keystream = replicate 16 0, sc_pos = 16\<rparr>"
    using assms(2,3) by (auto simp: new_with_direction_def seed_cfb_new_def split: if_splits)
  have "length (block x) = 16" for x using assms(1) b(1) by (simp add: library_ok_def)
  then show ?thesis using b cfb_roundtrip [of block] by (simp add: fst_cipher_apply seed_cfb_modes)
next
  case False
  have lib: "\<And>m e d. lib_new lib m True key iv = Some e \<Longrightarrow> lib_new lib m False key iv = Some d
      \<Longrightarrow> fst (lib_crypt lib d (fst (lib_crypt lib e x))) = x"
    "\<And>k c. lib_rc4 lib k = Some c \<Longrightarrow> fst (lib_crypt lib c (fst (lib_crypt lib c x))) = x"
    using assms(1) unfolding library_ok_def by blast+
  show ?thesis
    using False assms(2,3) lib by (cases m) (auto simp: new_with_direction_def fst_cipher_apply)
qed


section \<open>Writing without backpressure\<close>

text \<open>A transport that takes something at every poll, in pieces of any size.\<close>

definition steady :: "transport \<Rightarrow> bool" where
  "steady io \<longleftrightarrow> (\<forall>e \<in> set (tr_out io). \<exists>n. 0 < n \<and> e = WriteAccept n)"

lemma steady_write_all:
  assumes "steady io" "length (pw_data p) - pw_offset p \<le> length (tr_out io)"
  shows "\<exists>p' io'. poll_write_all poll_write_io p io = (Ready (pw_original_len p), p', io') \<and> steady io'
    \<and> tr_sent io' = tr_sent io @ drop (pw_offset p) (pw_data p) \<and> tr_in io' = tr_in io
    \<and> length (tr_out io) \<le> length (tr_out io') + (length (pw_data p) - pw_offset p)"
  using assms
proof (induction poll_write_io p io rule: poll_write_all.induct)
  case (1 p io)
  show ?case
  proof (cases "pw_offset p < length (pw_data p)")
    case False
    then show ?thesis using 1 by (simp add: poll_write_all.simps [of poll_write_io p])
  next
    case True
    then obtain n es where e: "tr_out io = WriteAccept n # es" "0 < n"
      using 1(2,3) by (cases "tr_out io") (auto simp: steady_def)
    let ?d = "drop (pw_offset p) (pw_data p)"
    let ?n = "min n (length ?d)" and ?io = "io\<lparr>tr_out := es, tr_sent := tr_sent io @ take n ?d\<rparr>"
    have w: "poll_write_io ?d io = (Ready ?n, ?io)" "?n \<noteq> 0"
      using e True by (simp_all add: poll_write_io_def)
    have "steady ?io" "length (pw_data (p\<lparr>pw_offset := pw_offset p + ?n\<rparr>)) - pw_offset (p\<lparr>pw_offset := pw_offset p + ?n\<rparr>)
        \<le> length (tr_out ?io)"
      using 1(2,3) e by (auto simp: steady_def)
    from 1(1) [OF True w(1) [symmetric] refl w(2) this]
    obtain p' io' where r: "poll_write_all poll_write_io (p\<lparr>pw_offset := pw_offset p + ?n\<rparr>) ?io
        = (Ready (pw_original_len p), p', io')" "steady io'"
      "tr_sent io' = tr_sent ?io @ drop (pw_offset p + ?n) (pw_data p)" "tr_in io' = tr_in io"
      "length es \<le> length (tr_out io') + (length (pw_data p) - (pw_offset p + ?n))" by auto
    have "take n ?d @ drop (pw_offset p + ?n) (pw_data p) = ?d"
      by (cases "n \<le> length ?d") (auto simp: min_def drop_plus simp del: drop_drop)
    then have "tr_sent io' = tr_sent io @ ?d" using r(3) by simp
    then show ?thesis using r w True e by (auto simp: poll_write_all.simps [of poll_write_io p])
  qed
qed

lemma steady_encrypted:
  assumes "steady io" "ls_pending st = None" "cipher_apply lib (ls_encryptor st) buf = (out, c)"
    and "packet = (if ls_sent_iv st then [] else ls_write_iv st) @ out" "length packet \<le> length (tr_out io)"
  shows "\<exists>io'. poll_write_encrypted lib buf (st, io) = (Ready (length buf), st\<lparr>ls_sent_iv := True, ls_encryptor := c\<rparr>, io')
    \<and> steady io' \<and> tr_sent io' = tr_sent io @ packet \<and> length (tr_out io) \<le> length (tr_out io') + length packet"
proof -
  have none: "st\<lparr>ls_pending := None, ls_sent_iv := True, ls_encryptor := c, ls_pending := None\<rparr>
      = st\<lparr>ls_sent_iv := True, ls_encryptor := c\<rparr>"
    using assms(2) by (cases st) simp
  obtain p' io' where "poll_write_all poll_write_io (new_pending packet (length buf)) io = (Ready (length buf), p', io')"
    "steady io'" "tr_sent io' = tr_sent io @ packet" "length (tr_out io) \<le> length (tr_out io') + length packet"
    using steady_write_all [of io "new_pending packet (length buf)"] assms(1,5) by auto
  then show ?thesis using assms(2-4) none
    by (auto simp: poll_write_encrypted_def flush_pending_def Let_def)
qed

text \<open>Every poll of the client stream then sends its buffer at once, the first one behind the target.\<close>

lemma steady_client_poll:
  assumes "steady io" "ls_pending st = None" "cs_pending cs = None" "buf \<noteq> []"
    and "payload = (case cs_target cs of Some t \<Rightarrow> write_address t | None \<Rightarrow> []) @ buf"
    and "cipher_apply lib (ls_encryptor st) payload = (out, c)"
    and "packet = (if ls_sent_iv st then [] else ls_write_iv st) @ out" "length packet \<le> length (tr_out io)"
  shows "\<exists>io'. client_poll_write write_address (poll_write_encrypted lib) buf (cs, (st, io))
      = (Ready (length buf), cs\<lparr>cs_target := None\<rparr>, (st\<lparr>ls_sent_iv := True, ls_encryptor := c\<rparr>, io'))
    \<and> steady io' \<and> tr_sent io' = tr_sent io @ packet \<and> length (tr_out io) \<le> length (tr_out io') + length packet"
proof -
  obtain io' where io': "poll_write_encrypted lib payload (st, io)
      = (Ready (length payload), st\<lparr>ls_sent_iv := True, ls_encryptor := c\<rparr>, io')" "steady io'"
    "tr_sent io' = tr_sent io @ packet" "length (tr_out io) \<le> length (tr_out io') + length packet"
    using steady_encrypted [OF assms(1,2,6,7,8)] by blast
  have ne: "0 < length payload" "payload \<noteq> []" using assms(4,5) by auto
  let ?p = "new_pending payload (length buf)" and ?s = "(st\<lparr>ls_sent_iv := True, ls_encryptor := c\<rparr>, io')"
  have "poll_write_all (poll_write_encrypted lib) ?p (st, io)
      = (Ready (length buf), ?p\<lparr>pw_offset := length payload\<rparr>, ?s)"
    using io'(1) ne by (simp add: poll_write_all.simps [of _ ?p] poll_write_all.simps [of _ "_\<lparr>pw_offset := _\<rparr>"])
  moreover have "cs\<lparr>cs_pending := None, cs_target := None, cs_pending := None\<rparr> = cs\<lparr>cs_target := None\<rparr>"
    using assms(3) by (cases cs) simp
  ultimately show ?thesis using assms(3,5) io'(2-4)
    by (auto simp: client_poll_write_def flush_pending_def Let_def)
qed


lemma write_all_at_once:
  assumes "w buf s = (Ready (length buf), s')" "buf \<noteq> []" "0 < fuel"
  shows "write_all fuel w buf s = Some s'"
  using assms by (cases buf; cases fuel) simp_all

lemma steady_client_writes:
  assumes "streaming (cipher_apply lib)" "steady io" "ls_pending st = None" "ls_sent_iv st" "cs_pending cs = None"
    and "cs_target cs = None" "[] \<notin> set bufs" "length (concat bufs) \<le> length (tr_out io)" "0 < fuel"
  shows "\<exists>cs' st' io'. write_each fuel (client_poll_write write_address (poll_write_encrypted lib)) bufs (cs, (st, io))
      = Some (cs', (st', io'))
    \<and> tr_sent io' = tr_sent io @ fst (cipher_apply lib (ls_encryptor st) (concat bufs))"
  using assms(2-)
proof (induction bufs arbitrary: cs st io)
  case Nil
  have "length (fst (cipher_apply lib (ls_encryptor st) [])) = 0" using streamingD(2) [OF assms(1)] by simp
  then show ?case by simp
next
  case (Cons buf bufs)
  obtain out c where out: "cipher_apply lib (ls_encryptor st) buf = (out, c)" by fastforce
  have len: "length out = length buf" using streamingD(2) [OF assms(1), of "ls_encryptor st" buf] out by simp
  have ne: "buf \<noteq> []" using Cons.prems(6) by auto
  have same: "cs\<lparr>cs_target := None\<rparr> = cs" using Cons.prems(5) by (cases cs) simp
  obtain io1 where io1: "client_poll_write write_address (poll_write_encrypted lib) buf (cs, (st, io))
      = (Ready (length buf), cs, (st\<lparr>ls_sent_iv := True, ls_encryptor := c\<rparr>, io1))" "steady io1"
    "tr_sent io1 = tr_sent io @ out" "length (tr_out io) \<le> length (tr_out io1) + length out"
    using steady_client_poll [of io st cs buf buf write_address lib out c out] Cons.prems out same len by auto
  then have "write_all fuel (client_poll_write write_address (poll_write_encrypted lib)) buf (cs, (st, io))
      = Some (cs, (st\<lparr>ls_sent_iv := True, ls_encryptor := c\<rparr>, io1))"
    using write_all_at_once [where w = "client_poll_write write_address (poll_write_encrypted lib)", OF io1(1) ne Cons.prems(8)] by blast
  moreover obtain cs' st' io' where "write_each fuel (client_poll_write write_address (poll_write_encrypted lib)) bufs
      (cs, (st\<lparr>ls_sent_iv := True, ls_encryptor := c\<rparr>, io1)) = Some (cs', (st', io'))"
    "tr_sent io' = tr_sent io1 @ fst (cipher_apply lib c (concat bufs))"
    using Cons.IH [of io1 "st\<lparr>ls_sent_iv := True, ls_encryptor := c\<rparr>" cs] Cons.prems io1 len by auto
  moreover have "fst (cipher_apply lib (ls_encryptor st) (buf @ concat bufs)) = out @ fst (cipher_apply lib c (concat bufs))"
    using streamingD(1) [OF assms(1), of "ls_encryptor st" buf "concat bufs"] out by (simp split: prod.splits)
  ultimately show ?case using io1(3) by simp
qed

section \<open>Reading\<close>

text \<open>
  \<open>plain\<close> is what the peer sent behind its IV: either the IV is still being read, or the decryptor gives
  the rest of it.
\<close>

definition legacy_read_inv :: "'c cipher_library \<Rightarrow> bytes \<Rightarrow> bytes \<Rightarrow> bytes \<Rightarrow> bytes \<Rightarrow> 'c legacy_stream \<times> transport \<Rightarrow> bool" where
  "legacy_read_inv lib iv ct plain returned = (\<lambda>(st, io).
    ls_read_buffer st = [] \<and> length iv = legacy_iv_len (ls_method st)
    \<and> (\<exists>c0. new_with_direction lib (ls_method st) (ls_key st) iv False = Some c0 \<and> fst (cipher_apply lib c0 ct) = plain)
    \<and> (case ls_decryptor st of
         None \<Rightarrow> returned = [] \<and> length (ls_read_iv st) \<le> length iv \<and> ls_read_iv st @ in_data (tr_in io) = iv @ ct
       | Some c \<Rightarrow> returned @ fst (cipher_apply lib c (in_data (tr_in io))) = plain))"

lemma drain_empty [simp]: "drain_buffer [] room = None"
  by (simp add: drain_buffer_def)


lemma read_peer_iv_inv:
  assumes "legacy_read_inv lib iv ct plain returned (st, io)" "read_peer_iv lib st io = (r, st', io')"
  shows "(case r of
      None \<Rightarrow> (\<exists>c. ls_decryptor st' = Some c) \<and> legacy_read_inv lib iv ct plain returned (st', io')
    | Some x \<Rightarrow> poll_data x = [] \<and> legacy_read_inv lib iv ct plain returned (st', io'))"
  using assms
proof (induction lib st io rule: read_peer_iv.induct)
  case (1 lib st io)
  note step = read_peer_iv.simps [of lib st io]
  show ?case
  proof (cases "ls_decryptor st")
    case (Some c)
    then show ?thesis using 1(2,3) by (auto simp: step)
  next
    case None
    let ?need = "legacy_iv_len (ls_method st) - length (ls_read_iv st)"
    have inv: "length (ls_read_iv st) \<le> length iv" "ls_read_iv st @ in_data (tr_in io) = iv @ ct" "returned = []"
      "length iv = legacy_iv_len (ls_method st)"
      using 1(2) None by (simp_all add: legacy_read_inv_def)
    show ?thesis
    proof (cases "?need = 0")
      case True
      then have "ls_read_iv st = iv" "in_data (tr_in io) = ct" using inv by (simp_all add: append_eq_append_conv)
      then show ?thesis using 1(2,3) None True inv by (auto simp: step legacy_read_inv_def)
    next
      case False
      obtain x io1 where x: "poll_read_io ?need io = (x, io1)" by fastforce
      have data: "in_data (tr_in io) = poll_data x @ in_data (tr_in io1)" using poll_read_io_keeps [OF x] by simp
      show ?thesis
      proof (cases "\<exists>bs. x = Ready bs \<and> bs \<noteq> []")
        case True
        then obtain bs where bs: "x = Ready bs" "bs \<noteq> []" by blast
        have len: "length bs \<le> ?need"
          using x bs by (auto simp: poll_read_io_def split: list.splits read_event.splits if_splits)
        have "legacy_read_inv lib iv ct plain returned (st\<lparr>ls_read_iv := ls_read_iv st @ bs\<rparr>, io1)"
          using 1(2) None bs data inv len False by (simp add: legacy_read_inv_def)
        moreover have "read_peer_iv lib (st\<lparr>ls_read_iv := ls_read_iv st @ bs\<rparr>) io1 = (r, st', io')"
          using 1(3) None False x bs by (simp add: step Let_def)
        ultimately show ?thesis using 1(1) [OF _ refl False x [symmetric] bs(1,2)] None by simp
      next
        case no: False
        then have "poll_data x = []" by (cases x) auto
        then have "legacy_read_inv lib iv ct plain returned (st, io1)" using 1(2) data None by (simp add: legacy_read_inv_def)
        then show ?thesis using 1(3) None False x no by (cases x) (auto simp: step Let_def)
      qed
    qed
  qed
qed

lemma legacy_poll_reads:
  assumes "streaming (cipher_apply lib)" "legacy_read_inv lib iv ct plain returned s" "poll_read_decrypted lib room s = (r, s')"
  shows "legacy_read_inv lib iv ct plain (returned @ poll_data r) s'"
proof -
  obtain st io where s: "s = (st, io)" by fastforce
  obtain x st1 io1 where x: "read_peer_iv lib st io = (x, st1, io1)" by (metis prod_cases3)
  note iv = read_peer_iv_inv [OF assms(2) [unfolded s] x]
  have empty: "ls_read_buffer st = []" using assms(2) by (simp add: s legacy_read_inv_def)
  show ?thesis
  proof (cases x)
    case (Some y)
    then show ?thesis using assms(3) x iv empty by (auto simp: s poll_read_decrypted_def)
  next
    case None
    then obtain c where c: "ls_decryptor st1 = Some c" and inv: "legacy_read_inv lib iv ct plain returned (st1, io1)"
      using iv by auto
    obtain y io2 where y: "poll_read_io room io1 = (y, io2)" by fastforce
    have data: "in_data (tr_in io1) = poll_data y @ in_data (tr_in io2)" using poll_read_io_keeps [OF y] by simp
    show ?thesis
    proof (cases "\<exists>bs. y = Ready bs \<and> bs \<noteq> []")
      case True
      then obtain bs where bs: "y = Ready bs" "bs \<noteq> []" by blast
      obtain out c' where out: "cipher_apply lib c bs = (out, c')" by fastforce
      have "fst (cipher_apply lib c (bs @ rest)) = out @ fst (cipher_apply lib c' rest)" for rest
        using streamingD(1) [OF assms(1), of c bs rest] out by (simp split: prod.splits)
      moreover have "r = Ready out" "s' = (st1\<lparr>ls_decryptor := Some c'\<rparr>, io2)"
        using assms(3) x None y bs c out empty by (simp_all add: s poll_read_decrypted_def)
      ultimately show ?thesis using inv c data bs by (simp add: legacy_read_inv_def)
    next
      case False
      then have "poll_data y = []" by (cases y) auto
      then have "legacy_read_inv lib iv ct plain returned (st1, io2)" using inv c data by (simp add: legacy_read_inv_def)
      then show ?thesis using assms(3) x None y False empty by (cases y) (auto simp: s poll_read_decrypted_def)
    qed
  qed
qed

lemma legacy_read_polls:
  assumes "streaming (cipher_apply lib)"
  shows "legacy_read_inv lib iv ct plain returned s \<Longrightarrow> read_polls (poll_read_decrypted lib) rooms s = (xs, s') \<Longrightarrow>
    legacy_read_inv lib iv ct plain (returned @ got xs) s'"
proof (induction rooms arbitrary: s xs returned)
  case (Cons room rooms)
  obtain r s1 where r: "poll_read_decrypted lib room s = (r, s1)" by (cases "poll_read_decrypted lib room s")
  obtain ys where ys: "read_polls (poll_read_decrypted lib) rooms s1 = (ys, s')" "xs = r # ys"
    using Cons.prems(2) r by (auto split: prod.splits)
  from Cons.IH [OF legacy_poll_reads [OF assms Cons.prems(1) r] ys(1)] ys(2) show ?case by simp
qed simp


section \<open>Properties\<close>

text \<open>
  SEED runs in CFB mode, a byte at a time. For a key and an IV of 16 bytes, the two directions
  compute the CFB mode block by block, however the data is cut into calls, and decryption gives back
  what was encrypted; an IV of another length is refused.
\<close>

theorem seed_cfb_is_cfb:
  assumes "seed key = Some block" "\<And>x. length (block x) = 16"
  shows "(length iv \<noteq> 16 \<longrightarrow> seed_cfb_new seed key iv enc = None)
    \<and> (length iv = 16 \<longrightarrow> (\<exists>e d. seed_cfb_new seed key iv True = Some e \<and> seed_cfb_new seed key iv False = Some d
        \<and> fst (seed_cfb_apply e (a @ b)) = cfb_encrypt block iv (a @ b)
        \<and> fst (seed_cfb_apply e (a @ b)) = fst (seed_cfb_apply e a) @ fst (seed_cfb_apply (snd (seed_cfb_apply e a)) b)
        \<and> fst (seed_cfb_apply d a) = cfb_decrypt block iv a
        \<and> fst (seed_cfb_apply d (fst (seed_cfb_apply e a))) = a))"
proof (intro conjI impI)
  show "length iv \<noteq> 16 \<Longrightarrow> seed_cfb_new seed key iv enc = None" by (simp add: seed_cfb_new_def)
next
  assume iv: "length iv = 16"
  let ?st = "\<lambda>enc. \<lparr>sc_block = block, sc_encrypt = enc, sc_feedback = iv, sc_keystream = replicate 16 0, sc_pos = 16\<rparr>"
  have new: "seed_cfb_new seed key iv enc = Some (?st enc)" for enc using iv assms(1) by (simp add: seed_cfb_new_def)
  have e: "fst (seed_cfb_apply (?st True) d) = cfb_encrypt block iv d" for d
    using seed_cfb_modes [of "?st True" d] iv assms(2) by simp
  have d: "fst (seed_cfb_apply (?st False) d) = cfb_decrypt block iv d" for d
    using seed_cfb_modes [of "?st False" d] iv assms(2) by simp
  have "fst (seed_cfb_apply (?st True) (a @ b))
      = fst (seed_cfb_apply (?st True) a) @ fst (seed_cfb_apply (snd (seed_cfb_apply (?st True) a)) b)"
    unfolding seed_cfb_apply_append by (simp split: prod.splits)
  then show "\<exists>e d. seed_cfb_new seed key iv True = Some e \<and> seed_cfb_new seed key iv False = Some d
      \<and> fst (seed_cfb_apply e (a @ b)) = cfb_encrypt block iv (a @ b)
      \<and> fst (seed_cfb_apply e (a @ b)) = fst (seed_cfb_apply e a) @ fst (seed_cfb_apply (snd (seed_cfb_apply e a)) b)
      \<and> fst (seed_cfb_apply d a) = cfb_decrypt block iv a
      \<and> fst (seed_cfb_apply d (fst (seed_cfb_apply e a))) = a"
    using new e d cfb_roundtrip [OF assms(2)] by (intro exI [of _ "?st True"] exI [of _ "?st False"]) simp
qed

definition toy_block :: "bytes \<Rightarrow> bytes" where
  "toy_block x = take 16 (map (\<lambda>b. b * 3 + 7) x @ replicate 16 1)"

theorem seed_cfb_is_cfb_witness:
  "\<exists>e d. seed_cfb_new (\<lambda>_. Some toy_block) [] (replicate 16 5) True = Some e
    \<and> seed_cfb_new (\<lambda>_. Some toy_block) [] (replicate 16 5) False = Some d
    \<and> fst (seed_cfb_apply d (fst (seed_cfb_apply e [1, 2, 3]))) = [1, 2, 3]"
proof -
  have "length (toy_block x) = 16" for x by (simp add: toy_block_def)
  from seed_cfb_is_cfb [of "\<lambda>_. Some toy_block" "[]" toy_block "replicate 16 5" True "[1, 2, 3]" "[]", OF _ this]
  show ?thesis by auto
qed

text \<open>
  C24: What the client writes through a legacy cipher, the peer reads. For every cipher, over a
  transport that accepts bytes in any pieces: the wire is the IV and the encryption of the target's
  address and everything written; a peer with the same cipher and password that reads this wire, in any
  pieces and with any gaps, gets a prefix of it, and all of it when the wire has been read.
\<close>

theorem legacy_stream_delivers:
  assumes "library_ok lib" "new_legacy_stream lib m password iv = Some st" "new_legacy_stream lib m password iv' = Some peer"
    and "new_with_direction lib m (ls_key st) iv False \<noteq> None" "length iv = legacy_iv_len m"
    and "[] \<notin> set (b # bs)" "plain = write_address t @ concat (b # bs)"
    and "steady io" "length iv + length plain \<le> length (tr_out io)" "0 < fuel"
  shows "\<exists>cs' st' io' wire.
      write_each fuel (client_poll_write write_address (poll_write_encrypted lib)) (b # bs) (new_client_stream t, (st, io))
        = Some (cs', (st', io'))
    \<and> tr_sent io' = tr_sent io @ wire \<and> length wire = length iv + length plain
    \<and> (\<forall>pio rooms xs st'' pio'. in_data (tr_in pio) = wire
        \<and> read_polls (poll_read_decrypted lib) rooms (peer, pio) = (xs, (st'', pio'))
        \<longrightarrow> (\<exists>rest. got xs @ rest = plain) \<and> (in_data (tr_in pio') = [] \<longrightarrow> got xs = plain))"
proof -
  note streaming = streaming_cipher [OF assms(1)]
  obtain e where e: "new_with_direction lib m (ls_key st) iv True = Some e" "ls_encryptor st = e" "ls_pending st = None"
    "\<not> ls_sent_iv st" "ls_write_iv st = iv" "ls_key peer = ls_key st" "ls_method peer = m" "ls_decryptor peer = None"
    "ls_read_iv peer = []" "ls_read_buffer peer = []"
    using assms(2,3) by (auto simp: new_legacy_stream_def neon_cipher_new_def Let_def)
  obtain d where d: "new_with_direction lib m (ls_key st) iv False = Some d" using assms(4) by blast
  let ?first = "write_address t @ b"
  obtain out c where out: "cipher_apply lib e ?first = (out, c)" by fastforce
  have len: "length out = length ?first" using streamingD(2) [OF streaming, of e ?first] out by simp
  have ne: "b \<noteq> []" using assms(6) by auto
  let ?cs = "new_client_stream t" and ?w = "client_poll_write write_address (poll_write_encrypted lib)"
  obtain io1 where io1: "?w b (?cs, (st, io))
      = (Ready (length b), ?cs\<lparr>cs_target := None\<rparr>, (st\<lparr>ls_sent_iv := True, ls_encryptor := c\<rparr>, io1))"
    "steady io1" "tr_sent io1 = tr_sent io @ iv @ out" "length (tr_out io) \<le> length (tr_out io1) + length (iv @ out)"
    using steady_client_poll [of io st ?cs b ?first write_address lib out c "iv @ out"] assms(7-9) e out len ne
    by (auto simp: new_client_stream_def)
  have first: "write_all fuel ?w b (?cs, (st, io)) = Some (?cs\<lparr>cs_target := None\<rparr>, (st\<lparr>ls_sent_iv := True, ls_encryptor := c\<rparr>, io1))"
    using write_all_at_once [where w = ?w, OF io1(1) ne assms(10)] by blast
  obtain cs' st' io' where later: "write_each fuel ?w bs (?cs\<lparr>cs_target := None\<rparr>, (st\<lparr>ls_sent_iv := True, ls_encryptor := c\<rparr>, io1))
      = Some (cs', (st', io'))" "tr_sent io' = tr_sent io1 @ fst (cipher_apply lib c (concat bs))"
    using steady_client_writes [OF streaming, of io1 "st\<lparr>ls_sent_iv := True, ls_encryptor := c\<rparr>" "?cs\<lparr>cs_target := None\<rparr>" bs fuel
        write_address] assms(6,7,9,10) e io1(2,4) len by (auto simp: new_client_stream_def)
  let ?ct = "fst (cipher_apply lib e plain)"
  have ct: "out @ fst (cipher_apply lib c (concat bs)) = ?ct"
    using streamingD(1) [OF streaming, of e ?first "concat bs"] out assms(7) by (simp split: prod.splits)
  have reads: "(\<exists>rest. got xs @ rest = plain) \<and> (in_data (tr_in pio') = [] \<longrightarrow> got xs = plain)"
    if "in_data (tr_in pio) = iv @ ?ct" "read_polls (poll_read_decrypted lib) rooms (peer, pio) = (xs, (st'', pio'))"
    for pio rooms xs st'' pio'
  proof -
    have "legacy_read_inv lib iv ?ct plain [] (peer, pio)"
      using that(1) e d assms(5) cipher_inverse [OF assms(1) e(1) d] by (simp add: legacy_read_inv_def)
    from legacy_read_polls [OF streaming this that(2)]
    have inv: "legacy_read_inv lib iv ?ct plain (got xs) (st'', pio')" by simp
    show ?thesis
    proof (cases "ls_decryptor st''")
      case None
      then have none: "got xs = []" "length (ls_read_iv st'') \<le> length iv" "ls_read_iv st'' @ in_data (tr_in pio') = iv @ ?ct"
        using inv by (simp_all add: legacy_read_inv_def)
      have "0 < length ?ct" using streamingD(2) [OF streaming, of e plain] ne assms(7) by simp
      then have "in_data (tr_in pio') \<noteq> []" using none(2) arg_cong [OF none(3), of length] by auto
      then show ?thesis using none(1) by simp
    next
      case (Some c)
      moreover have "fst (cipher_apply lib c []) = []" using streamingD(2) [OF streaming, of c "[]"] by simp
      ultimately show ?thesis using inv by (auto simp: legacy_read_inv_def)
    qed
  qed
  have len_ct: "length ?ct = length plain" by (rule streamingD(2) [OF streaming])
  have "write_each fuel ?w (b # bs) (?cs, (st, io)) = Some (cs', (st', io'))" using first later(1) by simp
  moreover have "tr_sent io' = tr_sent io @ iv @ ?ct" using later(2) io1(3) by (simp add: ct [symmetric])
  moreover have "length (iv @ ?ct) = length iv + length plain" using len_ct by simp
  ultimately show ?thesis using reads by blast
qed


definition toy_library :: "byte cipher_library" where
  "toy_library = \<lparr>lib_new = (\<lambda>m encrypt key iv. Some 5), lib_crypt = (\<lambda>k d. (map (\<lambda>b. b XOR k) d, k)),
     lib_rc4 = (\<lambda>k. Some 9), lib_seed = (\<lambda>k. Some toy_block), lib_digest = (\<lambda>d. replicate 16 3)\<rparr>"

lemma toy_library_ok: "library_ok toy_library"
proof -
  have "length (toy_block x) = 16" for x by (cases "16 \<le> length x") (simp_all add: toy_block_def)
  then show ?thesis by (simp add: library_ok_def streaming_def toy_library_def comp_def word_bw_assocs(3))
qed

lemma toy_stream: "\<exists>st. new_legacy_stream toy_library SeedCfb ''p'' (replicate 16 5) = Some st
    \<and> new_with_direction toy_library SeedCfb (ls_key st) (replicate 16 5) False \<noteq> None"
proof -
  let ?key = "legacy_evp_bytes_to_key (lib_digest toy_library) (as_bytes ''p'') (legacy_key_len SeedCfb)"
  have "new_with_direction toy_library SeedCfb ?key (replicate 16 5) encrypt \<noteq> None" for encrypt
    by (simp add: new_with_direction_def seed_cfb_new_def toy_library_def)
  from this [of True] this [of False] show ?thesis by (auto simp: new_legacy_stream_def neon_cipher_new_def Let_def)
qed

theorem legacy_stream_delivers_witness:
  "\<exists>st cs' st' io' wire. new_legacy_stream toy_library SeedCfb ''p'' (replicate 16 5) = Some st
    \<and> write_each 9 (client_poll_write (\<lambda>_. [1]) (poll_write_encrypted toy_library)) [[2], [3]]
        (new_client_stream (DomainNameAddress ''a'' 1), (st, \<lparr>tr_in = [], tr_out = replicate 30 (WriteAccept 2), tr_sent = []\<rparr>))
      = Some (cs', (st', io'))
    \<and> tr_sent io' = wire \<and> length wire = 19
    \<and> (\<forall>pio rooms xs st'' pio'. in_data (tr_in pio) = wire
        \<and> read_polls (poll_read_decrypted toy_library) rooms (st, pio) = (xs, (st'', pio'))
        \<longrightarrow> (in_data (tr_in pio') = [] \<longrightarrow> got xs = [1, 2, 3]))"
proof -
  obtain st where st: "new_legacy_stream toy_library SeedCfb ''p'' (replicate 16 5) = Some st"
    "new_with_direction toy_library SeedCfb (ls_key st) (replicate 16 5) False \<noteq> None" using toy_stream by blast
  let ?io = "\<lparr>tr_in = [], tr_out = replicate 30 (WriteAccept 2), tr_sent = []\<rparr>"
  have iv: "length (replicate 16 5) = legacy_iv_len SeedCfb" by (simp add: legacy_iv_len_def)
  have steady: "steady ?io" by (simp add: steady_def)
  have plain: "[1, 2, 3] = (\<lambda>_. [1]) (DomainNameAddress ''a'' 1) @ concat [[2], [3]]" by simp
  have bufs: "[] \<notin> set [[2 :: byte], [3]]" by simp
  have room: "length (replicate 16 (5 :: byte)) + length [1, 2, 3 :: byte] \<le> length (tr_out ?io)" by simp
  from legacy_stream_delivers [where t = "DomainNameAddress ''a'' 1" and write_address = "\<lambda>_. [1]" and fuel = 9,
      OF toy_library_ok st(1) st(1) st(2) iv bufs plain steady room] st(1)
  show ?thesis by fastforce
qed

text \<open>
  A legacy cipher sends what blocks twice. When the transport blocks once under a write, the client
  stream polls the encrypted stream again with the same bytes, as it must; that stream finishes the
  pending copy and then encrypts and sends the bytes again. The peer decrypts everything twice.
\<close>

theorem legacy_backpressure_doubles:
  assumes "library_ok lib" "new_legacy_stream lib m password iv = Some st" "buf \<noteq> []"
    and "payload = write_address t @ buf" "length iv + length payload \<le> n"
    and "tr_out io = [WriteBlock, WriteAccept n, WriteAccept n]"
  shows "\<exists>e cs' st' io'. new_with_direction lib m (ls_key st) iv True = Some e
    \<and> write_all 2 (client_poll_write write_address (poll_write_encrypted lib)) buf (new_client_stream t, (st, io))
      = Some (cs', (st', io'))
    \<and> tr_sent io' = tr_sent io @ iv @ fst (cipher_apply lib e (payload @ payload))"
proof -
  note streaming = streaming_cipher [OF assms(1)]
  obtain e where e: "new_with_direction lib m (ls_key st) iv True = Some e" "ls_encryptor st = e" "ls_pending st = None"
    "\<not> ls_sent_iv st" "ls_write_iv st = iv"
    using assms(2) by (auto simp: new_legacy_stream_def neon_cipher_new_def Let_def)
  obtain out c where out: "cipher_apply lib e payload = (out, c)" by fastforce
  obtain out' c' where out': "cipher_apply lib c payload = (out', c')" by fastforce
  have len: "length out = length payload" "length out' = length payload"
    using streamingD(2) [OF streaming, of e payload] streamingD(2) [OF streaming, of c payload] out out' by simp_all
  have ne: "out \<noteq> []" "out' \<noteq> []" "0 < length payload" using assms(3,4) len by auto
  let ?w = "poll_write_encrypted lib" and ?p = "new_pending payload (length buf)"
  let ?q = "new_pending (iv @ out) (length payload)"
  let ?io1 = "io\<lparr>tr_out := [WriteAccept n, WriteAccept n]\<rparr>"
  let ?io2 = "io\<lparr>tr_out := [WriteAccept n], tr_sent := tr_sent io @ iv @ out\<rparr>"
  let ?io3 = "io\<lparr>tr_out := [], tr_sent := tr_sent io @ iv @ out @ out'\<rparr>"
  let ?st1 = "st\<lparr>ls_sent_iv := True, ls_encryptor := c, ls_pending := Some ?q\<rparr>"
  let ?st2 = "st\<lparr>ls_sent_iv := True, ls_encryptor := c', ls_pending := None\<rparr>"
  have blocked: "?w payload (st, io) = (Pending, ?st1, ?io1)"
    using e out ne assms(6)
    by (simp add: poll_write_encrypted_def flush_pending_def poll_write_all.simps [of poll_write_io ?q] poll_write_io_def Let_def)
  have send: "poll_write_all poll_write_io (new_pending x k) y
      = (Ready k, (new_pending x k)\<lparr>pw_offset := length x\<rparr>, y\<lparr>tr_out := es, tr_sent := tr_sent y @ x\<rparr>)"
    if "x \<noteq> []" "length x \<le> n" "tr_out y = WriteAccept n # es" for x k y es
    using that by (simp add: poll_write_all.simps [of poll_write_io "new_pending x k"] poll_write_io_def
        poll_write_all.simps [of poll_write_io "_\<lparr>pw_offset := _\<rparr>"])
  have again: "?w payload (?st1, ?io1) = (Ready (length payload), ?st2, ?io3)"
    using out' ne len assms(5) send [of "iv @ out" ?io1 "[WriteAccept n]" "length payload"] send [of out' ?io2 "[]" "length payload"]
    by (simp add: poll_write_encrypted_def flush_pending_def Let_def)
  let ?cs = "new_client_stream t"
  have "poll_write_all ?w ?p (st, io) = (Pending, ?p, (?st1, ?io1))"
    using blocked ne by (simp add: poll_write_all.simps [of ?w ?p])
  then have first: "client_poll_write write_address ?w buf (?cs, (st, io))
      = (Pending, ?cs\<lparr>cs_target := None, cs_pending := Some ?p\<rparr>, (?st1, ?io1))"
    using assms(4) by (simp add: client_poll_write_def flush_pending_def new_client_stream_def Let_def)
  have "poll_write_all ?w ?p (?st1, ?io1) = (Ready (length buf), ?p\<lparr>pw_offset := length payload\<rparr>, (?st2, ?io3))"
    using again ne by (simp add: poll_write_all.simps [of ?w ?p] poll_write_all.simps [of ?w "_\<lparr>pw_offset := _\<rparr>"])
  then have second: "client_poll_write write_address ?w buf (?cs\<lparr>cs_target := None, cs_pending := Some ?p\<rparr>, (?st1, ?io1))
      = (Ready (length buf), ?cs\<lparr>cs_target := None, cs_pending := None\<rparr>, (?st2, ?io3))"
    by (simp add: client_poll_write_def flush_pending_def new_client_stream_def)
  obtain b bs where b: "buf = b # bs" using assms(3) by (cases buf) auto
  have "write_all 2 (client_poll_write write_address ?w) buf (?cs, (st, io))
      = Some (?cs\<lparr>cs_target := None, cs_pending := None\<rparr>, (?st2, ?io3))"
    using first second by (simp add: b numeral_2_eq_2)
  moreover have "fst (cipher_apply lib e (payload @ payload)) = out @ out'"
    using streamingD(1) [OF streaming, of e payload payload] out out' by simp
  ultimately show ?thesis using e(1) by auto
qed

theorem legacy_backpressure_doubles_witness:
  "\<exists>st cs' st' io'. new_legacy_stream toy_library Salsa20 ''p'' [1, 2, 3, 4, 5, 6, 7, 8] = Some st
    \<and> write_all 2 (client_poll_write (\<lambda>_. [0]) (poll_write_encrypted toy_library)) [5]
        (new_client_stream (DomainNameAddress ''a'' 1),
          (st, \<lparr>tr_in = [], tr_out = [WriteBlock, WriteAccept 20, WriteAccept 20], tr_sent = []\<rparr>)) = Some (cs', (st', io'))
    \<and> tr_sent io' = [1, 2, 3, 4, 5, 6, 7, 8] @ [5, 0] @ [5, 0]"
proof -
  obtain st where st: "new_legacy_stream toy_library Salsa20 ''p'' [1, 2, 3, 4, 5, 6, 7, 8] = Some st"
    by (auto simp: new_legacy_stream_def neon_cipher_new_def new_with_direction_def toy_library_def Let_def)
  have e: "new_with_direction toy_library Salsa20 k iv True = Some e \<Longrightarrow> fst (cipher_apply toy_library e [0, 5, 0, 5]) = [5, 0, 5, 0]"
    for k iv e by (auto simp: new_with_direction_def toy_library_def cipher_apply_def)
  from legacy_backpressure_doubles [OF toy_library_ok st, of "[5]" "[0, 5]" "\<lambda>_. [0]" "DomainNameAddress ''a'' 1" 20
      "\<lparr>tr_in = [], tr_out = [WriteBlock, WriteAccept 20, WriteAccept 20], tr_sent = []\<rparr>"] st e
  show ?thesis by fastforce
qed


section \<open>The key of a password\<close>

primrec evp_digest :: "(bytes \<Rightarrow> bytes) \<Rightarrow> bytes \<Rightarrow> nat \<Rightarrow> bytes" where
  "evp_digest md5 password 0 = []"
| "evp_digest md5 password (Suc i) = md5 (evp_digest md5 password i @ password)"

definition evp_stream :: "(bytes \<Rightarrow> bytes) \<Rightarrow> bytes \<Rightarrow> nat \<Rightarrow> bytes" where
  "evp_stream md5 password k = concat (map (\<lambda>i. evp_digest md5 password (Suc i)) [0..<k])"

lemma evp_stream_Suc: "evp_stream md5 password (Suc k) = evp_stream md5 password k @ evp_digest md5 password (Suc k)"
  by (simp add: evp_stream_def)

lemma evp_loop_stream:
  assumes "\<And>d. md5 d \<noteq> []" "key_len \<le> length (evp_stream md5 password k) + fuel"
  shows "\<exists>m \<ge> k. evp_loop md5 password key_len fuel (evp_digest md5 password k) (evp_stream md5 password k)
      = evp_stream md5 password m \<and> key_len \<le> length (evp_stream md5 password m)
      \<and> (\<forall>j. k \<le> j \<and> j < m \<longrightarrow> length (evp_stream md5 password j) < key_len)"
  using assms(2)
proof (induction fuel arbitrary: k)
  case 0
  then show ?case by (intro exI [of _ k]) (simp add: evp_loop.simps)
next
  case (Suc fuel)
  show ?case
  proof (cases "length (evp_stream md5 password k) < key_len")
    case False
    then show ?thesis by (intro exI [of _ k]) (simp add: evp_loop.simps)
  next
    case True
    have "0 < length (evp_digest md5 password (Suc k))" using assms(1) by simp
    then have "key_len \<le> length (evp_stream md5 password (Suc k)) + fuel"
      using Suc.prems unfolding evp_stream_Suc length_append by linarith
    from Suc.IH [OF this] obtain m where m: "Suc k \<le> m"
      "evp_loop md5 password key_len fuel (evp_digest md5 password (Suc k)) (evp_stream md5 password (Suc k)) = evp_stream md5 password m"
      "key_len \<le> length (evp_stream md5 password m)"
      "\<forall>j. Suc k \<le> j \<and> j < m \<longrightarrow> length (evp_stream md5 password j) < key_len" by blast
    have "evp_loop md5 password key_len (Suc fuel) (evp_digest md5 password k) (evp_stream md5 password k) = evp_stream md5 password m"
      using True m(2) by (simp add: evp_loop.simps [of md5 password key_len "Suc fuel"] evp_stream_Suc Let_def)
    moreover have "\<forall>j. k \<le> j \<and> j < m \<longrightarrow> length (evp_stream md5 password j) < key_len"
      using m(4) True by (metis le_eq_less_or_eq Suc_leI)
    ultimately show ?thesis using m(1,3) by (intro exI [of _ m]) simp
  qed
qed

text \<open>
  C34: the key derivation ends, with a key of the length asked for. When MD5 gives at least a byte, as
  many rounds as the key has bytes are enough, more change nothing, and the key is the front of the
  digests \<open>D1 @ D2 @ \<dots>\<close>, each the MD5 of the one before and the password.
\<close>

theorem evp_key_complete:
  assumes "\<And>d. md5 d \<noteq> []" "key_len \<le> fuel"
  shows "take key_len (evp_loop md5 password key_len fuel [] []) = legacy_evp_bytes_to_key md5 password key_len
    \<and> length (legacy_evp_bytes_to_key md5 password key_len) = key_len
    \<and> (\<exists>m. legacy_evp_bytes_to_key md5 password key_len = take key_len (evp_stream md5 password m)
        \<and> key_len \<le> length (evp_stream md5 password m) \<and> m \<le> key_len)"
proof -
  have start: "evp_digest md5 password 0 = []" "evp_stream md5 password 0 = []" by (simp_all add: evp_stream_def)
  have grow: "k \<le> length (evp_stream md5 password k)" for k
  proof (induction k)
    case (Suc k)
    have "0 < length (evp_digest md5 password (Suc k))" using assms(1) by simp
    then show ?case using Suc unfolding evp_stream_Suc length_append by linarith
  qed simp
  have run: "\<exists>m \<le> key_len. evp_loop md5 password key_len f [] [] = evp_stream md5 password m
      \<and> key_len \<le> length (evp_stream md5 password m) \<and> (\<forall>j < m. length (evp_stream md5 password j) < key_len)"
    if le: "key_len \<le> f" for f
  proof -
    obtain m where m: "evp_loop md5 password key_len f [] [] = evp_stream md5 password m"
      "key_len \<le> length (evp_stream md5 password m)" "\<forall>j. j < m \<longrightarrow> length (evp_stream md5 password j) < key_len"
      using evp_loop_stream [of md5 key_len password 0 f, OF assms(1)] le unfolding start by auto
    have "m \<le> key_len" using m(3) grow [of key_len] by (metis not_le)
    with m show ?thesis by blast
  qed
  obtain m where m: "evp_loop md5 password key_len key_len [] [] = evp_stream md5 password m" "m \<le> key_len"
    "key_len \<le> length (evp_stream md5 password m)" "\<forall>j < m. length (evp_stream md5 password j) < key_len"
    using run [of key_len] by blast
  obtain m' where m': "evp_loop md5 password key_len fuel [] [] = evp_stream md5 password m'"
    "key_len \<le> length (evp_stream md5 password m')" "\<forall>j < m'. length (evp_stream md5 password j) < key_len"
    using run [OF assms(2)] by blast
  have "m = m'" using m(3,4) m'(2,3) by (metis linorder_neqE_nat not_le)
  then show ?thesis using m m' by (auto simp: legacy_evp_bytes_to_key_def)
qed

theorem evp_key_complete_witness:
  "length (legacy_evp_bytes_to_key (\<lambda>d. [9, 8]) [1] 5) = 5 \<and> take 5 (evp_loop (\<lambda>d. [9, 8]) [1] 5 7 [] []) = [9, 8, 9, 8, 9]"
proof -
  have "legacy_evp_bytes_to_key (\<lambda>d. [9, 8]) [1] 5 = [9, 8, 9, 8, 9]" by code_simp
  with evp_key_complete [of "\<lambda>d. [9, 8]" 5 7 "[1]"] show ?thesis by simp
qed

end
