(* ===== verification/Ssr_Frames.thy ===== *)
theory Ssr_Frames
  imports Poll_Io
begin

text \<open>
  What the ShadowsocksR codecs share (\<open>adapter/shadowsocks/ssr.rs\<close>): little-endian integers, the Adler-32
  checksum, HMAC-MD5, the size of an address at the front of a payload, and the loop that takes frames
  off a receive buffer.

  Every \<open>decode\<close> of the file is the same loop around the treatment of one frame, which either waits for
  more bytes (with the codec as it then is), rejects what is there, or takes a frame and goes on. The loop is \<open>frame_loop\<close>, over a function
  \<open>step\<close> for one frame that may change the codec's state; the locale says when it does not matter how
  the bytes were cut into reads.
\<close>

section \<open>Little-endian integers\<close>

definition to_le :: "nat \<Rightarrow> nat \<Rightarrow> bytes" where
  "to_le n v = rev (to_be n v)"

definition le_nat :: "bytes \<Rightarrow> nat" where
  "le_nat bs = be_nat (rev bs)"

lemma length_to_le [simp]: "length (to_le n v) = n"
  by (simp add: to_le_def)

lemma le_nat_to_le [wire]: "le_nat (to_le n v) = v mod 256 ^ n"
  by (simp add: le_nat_def to_le_def be_nat_to_be)

lemma to_le_le_nat [wire]: "to_le (length bs) (le_nat bs) = bs"
  using to_be_be_nat [of "rev bs"] by (simp add: le_nat_def to_le_def)

definition le16 :: "byte \<Rightarrow> byte \<Rightarrow> nat" where
  "le16 a b = be16 b a"

lemma le16_to_le: "le16 (to_le 2 v ! 0) (to_le 2 v ! Suc 0) = v mod 65536"
  by (simp add: le16_def to_le_def rev_nth be16_to_be)

definition u32_le :: "u32 \<Rightarrow> bytes" where
  "u32_le w = to_le 4 (unat w)"

definition u32_of_le :: "bytes \<Rightarrow> u32" where
  "u32_of_le bs = of_nat (le_nat bs)"

lemma length_u32_le [simp]: "length (u32_le w) = 4"
  by (simp add: u32_le_def)

lemma u32_of_le_le [simp]: "u32_of_le (u32_le w) = w"
proof -
  have "unat w < 2 ^ LENGTH(32)" by (rule unsigned_less)
  then show ?thesis by (simp add: u32_of_le_def u32_le_def le_nat_to_le)
qed

section \<open>Checksums\<close>

definition adler_byte :: "nat \<times> nat \<Rightarrow> byte \<Rightarrow> nat \<times> nat" where
  "adler_byte = (\<lambda>(a, b) x. let a = (a + unat x) mod 65521 in (a, (b + a) mod 65521))"

definition adler32 :: "bytes \<Rightarrow> u32" where
  "adler32 d = (case foldl adler_byte (1, 0) d of (a, b) \<Rightarrow> push_bit 16 (of_nat b) OR of_nat a)"

definition hmac_md5 :: "(bytes \<Rightarrow> bytes) \<Rightarrow> bytes \<Rightarrow> bytes \<Rightarrow> bytes" where
  "hmac_md5 md5 key d =
    (let block = (if 64 < length key then take 16 (md5 key) @ replicate 48 0 else key @ replicate (64 - length key) 0);
         ipad = map (\<lambda>x. 0x36 XOR x) block;
         opad = map (\<lambda>x. 0x5c XOR x) block
     in md5 (opad @ md5 (ipad @ d)))"

lemma length_hmac_md5: "(\<And>d. length (md5 d) = n) \<Longrightarrow> length (hmac_md5 md5 key d) = n"
  by (simp add: hmac_md5_def Let_def)

section \<open>The address at the front\<close>

definition get_ssr_head_size :: "bytes \<Rightarrow> nat \<Rightarrow> nat" where
  "get_ssr_head_size d fallback =
    (case d of
       [] \<Rightarrow> fallback
     | x # r \<Rightarrow>
         (if x AND 7 = 1 then 7
          else if x AND 7 = 4 then 19
          else if x AND 7 = 3 \<and> 2 \<le> length d then 4 + unat (d ! 1)
          else fallback))"

text \<open>\<open>r\<close> is a random byte.\<close>

definition get_auth_sha1_v4_data_len :: "byte \<Rightarrow> bytes \<Rightarrow> nat" where
  "get_auth_sha1_v4_data_len r d = min (length d) (get_ssr_head_size d 30 + unat r mod 32)"

text \<open>Random padding in front of a payload, behind its length; \<open>fill n\<close> are \<open>n\<close> random bytes.\<close>

definition pack_auth_sha1_v4_random :: "(nat \<Rightarrow> bytes) \<Rightarrow> nat \<Rightarrow> bytes" where
  "pack_auth_sha1_v4_random fill n =
    (if n < 128 then [of_nat (n + 1)] @ fill n else [255] @ to_be 2 (n + 3) @ fill n)"

text \<open>\<open>chunks(n)\<close> of a slice.\<close>

function chunks_of :: "nat \<Rightarrow> bytes \<Rightarrow> bytes list" where
  "chunks_of n d = (if d = [] \<or> n = 0 then [] else take n d # chunks_of n (drop n d))"
  by auto
termination by (relation "measure (\<lambda>(n, d). length d)") auto

declare chunks_of.simps [simp del]

lemma concat_chunks_of: "0 < n \<Longrightarrow> concat (chunks_of n d) = d"
  by (induction n d rule: chunks_of.induct) (subst chunks_of.simps, auto)

lemma length_chunks_of: "c \<in> set (chunks_of n d) \<Longrightarrow> c \<noteq> [] \<and> length c \<le> n"
proof (induction n d rule: chunks_of.induct)
  case (1 n d)
  then show ?case by (subst (asm) chunks_of.simps) (auto split: if_splits)
qed

section \<open>The receive loop\<close>

datatype 's frame_step = Wait 's | Reject 's bytes | Took 's bytes bytes

text \<open>
  \<open>Reject\<close> has what stays in the buffer. A frame that takes nothing would make the loop spin; none of the
  codecs has one, and the loop stops there.
\<close>

function frame_loop :: "('s \<Rightarrow> bytes \<Rightarrow> 's frame_step) \<Rightarrow> 's \<Rightarrow> bytes \<Rightarrow> bytes
    \<Rightarrow> (io_error, unit) res \<times> 's \<times> bytes \<times> bytes" where
  "frame_loop step st recv out =
    (case step st recv of
       Wait st' \<Rightarrow> (Ok (), st', recv, out)
     | Reject st' recv' \<Rightarrow> (Err InvalidData, st', recv', out)
     | Took st' d rest \<Rightarrow>
         (if length rest < length recv then frame_loop step st' rest (out @ d) else (Ok (), st', rest, out @ d)))"
  by auto
termination by (relation "measure (\<lambda>(step, st, recv, out). length recv)") auto

declare frame_loop.simps [simp del]

text \<open>A run over several reads that meets no error: the state, what is left, and what came out.\<close>

fun frame_reads :: "('s \<Rightarrow> bytes \<Rightarrow> 's frame_step) \<Rightarrow> 's \<Rightarrow> bytes \<Rightarrow> bytes list \<Rightarrow> ('s \<times> bytes \<times> bytes) option" where
  "frame_reads step st recv [] = Some (st, recv, [])"
| "frame_reads step st recv (c # cs) =
    (case frame_loop step st (recv @ c) [] of
       (Inr _, st', recv', out) \<Rightarrow> map_option (\<lambda>(st'', recv'', out'). (st'', recv'', out @ out')) (frame_reads step st' recv' cs)
     | (Inl _, _) \<Rightarrow> None)"

text \<open>Frames one behind the other, in front of anything.\<close>

fun frames_take :: "('s \<Rightarrow> bytes \<Rightarrow> 's frame_step) \<Rightarrow> 's \<Rightarrow> (bytes \<times> bytes) list \<Rightarrow> 's \<Rightarrow> bool" where
  "frames_take step st [] st' = (st' = st)"
| "frames_take step st ((f, d) # fs) st' = (\<exists>st1. (\<forall>r. step st (f @ r) = Took st1 d r) \<and> frames_take step st1 fs st')"

locale frame_codec =
  fixes step :: "'s \<Rightarrow> bytes \<Rightarrow> 's frame_step"
  assumes wait_again: "step st b = Wait st' \<Longrightarrow> step st' (b @ e) = step st (b @ e)"
    and took_shrinks: "step st b = Took st' d r \<Longrightarrow> length r < length b"
    and took_local: "step st b = Took st' d r \<Longrightarrow> step st (b @ e) = Took st' d (r @ e)"
    and reject_local: "step st b = Reject st' r \<Longrightarrow> \<exists>st'' r''. step st (b @ e) = Reject st'' r''"
begin

lemma loop_took: "step st b = Took st' d r \<Longrightarrow> frame_loop step st b out = frame_loop step st' r (out @ d)"
  by (simp add: frame_loop.simps [of step st b] took_shrinks)

lemma loop_wait: "step st b = Wait st' \<Longrightarrow> frame_loop step st b out = (Ok (), st', b, out)"
  by (simp add: frame_loop.simps [of step st b])

lemma loop_output: "frame_loop step st b (out @ out') = (case frame_loop step st b out' of (r, st', b', o') \<Rightarrow> (r, st', b', out @ o'))"
proof (induction step st b out' rule: frame_loop.induct)
  case (1 step st b out')
  then show ?case
    by (simp add: frame_loop.simps [of step st b] split: frame_step.splits prod.splits)
qed

text \<open>What is left when the loop has ended without an error is not a frame.\<close>

lemma loop_rest: "frame_loop step st b out = (Ok (), st', b', out') \<Longrightarrow> step st' b' = Wait st'"
proof (induction "length b" arbitrary: st b out rule: less_induct)
  case less
  show ?case
  proof (cases "step st b")
    case (Took st1 d r)
    then show ?thesis using less took_shrinks loop_took by metis
  next
    case (Wait st1)
    then show ?thesis using less.prems wait_again [OF Wait, of "[]"] loop_wait [OF Wait] by simp
  qed (use less.prems in \<open>auto simp: frame_loop.simps [of step st b]\<close>)
qed

text \<open>A loop that has ended and goes on with more bytes does what it would have done on all of them.\<close>

lemma loop_append:
  "frame_loop step st b out = (Ok (), st', b', out') \<Longrightarrow> frame_loop step st (b @ c) out = frame_loop step st' (b' @ c) out'"
proof (induction "length b" arbitrary: st b out rule: less_induct)
  case less
  show ?case
  proof (cases "step st b")
    case (Took st1 d r)
    have "frame_loop step st1 (r @ c) (out @ d) = frame_loop step st' (b' @ c) out'"
      using less(1) [OF took_shrinks [OF Took], of st1 "out @ d"] less(2) loop_took [OF Took] by simp
    then show ?thesis using loop_took [OF took_local [OF Took]] by simp
  next
    case (Wait st1)
    then have "st' = st1" "b' = b" "out' = out" using less.prems loop_wait [OF Wait] by auto
    then show ?thesis using wait_again [OF Wait, of c] frame_loop.simps [of step st1 "b @ c"] frame_loop.simps [of step st "b @ c"] by simp
  qed (use less.prems in \<open>auto simp: frame_loop.simps [of step st b]\<close>)
qed

lemma loop_frames:
  "frames_take step st fs st' \<Longrightarrow> frame_loop step st (concat (map fst fs) @ r) out = frame_loop step st' r (out @ concat (map snd fs))"
proof (induction fs arbitrary: st out)
  case (Cons x fs)
  obtain f d where x: "x = (f, d)" by (cases x)
  obtain st1 where st1: "\<forall>r. step st (f @ r) = Took st1 d r" "frames_take step st1 fs st'"
    using Cons.prems x by auto
  then show ?case using Cons.IH [OF st1(2)] loop_took [of st "f @ concat (map fst fs) @ r" st1 d] x by simp
qed simp

text \<open>So frames come out in order, however they are cut into reads.\<close>

lemma loop_prefix:
  "frame_loop step st (b @ c) out = (Ok (), st', b', out') \<Longrightarrow> \<exists>st1 b1 out1. frame_loop step st b out = (Ok (), st1, b1, out1)"
proof (induction "length b" arbitrary: st b out rule: less_induct)
  case less
  show ?case
  proof (cases "step st b")
    case (Wait st1)
    then show ?thesis using loop_wait by blast
  next
    case (Reject st1 r)
    then show ?thesis using reject_local [OF Reject, of c] less(2) by (auto simp: frame_loop.simps [of step st "b @ c"])
  next
    case (Took st1 d r)
    have "frame_loop step st1 (r @ c) (out @ d) = (Ok (), st', b', out')"
      using less(2) loop_took [OF took_local [OF Took]] by simp
    from less(1) [OF took_shrinks [OF Took] this] show ?thesis using loop_took [OF Took] by simp
  qed
qed

text \<open>A run over everything, seen from the middle.\<close>

lemma loop_split:
  assumes "frame_loop step st (b @ c) [] = (Ok (), st', b', out)"
  obtains st1 b1 out1 out2 where "frame_loop step st b [] = (Ok (), st1, b1, out1)"
    "frame_loop step st1 (b1 @ c) [] = (Ok (), st', b', out2)" "out = out1 @ out2"
proof -
  obtain st1 b1 out1 where first: "frame_loop step st b [] = (Ok (), st1, b1, out1)"
    using loop_prefix [OF assms] by blast
  have "frame_loop step st1 (b1 @ c) out1 = (Ok (), st', b', out)" using loop_append [OF first, of c] assms by simp
  then obtain out2 where "frame_loop step st1 (b1 @ c) [] = (Ok (), st', b', out2)" "out = out1 @ out2"
    using loop_output [of st1 "b1 @ c" out1 "[]"] by (auto split: prod.splits)
  with first that show thesis by blast
qed

lemma reads_loop:
  assumes "step st recv = Wait st" "frame_loop step st (recv @ concat cs) [] = (Ok (), st', b', out)"
  shows "frame_reads step st recv cs = Some (st', b', out)"
  using assms
proof (induction cs arbitrary: st recv out)
  case Nil
  then show ?case using loop_wait by simp
next
  case (Cons c cs)
  have whole: "frame_loop step st ((recv @ c) @ concat cs) [] = (Ok (), st', b', out)" using Cons.prems(2) by simp
  obtain st1 b1 out1 out2 where first: "frame_loop step st (recv @ c) [] = (Ok (), st1, b1, out1)"
    and out2: "frame_loop step st1 (b1 @ concat cs) [] = (Ok (), st', b', out2)" "out = out1 @ out2"
    by (rule loop_split [OF whole])
  from Cons.IH [OF loop_rest [OF first] out2(1)] first out2(2) show ?case by simp
qed

lemma reads_frames:
  assumes "frames_take step st fs st'" "step st' [] = Wait st'" "step st [] = Wait st" "concat cs = concat (map fst fs)"
  shows "frame_reads step st [] cs = Some (st', [], concat (map snd fs))"
  using loop_frames [OF assms(1), of "[]" "[]"] loop_wait [OF assms(2)] assms(3,4) by (intro reads_loop) simp_all

end

section \<open>Codecs with a receive buffer\<close>

text \<open>
  \<open>decode\<close> of a codec: behind an error the bytes go through as they are; otherwise the loop runs on the
  buffer and the new bytes. It gives what is returned, the codec, and the longer output.
\<close>

definition codec_decode :: "('c \<Rightarrow> bool) \<Rightarrow> ('c \<Rightarrow> bytes) \<Rightarrow> (bytes \<Rightarrow> 'c \<Rightarrow> 'c) \<Rightarrow> ('c \<Rightarrow> bytes \<Rightarrow> 'c frame_step)
    \<Rightarrow> 'c \<Rightarrow> bytes \<Rightarrow> bytes \<Rightarrow> (io_error, unit) res \<times> 'c \<times> bytes" where
  "codec_decode raw recv put step c payload out =
    (if raw c then (Ok (), c, out @ payload)
     else case frame_loop step (put [] c) (recv c @ payload) out of (r, c', b, out') \<Rightarrow> (r, put b c', out'))"

text \<open>Several reads without an error: the codec and everything that came out.\<close>

fun codec_reads :: "('c \<Rightarrow> bytes \<Rightarrow> bytes \<Rightarrow> (io_error, unit) res \<times> 'c \<times> bytes) \<Rightarrow> 'c \<Rightarrow> bytes list \<Rightarrow> ('c \<times> bytes) option" where
  "codec_reads dec c [] = Some (c, [])"
| "codec_reads dec c (p # ps) =
    (case dec c p [] of
       (Inr _, c', out) \<Rightarrow> map_option (\<lambda>(c'', out'). (c'', out @ out')) (codec_reads dec c' ps)
     | (Inl _, _) \<Rightarrow> None)"

locale buffered_codec = frame_codec step
  for step :: "'c \<Rightarrow> bytes \<Rightarrow> 'c frame_step" +
  fixes raw :: "'c \<Rightarrow> bool" and recv :: "'c \<Rightarrow> bytes" and put :: "bytes \<Rightarrow> 'c \<Rightarrow> 'c"
  assumes took_keeps: "step c b = Took c' d r \<Longrightarrow> raw c' = raw c \<and> recv c' = recv c"
    and wait_keeps: "step c b = Wait c' \<Longrightarrow> raw c' = raw c \<and> recv c' = recv c"
    and step_nothing: "step c [] = Wait c"
    and put_laws: "recv (put b c) = b" "put b (put b' c) = put b c" "put (recv c) c = c" "raw (put b c) = raw c"
begin

lemma loop_keeps: "frame_loop step c b out = (Ok (), c', b', out') \<Longrightarrow> raw c' = raw c \<and> recv c' = recv c"
proof (induction "length b" arbitrary: c b out rule: less_induct)
  case less
  show ?case
  proof (cases "step c b")
    case (Took c1 d r)
    then show ?thesis using less took_shrinks loop_took took_keeps by metis
  next
    case (Wait c1)
    then show ?thesis using less.prems wait_keeps loop_wait by auto
  qed (use less.prems in \<open>auto simp: frame_loop.simps [of step c b]\<close>)
qed

lemma reads_decode:
  assumes "\<not> raw c" "recv c = []" "frame_reads step c b cs = Some (c', b', out)"
  shows "codec_reads (codec_decode raw recv put step) (put b c) cs = Some (put b' c', out)"
  using assms
proof (induction cs arbitrary: c b out)
  case (Cons p cs)
  obtain c1 b1 out1 out2 where first: "frame_loop step c (b @ p) [] = (Ok (), c1, b1, out1)"
    "frame_reads step c1 b1 cs = Some (c', b', out2)" "out = out1 @ out2"
    using Cons.prems(3) by (auto split: prod.splits sum.splits)
  have keeps: "raw c1 = raw c" "recv c1 = recv c" using loop_keeps [OF first(1)] by auto
  have "put [] (put b c) = c" using put_laws(2,3) Cons.prems(2) by metis
  then have "codec_decode raw recv put step (put b c) p [] = (Ok (), put b1 c1, out1)"
    using first(1) Cons.prems(1) put_laws(1,4) by (simp add: codec_decode_def)
  then show ?case using Cons.IH [of c1 b1 out2] first(2,3) keeps Cons.prems(1,2) by simp
qed simp

lemma decode_output:
  "codec_decode raw recv put step c p out = (case codec_decode raw recv put step c p [] of (r, c', d) \<Rightarrow> (r, c', out @ d))"
  using loop_output [of "put [] c" "recv c @ p" out "[]"] by (simp add: codec_decode_def split: prod.splits)

text \<open>A fresh codec decodes frames, however they are cut.\<close>

lemma decode_frames:
  assumes "\<not> raw c" "recv c = []" "frames_take step c fs c'" "concat cs = concat (map fst fs)"
  shows "codec_reads (codec_decode raw recv put step) c cs = Some (put [] c', concat (map snd fs))"
proof -
  have "put [] c = c" using put_laws(3) [of c] assms(2) by simp
  then show ?thesis
    using reads_decode [OF assms(1,2) reads_frames [OF assms(3) step_nothing step_nothing assms(4)]] by simp
qed

end

text \<open>A list of frames made by a function of the codec's state.\<close>

fun frames_of :: "('c \<Rightarrow> bytes \<Rightarrow> bytes \<times> 'c) \<Rightarrow> 'c \<Rightarrow> bytes list \<Rightarrow> bytes list \<times> 'c" where
  "frames_of pack c [] = ([], c)"
| "frames_of pack c (d # ds) = (case pack c d of (f, c') \<Rightarrow> (case frames_of pack c' ds of (fs, c'') \<Rightarrow> (f # fs, c'')))"

section \<open>A header with the length, then the frame\<close>

text \<open>
  All the codecs treat a frame in the same order. With more than \<open>k\<close> bytes in the buffer, the first \<open>k\<close> give
  the length of the frame or an error, behind which the buffer is cleared; the loop waits for the whole
  frame; and the frame gives the payload or an error, behind which the buffer is cleared, or only the
  frame is gone, or everything stays.
\<close>

datatype leftover = Cleared | Skipped | Kept

definition framed_step :: "nat \<Rightarrow> ('c \<Rightarrow> bytes \<Rightarrow> 'c + nat) \<Rightarrow> ('c \<Rightarrow> bytes \<Rightarrow> ('c \<times> leftover) + ('c \<times> bytes))
    \<Rightarrow> 'c \<Rightarrow> bytes \<Rightarrow> 'c frame_step" where
  "framed_step k head body c b =
    (if length b \<le> k then Wait c
     else case head c (take k b) of
         Inl c' \<Rightarrow> Reject c' []
       | Inr n \<Rightarrow>
           (if length b < n then Wait c
            else case body c (take n b) of
                Inl (c', rest) \<Rightarrow> Reject c' (case rest of Cleared \<Rightarrow> [] | Skipped \<Rightarrow> drop n b | Kept \<Rightarrow> b)
              | Inr (c', d) \<Rightarrow> Took c' d (drop n b)))"

locale framed_codec =
  fixes k :: nat and head :: "'c \<Rightarrow> bytes \<Rightarrow> 'c + nat" and body :: "'c \<Rightarrow> bytes \<Rightarrow> ('c \<times> leftover) + ('c \<times> bytes)"
    and raw :: "'c \<Rightarrow> bool" and recv :: "'c \<Rightarrow> bytes" and put :: "bytes \<Rightarrow> 'c \<Rightarrow> 'c"
  assumes frame_length: "head c h = Inr n \<Longrightarrow> 0 < n"
    and body_keeps: "body c f = Inr (c', d) \<Longrightarrow> raw c' = raw c \<and> recv c' = recv c"
    and put_rules: "recv (put b c) = b" "put b (put b' c) = put b c" "put (recv c) c = c" "raw (put b c) = raw c"
begin

lemma framed_took:
  "framed_step k head body c b = Took c' d r \<longleftrightarrow> k < length b \<and> (\<exists>n. head c (take k b) = Inr n \<and> n \<le> length b
    \<and> body c (take n b) = Inr (c', d) \<and> r = drop n b)"
  by (auto simp: framed_step_def split: sum.splits prod.splits)

lemma framed_wait: "framed_step k head body c b = Wait c' \<Longrightarrow> c' = c"
  by (auto simp: framed_step_def split: if_splits sum.splits prod.splits)

lemma framed_reject:
  "(\<exists>c' r. framed_step k head body c b = Reject c' r) \<longleftrightarrow> k < length b \<and> ((\<exists>c'. head c (take k b) = Inl c')
    \<or> (\<exists>n x. head c (take k b) = Inr n \<and> n \<le> length b \<and> body c (take n b) = Inl x))"
  by (auto simp: framed_step_def split: sum.splits prod.splits)

text \<open>A whole frame in front of anything.\<close>

lemma framed_whole:
  assumes "k < length f" "head c (take k f) = Inr (length f)" "body c f = Inr (c', d)"
  shows "framed_step k head body c (f @ r) = Took c' d r"
  using assms by (simp add: framed_took)

lemma framed_shrinks: "framed_step k head body c b = Took c' d r \<Longrightarrow> length r < length b"
  using frame_length by (fastforce simp: framed_took)

lemma framed_local:
  "framed_step k head body c b = Took c' d r \<Longrightarrow> framed_step k head body c (b @ e) = Took c' d (r @ e)"
  "framed_step k head body c b = Reject c' r \<Longrightarrow> \<exists>c'' r''. framed_step k head body c (b @ e) = Reject c'' r''"
proof -
  show "framed_step k head body c b = Took c' d r \<Longrightarrow> framed_step k head body c (b @ e) = Took c' d (r @ e)"
    by (auto simp: framed_took)
  assume "framed_step k head body c b = Reject c' r"
  then have "\<exists>c' r. framed_step k head body c b = Reject c' r" by blast
  then show "\<exists>c'' r''. framed_step k head body c (b @ e) = Reject c'' r''"
    unfolding framed_reject by auto
qed

end

sublocale framed_codec \<subseteq> buffered_codec "framed_step k head body" raw recv put
proof unfold_locales
  show "framed_step k head body c b = Took c' d r \<Longrightarrow> raw c' = raw c \<and> recv c' = recv c" for c b c' d r
    using body_keeps by (auto simp: framed_took)
  show "framed_step k head body c [] = Wait c" for c by (simp add: framed_step_def)
qed (use framed_wait framed_shrinks framed_local put_rules in \<open>blast | simp\<close>)+

end
