(* ===== verification/Ssr_Codecs.thy ===== *)
theory Ssr_Codecs
  imports Ssr_Frames Ss_Config
begin

text \<open>
  The ShadowsocksR codecs up to \<open>auth_aes128\<close> (\<open>adapter/shadowsocks/ssr.rs\<close> and
  \<open>ssr/protocol/verify_sha1.rs\<close>). HMAC-SHA1, SHA-1, MD5, CRC-32, AES and Base64 are arguments; so are the
  clock and the random values: \<open>rs i\<close> is the \<open>i\<close>-th random number a call draws, \<open>fill i n\<close> are the \<open>n\<close>
  random bytes it draws the \<open>i\<close>-th time.
\<close>

section \<open>verify_simple\<close>

record verify_simple =
  vs_recv :: bytes
  vs_raw :: bool

definition new_verify_simple :: verify_simple where
  "new_verify_simple = \<lparr>vs_recv = [], vs_raw = False\<rparr>"

definition verify_simple_pack :: "bytes \<Rightarrow> bytes" where
  "verify_simple_pack payload =
    (let d = to_be 2 (length payload + 6) @ payload in d @ u32_le (adler32 d))"

definition verify_simple_encode :: "bytes \<Rightarrow> bytes" where
  "verify_simple_encode payload = concat (map verify_simple_pack (chunks_of 4096 payload))"

definition verify_simple_head :: "verify_simple \<Rightarrow> bytes \<Rightarrow> verify_simple + nat" where
  "verify_simple_head c h =
    (let n = be16 (h ! 0) (h ! 1) in if \<not> (6 \<le> n \<and> n \<le> 8192) then Inl (c\<lparr>vs_raw := True\<rparr>) else Inr n)"

definition verify_simple_body :: "verify_simple \<Rightarrow> bytes \<Rightarrow> (verify_simple \<times> leftover) + (verify_simple \<times> bytes)" where
  "verify_simple_body c frame =
    (let d = take (length frame - 4) frame
     in if adler32 d \<noteq> u32_of_le (drop (length frame - 4) frame) then Inl (c\<lparr>vs_raw := True\<rparr>, Skipped)
        else Inr (c, drop 2 d))"

definition verify_simple_step :: "verify_simple \<Rightarrow> bytes \<Rightarrow> verify_simple frame_step" where
  "verify_simple_step = framed_step 2 verify_simple_head verify_simple_body"

definition verify_simple_decode :: "verify_simple \<Rightarrow> bytes \<Rightarrow> bytes \<Rightarrow> (io_error, unit) res \<times> verify_simple \<times> bytes" where
  "verify_simple_decode = codec_decode vs_raw vs_recv (\<lambda>b c. c\<lparr>vs_recv := b\<rparr>) verify_simple_step"

section \<open>verify_sha1\<close>

record verify_sha1 =
  v1_key :: bytes
  v1_iv :: bytes
  v1_sent_header :: bool
  v1_send_id :: u32
  v1_recv_id :: u32
  v1_recv :: bytes
  v1_raw :: bool

definition new_verify_sha1 :: "bytes \<Rightarrow> bytes \<Rightarrow> verify_sha1" where
  "new_verify_sha1 key iv = \<lparr>v1_key = key, v1_iv = iv, v1_sent_header = False, v1_send_id = 0, v1_recv_id = 0,
     v1_recv = [], v1_raw = False\<rparr>"

definition u32_be :: "u32 \<Rightarrow> bytes" where
  "u32_be w = to_be 4 (unat w)"

definition verify_sha1_pack :: "(bytes \<Rightarrow> bytes \<Rightarrow> bytes) \<Rightarrow> verify_sha1 \<Rightarrow> bytes \<Rightarrow> bytes \<times> verify_sha1" where
  "verify_sha1_pack hmac_sha1 c payload =
    (to_be 2 (length payload) @ take 10 (hmac_sha1 (v1_iv c @ u32_be (v1_send_id c)) payload) @ payload,
     c\<lparr>v1_send_id := v1_send_id c + 1\<rparr>)"

text \<open>The first payload begins with the address, whose type byte is marked.\<close>

definition verify_sha1_header :: "(bytes \<Rightarrow> bytes \<Rightarrow> bytes) \<Rightarrow> verify_sha1 \<Rightarrow> bytes \<Rightarrow> bytes" where
  "verify_sha1_header hmac_sha1 c head =
    (let head = (case head of [] \<Rightarrow> [] | x # r \<Rightarrow> (x OR 0x10) # r)
     in head @ hmac_sha1 (v1_iv c @ v1_key c) head)"

definition verify_sha1_encode :: "(bytes \<Rightarrow> bytes \<Rightarrow> bytes) \<Rightarrow> verify_sha1 \<Rightarrow> bytes \<Rightarrow> bytes \<times> verify_sha1" where
  "verify_sha1_encode hmac_sha1 c payload =
    (let n = (if v1_sent_header c then 0 else min (get_ssr_head_size payload 30) (length payload));
         front = (if v1_sent_header c then [] else verify_sha1_header hmac_sha1 c (take n payload))
     in case frames_of (verify_sha1_pack hmac_sha1) (c\<lparr>v1_sent_header := True\<rparr>) (chunks_of 4096 (drop n payload)) of
          (fs, c) \<Rightarrow> (front @ concat fs, c))"

definition verify_sha1_head :: "verify_sha1 \<Rightarrow> bytes \<Rightarrow> verify_sha1 + nat" where
  "verify_sha1_head c h =
    (let n = be16 (h ! 0) (h ! 1) in if 8192 < n then Inl (c\<lparr>v1_raw := True\<rparr>) else Inr (2 + 10 + n))"

definition verify_sha1_body :: "(bytes \<Rightarrow> bytes \<Rightarrow> bytes) \<Rightarrow> verify_sha1 \<Rightarrow> bytes
    \<Rightarrow> (verify_sha1 \<times> leftover) + (verify_sha1 \<times> bytes)" where
  "verify_sha1_body hmac_sha1 c frame =
    (let expected = hmac_sha1 (v1_iv c @ u32_be (v1_recv_id c)) (drop 12 frame);
         c = c\<lparr>v1_recv_id := v1_recv_id c + 1\<rparr>
     in if take 10 expected \<noteq> take 10 (drop 2 frame) then Inl (c\<lparr>v1_raw := True\<rparr>, Skipped)
        else Inr (c, drop 12 frame))"

definition verify_sha1_step :: "(bytes \<Rightarrow> bytes \<Rightarrow> bytes) \<Rightarrow> verify_sha1 \<Rightarrow> bytes \<Rightarrow> verify_sha1 frame_step" where
  "verify_sha1_step hmac_sha1 = framed_step 12 verify_sha1_head (verify_sha1_body hmac_sha1)"

definition verify_sha1_decode :: "(bytes \<Rightarrow> bytes \<Rightarrow> bytes) \<Rightarrow> verify_sha1 \<Rightarrow> bytes \<Rightarrow> bytes
    \<Rightarrow> (io_error, unit) res \<times> verify_sha1 \<times> bytes" where
  "verify_sha1_decode hmac_sha1 = codec_decode v1_raw v1_recv (\<lambda>b c. c\<lparr>v1_recv := b\<rparr>) (verify_sha1_step hmac_sha1)"

section \<open>auth_simple, auth_sha1 and auth_sha1_v2\<close>

datatype early_auth_kind = EarlySimple | EarlySha1 | EarlySha1V2

record early_auth =
  ea_key :: bytes
  ea_iv :: bytes
  ea_kind :: early_auth_kind
  ea_client_id :: bytes
  ea_connection_id :: u32
  ea_sent_header :: bool
  ea_recv :: bytes
  ea_raw :: bool

text \<open>\<open>client_id n\<close> are \<open>n\<close> random bytes.\<close>

definition new_early_auth :: "bytes \<Rightarrow> bytes \<Rightarrow> early_auth_kind \<Rightarrow> (nat \<Rightarrow> bytes) \<Rightarrow> u32 \<Rightarrow> early_auth" where
  "new_early_auth key iv kind client_id r = \<lparr>ea_key = key, ea_iv = iv, ea_kind = kind,
     ea_client_id = client_id (if kind = EarlySha1V2 then 8 else 4), ea_connection_id = r AND 0x00ffffff,
     ea_sent_header = False, ea_recv = [], ea_raw = False\<rparr>"

definition early_random_len :: "early_auth_kind \<Rightarrow> nat \<Rightarrow> nat" where
  "early_random_len kind r = (case kind of EarlySimple \<Rightarrow> 0 | EarlySha1 \<Rightarrow> r mod 32 | EarlySha1V2 \<Rightarrow> r mod 512)"

definition early_salt :: "early_auth_kind \<Rightarrow> string" where
  "early_salt kind = (case kind of EarlySimple \<Rightarrow> ''auth_simple'' | EarlySha1 \<Rightarrow> ''auth_sha1'' | EarlySha1V2 \<Rightarrow> ''auth_sha1_v2'')"

definition early_push_random :: "(nat \<Rightarrow> bytes) \<Rightarrow> nat \<Rightarrow> bytes" where
  "early_push_random fill n = (if n < 255 then [of_nat n] else [255] @ to_be 2 n) @ fill n"

definition early_auth_data :: "u32 \<Rightarrow> early_auth \<Rightarrow> bytes \<times> early_auth" where
  "early_auth_data time c =
    ((if ea_kind c \<noteq> EarlySha1V2 then u32_le time else []) @ ea_client_id c @ u32_le (ea_connection_id c),
     c\<lparr>ea_connection_id := ea_connection_id c + 1\<rparr>)"

definition early_pack_auth_data :: "(bytes \<Rightarrow> bytes \<Rightarrow> bytes) \<Rightarrow> (bytes \<Rightarrow> u32) \<Rightarrow> u32 \<Rightarrow> nat \<Rightarrow> (nat \<Rightarrow> bytes)
    \<Rightarrow> early_auth \<Rightarrow> bytes \<Rightarrow> bytes \<times> early_auth" where
  "early_pack_auth_data hmac_sha1 crc32 time r fill c payload =
    (if payload = [] then ([], c)
     else let random_len = early_random_len (ea_kind c) r;
              packed_len = 2 + 4 + 1 + random_len + 12 + length payload + 10;
              crc = crc32 (to_be 2 packed_len @ as_bytes (early_salt (ea_kind c)) @ ea_key c);
              (auth, c) = early_auth_data time c;
              out = to_be 2 packed_len @ u32_le crc @ early_push_random fill random_len @ auth @ payload;
              tag = hmac_sha1 (ea_iv c @ ea_key c) (if ea_kind c = EarlySimple then drop 6 out else out)
          in (out @ take 10 tag, c))"

definition early_pack_data :: "(bytes \<Rightarrow> u32) \<Rightarrow> early_auth_kind \<Rightarrow> nat \<Rightarrow> (nat \<Rightarrow> bytes) \<Rightarrow> bytes \<Rightarrow> bytes" where
  "early_pack_data crc32 kind r fill payload =
    (let random_len = early_random_len kind r;
         len = to_be 2 (2 + 2 + 1 + random_len + length payload + 4);
         out = len @ to_le 2 (unat (crc32 len)) @ early_push_random fill random_len @ payload
     in out @ u32_le (adler32 (drop 4 out)))"

definition early_encode :: "(bytes \<Rightarrow> bytes \<Rightarrow> bytes) \<Rightarrow> (bytes \<Rightarrow> u32) \<Rightarrow> u32 \<Rightarrow> (nat \<Rightarrow> nat) \<Rightarrow> (nat \<Rightarrow> nat \<Rightarrow> bytes)
    \<Rightarrow> early_auth \<Rightarrow> bytes \<Rightarrow> bytes \<times> early_auth" where
  "early_encode hmac_sha1 crc32 time rs fill c payload =
    (let unit_len = (if ea_kind c = EarlySimple then 4096 else 8100);
         head = min (get_ssr_head_size payload 30) (length payload);
         n = (if ea_sent_header c then 0
              else case ea_kind c of
                  EarlySimple \<Rightarrow> head
                | EarlySha1 \<Rightarrow> min (head + rs 0 mod 32) (length payload)
                | EarlySha1V2 \<Rightarrow> min (head + rs 0 mod 512) (length payload));
         (front, c) = (if ea_sent_header c then ([], c)
           else early_pack_auth_data hmac_sha1 crc32 time (rs 1) (fill 0) c (take n payload));
         chunks = chunks_of unit_len (drop n payload)
     in (front @ concat (map (\<lambda>i. early_pack_data crc32 (ea_kind c) (rs (2 + i)) (fill (1 + i)) (chunks ! i)) [0..<length chunks]),
         c\<lparr>ea_sent_header := True\<rparr>))"

text \<open>Where the payload begins behind the random bytes (with the length in two bytes behind a 255).\<close>

definition padding_end :: "(byte \<Rightarrow> byte \<Rightarrow> nat) \<Rightarrow> bytes \<Rightarrow> nat" where
  "padding_end int16 frame =
    (if unat (frame ! 4) < 255 then unat (frame ! 4) + 5 else int16 (frame ! 5) (frame ! 6) + 7)"

definition early_head :: "early_auth \<Rightarrow> bytes \<Rightarrow> early_auth + nat" where
  "early_head c h =
    (let n = be16 (h ! 0) (h ! 1) in if \<not> (7 \<le> n \<and> n < 8192) then Inl (c\<lparr>ea_raw := True\<rparr>) else Inr n)"

definition early_body :: "early_auth \<Rightarrow> bytes \<Rightarrow> (early_auth \<times> leftover) + (early_auth \<times> bytes)" where
  "early_body c frame =
    (let d = take (length frame - 4) frame
     in if adler32 d \<noteq> u32_of_le (drop (length frame - 4) frame) then Inl (c\<lparr>ea_raw := True\<rparr>, Skipped)
        else if length frame - 4 < padding_end be16 frame then Inl (c, Skipped)
        else Inr (c, drop (padding_end be16 frame) d))"

definition early_step :: "early_auth \<Rightarrow> bytes \<Rightarrow> early_auth frame_step" where
  "early_step = framed_step 4 early_head early_body"

definition early_decode :: "early_auth \<Rightarrow> bytes \<Rightarrow> bytes \<Rightarrow> (io_error, unit) res \<times> early_auth \<times> bytes" where
  "early_decode = codec_decode ea_raw ea_recv (\<lambda>b c. c\<lparr>ea_recv := b\<rparr>) early_step"


section \<open>auth_sha1_v4\<close>

record sha1_v4 =
  s4_key :: bytes
  s4_iv :: bytes
  s4_client_id :: bytes
  s4_connection_id :: u32
  s4_sent_header :: bool
  s4_recv :: bytes
  s4_raw :: bool

definition new_sha1_v4 :: "bytes \<Rightarrow> bytes \<Rightarrow> bytes \<Rightarrow> u32 \<Rightarrow> sha1_v4" where
  "new_sha1_v4 key iv client_id r = \<lparr>s4_key = key, s4_iv = iv, s4_client_id = client_id,
     s4_connection_id = r AND 0x00ffffff, s4_sent_header = False, s4_recv = [], s4_raw = False\<rparr>"

text \<open>A random length for a payload of \<open>n\<close> bytes; \<open>r\<close> is random.\<close>

definition sha1_v4_random_len :: "nat \<Rightarrow> nat \<Rightarrow> nat" where
  "sha1_v4_random_len r n = (if 1200 < n then 0 else if 400 < n then r mod 256 else r mod 512)"

definition sha1_v4_auth_data :: "u32 \<Rightarrow> sha1_v4 \<Rightarrow> bytes \<times> sha1_v4" where
  "sha1_v4_auth_data time c =
    (u32_le time @ s4_client_id c @ u32_le (s4_connection_id c), c\<lparr>s4_connection_id := s4_connection_id c + 1\<rparr>)"

definition sha1_v4_pack_auth_data :: "(bytes \<Rightarrow> bytes \<Rightarrow> bytes) \<Rightarrow> (bytes \<Rightarrow> u32) \<Rightarrow> u32 \<Rightarrow> nat \<Rightarrow> (nat \<Rightarrow> bytes)
    \<Rightarrow> sha1_v4 \<Rightarrow> bytes \<Rightarrow> bytes \<times> sha1_v4" where
  "sha1_v4_pack_auth_data hmac_sha1 crc32 time r fill c d =
    (let random_len = sha1_v4_random_len r (12 + length d);
         packed_len = 2 + 4 + 3 + random_len + 12 + length d + 10 - (if random_len < 128 then 2 else 0);
         crc_data = to_be 2 packed_len @ as_bytes ''auth_sha1_v4'' @ s4_key c;
         (auth, c) = sha1_v4_auth_data time c;
         out = take 2 crc_data @ u32_le (crc32 crc_data) @ pack_auth_sha1_v4_random fill random_len @ auth @ d
     in (out @ take 10 (hmac_sha1 (s4_iv c @ s4_key c) (drop 10 out)), c))"

definition sha1_v4_pack_data :: "(bytes \<Rightarrow> u32) \<Rightarrow> nat \<Rightarrow> (nat \<Rightarrow> bytes) \<Rightarrow> bytes \<Rightarrow> bytes" where
  "sha1_v4_pack_data crc32 r fill d =
    (let random_len = sha1_v4_random_len r (length d);
         len = to_be 2 (2 + 2 + 3 + random_len + length d + 4 - (if random_len < 128 then 2 else 0));
         out = len @ to_le 2 (unat (crc32 len)) @ pack_auth_sha1_v4_random fill random_len @ d
     in out @ u32_le (adler32 (drop 4 out)))"

definition sha1_v4_encode :: "(bytes \<Rightarrow> bytes \<Rightarrow> bytes) \<Rightarrow> (bytes \<Rightarrow> u32) \<Rightarrow> u32 \<Rightarrow> (nat \<Rightarrow> nat) \<Rightarrow> (nat \<Rightarrow> nat \<Rightarrow> bytes)
    \<Rightarrow> sha1_v4 \<Rightarrow> bytes \<Rightarrow> bytes \<times> sha1_v4" where
  "sha1_v4_encode hmac_sha1 crc32 time rs fill c payload =
    (let n = (if s4_sent_header c then 0 else get_auth_sha1_v4_data_len (of_nat (rs 0)) payload);
         (front, c) = (if s4_sent_header c then ([], c)
           else sha1_v4_pack_auth_data hmac_sha1 crc32 time (rs 1) (fill 0) c (take n payload));
         chunks = chunks_of 8100 (drop n payload)
     in (front @ concat (map (\<lambda>i. sha1_v4_pack_data crc32 (rs (2 + i)) (fill (1 + i)) (chunks ! i)) [0..<length chunks]),
         c\<lparr>s4_sent_header := True\<rparr>))"

definition sha1_v4_head :: "(bytes \<Rightarrow> u32) \<Rightarrow> sha1_v4 \<Rightarrow> bytes \<Rightarrow> sha1_v4 + nat" where
  "sha1_v4_head crc32 c h =
    (if unat (crc32 (take 2 h)) mod 65536 \<noteq> le16 (h ! 2) (h ! 3) then Inl c
     else let n = be16 (h ! 0) (h ! 1) in if \<not> (7 \<le> n \<and> n < 8192) then Inl (c\<lparr>s4_raw := True\<rparr>) else Inr n)"

definition sha1_v4_body :: "sha1_v4 \<Rightarrow> bytes \<Rightarrow> (sha1_v4 \<times> leftover) + (sha1_v4 \<times> bytes)" where
  "sha1_v4_body c frame =
    (let d = take (length frame - 4) frame
     in if adler32 d \<noteq> u32_of_le (drop (length frame - 4) frame) then Inl (c\<lparr>s4_raw := True\<rparr>, Cleared)
        else if length frame - 4 < padding_end be16 frame then Inl (c, Kept)
        else Inr (c, drop (padding_end be16 frame) d))"

definition sha1_v4_step :: "(bytes \<Rightarrow> u32) \<Rightarrow> sha1_v4 \<Rightarrow> bytes \<Rightarrow> sha1_v4 frame_step" where
  "sha1_v4_step crc32 = framed_step 4 (sha1_v4_head crc32) sha1_v4_body"

definition sha1_v4_decode :: "(bytes \<Rightarrow> u32) \<Rightarrow> sha1_v4 \<Rightarrow> bytes \<Rightarrow> bytes \<Rightarrow> (io_error, unit) res \<times> sha1_v4 \<times> bytes" where
  "sha1_v4_decode crc32 = codec_decode s4_raw s4_recv (\<lambda>b c. c\<lparr>s4_recv := b\<rparr>) (sha1_v4_step crc32)"

section \<open>auth_aes128\<close>

datatype ssr_hmac_kind = HmacMd5 | HmacSha1

record ssr_digests =
  dg_md5 :: "bytes \<Rightarrow> bytes"
  dg_sha1 :: "bytes \<Rightarrow> bytes"
  dg_hmac_sha1 :: "bytes \<Rightarrow> bytes \<Rightarrow> bytes"

definition hmac_digest :: "ssr_digests \<Rightarrow> ssr_hmac_kind \<Rightarrow> bytes \<Rightarrow> bytes \<Rightarrow> bytes" where
  "hmac_digest dg kind key d = (case kind of HmacMd5 \<Rightarrow> hmac_md5 (dg_md5 dg) key d | HmacSha1 \<Rightarrow> dg_hmac_sha1 dg key d)"

text \<open>In a fixed array of 20 bytes.\<close>

definition digest_fixed :: "ssr_digests \<Rightarrow> ssr_hmac_kind \<Rightarrow> bytes \<Rightarrow> bytes \<Rightarrow> bytes" where
  "digest_fixed dg kind key d =
    (case kind of HmacMd5 \<Rightarrow> hmac_md5 (dg_md5 dg) key d @ replicate 4 0 | HmacSha1 \<Rightarrow> dg_hmac_sha1 dg key d)"

definition hmac_kind_hash :: "ssr_digests \<Rightarrow> ssr_hmac_kind \<Rightarrow> bytes \<Rightarrow> bytes" where
  "hmac_kind_hash dg kind d = (case kind of HmacMd5 \<Rightarrow> dg_md5 dg d | HmacSha1 \<Rightarrow> dg_sha1 dg d)"

record ssr_user =
  su_key :: bytes
  su_id :: bytes

text \<open>
  The user of a protocol parameter \<open>id:password\<close>, where \<open>hash\<close> makes the key of the password; without
  one (or with an empty key) the server's key and a random id.
\<close>

definition ssr_user_data :: "(bytes \<Rightarrow> bytes) \<Rightarrow> bytes \<Rightarrow> bytes \<Rightarrow> string \<Rightarrow> ssr_user" where
  "ssr_user_data hash random_id key param =
    (let user = (case split_once CHR '':'' param of
         Some (uid, password) \<Rightarrow>
           (case parse_unsigned (2 ^ 32 - 1) uid of
              Some n \<Rightarrow> \<lparr>su_key = hash (as_bytes password), su_id = to_le 4 n\<rparr>
            | None \<Rightarrow> \<lparr>su_key = [], su_id = [0, 0, 0, 0]\<rparr>)
       | None \<Rightarrow> \<lparr>su_key = [], su_id = [0, 0, 0, 0]\<rparr>)
     in if su_key user = [] then \<lparr>su_key = key, su_id = random_id\<rparr> else user)"

definition auth_aes_user :: "ssr_digests \<Rightarrow> bytes \<Rightarrow> bytes \<Rightarrow> string \<Rightarrow> ssr_hmac_kind \<Rightarrow> ssr_user" where
  "auth_aes_user dg random_id key param kind = ssr_user_data (hmac_kind_hash dg kind) random_id key param"

definition auth_chain_user :: "bytes \<Rightarrow> bytes \<Rightarrow> string \<Rightarrow> ssr_user" where
  "auth_chain_user random_id key param = ssr_user_data (\<lambda>password. password) random_id key param"

record ssr_auth =
  au_client_id :: bytes
  au_connection_id :: u32
  au_timestamp :: u32

definition new_ssr_auth :: "bytes \<Rightarrow> u32 \<Rightarrow> u32 \<Rightarrow> ssr_auth" where
  "new_ssr_auth client_id r time = \<lparr>au_client_id = client_id, au_connection_id = r AND 0x00ffffff, au_timestamp = time\<rparr>"

text \<open>\<open>aes\<close> encrypts a block with a key of 16 bytes, which is derived with MD5.\<close>

definition encrypted_block :: "(bytes \<Rightarrow> bytes) \<Rightarrow> (bytes \<Rightarrow> string) \<Rightarrow> (bytes \<Rightarrow> bytes \<Rightarrow> bytes) \<Rightarrow> ssr_auth
    \<Rightarrow> bytes \<Rightarrow> nat \<Rightarrow> nat \<Rightarrow> string \<Rightarrow> bytes \<times> ssr_auth" where
  "encrypted_block md5 base64 aes a user_key packed random salt =
    (let a = a\<lparr>au_connection_id := au_connection_id a + 1\<rparr>;
         plain = u32_le (au_timestamp a) @ au_client_id a @ u32_le (au_connection_id a) @ to_le 2 packed @ to_le 2 random
     in (aes (legacy_evp_bytes_to_key md5 (as_bytes (base64 user_key @ salt)) 16) plain, a))"

record auth_aes =
  aa_key :: bytes
  aa_iv :: bytes
  aa_salt :: string
  aa_kind :: ssr_hmac_kind
  aa_user :: ssr_user
  aa_auth :: ssr_auth
  aa_sent_header :: bool
  aa_pack_id :: u32
  aa_recv_id :: u32
  aa_recv :: bytes
  aa_raw :: bool

definition new_auth_aes :: "ssr_digests \<Rightarrow> bytes \<Rightarrow> ssr_auth \<Rightarrow> bytes \<Rightarrow> bytes \<Rightarrow> string \<Rightarrow> ssr_hmac_kind \<Rightarrow> string \<Rightarrow> auth_aes" where
  "new_auth_aes dg random_id auth key iv param kind salt =
    \<lparr>aa_key = key, aa_iv = iv, aa_salt = salt, aa_kind = kind, aa_user = auth_aes_user dg random_id key param kind,
     aa_auth = auth, aa_sent_header = False, aa_pack_id = 1, aa_recv_id = 1, aa_recv = [], aa_raw = False\<rparr>"

text \<open>The random length; \<open>r\<close> is random.\<close>

definition rand_data_len :: "nat \<Rightarrow> nat \<Rightarrow> nat \<Rightarrow> nat" where
  "rand_data_len r data_len full_len =
    (if 32 * 1024 \<le> full_len then 0
     else let rev = 1460 - int data_len - 9
       in if rev = 0 then 0
          else if rev < 0 then (if -1460 < rev then r mod nat (rev + 1460) else r mod 256 mod 32)
          else r mod nat rev)"

definition auth_aes_pack_auth_data :: "ssr_digests \<Rightarrow> (bytes \<Rightarrow> string) \<Rightarrow> (bytes \<Rightarrow> bytes \<Rightarrow> bytes)
    \<Rightarrow> nat \<Rightarrow> byte \<Rightarrow> (nat \<Rightarrow> bytes) \<Rightarrow> auth_aes \<Rightarrow> bytes \<Rightarrow> bytes \<times> auth_aes" where
  "auth_aes_pack_auth_data dg base64 aes r first fill c d =
    (if d = [] then ([], c)
     else let random_len = (if 400 < length d then r mod 512 else r mod 1024);
              packed_len = 7 + 4 + 16 + 4 + random_len + length d + 4;
              mac_key = aa_iv c @ aa_key c;
              (block, auth) = encrypted_block (dg_md5 dg) base64 aes (aa_auth c) (su_key (aa_user c)) packed_len random_len (aa_salt c);
              c = c\<lparr>aa_auth := auth\<rparr>;
              out = [first] @ take 6 (hmac_digest dg (aa_kind c) mac_key [first]);
              out = out @ su_id (aa_user c) @ block;
              out = out @ take 4 (hmac_digest dg (aa_kind c) mac_key (drop 7 out)) @ fill random_len @ d
          in (out @ take 4 (hmac_digest dg (aa_kind c) (su_key (aa_user c)) out), c))"

definition auth_aes_pack_data :: "ssr_digests \<Rightarrow> nat \<Rightarrow> (nat \<Rightarrow> bytes) \<Rightarrow> nat \<Rightarrow> auth_aes \<Rightarrow> bytes \<Rightarrow> bytes \<times> auth_aes" where
  "auth_aes_pack_data dg r fill full_len c d =
    (let random_len = rand_data_len r (length d) full_len;
         len = to_le 2 (2 + 2 + 3 + random_len + length d + 4 - (if random_len < 128 then 2 else 0));
         mac_key = su_key (aa_user c) @ u32_le (aa_pack_id c);
         out = len @ take 2 (digest_fixed dg (aa_kind c) mac_key len) @ pack_auth_sha1_v4_random fill random_len @ d
     in (out @ take 4 (digest_fixed dg (aa_kind c) mac_key (drop 4 out)), c\<lparr>aa_pack_id := aa_pack_id c + 1\<rparr>))"

text \<open>The chunks of \<open>encode\<close>, from the \<open>i\<close>-th on.\<close>

fun auth_aes_pack_chunks :: "ssr_digests \<Rightarrow> (nat \<Rightarrow> nat) \<Rightarrow> (nat \<Rightarrow> nat \<Rightarrow> bytes) \<Rightarrow> nat \<Rightarrow> nat \<Rightarrow> auth_aes \<Rightarrow> bytes list
    \<Rightarrow> bytes \<times> auth_aes" where
  "auth_aes_pack_chunks dg rs fill full_len i c [] = ([], c)"
| "auth_aes_pack_chunks dg rs fill full_len i c (d # ds) =
    (case auth_aes_pack_data dg (rs i) (fill i) full_len c d of
       (f, c) \<Rightarrow> (case auth_aes_pack_chunks dg rs fill full_len (Suc i) c ds of (fs, c) \<Rightarrow> (f @ fs, c)))"

definition auth_aes_encode :: "ssr_digests \<Rightarrow> (bytes \<Rightarrow> string) \<Rightarrow> (bytes \<Rightarrow> bytes \<Rightarrow> bytes)
    \<Rightarrow> (nat \<Rightarrow> nat) \<Rightarrow> (nat \<Rightarrow> nat \<Rightarrow> bytes) \<Rightarrow> auth_aes \<Rightarrow> bytes \<Rightarrow> bytes \<times> auth_aes" where
  "auth_aes_encode dg base64 aes rs fill c payload =
    (let n = (if aa_sent_header c then 0 else get_auth_sha1_v4_data_len (of_nat (rs 0)) payload);
         (front, c) = (if aa_sent_header c then ([], c)
           else auth_aes_pack_auth_data dg base64 aes (rs 1) (of_nat (rs 2)) (fill 0) c (take n payload));
         c = c\<lparr>aa_sent_header := True\<rparr>
     in case auth_aes_pack_chunks dg rs fill (length payload) 3 c (chunks_of 8100 (drop n payload)) of
          (fs, c) \<Rightarrow> (front @ fs, c))"

definition auth_aes_head :: "ssr_digests \<Rightarrow> auth_aes \<Rightarrow> bytes \<Rightarrow> auth_aes + nat" where
  "auth_aes_head dg c h =
    (let mac = digest_fixed dg (aa_kind c) (su_key (aa_user c) @ u32_le (aa_recv_id c)) (take 2 h)
     in if take 2 mac \<noteq> take 2 (drop 2 h) then Inl c
        else let n = le16 (h ! 0) (h ! 1) in if \<not> (7 \<le> n \<and> n < 8192) then Inl (c\<lparr>aa_raw := True\<rparr>) else Inr n)"

definition auth_aes_body :: "ssr_digests \<Rightarrow> auth_aes \<Rightarrow> bytes \<Rightarrow> (auth_aes \<times> leftover) + (auth_aes \<times> bytes)" where
  "auth_aes_body dg c frame =
    (let d = take (length frame - 4) frame;
         mac = digest_fixed dg (aa_kind c) (su_key (aa_user c) @ u32_le (aa_recv_id c)) d
     in if take 4 mac \<noteq> drop (length frame - 4) frame then Inl (c\<lparr>aa_raw := True\<rparr>, Cleared)
        else let c = c\<lparr>aa_recv_id := aa_recv_id c + 1\<rparr>
          in if length frame - 4 < padding_end le16 frame then Inl (c, Kept)
             else Inr (c, drop (padding_end le16 frame) d))"

definition auth_aes_step :: "ssr_digests \<Rightarrow> auth_aes \<Rightarrow> bytes \<Rightarrow> auth_aes frame_step" where
  "auth_aes_step dg = framed_step 4 (auth_aes_head dg) (auth_aes_body dg)"

definition auth_aes_decode :: "ssr_digests \<Rightarrow> auth_aes \<Rightarrow> bytes \<Rightarrow> bytes \<Rightarrow> (io_error, unit) res \<times> auth_aes \<times> bytes" where
  "auth_aes_decode dg = codec_decode aa_raw aa_recv (\<lambda>b c. c\<lparr>aa_recv := b\<rparr>) (auth_aes_step dg)"

text \<open>Packets, for UDP.\<close>

definition auth_aes_encode_packet :: "ssr_digests \<Rightarrow> auth_aes \<Rightarrow> bytes \<Rightarrow> bytes" where
  "auth_aes_encode_packet dg c payload =
    (let out = payload @ su_id (aa_user c) in out @ take 4 (hmac_digest dg (aa_kind c) (su_key (aa_user c)) out))"

definition auth_aes_decode_packet :: "ssr_digests \<Rightarrow> auth_aes \<Rightarrow> bytes \<Rightarrow> (io_error, bytes) res" where
  "auth_aes_decode_packet dg c payload =
    (if length payload < 4 then Err InvalidData
     else let n = length payload - 4
       in if take 4 (hmac_digest dg (aa_kind c) (aa_key c) (take n payload)) \<noteq> drop n payload then Err InvalidData
          else Ok (take n payload))"


section \<open>The codecs as frame codecs\<close>

interpretation verify_simple: framed_codec 2 verify_simple_head verify_simple_body vs_raw vs_recv "\<lambda>b c. c\<lparr>vs_recv := b\<rparr>"
  by unfold_locales (auto simp: verify_simple_head_def verify_simple_body_def Let_def split: if_splits)

interpretation verify_sha1: framed_codec 12 verify_sha1_head "verify_sha1_body hmac_sha1" v1_raw v1_recv "\<lambda>b c. c\<lparr>v1_recv := b\<rparr>"
  by unfold_locales (auto simp: verify_sha1_head_def verify_sha1_body_def Let_def split: if_splits)

interpretation early: framed_codec 4 early_head early_body ea_raw ea_recv "\<lambda>b c. c\<lparr>ea_recv := b\<rparr>"
  by unfold_locales (auto simp: early_head_def early_body_def Let_def split: if_splits)

interpretation sha1_v4: framed_codec 4 "sha1_v4_head crc32" sha1_v4_body s4_raw s4_recv "\<lambda>b c. c\<lparr>s4_recv := b\<rparr>"
  by unfold_locales (auto simp: sha1_v4_head_def sha1_v4_body_def Let_def split: if_splits)

interpretation auth_aes: framed_codec 4 "auth_aes_head dg" "auth_aes_body dg" aa_raw aa_recv "\<lambda>b c. c\<lparr>aa_recv := b\<rparr>"
  by unfold_locales (auto simp: auth_aes_head_def auth_aes_body_def Let_def split: if_splits)


section \<open>Laws of the codecs\<close>

lemma byte_word_int: "unat (of_nat n :: u32) = n mod 2 ^ 32"
  by (simp add: unsigned_of_nat take_bit_eq_mod)

lemma be16_to_be_cons: "n < 65536 \<Longrightarrow> be16 (to_be 2 n ! 0) (to_be 2 n ! Suc 0) = n"
  by (simp add: be16_to_be)

text \<open>What Adler-32 has in its low half.\<close>

lemma adler_sum: "fst (foldl adler_byte (a, b) d) mod 65521 = (a + sum_list (map unat d)) mod 65521"
proof (induction d arbitrary: a b)
  case (Cons x d)
  then show ?case by (simp add: adler_byte_def Let_def mod_add_left_eq add.assoc)
qed simp

lemma adler_bounds: "a < 65521 \<Longrightarrow> b < 65521 \<Longrightarrow> fst (foldl adler_byte (a, b) d) < 65521 \<and> snd (foldl adler_byte (a, b) d) < 65521"
  by (induction d arbitrary: a b) (simp_all add: adler_byte_def Let_def)

lemma adler_low: "unat (adler32 d) mod 65536 = (1 + sum_list (map unat d)) mod 65521"
proof -
  obtain a b where ab: "foldl adler_byte (1, 0) d = (a, b)" by fastforce
  have a: "a < 65521" using adler_bounds [of 1 0 d] ab by simp
  have "a = (1 + sum_list (map unat d)) mod 65521" using adler_sum [of 1 0 d] ab a by simp
  moreover have "take_bit 16 (push_bit 16 (of_nat b) OR of_nat a :: u32) = of_nat a"
  proof -
    have "take_bit 16 (push_bit 16 (of_nat b) :: u32) = 0" by (simp add: take_bit_push_bit)
    moreover have "take_bit 16 (of_nat a :: u32) = of_nat a" using a by (simp add: take_bit_of_nat take_bit_nat_eq_self)
    ultimately show ?thesis by (simp only: take_bit_or or.left_neutral)
  qed
  ultimately show ?thesis
  proof -
    assume a_sum: "a = (1 + sum_list (map unat d)) mod 65521"
      and low: "take_bit 16 (push_bit 16 (of_nat b) OR of_nat a :: u32) = of_nat a"
    have "unat (take_bit 16 (adler32 d)) = a" using low a ab by (simp add: adler32_def byte_word_int)
    then have "take_bit 16 (unat (adler32 d)) = a" by (simp only: unsigned_take_bit_eq)
    then show ?thesis using a_sum by (simp add: take_bit_eq_mod)
  qed
qed

text \<open>Bytes in front change the checksum, when they are few and not all zero.\<close>

lemma adler_front:
  assumes "0 < sum_list (map unat h)" "sum_list (map unat h) < 65521"
  shows "adler32 (h @ d) \<noteq> adler32 d"
proof
  assume "adler32 (h @ d) = adler32 d"
  then have "(1 + sum_list (map unat (h @ d))) mod 65521 = (1 + sum_list (map unat d)) mod 65521"
    by (metis adler_low)
  then have "(sum_list (map unat h) + (1 + sum_list (map unat d))) mod 65521 = (1 + sum_list (map unat d)) mod 65521"
    by (simp add: add_ac)
  then have "65521 dvd sum_list (map unat h)"
    by (metis add_diff_cancel_right' le_add2 mod_eq_dvd_iff_nat)
  then show False using assms by (simp add: nat_dvd_not_less)
qed


text \<open>A frame the codec takes is a frame for \<open>frames_take\<close>.\<close>

lemma frames_take_map:
  assumes "\<And>d. d \<in> set ds \<Longrightarrow> \<forall>r. step c (pack d @ r) = Took c d r"
  shows "frames_take step c (map (\<lambda>d. (pack d, d)) ds) c"
  using assms by (induction ds) auto

lemma verify_simple_took:
  assumes "length d \<le> 4096"
  shows "verify_simple_step c (verify_simple_pack d @ r) = Took c d r"
proof -
  define f where "f = verify_simple_pack d"
  have len: "length f = length d + 6" by (simp add: f_def verify_simple_pack_def Let_def)
  have "be16 (take 2 f ! 0) (take 2 f ! 1) = length f"
    using assms len by (simp add: f_def verify_simple_pack_def Let_def nth_append be16_to_be)
  then have "verify_simple_head c (take 2 f) = Inr (length f)"
    using assms len by (simp add: verify_simple_head_def Let_def)
  moreover have "verify_simple_body c f = Inr (c, d)"
    by (simp add: f_def verify_simple_body_def verify_simple_pack_def Let_def)
  ultimately show ?thesis
    using len unfolding verify_simple_step_def f_def [symmetric] by (intro verify_simple.framed_whole) simp_all
qed

text \<open>
  What \<open>verify_simple\<close> encodes, its decoder gives back: the chunks of the payload come out in order and
  the decoder is as fresh as before, however the bytes were cut into reads.
\<close>

theorem verify_simple_roundtrip:
  assumes "concat cs = verify_simple_encode payload"
  shows "codec_reads verify_simple_decode new_verify_simple cs = Some (new_verify_simple, payload)"
proof -
  have take: "frames_take verify_simple_step new_verify_simple (map (\<lambda>d. (verify_simple_pack d, d)) (chunks_of 4096 payload)) new_verify_simple"
    using length_chunks_of verify_simple_took by (intro frames_take_map) blast
  have "concat cs = concat (map fst (map (\<lambda>d. (verify_simple_pack d, d)) (chunks_of 4096 payload)))"
    using assms by (simp add: verify_simple_encode_def o_def)
  from verify_simple.decode_frames [OF _ _ take [unfolded verify_simple_step_def] this] show ?thesis
    by (simp add: verify_simple_decode_def verify_simple_step_def new_verify_simple_def o_def concat_chunks_of)
qed

theorem verify_simple_roundtrip_witness:
  "verify_simple_encode [1, 2] = [0, 8, 1, 2] @ u32_le (adler32 [0, 8, 1, 2])
   \<and> codec_reads verify_simple_decode new_verify_simple [[0], [8, 1, 2] @ u32_le (adler32 [0, 8, 1, 2])]
     = Some (new_verify_simple, [1, 2])"
proof -
  have enc: "verify_simple_encode [1, 2] = [0, 8, 1, 2] @ u32_le (adler32 [0, 8, 1, 2])"
    by (simp add: verify_simple_encode_def verify_simple_pack_def chunks_of.simps to_be_def numeral_2_eq_2 Let_def)
  show ?thesis
    using verify_simple_roundtrip [of "[[0], [8, 1, 2] @ u32_le (adler32 [0, 8, 1, 2])]" "[1, 2]"] enc by simp
qed


lemma verify_sha1_took:
  assumes "length d \<le> 8192" "d \<noteq> []" "\<And>k m. 10 \<le> length (h k m)" "v1_iv p = v1_iv c" "v1_recv_id p = v1_send_id c"
  shows "verify_sha1_step h p (fst (verify_sha1_pack h c d) @ r) = Took (p\<lparr>v1_recv_id := v1_send_id c + 1\<rparr>) d r"
proof -
  define f where "f = fst (verify_sha1_pack h c d)"
  have len: "length f = length d + 12" using assms(3) by (simp add: f_def verify_sha1_pack_def min_absorb2)
  have "be16 (take 12 f ! 0) (take 12 f ! 1) = length d"
    using assms(1) by (simp add: f_def verify_sha1_pack_def nth_append be16_to_be)
  then have "verify_sha1_head p (take 12 f) = Inr (length f)"
    using assms(1) len by (simp add: verify_sha1_head_def Let_def)
  moreover have "drop 12 f = d" "take 10 (drop 2 f) = take 10 (h (v1_iv c @ u32_be (v1_send_id c)) d)"
    using assms(3) by (simp_all add: f_def verify_sha1_pack_def min_absorb2)
  then have "verify_sha1_body h p f = Inr (p\<lparr>v1_recv_id := v1_send_id c + 1\<rparr>, d)"
    using assms(4,5) by (simp add: verify_sha1_body_def Let_def)
  ultimately show ?thesis
    using len assms(2) unfolding verify_sha1_step_def f_def [symmetric] by (intro verify_sha1.framed_whole) simp_all
qed

lemma snd_verify_sha1_pack: "snd (verify_sha1_pack h c d) = c\<lparr>v1_send_id := v1_send_id c + 1\<rparr>"
  by (simp add: verify_sha1_pack_def)

lemma verify_sha1_takes:
  assumes "\<And>k m. 10 \<le> length (h k m)"
  shows "(\<And>d. d \<in> set ds \<Longrightarrow> d \<noteq> [] \<and> length d \<le> 8192) \<Longrightarrow> v1_iv p = v1_iv c \<Longrightarrow> v1_recv_id p = v1_send_id c
    \<Longrightarrow> frames_of (verify_sha1_pack h) c ds = (fs, c')
    \<Longrightarrow> length fs = length ds \<and> frames_take (verify_sha1_step h) p (zip fs ds) (p\<lparr>v1_recv_id := v1_send_id c'\<rparr>)"
proof (induction ds arbitrary: p c fs)
  case (Cons d ds)
  obtain fs1 where fs1: "frames_of (verify_sha1_pack h) (snd (verify_sha1_pack h c d)) ds = (fs1, c')"
    "fs = fst (verify_sha1_pack h c d) # fs1"
    using Cons.prems(4) by (auto split: prod.splits)
  have "verify_sha1_step h p (fst (verify_sha1_pack h c d) @ r) = Took (p\<lparr>v1_recv_id := v1_send_id c + 1\<rparr>) d r" for r
    using Cons.prems(1-3) assms by (intro verify_sha1_took) auto
  moreover have "length fs1 = length ds \<and> frames_take (verify_sha1_step h) (p\<lparr>v1_recv_id := v1_send_id c + 1\<rparr>) (zip fs1 ds)
      (p\<lparr>v1_recv_id := v1_send_id c + 1, v1_recv_id := v1_send_id c'\<rparr>)"
    by (rule Cons.IH) (use Cons.prems(1-3) fs1(1) in \<open>simp_all add: snd_verify_sha1_pack\<close>)
  ultimately show ?case using fs1(2) by auto
qed auto

text \<open>
  After its header \<open>verify_sha1\<close> numbers its frames, and a peer with the same IV that has taken as many
  frames as were sent takes the next ones, checks each tag under its own number, and gives the payload
  back, however the bytes were cut; sender and receiver agree on the next number.
\<close>

theorem verify_sha1_roundtrip:
  assumes "\<forall>k m. 10 \<le> length (h k m)"
    and "v1_sent_header c" "verify_sha1_encode h c payload = (wire, c')"
    and "\<not> v1_raw p" "v1_recv p = []" "v1_iv p = v1_iv c" "v1_recv_id p = v1_send_id c"
    and "concat cs = wire"
  shows "codec_reads (verify_sha1_decode h) p cs = Some (p\<lparr>v1_recv_id := v1_send_id c'\<rparr>, payload)"
proof -
  let ?ds = "chunks_of 4096 payload"
  have same: "c\<lparr>v1_sent_header := True\<rparr> = c" using assms(2) by (cases c) simp
  obtain fs where fs: "frames_of (verify_sha1_pack h) c ?ds = (fs, c')" "wire = concat fs"
    using assms(2,3) same by (auto simp: verify_sha1_encode_def split: prod.splits)
  have takes: "length fs = length ?ds" "frames_take (verify_sha1_step h) p (zip fs ?ds) (p\<lparr>v1_recv_id := v1_send_id c'\<rparr>)"
    using verify_sha1_takes [of h ?ds p c fs c'] length_chunks_of [of _ 4096 payload] assms(1,6,7) fs(1) by fastforce+
  have "concat cs = concat (map fst (zip fs ?ds))" using assms(8) fs(2) takes(1) by simp
  from verify_sha1.decode_frames [OF assms(4,5) takes(2) [unfolded verify_sha1_step_def] this] show ?thesis
    using assms(5) takes(1) by (simp add: verify_sha1_decode_def verify_sha1_step_def concat_chunks_of)
qed

theorem verify_sha1_roundtrip_witness:
  "let h = (\<lambda>k m. take 10 (k @ m @ replicate 10 0)); c = (new_verify_sha1 [7] [1, 2])\<lparr>v1_sent_header := True\<rparr> in
   codec_reads (verify_sha1_decode h) c [[0, 1, 1], [2, 0, 0, 0, 0, 9, 0, 0, 0, 9]] = Some (c\<lparr>v1_recv_id := 1\<rparr>, [9])"
proof -
  define h :: "bytes \<Rightarrow> bytes \<Rightarrow> bytes" where "h = (\<lambda>k m. take 10 (k @ m @ replicate 10 0))"
  define c where "c = (new_verify_sha1 [7] [1, 2])\<lparr>v1_sent_header := True\<rparr>"
  have enc: "verify_sha1_encode h c [9] = ([0, 1, 1, 2, 0, 0, 0, 0, 9, 0, 0, 0, 9], c\<lparr>v1_send_id := 1\<rparr>)"
  proof -
    have "to_be 4 0 = [0, 0, 0, 0]" "to_be 2 (Suc 0) = [0, 1]" by code_simp+
    moreover have "chunks_of 4096 [9] = [[9]]" by (simp add: chunks_of.simps)
    ultimately show ?thesis
      by (simp add: h_def c_def new_verify_sha1_def verify_sha1_encode_def verify_sha1_pack_def u32_be_def numeral_3_eq_3 Let_def)
  qed
  have "codec_reads (verify_sha1_decode h) c [[0, 1, 1], [2, 0, 0, 0, 0, 9, 0, 0, 0, 9]]
      = Some (c\<lparr>v1_recv_id := v1_send_id (c\<lparr>v1_send_id := 1\<rparr>)\<rparr>, [9])"
    by (rule verify_sha1_roundtrip [OF _ _ enc]) (auto simp: h_def c_def new_verify_sha1_def min_def)
  then show ?thesis by (simp add: h_def c_def Let_def)
qed


text \<open>
  A frame as a server answers with in the \<open>auth_simple\<close> to \<open>auth_sha1_v4\<close> protocols: the length, half a
  CRC-32 of it, padding behind its length, the payload, and Adler-32 of everything in front.
\<close>

definition response_frame :: "(bytes \<Rightarrow> u32) \<Rightarrow> bytes \<times> bytes \<Rightarrow> bytes" where
  "response_frame crc32 = (\<lambda>(padding, payload).
    let len = to_be 2 (2 + 2 + 1 + length padding + length payload + 4);
        out = len @ to_le 2 (unat (crc32 len)) @ [of_nat (length padding)] @ padding @ payload
    in out @ u32_le (adler32 out))"

definition response_fits :: "bytes \<times> bytes \<Rightarrow> bool" where
  "response_fits = (\<lambda>(padding, payload). length padding < 255 \<and> length padding + length payload + 9 < 8192)"

lemma response_parts:
  fixes crc32 :: "bytes \<Rightarrow> u32"
  assumes "response_fits (padding, payload)"
  defines "f \<equiv> response_frame crc32 (padding, payload)"
  shows "length f = length padding + length payload + 9" "be16 (take 4 f ! 0) (take 4 f ! 1) = length f"
    "u32_of_le (drop (length f - 4) f) = adler32 (take (length f - 4) f)"
    "padding_end int16 f = length padding + 5" "drop (length padding + 5) (take (length f - 4) f) = payload"
    "take 2 f = to_be 2 (length f)" "take 4 f = to_be 2 (length f) @ to_le 2 (unat (crc32 (to_be 2 (length f))))"
proof -
  show len: "length f = length padding + length payload + 9" by (simp add: f_def response_frame_def Let_def)
  have fits: "length padding < 255" "length f < 8192" using assms(1) len by (simp_all add: response_fits_def)
  define l where "l = to_be 2 (length f)"
  have f: "f = l @ to_le 2 (unat (crc32 l)) @ [of_nat (length padding)] @ padding @ payload
      @ u32_le (adler32 (l @ to_le 2 (unat (crc32 l)) @ [of_nat (length padding)] @ padding @ payload))"
    unfolding l_def len by (simp add: f_def response_frame_def Let_def add_ac)
  have [simp]: "length l = 2" by (simp add: l_def)
  show "take 2 f = to_be 2 (length f)" "take 4 f = to_be 2 (length f) @ to_le 2 (unat (crc32 (to_be 2 (length f))))"
    using arg_cong [OF f, of "take 2"] arg_cong [OF f, of "take 4"] by (simp_all add: l_def [symmetric])
  have "take 4 f ! 0 = to_be 2 (length f) ! 0" "take 4 f ! 1 = to_be 2 (length f) ! Suc 0"
    unfolding l_def [symmetric] by (simp_all add: f nth_append)
  then show "be16 (take 4 f ! 0) (take 4 f ! 1) = length f" using fits be16_to_be [of "length f"] by simp
  have take: "take (length f - 4) f = l @ to_le 2 (unat (crc32 l)) @ [of_nat (length padding)] @ padding @ payload"
    unfolding len by (simp add: f)
  show "u32_of_le (drop (length f - 4) f) = adler32 (take (length f - 4) f)"
    unfolding take unfolding len by (simp add: f)
  show "drop (length padding + 5) (take (length f - 4) f) = payload" unfolding take by simp
  have "f ! 4 = of_nat (length padding)" by (simp add: f nth_append)
  then show "padding_end int16 f = length padding + 5"
    using fits by (simp add: padding_end_def unsigned_of_nat take_bit_nat_eq_self)
qed

lemma early_took:
  assumes "response_fits x"
  shows "early_step c (response_frame crc32 x @ r) = Took c (snd x) r"
proof -
  obtain padding payload where x: "x = (padding, payload)" by (cases x)
  let ?f = "response_frame crc32 (padding, payload)"
  note parts = response_parts [OF assms [unfolded x], where ?crc32.0 = crc32]
  have fits: "length ?f < 8192" using assms parts(1) by (simp add: x response_fits_def)
  have "early_head c (take 4 ?f) = Inr (length ?f)" using parts(1,2) fits by (simp add: early_head_def Let_def)
  moreover have "early_body c ?f = Inr (c, payload)" using parts(1,3-5) by (simp add: early_body_def Let_def)
  ultimately show ?thesis
    using parts(1) unfolding early_step_def x by (intro early.framed_whole) simp_all
qed

lemma sha1_v4_took:
  assumes "response_fits x"
  shows "sha1_v4_step crc32 c (response_frame crc32 x @ r) = Took c (snd x) r"
proof -
  obtain padding payload where x: "x = (padding, payload)" by (cases x)
  let ?f = "response_frame crc32 (padding, payload)"
  note parts = response_parts [OF assms [unfolded x], where ?crc32.0 = crc32]
  have fits: "length ?f < 8192" using assms parts(1) by (simp add: x response_fits_def)
  have crc: "le16 (take 4 ?f ! 2) (take 4 ?f ! 3) = unat (crc32 (take 2 (take 4 ?f))) mod 65536"
    unfolding parts(7) using le16_to_le [of "unat (crc32 (to_be 2 (length ?f)))"] by (simp add: nth_append)
  have "sha1_v4_head crc32 c (take 4 ?f) = Inr (length ?f)"
    using parts(1,2) fits crc by (simp add: sha1_v4_head_def Let_def)
  moreover have "sha1_v4_body c ?f = Inr (c, payload)" using parts(1,3-5) by (simp add: sha1_v4_body_def Let_def)
  ultimately show ?thesis
    using parts(1) unfolding sha1_v4_step_def x by (intro sha1_v4.framed_whole) simp_all
qed

lemma frames_take_const:
  "(\<And>x. x \<in> set xs \<Longrightarrow> \<forall>r. step c (pack x @ r) = Took c (out x) r) \<Longrightarrow> frames_take step c (map (\<lambda>x. (pack x, out x)) xs) c"
  by (induction xs) auto

text \<open>
  The decoders of \<open>auth_simple\<close>, \<open>auth_sha1\<close>, \<open>auth_sha1_v2\<close> and \<open>auth_sha1_v4\<close> take every sequence of
  a server's frames, with any padding below 255 bytes and any payloads that fit the length limit, however
  they are cut into reads: all padding and all checksums are gone, and nothing is left in the buffer.
\<close>

theorem ssr_auth_decodes_responses:
  assumes "\<forall>x \<in> set xs. response_fits x" "concat cs = concat (map (response_frame crc32) xs)"
    and "\<not> ea_raw e" "ea_recv e = []" "\<not> s4_raw s" "s4_recv s = []"
  shows "codec_reads early_decode e cs = Some (e, concat (map snd xs))
    \<and> codec_reads (sha1_v4_decode crc32) s cs = Some (s, concat (map snd xs))"
proof
  let ?fs = "map (\<lambda>x. (response_frame crc32 x, snd x)) xs"
  have wire: "concat cs = concat (map fst ?fs)" using assms(2) by (simp add: o_def)
  have "frames_take early_step e ?fs e" using early_took assms(1) by (intro frames_take_const) blast
  from early.decode_frames [OF assms(3,4) this [unfolded early_step_def] wire]
  show "codec_reads early_decode e cs = Some (e, concat (map snd xs))"
    using assms(4) by (simp add: early_decode_def early_step_def o_def)
  have "frames_take (sha1_v4_step crc32) s ?fs s" using sha1_v4_took assms(1) by (intro frames_take_const) blast
  from sha1_v4.decode_frames [OF assms(5,6) this [unfolded sha1_v4_step_def] wire]
  show "codec_reads (sha1_v4_decode crc32) s cs = Some (s, concat (map snd xs))"
    using assms(6) by (simp add: sha1_v4_decode_def sha1_v4_step_def o_def)
qed

theorem ssr_auth_decodes_responses_witness:
  "let f = response_frame (\<lambda>d. 0x1234) ([7, 7], [1, 2, 3]); e = new_early_auth [1] [2] EarlySha1 (\<lambda>n. replicate n 5) 9 in
   codec_reads early_decode e [take 3 f, drop 3 f] = Some (e, [1, 2, 3])"
proof -
  let ?e = "new_early_auth [1] [2] EarlySha1 (\<lambda>n. replicate n 5) 9"
  let ?f = "response_frame (\<lambda>d. 0x1234) ([7, 7], [1, 2, 3])"
  show ?thesis
    using ssr_auth_decodes_responses [of "[([7, 7], [1, 2, 3])]" "[take 3 ?f, drop 3 ?f]" "\<lambda>d. 0x1234" ?e
      "new_sha1_v4 [1] [2] [3] 4"]
    by (simp add: response_fits_def new_early_auth_def new_sha1_v4_def Let_def)
qed


text \<open>The codecs' own frames have the checksum of everything behind the first four bytes.\<close>

lemma own_frame_rejected:
  assumes "length h = 4" "be16 (h ! 0) (h ! 1) = length h + length d + 4" "0 < be16 (h ! 0) (h ! 1)"
  defines "f \<equiv> h @ d @ u32_le (adler32 d)"
  shows "length f = length h + length d + 4" "take 4 f = h"
    "adler32 (take (length f - 4) f) \<noteq> u32_of_le (drop (length f - 4) f)"
proof -
  show len: "length f = length h + length d + 4" "take 4 f = h" using assms(1) by (simp_all add: f_def)
  obtain a b c e where "h = [a, b, c, e]" using assms(1) by (auto simp: length_Suc_conv numeral_eq_Suc)
  then have h: "h = [h ! 0, h ! 1, h ! 2, h ! 3]" by simp
  have sum: "sum_list (map unat h) = unat (h ! 0) + unat (h ! 1) + unat (h ! 2) + unat (h ! 3)"
    by (subst h) simp
  have "0 < unat (h ! 0) \<or> 0 < unat (h ! 1)" using assms(3) by (auto simp: be16_def)
  then have "0 < sum_list (map unat h)" unfolding sum by linarith
  moreover have "sum_list (map unat h) < 65521"
    unfolding sum using unat_byte_bound [of "h ! 0"] unat_byte_bound [of "h ! 1"] unat_byte_bound [of "h ! 2"]
      unat_byte_bound [of "h ! 3"] by linarith
  ultimately have "0 < sum_list (map unat h)" "sum_list (map unat h) < 65521" by blast+
  from adler_front [OF this] show "adler32 (take (length f - 4) f) \<noteq> u32_of_le (drop (length f - 4) f)"
    using assms(1) by (simp add: f_def)
qed

text \<open>
  A frame that \<open>pack_data\<close> of the \<open>auth_simple\<close> to \<open>auth_sha1_v2\<close> codecs makes is never one that the
  same codec's \<open>decode\<close> takes: it always ends in the checksum error and passes everything behind it
  through unchecked. The checksum is made of the frame from offset 4 on, but checked from offset 0 on.
\<close>

theorem early_own_frames_rejected:
  assumes "early_pack_data crc32 kind r fill payload = f" "early_random_len kind r < 255"
    and "\<forall>n. length (fill n) = n" "length f < 8192" "\<not> ea_raw c" "ea_recv c = []"
  shows "early_decode c f out = (Err InvalidData, c\<lparr>ea_raw := True\<rparr>, out)"
proof -
  let ?n = "early_random_len kind r"
  define len where "len = to_be 2 (2 + 2 + 1 + ?n + length payload + 4)"
  define h where "h = len @ to_le 2 (unat (crc32 len))"
  define d where "d = early_push_random fill ?n @ payload"
  have f: "f = h @ d @ u32_le (adler32 d)" "length h = 4" "length d = 1 + ?n + length payload"
    using assms(1-3) by (auto simp: early_pack_data_def h_def d_def len_def early_push_random_def Let_def)
  have "length f = 2 + 2 + 1 + ?n + length payload + 4" using f by simp
  moreover have "be16 (h ! 0) (h ! 1) = (2 + 2 + 1 + ?n + length payload + 4) mod 65536"
    by (simp add: h_def len_def nth_append be16_to_be)
  ultimately have n: "be16 (h ! 0) (h ! 1) = length h + length d + 4" "0 < be16 (h ! 0) (h ! 1)" using assms(4) f by simp_all
  note own = own_frame_rejected [OF f(2) n, folded f(1)]
  have "early_step (c\<lparr>ea_recv := []\<rparr>) f = Reject (c\<lparr>ea_recv := [], ea_raw := True\<rparr>) []"
    using own n f(2) assms(4)
    by (simp add: early_step_def framed_step_def early_head_def early_body_def Let_def)
  then show ?thesis
    using assms(5,6) by (cases c) (simp add: early_decode_def codec_decode_def frame_loop.simps [of early_step])
qed

theorem early_own_frames_rejected_witness:
  "let c = new_early_auth [1] [2] EarlySimple (\<lambda>n. replicate n 5) 9
   in early_decode c (early_pack_data (\<lambda>d. 0x1234) EarlySimple 0 (\<lambda>n. replicate n 0) [104, 105]) []
      = (Err InvalidData, c\<lparr>ea_raw := True\<rparr>, [])"
  using early_own_frames_rejected [OF refl, of EarlySimple 0 "\<lambda>n. replicate n 0" "\<lambda>d. 0x1234" "[104, 105]"
      "new_early_auth [1] [2] EarlySimple (\<lambda>n. replicate n 5) 9" "[]"]
  by (simp add: early_random_len_def early_pack_data_def early_push_random_def new_early_auth_def Let_def)

end
