(* ===== verification/Ssr_Chain.thy ===== *)
theory Ssr_Chain
  imports Ssr_Codecs
begin

text \<open>
  The ShadowsocksR protocols \<open>auth_chain_a\<close> to \<open>auth_chain_f\<close>
  (\<open>adapter/shadowsocks/ssr/protocol/auth_chain.rs\<close>): both sides know, from the tag of the frame before,
  how long the next frame is, how much padding it has and where in the padding the payload stands. A
  frame is taken only with the generators and hashes of the sender, so the laws here are about a pair of
  codecs whose states agree.

  The stream cipher RC4, MD5, AES and Base64 are arguments. A random byte string of length \<open>n\<close> is
  \<open>fill i k n\<close>, for the \<open>k\<close>-th draw of the \<open>i\<close>-th frame.
\<close>

section \<open>The generator\<close>

record xorshift =
  xs_0 :: u64
  xs_1 :: u64

definition default_xorshift :: xorshift where
  "default_xorshift = \<lparr>xs_0 = 0, xs_1 = 0\<rparr>"

definition xorshift_next :: "xorshift \<Rightarrow> u64 \<times> xorshift" where
  "xorshift_next g =
    (let x = xs_0 g;
         y = xs_1 g;
         x = x XOR push_bit 23 x;
         x = x XOR (y XOR drop_bit 17 x XOR drop_bit 26 y)
     in (x + y, \<lparr>xs_0 = y, xs_1 = x\<rparr>))"

definition u64_of_le :: "bytes \<Rightarrow> u64" where
  "u64_of_le bs = of_nat (le_nat bs)"

definition full16 :: "bytes \<Rightarrow> bytes" where
  "full16 d = take 16 d @ replicate (16 - length d) 0"

definition init_from_bin :: "bytes \<Rightarrow> xorshift" where
  "init_from_bin d = \<lparr>xs_0 = u64_of_le (take 8 (full16 d)), xs_1 = u64_of_le (drop 8 (full16 d))\<rparr>"

definition init_from_bin_and_length :: "bytes \<Rightarrow> nat \<Rightarrow> xorshift" where
  "init_from_bin_and_length d n =
    (let full = to_le 2 n @ drop 2 (full16 d);
         g = \<lparr>xs_0 = u64_of_le (take 8 full), xs_1 = u64_of_le (drop 8 full)\<rparr>
     in ((\<lambda>g. snd (xorshift_next g)) ^^ 4) g)"

definition rand_start_pos :: "nat \<Rightarrow> xorshift \<Rightarrow> nat \<times> xorshift" where
  "rand_start_pos n g =
    (if n = 0 then (0, g) else case xorshift_next g of (v, g) \<Rightarrow> (unat (v mod 8589934609) mod n, g))"

section \<open>Padding lengths\<close>

definition rand_len_after_initialized :: "nat \<Rightarrow> xorshift \<Rightarrow> nat \<times> xorshift" where
  "rand_len_after_initialized n g =
    (case xorshift_next g of (v, g) \<Rightarrow>
      (unat v mod (if 1300 < n then 31 else if 900 < n then 127 else if 400 < n then 521 else 1021), g))"

definition rand_len_a :: "nat \<Rightarrow> bytes \<Rightarrow> xorshift \<Rightarrow> nat \<times> xorshift" where
  "rand_len_a n hash g =
    (if 1440 < n then (0, g) else rand_len_after_initialized n (init_from_bin_and_length hash n))"

text \<open>\<open>partition_point\<close> of a sorted list.\<close>

definition partition_point :: "('a \<Rightarrow> bool) \<Rightarrow> 'a list \<Rightarrow> nat" where
  "partition_point P xs = length (takeWhile P xs)"

definition rand_len_b :: "nat list \<Rightarrow> nat list \<Rightarrow> nat \<Rightarrow> bytes \<Rightarrow> xorshift \<Rightarrow> nat \<times> xorshift" where
  "rand_len_b sizes sizes2 n hash g =
    (if 1440 \<le> n then (0, g)
     else
       let g = init_from_bin_and_length hash n;
           second = (\<lambda>g.
             let pos = partition_point (\<lambda>v. v < n + 4) sizes2
             in if sizes2 = [] then rand_len_after_initialized n g
                else case xorshift_next g of (v, g) \<Rightarrow>
                  (let final = pos + unat v mod length sizes2
                   in if final < length sizes2 then (sizes2 ! final - (n + 4), g)
                      else if final < pos + (length sizes2 - 1) then (0, g)
                      else rand_len_after_initialized n g));
           pos = partition_point (\<lambda>v. v < n + 4) sizes
       in if sizes = [] then second g
          else case xorshift_next g of (v, g) \<Rightarrow>
            (let final = pos + unat v mod length sizes
             in if final < length sizes then (sizes ! final - (n + 4), g) else second g))"

definition last_size :: "nat list \<Rightarrow> nat" where
  "last_size sizes = (if sizes = [] then 0 else List.last sizes)"

definition rand_len_c :: "nat list \<Rightarrow> nat \<Rightarrow> bytes \<Rightarrow> xorshift \<Rightarrow> nat \<times> xorshift" where
  "rand_len_c sizes n hash g =
    (let g = init_from_bin_and_length hash n
     in if last_size sizes \<le> n + 4 then rand_len_after_initialized n g
        else let pos = partition_point (\<lambda>v. v < n + 4) sizes
          in if length sizes \<le> pos then (0, g)
             else case xorshift_next g of (v, g) \<Rightarrow>
               (sizes ! (pos + unat v mod (length sizes - pos)) - (n + 4), g))"

definition rand_len_d :: "nat list \<Rightarrow> nat \<Rightarrow> bytes \<Rightarrow> xorshift \<Rightarrow> nat \<times> xorshift" where
  "rand_len_d sizes n hash g =
    (if last_size sizes \<le> n + 4 then (0, g)
     else
       let g = init_from_bin_and_length hash n;
           pos = partition_point (\<lambda>v. v < n + 4) sizes
       in if length sizes \<le> pos then (0, g)
          else case xorshift_next g of (v, g) \<Rightarrow>
            (sizes ! (pos + unat v mod (length sizes - pos)) - (n + 4), g))"

definition rand_len_e :: "nat list \<Rightarrow> nat \<Rightarrow> bytes \<Rightarrow> xorshift \<Rightarrow> nat \<times> xorshift" where
  "rand_len_e sizes n hash g =
    (let g = init_from_bin_and_length hash n
     in if last_size sizes \<le> n + 4 then (0, g)
        else let pos = partition_point (\<lambda>v. v < n + 4) sizes
          in ((if pos < length sizes then sizes ! pos else n + 4) - (n + 4), g))"

section \<open>Lists of sizes\<close>

definition draw_size :: "xorshift \<Rightarrow> nat \<times> xorshift" where
  "draw_size g = (case xorshift_next g of (v, g) \<Rightarrow> (unat (v mod 2340 mod 2040 mod 1440), g))"

primrec draw_sizes :: "nat \<Rightarrow> xorshift \<Rightarrow> nat list \<times> xorshift" where
  "draw_sizes 0 g = ([], g)"
| "draw_sizes (Suc k) g = (case draw_size g of (v, g) \<Rightarrow> (case draw_sizes k g of (vs, g) \<Rightarrow> (v # vs, g)))"

definition init_data_size_b :: "bytes \<Rightarrow> nat list \<times> nat list" where
  "init_data_size_b key =
    (let g = init_from_bin key;
         (v, g) = xorshift_next g;
         (sizes, g) = draw_sizes (unat (v mod 8 + 4)) g;
         (v, g) = xorshift_next g;
         (sizes2, g) = draw_sizes (unat (v mod 16 + 8)) g
     in (sort sizes, sort sizes2))"

function patch_data_size_high_water :: "nat list \<Rightarrow> xorshift \<Rightarrow> nat list" where
  "patch_data_size_high_water sizes g =
    (if last_size sizes < 1300 \<and> length sizes < 64
     then patch_data_size_high_water (sort (sizes @ [fst (draw_size g)])) (snd (draw_size g)) else sizes)"
  by auto
termination by (relation "measure (\<lambda>(sizes, g). 64 - length sizes)") auto

declare patch_data_size_high_water.simps [simp del]

definition init_data_size_c :: "bool \<Rightarrow> bytes \<Rightarrow> nat list" where
  "init_data_size_c patch key =
    (let g = init_from_bin key;
         (v, g) = xorshift_next g;
         (sizes, g) = draw_sizes (unat (v mod 24 + 12)) g
     in if patch then patch_data_size_high_water (sort sizes) g else sort sizes)"

definition auth_chain_f_interval :: "string \<Rightarrow> nat" where
  "auth_chain_f_interval param =
    (let interval = (case split_once CHR ''#'' param of Some (_, interval) \<Rightarrow> interval | None \<Rightarrow> param)
     in case parse_unsigned (2 ^ 64 - 1) (str_trim interval) of
          Some n \<Rightarrow> (if 0 < n then n else 60 * 60 * 24)
        | None \<Rightarrow> 60 * 60 * 24)"

definition auth_chain_f_data_size_key :: "bytes \<Rightarrow> nat \<Rightarrow> u32 \<Rightarrow> bytes" where
  "auth_chain_f_data_size_key key interval timestamp =
    map2 (XOR) (take 8 key) (to_be 8 (unat timestamp div interval)) @ drop 8 key"


section \<open>The codec\<close>

datatype auth_chain_variant = ChainA | ChainB | ChainC | ChainD | ChainE | ChainF

record auth_chain_profile =
  ap_salt :: string
  ap_variant :: auth_chain_variant

text \<open>The library's functions: \<open>rc4\<close> makes a cipher of a key, \<open>rc4_apply\<close> applies its key stream.\<close>

record 'r chain_library =
  cl_md5 :: "bytes \<Rightarrow> bytes"
  cl_base64 :: "bytes \<Rightarrow> string"
  cl_aes :: "bytes \<Rightarrow> bytes \<Rightarrow> bytes"
  cl_rc4 :: "bytes \<Rightarrow> 'r option"
  cl_rc4_apply :: "'r \<Rightarrow> bytes \<Rightarrow> bytes \<times> 'r"

record 'r auth_chain =
  ac_key :: bytes
  ac_iv :: bytes
  ac_user :: ssr_user
  ac_auth :: ssr_auth
  ac_profile :: auth_chain_profile
  ac_sizes :: "nat list"
  ac_sizes2 :: "nat list"
  ac_sent_header :: bool
  ac_pack_id :: u32
  ac_recv_id :: u32
  ac_last_client_hash :: bytes
  ac_last_server_hash :: bytes
  ac_enc :: "'r option"
  ac_dec :: "'r option"
  ac_random_client :: xorshift
  ac_random_server :: xorshift
  ac_recv :: bytes
  ac_raw :: bool

definition new_auth_chain :: "bytes \<Rightarrow> ssr_auth \<Rightarrow> bytes \<Rightarrow> bytes \<Rightarrow> string \<Rightarrow> auth_chain_profile \<Rightarrow> 'r auth_chain" where
  "new_auth_chain random_id auth key iv param profile =
    (let interval = auth_chain_f_interval param;
         c = \<lparr>ac_key = key, ac_iv = iv, ac_user = auth_chain_user random_id key param, ac_auth = auth, ac_profile = profile,
           ac_sizes = [], ac_sizes2 = [], ac_sent_header = False, ac_pack_id = 1, ac_recv_id = 1,
           ac_last_client_hash = [], ac_last_server_hash = [], ac_enc = None, ac_dec = None,
           ac_random_client = default_xorshift, ac_random_server = default_xorshift, ac_recv = [], ac_raw = False\<rparr>
     in case ap_variant profile of
          ChainA \<Rightarrow> c
        | ChainB \<Rightarrow> (case init_data_size_b key of (sizes, sizes2) \<Rightarrow> c\<lparr>ac_sizes := sizes, ac_sizes2 := sizes2\<rparr>)
        | ChainC \<Rightarrow> c\<lparr>ac_sizes := init_data_size_c False key\<rparr>
        | ChainD \<Rightarrow> c\<lparr>ac_sizes := init_data_size_c True key\<rparr>
        | ChainE \<Rightarrow> c\<lparr>ac_sizes := init_data_size_c True key\<rparr>
        | ChainF \<Rightarrow> c\<lparr>ac_sizes := init_data_size_c True (auth_chain_f_data_size_key key interval (au_timestamp auth))\<rparr>)"

definition chain_rand_len :: "auth_chain_variant \<Rightarrow> nat list \<Rightarrow> nat list \<Rightarrow> nat \<Rightarrow> bytes \<Rightarrow> xorshift \<Rightarrow> nat \<times> xorshift" where
  "chain_rand_len v sizes sizes2 n hash g =
    (case v of
       ChainA \<Rightarrow> rand_len_a n hash g
     | ChainB \<Rightarrow> rand_len_b sizes sizes2 n hash g
     | ChainC \<Rightarrow> rand_len_c sizes n hash g
     | ChainD \<Rightarrow> rand_len_d sizes n hash g
     | ChainF \<Rightarrow> rand_len_d sizes n hash g
     | ChainE \<Rightarrow> rand_len_e sizes n hash g)"

text \<open>On the client's generator or the server's.\<close>

definition rand_len :: "'r auth_chain \<Rightarrow> nat \<Rightarrow> bytes \<Rightarrow> bool \<Rightarrow> nat \<times> 'r auth_chain" where
  "rand_len c n hash client =
    (case chain_rand_len (ap_variant (ac_profile c)) (ac_sizes c) (ac_sizes2 c) n hash
        (if client then ac_random_client c else ac_random_server c) of
       (k, g) \<Rightarrow> (k, if client then c\<lparr>ac_random_client := g\<rparr> else c\<lparr>ac_random_server := g\<rparr>))"

definition udp_rand_len :: "'r auth_chain \<Rightarrow> bytes \<Rightarrow> bool \<Rightarrow> nat \<times> 'r auth_chain" where
  "udp_rand_len c hash client =
    (case xorshift_next (init_from_bin hash) of
       (v, g) \<Rightarrow> (unat (v mod 127), if client then c\<lparr>ac_random_client := g\<rparr> else c\<lparr>ac_random_server := g\<rparr>))"

definition put_mixed_rand_and_data :: "(nat \<Rightarrow> nat \<Rightarrow> bytes) \<Rightarrow> 'r auth_chain \<Rightarrow> bytes \<Rightarrow> bytes \<times> 'r auth_chain" where
  "put_mixed_rand_and_data fill c d =
    (case rand_len c (length d) (ac_last_client_hash c) True of
       (n, c) \<Rightarrow>
         (if d = [] then (fill 0 n, c)
          else if 0 < n then
            (case rand_start_pos n (ac_random_client c) of
               (start, g) \<Rightarrow> (fill 0 start @ d @ fill 1 (n - start), c\<lparr>ac_random_client := g\<rparr>))
          else (d, c)))"

definition chain_pack_data :: "'r chain_library \<Rightarrow> (nat \<Rightarrow> nat \<Rightarrow> bytes) \<Rightarrow> 'r auth_chain \<Rightarrow> bytes \<Rightarrow> bytes \<times> 'r auth_chain" where
  "chain_pack_data lib fill c d =
    (let (enc, c) = (case ac_enc c of
           Some r \<Rightarrow> (case cl_rc4_apply lib r d of (e, r) \<Rightarrow> (e, c\<lparr>ac_enc := Some r\<rparr>))
         | None \<Rightarrow> (d, c));
         pack_id = ac_pack_id c;
         c = c\<lparr>ac_pack_id := pack_id + 1\<rparr>;
         hash_len = of_nat (le16 (ac_last_client_hash c ! 14) (ac_last_client_hash c ! 15)) :: u16;
         encoded_len = of_nat (length enc) XOR hash_len;
         (mixed, c) = put_mixed_rand_and_data fill c enc;
         out = to_le 2 (unat encoded_len) @ mixed;
         hash = hmac_md5 (cl_md5 lib) (su_key (ac_user c) @ u32_le pack_id) out
     in (out @ take 2 hash, c\<lparr>ac_last_client_hash := hash\<rparr>))"

definition init_rc4 :: "'r chain_library \<Rightarrow> 'r auth_chain \<Rightarrow> (io_error, unit) res \<times> 'r auth_chain" where
  "init_rc4 lib c =
    (let material = cl_base64 lib (su_key (ac_user c)) @ cl_base64 lib (ac_last_client_hash c);
         key = legacy_evp_bytes_to_key (cl_md5 lib) (as_bytes material) 16
     in case cl_rc4 lib key of
          None \<Rightarrow> (Err InvalidInput, c)
        | Some r \<Rightarrow> (Ok (), c\<lparr>ac_enc := Some r, ac_dec := Some r\<rparr>))"

definition xor_le32 :: "bytes \<Rightarrow> bytes \<Rightarrow> bytes" where
  "xor_le32 a b = u32_le (u32_of_le a XOR u32_of_le b)"

text \<open>\<open>first\<close> are four random bytes. What is written stays in the output only when there is no error.\<close>

definition chain_pack_auth_data :: "'r chain_library \<Rightarrow> bytes \<Rightarrow> (nat \<Rightarrow> nat \<Rightarrow> bytes) \<Rightarrow> 'r auth_chain \<Rightarrow> bytes
    \<Rightarrow> (io_error, bytes) res \<times> 'r auth_chain" where
  "chain_pack_auth_data lib first fill c d =
    (let hash = hmac_md5 (cl_md5 lib) (ac_iv c @ ac_key c) first
     in case init_rc4 lib (c\<lparr>ac_last_client_hash := hash\<rparr>) of
          (Inl e, c) \<Rightarrow> (Inl e, c)
        | (Inr _, c) \<Rightarrow>
            (let uid = xor_le32 (su_id (ac_user c)) (take 4 (drop 8 hash));
                 (block, auth) = encrypted_block (cl_md5 lib) (cl_base64 lib) (cl_aes lib) (ac_auth c) (su_key (ac_user c)) 4 0
                   (ap_salt (ac_profile c));
                 server = hmac_md5 (cl_md5 lib) (su_key (ac_user c)) (uid @ block);
                 (frame, c) = chain_pack_data lib fill (c\<lparr>ac_auth := auth, ac_last_server_hash := server\<rparr>) d
             in (Ok (first @ take 8 hash @ uid @ block @ take 4 server @ frame), c)))"

fun chain_pack_chunks :: "'r chain_library \<Rightarrow> (nat \<Rightarrow> nat \<Rightarrow> nat \<Rightarrow> bytes) \<Rightarrow> nat \<Rightarrow> 'r auth_chain \<Rightarrow> bytes list
    \<Rightarrow> bytes list \<times> 'r auth_chain" where
  "chain_pack_chunks lib fill i c [] = ([], c)"
| "chain_pack_chunks lib fill i c (d # ds) =
    (case chain_pack_data lib (fill i) c d of
       (f, c) \<Rightarrow> (case chain_pack_chunks lib fill (Suc i) c ds of (fs, c) \<Rightarrow> (f # fs, c)))"

text \<open>\<open>r\<close> is a random byte.\<close>

definition chain_encode :: "'r chain_library \<Rightarrow> byte \<Rightarrow> bytes \<Rightarrow> (nat \<Rightarrow> nat \<Rightarrow> nat \<Rightarrow> bytes) \<Rightarrow> 'r auth_chain \<Rightarrow> bytes
    \<Rightarrow> (io_error, bytes) res \<times> 'r auth_chain" where
  "chain_encode lib r first fill c payload =
    (let n = (if ac_sent_header c then 0 else get_auth_sha1_v4_data_len r payload);
         (front, c) = (if ac_sent_header c then (Ok [], c) else chain_pack_auth_data lib first (fill 0) c (take n payload))
     in case front of
          Inl e \<Rightarrow> (Inl e, c)
        | Inr out \<Rightarrow> (case chain_pack_chunks lib fill 1 (c\<lparr>ac_sent_header := True\<rparr>) (chunks_of 2800 (drop n payload)) of
              (fs, c) \<Rightarrow> (Ok (out @ concat fs), c)))"

text \<open>A whole frame of \<open>data_len\<close> bytes of data and \<open>rand\<close> bytes of padding at the front of the buffer.\<close>

definition chain_frame :: "'r chain_library \<Rightarrow> 'r auth_chain \<Rightarrow> nat \<Rightarrow> nat \<Rightarrow> bytes \<Rightarrow> 'r auth_chain frame_step" where
  "chain_frame lib c data_len rand b =
    (let n = data_len + rand;
         hash = hmac_md5 (cl_md5 lib) (su_key (ac_user c) @ u32_le (ac_recv_id c)) (take (n + 2) b)
     in if take 2 hash \<noteq> take 2 (drop (n + 2) b) then Reject (c\<lparr>ac_raw := True\<rparr>) []
        else
          let (start, g) = (if 0 < data_len \<and> 0 < rand then rand_start_pos rand (ac_random_server c)
                else (0, ac_random_server c));
              c = c\<lparr>ac_last_server_hash := hash, ac_random_server := g\<rparr>;
              pos = 2 + start
          in if n + 2 < pos + data_len then Reject c b
             else
               let d = take data_len (drop pos b);
                   (d, c) = (case ac_dec c of
                     Some r \<Rightarrow> (case cl_rc4_apply lib r d of (d, r) \<Rightarrow> (d, c\<lparr>ac_dec := Some r\<rparr>))
                   | None \<Rightarrow> (d, c));
                   d = (if ac_recv_id c = 1 \<and> 2 \<le> length d then drop 2 d else d)
               in Took (c\<lparr>ac_recv_id := ac_recv_id c + 1\<rparr>) d (drop (n + 4) b))"

text \<open>One frame. The generator has moved on when the whole frame is not there yet.\<close>

definition chain_step :: "'r chain_library \<Rightarrow> 'r auth_chain \<Rightarrow> bytes \<Rightarrow> 'r auth_chain frame_step" where
  "chain_step lib c b =
    (if length b \<le> 4 \<or> length (ac_last_server_hash c) < 16 \<or> ac_dec c = None then Wait c
     else
       let encoded_len = of_nat (le16 (b ! 0) (b ! 1)) :: u16;
           hash_len = of_nat (le16 (ac_last_server_hash c ! 14) (ac_last_server_hash c ! 15)) :: u16;
           data_len = unat (encoded_len XOR hash_len);
           (rand, c) = rand_len c data_len (ac_last_server_hash c) False
       in if 4096 \<le> data_len + rand then Reject (c\<lparr>ac_raw := True\<rparr>) []
          else if length b < 4 + (data_len + rand) then Wait c
          else chain_frame lib c data_len rand b)"

definition chain_decode :: "'r chain_library \<Rightarrow> 'r auth_chain \<Rightarrow> bytes \<Rightarrow> bytes \<Rightarrow> (io_error, unit) res \<times> 'r auth_chain \<times> bytes" where
  "chain_decode lib = codec_decode ac_raw ac_recv (\<lambda>b c. c\<lparr>ac_recv := b\<rparr>) (chain_step lib)"

text \<open>Packets, for UDP; \<open>auth\<close> are three random bytes.\<close>

definition ssr_chain_udp_rc4_key :: "'r chain_library \<Rightarrow> bytes \<Rightarrow> bytes \<Rightarrow> bytes" where
  "ssr_chain_udp_rc4_key lib user_key md5_data =
    legacy_evp_bytes_to_key (cl_md5 lib) (as_bytes (cl_base64 lib user_key @ cl_base64 lib md5_data)) 16"

definition chain_encode_packet :: "'r chain_library \<Rightarrow> bytes \<Rightarrow> (nat \<Rightarrow> bytes) \<Rightarrow> 'r auth_chain \<Rightarrow> bytes
    \<Rightarrow> (io_error, bytes) res \<times> 'r auth_chain" where
  "chain_encode_packet lib auth fill c payload =
    (let md5_data = hmac_md5 (cl_md5 lib) (ac_key c) auth;
         (n, c) = udp_rand_len c md5_data True
     in case cl_rc4 lib (ssr_chain_udp_rc4_key lib (su_key (ac_user c)) md5_data) of
          None \<Rightarrow> (Err InvalidInput, c)
        | Some r \<Rightarrow>
            (let out = fst (cl_rc4_apply lib r payload) @ fill n @ auth @ xor_le32 (su_id (ac_user c)) (take 4 md5_data)
             in (Ok (out @ take 1 (hmac_md5 (cl_md5 lib) (su_key (ac_user c)) out)), c)))"

definition chain_decode_packet :: "'r chain_library \<Rightarrow> 'r auth_chain \<Rightarrow> bytes \<Rightarrow> (io_error, bytes) res \<times> 'r auth_chain" where
  "chain_decode_packet lib c payload =
    (if length payload < 9 then (Err InvalidData, c)
     else let mac_pos = length payload - 1
       in if take 1 (hmac_md5 (cl_md5 lib) (su_key (ac_user c)) (take mac_pos payload)) \<noteq> drop mac_pos payload
          then (Err InvalidData, c)
          else
            let auth_start = length payload - 8;
                md5_data = hmac_md5 (cl_md5 lib) (ac_key c) (drop auth_start (take mac_pos payload));
                (n, c) = udp_rand_len c md5_data False
            in if auth_start < n then (Err InvalidData, c)
               else case cl_rc4 lib (ssr_chain_udp_rc4_key lib (su_key (ac_user c)) md5_data) of
                   None \<Rightarrow> (Err InvalidInput, c)
                 | Some r \<Rightarrow> (Ok (fst (cl_rc4_apply lib r (take (auth_start - n) payload))), c))"


section \<open>The generator does not remember\<close>

text \<open>
  A padding length comes from the generator made of the hash and the length alone, or is 0 and leaves the
  generator alone, which of the two being a matter of the length and the lists.
\<close>

lemma chain_rand_len_cases:
  "(\<forall>g. chain_rand_len v sizes sizes2 n hash g = (0, g))
   \<or> (\<exists>k h. \<forall>g. chain_rand_len v sizes sizes2 n hash g = (k, h))"
proof (cases v)
  case ChainB
  then show ?thesis by (cases "1440 \<le> n") (simp_all add: chain_rand_len_def rand_len_b_def Let_def)
next
  case ChainE
  then show ?thesis by (cases "last_size sizes \<le> n + 4") (simp_all add: chain_rand_len_def rand_len_e_def Let_def)
qed (cases "1440 < n"; cases "last_size sizes \<le> n + 4"; auto simp: chain_rand_len_def rand_len_a_def rand_len_c_def
  rand_len_d_def Let_def split_beta prod_eq_iff)+

lemma chain_rand_len_any: "fst (chain_rand_len v sizes sizes2 n hash g) = fst (chain_rand_len v sizes sizes2 n hash g')"
  using chain_rand_len_cases [of v sizes sizes2 n hash] by auto

lemma chain_rand_len_used:
  "0 < fst (chain_rand_len v sizes sizes2 n hash g) \<Longrightarrow> chain_rand_len v sizes sizes2 n hash g' = chain_rand_len v sizes sizes2 n hash g"
  using chain_rand_len_cases [of v sizes sizes2 n hash] by auto

lemma chain_rand_len_again:
  "chain_rand_len v sizes sizes2 n hash g = (k, g') \<Longrightarrow> chain_rand_len v sizes sizes2 n hash g' = (k, g')"
  using chain_rand_len_cases [of v sizes sizes2 n hash] by auto

section \<open>Frames are short enough\<close>

definition sizes_ok :: "nat list \<Rightarrow> bool" where
  "sizes_ok sizes = (sorted sizes \<and> (\<forall>x \<in> set sizes. x < 1440))"

lemma draw_size_bound: "fst (draw_size g) < 1440"
proof -
  obtain v h where v: "xorshift_next g = (v, h)" by (cases "xorshift_next g")
  have "unat (w mod 1440 :: u64) < 1440" for w :: u64 by (simp add: unat_mod_distrib)
  then show ?thesis by (simp add: draw_size_def v)
qed

lemma draw_sizes_bound: "x \<in> set (fst (draw_sizes k g)) \<Longrightarrow> x < 1440"
proof (induction k arbitrary: g)
  case (Suc k)
  then show ?case using draw_size_bound [of g] by (auto simp: split_beta)
qed simp

lemma sizes_ok_sort: "sizes_ok (sort xs) \<longleftrightarrow> (\<forall>x \<in> set xs. x < 1440)"
  by (simp add: sizes_ok_def)

lemma sizes_ok_patch: "sizes_ok sizes \<Longrightarrow> sizes_ok (patch_data_size_high_water sizes g)"
proof (induction sizes g rule: patch_data_size_high_water.induct)
  case (1 sizes g)
  show ?case
  proof (cases "last_size sizes < 1300 \<and> length sizes < 64")
    case True
    have "sizes_ok (sort (sizes @ [fst (draw_size g)]))"
      using 1(2) draw_size_bound by (simp only: sizes_ok_sort) (auto simp: sizes_ok_def)
    then show ?thesis using 1(1) [OF True] True by (subst patch_data_size_high_water.simps) simp
  qed (use 1(2) in \<open>subst patch_data_size_high_water.simps, auto\<close>)
qed

lemma init_sizes_ok: "sizes_ok (init_data_size_c patch key)" "sizes_ok (fst (init_data_size_b key))" "sizes_ok (snd (init_data_size_b key))"
  by (auto simp: init_data_size_c_def init_data_size_b_def sizes_ok_sort Let_def split_beta
    intro!: sizes_ok_patch dest: draw_sizes_bound)

text \<open>
  The loop that patches the size list of \<open>auth_chain_d\<close> to \<open>auth_chain_f\<close> ends after at most 64 sizes
  whatever the generator draws: its list is sorted, has only sizes a frame may have, and either its
  greatest size is at least 1300 or it has 64 of them.
\<close>

theorem patch_high_water_ends:
  assumes "sizes_ok sizes" "length sizes \<le> 64"
  shows "sizes_ok (patch_data_size_high_water sizes g) \<and> length (patch_data_size_high_water sizes g) \<le> 64
    \<and> (1300 \<le> last_size (patch_data_size_high_water sizes g) \<or> length (patch_data_size_high_water sizes g) = 64)"
  using assms
proof (induction sizes g rule: patch_data_size_high_water.induct)
  case (1 sizes g)
  show ?case
  proof (cases "last_size sizes < 1300 \<and> length sizes < 64")
    case True
    have "sizes_ok (sort (sizes @ [fst (draw_size g)]))"
      using 1(2) draw_size_bound by (simp only: sizes_ok_sort) (auto simp: sizes_ok_def)
    moreover have "length (sort (sizes @ [fst (draw_size g)])) \<le> 64" using True by simp
    ultimately show ?thesis using 1(1) [OF True] True patch_data_size_high_water.simps [of sizes g] by presburger
  next
    case False
    then have "patch_data_size_high_water sizes g = sizes" by (subst patch_data_size_high_water.simps) (simp only: if_False)
    then show ?thesis using False 1(2,3) by auto
  qed
qed

theorem patch_high_water_ends_witness:
  "length (patch_data_size_high_water [5, 7] default_xorshift) = 64 \<or> 1300 \<le> last_size (patch_data_size_high_water [5, 7] default_xorshift)"
  using patch_high_water_ends [of "[5, 7]" default_xorshift] by (auto simp: sizes_ok_def)

lemma after_initialized_bound: "n + fst (rand_len_after_initialized n g) < 4096" if "n \<le> 2800"
proof -
  obtain v h where v: "xorshift_next g = (v, h)" by (cases "xorshift_next g")
  have "unat v mod 31 < 31" "unat v mod 127 < 127" "unat v mod 521 < 521" "unat v mod 1021 < 1021" by simp_all
  then show ?thesis using that by (simp add: rand_len_after_initialized_def v) linarith
qed

lemma size_bound: "sizes_ok sizes \<Longrightarrow> i < length sizes \<Longrightarrow> n \<le> 2800 \<Longrightarrow> n + (sizes ! i - (n + 4)) < 4096"
proof -
  assume "sizes_ok sizes" "i < length sizes" "n \<le> 2800"
  then have "sizes ! i < 1440" by (simp add: sizes_ok_def)
  then show ?thesis using \<open>n \<le> 2800\<close> by linarith
qed

lemma chain_rand_len_bound:
  assumes "n \<le> 2800" "sizes_ok sizes" "sizes_ok sizes2"
  shows "n + fst (chain_rand_len v sizes sizes2 n hash g) < 4096"
proof -
  note bounds = after_initialized_bound [OF assms(1)] size_bound [OF assms(2) _ assms(1)] size_bound [OF assms(3) _ assms(1)]
  have index: "pos < length sizes \<Longrightarrow> pos + k mod (length sizes - pos) < length sizes" for pos k
    using mod_less_divisor [of "length sizes - pos" k] by linarith
  show ?thesis
  proof (cases v)
    case ChainA
    then show ?thesis using bounds assms(1) by (simp add: chain_rand_len_def rand_len_a_def)
  next
    case ChainB
    then show ?thesis using bounds assms(1) by (simp add: chain_rand_len_def rand_len_b_def Let_def split_beta)
  next
    case ChainE
    then show ?thesis using bounds assms(1) by (simp add: chain_rand_len_def rand_len_e_def Let_def split_beta)
  qed (use bounds index assms(1) in \<open>simp_all add: chain_rand_len_def rand_len_c_def rand_len_d_def Let_def split_beta not_le\<close>)
qed


section \<open>Frames come back\<close>

text \<open>The library's functions as they are documented: MD5 has 16 bytes, and RC4 a key stream.\<close>

definition chain_library_ok :: "'r chain_library \<Rightarrow> bool" where
  "chain_library_ok lib \<longleftrightarrow> (\<forall>d. length (cl_md5 lib d) = 16)
    \<and> (\<forall>r d. length (fst (cl_rc4_apply lib r d)) = length d
        \<and> cl_rc4_apply lib r (fst (cl_rc4_apply lib r d)) = (d, snd (cl_rc4_apply lib r d)))"

text \<open>What the sender and the receiver agree on before a frame.\<close>

definition chain_peers :: "'r auth_chain \<Rightarrow> 'r auth_chain \<Rightarrow> bool" where
  "chain_peers c p \<longleftrightarrow> ac_enc c \<noteq> None \<and> ac_dec p = ac_enc c \<and> ac_last_server_hash p = ac_last_client_hash c
    \<and> length (ac_last_client_hash c) = 16 \<and> ac_recv_id p = ac_pack_id c \<and> su_key (ac_user p) = su_key (ac_user c)
    \<and> ap_variant (ac_profile p) = ap_variant (ac_profile c) \<and> ac_sizes p = ac_sizes c \<and> ac_sizes2 p = ac_sizes2 c
    \<and> sizes_ok (ac_sizes c) \<and> sizes_ok (ac_sizes2 c)"

text \<open>What the receiver makes of the data of a frame: the first one has two bytes in front.\<close>

definition chain_strip :: "u32 \<Rightarrow> bytes \<Rightarrow> bytes" where
  "chain_strip i d = (if i = 1 \<and> 2 \<le> length d then drop 2 d else d)"

lemma xor_word_cancel: "(a XOR b) XOR b = (a :: 'w :: len word)"
  by (simp add: xor.assoc)

lemma chain_length_field:
  fixes h :: u16
  assumes "n < 65536"
  shows "unat (of_nat (le16 (to_le 2 (unat (of_nat n XOR h)) ! 0) (to_le 2 (unat (of_nat n XOR h)) ! Suc 0)) XOR h) = n"
proof -
  have "unat (of_nat n XOR h) < 65536" using unsigned_less [of "of_nat n XOR h"] by simp
  then show ?thesis using assms by (simp add: le16_to_le xor_word_cancel unsigned_of_nat take_bit_nat_eq_self)
qed

lemma rand_start_pos_less: "0 < n \<Longrightarrow> fst (rand_start_pos n g) < n"
  by (simp add: rand_start_pos_def split_beta)

text \<open>The mixed bytes hold the data where the receiver's generator says.\<close>

lemma put_mixed_frame:
  assumes "d \<noteq> []" "\<And>k n. length (fill k n) = n"
    and "chain_rand_len (ap_variant (ac_profile c)) (ac_sizes c) (ac_sizes2 c) (length d) (ac_last_client_hash c) (ac_random_client c) = (n, g)"
  defines "start \<equiv> (if 0 < n then fst (rand_start_pos n g) else 0)"
  shows "\<exists>m g'. put_mixed_rand_and_data fill c d = (m, c\<lparr>ac_random_client := g'\<rparr>) \<and> length m = length d + n
    \<and> start + length d \<le> length m \<and> take (length d) (drop start m) = d"
proof (cases "0 < n")
  case True
  obtain s g' where s: "rand_start_pos n g = (s, g')" by (cases "rand_start_pos n g")
  have less: "s < n" using rand_start_pos_less [OF True, of g] s by simp
  have "put_mixed_rand_and_data fill c d = (fill 0 s @ d @ fill 1 (n - s), c\<lparr>ac_random_client := g'\<rparr>)"
    using True s assms(1,3) by (simp add: put_mixed_rand_and_data_def rand_len_def)
  then show ?thesis
    using True less s assms(2) by (intro exI [of _ "fill 0 s @ d @ fill 1 (n - s)"] exI [of _ g']) (simp add: start_def)
next
  case False
  then show ?thesis using assms(1,3)
    by (intro exI [of _ d] exI [of _ g]) (simp add: put_mixed_rand_and_data_def rand_len_def start_def)
qed

lemma chain_frame_took:
  assumes "take (k + n + 2) b = x" "take 2 (drop (k + n + 2) b) = take 2 hash"
    and "hmac_md5 (cl_md5 lib) (su_key (ac_user c) @ u32_le (ac_recv_id c)) x = hash"
    and "(if 0 < k \<and> 0 < n then rand_start_pos n (ac_random_server c) else (0, ac_random_server c)) = (st, g)" "st \<le> n"
    and "take k (drop (2 + st) b) = e" "ac_dec c = Some rc" "cl_rc4_apply lib rc e = (d, rc')"
  shows "chain_frame lib c k n b = Took (c\<lparr>ac_last_server_hash := hash, ac_random_server := g, ac_dec := Some rc',
    ac_recv_id := ac_recv_id c + 1\<rparr>) (chain_strip (ac_recv_id c) d) (drop (k + n + 4) b)"
proof -
  have "\<not> k + n + 2 < 2 + st + k" using assms(5) by simp
  then show ?thesis
    unfolding chain_frame_def Let_def assms(1-4) prod.case by (simp only: assms(6-8) auth_chain.simps) (simp add: assms(6-8) chain_strip_def)
qed

lemma chain_took:
  assumes "chain_library_ok lib" "chain_peers c p" "d \<noteq> []" "length d \<le> 2800" "\<And>k n. length (fill k n) = n"
    and "chain_pack_data lib fill c d = (f, c')"
  shows "\<exists>p'. (\<forall>r. chain_step lib p (f @ r) = Took p' (chain_strip (ac_pack_id c) d) r) \<and> chain_peers c' p'
    \<and> ac_raw p' = ac_raw p \<and> ac_recv p' = ac_recv p \<and> ac_pack_id c' = ac_pack_id c + 1"
proof -
  obtain rc where rc: "ac_enc c = Some rc" using assms(2) by (auto simp: chain_peers_def)
  obtain e rc' where e: "cl_rc4_apply lib rc d = (e, rc')" by (cases "cl_rc4_apply lib rc d")
  have "length (fst (cl_rc4_apply lib rc d)) = length d" "cl_rc4_apply lib rc (fst (cl_rc4_apply lib rc d)) = (d, snd (cl_rc4_apply lib rc d))"
    "\<And>x. length (cl_md5 lib x) = 16"
    using assms(1) unfolding chain_library_ok_def by blast+
  then have lib: "length (cl_md5 lib x) = 16" "length e = length d" "cl_rc4_apply lib rc e = (d, rc')" for x by (simp_all add: e)
  have md5: "length (hmac_md5 (cl_md5 lib) k m) = 16" for k m using lib(1) by (rule length_hmac_md5)
  define c1 where "c1 = c\<lparr>ac_enc := Some rc', ac_pack_id := ac_pack_id c + 1\<rparr>"
  obtain n g where ng: "chain_rand_len (ap_variant (ac_profile c)) (ac_sizes c) (ac_sizes2 c) (length d) (ac_last_client_hash c)
      (ac_random_client c) = (n, g)" by fastforce
  have "e \<noteq> []" using lib(2) assms(3) by auto
  define st where "st = (if 0 < n then fst (rand_start_pos n g) else 0)"
  have "chain_rand_len (ap_variant (ac_profile c1)) (ac_sizes c1) (ac_sizes2 c1) (length e) (ac_last_client_hash c1) (ac_random_client c1) = (n, g)"
    using ng lib(2) by (simp add: c1_def)
  from put_mixed_frame [of e fill c1 n g, OF \<open>e \<noteq> []\<close> assms(5) this, folded st_def]
  obtain m g' where m: "put_mixed_rand_and_data fill c1 e = (m, c1\<lparr>ac_random_client := g'\<rparr>)" "length m = length d + n"
      "st + length d \<le> length m" "take (length d) (drop st m) = e"
    unfolding lib(2) by blast
  define h :: u16 where "h = of_nat (le16 (ac_last_client_hash c ! 14) (ac_last_client_hash c ! 15))"
  define l where "l = to_le 2 (unat (of_nat (length d) XOR h))"
  define hash where "hash = hmac_md5 (cl_md5 lib) (su_key (ac_user c) @ u32_le (ac_pack_id c)) (l @ m)"
  have f: "f = l @ m @ take 2 hash" and c': "c' = c1\<lparr>ac_random_client := g', ac_last_client_hash := hash\<rparr>"
    using assms(6) m(1) rc e lib(2)
    by (simp_all add: chain_pack_data_def c1_def h_def l_def hash_def Let_def)
  have len: "length l = 2" "length hash = 16" by (simp_all add: l_def hash_def md5)
  have fits: "length d + n < 4096"
    using chain_rand_len_bound [OF assms(4), of "ac_sizes c" "ac_sizes2 c" "ap_variant (ac_profile c)" "ac_last_client_hash c"
        "ac_random_client c"] assms(2) ng by (simp add: chain_peers_def)
  obtain g1 where ng1: "chain_rand_len (ap_variant (ac_profile c)) (ac_sizes c) (ac_sizes2 c) (length d) (ac_last_client_hash c)
      (ac_random_server p) = (n, g1)"
    using chain_rand_len_any [of "ap_variant (ac_profile c)" "ac_sizes c" "ac_sizes2 c" "length d" "ac_last_client_hash c"
        "ac_random_client c" "ac_random_server p"] ng by (metis fst_conv prod.collapse)
  have g1: "g1 = g" if "0 < n"
    using chain_rand_len_used [of "ap_variant (ac_profile c)" "ac_sizes c" "ac_sizes2 c" "length d" "ac_last_client_hash c"
        "ac_random_client c" "ac_random_server p"] ng ng1 that by simp
  define s where "s = (if 0 < n then rand_start_pos n g1 else (0, g1))"
  have s: "fst s = st" using g1 by (simp add: s_def st_def)
  define p' where "p' = p\<lparr>ac_random_server := snd s, ac_last_server_hash := hash, ac_dec := Some rc', ac_recv_id := ac_pack_id c + 1\<rparr>"
  have "chain_step lib p (f @ r) = Took p' (chain_strip (ac_pack_id c) d) r" for r
  proof -
    define b where "b = f @ r"
    have field: "unat (of_nat (le16 (b ! 0) (b ! 1)) XOR h) = length d"
      using chain_length_field [of "length d" h] assms(4) len(1) by (simp add: b_def f l_def [symmetric] nth_append)
    have parts: "take (length d + n + 2) b = l @ m" "take 2 (drop (length d + n + 2) b) = take 2 hash" "drop (length d + n + 4) b = r"
      "take (length d) (drop (2 + fst s) b) = e"
      using len m(2-4) by (simp_all add: b_def f s)
    have bounds: "\<not> length d + n + 2 < 2 + fst s + length d" "\<not> length b \<le> 4" "\<not> length b < 4 + (length d + n)" "\<not> 4096 \<le> length d + n"
      using m(2,3) s assms(3) len fits by (auto simp: b_def f Suc_le_eq)
    have p: "ac_dec p = Some rc" "ac_last_server_hash p = ac_last_client_hash c" "\<not> length (ac_last_client_hash c) < 16"
      "ac_recv_id p = ac_pack_id c" "su_key (ac_user p) = su_key (ac_user c)"
      using assms(2) rc by (simp_all add: chain_peers_def)
    have rand: "rand_len p (length d) (ac_last_client_hash c) False = (n, p\<lparr>ac_random_server := g1\<rparr>)"
      using assms(2) ng1 by (simp add: rand_len_def chain_peers_def)
    have hash: "hmac_md5 (cl_md5 lib) (su_key (ac_user c) @ u32_le (ac_pack_id c)) (l @ m) = hash" by (simp only: hash_def)
    have "chain_frame lib (p\<lparr>ac_random_server := g1\<rparr>) (length d) n b = Took ((p\<lparr>ac_random_server := g1\<rparr>)\<lparr>ac_last_server_hash := hash,
        ac_random_server := snd s, ac_dec := Some rc', ac_recv_id := ac_recv_id (p\<lparr>ac_random_server := g1\<rparr>) + 1\<rparr>)
        (chain_strip (ac_recv_id (p\<lparr>ac_random_server := g1\<rparr>)) d) (drop (length d + n + 4) b)"
      by (rule chain_frame_took [where x = "l @ m" and st = "fst s" and rc = rc and e = e])
        (use parts bounds(1) p hash assms(3) lib(3) in \<open>simp_all add: s_def\<close>)
    then have "chain_frame lib (p\<lparr>ac_random_server := g1\<rparr>) (length d) n b = Took p' (chain_strip (ac_pack_id c) d) r"
      unfolding parts(3) by (simp add: p(4) p'_def)
    then have "chain_step lib p b = Took p' (chain_strip (ac_pack_id c) d) r"
      unfolding chain_step_def p h_def [symmetric] field rand Let_def prod.case using bounds(2-4) p(3) by simp
    then show ?thesis by (simp only: b_def)
  qed
  moreover have "chain_peers c' p'" using assms(2) len by (simp add: chain_peers_def c' c1_def p'_def)
  ultimately show ?thesis by (intro exI [of _ p']) (simp add: p'_def c' c1_def)
qed


section \<open>The codec as a frame codec\<close>

lemma chain_frame_local:
  assumes "4 + (k + n) \<le> length b"
  shows "chain_frame lib c k n b = Took c' d r \<Longrightarrow> chain_frame lib c k n (b @ e) = Took c' d (r @ e)"
    and "chain_frame lib c k n b = Reject c' r \<Longrightarrow> \<exists>c'' r''. chain_frame lib c k n (b @ e) = Reject c'' r''"
proof -
  let ?x = "k + n + 2"
  have whole: "take ?x (b @ e) = take ?x b" "take 2 (drop ?x (b @ e)) = take 2 (drop ?x b)" "drop (k + n + 4) (b @ e) = drop (k + n + 4) b @ e"
    using assms by simp_all
  define hash where "hash = hmac_md5 (cl_md5 lib) (su_key (ac_user c) @ u32_le (ac_recv_id c)) (take ?x b)"
  obtain st g where sg: "(if 0 < k \<and> 0 < n then rand_start_pos n (ac_random_server c) else (0, ac_random_server c)) = (st, g)"
    by fastforce
  have "(\<exists>c'' r''. chain_frame lib c k n b = Reject c'' r'') \<and> (\<exists>c'' r''. chain_frame lib c k n (b @ e) = Reject c'' r'')
    \<or> (\<exists>c'' d''. chain_frame lib c k n b = Took c'' d'' (drop (k + n + 4) b) \<and> chain_frame lib c k n (b @ e) = Took c'' d'' (drop (k + n + 4) b @ e))"
  proof (cases "take 2 hash = take 2 (drop ?x b) \<and> \<not> ?x < 2 + st + k")
    case True
    have "2 + st + k \<le> length b" using True assms by linarith
    then have data: "take k (drop (2 + st) (b @ e)) = take k (drop (2 + st) b)" by simp
    have "(take 2 hash \<noteq> take 2 (drop ?x b)) = False" "(?x < 2 + st + k) = False" using True by simp_all
    then show ?thesis
      unfolding chain_frame_def Let_def whole hash_def [symmetric] sg prod.case data if_False by (simp add: split_beta)
  next
    case False
    then have "take 2 hash \<noteq> take 2 (drop ?x b) \<or> ?x < 2 + st + k" by blast
    then show ?thesis
      unfolding chain_frame_def Let_def whole hash_def [symmetric] sg prod.case by (elim disjE) simp_all
  qed
  then show "chain_frame lib c k n b = Took c' d r \<Longrightarrow> chain_frame lib c k n (b @ e) = Took c' d (r @ e)"
    and "chain_frame lib c k n b = Reject c' r \<Longrightarrow> \<exists>c'' r''. chain_frame lib c k n (b @ e) = Reject c'' r''"
    by auto
qed

lemma chain_frame_rest:
  "chain_frame lib c k n b \<noteq> Wait c'"
  "chain_frame lib c k n b = Took c' d r \<Longrightarrow> r = drop (k + n + 4) b \<and> ac_raw c' = ac_raw c \<and> ac_recv c' = ac_recv c"
  by (auto simp: chain_frame_def Let_def split: if_splits prod.splits option.splits)

text \<open>The length of the next frame, its padding, and the codec with the generator that has made it.\<close>

definition chain_sizes :: "'r auth_chain \<Rightarrow> bytes \<Rightarrow> nat \<times> nat \<times> 'r auth_chain" where
  "chain_sizes c b =
    (let k = unat ((of_nat (le16 (b ! 0) (b ! 1)) :: u16)
           XOR of_nat (le16 (ac_last_server_hash c ! 14) (ac_last_server_hash c ! 15)))
     in (k, rand_len c k (ac_last_server_hash c) False))"

lemma chain_step_sizes:
  "chain_step lib c b =
    (if length b \<le> 4 \<or> length (ac_last_server_hash c) < 16 \<or> ac_dec c = None then Wait c
     else case chain_sizes c b of (k, n, c) \<Rightarrow>
       (if 4096 \<le> k + n then Reject (c\<lparr>ac_raw := True\<rparr>) []
        else if length b < 4 + (k + n) then Wait c else chain_frame lib c k n b))"
  by (simp add: chain_step_def chain_sizes_def Let_def split_beta)

lemma chain_sizes_append: "4 < length b \<Longrightarrow> chain_sizes c (b @ e) = chain_sizes c b"
proof -
  assume "4 < length b"
  then have "0 < length b" "1 < length b" by linarith+
  then have "(b @ e) ! 0 = b ! 0" "(b @ e) ! 1 = b ! 1" by (simp_all only: nth_append if_True)
  then show ?thesis by (simp only: chain_sizes_def)
qed

lemma chain_sizes_again:
  assumes "chain_sizes c b = (k, n, c')"
  shows "chain_sizes c' b = (k, n, c')" "ac_last_server_hash c' = ac_last_server_hash c" "ac_dec c' = ac_dec c"
    "ac_raw c' = ac_raw c" "ac_recv c' = ac_recv c"
proof -
  have k: "k = unat ((of_nat (le16 (b ! 0) (b ! 1)) :: u16)
           XOR of_nat (le16 (ac_last_server_hash c ! 14) (ac_last_server_hash c ! 15)))"
    and r: "rand_len c k (ac_last_server_hash c) False = (n, c')"
    using assms by (auto simp: chain_sizes_def Let_def)
  obtain g where g: "chain_rand_len (ap_variant (ac_profile c)) (ac_sizes c) (ac_sizes2 c) k (ac_last_server_hash c) (ac_random_server c) = (n, g)"
    "c' = c\<lparr>ac_random_server := g\<rparr>"
    using r by (auto simp: rand_len_def split: prod.splits)
  then show "chain_sizes c' b = (k, n, c')"
    using chain_rand_len_again [OF g(1)] k by (simp add: chain_sizes_def rand_len_def Let_def)
  show "ac_last_server_hash c' = ac_last_server_hash c" "ac_dec c' = ac_dec c" "ac_raw c' = ac_raw c" "ac_recv c' = ac_recv c"
    using g(2) by simp_all
qed

interpretation auth_chain: buffered_codec "chain_step lib" ac_raw ac_recv "\<lambda>b c. c\<lparr>ac_recv := b\<rparr>"
proof unfold_locales
  fix c :: "'a auth_chain" and b st' d r e
  obtain k n c1 where sizes: "chain_sizes c b = (k, n, c1)" by (cases "chain_sizes c b")
  note again = chain_sizes_again [OF sizes]
  note steps = chain_step_sizes [of lib]
  { assume w: "chain_step lib c b = Wait st'"
    show "chain_step lib st' (b @ e) = chain_step lib c (b @ e)"
      using w again sizes by (auto simp: steps chain_sizes_append chain_frame_rest split: if_splits) }
  { assume w: "chain_step lib c b = Wait st'"
    show "ac_raw st' = ac_raw c \<and> ac_recv st' = ac_recv c"
      using w again sizes by (auto simp: steps chain_frame_rest split: if_splits) }
  { assume t: "chain_step lib c b = Took st' d r"
    then have ready: "4 < length b" "\<not> length (ac_last_server_hash c) < 16" "ac_dec c \<noteq> None" "\<not> 4096 \<le> k + n"
        "4 + (k + n) \<le> length b" "chain_frame lib c1 k n b = Took st' d r"
      using sizes by (auto simp: steps split: if_splits)
    show "length r < length b" using chain_frame_rest(2) [OF ready(6)] ready(1) by auto
    show "chain_step lib c (b @ e) = Took st' d (r @ e)"
      using ready sizes chain_frame_local(1) [OF ready(5,6)] by (simp add: steps chain_sizes_append)
    show "ac_raw st' = ac_raw c \<and> ac_recv st' = ac_recv c"
      using chain_frame_rest(2) [OF ready(6)] again by simp }
  { assume t: "chain_step lib c b = Reject st' r"
    then have ready: "4 < length b" "\<not> length (ac_last_server_hash c) < 16" "ac_dec c \<noteq> None"
        "4096 \<le> k + n \<or> (4 + (k + n) \<le> length b \<and> chain_frame lib c1 k n b = Reject st' r)"
      using sizes by (auto simp: steps split: if_splits)
    then show "\<exists>st'' r''. chain_step lib c (b @ e) = Reject st'' r''"
      using sizes chain_frame_local(2) [of k n b lib c1 st' r e] by (auto simp: steps chain_sizes_append) }
qed (simp_all add: chain_step_def)


section \<open>A conversation\<close>

text \<open>What comes out of the frames of a list of payloads, the first of which is frame \<open>i\<close>.\<close>

fun chain_outputs :: "u32 \<Rightarrow> bytes list \<Rightarrow> bytes list" where
  "chain_outputs i [] = []"
| "chain_outputs i (d # ds) = chain_strip i d # chain_outputs (i + 1) ds"

lemma chain_takes:
  assumes "chain_library_ok lib" "\<And>i k n. length (fill i k n) = n"
  shows "chain_peers c p \<Longrightarrow> (\<And>d. d \<in> set ds \<Longrightarrow> d \<noteq> [] \<and> length d \<le> 2800) \<Longrightarrow> chain_pack_chunks lib fill i c ds = (fs, c')
    \<Longrightarrow> \<exists>p'. length fs = length ds \<and> frames_take (chain_step lib) p (zip fs (chain_outputs (ac_pack_id c) ds)) p'
      \<and> chain_peers c' p' \<and> ac_raw p' = ac_raw p \<and> ac_recv p' = ac_recv p"
proof (induction ds arbitrary: c p fs i)
  case (Cons d ds)
  obtain f c1 fs1 where f: "chain_pack_data lib (fill i) c d = (f, c1)" "chain_pack_chunks lib fill (Suc i) c1 ds = (fs1, c')" "fs = f # fs1"
    using Cons.prems(3) by (auto split: prod.splits)
  have d: "d \<noteq> []" "length d \<le> 2800" using Cons.prems(2) by simp_all
  obtain p1 where p1: "\<forall>r. chain_step lib p (f @ r) = Took p1 (chain_strip (ac_pack_id c) d) r" "chain_peers c1 p1"
      "ac_raw p1 = ac_raw p" "ac_recv p1 = ac_recv p" "ac_pack_id c1 = ac_pack_id c + 1"
    using chain_took [OF assms(1) Cons.prems(1) d _ f(1)] assms(2) by auto
  obtain p' where "length fs1 = length ds" "frames_take (chain_step lib) p1 (zip fs1 (chain_outputs (ac_pack_id c1) ds)) p'"
      "chain_peers c' p'" "ac_raw p' = ac_raw p1" "ac_recv p' = ac_recv p1"
    using Cons.IH [OF p1(2) _ f(2)] Cons.prems(2) by auto
  then show ?case using p1 f(3) by (intro exI [of _ p']) auto
qed simp

lemma length_chain_outputs: "length (chain_outputs i ds) = length ds"
  by (induction ds arbitrary: i) simp_all

lemma chain_outputs_later:
  "(\<And>j. j < length ds \<Longrightarrow> i + of_nat j \<noteq> 1) \<Longrightarrow> chain_outputs i ds = ds"
proof (induction ds arbitrary: i)
  case (Cons d ds)
  have "i \<noteq> 1" using Cons.prems [of 0] by simp
  moreover have "chain_outputs (i + 1) ds = ds"
    using Cons.prems [of "Suc j" for j] by (intro Cons.IH) (simp add: add.assoc)
  ultimately show ?case by (simp add: chain_strip_def)
qed simp

text \<open>The codec of the server for a client that has made its keys.\<close>

definition chain_mirror :: "'r auth_chain \<Rightarrow> 'r auth_chain" where
  "chain_mirror p = p\<lparr>ac_enc := ac_dec p, ac_last_client_hash := ac_last_server_hash p, ac_pack_id := ac_recv_id p\<rparr>"

definition chain_ready :: "'r auth_chain \<Rightarrow> bool" where
  "chain_ready p \<longleftrightarrow> ac_dec p \<noteq> None \<and> length (ac_last_server_hash p) = 16 \<and> sizes_ok (ac_sizes p) \<and> sizes_ok (ac_sizes2 p)
    \<and> \<not> ac_raw p \<and> ac_recv p = []"

lemma chain_mirror_peers: "chain_ready p \<Longrightarrow> chain_peers (chain_mirror p) p"
  by (simp add: chain_ready_def chain_peers_def chain_mirror_def)

lemma put_mixed_keeps:
  "put_mixed_rand_and_data fill c d = (m, c') \<Longrightarrow> \<exists>g. c' = c\<lparr>ac_random_client := g\<rparr>"
  by (auto simp: put_mixed_rand_and_data_def rand_len_def split: prod.splits if_splits)

lemma pack_data_keeps:
  "chain_pack_data lib fill c d = (f, c') \<Longrightarrow> ac_dec c' = ac_dec c \<and> ac_last_server_hash c' = ac_last_server_hash c
    \<and> ac_sizes c' = ac_sizes c \<and> ac_sizes2 c' = ac_sizes2 c \<and> ac_raw c' = ac_raw c \<and> ac_recv c' = ac_recv c \<and> ac_recv_id c' = ac_recv_id c"
  by (auto simp: chain_pack_data_def Let_def split: prod.splits option.splits dest!: put_mixed_keeps)

lemma pack_chunks_keeps:
  "chain_pack_chunks lib fill i c ds = (fs, c') \<Longrightarrow> ac_dec c' = ac_dec c \<and> ac_last_server_hash c' = ac_last_server_hash c
    \<and> ac_sizes c' = ac_sizes c \<and> ac_sizes2 c' = ac_sizes2 c \<and> ac_raw c' = ac_raw c \<and> ac_recv c' = ac_recv c \<and> ac_recv_id c' = ac_recv_id c"
proof (induction ds arbitrary: i c fs)
  case (Cons d ds)
  obtain f c1 fs1 where "chain_pack_data lib (fill i) c d = (f, c1)" "chain_pack_chunks lib fill (Suc i) c1 ds = (fs1, c')"
    using Cons.prems by (auto split: prod.splits)
  then show ?case using pack_data_keeps Cons.IH by metis
qed simp

text \<open>The first \<open>encode\<close> makes the keys.\<close>

lemma first_encode_ready:
  fixes lib :: "'r chain_library" and p :: "'r auth_chain"
  assumes "chain_library_ok lib" "chain_encode lib r first fill (new_auth_chain rid auth key iv param profile) payload = (Ok wire, p)"
  shows "chain_ready p" "ac_recv_id p = 1"
proof -
  let ?c = "new_auth_chain rid auth key iv param profile :: 'r auth_chain"
  have new: "\<not> ac_sent_header ?c" "sizes_ok (ac_sizes ?c)" "sizes_ok (ac_sizes2 ?c)" "\<not> ac_raw ?c" "ac_recv ?c = []" "ac_recv_id ?c = 1"
  proof -
    have nil: "sizes_ok []" by (simp add: sizes_ok_def)
    show "\<not> ac_sent_header ?c" "\<not> ac_raw ?c" "ac_recv ?c = []" "ac_recv_id ?c = 1"
      by (simp_all add: new_auth_chain_def Let_def split_beta split: auth_chain_variant.split)
    show "sizes_ok (ac_sizes ?c)" "sizes_ok (ac_sizes2 ?c)"
      using init_sizes_ok nil by (simp_all add: new_auth_chain_def Let_def split_beta split: auth_chain_variant.split)
  qed
  have md5: "length (hmac_md5 (cl_md5 lib) k m) = 16" for k m
    using assms(1) by (intro length_hmac_md5) (simp add: chain_library_ok_def)
  let ?head = "take (get_auth_sha1_v4_data_len r payload) payload"
  obtain front c1 where front: "chain_pack_auth_data lib first (fill 0) ?c ?head = (front, c1)" by fastforce
  obtain out fs where first: "chain_pack_auth_data lib first (fill 0) ?c ?head = (Ok out, c1)"
    and chunks: "chain_pack_chunks lib fill 1 (c1\<lparr>ac_sent_header := True\<rparr>) (chunks_of 2800 (drop (get_auth_sha1_v4_data_len r payload) payload)) = (fs, p)"
    using assms(2) new(1) front unfolding chain_encode_def Let_def by (cases front) (auto split: prod.splits)
  obtain rc hash a server frame where
      "chain_pack_data lib (fill 0) (?c\<lparr>ac_last_client_hash := hash, ac_enc := Some rc, ac_dec := Some rc, ac_auth := a,
        ac_last_server_hash := server\<rparr>) ?head = (frame, c1)" "length server = 16"
    using first md5 by (auto simp: chain_pack_auth_data_def init_rc4_def Let_def split: prod.splits sum.splits option.splits)
  from pack_data_keeps [OF this(1)] this(2) pack_chunks_keeps [OF chunks] new
  show "chain_ready p" "ac_recv_id p = 1" by (auto simp: chain_ready_def)
qed

text \<open>
  C22: After a client of \<open>auth_chain_a\<close> to \<open>auth_chain_f\<close> has encoded its first payload it takes everything
  that a server answers with which goes on with the client's key stream and hash: whatever the random
  bytes and the generators of the two, and however the frames are cut into reads, the client finds the
  length of each frame, its padding, and the data in the padding, and gives the answer back without
  the two bytes in front that only the first frame has.
\<close>

theorem auth_chain_reads_answers:
  assumes "chain_library_ok lib" "\<forall>i k n. length (fill i k n) = n" "2 \<le> length answer" "length answer < 2 ^ 32"
    and "chain_encode lib r first fill (new_auth_chain rid auth key iv param profile) payload = (Ok wire, p)"
    and "chain_pack_chunks lib fill 0 (chain_mirror p) (chunks_of 2800 answer) = (fs, c)" "concat cs = concat fs"
  shows "\<exists>p'. codec_reads (chain_decode lib) p cs = Some (p', drop 2 answer) \<and> chain_peers c p'"
proof -
  let ?ds = "chunks_of 2800 answer"
  note ready = first_encode_ready [OF assms(1,5)]
  obtain p' where p': "length fs = length ?ds" "frames_take (chain_step lib) p (zip fs (chain_outputs 1 ?ds)) p'"
      "chain_peers c p'" "ac_recv p' = []"
    using chain_takes [OF assms(1) _ chain_mirror_peers [OF ready(1)] _ assms(6)] assms(2) length_chunks_of [of _ 2800 answer] ready
    by (auto simp: chain_mirror_def chain_ready_def)
  have ne: "answer \<noteq> []" using assms(3) by auto
  obtain d ds where ds: "?ds = d # ds" "d = take 2800 answer" "ds = chunks_of 2800 (drop 2800 answer)"
    using ne by (subst (asm) chunks_of.simps) simp
  have count: "length (chunks_of n xs) \<le> length xs" if "0 < n" for n xs
    using that
  proof (induction n xs rule: chunks_of.induct)
    case (1 n d)
    then have "d \<noteq> [] \<Longrightarrow> Suc (length (chunks_of n (drop n d))) \<le> length d" by (cases d) fastforce+
    then show ?case by (subst chunks_of.simps) simp
  qed
  have "chain_outputs 2 ds = ds"
  proof (rule chain_outputs_later)
    fix j assume "j < length ds"
    then have "j + 2 < 2 ^ 32" using count [of 2800 "drop 2800 answer"] ds(3) assms(4) by simp
    then have "unat (of_nat (j + 2) :: u32) = j + 2" by (simp only: byte_word_int mod_less)
    moreover have "(of_nat (j + 2) :: u32) = 2 + of_nat j" by (simp only: of_nat_add of_nat_numeral add.commute)
    ultimately have "unat (2 + of_nat j :: u32) = j + 2" by (simp only:)
    then show "2 + of_nat j \<noteq> (1 :: u32)" by fastforce
  qed
  then have "concat (chain_outputs 1 ?ds) = drop 2 d @ concat ds" using ds assms(3) by (simp add: chain_strip_def)
  also have "\<dots> = drop 2 (d @ concat ds)" using ds(2) assms(3) by simp
  also have "d @ concat ds = answer" using ds(2,3) by (simp add: concat_chunks_of)
  finally have out: "concat (chain_outputs 1 ?ds) = drop 2 answer" .
  have len: "length fs = length (chain_outputs 1 ?ds)" using p'(1) by (simp add: length_chain_outputs)
  then have "concat cs = concat (map fst (zip fs (chain_outputs 1 ?ds)))" using assms(7) by simp
  from auth_chain.decode_frames [OF _ _ p'(2) this] ready(1) p'(4) len out
  have "codec_reads (chain_decode lib) p cs = Some (p'\<lparr>ac_recv := []\<rparr>, drop 2 answer)"
    by (simp add: chain_decode_def chain_ready_def)
  moreover have "p'\<lparr>ac_recv := []\<rparr> = p'" using p'(4) by (cases p') simp
  ultimately show ?thesis using p'(3) by auto
qed


text \<open>A library of functions that are as they are documented, to compute with.\<close>

definition plain_library :: "unit chain_library" where
  "plain_library = \<lparr>cl_md5 = (\<lambda>d. replicate 16 0), cl_base64 = (\<lambda>d. []), cl_aes = (\<lambda>k b. b), cl_rc4 = (\<lambda>k. Some ()),
     cl_rc4_apply = (\<lambda>r d. (d, r))\<rparr>"

lemma plain_library_ok: "chain_library_ok plain_library"
  by (simp add: chain_library_ok_def plain_library_def)

theorem auth_chain_reads_answers_witness:
  "\<exists>p fs c p'. snd (chain_encode plain_library 0 [1, 2, 3, 4] (\<lambda>i k n. replicate n 0)
      (new_auth_chain [1, 2, 3, 4] (new_ssr_auth [0, 0, 0, 0] 7 0) [5] [6] ''42:pw'' \<lparr>ap_salt = ''auth_chain_b'', ap_variant = ChainB\<rparr>) [1]) = p
    \<and> chain_pack_chunks plain_library (\<lambda>i k n. replicate n 0) 0 (chain_mirror p) (chunks_of 2800 [0, 0, 104, 105]) = (fs, c)
    \<and> codec_reads (chain_decode plain_library) p fs = Some (p', [104, 105]) \<and> chain_peers c p'"
proof -
  let ?fill = "\<lambda>(i::nat) (k::nat) n. replicate n (0 :: byte)"
  let ?new = "new_auth_chain [1, 2, 3, 4] (new_ssr_auth [0, 0, 0, 0] 7 0) [5] [6] ''42:pw'' \<lparr>ap_salt = ''auth_chain_b'', ap_variant = ChainB\<rparr> :: unit auth_chain"
  have "\<exists>wire p. chain_encode plain_library 0 [1, 2, 3, 4] ?fill c [1] = (Ok wire, p)" for c
    by (simp add: chain_encode_def chain_pack_auth_data_def init_rc4_def plain_library_def Let_def split: prod.splits sum.splits)
  then obtain wire p where p: "chain_encode plain_library 0 [1, 2, 3, 4] ?fill ?new [1] = (Ok wire, p)" by blast
  obtain fs c where fs: "chain_pack_chunks plain_library ?fill 0 (chain_mirror p) (chunks_of 2800 [0, 0, 104, 105]) = (fs, c)" by fastforce
  obtain p' where "codec_reads (chain_decode plain_library) p fs = Some (p', drop 2 [0, 0, 104, 105])" "chain_peers c p'"
    using auth_chain_reads_answers [OF plain_library_ok _ _ _ p fs refl] by auto
  then show ?thesis using p fs by (intro exI [of _ p] exI [of _ fs] exI [of _ c] exI [of _ p']) simp
qed

text \<open>A datagram as a server answers with: seven bytes of authentication, and padding from the server's generator.\<close>

definition chain_server_packet :: "'r chain_library \<Rightarrow> bytes \<Rightarrow> (nat \<Rightarrow> bytes) \<Rightarrow> 'r auth_chain \<Rightarrow> 'r \<Rightarrow> bytes \<Rightarrow> bytes" where
  "chain_server_packet lib auth fill c r payload =
    (let md5_data = hmac_md5 (cl_md5 lib) (ac_key c) auth;
         out = fst (cl_rc4_apply lib r payload) @ fill (fst (udp_rand_len c md5_data False)) @ auth
     in out @ take 1 (hmac_md5 (cl_md5 lib) (su_key (ac_user c)) out))"

text \<open>
  A client of the \<open>auth_chain\<close> protocols gives back the payload of every datagram that a server
  makes with seven bytes of authentication, with the padding the generator says and under the key made
  of them; and a datagram of less than nine bytes or with another tag is an error.
\<close>

theorem chain_udp_reads_answers:
  assumes "chain_library_ok lib" "length auth = 7" "\<forall>n. length (fill n) = n" "payload \<noteq> []"
    and "cl_rc4 lib (ssr_chain_udp_rc4_key lib (su_key (ac_user c)) (hmac_md5 (cl_md5 lib) (ac_key c) auth)) = Some r"
  shows "fst (chain_decode_packet lib c (chain_server_packet lib auth fill c r payload)) = Ok payload
    \<and> (\<forall>x. x \<noteq> last (chain_server_packet lib auth fill c r payload) \<longrightarrow>
        chain_decode_packet lib c (butlast (chain_server_packet lib auth fill c r payload) @ [x]) = (Err InvalidData, c))"
proof -
  define md where "md = hmac_md5 (cl_md5 lib) (ac_key c) auth"
  obtain n c' where n: "udp_rand_len c md False = (n, c')" by (cases "udp_rand_len c md False")
  define e where "e = fst (cl_rc4_apply lib r payload)"
  have e: "length e = length payload" "fst (cl_rc4_apply lib r e) = payload"
    using assms(1) by (simp_all add: e_def chain_library_ok_def)
  define out where "out = e @ fill n @ auth"
  have "length (hmac_md5 (cl_md5 lib) (su_key (ac_user c)) out) = 16"
    using assms(1) by (intro length_hmac_md5) (simp add: chain_library_ok_def)
  then obtain y ys where y: "hmac_md5 (cl_md5 lib) (su_key (ac_user c)) out = y # ys" by (cases "hmac_md5 (cl_md5 lib) (su_key (ac_user c)) out") auto
  have packet: "chain_server_packet lib auth fill c r payload = out @ [y]"
    using n y by (simp add: chain_server_packet_def out_def e_def md_def Let_def)
  have len: "length out = length payload + n + 7" "length payload \<noteq> 0" using assms(2-4) e by (simp_all add: out_def)
  have parts: "drop (length payload + n) out = auth" "take (length payload) out = e"
    using assms(3) e by (simp_all add: out_def)
  have user: "ac_user c' = ac_user c" using n by (auto simp: udp_rand_len_def split: prod.splits)
  have good: "fst (chain_decode_packet lib c (out @ [y])) = Ok payload"
    using assms(5) len n y parts e(2) user by (simp add: chain_decode_packet_def md_def [symmetric] Let_def)
  have "chain_decode_packet lib c (out @ [x]) = (Err InvalidData, c)" if "x \<noteq> y" for x
    using that len y by (simp add: chain_decode_packet_def Let_def)
  then show ?thesis using good by (simp add: packet)
qed

theorem chain_udp_reads_answers_witness:
  "\<forall>c. fst (chain_decode_packet plain_library c
      (chain_server_packet plain_library [1, 2, 3, 4, 5, 6, 7] (\<lambda>n. replicate n 9) c () [104, 105])) = Ok [104, 105]"
proof
  fix c :: "unit auth_chain"
  show "fst (chain_decode_packet plain_library c
      (chain_server_packet plain_library [1, 2, 3, 4, 5, 6, 7] (\<lambda>n. replicate n 9) c () [104, 105])) = Ok [104, 105]"
    using chain_udp_reads_answers [OF plain_library_ok, of "[1, 2, 3, 4, 5, 6, 7]" "\<lambda>n. replicate n 9" "[104, 105]" c "()"]
    by (simp add: plain_library_def)
qed

end
