(* ===== verification/Ssr_Client.thy ===== *)
theory Ssr_Client
  imports Ssr_Chain Ss_Legacy
begin

text \<open>
  The codec of a ShadowsocksR protocol behind one interface (\<open>SsrProtocolCodec\<close> of
  \<open>adapter/shadowsocks/ssr.rs\<close>), the client stream over it (\<open>SsrClientStream\<close>), and the datagrams of the
  legacy ciphers and of the ShadowsocksR protocols (\<open>adapter/shadowsocks/legacy.rs\<close>). The package's
  \<open>Address\<close> is written by \<open>write_address\<close> and read back by \<open>read_address\<close>, both arguments.
\<close>

section \<open>One codec for all protocols\<close>

datatype 'r ssr_codec =
    CodecVerifySimple verify_simple
  | CodecVerifySha1 verify_sha1
  | CodecAuthSimple early_auth
  | CodecAuthSha1 early_auth
  | CodecAuthSha1V2 early_auth
  | CodecAuthSha1V4 sha1_v4
  | CodecAuthAes128 auth_aes
  | CodecAuthChain "'r auth_chain"

text \<open>The library's functions, and what one call draws: the time, numbers and bytes.\<close>

record 'r ssr_library =
  sl_digests :: ssr_digests
  sl_chain :: "'r chain_library"
  sl_crc32 :: "bytes \<Rightarrow> u32"

record ssr_draws =
  sd_time :: u32
  sd_number :: "nat \<Rightarrow> nat"
  sd_bytes :: "nat \<Rightarrow> nat \<Rightarrow> nat \<Rightarrow> bytes"

definition ssr_codec_new :: "'r ssr_library \<Rightarrow> ssr_draws \<Rightarrow> ssr_protocol \<Rightarrow> bytes \<Rightarrow> bytes \<Rightarrow> string \<Rightarrow> (io_error, 'r ssr_codec) res" where
  "ssr_codec_new lib rd protocol key iv param =
    (let random = of_nat (sd_number rd 0);
         fill = sd_bytes rd 0;
         auth = new_ssr_auth (fill 0 4) random (sd_time rd);
         chain = (\<lambda>salt v. CodecAuthChain (new_auth_chain (fill 1 4) auth key iv param \<lparr>ap_salt = salt, ap_variant = v\<rparr>))
     in case protocol of
          Origin \<Rightarrow> Inl Panic
        | ssr_protocol.VerifySimple \<Rightarrow> Ok (CodecVerifySimple new_verify_simple)
        | ssr_protocol.VerifySha1 \<Rightarrow> Ok (CodecVerifySha1 (new_verify_sha1 key iv))
        | AuthSimple \<Rightarrow> Ok (CodecAuthSimple (new_early_auth key iv EarlySimple (fill 0) random))
        | AuthSha1 \<Rightarrow> Ok (CodecAuthSha1 (new_early_auth key iv EarlySha1 (fill 0) random))
        | AuthSha1V2 \<Rightarrow> Ok (CodecAuthSha1V2 (new_early_auth key iv EarlySha1V2 (fill 0) random))
        | AuthSha1V4 \<Rightarrow> Ok (CodecAuthSha1V4 (new_sha1_v4 key iv (fill 0 4) random))
        | AuthAes128Md5 \<Rightarrow> Ok (CodecAuthAes128 (new_auth_aes (sl_digests lib) (fill 1 4) auth key iv param HmacMd5 ''auth_aes128_md5''))
        | AuthAes128Sha1 \<Rightarrow> Ok (CodecAuthAes128 (new_auth_aes (sl_digests lib) (fill 1 4) auth key iv param HmacSha1 ''auth_aes128_sha1''))
        | AuthChainA \<Rightarrow> Ok (chain ''auth_chain_a'' ChainA)
        | AuthChainB \<Rightarrow> Ok (chain ''auth_chain_b'' ChainB)
        | AuthChainC \<Rightarrow> Ok (chain ''auth_chain_c'' ChainC)
        | AuthChainD \<Rightarrow> Ok (chain ''auth_chain_d'' ChainD)
        | AuthChainE \<Rightarrow> Ok (chain ''auth_chain_e'' ChainE)
        | AuthChainF \<Rightarrow> Ok (chain ''auth_chain_f'' ChainF))"

definition ssr_codec_encode :: "'r ssr_library \<Rightarrow> ssr_draws \<Rightarrow> 'r ssr_codec \<Rightarrow> bytes \<Rightarrow> (io_error, bytes) res \<times> 'r ssr_codec" where
  "ssr_codec_encode lib rd codec payload =
    (let dg = sl_digests lib;
         early = (\<lambda>wrap c. case early_encode (dg_hmac_sha1 dg) (sl_crc32 lib) (sd_time rd) (sd_number rd) (sd_bytes rd 0) c payload of
           (out, c) \<Rightarrow> (Ok out, wrap c))
     in case codec of
          CodecVerifySimple c \<Rightarrow> (Ok (verify_simple_encode payload), CodecVerifySimple c)
        | CodecVerifySha1 c \<Rightarrow> (case verify_sha1_encode (dg_hmac_sha1 dg) c payload of (out, c) \<Rightarrow> (Ok out, CodecVerifySha1 c))
        | CodecAuthSimple c \<Rightarrow> early CodecAuthSimple c
        | CodecAuthSha1 c \<Rightarrow> early CodecAuthSha1 c
        | CodecAuthSha1V2 c \<Rightarrow> early CodecAuthSha1V2 c
        | CodecAuthSha1V4 c \<Rightarrow>
            (case sha1_v4_encode (dg_hmac_sha1 dg) (sl_crc32 lib) (sd_time rd) (sd_number rd) (sd_bytes rd 0) c payload of
               (out, c) \<Rightarrow> (Ok out, CodecAuthSha1V4 c))
        | CodecAuthAes128 c \<Rightarrow>
            (case auth_aes_encode dg (cl_base64 (sl_chain lib)) (cl_aes (sl_chain lib)) (sd_number rd) (sd_bytes rd 0) c payload of
               (out, c) \<Rightarrow> (Ok out, CodecAuthAes128 c))
        | CodecAuthChain c \<Rightarrow>
            (case chain_encode (sl_chain lib) (of_nat (sd_number rd 0)) (sd_bytes rd 0 0 4) (\<lambda>i. sd_bytes rd (Suc i)) c payload of
               (out, c) \<Rightarrow> (out, CodecAuthChain c)))"

definition ssr_codec_decode :: "'r ssr_library \<Rightarrow> 'r ssr_codec \<Rightarrow> bytes \<Rightarrow> bytes \<Rightarrow> (io_error, unit) res \<times> 'r ssr_codec \<times> bytes" where
  "ssr_codec_decode lib codec payload out =
    (case codec of
       CodecVerifySimple c \<Rightarrow> (case verify_simple_decode c payload out of (r, c, out) \<Rightarrow> (r, CodecVerifySimple c, out))
     | CodecVerifySha1 c \<Rightarrow>
         (case verify_sha1_decode (dg_hmac_sha1 (sl_digests lib)) c payload out of (r, c, out) \<Rightarrow> (r, CodecVerifySha1 c, out))
     | CodecAuthSimple c \<Rightarrow> (case early_decode c payload out of (r, c, out) \<Rightarrow> (r, CodecAuthSimple c, out))
     | CodecAuthSha1 c \<Rightarrow> (case early_decode c payload out of (r, c, out) \<Rightarrow> (r, CodecAuthSha1 c, out))
     | CodecAuthSha1V2 c \<Rightarrow> (case early_decode c payload out of (r, c, out) \<Rightarrow> (r, CodecAuthSha1V2 c, out))
     | CodecAuthSha1V4 c \<Rightarrow> (case sha1_v4_decode (sl_crc32 lib) c payload out of (r, c, out) \<Rightarrow> (r, CodecAuthSha1V4 c, out))
     | CodecAuthAes128 c \<Rightarrow> (case auth_aes_decode (sl_digests lib) c payload out of (r, c, out) \<Rightarrow> (r, CodecAuthAes128 c, out))
     | CodecAuthChain c \<Rightarrow> (case chain_decode (sl_chain lib) c payload out of (r, c, out) \<Rightarrow> (r, CodecAuthChain c, out)))"

definition ssr_encode_packet :: "'r ssr_library \<Rightarrow> ssr_draws \<Rightarrow> 'r ssr_codec \<Rightarrow> bytes \<Rightarrow> (io_error, bytes) res \<times> 'r ssr_codec" where
  "ssr_encode_packet lib rd codec payload =
    (case codec of
       CodecAuthAes128 c \<Rightarrow> (Ok (auth_aes_encode_packet (sl_digests lib) c payload), codec)
     | CodecAuthChain c \<Rightarrow>
         (case chain_encode_packet (sl_chain lib) (sd_bytes rd 0 0 3) (sd_bytes rd 0 1) c payload of (out, c) \<Rightarrow> (out, CodecAuthChain c))
     | _ \<Rightarrow> (Ok payload, codec))"

definition ssr_decode_packet :: "'r ssr_library \<Rightarrow> 'r ssr_codec \<Rightarrow> bytes \<Rightarrow> (io_error, bytes) res \<times> 'r ssr_codec" where
  "ssr_decode_packet lib codec payload =
    (case codec of
       CodecAuthAes128 c \<Rightarrow> (auth_aes_decode_packet (sl_digests lib) c payload, codec)
     | CodecAuthChain c \<Rightarrow> (case chain_decode_packet (sl_chain lib) c payload of (out, c) \<Rightarrow> (out, CodecAuthChain c))
     | _ \<Rightarrow> (Ok payload, codec))"

section \<open>The client stream\<close>

record 'c ssr_client =
  sr_codec :: 'c
  sr_target :: "ss_address option"
  sr_buffer :: bytes
  sr_pending :: "pending_write option"

definition new_ssr_client :: "'c \<Rightarrow> ss_address \<Rightarrow> 'c ssr_client" where
  "new_ssr_client codec target = \<lparr>sr_codec = codec, sr_target = Some target, sr_buffer = [], sr_pending = None\<rparr>"

text \<open>An error of a codec as the error of a poll; no codec panics once it is made.\<close>

definition poll_fault :: "io_error fault \<Rightarrow> 'a poll" where
  "poll_fault f = Fault (case f of Fail e \<Rightarrow> e | Panic \<Rightarrow> InvalidData)"

text \<open>
  The loop of \<open>poll_read\<close> over a stream that \<open>r\<close> polls and a codec that \<open>dec\<close> decodes with. It goes on
  as long as the stream gives bytes that make no payload; no result is a loop that does not end.
\<close>

partial_function (option) ssr_read_loop :: "(nat \<Rightarrow> 's \<Rightarrow> bytes poll \<times> 's)
    \<Rightarrow> ('c \<Rightarrow> bytes \<Rightarrow> bytes \<Rightarrow> (io_error, unit) res \<times> 'c \<times> bytes) \<Rightarrow> nat \<Rightarrow> 'c ssr_client \<Rightarrow> 's
    \<Rightarrow> (bytes poll \<times> 'c ssr_client \<times> 's) option" where
  "ssr_read_loop r dec room st s =
    (case r 8192 s of
       (Pending, s) \<Rightarrow> Some (Pending, st, s)
     | (Fault e, s) \<Rightarrow> Some (Fault e, st, s)
     | (Ready bs, s) \<Rightarrow>
         (if bs = [] then Some (Ready [], st, s)
          else case dec (sr_codec st) bs (sr_buffer st) of
              (Inl e, c, out) \<Rightarrow> Some (poll_fault e, st\<lparr>sr_codec := c, sr_buffer := out\<rparr>, s)
            | (Inr _, c, out) \<Rightarrow>
                (case drain_buffer out room of
                   Some (bs, rest) \<Rightarrow> Some (Ready bs, st\<lparr>sr_codec := c, sr_buffer := rest\<rparr>, s)
                 | None \<Rightarrow> ssr_read_loop r dec room (st\<lparr>sr_codec := c, sr_buffer := out\<rparr>) s)))"

definition ssr_poll_read :: "(nat \<Rightarrow> 's \<Rightarrow> bytes poll \<times> 's)
    \<Rightarrow> ('c \<Rightarrow> bytes \<Rightarrow> bytes \<Rightarrow> (io_error, unit) res \<times> 'c \<times> bytes) \<Rightarrow> nat \<Rightarrow> 'c ssr_client \<times> 's
    \<Rightarrow> (bytes poll \<times> 'c ssr_client \<times> 's) option" where
  "ssr_poll_read r dec room = (\<lambda>(st, s).
    (case drain_buffer (sr_buffer st) room of
       Some (bs, rest) \<Rightarrow> Some (Ready bs, st\<lparr>sr_buffer := rest\<rparr>, s)
     | None \<Rightarrow> ssr_read_loop r dec room st s))"

text \<open>\<open>enc\<close> encodes; the error of \<open>encode\<close> leaves the target taken.\<close>

definition ssr_poll_write :: "(ss_address \<Rightarrow> bytes) \<Rightarrow> ('c \<Rightarrow> bytes \<Rightarrow> (io_error, bytes) res \<times> 'c)
    \<Rightarrow> (bytes \<Rightarrow> 's \<Rightarrow> nat poll \<times> 's) \<Rightarrow> bytes \<Rightarrow> 'c ssr_client \<times> 's \<Rightarrow> nat poll \<times> 'c ssr_client \<times> 's" where
  "ssr_poll_write write_address enc w buf = (\<lambda>(st, s).
    (case flush_pending w (sr_pending st) s of
       (Some r, pending, s) \<Rightarrow> (r, st\<lparr>sr_pending := pending\<rparr>, s)
     | (None, pending, s) \<Rightarrow>
         (let payload = (case sr_target st of Some target \<Rightarrow> write_address target | None \<Rightarrow> []) @ buf
          in case enc (sr_codec st) payload of
               (Inl e, c) \<Rightarrow> (poll_fault e, st\<lparr>sr_target := None, sr_codec := c, sr_pending := pending\<rparr>, s)
             | (Inr encoded, c) \<Rightarrow>
                 (case flush_pending w (Some (new_pending encoded (length buf))) s of
                    (Some r, pending, s) \<Rightarrow> (r, st\<lparr>sr_target := None, sr_codec := c, sr_pending := pending\<rparr>, s)
                  | (None, pending, s) \<Rightarrow>
                      (Ready (length buf), st\<lparr>sr_target := None, sr_codec := c, sr_pending := pending\<rparr>, s)))))"

section \<open>Writing\<close>

definition ssr_wrap :: "'c ssr_client \<Rightarrow> pending_write option \<Rightarrow> transport \<Rightarrow> 'c ssr_client \<times> transport" where
  "ssr_wrap st pending io = (st\<lparr>sr_pending := pending\<rparr>, io)"

interpretation ssr_writer: pending_writer "ssr_poll_write write_address enc poll_write_io" "ssr_wrap st"
  by unfold_locales
    (auto simp: ssr_poll_write_def ssr_wrap_def settle_def flush_pending_def split: prod.splits poll.splits)

lemma ssr_one_write:
  assumes "sr_pending st = None" "buf \<noteq> []"
    and "enc (sr_codec st) ((case sr_target st of Some t \<Rightarrow> write_address t | None \<Rightarrow> []) @ buf) = (Ok packet, c)" "has_room fuel io packet"
  shows "\<exists>io'. write_all fuel (ssr_poll_write write_address enc poll_write_io) buf (st, io)
      = Some (st\<lparr>sr_codec := c, sr_target := None\<rparr>, io') \<and> sends io packet io'"
proof -
  let ?st = "st\<lparr>sr_codec := c, sr_target := None\<rparr>"
  have "ssr_poll_write write_address enc poll_write_io buf (st, io)
      = settle (ssr_wrap ?st) (poll_write_all poll_write_io (new_pending packet (length buf)) io)"
    using assms(1,3) by (auto simp: ssr_poll_write_def ssr_wrap_def settle_def flush_pending_def Let_def split: prod.splits poll.splits)
  from ssr_writer.write_packet [OF this assms(2,4)] show ?thesis using assms(1) by (cases st) (simp add: ssr_wrap_def)
qed

text \<open>The packets of several payloads, one behind the other.\<close>

fun encode_each :: "('c \<Rightarrow> bytes \<Rightarrow> (io_error, bytes) res \<times> 'c) \<Rightarrow> 'c \<Rightarrow> bytes list \<Rightarrow> (bytes \<times> 'c) option" where
  "encode_each enc c [] = Some ([], c)"
| "encode_each enc c (d # ds) =
    (case enc c d of
       (Inr packet, c) \<Rightarrow> map_option (\<lambda>(packets, c). (packet @ packets, c)) (encode_each enc c ds)
     | (Inl _, c) \<Rightarrow> None)"

lemma ssr_writes:
  assumes "encode_each enc (sr_codec st) bs = Some (wire, c)" "sr_pending st = None" "sr_target st = None" "[] \<notin> set bs"
    and "has_room fuel io wire"
  shows "\<exists>io'. write_each fuel (ssr_poll_write write_address enc poll_write_io) bs (st, io) = Some (st\<lparr>sr_codec := c\<rparr>, io') \<and> sends io wire io'"
  using assms
proof (induction bs arbitrary: st wire io)
  case Nil
  then show ?case using sends_nothing by (cases st) auto
next
  case (Cons b bs)
  obtain packet c1 packets where p: "enc (sr_codec st) b = (Ok packet, c1)" "encode_each enc c1 bs = Some (packets, c)" "wire = packet @ packets"
    using Cons.prems(1) by (auto split: prod.splits sum.splits)
  have room: "has_room fuel io packet" using Cons.prems(5) p(3) has_room_first by blast
  obtain io1 where io1: "write_all fuel (ssr_poll_write write_address enc poll_write_io) b (st, io)
      = Some (st\<lparr>sr_codec := c1, sr_target := None\<rparr>, io1)" "sends io packet io1"
    using ssr_one_write [of st b enc write_address packet c1 fuel io] Cons.prems(2-4) p(1) room by auto
  have same: "st\<lparr>sr_codec := c1, sr_target := None\<rparr> = st\<lparr>sr_codec := c1\<rparr>" using Cons.prems(3) by (cases st) simp
  have "has_room fuel io1 packets" using Cons.prems(5) p(3) io1(2) has_room_next by blast
  then obtain io' where "write_each fuel (ssr_poll_write write_address enc poll_write_io) bs (st\<lparr>sr_codec := c1\<rparr>, io1)
      = Some (st\<lparr>sr_codec := c1, sr_codec := c\<rparr>, io')" "sends io1 packets io'"
    using Cons.IH [of "st\<lparr>sr_codec := c1\<rparr>" packets io1] Cons.prems p(2) by auto
  then show ?case using io1 same p(3) sends_trans by fastforce
qed

section \<open>Reading\<close>

text \<open>A caller that reads with buffers of the given sizes.\<close>

fun ssr_reads :: "(nat \<Rightarrow> 's \<Rightarrow> bytes poll \<times> 's) \<Rightarrow> ('c \<Rightarrow> bytes \<Rightarrow> bytes \<Rightarrow> (io_error, unit) res \<times> 'c \<times> bytes)
    \<Rightarrow> nat list \<Rightarrow> 'c ssr_client \<times> 's \<Rightarrow> (bytes poll list \<times> 'c ssr_client \<times> 's) option" where
  "ssr_reads r dec [] s = Some ([], s)"
| "ssr_reads r dec (room # rooms) s =
    (case ssr_poll_read r dec room s of
       Some (x, s) \<Rightarrow> map_option (\<lambda>(xs, s). (x # xs, s)) (ssr_reads r dec rooms s)
     | None \<Rightarrow> None)"

text \<open>A codec that takes every cut of a wire, and appends what it decodes to any output.\<close>

definition reads_wire :: "('c \<Rightarrow> bytes \<Rightarrow> bytes \<Rightarrow> (io_error, unit) res \<times> 'c \<times> bytes) \<Rightarrow> 'c \<Rightarrow> bytes \<Rightarrow> bytes \<Rightarrow> bool" where
  "reads_wire dec c wire out \<longleftrightarrow> (\<forall>cs. concat cs = wire \<longrightarrow> (\<exists>c'. codec_reads dec c cs = Some (c', out)))"

definition appends :: "('c \<Rightarrow> bytes \<Rightarrow> bytes \<Rightarrow> (io_error, unit) res \<times> 'c \<times> bytes) \<Rightarrow> bool" where
  "appends dec \<longleftrightarrow> (\<forall>c p out. dec c p out = (case dec c p [] of (r, c', d) \<Rightarrow> (r, c', out @ d)))"

lemma codec_reads_append:
  "codec_reads dec c (ps @ qs) = Some (c', out) \<longleftrightarrow>
    (\<exists>c1 o1 o2. codec_reads dec c ps = Some (c1, o1) \<and> codec_reads dec c1 qs = Some (c', o2) \<and> out = o1 @ o2)"
proof (induction ps arbitrary: c out)
  case (Cons p ps)
  show ?case by (simp add: Cons split: prod.splits sum.splits) fastforce
qed simp

text \<open>Between the polls: what the pieces read so far have made is what the caller has got and what the buffer holds.\<close>

definition ssr_read_inv :: "('c \<Rightarrow> bytes \<Rightarrow> bytes \<Rightarrow> (io_error, unit) res \<times> 'c \<times> bytes) \<Rightarrow> 'c \<Rightarrow> bytes \<Rightarrow> bytes
    \<Rightarrow> 'c ssr_client \<times> transport \<Rightarrow> bool" where
  "ssr_read_inv dec c wire gone = (\<lambda>(st, io). \<exists>ps d. codec_reads dec c ps = Some (sr_codec st, d) \<and> d = gone @ sr_buffer st
    \<and> concat ps @ in_data (tr_in io) = wire)"

lemma ssr_read_loop_inv:
  assumes "reads_wire dec c wire out" "appends dec"
  shows "ssr_read_inv dec c wire gone (st, io) \<Longrightarrow> \<exists>x st' io'. ssr_read_loop poll_read_io dec room st io = Some (x, st', io')
    \<and> ssr_read_inv dec c wire (gone @ poll_data x) (st', io')"
proof (induction "in_size (tr_in io)" arbitrary: st io rule: less_induct)
  case less
  obtain ps where ps: "codec_reads dec c ps = Some (sr_codec st, gone @ sr_buffer st)" "concat ps @ in_data (tr_in io) = wire"
    using less(2) by (auto simp: ssr_read_inv_def)
  obtain x io1 where x: "poll_read_io 8192 io = (x, io1)" by (cases "poll_read_io 8192 io")
  have data: "poll_data x @ in_data (tr_in io1) = in_data (tr_in io)" by (rule poll_read_io_keeps [OF x])
  show ?case
  proof (cases "poll_data x = []")
    case True
    then have "ssr_read_loop poll_read_io dec room st io = Some (x, st, io1)"
      using x by (subst ssr_read_loop.simps) (cases x, simp_all)
    then show ?thesis using True ps data by (auto simp: ssr_read_inv_def)
  next
    case False
    then obtain bs where bs: "x = Ready bs" "bs \<noteq> []" by (cases x) simp_all
    have "concat (ps @ [bs] @ [in_data (tr_in io1)]) = wire" using ps(2) data bs by simp
    then obtain c' where "codec_reads dec c (ps @ [bs] @ [in_data (tr_in io1)]) = Some (c', out)"
      using assms(1) unfolding reads_wire_def by blast
    then obtain o0 where "codec_reads dec (sr_codec st) ([bs] @ [in_data (tr_in io1)]) = Some (c', o0)"
      unfolding codec_reads_append [of dec c ps] using ps(1) by auto
    then obtain c1 o1 where "codec_reads dec (sr_codec st) [bs] = Some (c1, o1)"
      unfolding codec_reads_append [of dec "sr_codec st" "[bs]"] by blast
    then have first: "codec_reads dec (sr_codec st) [bs] = Some (c1, o1)" "dec (sr_codec st) bs [] = (Ok (), c1, o1)"
      by (auto split: prod.splits sum.splits)
    have dec: "dec (sr_codec st) bs (sr_buffer st) = (Ok (), c1, sr_buffer st @ o1)"
      using assms(2) first(2) unfolding appends_def by (metis (no_types, lifting) old.prod.case)
    let ?st = "st\<lparr>sr_codec := c1, sr_buffer := sr_buffer st @ o1\<rparr>"
    have "codec_reads dec c (ps @ [bs]) = Some (c1, gone @ sr_buffer st @ o1)"
      using ps(1) first(1) by (auto simp: codec_reads_append)
    then have inv: "ssr_read_inv dec c wire gone (?st, io1)"
      using ps(2) data bs by (auto simp: ssr_read_inv_def intro!: exI [of _ "ps @ [bs]"])
    show ?thesis
    proof (cases "drain_buffer (sr_buffer st @ o1) room")
      case None
      have "in_size (tr_in io1) < in_size (tr_in io)" using poll_read_io_sizeI x bs by metis
      moreover have "ssr_read_loop poll_read_io dec room st io = ssr_read_loop poll_read_io dec room ?st io1"
        using x bs dec None by (subst ssr_read_loop.simps) simp
      ultimately show ?thesis using less(1) [OF _ inv] by simp
    next
      case (Some y)
      obtain d rest where y: "y = (d, rest)" by (cases y)
      have "ssr_read_loop poll_read_io dec room st io = Some (Ready d, st\<lparr>sr_codec := c1, sr_buffer := rest\<rparr>, io1)"
        using x bs dec Some y by (subst ssr_read_loop.simps) simp
      moreover have "d @ rest = sr_buffer st @ o1" using drain_buffer_Some Some y by blast
      ultimately show ?thesis using inv by (auto simp: ssr_read_inv_def)
    qed
  qed
qed

lemma ssr_poll_read_inv:
  assumes "reads_wire dec c wire out" "appends dec" "ssr_read_inv dec c wire gone s"
  shows "\<exists>x s'. ssr_poll_read poll_read_io dec room s = Some (x, s') \<and> ssr_read_inv dec c wire (gone @ poll_data x) s'"
proof -
  obtain st io where s: "s = (st, io)" by (cases s)
  show ?thesis
  proof (cases "drain_buffer (sr_buffer st) room")
    case None
    then show ?thesis using ssr_read_loop_inv [OF assms(1,2), of gone st io room] assms(3) s by (auto simp: ssr_poll_read_def)
  next
    case (Some y)
    then show ?thesis using assms(3) s drain_buffer_Some [of "sr_buffer st" room "fst y" "snd y"]
      by (cases y) (auto simp: ssr_poll_read_def ssr_read_inv_def)
  qed
qed

lemma ssr_reads_inv:
  assumes "reads_wire dec c wire out" "appends dec"
  shows "ssr_read_inv dec c wire gone s \<Longrightarrow> \<exists>xs s'. ssr_reads poll_read_io dec rooms s = Some (xs, s') \<and> ssr_read_inv dec c wire (gone @ got xs) s'"
proof (induction rooms arbitrary: gone s)
  case (Cons room rooms)
  obtain x s1 where x: "ssr_poll_read poll_read_io dec room s = Some (x, s1)" "ssr_read_inv dec c wire (gone @ poll_data x) s1"
    using ssr_poll_read_inv [OF assms Cons.prems] by blast
  show ?case using Cons.IH [OF x(2)] x(1) by auto
qed simp

section \<open>From the writer to the reader\<close>

lemma ssr_decode_appends: "appends (ssr_codec_decode lib)"
  unfolding appends_def
proof (intro allI)
  fix codec p out
  show "ssr_codec_decode lib codec p out = (case ssr_codec_decode lib codec p [] of (r, c', d) \<Rightarrow> (r, c', out @ d))"
  proof (cases codec)
    case (CodecVerifySimple c)
    then show ?thesis using verify_simple.decode_output [of c p out]
      by (simp add: ssr_codec_decode_def verify_simple_decode_def verify_simple_step_def split: prod.splits)
  next
    case (CodecVerifySha1 c)
    then show ?thesis using verify_sha1.decode_output [of "dg_hmac_sha1 (sl_digests lib)" c p out]
      by (simp add: ssr_codec_decode_def verify_sha1_decode_def verify_sha1_step_def split: prod.splits)
  next
    case (CodecAuthSha1V4 c)
    then show ?thesis using sha1_v4.decode_output [of "sl_crc32 lib" c p out]
      by (simp add: ssr_codec_decode_def sha1_v4_decode_def sha1_v4_step_def split: prod.splits)
  next
    case (CodecAuthAes128 c)
    then show ?thesis using auth_aes.decode_output [of "sl_digests lib" c p out]
      by (simp add: ssr_codec_decode_def auth_aes_decode_def auth_aes_step_def split: prod.splits)
  next
    case (CodecAuthChain c)
    then show ?thesis using auth_chain.decode_output [of "sl_chain lib" c p out]
      by (simp add: ssr_codec_decode_def chain_decode_def split: prod.splits)
  next
    case (CodecAuthSimple c)
    then show ?thesis using early.decode_output [of c p out]
      by (simp add: ssr_codec_decode_def early_decode_def early_step_def split: prod.splits)
  next
    case (CodecAuthSha1 c)
    then show ?thesis using early.decode_output [of c p out]
      by (simp add: ssr_codec_decode_def early_decode_def early_step_def split: prod.splits)
  next
    case (CodecAuthSha1V2 c)
    then show ?thesis using early.decode_output [of c p out]
      by (simp add: ssr_codec_decode_def early_decode_def early_step_def split: prod.splits)
  qed
qed


lemma accepts_replicate: "accepts (replicate k (WriteAccept (Suc 0))) = k"
  by (induction k) simp_all

lemma codec_reads_verify_simple:
  "codec_reads (ssr_codec_decode lib) (CodecVerifySimple c) cs
    = map_option (\<lambda>(c, out). (CodecVerifySimple c, out)) (codec_reads verify_simple_decode c cs)"
  by (induction cs arbitrary: c)
    (auto simp: ssr_codec_decode_def option.map_comp comp_def split_beta split: prod.splits sum.splits intro!: option.map_cong)



section \<open>Datagrams\<close>

datatype ss_udp_error = PacketTooShort | CipherRejected | NotStreamCipher | DecryptFailed | CodecFailed io_error | BadAddress

definition codec_failed :: "(io_error, 'a) res \<Rightarrow> (ss_udp_error, 'a) res" where
  "codec_failed r = (case r of Inr x \<Rightarrow> Inr x | Inl Panic \<Rightarrow> Inl Panic | Inl (Fail e) \<Rightarrow> Err (CodecFailed e))"

text \<open>\<open>iv\<close> are the random bytes in front.\<close>

definition encrypt_legacy_udp_body :: "'c cipher_library \<Rightarrow> neon_legacy_cipher \<Rightarrow> bytes \<Rightarrow> bytes \<Rightarrow> bytes \<Rightarrow> (ss_udp_error, bytes) res" where
  "encrypt_legacy_udp_body lib m key iv body =
    rbind (from_option CipherRejected (neon_cipher_new lib m key iv)) (\<lambda>c. Ok (iv @ fst (cipher_apply lib c body)))"

definition decrypt_legacy_udp_body :: "'c cipher_library \<Rightarrow> neon_legacy_cipher \<Rightarrow> bytes \<Rightarrow> bytes \<Rightarrow> (ss_udp_error, bytes) res" where
  "decrypt_legacy_udp_body lib m key packet =
    (let n = legacy_iv_len m
     in if length packet < n then Err PacketTooShort
        else rbind (from_option CipherRejected (new_with_direction lib m key (take n packet) False)) (\<lambda>c.
          Ok (fst (cipher_apply lib c (drop n packet)))))"

definition encrypt_legacy_udp_packet :: "(ss_address \<Rightarrow> bytes) \<Rightarrow> 'c cipher_library \<Rightarrow> neon_legacy_cipher \<Rightarrow> bytes \<Rightarrow> bytes
    \<Rightarrow> ss_address \<Rightarrow> bytes \<Rightarrow> (ss_udp_error, bytes) res" where
  "encrypt_legacy_udp_packet write_address lib m key iv addr payload =
    encrypt_legacy_udp_body lib m key iv (write_address addr @ payload)"

definition decrypt_legacy_udp_packet :: "(bytes \<Rightarrow> (ss_address \<times> bytes) option) \<Rightarrow> 'c cipher_library \<Rightarrow> neon_legacy_cipher \<Rightarrow> bytes
    \<Rightarrow> bytes \<Rightarrow> (ss_udp_error, ss_address \<times> bytes) res" where
  "decrypt_legacy_udp_packet read_address lib m key packet =
    (let n = legacy_iv_len m
     in if length packet < n then Err PacketTooShort
        else rbind (from_option CipherRejected (new_with_direction lib m key (take n packet) False)) (\<lambda>c.
          from_option BadAddress (read_address (fst (cipher_apply lib c (drop n packet))))))"

text \<open>A cipher of the package: whether it is a stream cipher, its IV, and what it does with a packet.\<close>

record builtin_cipher =
  bc_stream :: bool
  bc_iv_len :: nat
  bc_encrypt :: "bytes \<Rightarrow> bytes \<Rightarrow> bytes \<Rightarrow> bytes"
  bc_decrypt :: "bytes \<Rightarrow> bytes \<Rightarrow> bytes \<Rightarrow> bytes option"

definition encrypt_builtin_stream_udp_body :: "builtin_cipher \<Rightarrow> bytes \<Rightarrow> bytes \<Rightarrow> bytes \<Rightarrow> (ss_udp_error, bytes) res" where
  "encrypt_builtin_stream_udp_body m key iv body =
    (if \<not> bc_stream m then Err NotStreamCipher else Ok (iv @ bc_encrypt m key iv body))"

definition decrypt_builtin_stream_udp_body :: "builtin_cipher \<Rightarrow> bytes \<Rightarrow> bytes \<Rightarrow> (ss_udp_error, bytes) res" where
  "decrypt_builtin_stream_udp_body m key packet =
    (if \<not> bc_stream m then Err NotStreamCipher
     else if length packet < bc_iv_len m then Err PacketTooShort
     else from_option DecryptFailed (bc_decrypt m key (take (bc_iv_len m) packet) (drop (bc_iv_len m) packet)))"

definition build_ssr_udp_body :: "(ss_address \<Rightarrow> bytes) \<Rightarrow> ss_address \<Rightarrow> bytes \<Rightarrow> bytes" where
  "build_ssr_udp_body write_address addr payload = write_address addr @ payload"

definition parse_ssr_udp_body :: "(bytes \<Rightarrow> (ss_address \<times> bytes) option) \<Rightarrow> bytes \<Rightarrow> (ss_udp_error, ss_address \<times> bytes) res" where
  "parse_ssr_udp_body read_address body = from_option BadAddress (read_address body)"

text \<open>Every datagram has a codec of its own, with no IV.\<close>

definition ssr_udp_codec :: "'r ssr_library \<Rightarrow> ssr_draws \<Rightarrow> ssr_protocol \<Rightarrow> bytes \<Rightarrow> string \<Rightarrow> (io_error, 'r ssr_codec) res" where
  "ssr_udp_codec lib rd protocol key param = ssr_codec_new lib rd protocol key [] param"

definition ssr_wrap_packet :: "(ss_address \<Rightarrow> bytes) \<Rightarrow> 'r ssr_library \<Rightarrow> ssr_draws \<Rightarrow> ssr_protocol \<Rightarrow> bytes \<Rightarrow> string \<Rightarrow> ss_address \<Rightarrow> bytes
    \<Rightarrow> (ss_udp_error, bytes) res" where
  "ssr_wrap_packet write_address lib rd protocol key param addr payload =
    rbind (codec_failed (ssr_udp_codec lib rd protocol key param)) (\<lambda>c.
      codec_failed (fst (ssr_encode_packet lib rd c (build_ssr_udp_body write_address addr payload))))"

definition ssr_unwrap_packet :: "(bytes \<Rightarrow> (ss_address \<times> bytes) option) \<Rightarrow> 'r ssr_library \<Rightarrow> ssr_draws \<Rightarrow> ssr_protocol \<Rightarrow> bytes \<Rightarrow> string \<Rightarrow> bytes
    \<Rightarrow> (ss_udp_error, ss_address \<times> bytes) res" where
  "ssr_unwrap_packet read_address lib rd protocol key param body =
    rbind (codec_failed (ssr_udp_codec lib rd protocol key param)) (\<lambda>c.
    rbind (codec_failed (fst (ssr_decode_packet lib c body))) (\<lambda>unwrapped. parse_ssr_udp_body read_address unwrapped))"

definition encrypt_ssr_udp_builtin_packet :: "(ss_address \<Rightarrow> bytes) \<Rightarrow> 'r ssr_library \<Rightarrow> ssr_draws \<Rightarrow> builtin_cipher \<Rightarrow> bytes \<Rightarrow> bytes
    \<Rightarrow> ssr_protocol \<Rightarrow> string \<Rightarrow> ss_address \<Rightarrow> bytes \<Rightarrow> (ss_udp_error, bytes) res" where
  "encrypt_ssr_udp_builtin_packet write_address lib rd m key iv protocol param addr payload =
    rbind (ssr_wrap_packet write_address lib rd protocol key param addr payload) (encrypt_builtin_stream_udp_body m key iv)"

definition decrypt_ssr_udp_builtin_packet :: "(bytes \<Rightarrow> (ss_address \<times> bytes) option) \<Rightarrow> 'r ssr_library \<Rightarrow> ssr_draws \<Rightarrow> builtin_cipher \<Rightarrow> bytes
    \<Rightarrow> ssr_protocol \<Rightarrow> string \<Rightarrow> bytes \<Rightarrow> (ss_udp_error, ss_address \<times> bytes) res" where
  "decrypt_ssr_udp_builtin_packet read_address lib rd m key protocol param packet =
    rbind (decrypt_builtin_stream_udp_body m key packet) (ssr_unwrap_packet read_address lib rd protocol key param)"

definition encrypt_ssr_udp_legacy_packet :: "(ss_address \<Rightarrow> bytes) \<Rightarrow> 'r ssr_library \<Rightarrow> ssr_draws \<Rightarrow> 'c cipher_library \<Rightarrow> neon_legacy_cipher
    \<Rightarrow> bytes \<Rightarrow> bytes \<Rightarrow> ssr_protocol \<Rightarrow> string \<Rightarrow> ss_address \<Rightarrow> bytes \<Rightarrow> (ss_udp_error, bytes) res" where
  "encrypt_ssr_udp_legacy_packet write_address lib rd cl m key iv protocol param addr payload =
    rbind (ssr_wrap_packet write_address lib rd protocol key param addr payload) (encrypt_legacy_udp_body cl m key iv)"

definition decrypt_ssr_udp_legacy_packet :: "(bytes \<Rightarrow> (ss_address \<times> bytes) option) \<Rightarrow> 'r ssr_library \<Rightarrow> ssr_draws \<Rightarrow> 'c cipher_library
    \<Rightarrow> neon_legacy_cipher \<Rightarrow> bytes \<Rightarrow> ssr_protocol \<Rightarrow> string \<Rightarrow> bytes \<Rightarrow> (ss_udp_error, ss_address \<times> bytes) res" where
  "decrypt_ssr_udp_legacy_packet read_address lib rd cl m key protocol param packet =
    rbind (decrypt_legacy_udp_body cl m key packet) (ssr_unwrap_packet read_address lib rd protocol key param)"

text \<open>The protocols that leave a datagram as it is.\<close>

definition plain_datagrams :: "ssr_protocol \<Rightarrow> bool" where
  "plain_datagrams p \<longleftrightarrow> p \<in> {ssr_protocol.VerifySimple, ssr_protocol.VerifySha1, AuthSimple, AuthSha1, AuthSha1V2, AuthSha1V4}"

lemma legacy_body_roundtrip:
  assumes "library_ok cl" "length iv = legacy_iv_len m" "encrypt_legacy_udp_body cl m key iv body = Ok packet"
    and "new_with_direction cl m key iv False \<noteq> None"
  shows "decrypt_legacy_udp_body cl m key packet = Ok body"
proof -
  obtain e where e: "new_with_direction cl m key iv True = Some e" "packet = iv @ fst (cipher_apply cl e body)"
    using assms(3) by (auto simp: encrypt_legacy_udp_body_def neon_cipher_new_def rbind_Inr_iff from_option_def split: option.splits)
  obtain d where d: "new_with_direction cl m key iv False = Some d" using assms(4) by blast
  show ?thesis
    using cipher_inverse [OF assms(1) e(1) d] d e(2) assms(2) by (simp add: decrypt_legacy_udp_body_def from_option_def Let_def)
qed

text \<open>
  Datagrams of the legacy ciphers come back: what one side encrypts under an IV of the cipher's
  length the other decrypts to the same address and payload, for plain Shadowsocks and through each of
  the ShadowsocksR protocols that leave datagrams as they are; and a packet shorter than the IV is an
  error.
\<close>

theorem legacy_udp_roundtrip:
  assumes "library_ok cl" "length iv = legacy_iv_len m" "\<forall>d. read_address (write_address t @ d) = Some (t, d)"
    and "new_with_direction cl m key iv True \<noteq> None" "new_with_direction cl m key iv False \<noteq> None" "plain_datagrams protocol"
  shows "(\<exists>packet. encrypt_legacy_udp_packet write_address cl m key iv t payload = Ok packet
      \<and> decrypt_legacy_udp_packet read_address cl m key packet = Ok (t, payload))
    \<and> (\<exists>packet. encrypt_ssr_udp_legacy_packet write_address lib rd cl m key iv protocol param t payload = Ok packet
      \<and> decrypt_ssr_udp_legacy_packet read_address lib rd' cl m key protocol param packet = Ok (t, payload))
    \<and> (\<forall>packet. length packet < legacy_iv_len m \<longrightarrow> decrypt_legacy_udp_packet read_address cl m key packet = Err PacketTooShort)"
proof -
  obtain e where e: "new_with_direction cl m key iv True = Some e" using assms(4) by blast
  let ?body = "write_address t @ payload" and ?packet = "iv @ fst (cipher_apply cl e (write_address t @ payload))"
  have enc: "encrypt_legacy_udp_body cl m key iv ?body = Ok ?packet"
    using e by (simp add: encrypt_legacy_udp_body_def neon_cipher_new_def from_option_def)
  have dec: "decrypt_legacy_udp_body cl m key ?packet = Ok ?body" by (rule legacy_body_roundtrip [OF assms(1,2) enc assms(5)])
  have same: "decrypt_legacy_udp_packet read_address cl m key ?packet
      = rbind (decrypt_legacy_udp_body cl m key ?packet) (\<lambda>b. from_option BadAddress (read_address b))"
    by (simp add: decrypt_legacy_udp_packet_def decrypt_legacy_udp_body_def from_option_def Let_def split: option.splits)
  have "encrypt_legacy_udp_packet write_address cl m key iv t payload = Ok ?packet"
    by (simp add: encrypt_legacy_udp_packet_def enc)
  moreover have "decrypt_legacy_udp_packet read_address cl m key ?packet = Ok (t, payload)"
    using dec assms(3) by (simp add: same from_option_def)
  moreover have "ssr_wrap_packet write_address lib rd protocol key param t payload = Ok ?body"
    using assms(6) by (auto simp: plain_datagrams_def ssr_wrap_packet_def ssr_udp_codec_def ssr_codec_new_def codec_failed_def
      ssr_encode_packet_def build_ssr_udp_body_def Let_def)
  moreover have "ssr_unwrap_packet read_address lib rd' protocol key param ?body = Ok (t, payload)"
    using assms(3,6) by (auto simp: plain_datagrams_def ssr_unwrap_packet_def ssr_udp_codec_def ssr_codec_new_def codec_failed_def
      ssr_decode_packet_def parse_ssr_udp_body_def from_option_def Let_def)
  ultimately show ?thesis
    using enc dec by (auto simp: encrypt_ssr_udp_legacy_packet_def decrypt_ssr_udp_legacy_packet_def decrypt_legacy_udp_packet_def Let_def)
qed

theorem legacy_udp_roundtrip_witness:
  "\<exists>packet. encrypt_legacy_udp_packet (\<lambda>t. [1]) toy_library Salsa20 [7] (replicate 8 5) (DomainNameAddress ''a'' 1) [4, 2] = Ok packet
    \<and> decrypt_legacy_udp_packet (\<lambda>b. Some (DomainNameAddress ''a'' 1, tl b)) toy_library Salsa20 [7] packet
      = Ok (DomainNameAddress ''a'' 1, [4, 2])"
proof -
  have iv: "length (replicate 8 5) = legacy_iv_len Salsa20" by (simp add: legacy_iv_len_def)
  have cipher: "new_with_direction toy_library Salsa20 [7] (replicate 8 5) enc \<noteq> None" for enc
    by (simp add: new_with_direction_def toy_library_def)
  have plain: "plain_datagrams ssr_protocol.VerifySimple" by (simp add: plain_datagrams_def)
  have address: "\<forall>d. (\<lambda>b. Some (DomainNameAddress ''a'' 1, tl b)) ((\<lambda>t. [1]) (DomainNameAddress ''a'' 1) @ d) = Some (DomainNameAddress ''a'' 1, d)"
    by simp
  show ?thesis
    using conjunct1 [OF legacy_udp_roundtrip [where payload = "[4, 2]", OF toy_library_ok iv address cipher cipher plain]] by simp
qed

end
