(* ===== verification/Packet_Lane.thy ===== *)
theory Packet_Lane
  imports Packet_Session
begin

text \<open>
  Lanes: connections with a reader task and a demultiplexer of the requests that wait, as the adapters of
  Shadowsocks (UDP over TCP and direct datagrams) and VLESS (the mux worker) keep them. A lane is a state with the
  commands that its callers, its reader and the clock give it. The locale says what a lane has to be for every
  request to be answered once; each adapter interprets it.
\<close>

text \<open>How a request ended: with what its channel got, with the channel's sender dropped, or with the clock.\<close>

datatype lane_wait = WaitResult reply | SenderDropped | WaitTimedOut

section \<open>A lane answers every request once\<close>

text \<open>
  What the commands of a lane do to its demultiplexer is a run of the demultiplexer's own commands, in which
  a request gets the next number of the lane. That is all that the accounting needs.
\<close>

fun lane_run :: "('c \<Rightarrow> 'm \<Rightarrow> 'c \<times> event list) \<Rightarrow> 'c \<Rightarrow> 'm list \<Rightarrow> 'c \<times> event list" where
  "lane_run step c [] = (c, [])"
| "lane_run step c (m # ms) =
    (case step c m of (c', ev) \<Rightarrow> (case lane_run step c' ms of (c'', evs) \<Rightarrow> (c'', ev @ evs)))"

fun lane_demux_cmds :: "('c \<Rightarrow> 'm \<Rightarrow> 'c \<times> event list) \<Rightarrow> ('c \<Rightarrow> 'm \<Rightarrow> demux_cmd list) \<Rightarrow> 'c \<Rightarrow> 'm list \<Rightarrow> demux_cmd list" where
  "lane_demux_cmds step cmds c [] = []"
| "lane_demux_cmds step cmds c (m # ms) = cmds c m @ lane_demux_cmds step cmds (fst (step c m)) ms"

lemma run_demux_append:
  "run_demux step s (xs @ ys) = (case run_demux step s xs of (s', e) \<Rightarrow> (case run_demux step s' ys of (s'', e') \<Rightarrow> (s'', e @ e')))"
  by (induction xs arbitrary: s) (auto split: prod.splits)

locale udp_lane =
  fixes lane_step :: "'c \<Rightarrow> 'm \<Rightarrow> 'c \<times> event list"
    and pend :: "'c \<Rightarrow> demux_state"
    and next_id :: "'c \<Rightarrow> u64"
    and demux_cmds :: "'c \<Rightarrow> 'm \<Rightarrow> demux_cmd list"
  assumes lane_runs: "lane_step c m = (c', ev) \<Longrightarrow> run_demux demux_step (pend c) (demux_cmds c m) = (pend c', ev)"
    and lane_ids: "Register k i ch \<in> set (demux_cmds c m) \<Longrightarrow> i = next_id c"
    and lane_next: "lane_step c m = (c', ev) \<Longrightarrow>
      (next_id c' = next_id c \<and> concat (map registered (demux_cmds c m)) = [])
      \<or> (next_id c' = next_id c + 1 \<and> length (concat (map registered (demux_cmds c m))) = 1)"
begin

lemma lane_run_demux: "lane_run lane_step c ms = (c', evs) \<Longrightarrow> run_demux demux_step (pend c) (lane_demux_cmds lane_step demux_cmds c ms) = (pend c', evs)"
proof (induction ms arbitrary: c evs)
  case (Cons m ms)
  obtain c1 ev where 1: "lane_step c m = (c1, ev)" by fastforce
  obtain c2 evs2 where 2: "lane_run lane_step c1 ms = (c2, evs2)" by fastforce
  have "c' = c2" "evs = ev @ evs2" using Cons.prems 1 2 by simp_all
  then show ?case using lane_runs [OF 1] Cons.IH [of c1 evs2] 1 2 by (simp add: run_demux_append)
qed simp

end

definition ids_below :: "nat \<Rightarrow> waiting \<Rightarrow> bool" where
  "ids_below n ws \<longleftrightarrow> (\<forall>x \<in> set ws. unat (request_id (snd x)) < n)"

lemma ids_below_mono: "ids_below n ws \<Longrightarrow> n \<le> n' \<Longrightarrow> ids_below n' ws"
  by (auto simp: ids_below_def)

lemma take_first_set: "take_first P xs = Some (x, ys) \<Longrightarrow> set ys \<subseteq> set xs"
  by (induction P xs arbitrary: x ys rule: take_first.induct) (auto split: if_splits option.splits)

lemma spec_step_ids:
  assumes "ids_below n ws" "\<And>k i ch. c = Register k i ch \<Longrightarrow> unat i < n"
  shows "ids_below n (fst (spec_step ws c))"
proof (cases c)
  case (Deliver k r)
  then show ?thesis using assms(1) take_first_set [of "\<lambda>(k', w). k' = k" ws]
    by (fastforce simp: ids_below_def split: option.splits)
next
  case (DeliverNext r)
  then show ?thesis using assms(1) by (auto simp: ids_below_def split: list.splits)
qed (use assms in \<open>auto simp: ids_below_def\<close>)

text \<open>Commands that register at most one request, under a number that no waiting request has.\<close>

lemma fresh_cmds:
  assumes "ids_below n ws" "\<And>k i ch. Register k i ch \<in> set cs \<Longrightarrow> unat i = n" "length (concat (map registered cs)) \<le> 1"
  shows "all_fresh ws (cs @ ds) \<longleftrightarrow> all_fresh (fold (\<lambda>c ws. fst (spec_step ws c)) cs ws) ds"
    and "ids_below (if concat (map registered cs) = [] then n else Suc n) (fold (\<lambda>c ws. fst (spec_step ws c)) cs ws)"
  using assms
proof (induction cs arbitrary: n ws)
  case (Cons c cs)
  {
    case 1
    let ?ws = "fst (spec_step ws c)"
    show ?case
    proof (cases "\<exists>k i ch. c = Register k i ch")
      case True
      then obtain k i ch where c: "c = Register k i ch" by blast
      then have none: "concat (map registered cs) = []" using 1(3) by simp
      have no: "Register k' i' ch' \<notin> set cs" for k' i' ch'
      proof
        assume "Register k' i' ch' \<in> set cs"
        then have "ch' \<in> set (concat (map registered cs))" by force
        then show False using none by simp
      qed
      have i: "unat i = n" using 1(2) [of k i ch] c by simp
      have fresh: "cmd_fresh ws c" using 1(1) i by (auto simp: c ids_below_def ticket_def)
      have more: "ids_below (Suc n) ws" by (rule ids_below_mono [OF 1(1)]) simp
      have below: "ids_below (Suc n) ?ws" using i by (intro spec_step_ids more) (simp add: c)
      show ?thesis using Cons.IH(1) [OF below] no none fresh by simp
    next
      case False
      then have reg: "registered c = []" by (cases c) auto
      have below: "ids_below n ?ws" using 1(1) False by (intro spec_step_ids) auto
      have fresh: "cmd_fresh ws c" using False by (cases c) auto
      have "all_fresh ?ws (cs @ ds) \<longleftrightarrow> all_fresh (fold (\<lambda>c ws. fst (spec_step ws c)) cs ?ws) ds"
        by (rule Cons.IH(1) [OF below], erule 1(2) [OF list.set_intros(2)], use 1(3) reg in simp)
      then show ?thesis using fresh by simp
    qed
  next
    case 2
    let ?ws = "fst (spec_step ws c)"
    show ?case
    proof (cases "\<exists>k i ch. c = Register k i ch")
      case True
      then obtain k i ch where c: "c = Register k i ch" by blast
      then have none: "concat (map registered cs) = []" using 2(3) by simp
      have no: "Register k' i' ch' \<notin> set cs" for k' i' ch'
      proof
        assume "Register k' i' ch' \<in> set cs"
        then have "ch' \<in> set (concat (map registered cs))" by force
        then show False using none by simp
      qed
      have i: "unat i = n" using 2(2) [of k i ch] c by simp
      have more: "ids_below (Suc n) ws" by (rule ids_below_mono [OF 2(1)]) simp
      have below: "ids_below (Suc n) ?ws" using i by (intro spec_step_ids more) (simp add: c)
      show ?thesis using Cons.IH(2) [OF below] no none c by simp
    next
      case False
      then have reg: "registered c = []" by (cases c) auto
      have below: "ids_below n ?ws" using 2(1) False by (intro spec_step_ids) auto
      have "ids_below (if concat (map registered cs) = [] then n else Suc n) (fold (\<lambda>c ws. fst (spec_step ws c)) cs ?ws)"
        by (rule Cons.IH(2) [OF below], erule 2(2) [OF list.set_intros(2)], use 2(3) reg in simp)
      then show ?thesis using reg by simp
    qed
  }
qed simp_all

context udp_lane
begin

lemma lane_fresh:
  assumes "ids_below (unat (next_id c)) ws" "unat (next_id c) + length ms < 2 ^ 64"
  shows "all_fresh ws (lane_demux_cmds lane_step demux_cmds c ms)"
  using assms
proof (induction ms arbitrary: c ws)
  case (Cons m ms)
  obtain c1 ev where 1: "lane_step c m = (c1, ev)" by fastforce
  let ?ws = "fold (\<lambda>c ws. fst (spec_step ws c)) (demux_cmds c m) ws"
  have ids: "unat i = unat (next_id c)" if "Register k i ch \<in> set (demux_cmds c m)" for k i ch
    using lane_ids [OF that] by simp
  have "concat (map registered (demux_cmds c m)) = [] \<or> length (concat (map registered (demux_cmds c m))) = 1"
    using lane_next [OF 1] by blast
  then have few: "length (concat (map registered (demux_cmds c m))) \<le> 1"
    by (elim disjE) (simp_all only: list.size le0 order_refl)
  have suc: "unat (next_id c + 1) = Suc (unat (next_id c))"
    using Cons.prems(2) by (simp add: unat_add_lem [THEN iffD1])
  have below: "ids_below (if concat (map registered (demux_cmds c m)) = [] then unat (next_id c) else Suc (unat (next_id c))) ?ws"
    by (rule fresh_cmds(2) [OF Cons.prems(1) _ few]) (rule ids)
  have "ids_below (unat (next_id c1)) ?ws \<and> unat (next_id c1) + length ms < 2 ^ 64"
  proof (cases "concat (map registered (demux_cmds c m)) = []")
    case True
    then have "next_id c1 = next_id c" using lane_next [OF 1] unfolding True by simp
    then show ?thesis using below Cons.prems(2) True by simp
  next
    case False
    then have "next_id c1 = next_id c + 1" using lane_next [OF 1] by blast
    then show ?thesis using below Cons.prems(2) False suc by (simp split: if_splits)
  qed
  then have "all_fresh ?ws (lane_demux_cmds lane_step demux_cmds c1 ms)" using Cons.IH by blast
  moreover have "all_fresh ws (demux_cmds c m @ ds) \<longleftrightarrow> all_fresh ?ws ds" for ds
    by (rule fresh_cmds(1) [OF Cons.prems(1) _ few]) (rule ids)
  ultimately show ?case using 1 by simp
qed simp

lemma lane_accounts:
  assumes "lane_run lane_step c ms = (c', evs)" "pend c = new_demux" "next_id c = 0" "length ms < 2 ^ 64"
  shows "\<exists>ws. demux_rel (pend c') ws
    \<and> channels ws + mset (map fst evs) = mset (concat (map registered (lane_demux_cmds lane_step demux_cmds c ms)))"
proof -
  have "all_fresh [] (lane_demux_cmds lane_step demux_cmds c ms)" using assms(3,4) by (intro lane_fresh) (simp_all add: ids_below_def)
  then show ?thesis
    using kernel_demux.run_accounts [OF new_demux_rel] lane_run_demux [OF assms(1)] assms(2)
    by (fastforce simp: channels_def)
qed

end

end
