(* ===== verification/Ss_Udp.thy ===== *)
theory Ss_Udp
  imports Ssr_Client Packet_Lane
begin

text \<open>
  Datagrams of the Shadowsocks adapter (\<open>adapter/shadowsocks/uot.rs\<close>, \<open>direct_udp.rs\<close> and the adapter's
  entries in \<open>shadowsocks.rs\<close>): the packets of UDP over TCP, the codec of direct datagrams, and the lanes
  that both kinds keep in pools. A lane is a connection with a reader task and a demultiplexer of the
  requests that wait; it is a state with the commands that its callers, its reader and the clock give it.
  Times are milliseconds; whether a connection could be opened or written is part of a command.
\<close>

section \<open>UDP over TCP\<close>

datatype ss_send_error =
    PayloadTooLarge | StreamEnded | BadAddressType byte | HostNotUtf8 | NoLane | OpenFailed | WriteFailed
  | LaneClosed | LaneTimedOut | RequestFailed string | ServerKeyMissing | PacketRejected ss_udp_error | NoServerAddress
  | NodeRejected ss_error | ResolveFailed | CipherNotAccepted

definition ss_encode_uot_packet :: "(ss_address \<Rightarrow> bytes) \<Rightarrow> ss_address \<Rightarrow> bytes \<Rightarrow> (ss_send_error, bytes) res" where
  "ss_encode_uot_packet write_address a payload =
    (if 65535 < length payload then Err PayloadTooLarge
     else Ok (write_address a @ to_be 2 (length payload) @ payload))"

definition ss_read_u16 :: "bytes \<Rightarrow> (ss_send_error, nat \<times> bytes) res" where
  "ss_read_u16 s = rbind (read_exact StreamEnded 2 s) (\<lambda>(b, s). Ok (be16 (b ! 0) (b ! 1), s))"

definition ss_read_uot_packet :: "bytes \<Rightarrow> (ss_send_error, (ss_address \<times> bytes) \<times> bytes) res" where
  "ss_read_uot_packet s =
    rbind (read_exact StreamEnded 1 s) (\<lambda>(atyp, s).
    rbind
      (if atyp ! 0 = 1 then
         rbind (read_exact StreamEnded 4 s) (\<lambda>(ip, s). rbind (ss_read_u16 s) (\<lambda>(port, s).
           Ok (SocketAddress \<lparr>sa_ip = V4 (ipv4_of_octets ip), sa_port = of_nat port\<rparr>, s)))
       else if atyp ! 0 = 3 then
         rbind (read_exact StreamEnded 1 s) (\<lambda>(n, s).
         rbind (read_exact StreamEnded (unat (n ! 0)) s) (\<lambda>(name, s). rbind (ss_read_u16 s) (\<lambda>(port, s).
         rbind (from_option HostNotUtf8 (from_utf8 name)) (\<lambda>h. Ok (DomainNameAddress h (of_nat port), s)))))
       else if atyp ! 0 = 4 then
         rbind (read_exact StreamEnded 16 s) (\<lambda>(ip, s). rbind (ss_read_u16 s) (\<lambda>(port, s).
           Ok (SocketAddress \<lparr>sa_ip = V6 (ipv6_of_octets ip), sa_port = of_nat port\<rparr>, s)))
       else Err (BadAddressType (atyp ! 0))) (\<lambda>(a, s).
    rbind (ss_read_u16 s) (\<lambda>(n, s).
    rbind (read_exact StreamEnded n s) (\<lambda>(payload, s). Ok ((a, payload), s)))))"

section \<open>A lane of UDP over TCP\<close>

record uot_conn =
  uc_writer :: bool
  uc_reading :: bool
  uc_next_request_id :: u64
  uc_last_used :: nat
  uc_pending :: demux_state

definition new_uot_conn :: "nat \<Rightarrow> uot_conn" where
  "new_uot_conn now = \<lparr>uc_writer = False, uc_reading = False, uc_next_request_id = 0, uc_last_used = now, uc_pending = new_demux\<rparr>"

definition UOT_IDLE_TIMEOUT :: nat where
  "UOT_IDLE_TIMEOUT = 45000"

text \<open>\<open>locked\<close> says that another request holds the lane's lock.\<close>

definition uot_last_used :: "bool \<Rightarrow> uot_conn \<Rightarrow> nat option" where
  "uot_last_used locked c = (if locked then None else Some (uc_last_used c))"

definition uot_is_live :: "nat \<Rightarrow> bool \<Rightarrow> uot_conn \<Rightarrow> bool" where
  "uot_is_live now locked c \<longleftrightarrow> \<not> locked \<and> uc_writer c \<and> now - uc_last_used c < UOT_IDLE_TIMEOUT"

definition uot_reset_state :: "uot_conn \<Rightarrow> uot_conn \<times> event list" where
  "uot_reset_state c =
    (case fail_all ''UoT packet connection was reset'' (uc_pending c) of
       (d, ev) \<Rightarrow> (c\<lparr>uc_writer := False, uc_reading := False, uc_pending := d\<rparr>, ev))"

text \<open>
  \<open>send\<close> until it waits: \<open>opened\<close> says whether a stream could be opened if none is usable, \<open>written\<close>
  whether the packet could be written. The result is the request's id and the packet.
\<close>

definition uot_send_start :: "(ss_address \<Rightarrow> bytes) \<Rightarrow> nat \<Rightarrow> bool \<Rightarrow> bool \<Rightarrow> nat \<Rightarrow> ss_address \<Rightarrow> bytes \<Rightarrow> uot_conn
    \<Rightarrow> (ss_send_error, u64 \<times> bytes) res \<times> uot_conn \<times> event list" where
  "uot_send_start write_address now opened written ch a payload c =
    (case ss_encode_uot_packet write_address a payload of
       Inl e \<Rightarrow> (Inl e, c, [])
     | Inr packet \<Rightarrow>
         (let stale = \<not> uc_writer c \<or> UOT_IDLE_TIMEOUT \<le> now - uc_last_used c;
              (c, ev) = (if stale then uot_reset_state c else (c, []))
          in if stale \<and> \<not> opened then (Err OpenFailed, c, ev)
             else
               let c = (if stale then c\<lparr>uc_writer := True, uc_reading := True\<rparr> else c);
                   rid = uc_next_request_id c;
                   c = c\<lparr>uc_last_used := now, uc_next_request_id := rid + 1,
                         uc_pending := register (udp_pending_key a) rid ch (uc_pending c)\<rparr>
               in if written then (Ok (rid, packet), c, ev)
                  else (case remove_by_id (udp_pending_key a) rid (uc_pending c) of
                      (d, ev1) \<Rightarrow> (case uot_reset_state (c\<lparr>uc_pending := d\<rparr>) of
                        (c, ev2) \<Rightarrow> (Err WriteFailed, c, ev @ ev1 @ ev2)))))"

definition uot_send_finish :: "ss_address \<Rightarrow> u64 \<Rightarrow> lane_wait \<Rightarrow> uot_conn \<Rightarrow> (ss_send_error, bytes) res \<times> uot_conn \<times> event list" where
  "uot_send_finish a rid w c =
    (case w of
       WaitResult (Payload p) \<Rightarrow> (Ok p, c, [])
     | WaitResult (Failure e) \<Rightarrow> (Err (RequestFailed e), c, [])
     | SenderDropped \<Rightarrow>
         (case remove_by_id (udp_pending_key a) rid (uc_pending c) of
            (d, ev) \<Rightarrow> (case uot_reset_state (c\<lparr>uc_pending := d\<rparr>) of (c, ev') \<Rightarrow> (Err LaneClosed, c, ev @ ev')))
     | WaitTimedOut \<Rightarrow>
         (case remove_by_id (udp_pending_key a) rid (uc_pending c) of
            (d, ev) \<Rightarrow> (Err LaneTimedOut, c\<lparr>uc_pending := d\<rparr>, ev)))"

text \<open>
  The reader, a packet at a time: it delivers under the packet's source, and when a packet cannot be read it
  fails every request and ends. The writer stays.
\<close>

definition uot_reader_next :: "(string, ss_address \<times> bytes) res \<Rightarrow> uot_conn \<Rightarrow> uot_conn \<times> event list" where
  "uot_reader_next r c =
    (if \<not> uc_reading c then (c, [])
     else case r of
         Inr (a, payload) \<Rightarrow>
           (case deliver (udp_pending_key a) (Payload payload) (uc_pending c) of (d, _, ev) \<Rightarrow> (c\<lparr>uc_pending := d\<rparr>, ev))
       | Inl (Fail e) \<Rightarrow> (case fail_all e (uc_pending c) of (d, ev) \<Rightarrow> (c\<lparr>uc_reading := False, uc_pending := d\<rparr>, ev))
       | Inl Panic \<Rightarrow> (c, []))"

datatype uot_cmd =
    UotSend nat bool bool nat ss_address bytes
  | UotFinish ss_address u64 lane_wait
  | UotRead "(string, ss_address \<times> bytes) res"

fun uot_step :: "(ss_address \<Rightarrow> bytes) \<Rightarrow> uot_conn \<Rightarrow> uot_cmd \<Rightarrow> uot_conn \<times> event list" where
  "uot_step write_address c (UotSend now opened written ch a payload) =
    snd (uot_send_start write_address now opened written ch a payload c)"
| "uot_step write_address c (UotFinish a rid w) = snd (uot_send_finish a rid w c)"
| "uot_step write_address c (UotRead r) = uot_reader_next r c"

section \<open>The pool\<close>

text \<open>
  \<open>free\<close> says that a lane is live and has no request. The result is the lane's number. A pool that must
  grow gets a new lane at its end.
\<close>

record 'l lane_pool =
  lp_lanes :: "'l list"
  lp_next :: u64

definition MAX_POOL_LANES :: nat where
  "MAX_POOL_LANES = 64"

definition INITIAL_POOL_LANES :: nat where
  "INITIAL_POOL_LANES = 8"

definition new_lane_pool :: "'l \<Rightarrow> nat \<Rightarrow> 'l lane_pool" where
  "new_lane_pool fresh n = \<lparr>lp_lanes = replicate (max 1 (min MAX_POOL_LANES n)) fresh, lp_next = 0\<rparr>"

definition grow_or_pick_lane :: "'l \<Rightarrow> nat \<Rightarrow> 'l lane_pool \<Rightarrow> nat \<times> 'l lane_pool" where
  "grow_or_pick_lane fresh i p =
    (let n = length (lp_lanes p)
     in if n < MAX_POOL_LANES then (n, p\<lparr>lp_lanes := lp_lanes p @ [fresh]\<rparr>) else (i mod n, p))"

definition pick_lane :: "('l \<Rightarrow> bool) \<Rightarrow> 'l \<Rightarrow> 'l lane_pool \<Rightarrow> (ss_send_error, nat) res \<times> 'l lane_pool" where
  "pick_lane free fresh p =
    (let n = length (lp_lanes p)
     in if n = 0 then (Err NoLane, p)
        else case find (\<lambda>i. free (lp_lanes p ! i)) [0..<n] of
            Some i \<Rightarrow> (Ok i, p)
          | None \<Rightarrow>
              (let start = unat (lp_next p) mod n;
                   p = p\<lparr>lp_next := lp_next p + 1\<rparr>
               in if start < n then (Ok start, p)
                  else (case grow_or_pick_lane fresh start p of (i, p) \<Rightarrow> (Ok i, p))))"

definition pool_is_idle :: "nat \<Rightarrow> nat \<Rightarrow> nat option list \<Rightarrow> bool" where
  "pool_is_idle idle_timeout now used =
    list_all (\<lambda>u. case u of Some t \<Rightarrow> idle_timeout \<le> now - t | None \<Rightarrow> False) used"

text \<open>The pools by their keys: the idle ones go, and the one that is asked for is there.\<close>

definition pool_for_key :: "('p \<Rightarrow> bool) \<Rightarrow> 'p \<Rightarrow> string \<Rightarrow> (string \<times> 'p) list \<Rightarrow> 'p \<times> (string \<times> 'p) list" where
  "pool_for_key idle fresh key pools =
    (let pools = filter (\<lambda>(k, p). \<not> idle p) pools
     in case map_of pools key of
          Some p \<Rightarrow> (p, pools)
        | None \<Rightarrow> (fresh, (key, fresh) # pools))"

text \<open>What the two adapters ask of a lane: live, for direct datagrams to this address, and without a request.\<close>

definition uot_pool_pick :: "nat \<Rightarrow> (uot_conn \<Rightarrow> bool) \<Rightarrow> uot_conn lane_pool \<Rightarrow> (ss_send_error, nat) res \<times> uot_conn lane_pool" where
  "uot_pool_pick now locked = pick_lane (\<lambda>c. uot_is_live now (locked c) c \<and> pending_count (uc_pending c) = 0) (new_uot_conn now)"

definition uot_pool_for :: "nat \<Rightarrow> (uot_conn \<Rightarrow> bool) \<Rightarrow> string \<Rightarrow> (string \<times> uot_conn lane_pool) list
    \<Rightarrow> uot_conn lane_pool \<times> (string \<times> uot_conn lane_pool) list" where
  "uot_pool_for now locked =
    pool_for_key (\<lambda>p. pool_is_idle UOT_IDLE_TIMEOUT now (map (\<lambda>c. uot_last_used (locked c) c) (lp_lanes p)))
      (new_lane_pool (new_uot_conn now) INITIAL_POOL_LANES)"

section \<open>Direct datagrams\<close>

text \<open>
  The control data of the \<open>shadowsocks\<close> package, and what the code takes from packages: keys and ciphers,
  addresses on the wire, and the sealing of datagrams of the current ciphers, which also takes the
  password for its identity keys.
\<close>

record udp_control =
  client_session_id :: u64
  server_session_id :: u64
  packet_id :: u64

record ('k, 'r) udp_library =
  ul_ss :: "builtin_cipher ss_library"
  ul_legacy :: "'k cipher_library"
  ul_ssr :: "'r ssr_library"
  ul_write :: "ss_address \<Rightarrow> bytes"
  ul_read :: "bytes \<Rightarrow> (ss_address \<times> bytes) option"
  ul_seal :: "builtin_cipher \<Rightarrow> bytes \<Rightarrow> string \<Rightarrow> udp_control \<Rightarrow> ss_address \<Rightarrow> bytes \<Rightarrow> bytes"
  ul_unseal :: "builtin_cipher \<Rightarrow> bytes \<Rightarrow> bytes \<Rightarrow> (bytes \<times> ss_address \<times> udp_control option) option"

text \<open>A fresh session with random numbers.\<close>

definition reset_udp_control :: "u64 \<Rightarrow> u32 \<Rightarrow> udp_control" where
  "reset_udp_control session packet = \<lparr>client_session_id = session, server_session_id = 0, packet_id = ucast packet\<rparr>"

definition uses_ssr_udp :: "'c shadowsocks_config \<Rightarrow> bool" where
  "uses_ssr_udp cfg \<longleftrightarrow> is_native (ss_protocol cfg) \<or> ss_one_time_auth cfg"

definition udp_ssr_protocol :: "'c shadowsocks_config \<Rightarrow> ssr_protocol" where
  "udp_ssr_protocol cfg = (if is_native (ss_protocol cfg) then ss_protocol cfg else ssr_protocol.VerifySha1)"

text \<open>\<open>draws\<close> are the random values of a codec, \<open>iv\<close> the random bytes in front of the packet.\<close>

definition direct_encode_packet :: "('k, 'r) udp_library \<Rightarrow> ssr_draws \<Rightarrow> bytes \<Rightarrow> builtin_cipher shadowsocks_config \<Rightarrow> ss_address \<Rightarrow> bytes
    \<Rightarrow> udp_control \<Rightarrow> (ss_send_error, bytes) res \<times> udp_control" where
  "direct_encode_packet lib draws iv cfg a payload control =
    (let rejected = (\<lambda>r. case r of Inr x \<Rightarrow> Inr x | Inl Panic \<Rightarrow> Inl Panic | Inl (Fail e) \<Rightarrow> Err (PacketRejected e))
     in case ss_cipher cfg of
          BuiltIn m \<Rightarrow>
            (case lib_key (ul_ss lib) (ss_password cfg) m of
               None \<Rightarrow> (Err ServerKeyMissing, control)
             | Some key \<Rightarrow>
                 (if uses_ssr_udp cfg then
                    (rejected (encrypt_ssr_udp_builtin_packet (ul_write lib) (ul_ssr lib) draws m key iv (udp_ssr_protocol cfg)
                       (ss_protocol_param cfg) a payload), control)
                  else
                    let control = control\<lparr>packet_id := packet_id control + 1\<rparr>
                    in (Ok (ul_seal lib m key (ss_password cfg) control a payload), control)))
        | NeonLegacy m \<Rightarrow>
            (let key = legacy_evp_bytes_to_key (lib_md5 (ul_ss lib)) (as_bytes (ss_password cfg)) (legacy_key_len m)
             in if uses_ssr_udp cfg then
                  (rejected (encrypt_ssr_udp_legacy_packet (ul_write lib) (ul_ssr lib) draws (ul_legacy lib) m key iv (udp_ssr_protocol cfg)
                     (ss_protocol_param cfg) a payload), control)
                else (rejected (encrypt_legacy_udp_packet (ul_write lib) (ul_legacy lib) m key iv a payload), control)))"

datatype direct_udp_decoder =
    BuiltInSsr builtin_cipher bytes ssr_protocol string
  | BuiltInStandard builtin_cipher bytes
  | LegacySsr neon_legacy_cipher bytes ssr_protocol string
  | LegacyStandard neon_legacy_cipher bytes

definition direct_udp_packet_decoder :: "('k, 'r) udp_library \<Rightarrow> builtin_cipher shadowsocks_config \<Rightarrow> (ss_send_error, direct_udp_decoder) res" where
  "direct_udp_packet_decoder lib cfg =
    (case ss_cipher cfg of
       BuiltIn m \<Rightarrow>
         rbind (from_option ServerKeyMissing (lib_key (ul_ss lib) (ss_password cfg) m)) (\<lambda>key.
           Ok (if uses_ssr_udp cfg then BuiltInSsr m key (udp_ssr_protocol cfg) (ss_protocol_param cfg) else BuiltInStandard m key))
     | NeonLegacy m \<Rightarrow>
         (let key = legacy_evp_bytes_to_key (lib_md5 (ul_ss lib)) (as_bytes (ss_password cfg)) (legacy_key_len m)
          in Ok (if uses_ssr_udp cfg then LegacySsr m key (udp_ssr_protocol cfg) (ss_protocol_param cfg) else LegacyStandard m key)))"

text \<open>The target, the payload, and the control data that came with it.\<close>

definition decode_direct_udp_packet :: "('k, 'r) udp_library \<Rightarrow> ssr_draws \<Rightarrow> direct_udp_decoder \<Rightarrow> bytes
    \<Rightarrow> (ss_udp_error, ss_address \<times> bytes \<times> udp_control option) res" where
  "decode_direct_udp_packet lib draws decoder packet =
    (let plain = (\<lambda>r. rbind r (\<lambda>(a, payload). Ok (a, payload, None)))
     in case decoder of
          BuiltInSsr m key p param \<Rightarrow>
            plain (decrypt_ssr_udp_builtin_packet (ul_read lib) (ul_ssr lib) draws m key p param packet)
        | BuiltInStandard m key \<Rightarrow>
            rbind (from_option DecryptFailed (ul_unseal lib m key packet)) (\<lambda>(payload, a, control). Ok (a, payload, control))
        | LegacySsr m key p param \<Rightarrow>
            plain (decrypt_ssr_udp_legacy_packet (ul_read lib) (ul_ssr lib) draws (ul_legacy lib) m key p param packet)
        | LegacyStandard m key \<Rightarrow> plain (decrypt_legacy_udp_packet (ul_read lib) (ul_legacy lib) m key packet))"

section \<open>A lane of direct datagrams\<close>

record direct_conn =
  dc_socket :: bool
  dc_address :: socket_addr
  dc_decoder :: "direct_udp_decoder option"
  dc_reading :: bool
  dc_next_request_id :: u64
  dc_last_used :: nat
  dc_control :: udp_control
  dc_pending :: demux_state

definition new_direct_conn :: "nat \<Rightarrow> udp_control \<Rightarrow> direct_conn" where
  "new_direct_conn now control =
    \<lparr>dc_socket = False, dc_address = \<lparr>sa_ip = V4 0, sa_port = 0\<rparr>, dc_decoder = None, dc_reading = False, dc_next_request_id = 0,
     dc_last_used = now, dc_control = control, dc_pending = new_demux\<rparr>"

definition DIRECT_UDP_IDLE_TIMEOUT :: nat where
  "DIRECT_UDP_IDLE_TIMEOUT = 120000"

definition direct_is_live_for :: "nat \<Rightarrow> bool \<Rightarrow> socket_addr \<Rightarrow> direct_conn \<Rightarrow> bool" where
  "direct_is_live_for now locked address c \<longleftrightarrow>
    \<not> locked \<and> dc_socket c \<and> dc_address c = address \<and> now - dc_last_used c < DIRECT_UDP_IDLE_TIMEOUT"

definition direct_last_used :: "bool \<Rightarrow> direct_conn \<Rightarrow> nat option" where
  "direct_last_used locked c = (if locked then None else Some (dc_last_used c))"

text \<open>A new lane has control data of its own, \<open>control\<close>.\<close>

definition direct_pool_pick :: "nat \<Rightarrow> (direct_conn \<Rightarrow> bool) \<Rightarrow> socket_addr \<Rightarrow> udp_control \<Rightarrow> direct_conn lane_pool
    \<Rightarrow> (ss_send_error, nat) res \<times> direct_conn lane_pool" where
  "direct_pool_pick now locked address control =
    pick_lane (\<lambda>c. direct_is_live_for now (locked c) address c \<and> pending_count (dc_pending c) = 0) (new_direct_conn now control)"

definition direct_pool_for :: "nat \<Rightarrow> (direct_conn \<Rightarrow> bool) \<Rightarrow> udp_control \<Rightarrow> string \<Rightarrow> (string \<times> direct_conn lane_pool) list
    \<Rightarrow> direct_conn lane_pool \<times> (string \<times> direct_conn lane_pool) list" where
  "direct_pool_for now locked control =
    pool_for_key (\<lambda>p. pool_is_idle DIRECT_UDP_IDLE_TIMEOUT now (map (\<lambda>c. direct_last_used (locked c) c) (lp_lanes p)))
      (new_lane_pool (new_direct_conn now control) INITIAL_POOL_LANES)"

definition direct_reset_state :: "direct_conn \<Rightarrow> direct_conn \<times> event list" where
  "direct_reset_state c =
    (case fail_all ''direct UDP packet connection was reset'' (dc_pending c) of
       (d, ev) \<Rightarrow> (c\<lparr>dc_reading := False, dc_socket := False, dc_decoder := None, dc_pending := d\<rparr>, ev))"

text \<open>
  \<open>send\<close> until the packet goes to the socket. \<open>opened\<close> says whether a socket could be bound, \<open>decoder\<close> is the
  decoder of the configuration, \<open>fresh\<close> the control data of a new session, and \<open>encode\<close> makes the packet.
\<close>

definition direct_send_start :: "nat \<Rightarrow> bool \<Rightarrow> (ss_send_error, direct_udp_decoder) res \<Rightarrow> udp_control
    \<Rightarrow> (udp_control \<Rightarrow> (ss_send_error, bytes) res \<times> udp_control) \<Rightarrow> nat \<Rightarrow> socket_addr \<Rightarrow> ss_address \<Rightarrow> direct_conn
    \<Rightarrow> (ss_send_error, u64 \<times> bytes) res \<times> direct_conn \<times> event list" where
  "direct_send_start now opened decoder fresh encode ch address a c =
    (let stale = \<not> dc_socket c \<or> dc_address c \<noteq> address \<or> DIRECT_UDP_IDLE_TIMEOUT \<le> now - dc_last_used c;
         (c, ev) = (if stale then direct_reset_state c else (c, []));
         ready =
           (if \<not> stale then (Ok (), c)
            else if \<not> opened then (Err OpenFailed, c)
            else case decoder of
                Inl e \<Rightarrow> (Inl e, c\<lparr>dc_address := address\<rparr>)
              | Inr d \<Rightarrow> (Ok (), c\<lparr>dc_address := address, dc_decoder := Some d, dc_socket := True, dc_control := fresh, dc_reading := True\<rparr>))
     in case ready of
          (Inl e, c) \<Rightarrow> (Inl e, c, ev)
        | (Inr _, c) \<Rightarrow>
            (case encode (dc_control c) of
               (Inl e, control) \<Rightarrow> (Inl e, c\<lparr>dc_last_used := now, dc_control := control\<rparr>, ev)
             | (Inr packet, control) \<Rightarrow>
                 (let rid = dc_next_request_id c
                  in (Ok (rid, packet), c\<lparr>dc_last_used := now, dc_control := control, dc_next_request_id := rid + 1,
                        dc_pending := register (udp_pending_key a) rid ch (dc_pending c)\<rparr>, ev))))"

text \<open>The lock is released before the packet is sent; a packet that cannot be sent closes the lane.\<close>

definition direct_send_failed :: "ss_address \<Rightarrow> u64 \<Rightarrow> direct_conn \<Rightarrow> direct_conn \<times> event list" where
  "direct_send_failed a rid c =
    (case remove_by_id (udp_pending_key a) rid (dc_pending c) of
       (d, ev) \<Rightarrow> (case direct_reset_state (c\<lparr>dc_pending := d\<rparr>) of (c, ev') \<Rightarrow> (c, ev @ ev')))"

definition direct_send_finish :: "ss_address \<Rightarrow> u64 \<Rightarrow> lane_wait \<Rightarrow> direct_conn \<Rightarrow> (ss_send_error, bytes) res \<times> direct_conn \<times> event list" where
  "direct_send_finish a rid w c =
    (case w of
       WaitResult (Payload p) \<Rightarrow> (Ok p, c, [])
     | WaitResult (Failure e) \<Rightarrow> (Err (RequestFailed e), c, [])
     | SenderDropped \<Rightarrow> (case direct_send_failed a rid c of (c, ev) \<Rightarrow> (Err LaneClosed, c, ev))
     | WaitTimedOut \<Rightarrow>
         (case remove_by_id (udp_pending_key a) rid (dc_pending c) of
            (d, ev) \<Rightarrow> (Err LaneTimedOut, c\<lparr>dc_pending := d\<rparr>, ev)))"

text \<open>
  The reader, a datagram at a time: one that cannot be decoded is dropped, one that is delivered takes the
  server's session along, and an error of the socket fails every request and ends the reader.
\<close>

definition direct_reader_next :: "(direct_udp_decoder \<Rightarrow> bytes \<Rightarrow> (ss_udp_error, ss_address \<times> bytes \<times> udp_control option) res)
    \<Rightarrow> (string, bytes) res \<Rightarrow> direct_conn \<Rightarrow> direct_conn \<times> event list" where
  "direct_reader_next decode r c =
    (case (if dc_reading c then dc_decoder c else None) of
       None \<Rightarrow> (c, [])
     | Some decoder \<Rightarrow>
         (case r of
            Inr packet \<Rightarrow>
              (case decode decoder packet of
                 Inl _ \<Rightarrow> (c, [])
               | Inr (a, payload, returned) \<Rightarrow>
                   (case deliver (udp_pending_key a) (Payload payload) (dc_pending c) of
                      (d, delivered, ev) \<Rightarrow>
                        (c\<lparr>dc_pending := d,
                           dc_control := (case (if delivered then returned else None) of
                             Some x \<Rightarrow> (dc_control c)\<lparr>server_session_id := server_session_id x\<rparr> | None \<Rightarrow> dc_control c)\<rparr>, ev)))
          | Inl (Fail e) \<Rightarrow> (case fail_all e (dc_pending c) of (d, ev) \<Rightarrow> (c\<lparr>dc_reading := False, dc_pending := d\<rparr>, ev))
          | Inl Panic \<Rightarrow> (c, [])))"

datatype direct_cmd =
    DirectSend nat bool "(ss_send_error, direct_udp_decoder) res" udp_control
      "udp_control \<Rightarrow> (ss_send_error, bytes) res \<times> udp_control" nat socket_addr ss_address
  | DirectSendFailed ss_address u64
  | DirectFinish ss_address u64 lane_wait
  | DirectRead "(string, bytes) res"

fun direct_step :: "(direct_udp_decoder \<Rightarrow> bytes \<Rightarrow> (ss_udp_error, ss_address \<times> bytes \<times> udp_control option) res)
    \<Rightarrow> direct_conn \<Rightarrow> direct_cmd \<Rightarrow> direct_conn \<times> event list" where
  "direct_step decode c (DirectSend now opened decoder fresh encode ch address a) =
    snd (direct_send_start now opened decoder fresh encode ch address a c)"
| "direct_step decode c (DirectSendFailed a rid) = direct_send_failed a rid c"
| "direct_step decode c (DirectFinish a rid w) = snd (direct_send_finish a rid w c)"
| "direct_step decode c (DirectRead r) = direct_reader_next decode r c"

section \<open>The adapter\<close>

text \<open>
  \<open>send_udp\<close> until a lane takes over, and \<open>connect\<close> with what is stacked on the transport; \<open>takes_key\<close> says
  whether the cipher packages take the key and the IV. UDP over TCP connects to a name of its own.
\<close>

definition uot_magic_target :: target_address where
  "uot_magic_target = \<lparr>host = ''sp.v2.udp-over-tcp.arpa'', target_port = 443\<rparr>"

datatype 'c ss_udp_route = ViaUot "'c shadowsocks_config" | ViaDirect "'c shadowsocks_config" socket_addr

definition node_checked :: "(ss_error, 'a) res \<Rightarrow> (ss_send_error, 'a) res" where
  "node_checked r = (case r of Inr x \<Rightarrow> Inr x | Inl Panic \<Rightarrow> Inl Panic | Inl (Fail e) \<Rightarrow> Err (NodeRejected e))"

definition ss_send_udp :: "'c ss_library \<Rightarrow> (target_address \<Rightarrow> (ss_send_error, socket_addr list) res) \<Rightarrow> kernel_node
    \<Rightarrow> (ss_send_error, 'c ss_udp_route) res" where
  "ss_send_udp lib lookup_server n =
    rbind (node_checked (ss_from_node lib n)) (\<lambda>cfg.
      if should_use_uot cfg then rbind (node_checked (ensure_uot_supported cfg)) (\<lambda>_. Ok (ViaUot cfg))
      else
        rbind (node_checked (ensure_udp_supported cfg)) (\<lambda>_.
        rbind (lookup_server \<lparr>host = ss_server cfg, target_port = ss_server_port cfg\<rparr>) (\<lambda>resolved.
        rbind (from_option NoServerAddress (case resolved of [] \<Rightarrow> None | address # _ \<Rightarrow> Some address)) (\<lambda>address.
          Ok (ViaDirect cfg address)))))"

datatype 'c ss_crypto = BuiltInCrypto 'c bytes | LegacyCrypto neon_legacy_cipher string

datatype ('c, 's) ss_stream =
    SsrOver "'c ss_crypto" "'s ss_transport" ss_address ssr_protocol string bytes
  | PlainOver "'c ss_crypto" "'s ss_transport" ss_address

definition ss_connect :: "'c ss_library \<Rightarrow> (target_address \<Rightarrow> (ss_send_error, socket_addr list) res)
    \<Rightarrow> (socket_addr \<Rightarrow> (ss_send_error, 's) res) \<Rightarrow> (neon_legacy_cipher \<Rightarrow> string \<Rightarrow> bool) \<Rightarrow> kernel_node \<Rightarrow> target_address \<Rightarrow> (ss_send_error, ('c, 's) ss_stream) res" where
  "ss_connect lib lookup_server tcp takes_key n t =
    rbind (node_checked (ss_from_node lib n)) (\<lambda>cfg.
    rbind (node_checked (ensure_tcp_supported cfg)) (\<lambda>_.
    rbind (lookup_server \<lparr>host = ss_server cfg, target_port = ss_server_port cfg\<rparr>) (\<lambda>resolved.
    rbind (from_option NoServerAddress (case resolved of [] \<Rightarrow> None | address # _ \<Rightarrow> Some address)) (\<lambda>address.
      let stack = (\<lambda>crypto key transport.
            if uses_ssr_udp cfg then SsrOver crypto transport (target_address_of t) (udp_ssr_protocol cfg) (ss_protocol_param cfg) key
            else PlainOver crypto transport (target_address_of t))
      in case ss_cipher cfg of
           NeonLegacy m \<Rightarrow>
             rbind (connect_transport (tcp address) cfg) (\<lambda>transport.
             rbind (from_option CipherNotAccepted (if takes_key m (ss_password cfg) then Some () else None)) (\<lambda>_.
               Ok (stack (LegacyCrypto m (ss_password cfg))
                 (legacy_evp_bytes_to_key (lib_md5 lib) (as_bytes (ss_password cfg)) (legacy_key_len m)) transport)))
         | BuiltIn m \<Rightarrow>
             rbind (from_option ServerKeyMissing (lib_key lib (ss_password cfg) m)) (\<lambda>key.
             rbind (connect_transport (tcp address) cfg) (\<lambda>transport.
               Ok (stack (BuiltInCrypto m key) key transport)))))))"

section \<open>The two kinds of lane\<close>

definition uot_demux_cmds :: "(ss_address \<Rightarrow> bytes) \<Rightarrow> uot_conn \<Rightarrow> uot_cmd \<Rightarrow> demux_cmd list" where
  "uot_demux_cmds write_address c m =
    (let reset = FailAll ''UoT packet connection was reset''
     in case m of
          UotSend now opened written ch a payload \<Rightarrow>
            (if 65535 < length payload then []
             else
               let stale = \<not> uc_writer c \<or> UOT_IDLE_TIMEOUT \<le> now - uc_last_used c;
                   key = udp_pending_key a
               in (if stale then [reset] else [])
                 @ (if stale \<and> \<not> opened then []
                    else [Register key (uc_next_request_id c) ch]
                      @ (if written then [] else [Remove key (uc_next_request_id c), reset])))
        | UotFinish a rid w \<Rightarrow>
            (case w of
               WaitResult _ \<Rightarrow> []
             | SenderDropped \<Rightarrow> [Remove (udp_pending_key a) rid, reset]
             | WaitTimedOut \<Rightarrow> [Remove (udp_pending_key a) rid])
        | UotRead r \<Rightarrow>
            (if \<not> uc_reading c then []
             else case r of
                 Inr (a, payload) \<Rightarrow> [Deliver (udp_pending_key a) (Payload payload)]
               | Inl (Fail e) \<Rightarrow> [FailAll e]
               | Inl Panic \<Rightarrow> []))"

interpretation uot_lane: udp_lane "uot_step write_address" uc_pending uc_next_request_id "uot_demux_cmds write_address"
  for write_address
proof (unfold_locales, goal_cases)
  case (1 c m c' ev)
  then show ?case
    by (cases m) (auto simp: uot_demux_cmds_def uot_send_start_def ss_encode_uot_packet_def uot_reset_state_def
        uot_send_finish_def uot_reader_next_def Let_def
        split: if_splits prod.splits lane_wait.splits reply.splits sum.splits fault.splits)
next
  case (2 k i ch c m)
  then show ?case
    by (auto simp: uot_demux_cmds_def Let_def split: uot_cmd.splits if_splits lane_wait.splits sum.splits fault.splits prod.splits)
next
  case (3 c m c' ev)
  then show ?case
    by (cases m) (auto simp: uot_demux_cmds_def uot_send_start_def ss_encode_uot_packet_def uot_reset_state_def
        uot_send_finish_def uot_reader_next_def Let_def
        split: if_splits prod.splits lane_wait.splits reply.splits sum.splits fault.splits)
qed

definition direct_demux_cmds :: "(direct_udp_decoder \<Rightarrow> bytes \<Rightarrow> (ss_udp_error, ss_address \<times> bytes \<times> udp_control option) res)
    \<Rightarrow> direct_conn \<Rightarrow> direct_cmd \<Rightarrow> demux_cmd list" where
  "direct_demux_cmds decode c m =
    (let reset = FailAll ''direct UDP packet connection was reset''
     in case m of
          DirectSend now opened decoder fresh encode ch address a \<Rightarrow>
            (let stale = \<not> dc_socket c \<or> dc_address c \<noteq> address \<or> DIRECT_UDP_IDLE_TIMEOUT \<le> now - dc_last_used c;
                 control = (if stale then fresh else dc_control c)
             in (if stale then [reset] else [])
               @ (if (stale \<longrightarrow> opened \<and> (\<exists>d. decoder = Ok d)) \<and> (\<exists>p. fst (encode control) = Ok p)
                  then [Register (udp_pending_key a) (dc_next_request_id c) ch] else []))
        | DirectSendFailed a rid \<Rightarrow> [Remove (udp_pending_key a) rid, reset]
        | DirectFinish a rid w \<Rightarrow>
            (case w of
               WaitResult _ \<Rightarrow> []
             | SenderDropped \<Rightarrow> [Remove (udp_pending_key a) rid, reset]
             | WaitTimedOut \<Rightarrow> [Remove (udp_pending_key a) rid])
        | DirectRead r \<Rightarrow>
            (case (if dc_reading c then dc_decoder c else None) of
               None \<Rightarrow> []
             | Some decoder \<Rightarrow>
                 (case r of
                    Inr packet \<Rightarrow>
                      (case decode decoder packet of
                         Inl _ \<Rightarrow> []
                       | Inr (a, payload, _) \<Rightarrow> [Deliver (udp_pending_key a) (Payload payload)])
                  | Inl (Fail e) \<Rightarrow> [FailAll e]
                  | Inl Panic \<Rightarrow> [])))"

lemma direct_send_start_lane:
  assumes "direct_send_start now opened decoder fresh encode ch address a c = (r, c', ev)"
  shows "run_demux demux_step (dc_pending c) (direct_demux_cmds decode c (DirectSend now opened decoder fresh encode ch address a))
      = (dc_pending c', ev)
    \<and> ((dc_next_request_id c' = dc_next_request_id c
        \<and> concat (map registered (direct_demux_cmds decode c (DirectSend now opened decoder fresh encode ch address a))) = [])
      \<or> (dc_next_request_id c' = dc_next_request_id c + 1
        \<and> length (concat (map registered (direct_demux_cmds decode c (DirectSend now opened decoder fresh encode ch address a)))) = 1))"
proof -
  define stale where "stale \<longleftrightarrow> \<not> dc_socket c \<or> dc_address c \<noteq> address \<or> DIRECT_UDP_IDLE_TIMEOUT \<le> now - dc_last_used c"
  have start: "direct_send_start now opened decoder fresh encode ch address a c = (r, c', ev)" by (rule assms)
  show ?thesis
  proof (cases stale)
    case False
    then show ?thesis using start unfolding direct_send_start_def direct_demux_cmds_def Let_def direct_cmd.case stale_def [symmetric]
      by (auto split: sum.splits prod.splits)
  next
    case True
    then show ?thesis using start unfolding direct_send_start_def direct_demux_cmds_def Let_def direct_cmd.case stale_def [symmetric]
      by (auto simp: direct_reset_state_def fail_all_def split: sum.splits prod.splits if_splits)
  qed
qed

interpretation direct_lane: udp_lane "direct_step decode" dc_pending dc_next_request_id "direct_demux_cmds decode" for decode
proof (unfold_locales, goal_cases)
  case (1 c m c' ev)
  show ?case
  proof (cases m)
    case (DirectSend now opened decoder fresh encode ch address a)
    then show ?thesis using 1 direct_send_start_lane [of now opened decoder fresh encode ch address a c _ c' ev]
      by (cases "direct_send_start now opened decoder fresh encode ch address a c") simp
  next
    case (DirectRead r)
    then show ?thesis using 1 by (cases r) (auto simp: direct_demux_cmds_def direct_reader_next_def
        split: if_splits prod.splits sum.splits fault.splits option.splits)
  qed (use 1 in \<open>auto simp: direct_demux_cmds_def direct_send_failed_def direct_reset_state_def direct_send_finish_def
        direct_reader_next_def split: if_splits prod.splits lane_wait.splits reply.splits sum.splits fault.splits option.splits\<close>)
next
  case (2 k i ch c m)
  show ?case
  proof (cases m)
    case (DirectRead r)
    then show ?thesis using 2 by (cases r) (auto simp: direct_demux_cmds_def Let_def split: if_splits option.splits sum.splits fault.splits)
  qed (use 2 in \<open>auto simp: direct_demux_cmds_def Let_def split: if_splits lane_wait.splits\<close>)
next
  case (3 c m c' ev)
  show ?case
  proof (cases m)
    case (DirectSend now opened decoder fresh encode ch address a)
    then show ?thesis using 3 direct_send_start_lane [of now opened decoder fresh encode ch address a c _ c' ev]
      by (cases "direct_send_start now opened decoder fresh encode ch address a c") simp
  next
    case (DirectRead r)
    then show ?thesis using 3 by (cases r) (auto simp: direct_demux_cmds_def direct_reader_next_def
        split: if_splits prod.splits sum.splits fault.splits option.splits)
  qed (use 3 in \<open>auto simp: direct_demux_cmds_def direct_send_failed_def direct_reset_state_def direct_send_finish_def
        direct_reader_next_def split: if_splits prod.splits lane_wait.splits reply.splits sum.splits fault.splits option.splits\<close>)
qed

section \<open>Properties\<close>



text \<open>
  A lane whose reader has ended stays in use. When a packet cannot be read, the lane keeps its writer:
  it is live, has no request, and so is the first choice of its pool; a request that is then sent on it is
  registered and written, but whatever arrives afterwards is read by nobody.
\<close>

theorem uot_dead_lane_stays:
  assumes "uc_writer c" "uc_reading c" "now - uc_last_used c < UOT_IDLE_TIMEOUT" "length payload \<le> 65535"
    and "uot_reader_next (Err e) c = (c1, evs)" "uot_send_start write_address now opened True ch a payload c1 = (r, c2, evs')"
  shows "(\<forall>p lanes. lp_lanes p = c1 # lanes \<longrightarrow> uot_pool_pick now (\<lambda>_. False) p = (Ok 0, p))
    \<and> (\<exists>packet. r = Ok (uc_next_request_id c, packet)) \<and> evs' = []
    \<and> uot_is_live now False c2 \<and> (\<forall>r'. uot_reader_next r' c2 = (c2, []))"
proof -
  have c1: "c1 = c\<lparr>uc_reading := False, uc_pending := new_demux\<rparr>"
    using assms(2,5) by (simp add: uot_reader_next_def fail_all_def new_demux_def)
  then have free: "uot_is_live now False c1 \<and> pending_count (uc_pending c1) = 0"
    using assms(1,3) by (simp add: uot_is_live_def pending_count_def new_demux_def)
  have "uot_pool_pick now (\<lambda>_. False) p = (Ok 0, p)" if "lp_lanes p = c1 # lanes" for p lanes
    using that free by (simp add: uot_pool_pick_def pick_lane_def upt_conv_Cons del: upt_Suc)
  moreover have "(\<exists>packet. r = Ok (uc_next_request_id c, packet)) \<and> evs' = [] \<and> uot_is_live now False c2
      \<and> (\<forall>r'. uot_reader_next r' c2 = (c2, []))"
    using assms(1,3,4,6) unfolding c1
    by (auto simp: uot_reader_next_def uot_is_live_def uot_send_start_def ss_encode_uot_packet_def UOT_IDLE_TIMEOUT_def Let_def)
  ultimately show ?thesis by blast
qed

theorem uot_dead_lane_stays_witness:
  "let c = (new_uot_conn 0)\<lparr>uc_writer := True, uc_reading := True\<rparr>;
       c1 = fst (uot_reader_next (Err ''closed'') c);
       c2 = fst (snd (uot_send_start (\<lambda>_. [9]) 5 False True 7 (DomainNameAddress ''a'' 53) [1] c1))
   in uot_reader_next (Ok (DomainNameAddress ''a'' 53, [2])) c2 = (c2, [])"
proof -
  let ?c = "(new_uot_conn 0)\<lparr>uc_writer := True, uc_reading := True\<rparr>"
  obtain c1 evs where c1: "uot_reader_next (Err ''closed'') ?c = (c1, evs)" by fastforce
  obtain r c2 evs' where c2: "uot_send_start (\<lambda>_. [9]) 5 False True 7 (DomainNameAddress ''a'' 53) [1] c1 = (r, c2, evs')"
    by (metis prod_cases3)
  have c: "uc_writer ?c" "uc_reading ?c" "5 - uc_last_used ?c < UOT_IDLE_TIMEOUT" "length [1 :: byte] \<le> 65535"
    by (simp_all add: new_uot_conn_def UOT_IDLE_TIMEOUT_def)
  show ?thesis using uot_dead_lane_stays [OF c c1 c2] c1 c2 by simp
qed

text \<open>
  A pool of lanes keeps its size. A lane is always found, one that is free if there is one; the branch that
  would add a lane, up to the limit of 64, is never taken.
\<close>

theorem lane_pool_never_grows:
  assumes "lp_lanes p \<noteq> []" "pick_lane free fresh p = (r, p')"
  shows "lp_lanes p' = lp_lanes p
    \<and> (\<exists>i < length (lp_lanes p). r = Ok i \<and> (free (lp_lanes p ! i) \<or> (\<forall>l \<in> set (lp_lanes p). \<not> free l)))"
proof (cases "find (\<lambda>i. free (lp_lanes p ! i)) [0..<length (lp_lanes p)]")
  case None
  then have none: "\<forall>l \<in> set (lp_lanes p). \<not> free l" by (auto simp: find_None_iff in_set_conv_nth)
  have start: "unat (lp_next p) mod length (lp_lanes p) < length (lp_lanes p)" using assms(1) by simp
  then have "r = Ok (unat (lp_next p) mod length (lp_lanes p))" "lp_lanes p' = lp_lanes p"
    using assms None by (auto simp: pick_lane_def Let_def)
  then show ?thesis using none start by blast
next
  case (Some i)
  then have "i < length (lp_lanes p)" "free (lp_lanes p ! i)" by (auto simp: find_Some_iff)
  then show ?thesis using assms Some by (auto simp: pick_lane_def Let_def)
qed

theorem lane_pool_never_grows_witness:
  "fst (pick_lane (\<lambda>_. False) () (new_lane_pool () INITIAL_POOL_LANES)) = Ok 0
    \<and> lp_lanes (snd (pick_lane (\<lambda>_. False) () (new_lane_pool () INITIAL_POOL_LANES))) = replicate 8 ()"
proof -
  let ?p = "new_lane_pool () INITIAL_POOL_LANES"
  obtain r p' where p': "pick_lane (\<lambda>_. False) () ?p = (r, p')" by fastforce
  have lanes: "lp_lanes ?p = replicate 8 ()" by (simp add: new_lane_pool_def INITIAL_POOL_LANES_def MAX_POOL_LANES_def)
  then have ne: "lp_lanes ?p \<noteq> []" by simp
  have "fst (pick_lane (\<lambda>_. False) () ?p) = Ok 0" by code_simp
  then show ?thesis using lane_pool_never_grows [OF ne p'] lanes p' by simp
qed

text \<open>What the \<open>shadowsocks\<close> package writes for an address is the form of SOCKS5.\<close>

definition socks5_writer :: "(ss_address \<Rightarrow> bytes) \<Rightarrow> bool" where
  "socks5_writer w \<longleftrightarrow>
    (\<forall>ip p. w (SocketAddress \<lparr>sa_ip = V4 ip, sa_port = p\<rparr>) = [1] @ ipv4_octets ip @ u16_to_be p)
    \<and> (\<forall>ip p. w (SocketAddress \<lparr>sa_ip = V6 ip, sa_port = p\<rparr>) = [4] @ ipv6_octets ip @ u16_to_be p)
    \<and> (\<forall>h p. w (DomainNameAddress h p) = [3, of_nat (length (as_bytes h))] @ as_bytes h @ u16_to_be p)"

lemma ss_read_u16_be [simp]: "ss_read_u16 (u16_to_be p @ s) = Ok (unat p, s)"
proof -
  have "be16 (u16_to_be p ! 0) (u16_to_be p ! Suc 0) = unat p"
    using unat_u16_bound [of p] by (simp add: u16_to_be_def be16_to_be)
  then show ?thesis by (simp add: ss_read_u16_def)
qed

lemma ss_read_u16_to_be: "n < 65536 \<Longrightarrow> ss_read_u16 (to_be 2 n @ s) = Ok (n, s)"
  by (simp add: ss_read_u16_def be16_to_be)

text \<open>
  The packets of UDP over TCP come back: with the package's SOCKS5 form of addresses, what is encoded for an
  address, a name of at most 255 bytes included, is read back with its address and payload from the front
  of the stream; a payload of more than 65535 bytes is an error.
\<close>

theorem ss_uot_roundtrip:
  assumes "socks5_writer w" "\<And>h p. a = DomainNameAddress h p \<Longrightarrow> utf8_valid (as_bytes h) \<and> length (as_bytes h) \<le> 255"
  shows "(case ss_encode_uot_packet w a payload of
      Inr packet \<Rightarrow> length payload \<le> 65535 \<and> ss_read_uot_packet (packet @ s) = Ok ((a, payload), s)
    | Inl e \<Rightarrow> 65535 < length payload)"
proof (cases "65535 < length payload")
  case False
  then have n: "ss_read_u16 (to_be 2 (length payload) @ payload @ s) = Ok (length payload, payload @ s)"
    by (intro ss_read_u16_to_be) simp
  have one: "read_exact StreamEnded 1 (b # x) = Ok ([b], x)" for b x by (simp add: read_exact_def)
  have "ss_read_uot_packet (w a @ to_be 2 (length payload) @ payload @ s) = Ok ((a, payload), s)"
  proof (cases a)
    case (SocketAddress sa)
    obtain ip p where sa: "sa = \<lparr>sa_ip = ip, sa_port = p\<rparr>" by (cases sa) simp
    show ?thesis using assms(1) n unfolding SocketAddress sa
      by (cases ip) (simp_all add: socks5_writer_def ss_read_uot_packet_def one [simplified])
  next
    case (DomainNameAddress h p)
    have h: "utf8_valid (as_bytes h)" "length (as_bytes h) \<le> 255" using assms(2) [OF DomainNameAddress] by simp_all
    have "unat (of_nat (length (as_bytes h)) :: byte) = length (as_bytes h)" using h(2) by (simp add: unat_of_nat)
    then show ?thesis using assms(1) n h unfolding DomainNameAddress
      by (simp add: socks5_writer_def ss_read_uot_packet_def one [simplified] from_utf8_as_bytes from_option_def)
  qed
  then show ?thesis using False by (simp add: ss_encode_uot_packet_def)
qed (simp add: ss_encode_uot_packet_def)

definition socks5_bytes :: "ss_address \<Rightarrow> bytes" where
  "socks5_bytes a =
    (case a of
       SocketAddress sa \<Rightarrow> (case sa_ip sa of V4 ip \<Rightarrow> [1] @ ipv4_octets ip | V6 ip \<Rightarrow> [4] @ ipv6_octets ip) @ u16_to_be (sa_port sa)
     | DomainNameAddress h p \<Rightarrow> [3, of_nat (length (as_bytes h))] @ as_bytes h @ u16_to_be p)"

theorem ss_uot_roundtrip_witness:
  "ss_read_uot_packet ([3, 1, 97, 0, 53, 0, 2, 8, 9] @ [7]) = Ok ((DomainNameAddress ''a'' 53, [8, 9]), [7])"
proof -
  have w: "socks5_writer socks5_bytes" by (simp add: socks5_writer_def socks5_bytes_def)
  have a: "utf8_valid (as_bytes h) \<and> length (as_bytes h) \<le> 255" if "DomainNameAddress ''a'' 53 = DomainNameAddress h p" for h p
  proof -
    have h: "h = ''a''" using that by simp
    show ?thesis unfolding h by code_simp
  qed
  have "ss_encode_uot_packet socks5_bytes (DomainNameAddress ''a'' 53) [8, 9] = Ok [3, 1, 97, 0, 53, 0, 2, 8, 9]" by code_simp
  then show ?thesis using ss_uot_roundtrip [where a = "DomainNameAddress ''a'' 53" and payload = "[8, 9]" and s = "[7]", OF w a] by simp
qed

text \<open>
  C27: the two sides of a direct lane agree. For every configuration with a legacy cipher, with the one-time
  authentication or a ShadowsocksR protocol that leaves datagrams as they are, or with neither, the decoder that a lane
  keeps decodes what the lane encodes to the same target and payload, and the encoding leaves the control data
  of the session alone.
\<close>

theorem direct_udp_agrees:
  assumes "ss_cipher cfg = NeonLegacy m" "key = legacy_evp_bytes_to_key (lib_md5 (ul_ss lib)) (as_bytes (ss_password cfg)) (legacy_key_len m)"
    and "library_ok (ul_legacy lib)" "length iv = legacy_iv_len m" "\<forall>d. ul_read lib (ul_write lib a @ d) = Some (a, d)"
    and "new_with_direction (ul_legacy lib) m key iv True \<noteq> None" "new_with_direction (ul_legacy lib) m key iv False \<noteq> None"
    and "uses_ssr_udp cfg \<longrightarrow> plain_datagrams (udp_ssr_protocol cfg)"
  shows "\<exists>packet decoder. direct_encode_packet lib draws iv cfg a payload control = (Ok packet, control)
    \<and> direct_udp_packet_decoder lib cfg = Ok decoder
    \<and> decode_direct_udp_packet lib draws' decoder packet = Ok (a, payload, None)"
proof (cases "uses_ssr_udp cfg")
  case True
  then show ?thesis
    using assms conjunct1 [OF conjunct2 [OF legacy_udp_roundtrip [where cl = "ul_legacy lib" and read_address = "ul_read lib" and write_address = "ul_write lib" and t = a
        and payload = payload and protocol = "udp_ssr_protocol cfg" and lib = "ul_ssr lib" and rd = draws and rd' = draws' and param = "ss_protocol_param cfg",
        OF assms(3-7)]]]
    by (auto simp: direct_encode_packet_def direct_udp_packet_decoder_def decode_direct_udp_packet_def Let_def)
next
  case False
  have "plain_datagrams ssr_protocol.VerifySimple" by (simp add: plain_datagrams_def)
  then show ?thesis
    using False assms conjunct1 [OF legacy_udp_roundtrip [where cl = "ul_legacy lib" and read_address = "ul_read lib" and write_address = "ul_write lib" and t = a
        and payload = payload and protocol = ssr_protocol.VerifySimple and lib = "ul_ssr lib" and rd = draws and rd' = draws' and param = "ss_protocol_param cfg",
        OF assms(3-7)]]
    by (auto simp: direct_encode_packet_def direct_udp_packet_decoder_def decode_direct_udp_packet_def Let_def)
qed

definition toy_udp_library :: "(byte, unit) udp_library" where
  "toy_udp_library =
    \<lparr>ul_ss = \<lparr>lib_parse = (\<lambda>_. None), lib_category = (\<lambda>_. CategoryStream), lib_key = (\<lambda>_ _. None), lib_md5 = (\<lambda>_. replicate 16 5)\<rparr>,
     ul_legacy = toy_library,
     ul_ssr = \<lparr>sl_digests = \<lparr>dg_md5 = (\<lambda>d. []), dg_sha1 = (\<lambda>d. []), dg_hmac_sha1 = (\<lambda>k d. [])\<rparr>, sl_chain = plain_library, sl_crc32 = (\<lambda>d. 0)\<rparr>,
     ul_write = (\<lambda>_. [1]), ul_read = (\<lambda>b. Some (DomainNameAddress ''a'' 1, tl b)),
     ul_seal = (\<lambda>m k pw c a d. d), ul_unseal = (\<lambda>m k d. None)\<rparr>"

theorem direct_udp_agrees_witness:
  "\<exists>packet decoder. direct_udp_packet_decoder toy_udp_library
      \<lparr>ss_server = ''s'', ss_server_port = 1, ss_password = ''p'', ss_cipher = NeonLegacy Salsa20, ss_plugin = PluginNone,
       ss_protocol = Origin, ss_protocol_param = [], ss_one_time_auth = True, ss_tcp_fast_open = False, ss_udp_relay = True,
       ss_udp_over_tcp = False\<rparr> = Ok decoder
    \<and> decode_direct_udp_packet toy_udp_library \<lparr>sd_time = 0, sd_number = (\<lambda>_. 0), sd_bytes = (\<lambda>_ _ _. [])\<rparr> decoder packet
      = Ok (DomainNameAddress ''a'' 1, [4, 2], None)"
proof -
  let ?cfg = "\<lparr>ss_server = ''s'', ss_server_port = 1, ss_password = ''p'', ss_cipher = NeonLegacy Salsa20, ss_plugin = PluginNone,
       ss_protocol = Origin, ss_protocol_param = [], ss_one_time_auth = True, ss_tcp_fast_open = False, ss_udp_relay = True,
       ss_udp_over_tcp = False\<rparr>"
  have m: "ss_cipher ?cfg = NeonLegacy Salsa20" by simp
  have lib: "library_ok (ul_legacy toy_udp_library)" using toy_library_ok by (simp add: toy_udp_library_def)
  have iv: "length (replicate 8 (5 :: byte)) = legacy_iv_len Salsa20" by (simp add: legacy_iv_len_def)
  have wire: "\<forall>d. ul_read toy_udp_library (ul_write toy_udp_library (DomainNameAddress ''a'' 1) @ d) = Some (DomainNameAddress ''a'' 1, d)"
    by (simp add: toy_udp_library_def)
  have new: "new_with_direction (ul_legacy toy_udp_library) Salsa20 key (replicate 8 5) enc \<noteq> None" for key enc
    by (simp add: new_with_direction_def toy_library_def toy_udp_library_def)
  have plain: "uses_ssr_udp ?cfg \<longrightarrow> plain_datagrams (udp_ssr_protocol ?cfg)"
    by (simp add: udp_ssr_protocol_def is_native_def plain_datagrams_def)
  show ?thesis using direct_udp_agrees [OF m refl lib iv wire new new plain, of _ "[4, 2]"] by blast
qed

lemma first_address: "from_option e (case xs of [] \<Rightarrow> None | x # _ \<Rightarrow> Some x) = Ok y \<longleftrightarrow> (\<exists>rest. xs = y # rest)"
  by (cases xs) (simp_all add: from_option_def)

text \<open>
  C28: Datagrams never leave beside the plugin. \<open>send_udp\<close> goes directly to the server only for a node that relays
  datagrams, has no plugin and did not ask for UDP over TCP, and then to the first address of the server's name; it
  goes over TCP only when the node asked for it; in every other case it is an error.
\<close>

theorem ss_send_udp_route: "(ss_send_udp lib lookup_server n = Ok (ViaDirect cfg address) \<longleftrightarrow>
        ss_from_node lib n = Ok cfg \<and> ss_udp_relay cfg \<and> \<not> ss_udp_over_tcp cfg \<and> ss_plugin cfg = PluginNone
        \<and> (\<exists>rest. lookup_server \<lparr>host = ss_server cfg, target_port = ss_server_port cfg\<rparr> = Ok (address # rest)))
    \<and> (ss_send_udp lib lookup_server n = Ok (ViaUot cfg) \<longleftrightarrow>
        ss_from_node lib n = Ok cfg \<and> ss_udp_relay cfg \<and> ss_udp_over_tcp cfg)"
proof -
  have checked: "node_checked r = Ok x \<longleftrightarrow> r = Ok x" for r :: "(ss_error, 'x) res" and x
    by (auto simp: node_checked_def split: sum.splits fault.splits)
  show ?thesis
    by (auto simp: ss_send_udp_def checked rbind_Inr_iff first_address should_use_uot_def ensure_uot_supported_def
        ensure_udp_supported_def udp_mode_def split: if_splits)
qed

end
