(* ===== verification/Ss_Xhttp.thy ===== *)
theory Ss_Xhttp
  imports Ss_Config
begin

text \<open>
  XHTTP over HTTP/1 of the Shadowsocks adapter (\<open>adapter/shadowsocks/transport.rs\<close>): paths, the replies of a
  server and the draining of their bodies, the worker that posts on one connection, the chunked upload, and the
  cutting of an upload into numbered posts (which HTTP/2 shares). A stream is the bytes that it will give until
  its end; what is sent is bytes too.
\<close>

section \<open>Mode, version and paths\<close>

fun resolve_xhttp_mode :: "xhttp_plugin_config \<Rightarrow> xhttp_mode" where
  "resolve_xhttp_mode c = (if xp_mode c = XAuto then if xp_tls c then PacketUp else StreamUp else xp_mode c)"

fun resolve_xhttp_version :: "xhttp_plugin_config \<Rightarrow> xhttp_version" where
  "resolve_xhttp_version c = (if xp_version c = VAuto then if xp_tls c then H2 else H1 else xp_version c)"

text \<open>How \<open>connect_xhttp_plugin\<close> carries the stream.\<close>

datatype xhttp_way =
    XhttpH3
  | XhttpH1PacketUp
  | XhttpH1StreamUp
  | XhttpH1Stream
  | XhttpH2PacketUp
  | XhttpH2StreamUp
  | XhttpH2Stream

definition connect_xhttp_plugin :: "xhttp_plugin_config \<Rightarrow> xhttp_way" where
  "connect_xhttp_plugin c =
    (if xp_version c = H3 then XhttpH3
     else
       let version = resolve_xhttp_version c; mode = resolve_xhttp_mode c
       in if version = H1 \<and> mode = PacketUp then XhttpH1PacketUp
          else if version = H1 \<and> mode = StreamUp then XhttpH1StreamUp
          else if version = H1 then XhttpH1Stream
          else case (version, mode) of
              (H2, PacketUp) \<Rightarrow> XhttpH2PacketUp
            | (H2, StreamUp) \<Rightarrow> XhttpH2StreamUp
            | (H2, _) \<Rightarrow> XhttpH2Stream
            | _ \<Rightarrow> XhttpH1Stream)"

definition xhttp_session_id :: "bytes \<Rightarrow> string" where
  "xhttp_session_id bs = concat (map (\<lambda>b. [digit_char (unat b div 16), digit_char (unat b mod 16)]) bs)"

definition xhttp_base_path :: "string \<Rightarrow> string" where
  "xhttp_base_path path =
    (let path = (if path = [] then ''/'' else if starts_with path ''/'' then path else ''/'' @ path)
     in if ends_with path ''/'' then path else path @ ''/'')"

definition xhttp_path_with_query :: "string \<Rightarrow> string \<Rightarrow> nat option \<Rightarrow> string" where
  "xhttp_path_with_query base_path session s =
    (let base_path = xhttp_base_path base_path;
         join = (if CHR ''?'' \<in> set base_path then ''&'' else ''?'')
     in base_path @ join @ ''session='' @ session
       @ (case s of Some n \<Rightarrow> ''&seq='' @ show_nat n | None \<Rightarrow> []))"

section \<open>The head of a reply\<close>

datatype xhttp_error =
    XhttpEof
  | XhttpRejected string
  | XhttpHeadTooLarge
  | XhttpContentLength string
  | XhttpLineTooLarge
  | XhttpChunkSize string
  | XhttpChunkDelimiter
  | XhttpBodyTooLarge
  | XhttpNotOpened
  | XhttpNotWritten

abbreviation http_crlf :: string where
  "http_crlf \<equiv> [CHR 0x0D, CHR 0x0A]"

fun read_headers_loop :: "bytes \<Rightarrow> bytes \<Rightarrow> (xhttp_error, string \<times> bytes) res" where
  "read_headers_loop response [] = (if length response < 8192 then Err XhttpEof else Err XhttpHeadTooLarge)"
| "read_headers_loop response (b # s) =
    (if \<not> length response < 8192 then Err XhttpHeadTooLarge
     else
       let response = response @ [b]
       in if ends_with response [13, 10, 13, 10]
          then
            let head = from_utf8_lossy response
            in if \<not> starts_with head ''HTTP/1.1 2'' \<and> \<not> starts_with head ''HTTP/1.0 2''
               then Err (XhttpRejected (case str_lines head of [] \<Rightarrow> [] | l # _ \<Rightarrow> l))
               else Ok (head, s)
          else read_headers_loop response s)"

definition read_http_response_headers :: "bytes \<Rightarrow> (xhttp_error, string \<times> bytes) res" where
  "read_http_response_headers s = read_headers_loop [] s"

definition http_header_values :: "string \<Rightarrow> string \<Rightarrow> string list" where
  "http_header_values headers name =
    concat (map (\<lambda>line. case split_once CHR '':'' (str_trim_end_matches CHR 0x0D line) of
        None \<Rightarrow> []
      | Some (key, v) \<Rightarrow> (if eq_ignore_ascii_case key name then [str_trim v] else [])) (drop 1 (str_lines headers)))"

definition http_header_contains :: "string \<Rightarrow> string \<Rightarrow> string \<Rightarrow> bool" where
  "http_header_contains headers name needle =
    list_ex (\<lambda>v. list_ex (\<lambda>part. to_ascii_lowercase (str_trim part) = to_ascii_lowercase needle) (str_split '','' v))
      (http_header_values headers name)"

definition http_response_has_no_body :: "string \<Rightarrow> bool" where
  "http_response_has_no_body headers =
    (let line = (case str_lines headers of [] \<Rightarrow> None | l # _ \<Rightarrow> Some l);
         code = (case line of
             None \<Rightarrow> None
           | Some l \<Rightarrow> (case next_word l of
               (None, _) \<Rightarrow> None
             | (Some _, r) \<Rightarrow> (case fst (next_word r) of None \<Rightarrow> None | Some w \<Rightarrow> parse_unsigned 65535 w)));
         status = (case code of Some n \<Rightarrow> n | None \<Rightarrow> 0)
     in (100 \<le> status \<and> status \<le> 199) \<or> status = 204 \<or> status = 304)"

text \<open>The last value counts, and each one has to be a number.\<close>

fun content_lengths :: "nat option \<Rightarrow> string list \<Rightarrow> (xhttp_error, nat option) res" where
  "content_lengths len [] = Ok len"
| "content_lengths len (v # vs) =
    (case parse_unsigned (2 ^ 64 - 1) (str_trim v) of
       Some n \<Rightarrow> content_lengths (Some n) vs
     | None \<Rightarrow> Err (XhttpContentLength v))"

definition http_content_length :: "string \<Rightarrow> (xhttp_error, nat option) res" where
  "http_content_length headers = content_lengths None (http_header_values headers ''content-length'')"

section \<open>Draining a body\<close>

definition XHTTP_H1_MAX_RESPONSE_DRAIN_BYTES :: nat where
  "XHTTP_H1_MAX_RESPONSE_DRAIN_BYTES = 1024 * 1024"

definition drain_exact_http_body :: "nat \<Rightarrow> bytes \<Rightarrow> (xhttp_error, bytes) res" where
  "drain_exact_http_body remaining s =
    (if XHTTP_H1_MAX_RESPONSE_DRAIN_BYTES < remaining then Err XhttpBodyTooLarge
     else rbind (read_exact XhttpEof remaining s) (\<lambda>(_, s). Ok s))"

fun read_line_loop :: "nat \<Rightarrow> bytes \<Rightarrow> bytes \<Rightarrow> (xhttp_error, string \<times> bytes) res" where
  "read_line_loop max_len line [] = (if length line < max_len then Err XhttpEof else Err XhttpLineTooLarge)"
| "read_line_loop max_len line (b # s) =
    (if \<not> length line < max_len then Err XhttpLineTooLarge
     else if b = 10 then Ok (from_utf8_lossy (line @ [b]), s)
     else read_line_loop max_len (line @ [b]) s)"

definition read_http1_line :: "nat \<Rightarrow> bytes \<Rightarrow> (xhttp_error, string \<times> bytes) res" where
  "read_http1_line max_len s = read_line_loop max_len [] s"

lemma read_line_shrinks: "read_line_loop n line s = Ok (l, r) \<Longrightarrow> length r < length s"
  by (induction n line s rule: read_line_loop.induct) (auto split: if_splits)

lemma read_http1_line_shrinks: "read_http1_line n s = Ok (l, r) \<Longrightarrow> length r < length s"
  by (simp add: read_http1_line_def read_line_shrinks)

text \<open>\<open>usize::from_str_radix(s, 16)\<close>.\<close>

definition parse_hex :: "string \<Rightarrow> nat option" where
  "parse_hex s = (let ds = (case s of c # r \<Rightarrow> if c = CHR ''+'' then r else s | [] \<Rightarrow> s)
     in if ds \<noteq> [] \<and> list_all (is_digit_char 16) ds \<and> digits_value 16 ds < 2 ^ 64
        then Some (digits_value 16 ds) else None)"

function drain_trailers :: "bytes \<Rightarrow> (xhttp_error, bytes) res" where
  "drain_trailers s =
    (case read_http1_line 8192 s of
       Inl e \<Rightarrow> Inl e
     | Inr (trailer, r) \<Rightarrow> (if trailer = http_crlf \<or> trailer = [CHR 0x0A] then Ok r else drain_trailers r))"
  by pat_completeness auto
termination by (relation "measure length") (auto dest: read_http1_line_shrinks)

declare drain_trailers.simps [simp del]

definition chunk_size_text :: "string \<Rightarrow> string" where
  "chunk_size_text line =
    str_trim_end_matches CHR 0x0D (str_trim (case str_split '';'' line of [] \<Rightarrow> [] | p # _ \<Rightarrow> p))"

function drain_chunked_loop :: "nat \<Rightarrow> bytes \<Rightarrow> (xhttp_error, bytes) res" where
  "drain_chunked_loop drained s =
    (case read_http1_line 4096 s of
       Inl e \<Rightarrow> Inl e
     | Inr (line, r) \<Rightarrow>
         (case parse_hex (chunk_size_text line) of
            None \<Rightarrow> Err (XhttpChunkSize (chunk_size_text line))
          | Some n \<Rightarrow>
              (if n = 0 then drain_trailers r
               else
                 let drained = min (2 ^ 64 - 1) (drained + n)
                 in if XHTTP_H1_MAX_RESPONSE_DRAIN_BYTES < drained then Err XhttpBodyTooLarge
                    else case rbind (drain_exact_http_body n r) (read_exact XhttpEof 2) of
                        Inl e \<Rightarrow> Inl e
                      | Inr (end_mark, r) \<Rightarrow>
                          (if end_mark \<noteq> [13, 10] then Err XhttpChunkDelimiter else drain_chunked_loop drained r))))"
  by pat_completeness auto
termination
  by (relation "measure (\<lambda>(drained, s). length s)")
    (auto dest!: read_http1_line_shrinks simp: rbind_Inr_iff drain_exact_http_body_def read_exact_Ok_iff split: if_splits)

declare drain_chunked_loop.simps [simp del]

definition drain_http1_chunked_body :: "bytes \<Rightarrow> (xhttp_error, bytes) res" where
  "drain_http1_chunked_body s = drain_chunked_loop 0 s"

definition drain_http_body_until_eof :: "bytes \<Rightarrow> (xhttp_error, bytes) res" where
  "drain_http_body_until_eof s = (if XHTTP_H1_MAX_RESPONSE_DRAIN_BYTES < length s then Err XhttpBodyTooLarge else Ok [])"

definition drain_http1_response_body :: "string \<Rightarrow> bytes \<Rightarrow> (xhttp_error, bool \<times> bytes) res" where
  "drain_http1_response_body headers s =
    (let closes = http_header_contains headers ''connection'' ''close''
     in if http_response_has_no_body headers then Ok (\<not> closes, s)
        else if http_header_contains headers ''transfer-encoding'' ''chunked''
        then rbind (drain_http1_chunked_body s) (\<lambda>s. Ok (\<not> closes, s))
        else rbind (http_content_length headers) (\<lambda>len.
          case len of
            Some n \<Rightarrow> rbind (drain_exact_http_body n s) (\<lambda>s. Ok (\<not> closes, s))
          | None \<Rightarrow>
              (if closes then rbind (drain_http_body_until_eof s) (\<lambda>s. Ok (False, s)) else Ok (True, s))))"

section \<open>The worker that posts on one connection\<close>

definition xhttp_post_request :: "string \<Rightarrow> string \<Rightarrow> string \<Rightarrow> nat \<Rightarrow> bytes \<Rightarrow> bytes" where
  "xhttp_post_request hst path session n payload =
    as_bytes (''POST '' @ xhttp_path_with_query path session (Some n) @ '' HTTP/1.1'' @ http_crlf
      @ ''Host: '' @ hst @ http_crlf @ ''User-Agent: Mozilla/5.0'' @ http_crlf
      @ ''Content-Length: '' @ show_nat (length payload) @ http_crlf
      @ ''Content-Type: application/octet-stream'' @ http_crlf @ ''Connection: keep-alive'' @ http_crlf @ http_crlf)
    @ payload"

text \<open>\<open>written\<close> says whether the stream took the request.\<close>

definition send_http1_xhttp_post :: "bool \<Rightarrow> bytes \<Rightarrow> (xhttp_error, bool \<times> bytes) res" where
  "send_http1_xhttp_post written s =
    (if written then rbind (read_http_response_headers s) (\<lambda>(headers, s). drain_http1_response_body headers s)
     else Err XhttpNotWritten)"

text \<open>The stream of a worker is what it has still to read; \<open>opened\<close> is a new one, if there can be one.\<close>

record xhttp_worker =
  xw_host :: string
  xw_path :: string
  xw_session :: string
  xw_stream :: "bytes option"
  xw_sent :: bytes

definition new_xhttp_worker :: "string \<Rightarrow> string \<Rightarrow> string \<Rightarrow> xhttp_worker" where
  "new_xhttp_worker hst path session = \<lparr>xw_host = hst, xw_path = path, xw_session = session, xw_stream = None, xw_sent = []\<rparr>"

definition xhttp_worker_send :: "bytes option \<Rightarrow> bool \<Rightarrow> nat \<Rightarrow> bytes \<Rightarrow> xhttp_worker \<Rightarrow> (xhttp_error, unit) res \<times> xhttp_worker" where
  "xhttp_worker_send opened written n payload w =
    (case (case xw_stream w of Some s \<Rightarrow> Some (s, xw_sent w) | None \<Rightarrow> map_option (\<lambda>s. (s, [])) opened) of
       None \<Rightarrow> (Err XhttpNotOpened, w)
     | Some (s, sent) \<Rightarrow>
         (let w = w\<lparr>xw_sent := (if written then sent @ xhttp_post_request (xw_host w) (xw_path w) (xw_session w) n payload else sent)\<rparr>
          in case send_http1_xhttp_post written s of
               Inl e \<Rightarrow> (Inl e, w\<lparr>xw_stream := None\<rparr>)
             | Inr (reusable, s) \<Rightarrow> (Ok (), w\<lparr>xw_stream := (if reusable then Some s else None)\<rparr>)))"

text \<open>The task of a worker: the posts it is given, until one fails.\<close>

fun xhttp_worker_run :: "(nat \<times> bytes) list \<Rightarrow> (nat \<Rightarrow> bytes option) \<Rightarrow> xhttp_worker \<Rightarrow> (xhttp_error, unit) res \<times> xhttp_worker" where
  "xhttp_worker_run [] opened w = (Ok (), w)"
| "xhttp_worker_run ((n, payload) # posts) opened w =
    (case xhttp_worker_send (opened n) True n payload w of
       (Inl e, w) \<Rightarrow> (Inl e, w)
     | (Inr _, w) \<Rightarrow> xhttp_worker_run posts opened w)"

section \<open>The chunked stream\<close>

definition xhttp_chunk :: "bytes \<Rightarrow> bytes" where
  "xhttp_chunk bs = as_bytes (show_radix 16 (length bs) @ http_crlf) @ bs @ [13, 10]"

text \<open>What is written for the reads of the upload; no bytes are its end.\<close>

fun xhttp_chunked_upload :: "bytes list \<Rightarrow> bytes" where
  "xhttp_chunked_upload [] = []"
| "xhttp_chunked_upload (bs # reads) =
    (if bs = [] then as_bytes (''0'' @ http_crlf @ http_crlf) else xhttp_chunk bs @ xhttp_chunked_upload reads)"

text \<open>What the download gives to the local side: all that follows the head of the reply, as it comes.\<close>

definition xhttp_download :: "bytes \<Rightarrow> bytes" where
  "xhttp_download s = (case read_http_response_headers s of Inl _ \<Rightarrow> [] | Inr (_, s) \<Rightarrow> s)"

definition xhttp_stream_request :: "string \<Rightarrow> string \<Rightarrow> bytes" where
  "xhttp_stream_request hst path =
    as_bytes (''POST '' @ xhttp_base_path path @ '' HTTP/1.1'' @ http_crlf @ ''Host: '' @ hst @ http_crlf
      @ ''User-Agent: Mozilla/5.0'' @ http_crlf @ ''Transfer-Encoding: chunked'' @ http_crlf
      @ ''Content-Type: application/octet-stream'' @ http_crlf @ http_crlf)"

definition xhttp_get_request :: "string \<Rightarrow> string \<Rightarrow> string \<Rightarrow> bytes" where
  "xhttp_get_request hst path session =
    as_bytes (''GET '' @ xhttp_path_with_query path session None @ '' HTTP/1.1'' @ http_crlf @ ''Host: '' @ hst @ http_crlf
      @ ''User-Agent: Mozilla/5.0'' @ http_crlf @ ''Accept: application/octet-stream'' @ http_crlf
      @ ''Connection: keep-alive'' @ http_crlf @ http_crlf)"

definition xhttp_upload_request :: "string \<Rightarrow> string \<Rightarrow> string \<Rightarrow> bytes" where
  "xhttp_upload_request hst path session =
    as_bytes (''POST '' @ xhttp_path_with_query path session (Some 0) @ '' HTTP/1.1'' @ http_crlf @ ''Host: '' @ hst @ http_crlf
      @ ''User-Agent: Mozilla/5.0'' @ http_crlf @ ''Transfer-Encoding: chunked'' @ http_crlf
      @ ''Content-Type: application/octet-stream'' @ http_crlf @ ''Connection: keep-alive'' @ http_crlf @ http_crlf)"

section \<open>An upload as posts\<close>

text \<open>What the upload gives next: bytes (none at its end), the timer of a batch, an error. With nothing more the
  timer ends a batch.\<close>

datatype upload_event = UpBytes bytes | UpTimer | UpFailed

definition XHTTP_MAX_POST_BYTES :: nat where
  "XHTTP_MAX_POST_BYTES = 4 * 1024 * 1024"

definition XHTTP_PACKET_POST_WORKERS :: nat where
  "XHTTP_PACKET_POST_WORKERS = 8"

fun batch_loop :: "nat \<Rightarrow> bytes \<Rightarrow> upload_event list \<Rightarrow> (unit, bytes) res \<times> upload_event list" where
  "batch_loop limit payload [] = (Ok payload, [])"
| "batch_loop limit payload (e # es) =
    (if limit \<le> length payload then (Ok payload, e # es)
     else case e of
         UpTimer \<Rightarrow> (Ok payload, es)
       | UpFailed \<Rightarrow> (Err (), es)
       | UpBytes bs \<Rightarrow>
           (if bs = [] then (Ok payload, e # es)
            else if length bs \<le> limit - length payload then batch_loop limit (payload @ bs) es
            else (Ok (payload @ take (limit - length payload) bs), UpBytes (drop (limit - length payload) bs) # es)))"

fun read_xhttp_post_batch :: "nat \<Rightarrow> upload_event list \<Rightarrow> (unit, bytes option) res \<times> upload_event list" where
  "read_xhttp_post_batch max_post_bytes [] = (Ok None, [])"
| "read_xhttp_post_batch max_post_bytes (UpTimer # es) = read_xhttp_post_batch max_post_bytes es"
| "read_xhttp_post_batch max_post_bytes (UpFailed # es) = (Err (), es)"
| "read_xhttp_post_batch max_post_bytes (UpBytes bs # es) =
    (if bs = [] then (Ok None, UpBytes bs # es)
     else case batch_loop (max 1 (min XHTTP_MAX_POST_BYTES max_post_bytes)) [] (UpBytes bs # es) of
         (Inl e, es) \<Rightarrow> (Inl e, es)
       | (Inr payload, es) \<Rightarrow> (Ok (Some payload), es))"

fun upload_weight :: "upload_event list \<Rightarrow> nat" where
  "upload_weight [] = 0"
| "upload_weight (UpBytes bs # es) = length bs + Suc (upload_weight es)"
| "upload_weight (_ # es) = Suc (upload_weight es)"

lemma batch_loop_weight:
  "batch_loop limit payload es = (Ok p, es') \<Longrightarrow> upload_weight es' + length p \<le> upload_weight es + length payload \<and> length payload \<le> length p"
  by (induction limit payload es rule: batch_loop.induct) (force split: if_splits upload_event.splits)+

lemma batch_loop_first:
  assumes "batch_loop limit [] (UpBytes bs # es) = (Ok p, es')" "bs \<noteq> []" "0 < limit"
  shows "upload_weight es' < upload_weight (UpBytes bs # es)" "p \<noteq> []"
proof -
  have "p \<noteq> []"
  proof (cases "length bs \<le> limit")
    case True
    then show ?thesis using assms batch_loop_weight [of limit bs es p es'] by auto
  next
    case False
    then show ?thesis using assms by auto
  qed
  then show "upload_weight es' < upload_weight (UpBytes bs # es)" "p \<noteq> []"
    using batch_loop_weight [OF assms(1)] by (cases p; simp)+
qed

lemma post_batch_weight: "read_xhttp_post_batch max_post_bytes es = (Ok (Some p), es') \<Longrightarrow> upload_weight es' < upload_weight es"
proof (induction max_post_bytes es rule: read_xhttp_post_batch.induct)
  case (4 max_post_bytes bs es)
  then have bs: "bs \<noteq> []" by (auto split: if_splits)
  then obtain r es1 where b: "batch_loop (max 1 (min XHTTP_MAX_POST_BYTES max_post_bytes)) [] (UpBytes bs # es) = (r, es1)" by fastforce
  then show ?case using 4 bs batch_loop_first(1) [of _ bs es p es'] by (cases r) (auto simp del: batch_loop.simps)
qed auto

text \<open>
  The posts of the bridge, each with its worker and its number; \<open>ok\<close> says whether the worker still takes it.
\<close>

function xhttp_posts :: "nat \<Rightarrow> (nat \<Rightarrow> bool) \<Rightarrow> nat \<Rightarrow> upload_event list \<Rightarrow> (nat \<times> nat \<times> bytes) list" where
  "xhttp_posts max_post_bytes ok n es =
    (case read_xhttp_post_batch max_post_bytes es of
       (Inr (Some payload), es) \<Rightarrow>
         (if ok n then (n mod XHTTP_PACKET_POST_WORKERS, n, payload) # xhttp_posts max_post_bytes ok (min (2 ^ 64 - 1) (n + 1)) es else [])
     | _ \<Rightarrow> [])"
  by pat_completeness auto
termination by (relation "measure (\<lambda>(max_post_bytes, ok, n, es). upload_weight es)") (auto dest: post_batch_weight [OF sym])

declare xhttp_posts.simps [simp del]

section \<open>Posts carry the upload\<close>

text \<open>The bytes of the upload up to its end.\<close>

fun upload_bytes :: "upload_event list \<Rightarrow> bytes" where
  "upload_bytes [] = []"
| "upload_bytes (UpBytes bs # es) = (if bs = [] then [] else bs @ upload_bytes es)"
| "upload_bytes (UpTimer # es) = upload_bytes es"
| "upload_bytes (UpFailed # es) = []"

lemma batch_loop_bytes:
  "UpFailed \<notin> set es \<Longrightarrow> length payload \<le> limit \<Longrightarrow> \<exists>p es'. batch_loop limit payload es = (Ok p, es') \<and> UpFailed \<notin> set es'
    \<and> p @ upload_bytes es' = payload @ upload_bytes es \<and> length p \<le> limit"
proof (induction limit payload es rule: batch_loop.induct)
  case (2 limit payload e es)
  show ?case
  proof (cases "limit \<le> length payload")
    case False
    show ?thesis
    proof (cases e)
      case (UpBytes bs)
      show ?thesis
      proof (cases "bs \<noteq> [] \<and> length bs \<le> limit - length payload")
        case True
        then show ?thesis using 2 False UpBytes by fastforce
      next
        case no: False
        then show ?thesis using 2 False UpBytes by (auto simp: Let_def)
      qed
    qed (use 2 False in auto)
  qed (use 2 in auto)
qed auto

lemma post_batch_bytes:
  assumes "UpFailed \<notin> set es" "limit = max 1 (min XHTTP_MAX_POST_BYTES max_post_bytes)"
  shows "(\<exists>es'. read_xhttp_post_batch max_post_bytes es = (Ok None, es') \<and> upload_bytes es = [])
    \<or> (\<exists>p es'. read_xhttp_post_batch max_post_bytes es = (Ok (Some p), es') \<and> UpFailed \<notin> set es'
        \<and> upload_bytes es = p @ upload_bytes es' \<and> p \<noteq> [] \<and> length p \<le> limit)"
  using assms
proof (induction max_post_bytes es rule: read_xhttp_post_batch.induct)
  case (4 max_post_bytes bs es)
  show ?case
  proof (cases "bs = []")
    case False
    have l: "0 < limit" "length [] \<le> limit" using 4(2) by auto
    obtain p es' where b: "batch_loop limit [] (UpBytes bs # es) = (Ok p, es')" "UpFailed \<notin> set es'"
        "p @ upload_bytes es' = upload_bytes (UpBytes bs # es)" "length p \<le> limit"
      using batch_loop_bytes [OF 4(1) l(2)] by auto
    then show ?thesis using 4(2) False batch_loop_first(2) [OF b(1) False l(1)] by simp
  qed simp
qed auto

text \<open>
  C30: the posts carry the upload. If no read of the upload fails and the workers take every post, the posts are numbered
  from zero without a gap, none is empty or larger than the limit, post \<open>i\<close> goes to worker \<open>i mod 8\<close>, and the payloads in
  the order of their numbers are the bytes of the upload, however it arrives and wherever the timer cuts it.
\<close>

theorem xhttp_posts_carry_upload:
  assumes "UpFailed \<notin> set es" "length (upload_bytes es) < 2 ^ 64" "xhttp_posts max_post_bytes (\<lambda>_. True) 0 es = posts"
  shows "concat (map (\<lambda>(lane, n, payload). payload) posts) = upload_bytes es
    \<and> map (\<lambda>(lane, n, payload). (lane, n)) posts = map (\<lambda>n. (n mod 8, n)) [0..<length posts]
    \<and> (\<forall>(lane, n, payload) \<in> set posts. 1 \<le> length payload \<and> length payload \<le> max 1 (min (4 * 1024 * 1024) max_post_bytes))"
proof -
  let ?limit = "max 1 (min XHTTP_MAX_POST_BYTES max_post_bytes)"
  have "concat (map (\<lambda>(lane, n, payload). payload) (xhttp_posts max_post_bytes (\<lambda>_. True) n es)) = upload_bytes es
      \<and> map (\<lambda>(lane, n, payload). (lane, n)) (xhttp_posts max_post_bytes (\<lambda>_. True) n es)
        = map (\<lambda>n. (n mod 8, n)) [n..<n + length (xhttp_posts max_post_bytes (\<lambda>_. True) n es)]
      \<and> (\<forall>(lane, n, payload) \<in> set (xhttp_posts max_post_bytes (\<lambda>_. True) n es). 1 \<le> length payload \<and> length payload \<le> ?limit)"
    if "UpFailed \<notin> set es" "n + length (upload_bytes es) < 2 ^ 64" for n
    using that
  proof (induction "upload_weight es" arbitrary: es n rule: less_induct)
    case less
    from post_batch_bytes [OF less.prems(1) refl, of max_post_bytes] show ?case
    proof (elim disjE exE conjE)
      fix es' assume "read_xhttp_post_batch max_post_bytes es = (Ok None, es')" "upload_bytes es = []"
      then show ?thesis by (simp add: xhttp_posts.simps [of max_post_bytes _ n es])
    next
      fix p es'
      assume b: "read_xhttp_post_batch max_post_bytes es = (Ok (Some p), es')" "UpFailed \<notin> set es'"
        "upload_bytes es = p @ upload_bytes es'" "p \<noteq> []" "length p \<le> ?limit"
      have "0 < length p" using b(4) by simp
      then have lim: "n + 1 + length (upload_bytes es') < 2 ^ 64" using less.prems(2) unfolding b(3) length_append by linarith
      have step: "xhttp_posts max_post_bytes (\<lambda>_. True) n es = (n mod 8, n, p) # xhttp_posts max_post_bytes (\<lambda>_. True) (n + 1) es'"
        using b(1) lim by (simp add: xhttp_posts.simps [of max_post_bytes _ n es] XHTTP_PACKET_POST_WORKERS_def)
      show ?thesis using less.hyps [OF post_batch_weight [OF b(1)] b(2) lim] b(3-5) \<open>0 < length p\<close>
        unfolding step by (simp add: upt_conv_Cons Suc_le_eq)
    qed
  qed
  from this [OF assms(1), of 0] show ?thesis using assms(2,3) by (simp add: XHTTP_MAX_POST_BYTES_def)
qed

theorem xhttp_posts_carry_upload_witness:
  "let posts = xhttp_posts 3 (\<lambda>_. True) 0 [UpBytes [1, 2], UpTimer, UpBytes [3], UpBytes [4, 5, 6, 7], UpBytes []]
   in concat (map (\<lambda>(lane, n, payload). payload) posts) = [1, 2, 3, 4, 5, 6, 7]"
  using conjunct1 [OF xhttp_posts_carry_upload [of "[UpBytes [1, 2], UpTimer, UpBytes [3], UpBytes [4, 5, 6, 7], UpBytes []]" 3 _, OF _ _ refl]]
  by simp

section \<open>Heads and lines\<close>

definition head_complete :: "bytes \<Rightarrow> bool" where
  "head_complete head \<longleftrightarrow> ends_with head [13, 10, 13, 10]
    \<and> (\<forall>k < length head. \<not> ends_with (take k head) [13, 10, 13, 10])"

lemma read_headers_loop_head:
  assumes "head_complete (pre @ post)" "post \<noteq> []" "length (pre @ post) \<le> 8192"
    and "starts_with (from_utf8_lossy (pre @ post)) ''HTTP/1.1 2''"
  shows "read_headers_loop pre (post @ s) = Ok (from_utf8_lossy (pre @ post), s)"
  using assms
proof (induction post arbitrary: pre)
  case (Cons b post)
  show ?case
  proof (cases "post = []")
    case True
    then show ?thesis using Cons.prems by (simp add: head_complete_def Let_def)
  next
    case False
    have "\<not> ends_with (take (Suc (length pre)) (pre @ b # post)) [13, 10, 13, 10]"
      using Cons.prems(1) False unfolding head_complete_def by (metis length_Cons length_append add_Suc_right length_greater_0_conv Suc_less_eq less_add_same_cancel1)
    then have "\<not> ends_with (pre @ [b]) [13, 10, 13, 10]" by simp
    then show ?thesis using Cons.IH [of "pre @ [b]"] Cons.prems False by (simp add: Let_def)
  qed
qed simp

lemma read_http_response_headers_head:
  assumes "head_complete head" "length head \<le> 8192" "starts_with (from_utf8_lossy head) ''HTTP/1.1 2''"
  shows "read_http_response_headers (head @ s) = Ok (from_utf8_lossy head, s)"
proof -
  have "head \<noteq> []" using assms(1) by (auto simp: head_complete_def ends_with_def)
  then show ?thesis using read_headers_loop_head [of "[]" head s] assms by (simp add: read_http_response_headers_def)
qed

lemma read_line_loop_line:
  "10 \<notin> set a \<Longrightarrow> length line + length a < n \<Longrightarrow> read_line_loop n line (a @ 10 # s) = Ok (from_utf8_lossy (line @ a @ [10]), s)"
  by (induction a arbitrary: line) auto

lemma read_http1_line_line:
  "10 \<notin> set a \<Longrightarrow> length a < n \<Longrightarrow> read_http1_line n (a @ 10 # s) = Ok (from_utf8_lossy (a @ [10]), s)"
  by (simp add: read_http1_line_def read_line_loop_line)

section \<open>Chunks\<close>

lemma digit_char_visible: "d < 16 \<Longrightarrow> visible (digit_char d) \<and> digit_char d \<noteq> CHR '';'' \<and> digit_char d \<noteq> CHR ''+''"
proof -
  assume "d < 16"
  then have n: "(of_char (digit_char d) :: nat) = (if d < 10 then 48 + d else 87 + d)" by (rule of_char_digit_char)
  then have "visible (digit_char d)" using \<open>d < 16\<close> by (simp add: visible_def)
  moreover have "digit_char d \<noteq> c" if "of_char c = (59 :: nat) \<or> of_char c = (43 :: nat)" for c
    using that n by (auto split: if_splits)
  ultimately show ?thesis by simp
qed

lemma show_hex_visible: "list_all (\<lambda>c. visible c \<and> c \<noteq> CHR '';'' \<and> c \<noteq> CHR ''+'') (show_radix 16 n)"
proof (induction "16 :: nat" n rule: show_radix.induct)
  case (1 n)
  then show ?case using digit_char_visible by (subst show_radix.simps) (simp add: digit_char_visible)
qed

lemma parse_hex_show: "n < 2 ^ 64 \<Longrightarrow> parse_hex (show_radix 16 n) = Some n"
proof -
  assume n: "n < 2 ^ 64"
  have "hd (show_radix 16 n) \<noteq> CHR ''+''" using show_hex_visible [of n] by (cases "show_radix 16 n") auto
  then show ?thesis using n show_radix_digits [of 16 n] digits_value_show_radix [of 16 n]
    by (cases "show_radix 16 n") (auto simp: parse_hex_def Let_def)
qed

lemma str_split_none: "c \<notin> set s \<Longrightarrow> str_split [c] s = [s]"
  by (induction s) (auto simp: str_split.simps [of _ "[]"] str_split.simps [of _ "_ # _"] starts_with_def)

lemma trim_end_crlf: "list_all visible w \<Longrightarrow> trim_end (w @ http_crlf) = w"
proof (induction w)
  case Nil
  have "ws_len [CHR 0x0A] = 1" by code_simp
  then show ?case by (simp add: trim_end.simps skip_ws.simps)
next
  case (Cons c w)
  then show ?case by (simp add: trim_end.simps [of "c # _"] skip_ws.simps)
qed

lemma chunk_size_text_show: "chunk_size_text (show_radix 16 n @ http_crlf) = show_radix 16 n"
proof -
  have v: "list_all visible (show_radix 16 n)" "CHR '';'' \<notin> set (show_radix 16 n @ http_crlf)"
    using show_hex_visible [of n] by (auto simp: list_all_iff)
  have cr: "CHR 0x0D \<notin> set (show_radix 16 n)"
  proof
    assume "CHR 0x0D \<in> set (show_radix 16 n)"
    then have "visible CHR 0x0D" using v(1) by (auto simp: list_all_iff)
    then show False by (simp add: visible_def)
  qed
  have "plain_word (show_radix 16 n)" using v(1) by (simp add: plain_word_def)
  then have "str_trim (show_radix 16 n @ http_crlf) = show_radix 16 n"
    using v(1) trim_end_crlf by (simp add: str_trim_def)
  moreover have "str_trim_end_matches CHR 0x0D (show_radix 16 n) = show_radix 16 n"
    using cr by (cases "show_radix 16 n" rule: rev_cases) (auto simp: str_trim_end_matches_def)
  ultimately show ?thesis using str_split_none [OF v(2)] by (simp add: chunk_size_text_def)
qed

lemma chunk_line:
  assumes "length bs < 2 ^ 64"
  shows "read_http1_line 4096 (xhttp_chunk bs @ s) = Ok (show_radix 16 (length bs) @ http_crlf, bs @ 13 # 10 # s)"
proof -
  let ?x = "show_radix 16 (length bs)"
  have v: "visible c" if "c \<in> set ?x" for c using show_hex_visible [of "length bs"] that by (auto simp: list_all_iff)
  have ascii: "b < 0x80 \<and> b \<noteq> 10" if mem: "b \<in> set (as_bytes ?x)" for b
  proof -
    obtain c where c: "c \<in> set ?x" "b = of_nat (of_char c)" using mem unfolding as_bytes_def set_map by blast
    have range: "33 \<le> (of_char c :: nat) \<and> (of_char c :: nat) \<le> 126" using v [OF c(1)] by (simp add: visible_def)
    then have "unat b = of_char c" unfolding c(2) by (simp add: unat_of_nat)
    then show ?thesis using range by (auto simp: word_less_nat_alt)
  qed
  have "length ?x \<le> 16" using assms by (intro length_show_radix) simp_all
  then have "read_http1_line 4096 ((as_bytes ?x @ [13]) @ 10 # bs @ 13 # 10 # s)
      = Ok (from_utf8_lossy ((as_bytes ?x @ [13]) @ [10]), bs @ 13 # 10 # s)"
    using ascii by (intro read_http1_line_line) auto
  moreover have "from_utf8_lossy ((as_bytes ?x @ [13]) @ [10]) = ?x @ http_crlf"
  proof -
    have "utf8_valid ((as_bytes ?x @ [13]) @ [10])" using ascii by (intro utf8_valid_ascii) auto
    moreover have "(as_bytes ?x @ [13]) @ [10] = as_bytes (?x @ http_crlf)" by (simp add: as_bytes_def)
    ultimately show ?thesis by (metis from_utf8_lossy_valid text_of_as_bytes)
  qed
  ultimately show ?thesis by (simp add: xhttp_chunk_def as_bytes_def)
qed

lemma drain_chunk:
  assumes "bs \<noteq> []" "drained + length bs \<le> XHTTP_H1_MAX_RESPONSE_DRAIN_BYTES"
  shows "drain_chunked_loop drained (xhttp_chunk bs @ s) = drain_chunked_loop (drained + length bs) s"
proof -
  have n: "length bs < 2 ^ 64" "drained + length bs \<le> 2 ^ 64 - 1" using assms(2) by (simp_all add: XHTTP_H1_MAX_RESPONSE_DRAIN_BYTES_def)
  have "rbind (drain_exact_http_body (length bs) (bs @ 13 # 10 # s)) (read_exact XhttpEof 2) = Ok ([13, 10], s)"
    using assms(2) by (simp add: drain_exact_http_body_def read_exact_def)
  then show ?thesis
    using chunk_line [OF n(1)] parse_hex_show [OF n(1)] assms n(2)
    by (simp add: drain_chunked_loop.simps [of drained "xhttp_chunk bs @ s"] chunk_size_text_show Let_def)
qed

lemma drain_last_chunk: "drain_chunked_loop drained (as_bytes (''0'' @ http_crlf @ http_crlf) @ s) = Ok s"
proof -
  have l: "read_http1_line 4096 (as_bytes (''0'' @ http_crlf @ http_crlf) @ s) = Ok (''0'' @ http_crlf, 13 # 10 # s)"
  proof -
    have "read_http1_line 4096 ([48, 13] @ 10 # 13 # 10 # s) = Ok (from_utf8_lossy ([48, 13] @ [10]), 13 # 10 # s)"
      by (rule read_http1_line_line) simp_all
    moreover have "from_utf8_lossy [48, 13, 10] = ''0'' @ http_crlf" by code_simp
    ultimately show ?thesis by (simp add: as_bytes_def)
  qed
  have t: "read_http1_line 8192 (13 # 10 # s) = Ok (http_crlf, s)"
  proof -
    have "read_http1_line 8192 ([13] @ 10 # s) = Ok (from_utf8_lossy ([13] @ [10]), s)" by (rule read_http1_line_line) simp_all
    moreover have "from_utf8_lossy [13, 10] = http_crlf" by code_simp
    ultimately show ?thesis by simp
  qed
  have "parse_hex (chunk_size_text (''0'' @ http_crlf)) = Some 0" by code_simp
  then show ?thesis using l t by (simp add: drain_chunked_loop.simps drain_trailers.simps)
qed

lemma drain_upload:
  "[] \<notin> set reads \<Longrightarrow> drained + sum_list (map length reads) \<le> XHTTP_H1_MAX_RESPONSE_DRAIN_BYTES
    \<Longrightarrow> drain_chunked_loop drained (xhttp_chunked_upload (reads @ [[]]) @ s) = Ok s"
proof (induction reads arbitrary: drained)
  case Nil
  then show ?case using drain_last_chunk by simp
next
  case (Cons bs reads)
  then show ?case using drain_chunk [of bs drained] by (auto simp: add.assoc)
qed

section \<open>Properties of the posts\<close>

text \<open>
  A reply that keeps the connection open and says where its body ends: none, chunks, or a number of bytes.
\<close>

definition xhttp_reply :: "bytes \<Rightarrow> bytes \<Rightarrow> bool" where
  "xhttp_reply head body \<longleftrightarrow>
    (let h = from_utf8_lossy head
     in head_complete head \<and> length head \<le> 8192 \<and> starts_with h ''HTTP/1.1 2'' \<and> \<not> http_header_contains h ''connection'' ''close''
      \<and> (if http_response_has_no_body h then body = []
         else if http_header_contains h ''transfer-encoding'' ''chunked''
         then \<exists>chunks. body = xhttp_chunked_upload (chunks @ [[]]) \<and> [] \<notin> set chunks
            \<and> sum_list (map length chunks) \<le> XHTTP_H1_MAX_RESPONSE_DRAIN_BYTES
         else http_content_length h = Ok (Some (length body)) \<and> length body \<le> XHTTP_H1_MAX_RESPONSE_DRAIN_BYTES))"

lemma send_post_reply:
  assumes "xhttp_reply head body"
  shows "send_http1_xhttp_post True (head @ body @ s) = Ok (True, s)"
proof -
  let ?h = "from_utf8_lossy head"
  have r: "read_http_response_headers (head @ body @ s) = Ok (?h, body @ s)"
    and open_: "\<not> http_header_contains ?h ''connection'' ''close''"
    using assms by (simp_all add: read_http_response_headers_head xhttp_reply_def Let_def)
  consider "http_response_has_no_body ?h" | "\<not> http_response_has_no_body ?h" "http_header_contains ?h ''transfer-encoding'' ''chunked''"
    | "\<not> http_response_has_no_body ?h" "\<not> http_header_contains ?h ''transfer-encoding'' ''chunked''" by blast
  then have "drain_http1_response_body ?h (body @ s) = Ok (True, s)"
  proof cases
    case 1
    then show ?thesis using assms open_ by (simp add: xhttp_reply_def Let_def drain_http1_response_body_def)
  next
    case 2
    then obtain chunks where c: "body = xhttp_chunked_upload (chunks @ [[]])" "[] \<notin> set chunks"
        "sum_list (map length chunks) \<le> XHTTP_H1_MAX_RESPONSE_DRAIN_BYTES"
      using assms by (auto simp: xhttp_reply_def Let_def)
    then have "drain_http1_chunked_body (body @ s) = Ok s" using drain_upload [of chunks 0 s] by (simp add: drain_http1_chunked_body_def)
    then show ?thesis using 2 open_ by (simp add: drain_http1_response_body_def)
  next
    case 3
    then have "http_content_length ?h = Ok (Some (length body))" "length body \<le> XHTTP_H1_MAX_RESPONSE_DRAIN_BYTES"
      using assms by (simp_all add: xhttp_reply_def Let_def)
    then show ?thesis using 3 open_ by (simp add: drain_http1_response_body_def drain_exact_http_body_def read_exact_def)
  qed
  then show ?thesis using r by (simp add: send_http1_xhttp_post_def)
qed

lemma worker_send_reply:
  assumes "xhttp_reply head body" "xw_stream w = Some (head @ body @ s) \<or> xw_stream w = None \<and> opened = Some (head @ body @ s) \<and> xw_sent w = []"
  shows "xhttp_worker_send opened True n payload w
    = (Ok (), w\<lparr>xw_stream := Some s, xw_sent := xw_sent w @ xhttp_post_request (xw_host w) (xw_path w) (xw_session w) n payload\<rparr>)"
  using assms(2) send_post_reply [OF assms(1), of s] by (auto simp: xhttp_worker_send_def Let_def)

lemma worker_run_replies:
  assumes "\<forall>(head, body) \<in> set replies. xhttp_reply head body" "length posts = length replies"
    and "xw_stream w = Some (concat (map (\<lambda>(head, body). head @ body) replies) @ s)"
  shows "xhttp_worker_run posts opened w = (Ok (), w\<lparr>xw_stream := Some s,
    xw_sent := xw_sent w @ concat (map (\<lambda>(n, payload). xhttp_post_request (xw_host w) (xw_path w) (xw_session w) n payload) posts)\<rparr>)"
  using assms(2,1,3)
proof (induction posts replies arbitrary: w rule: list_induct2)
  case (Cons p posts r replies)
  obtain n payload head body where pr: "p = (n, payload)" "r = (head, body)" by (cases p; cases r)
  then have "xhttp_worker_send (opened n) True n payload w
    = (Ok (), w\<lparr>xw_stream := Some (concat (map (\<lambda>(head, body). head @ body) replies) @ s),
        xw_sent := xw_sent w @ xhttp_post_request (xw_host w) (xw_path w) (xw_session w) n payload\<rparr>)"
    using Cons.prems by (intro worker_send_reply) auto
  then show ?case using Cons pr by simp
qed simp


text \<open>
  A reply without a length that does not close is taken as empty: its body is left on the connection,
  where the worker reads the next reply.
\<close>

theorem xhttp_unsized_reply_left:
  assumes "head_complete head" "length head \<le> 8192" "starts_with (from_utf8_lossy head) ''HTTP/1.1 2''"
    and "http_header_values (from_utf8_lossy head) ''connection'' = []" "http_header_values (from_utf8_lossy head) ''transfer-encoding'' = []"
    and "http_header_values (from_utf8_lossy head) ''content-length'' = []"
  shows "send_http1_xhttp_post True (head @ body @ s) = Ok (True, body @ s)"
  using assms read_http_response_headers_head [OF assms(1-3), of "body @ s"]
  by (simp add: send_http1_xhttp_post_def drain_http1_response_body_def http_header_contains_def http_content_length_def)

text \<open>The download does not take the chunks apart: a chunked reply reaches the local side with its sizes in it.\<close>

theorem xhttp_download_keeps_chunks:
  assumes "head_complete head" "length head \<le> 8192" "starts_with (from_utf8_lossy head) ''HTTP/1.1 2''"
  shows "xhttp_download (head @ xhttp_chunked_upload chunks) = xhttp_chunked_upload chunks"
  by (simp add: xhttp_download_def read_http_response_headers_head [OF assms])

text \<open>A query in the configured path gets the slash that belongs to the path.\<close>

theorem xhttp_slash_in_query: "xhttp_path_with_query ''/up?key=1'' session None = ''/up?key=1/&session='' @ session"
  by (simp add: xhttp_path_with_query_def xhttp_base_path_def starts_with_def ends_with_def)


end
