(* ===== verification/Ss_Carriers.thy ===== *)
theory Ss_Carriers
  imports Ss_Config Poll_Io "HOL-Library.AList" "HOL-Library.Sublist"
begin

text \<open>
  Carriers of the Shadowsocks adapter (\<open>adapter/shadowsocks/transport.rs\<close>): the byte streams over HTTP/2 and
  WebSocket messages, the data frames and the download of an HTTP/2 bridge, the pool of kcptun sessions, and the
  external plugin processes. The packages \<open>h2\<close>, \<open>tungstenite\<close>, \<open>kcp\<close> and \<open>smux\<close> and the operating system are
  scripts of what they answer.
\<close>

section \<open>Streams over messages\<close>

text \<open>What the package gives next: data, its end, a message of another kind, a close, an error, or nothing yet.
  A script that has run out blocks.\<close>

datatype message_event = MessageBlock | MessageFail | MessageEnd | MessageData bytes | MessageClose | MessageOther

definition take_message :: "bytes \<Rightarrow> nat \<Rightarrow> bytes \<times> bytes" where
  "take_message d room = (if length d \<le> room then (d, []) else (take room d, drop room d))"

record h2_transport =
  h2_in :: "message_event list"
  h2_read_buffer :: bytes
  h2_requested_write_capacity :: nat
  h2_closed :: bool
  h2_sent :: "(bytes \<times> bool) list"

definition new_h2_transport :: "message_event list \<Rightarrow> h2_transport" where
  "new_h2_transport es = \<lparr>h2_in = es, h2_read_buffer = [], h2_requested_write_capacity = 0, h2_closed = False, h2_sent = []\<rparr>"

text \<open>HTTP/2 data frames have no other kinds: such an event is not given.\<close>

definition h2_poll_read :: "nat \<Rightarrow> h2_transport \<Rightarrow> bytes poll \<times> h2_transport" where
  "h2_poll_read room st =
    (case drain_buffer (h2_read_buffer st) room of
       Some (out, rest) \<Rightarrow> (Ready out, st\<lparr>h2_read_buffer := rest\<rparr>)
     | None \<Rightarrow>
         (case h2_in st of
            MessageData d # es \<Rightarrow>
              (case take_message d room of (out, rest) \<Rightarrow>
                (Ready out, st\<lparr>h2_in := es, h2_read_buffer := h2_read_buffer st @ rest\<rparr>))
          | MessageFail # es \<Rightarrow> (Fault TransportError, st\<lparr>h2_in := es\<rparr>)
          | MessageEnd # es \<Rightarrow> (Ready [], st)
          | MessageBlock # es \<Rightarrow> (Pending, st\<lparr>h2_in := es\<rparr>)
          | _ \<Rightarrow> (Pending, st)))"

definition H2_MAX_DATA_FRAME :: nat where
  "H2_MAX_DATA_FRAME = 16 * 1024"

text \<open>The answer of \<open>poll_capacity\<close>: not ready, a capacity, an error, or that the stream is closed. \<open>sent\<close> says whether
  the package takes the frame.\<close>

datatype capacity = CapacityBlock | Capacity nat | CapacityFail | CapacityClosed

definition h2_poll_write :: "capacity \<Rightarrow> bool \<Rightarrow> bytes \<Rightarrow> h2_transport \<Rightarrow> nat poll \<times> h2_transport" where
  "h2_poll_write cap sent buf st =
    (if h2_closed st then (Fault TransportError, st)
     else if buf = [] then (Ready 0, st)
     else
       let requested = min (length buf) H2_MAX_DATA_FRAME;
           st = (if h2_requested_write_capacity st = 0 then st\<lparr>h2_requested_write_capacity := requested\<rparr> else st)
       in case cap of
            CapacityBlock \<Rightarrow> (Pending, st)
          | CapacityFail \<Rightarrow> (Fault TransportError, st\<lparr>h2_requested_write_capacity := 0\<rparr>)
          | CapacityClosed \<Rightarrow> (Fault TransportError, st\<lparr>h2_requested_write_capacity := 0\<rparr>)
          | Capacity c \<Rightarrow>
              (if c = 0 then (Pending, st\<lparr>h2_requested_write_capacity := requested\<rparr>)
               else
                 let n = min requested c; st = st\<lparr>h2_requested_write_capacity := 0\<rparr>
                 in if sent then (Ready n, st\<lparr>h2_sent := h2_sent st @ [(take n buf, False)]\<rparr>)
                    else (Fault TransportError, st)))"

definition h2_poll_shutdown :: "bool \<Rightarrow> h2_transport \<Rightarrow> unit poll \<times> h2_transport" where
  "h2_poll_shutdown sent st =
    (if h2_closed st then (Ready (), st)
     else let st = st\<lparr>h2_closed := True\<rparr>
       in if sent then (Ready (), st\<lparr>h2_sent := h2_sent st @ [([], True)]\<rparr>) else (Fault TransportError, st))"

text \<open>The WebSocket: messages of other kinds are passed over. What was sent and what was flushed are the messages.\<close>

record ws_transport =
  ws_in :: "message_event list"
  ws_read_buffer :: bytes
  ws_pending_flush :: bool
  ws_sent :: "bytes list"

definition new_ws_transport :: "message_event list \<Rightarrow> ws_transport" where
  "new_ws_transport es = \<lparr>ws_in = es, ws_read_buffer = [], ws_pending_flush = False, ws_sent = []\<rparr>"

fun ws_next :: "nat \<Rightarrow> message_event list \<Rightarrow> bytes poll \<times> message_event list \<times> bytes" where
  "ws_next room [] = (Pending, [], [])"
| "ws_next room (e # es) =
    (case e of
       MessageData d \<Rightarrow> (case take_message d room of (out, rest) \<Rightarrow> (Ready out, es, rest))
     | MessageOther \<Rightarrow> ws_next room es
     | MessageClose \<Rightarrow> (Ready [], es, [])
     | MessageFail \<Rightarrow> (Fault TransportError, es, [])
     | MessageEnd \<Rightarrow> (Ready [], e # es, [])
     | MessageBlock \<Rightarrow> (Pending, es, []))"

definition ws_poll_read :: "nat \<Rightarrow> ws_transport \<Rightarrow> bytes poll \<times> ws_transport" where
  "ws_poll_read room st =
    (case drain_buffer (ws_read_buffer st) room of
       Some (out, rest) \<Rightarrow> (Ready out, st\<lparr>ws_read_buffer := rest\<rparr>)
     | None \<Rightarrow>
         (case ws_next room (ws_in st) of
            (r, es, rest) \<Rightarrow> (r, st\<lparr>ws_in := es, ws_read_buffer := ws_read_buffer st @ rest\<rparr>)))"

text \<open>The arguments are what \<open>poll_flush\<close> and \<open>poll_ready\<close> of the package answer, and whether it takes the message.\<close>

definition ws_poll_flush :: "unit poll \<Rightarrow> ws_transport \<Rightarrow> unit poll \<times> ws_transport" where
  "ws_poll_flush flushed st =
    (case flushed of
       Pending \<Rightarrow> (Pending, st)
     | Fault e \<Rightarrow> (Fault TransportError, st)
     | Ready u \<Rightarrow> (Ready (), st\<lparr>ws_pending_flush := False\<rparr>))"

definition ws_poll_write :: "unit poll \<Rightarrow> unit poll \<Rightarrow> bool \<Rightarrow> bytes \<Rightarrow> ws_transport \<Rightarrow> nat poll \<times> ws_transport" where
  "ws_poll_write flushed ready sent buf st =
    (case (if ws_pending_flush st then ws_poll_flush flushed st else (Ready (), st)) of
       (Pending, st) \<Rightarrow> (Pending, st)
     | (Fault e, st) \<Rightarrow> (Fault e, st)
     | (Ready _, st) \<Rightarrow>
         (case ready of
            Pending \<Rightarrow> (Pending, st)
          | Fault e \<Rightarrow> (Fault TransportError, st)
          | Ready _ \<Rightarrow>
              (if sent then (Ready (length buf), st\<lparr>ws_sent := ws_sent st @ [buf], ws_pending_flush := True\<rparr>)
               else (Fault TransportError, st))))"

section \<open>Data frames of a bridge\<close>

fun h2_reserved_capacity :: "nat \<Rightarrow> capacity list \<Rightarrow> (unit, nat) res option \<times> capacity list" where
  "h2_reserved_capacity requested [] = (None, [])"
| "h2_reserved_capacity requested (c # cs) =
    (case c of
       Capacity n \<Rightarrow> (if n = 0 then h2_reserved_capacity requested cs else (Some (Ok (min n requested)), cs))
     | CapacityBlock \<Rightarrow> h2_reserved_capacity requested cs
     | CapacityFail \<Rightarrow> (Some (Err ()), cs)
     | CapacityClosed \<Rightarrow> (Some (Err ()), cs))"

lemma h2_reserved_pos: "h2_reserved_capacity requested cs = (Some (Ok n), cs') \<Longrightarrow> 0 < requested \<Longrightarrow> 0 < n \<and> n \<le> requested"
  by (induction requested cs rule: h2_reserved_capacity.induct) (auto split: capacity.splits if_splits)

text \<open>The frames that are sent, whether all of the payload was, and the answers that are left.\<close>

function h2_send_loop :: "bytes \<Rightarrow> bool \<Rightarrow> capacity list \<Rightarrow> (bytes \<times> bool) list \<times> bool \<times> capacity list" where
  "h2_send_loop payload end_of_stream cs =
    (if payload = [] then ([], True, cs)
     else case h2_reserved_capacity (min (length payload) H2_MAX_DATA_FRAME) cs of
         (Some (Inr n), cs) \<Rightarrow>
           (let frame = take n payload; payload = drop n payload
            in case h2_send_loop payload end_of_stream cs of
                 (frames, done, cs) \<Rightarrow> ((frame, end_of_stream \<and> payload = []) # frames, done, cs))
       | (_, cs) \<Rightarrow> ([], False, cs))"
  by pat_completeness auto
termination
  by (relation "measure (\<lambda>(payload, e, cs). length payload)")
    (auto dest!: h2_reserved_pos [OF sym] simp: H2_MAX_DATA_FRAME_def)

declare h2_send_loop.simps [simp del]

definition send_h2_data_frames :: "bytes \<Rightarrow> bool \<Rightarrow> capacity list \<Rightarrow> (bytes \<times> bool) list \<times> bool \<times> capacity list" where
  "send_h2_data_frames payload end_of_stream cs =
    (if payload = [] then ([([], end_of_stream)], True, cs) else h2_send_loop payload end_of_stream cs)"

section \<open>The download of a bridge\<close>

text \<open>
  What the download task of an HTTP/2 bridge waits for: a change of the channel on which the upload reports its
  failure (with its value, or that the upload task has ended), the response, the body.
\<close>

datatype h2_event =
    UploadReported bool
  | UploadEnded
  | ResponseArrived bool
  | ResponseFailed
  | BodyChunk bytes bool
  | BodyEnded

datatype h2_phase = AwaitingResponse | ReadingBody | DownloadShut

fun h2_download_step :: "h2_phase \<times> bytes \<Rightarrow> h2_event \<Rightarrow> h2_phase \<times> bytes" where
  "h2_download_step (AwaitingResponse, out) e =
    (case e of
       UploadReported v \<Rightarrow> (DownloadShut, out)
     | UploadEnded \<Rightarrow> (DownloadShut, out)
     | ResponseArrived success \<Rightarrow> (if success then ReadingBody else DownloadShut, out)
     | ResponseFailed \<Rightarrow> (DownloadShut, out)
     | _ \<Rightarrow> (AwaitingResponse, out))"
| "h2_download_step (ReadingBody, out) e =
    (case e of
       UploadReported v \<Rightarrow> (if v then DownloadShut else ReadingBody, out)
     | BodyChunk d written \<Rightarrow> (if written then (ReadingBody, out @ d) else (DownloadShut, out))
     | BodyEnded \<Rightarrow> (DownloadShut, out)
     | _ \<Rightarrow> (ReadingBody, out))"
| "h2_download_step (DownloadShut, out) e = (DownloadShut, out)"

definition h2_download :: "h2_event list \<Rightarrow> h2_phase \<times> bytes" where
  "h2_download es = foldl h2_download_step (AwaitingResponse, []) es"

section \<open>The pool of kcptun sessions\<close>

text \<open>A session is a number; \<open>closed\<close> says which ones are. Times are in seconds.\<close>

record kcptun_slot =
  ks_session :: nat
  ks_expires_at :: "nat option"
  ks_scavenge_after :: "nat option"

definition new_kcptun_slot :: "nat \<Rightarrow> nat \<Rightarrow> kcptun_config \<Rightarrow> kcptun_slot" where
  "new_kcptun_slot now session cfg =
    (let expires = (if 0 < kc_auto_expire cfg then Some (now + kc_auto_expire cfg) else None)
     in \<lparr>ks_session = session, ks_expires_at = expires,
         ks_scavenge_after = map_option (\<lambda>e. e + max 1 (kc_scavenge_ttl cfg)) expires\<rparr>)"

definition slot_reusable :: "(nat \<Rightarrow> bool) \<Rightarrow> nat \<Rightarrow> kcptun_slot \<Rightarrow> bool" where
  "slot_reusable closed now slot \<longleftrightarrow> \<not> closed (ks_session slot)
    \<and> (case ks_expires_at slot of None \<Rightarrow> True | Some expires \<Rightarrow> now < expires)"

definition slot_should_scavenge :: "(nat \<Rightarrow> bool) \<Rightarrow> nat \<Rightarrow> kcptun_slot \<Rightarrow> bool" where
  "slot_should_scavenge closed now slot \<longleftrightarrow> closed (ks_session slot)
    \<or> (case ks_scavenge_after slot of None \<Rightarrow> False | Some t \<Rightarrow> t \<le> now)"

record kcptun_pool =
  kp_sessions :: "kcptun_slot option list"
  kp_rr :: u64
  kp_last_used :: nat

definition new_kcptun_pool :: "nat \<Rightarrow> nat \<Rightarrow> kcptun_pool" where
  "new_kcptun_pool now n = \<lparr>kp_sessions = replicate n None, kp_rr = 0, kp_last_used = now\<rparr>"

definition kcptun_scavenge :: "(nat \<Rightarrow> bool) \<Rightarrow> nat \<Rightarrow> kcptun_pool \<Rightarrow> kcptun_pool" where
  "kcptun_scavenge closed now p =
    p\<lparr>kp_last_used := now,
      kp_sessions := map (\<lambda>s. case s of Some slot \<Rightarrow> if slot_should_scavenge closed now slot then None else s | None \<Rightarrow> s) (kp_sessions p)\<rparr>"

definition session_at :: "(nat \<Rightarrow> bool) \<Rightarrow> nat \<Rightarrow> nat \<Rightarrow> kcptun_pool \<Rightarrow> nat option" where
  "session_at closed i now p =
    (case (if i < length (kp_sessions p) then kp_sessions p ! i else None) of
       Some slot \<Rightarrow> (if slot_reusable closed now slot then Some (ks_session slot) else None)
     | None \<Rightarrow> None)"

type_synonym kcptun_pools = "(string \<times> kcptun_pool) list"

definition kcptun_retain :: "(nat \<Rightarrow> bool) \<Rightarrow> nat \<Rightarrow> kcptun_config \<Rightarrow> kcptun_pools \<Rightarrow> kcptun_pools" where
  "kcptun_retain closed now cfg pools =
    filter (\<lambda>(k, p). list_ex (\<lambda>s. s \<noteq> None) (kp_sessions p) \<or> now - kp_last_used p < max 1 (kc_scavenge_ttl cfg))
      (map (\<lambda>(k, p). (k, kcptun_scavenge closed now p)) pools)"

definition kcptun_entry :: "nat \<Rightarrow> string \<Rightarrow> kcptun_config \<Rightarrow> kcptun_pools \<Rightarrow> kcptun_pool" where
  "kcptun_entry now key cfg pools =
    (let p = (case map_of pools key of Some p \<Rightarrow> p | None \<Rightarrow> new_kcptun_pool now (kc_conn cfg))
     in if length (kp_sessions p) \<noteq> kc_conn cfg then new_kcptun_pool now (kc_conn cfg) else p)"

datatype kcptun_error = KcptunNotCreated | KcptunNotOpened

text \<open>The slot that is the next in turn, with its session if it can be used. Without slots the remainder panics.\<close>

definition kcptun_pick :: "(nat \<Rightarrow> bool) \<Rightarrow> nat \<Rightarrow> string \<Rightarrow> kcptun_config \<Rightarrow> kcptun_pools
    \<Rightarrow> (kcptun_error, nat \<times> nat option) res \<times> kcptun_pools" where
  "kcptun_pick closed now key cfg pools =
    (let pools = kcptun_retain closed now cfg pools;
         p = kcptun_scavenge closed now (kcptun_entry now key cfg pools)
     in if length (kp_sessions p) = 0 then (Inl Panic, AList.update key p pools)
        else
          let i = unat (kp_rr p) mod length (kp_sessions p); p = p\<lparr>kp_rr := kp_rr p + 1\<rparr>
          in (Ok (i, session_at closed i now p), AList.update key p pools))"

definition kcptun_session_from_pool :: "(nat \<Rightarrow> bool) \<Rightarrow> nat \<Rightarrow> string \<Rightarrow> nat \<Rightarrow> kcptun_config \<Rightarrow> kcptun_pools
    \<Rightarrow> nat option \<times> kcptun_pools" where
  "kcptun_session_from_pool closed now key i cfg pools =
    (case map_of pools key of
       None \<Rightarrow> (None, pools)
     | Some p \<Rightarrow>
         (if length (kp_sessions p) \<noteq> kc_conn cfg then (None, pools)
          else let p = kcptun_scavenge closed now p in (session_at closed i now p, AList.update key p pools)))"

definition kcptun_store :: "nat \<Rightarrow> string \<Rightarrow> nat \<Rightarrow> nat \<Rightarrow> kcptun_config \<Rightarrow> kcptun_pools \<Rightarrow> kcptun_pools" where
  "kcptun_store now key i session cfg pools =
    (let p = kcptun_entry now key cfg pools
     in AList.update key (p\<lparr>kp_sessions := (kp_sessions p)[i := Some (new_kcptun_slot now session cfg)]\<rparr>) pools)"

definition kcptun_replace :: "nat \<Rightarrow> string \<Rightarrow> nat \<Rightarrow> nat \<Rightarrow> kcptun_config \<Rightarrow> kcptun_pools \<Rightarrow> kcptun_pools" where
  "kcptun_replace now key i session cfg pools =
    (let p = (case map_of pools key of Some p \<Rightarrow> p | None \<Rightarrow> new_kcptun_pool now (kc_conn cfg));
         p = (if length (kp_sessions p) = kc_conn cfg
              then p\<lparr>kp_sessions := (kp_sessions p)[i := Some (new_kcptun_slot now session cfg)]\<rparr> else p)
     in AList.update key p pools)"

text \<open>
  A stream: on the session of the slot, or on one that is created for it; if that gives no stream, on a second
  new one. \<open>created\<close> and \<open>again\<close> are the new sessions, \<open>opens\<close> says which sessions give a stream.
\<close>

definition open_kcptun_stream :: "(nat \<Rightarrow> bool) \<Rightarrow> nat \<Rightarrow> string \<Rightarrow> kcptun_config \<Rightarrow> nat option \<Rightarrow> (nat \<Rightarrow> bool) \<Rightarrow> nat option
    \<Rightarrow> kcptun_pools \<Rightarrow> (kcptun_error, nat) res \<times> kcptun_pools" where
  "open_kcptun_stream closed now key cfg created opens again pools =
    (case kcptun_pick closed now key cfg pools of
       (Inl e, pools) \<Rightarrow> (Inl e, pools)
     | (Inr (i, session), pools) \<Rightarrow>
         (let found = (case session of
               Some s \<Rightarrow> (Some s, pools)
             | None \<Rightarrow>
                 (case kcptun_session_from_pool closed now key i cfg pools of
                    (Some s, pools) \<Rightarrow> (Some s, pools)
                  | (None, pools) \<Rightarrow>
                      (case created of
                         None \<Rightarrow> (None, pools)
                       | Some s \<Rightarrow> (Some s, kcptun_store now key i s cfg pools))))
          in case found of
               (None, pools) \<Rightarrow> (Err KcptunNotCreated, pools)
             | (Some s, pools) \<Rightarrow>
                 (if opens s then (Ok s, pools)
                  else case again of
                      None \<Rightarrow> (Err KcptunNotCreated, pools)
                    | Some s' \<Rightarrow>
                        (let pools = kcptun_replace now key i s' cfg pools
                         in (if opens s' then Ok s' else Err KcptunNotOpened, pools)))))"

section \<open>External plugins\<close>

text \<open>The last lines of a plugin's output.\<close>

function trim_newlines :: "string \<Rightarrow> string" where
  "trim_newlines s =
    (if s \<noteq> [] \<and> (last s = CHR 0x0A \<or> last s = CHR 0x0D) then trim_newlines (butlast s) else s)"
  by pat_completeness auto
termination by (relation "measure length") auto

declare trim_newlines.simps [simp del]

definition diagnostics_push :: "string \<Rightarrow> string \<Rightarrow> string list \<Rightarrow> string list" where
  "diagnostics_push source message lines =
    (let message = trim_newlines message
     in if message = [] then lines
        else (if 32 \<le> length lines then tl lines else lines) @ [source @ '': '' @ message])"

definition diagnostics_snapshot :: "string list \<Rightarrow> string" where
  "diagnostics_snapshot lines = str_join '' | '' lines"

text \<open>
  The ports that plugins are being started on. \<open>binds\<close> are the ports that the system gives to the attempts (none:
  binding failed).
\<close>

datatype sip003_error = Sip003NoPort | Sip003BindFailed | Sip003NotStarted | Sip003NoListener | Sip003NotAccepted

fun reserve_sip003_port :: "nat \<Rightarrow> u16 option list \<Rightarrow> u16 set \<Rightarrow> (sip003_error, u16) res \<times> u16 set" where
  "reserve_sip003_port 0 binds ports = (Err Sip003NoPort, ports)"
| "reserve_sip003_port (Suc k) [] ports = (Err Sip003BindFailed, ports)"
| "reserve_sip003_port (Suc k) (b # binds) ports =
    (case b of
       None \<Rightarrow> (Err Sip003BindFailed, ports)
     | Some p \<Rightarrow> (if p \<in> ports then reserve_sip003_port k binds ports else (Ok p, insert p ports)))"

definition release_sip003_port :: "u16 \<Rightarrow> u16 set \<Rightarrow> u16 set" where
  "release_sip003_port p ports = ports - {p}"

text \<open>One attempt: the ports, whether the process starts, and at each probe whether it runs and accepts.\<close>

record sip003_attempt =
  sa_binds :: "u16 option list"
  sa_spawned :: bool
  sa_probe :: "nat \<Rightarrow> bool \<times> bool"

fun sip003_probe :: "nat \<Rightarrow> nat \<Rightarrow> (nat \<Rightarrow> bool \<times> bool) \<Rightarrow> bool" where
  "sip003_probe 0 i probe = False"
| "sip003_probe (Suc k) i probe = (case probe i of (running, connects) \<Rightarrow>
    (if \<not> running then False else if connects then True else sip003_probe k (Suc i) probe))"

text \<open>The port of the process that was started.\<close>

fun start_sip003_process :: "nat \<Rightarrow> sip003_attempt list \<Rightarrow> u16 set \<Rightarrow> (sip003_error, u16) res \<times> u16 set" where
  "start_sip003_process 0 attempts ports = (Err Sip003NoListener, ports)"
| "start_sip003_process (Suc k) [] ports = (Err Sip003NoListener, ports)"
| "start_sip003_process (Suc k) (a # attempts) ports =
    (case reserve_sip003_port 32 (sa_binds a) ports of
       (Inl e, ports) \<Rightarrow> (Inl e, ports)
     | (Inr p, ports) \<Rightarrow>
         (if \<not> sa_spawned a then (Err Sip003NotStarted, release_sip003_port p ports)
          else if sip003_probe 50 0 (sa_probe a) then (Ok p, release_sip003_port p ports)
          else start_sip003_process k attempts (release_sip003_port p ports)))"

text \<open>
  The processes by the key of the configuration; which ones run, are in use, have been idle, and accept a
  connection are arguments, as are the results of starting a new one.
\<close>

definition sip003_retain :: "(nat \<Rightarrow> bool) \<Rightarrow> (nat \<Rightarrow> bool) \<Rightarrow> (nat \<Rightarrow> bool) \<Rightarrow> (string \<times> nat) list \<Rightarrow> (string \<times> nat) list" where
  "sip003_retain running in_use idle pool = filter (\<lambda>(k, p). running p \<and> \<not> (\<not> in_use p \<and> idle p)) pool"

fun open_sip003_stream :: "nat \<Rightarrow> (nat \<Rightarrow> bool) \<Rightarrow> (nat \<Rightarrow> bool) \<Rightarrow> (nat \<Rightarrow> bool) \<Rightarrow> (nat \<Rightarrow> bool) \<Rightarrow> (sip003_error, nat) res list
    \<Rightarrow> string \<Rightarrow> (string \<times> nat) list \<Rightarrow> (sip003_error, nat) res \<times> (string \<times> nat) list" where
  "open_sip003_stream 0 running in_use idle connects started key pool = (Err Sip003NotAccepted, pool)"
| "open_sip003_stream (Suc k) running in_use idle connects started key pool =
    (let pool = sip003_retain running in_use idle pool;
         found = (case map_of pool key of
             Some p \<Rightarrow> (Ok p, pool, started)
           | None \<Rightarrow>
               (case started of
                  [] \<Rightarrow> (Err Sip003NotStarted, pool, [])
                | Inl e # started \<Rightarrow> (Inl e, pool, started)
                | Inr p # started \<Rightarrow> (Ok p, AList.update key p pool, started)))
     in case found of
          (Inl e, pool, started) \<Rightarrow> (Inl e, pool)
        | (Inr p, pool, started) \<Rightarrow>
            (if connects p then (Ok p, pool)
             else open_sip003_stream k running in_use idle connects started key (AList.delete key pool)))"

section \<open>Reading and framing\<close>

text \<open>The bytes that a script of messages carries.\<close>

definition message_bytes :: "message_event list \<Rightarrow> bytes" where
  "message_bytes es = concat (map (\<lambda>e. case e of MessageData d \<Rightarrow> d | _ \<Rightarrow> []) es)"

definition h2_unread :: "h2_transport \<Rightarrow> bytes" where
  "h2_unread st = h2_read_buffer st @ message_bytes (h2_in st)"

definition ws_unread :: "ws_transport \<Rightarrow> bytes" where
  "ws_unread st = ws_read_buffer st @ message_bytes (ws_in st)"

lemma take_message_split: "take_message d room = (a, b) \<Longrightarrow> d = a @ b \<and> length a \<le> room \<and> (d \<noteq> [] \<longrightarrow> 0 < room \<longrightarrow> a \<noteq> [])"
  by (auto simp: take_message_def split: if_splits)

lemma message_bytes_simps [simp]:
  "message_bytes [] = []" "message_bytes (e # es) = (case e of MessageData d \<Rightarrow> d | _ \<Rightarrow> []) @ message_bytes es"
  by (simp_all add: message_bytes_def)

text \<open>A stream from which a poll takes the next bytes that it has not given yet.\<close>

locale message_stream =
  fixes poll :: "nat \<Rightarrow> 's \<Rightarrow> bytes poll \<times> 's"
    and unread :: "'s \<Rightarrow> bytes"
  assumes poll_takes: "poll room st = (r, st') \<Longrightarrow> 0 < room \<Longrightarrow> unread st = poll_data r @ unread st' \<and> length (poll_data r) \<le> room"
begin

lemma polls_take:
  "read_polls poll rooms st = (xs, st') \<Longrightarrow> \<forall>r \<in> set rooms. 0 < r \<Longrightarrow> unread st = got xs @ unread st'"
proof (induction rooms arbitrary: st xs)
  case (Cons room rooms)
  obtain x st1 where 1: "poll room st = (x, st1)" by fastforce
  obtain ys where 2: "read_polls poll rooms st1 = (ys, st')" "xs = x # ys" using Cons.prems 1 by (auto split: prod.splits)
  show ?case using Cons.IH [OF 2(1)] Cons.prems(2) poll_takes [OF 1] 2(2) by simp
qed simp

end

lemma h2_poll_read_keeps:
  assumes "h2_poll_read room st = (r, st')" "0 < room"
  shows "h2_unread st = poll_data r @ h2_unread st' \<and> length (poll_data r) \<le> room \<and> set (h2_in st') \<subseteq> set (h2_in st)
    \<and> (MessageData [] \<notin> set (h2_in st) \<longrightarrow> r = Ready [] \<longrightarrow> h2_read_buffer st = [] \<and> (\<exists>es. h2_in st = MessageEnd # es))"
proof (cases "h2_read_buffer st = []")
  case False
  then show ?thesis using assms by (auto simp: h2_poll_read_def drain_buffer_def h2_unread_def)
next
  case empty: True
  show ?thesis
  proof (cases "h2_in st")
    case Nil
    then show ?thesis using assms empty by (auto simp: h2_poll_read_def drain_buffer_def)
  next
    case (Cons e es)
    show ?thesis
    proof (cases e)
      case (MessageData d)
      obtain a b where t: "take_message d room = (a, b)" by fastforce
      then have "r = Ready a" "st' = st\<lparr>h2_in := es, h2_read_buffer := b\<rparr>"
        using assms empty Cons MessageData by (simp_all add: h2_poll_read_def drain_buffer_def)
      moreover have "d = a @ b" "length a \<le> room" "d \<noteq> [] \<longrightarrow> a \<noteq> []" using take_message_split [OF t] assms(2) by blast+
      ultimately show ?thesis using empty Cons MessageData by (cases "a = []") (auto simp: h2_unread_def simp del: append_eq_append_conv)
    qed (use assms empty Cons in \<open>auto simp: h2_poll_read_def drain_buffer_def h2_unread_def\<close>)
  qed
qed

lemma ws_next_keeps:
  "ws_next room es = (r, es', rest) \<Longrightarrow> 0 < room \<Longrightarrow> message_bytes es = poll_data r @ rest @ message_bytes es'
    \<and> length (poll_data r) \<le> room \<and> set es' \<subseteq> set es
    \<and> (MessageData [] \<notin> set es \<longrightarrow> r = Ready [] \<longrightarrow> MessageEnd \<in> set es \<or> MessageClose \<in> set es)"
proof (induction room es rule: ws_next.induct)
  case (2 room e es)
  show ?case
  proof (cases e)
    case (MessageData d)
    obtain a b where t: "take_message d room = (a, b)" by fastforce
    then have "r = Ready a" "es' = es" "rest = b" using 2 MessageData by simp_all
    moreover have "d = a @ b" "length a \<le> room" "d \<noteq> [] \<longrightarrow> a \<noteq> []" using take_message_split [OF t] 2(3) by blast+
    ultimately show ?thesis using MessageData by (cases "a = []") auto
  next
    case MessageOther
    then show ?thesis using 2 by auto
  qed (use 2 in \<open>auto\<close>)
qed simp

lemma ws_poll_read_keeps:
  assumes "ws_poll_read room st = (r, st')" "0 < room"
  shows "ws_unread st = poll_data r @ ws_unread st' \<and> length (poll_data r) \<le> room \<and> set (ws_in st') \<subseteq> set (ws_in st)
    \<and> (MessageData [] \<notin> set (ws_in st) \<longrightarrow> r = Ready [] \<longrightarrow> ws_read_buffer st = [] \<and> (MessageEnd \<in> set (ws_in st) \<or> MessageClose \<in> set (ws_in st)))"
proof (cases "ws_read_buffer st = []")
  case False
  then show ?thesis using assms by (auto simp: ws_poll_read_def drain_buffer_def ws_unread_def)
next
  case True
  obtain es rest where n: "ws_next room (ws_in st) = (r, es, rest)" "st' = st\<lparr>ws_in := es, ws_read_buffer := rest\<rparr>"
    using assms True by (auto simp: ws_poll_read_def drain_buffer_def split: prod.splits)
  show ?thesis using ws_next_keeps [OF n(1) assms(2)] n(2) True by (simp add: ws_unread_def)
qed

interpretation h2_carrier: message_stream h2_poll_read h2_unread
  by unfold_locales (use h2_poll_read_keeps in blast)

interpretation ws_carrier: message_stream ws_poll_read ws_unread
  by unfold_locales (use ws_poll_read_keeps in blast)

lemma h2_send_loop_frames:
  "h2_send_loop payload e cs = (frames, fin, cs') \<Longrightarrow> (fin \<longrightarrow> concat (map fst frames) = payload)
    \<and> prefix (concat (map fst frames)) payload
    \<and> (\<forall>(f, end_flag) \<in> set frames. f \<noteq> [] \<and> length f \<le> H2_MAX_DATA_FRAME)
    \<and> (fin \<and> payload \<noteq> [] \<longrightarrow> frames \<noteq> [] \<and> map snd frames = replicate (length frames - 1) False @ [e])
    \<and> (\<not> fin \<longrightarrow> (\<forall>(f, end_flag) \<in> set frames. \<not> end_flag))"
proof (induction payload e cs arbitrary: frames fin cs' rule: h2_send_loop.induct)
  case (1 payload e cs)
  show ?case
  proof (cases "payload = []")
    case True
    then show ?thesis using 1(2) by (simp add: h2_send_loop.simps)
  next
    case False
    let ?req = "min (length payload) H2_MAX_DATA_FRAME"
    obtain r cs1 where r: "h2_reserved_capacity ?req cs = (r, cs1)" by fastforce
    show ?thesis
    proof (cases "\<exists>n. r = Some (Ok n)")
      case no: False
      then show ?thesis using 1(2) False r
        by (simp add: h2_send_loop.simps [of payload] split: option.splits sum.splits)
    next
      case True
      then obtain n where n: "r = Some (Ok n)" by blast
      have "0 < ?req" using False by (simp add: H2_MAX_DATA_FRAME_def)
      then have le: "0 < n \<and> n \<le> ?req" using h2_reserved_pos [of ?req cs n cs1] r n by simp
      obtain fs d cs2 where l: "h2_send_loop (drop n payload) e cs1 = (fs, d, cs2)" by (metis prod_cases3)
      have e: "frames = (take n payload, e \<and> drop n payload = []) # fs" "fin = d"
        using 1(2) False r n l by (simp_all add: h2_send_loop.simps [of payload])
      have IH: "(d \<longrightarrow> concat (map fst fs) = drop n payload) \<and> prefix (concat (map fst fs)) (drop n payload)
          \<and> (\<forall>(f, end_flag) \<in> set fs. f \<noteq> [] \<and> length f \<le> H2_MAX_DATA_FRAME)
          \<and> (d \<and> drop n payload \<noteq> [] \<longrightarrow> fs \<noteq> [] \<and> map snd fs = replicate (length fs - 1) False @ [e])
          \<and> (\<not> d \<longrightarrow> (\<forall>(f, end_flag) \<in> set fs. \<not> end_flag))"
        using 1(1) [OF False r [symmetric] n refl refl refl, of fs d cs2] l by simp
      show ?thesis
      proof (cases "drop n payload = []")
        case True
        then have "fs = []" "d" using l by (simp_all add: h2_send_loop.simps)
        then show ?thesis using e True le False by auto
      next
        case rest: False
        have "prefix (take n payload @ concat (map fst fs)) payload"
          using IH by (metis append_take_drop_id same_prefix_prefix)
        then show ?thesis using e IH rest le False by (cases fs) (auto simp: not_le)
      qed
    qed
  qed
qed

section \<open>Properties\<close>

text \<open>
  C31: the message streams read in order. However the messages are cut by the buffers of the caller, what the reads
  of an HTTP/2 stream or of a WebSocket have given, with what the stream still holds, is the data of the messages;
  and where no message is empty, a read of no bytes is the end of the messages or a close.
\<close>

theorem carriers_read_in_order:
  assumes "\<forall>r \<in> set rooms. 0 < r" "read_polls h2_poll_read rooms (new_h2_transport es) = (xs, st)"
    and "read_polls ws_poll_read rooms (new_ws_transport es) = (ys, wst)"
  shows "message_bytes es = got xs @ h2_unread st \<and> message_bytes es = got ys @ ws_unread wst
    \<and> (0 < room \<and> MessageData [] \<notin> set (h2_in st) \<and> fst (h2_poll_read room st) = Ready [] \<longrightarrow> (\<exists>rest. h2_in st = MessageEnd # rest) \<and> h2_read_buffer st = [])
    \<and> (0 < room \<and> MessageData [] \<notin> set (ws_in wst) \<and> fst (ws_poll_read room wst) = Ready [] \<longrightarrow> MessageEnd \<in> set (ws_in wst) \<or> MessageClose \<in> set (ws_in wst))"
proof -
  have "message_bytes es = got xs @ h2_unread st" "message_bytes es = got ys @ ws_unread wst"
    using h2_carrier.polls_take [OF assms(2,1)] ws_carrier.polls_take [OF assms(3,1)]
    by (simp_all add: h2_unread_def ws_unread_def new_h2_transport_def new_ws_transport_def)
  then show ?thesis
    using h2_poll_read_keeps [of room st "fst (h2_poll_read room st)" "snd (h2_poll_read room st)"]
      ws_poll_read_keeps [of room wst "fst (ws_poll_read room wst)" "snd (ws_poll_read room wst)"] by auto
qed

theorem carriers_read_in_order_witness:
  "let es = [MessageData [1, 2, 3], MessageOther, MessageBlock, MessageData [4], MessageEnd];
       (ys, wst) = read_polls ws_poll_read [2, 2, 2, 2] (new_ws_transport es)
   in got ys = [1, 2, 3, 4] \<and> got ys @ ws_unread wst = [1, 2, 3, 4]"
proof -
  let ?es = "[MessageData [1, 2, 3], MessageOther, MessageBlock, MessageData [4], MessageEnd]"
  obtain xs st where x: "read_polls h2_poll_read [2, 2, 2, 2] (new_h2_transport ?es) = (xs, st)" by fastforce
  obtain ys wst where y: "read_polls ws_poll_read [2, 2, 2, 2] (new_ws_transport ?es) = (ys, wst)" by fastforce
  have "got (fst (read_polls ws_poll_read [2, 2, 2, 2] (new_ws_transport ?es))) = [1, 2, 3, 4]" by code_simp
  then have g: "got ys = [1, 2, 3, 4]" unfolding y by (simp only: fst_conv)
  have "message_bytes ?es = got ys @ ws_unread wst" by (rule conjunct1 [OF conjunct2 [OF carriers_read_in_order [OF _ x y]]]) simp
  then show ?thesis unfolding Let_def y prod.case g by simp
qed

text \<open>
  An empty message is not the end, but reads as one: the caller gets no bytes, though data follows.
\<close>

theorem empty_message_reads_as_end:
  "fst (h2_poll_read 8 (new_h2_transport [MessageData [], MessageData [1]])) = Ready []
   \<and> fst (ws_poll_read 8 (new_ws_transport [MessageData [], MessageData [1]])) = Ready []"
  by code_simp

text \<open>
  The data frames of an HTTP/2 bridge carry the payload. Whatever capacity the stream gives, the frames are a prefix of
  the payload, none is larger than 16 KiB; when all was sent they are the payload and only the last one ends the
  stream, if any; when the stream failed, none did.
\<close>

theorem h2_frames_carry_payload:
  assumes "send_h2_data_frames payload end_of_stream cs = (frames, fin, rest)"
  shows "prefix (concat (map fst frames)) payload \<and> (\<forall>(f, e) \<in> set frames. length f \<le> 16384)
    \<and> (if fin then concat (map fst frames) = payload \<and> map snd frames = replicate (length frames - 1) False @ [end_of_stream]
       else \<forall>(f, e) \<in> set frames. \<not> e)"
proof (cases "payload = []")
  case True
  then show ?thesis using assms by (auto simp: send_h2_data_frames_def)
next
  case False
  then have "h2_send_loop payload end_of_stream cs = (frames, fin, rest)" using assms by (simp add: send_h2_data_frames_def)
  from h2_send_loop_frames [OF this] False show ?thesis by (auto simp: H2_MAX_DATA_FRAME_def)
qed

theorem h2_frames_carry_payload_witness:
  "send_h2_data_frames [1, 2, 3] True [Capacity 2, Capacity 0, Capacity 9] = ([([1, 2], False), ([3], True)], True, [])
   \<and> map snd (fst (send_h2_data_frames [1, 2, 3] True [Capacity 2, Capacity 0, Capacity 9])) = [False, True]"
proof -
  have e: "send_h2_data_frames [1, 2, 3] True [Capacity 2, Capacity 0, Capacity 9] = ([([1, 2], False), ([3], True)], True, [])" by code_simp
  show ?thesis using h2_frames_carry_payload [OF e] e by simp
qed

text \<open>
  When the upload ends before the response has arrived, the download is shut and nothing that the server sends
  arrives.
\<close>

theorem h2_half_close_loses_download: "h2_download (UploadEnded # es) = (DownloadShut, [])"
proof -
  have "foldl h2_download_step (DownloadShut, out) es = (DownloadShut, out)" for out by (induction es) auto
  then show ?thesis by (simp add: h2_download_def)
qed

lemma map_of_retain: "map_of (kcptun_retain closed now cfg pools) key = map_option (kcptun_scavenge closed now) (map_of pools key)"
proof -
  have "kcptun_retain closed now cfg pools = map (\<lambda>(k, p). (k, kcptun_scavenge closed now p)) pools"
    by (auto simp: kcptun_retain_def kcptun_scavenge_def intro!: filter_True)
  then show ?thesis by (simp add: map_of_map)
qed

text \<open>No pool is ever dropped: the clean-up marks every pool as used before it asks how long it has been idle.\<close>

theorem kcptun_pools_never_dropped: "map fst (kcptun_retain closed now cfg pools) = map fst pools"
  by (induction pools) (auto simp: kcptun_retain_def kcptun_scavenge_def)

lemma kcptun_entry_length [simp]: "length (kp_sessions (kcptun_entry now key cfg pools)) = kc_conn cfg"
  by (simp add: kcptun_entry_def new_kcptun_pool_def Let_def)

lemma scavenge_length [simp]: "length (kp_sessions (kcptun_scavenge closed now p)) = length (kp_sessions p)"
  by (simp add: kcptun_scavenge_def)

lemma session_at_slot:
  assumes "session_at closed i now p = Some s"
  shows "\<exists>slot. Some slot \<in> set (kp_sessions p) \<and> ks_session slot = s \<and> slot_reusable closed now slot"
  using assms by (auto simp: session_at_def split: option.splits if_splits intro: nth_mem) (metis nth_mem)

lemma scavenge_slot: "Some slot \<in> set (kp_sessions (kcptun_scavenge closed now p)) \<Longrightarrow> Some slot \<in> set (kp_sessions p)"
  by (auto simp: kcptun_scavenge_def split: option.splits if_splits)

lemma entry_slot:
  "Some slot \<in> set (kp_sessions (kcptun_entry now key cfg pools)) \<Longrightarrow> \<exists>p. map_of pools key = Some p \<and> Some slot \<in> set (kp_sessions p)"
  by (auto simp: kcptun_entry_def new_kcptun_pool_def Let_def split: option.splits if_splits)

lemma kcptun_pick_Ok:
  assumes "kcptun_pick closed now key cfg pools = (r, pools')" "1 \<le> kc_conn cfg"
  shows "\<exists>i p. r = Ok (i, session_at closed i now p) \<and> i < kc_conn cfg \<and> map_of pools' key = Some p \<and> length (kp_sessions p) = kc_conn cfg
    \<and> (\<forall>slot. Some slot \<in> set (kp_sessions p) \<longrightarrow> (\<exists>q. map_of pools key = Some q \<and> Some slot \<in> set (kp_sessions q)))"
proof -
  let ?p = "kcptun_scavenge closed now (kcptun_entry now key cfg (kcptun_retain closed now cfg pools))"
  let ?i = "unat (kp_rr ?p) mod length (kp_sessions ?p)"
  have slots: "\<exists>q. map_of pools key = Some q \<and> Some slot \<in> set (kp_sessions q)" if "Some slot \<in> set (kp_sessions ?p)" for slot
    using entry_slot [OF scavenge_slot [OF that]] scavenge_slot by (fastforce simp: map_of_retain)
  have n: "length (kp_sessions ?p) = kc_conn cfg" by simp
  then have i: "?i < kc_conn cfg" using assms(2) by (metis mod_less_divisor not_one_le_zero neq0_conv)
  have "length (kp_sessions ?p) \<noteq> 0" unfolding n using assms(2) by simp
  then have "(r, pools') = (Ok (?i, session_at closed ?i now (?p\<lparr>kp_rr := kp_rr ?p + 1\<rparr>)),
      AList.update key (?p\<lparr>kp_rr := kp_rr ?p + 1\<rparr>) (kcptun_retain closed now cfg pools))"
    unfolding assms(1) [symmetric] kcptun_pick_def Let_def by (simp only: if_False)
  then show ?thesis using slots n i
    by (intro exI [of _ ?i] exI [of _ "?p\<lparr>kp_rr := kp_rr ?p + 1\<rparr>"]) (simp add: update_conv')
qed

text \<open>
  C32: a kcptun stream comes from a live session. For a pool with at least one slot: a stream is opened on a session that
  gives one, and that was in the pool of its key, not closed and not expired, or has just been created; the pool
  of the key then has the slots that the configuration says.
\<close>

theorem kcptun_stream_from_live_session:
  assumes "1 \<le> kc_conn cfg" "open_kcptun_stream closed now key cfg created opens again pools = (r, pools')"
  shows "(\<exists>p. map_of pools' key = Some p \<and> length (kp_sessions p) = kc_conn cfg)
    \<and> (\<forall>s. r = Ok s \<longrightarrow> opens s \<and> (created = Some s \<or> again = Some s
        \<or> (\<exists>p slot. map_of pools key = Some p \<and> Some slot \<in> set (kp_sessions p) \<and> ks_session slot = s \<and> slot_reusable closed now slot)))"
proof -
  obtain r1 pools1 where 1: "kcptun_pick closed now key cfg pools = (r1, pools1)" by fastforce
  from kcptun_pick_Ok [OF 1 assms(1)] obtain i p where p: "r1 = Ok (i, session_at closed i now p)" "i < kc_conn cfg"
      "map_of pools1 key = Some p" "length (kp_sessions p) = kc_conn cfg"
      "\<And>slot. Some slot \<in> set (kp_sessions p) \<Longrightarrow> \<exists>q. map_of pools key = Some q \<and> Some slot \<in> set (kp_sessions q)" by blast
  have live: "\<exists>p slot. map_of pools key = Some p \<and> Some slot \<in> set (kp_sessions p) \<and> ks_session slot = s \<and> slot_reusable closed now slot"
    if "session_at closed i now p = Some s \<or> session_at closed i now (kcptun_scavenge closed now p) = Some s" for s
    using that session_at_slot [of closed i now] scavenge_slot p(5) by meson
  show ?thesis
    using assms(2) 1 p(1-4) live
    by (auto simp: open_kcptun_stream_def Let_def kcptun_session_from_pool_def kcptun_store_def kcptun_replace_def update_conv' kcptun_entry_def
        split: option.splits if_splits)
qed

theorem kcptun_stream_from_live_session_witness:
  "fst (open_kcptun_stream (\<lambda>s. s = 1) 5 ''k'' (kcptun_default\<lparr>kc_conn := 1\<rparr>) (Some 2) (\<lambda>s. s = 2) None []) = Ok 2
   \<and> (\<exists>p. map_of (snd (open_kcptun_stream (\<lambda>s. s = 1) 5 ''k'' (kcptun_default\<lparr>kc_conn := 1\<rparr>) (Some 2) (\<lambda>s. s = 2) None [])) ''k'' = Some p
        \<and> length (kp_sessions p) = 1)"
proof -
  let ?cfg = "kcptun_default\<lparr>kc_conn := 1\<rparr>"
  obtain r pools where o: "open_kcptun_stream (\<lambda>s. s = 1) 5 ''k'' ?cfg (Some 2) (\<lambda>s. s = 2) None [] = (r, pools)" by fastforce
  have "fst (open_kcptun_stream (\<lambda>s. s = 1) 5 ''k'' ?cfg (Some 2) (\<lambda>s. s = 2) None []) = Ok 2" by code_simp
  moreover have "1 \<le> kc_conn ?cfg" by simp
  ultimately show ?thesis using kcptun_stream_from_live_session [OF _ o] o by simp
qed

lemma reserve_port_fresh:
  "reserve_sip003_port k binds ports = (r, ports') \<Longrightarrow> (\<forall>p. r = Ok p \<longrightarrow> p \<notin> ports \<and> ports' = insert p ports) \<and> (\<forall>e. r = Inl e \<longrightarrow> ports' = ports)"
  by (induction k binds ports rule: reserve_sip003_port.induct) (auto split: option.splits if_splits)

text \<open>
  C33: Starting a plugin gives its port back. Whatever happens (no free port, a process that does not start, ends early, or
  never listens, or one that accepts), the reserved ports are afterwards what they were before; and a process that
  is started has a port that no other start held.
\<close>

theorem sip003_ports_released:
  assumes "start_sip003_process k attempts ports = (r, ports')"
  shows "ports' = ports \<and> (\<forall>p. r = Ok p \<longrightarrow> p \<notin> ports)"
  using assms
proof (induction k attempts ports rule: start_sip003_process.induct)
  case (3 k a attempts ports)
  obtain r1 ports1 where 1: "reserve_sip003_port 32 (sa_binds a) ports = (r1, ports1)" by fastforce
  show ?case
  proof (cases r1)
    case (Inl e)
    then show ?thesis using 3(2) 1 reserve_port_fresh [OF 1] by simp
  next
    case (Inr p)
    then have p: "p \<notin> ports" "ports1 = insert p ports" using reserve_port_fresh [OF 1] by auto
    then have "release_sip003_port p ports1 = ports" by (auto simp: release_sip003_port_def)
    then show ?thesis using 3 1 Inr p by (auto split: if_splits)
  qed
qed auto

theorem sip003_ports_released_witness:
  "start_sip003_process 16 [\<lparr>sa_binds = [Some 7, Some 8], sa_spawned = True, sa_probe = \<lambda>i. (True, i = 3)\<rparr>] {7} = (Ok 8, {7}) \<and> (8 :: u16) \<notin> {7}"
proof -
  have e: "start_sip003_process 16 [\<lparr>sa_binds = [Some 7, Some 8], sa_spawned = True, sa_probe = \<lambda>i. (True, i = 3)\<rparr>] {7} = (Ok 8, {7})"
    by (simp add: eval_nat_numeral release_sip003_port_def)
  show ?thesis using sip003_ports_released [OF e] e by simp
qed

text \<open>
  A stream is given only on a process that accepted a connection, which then is the one of the key; a process that refused it
  is not kept.
\<close>

lemma map_of_filter_key: "map_of (filter (\<lambda>(k, p). P p) pool) key = Some p \<Longrightarrow> P p"
  by (induction pool) (auto split: if_splits)

theorem sip003_stream_accepted:
  assumes "open_sip003_stream k running in_use idle connects started key pool = (Ok p, pool')"
  shows "connects p \<and> map_of pool' key = Some p \<and> (running p \<or> Ok p \<in> set started)"
  using assms
proof (induction k running in_use idle connects started key pool rule: open_sip003_stream.induct)
  case (2 k running in_use idle connects started key pool)
  show ?case
  proof (cases "map_of (sip003_retain running in_use idle pool) key")
    case None
    show ?thesis
    proof (cases started)
      case (Cons x xs)
      show ?thesis
      proof (cases x)
        case (Inr q)
        note IH = 2(1) [of "sip003_retain running in_use idle pool" "(Ok q, AList.update key q (sip003_retain running in_use idle pool), xs)"]
        show ?thesis
        proof (cases "connects q")
          case True
          then show ?thesis using 2(2) None Cons Inr by (auto simp: Let_def update_conv')
        next
          case False
          then show ?thesis using 2(2) None Cons Inr IH by (auto simp: Let_def)
        qed
      qed (use 2 None Cons in \<open>simp add: Let_def\<close>)
    qed (use 2 None in \<open>simp add: Let_def\<close>)
  next
    case (Some q)
    then have "running q" using map_of_filter_key [of "\<lambda>p. running p \<and> \<not> (\<not> in_use p \<and> idle p)" pool key q]
      by (simp add: sip003_retain_def)
    then show ?thesis using 2 Some by (auto simp: Let_def split: if_splits)
  qed
qed simp

theorem diagnostics_bounded:
  assumes "length lines \<le> 32" shows "length (diagnostics_push source message lines) \<le> 32"
  using assms by (auto simp: diagnostics_push_def Let_def)

end
