(* ===== verification/Shadow_Tls.thy ===== *)
theory Shadow_Tls
  imports Ssr_Frames Ss_Legacy
begin

text \<open>
  The ShadowTLS transport of \<open>adapter/shadowsocks/transport.rs\<close>: records of application data that carry
  the bytes of the proxy behind a TLS handshake with another host, in the versions without a tag, with
  one tag (2) and with a running HMAC on every record (3), and the stream that version 3 puts under the
  handshake. The TLS handshake itself is the package's; HMAC-SHA1 and SHA-256 are arguments.
\<close>

section \<open>A running HMAC\<close>

text \<open>The key and everything it has been updated with; \<open>hs\<close> is HMAC-SHA1.\<close>

record running_hmac =
  rh_key :: bytes
  rh_data :: bytes

definition hmac_new :: "bytes \<Rightarrow> running_hmac" where
  "hmac_new key = \<lparr>rh_key = key, rh_data = []\<rparr>"

definition hmac_update :: "bytes \<Rightarrow> running_hmac \<Rightarrow> running_hmac" where
  "hmac_update d h = h\<lparr>rh_data := rh_data h @ d\<rparr>"

definition hmac_first4 :: "(bytes \<Rightarrow> bytes \<Rightarrow> bytes) \<Rightarrow> running_hmac \<Rightarrow> bytes" where
  "hmac_first4 hs h = take 4 (hs (rh_key h) (rh_data h))"

section \<open>Records\<close>

datatype shadow_tls_mode =
    ShadowPlain
  | ShadowV2 "bytes option"
  | ShadowV3 running_hmac running_hmac "running_hmac option"

definition shadow_tls_push_record :: "bytes option \<Rightarrow> bytes \<Rightarrow> bytes" where
  "shadow_tls_push_record auth_tag payload =
    (let auth_tag = (case auth_tag of Some t \<Rightarrow> t | None \<Rightarrow> [])
     in [0x17, 0x03, 0x03] @ to_be 2 (length auth_tag + length payload) @ auth_tag @ payload)"

definition shadow_tls_push_v3_record :: "(bytes \<Rightarrow> bytes \<Rightarrow> bytes) \<Rightarrow> running_hmac \<Rightarrow> bytes \<Rightarrow> bytes \<times> running_hmac" where
  "shadow_tls_push_v3_record hs h payload =
    (let h = hmac_update payload h;
         auth_tag = hmac_first4 hs h
     in ([0x17, 0x03, 0x03] @ to_be 2 (4 + length payload) @ auth_tag @ payload, hmac_update auth_tag h))"

text \<open>One record of the loop over the payload, of at most \<open>n\<close> bytes.\<close>

definition shadow_tls_record :: "(bytes \<Rightarrow> bytes \<Rightarrow> bytes) \<Rightarrow> bytes option \<Rightarrow> shadow_tls_mode \<Rightarrow> bytes \<Rightarrow> bytes \<times> shadow_tls_mode" where
  "shadow_tls_record hs auth_tag m d =
    (case m of
       ShadowV3 add ver ign \<Rightarrow> (case shadow_tls_push_v3_record hs add d of (r, add) \<Rightarrow> (r, ShadowV3 add ver ign))
     | _ \<Rightarrow> (shadow_tls_push_record auth_tag d, m))"

text \<open>The loop. The tag of version 2 (8 bytes) is in the first record only, which has a shorter payload.\<close>

function shadow_tls_records :: "(bytes \<Rightarrow> bytes \<Rightarrow> bytes) \<Rightarrow> bytes option \<Rightarrow> shadow_tls_mode \<Rightarrow> bytes \<Rightarrow> bytes \<times> shadow_tls_mode" where
  "shadow_tls_records hs auth_tag m payload =
    (if payload = [] then ([], m)
     else
       let n = 16 * 1024 - (case auth_tag of Some _ \<Rightarrow> 8 | None \<Rightarrow> 0);
           (record, m) = shadow_tls_record hs auth_tag m (take n payload);
           (records, m) = shadow_tls_records hs None m (drop n payload)
       in (record @ records, m))"
  by pat_completeness auto
termination by (relation "measure (\<lambda>(hs, auth_tag, m, payload). length payload)") (auto split: option.splits)

declare shadow_tls_records.simps [simp del]

definition shadow_tls_encode_records :: "(bytes \<Rightarrow> bytes \<Rightarrow> bytes) \<Rightarrow> shadow_tls_mode \<Rightarrow> bytes \<Rightarrow> bytes \<times> shadow_tls_mode" where
  "shadow_tls_encode_records hs m payload =
    (let (auth_tag, m) = (case m of ShadowV2 t \<Rightarrow> (t, ShadowV2 None) | _ \<Rightarrow> (None, m))
     in if payload = [] then (shadow_tls_push_record auth_tag [], m) else shadow_tls_records hs auth_tag m payload)"

definition verify_application_data :: "(bytes \<Rightarrow> bytes \<Rightarrow> bytes) \<Rightarrow> bytes \<Rightarrow> running_hmac \<Rightarrow> bool \<Rightarrow> bool \<times> running_hmac" where
  "verify_application_data hs frame h update =
    (if length frame < 9 \<or> take 3 frame \<noteq> [0x17, 0x03, 0x03] then (False, h)
     else
       let h = hmac_update (drop 9 frame) h;
           expected = hmac_first4 hs h
       in (take 4 (drop 5 frame) = expected, if update then hmac_update expected h else h))"

text \<open>
  A whole frame: its data, or an error. In version 3 what is left of the handshake's records goes first,
  as long as their HMAC is right.
\<close>

definition shadow_tls_frame :: "(bytes \<Rightarrow> bytes \<Rightarrow> bytes) \<Rightarrow> shadow_tls_mode \<Rightarrow> bytes \<Rightarrow> bytes option \<times> shadow_tls_mode" where
  "shadow_tls_frame hs m frame =
    (case m of
       ShadowV3 add ver ign \<Rightarrow>
         (let main = (case verify_application_data hs frame ver True of
            (ok, ver) \<Rightarrow> (if ok then Some (drop 9 frame) else None, ShadowV3 add ver None))
          in case ign of
               None \<Rightarrow> main
             | Some h \<Rightarrow> (case verify_application_data hs frame h False of
                 (ok, h) \<Rightarrow> (if ok then (Some [], ShadowV3 add ver (Some h)) else main)))
     | _ \<Rightarrow> (Some (drop 5 frame), m))"

definition shadow_tls_step :: "(bytes \<Rightarrow> bytes \<Rightarrow> bytes) \<Rightarrow> shadow_tls_mode \<Rightarrow> bytes \<Rightarrow> shadow_tls_mode frame_step" where
  "shadow_tls_step hs m raw =
    (if length raw < 5 then Wait m
     else if raw ! 0 \<noteq> 0x17 \<or> raw ! 1 \<noteq> 0x03 then Reject m raw
     else let n = 5 + be16 (raw ! 3) (raw ! 4)
       in if length raw < n then Wait m
          else case shadow_tls_frame hs m (take n raw) of
              (Some d, m) \<Rightarrow> Took m d (drop n raw)
            | (None, m) \<Rightarrow> Reject m (drop n raw))"

text \<open>
  \<open>shadow_tls_drain_records\<close>: whether a frame was taken, which is whether the buffer is shorter; the mode,
  the buffer, and the output.
\<close>

definition shadow_tls_drain_records :: "(bytes \<Rightarrow> bytes \<Rightarrow> bytes) \<Rightarrow> shadow_tls_mode \<Rightarrow> bytes \<Rightarrow> bytes
    \<Rightarrow> (io_error, bool) res \<times> shadow_tls_mode \<times> bytes \<times> bytes" where
  "shadow_tls_drain_records hs m raw out =
    (case frame_loop (shadow_tls_step hs) m raw out of
       (Inr _, m, raw', out) \<Rightarrow> (Ok (length raw' < length raw), m, raw', out)
     | (Inl e, m, raw', out) \<Rightarrow> (Inl e, m, raw', out))"

section \<open>The stream\<close>

record shadow_tls =
  st_mode :: shadow_tls_mode
  st_raw :: bytes
  st_buffer :: bytes
  st_pending :: "pending_write option"

definition new_shadow_plain :: shadow_tls where
  "new_shadow_plain = \<lparr>st_mode = ShadowPlain, st_raw = [], st_buffer = [], st_pending = None\<rparr>"

definition new_shadow_v2 :: "bytes \<Rightarrow> shadow_tls" where
  "new_shadow_v2 auth_tag = \<lparr>st_mode = ShadowV2 (Some auth_tag), st_raw = [], st_buffer = [], st_pending = None\<rparr>"

definition new_shadow_v3 :: "running_hmac \<Rightarrow> running_hmac \<Rightarrow> running_hmac option \<Rightarrow> shadow_tls" where
  "new_shadow_v3 add ver ign = \<lparr>st_mode = ShadowV3 add ver ign, st_raw = [], st_buffer = [], st_pending = None\<rparr>"

text \<open>The loop of \<open>poll_read\<close>, with room for \<open>room\<close> bytes.\<close>

function shadow_read_loop :: "(bytes \<Rightarrow> bytes \<Rightarrow> bytes) \<Rightarrow> nat \<Rightarrow> shadow_tls \<Rightarrow> transport \<Rightarrow> bytes poll \<times> shadow_tls \<times> transport" where
  "shadow_read_loop hs room st io =
    (case shadow_tls_drain_records hs (st_mode st) (st_raw st) (st_buffer st) of
       (Inl e, m, raw, out) \<Rightarrow> (Fault InvalidData, st\<lparr>st_mode := m, st_raw := raw, st_buffer := out\<rparr>, io)
     | (Inr drained, m, raw, out) \<Rightarrow>
         (let st = st\<lparr>st_mode := m, st_raw := raw, st_buffer := out\<rparr>
          in case (if drained then drain_buffer out room else None) of
               Some (bs, rest) \<Rightarrow> (Ready bs, st\<lparr>st_buffer := rest\<rparr>, io)
             | None \<Rightarrow>
                 (case poll_read_io 4096 io of
                    (Pending, io') \<Rightarrow> (Pending, st, io')
                  | (Fault e, io') \<Rightarrow> (Fault e, st, io')
                  | (Ready bs, io') \<Rightarrow>
                      (if bs = [] then (if raw = [] then Ready [] else Fault UnexpectedEof, st, io')
                       else shadow_read_loop hs room (st\<lparr>st_raw := raw @ bs\<rparr>) io'))))"
  by pat_completeness auto
termination
  by (relation "measure (\<lambda>(hs, room, st, io). in_size (tr_in io))") (auto dest: poll_read_io_sizeI)

declare shadow_read_loop.simps [simp del]

definition shadow_poll_read :: "(bytes \<Rightarrow> bytes \<Rightarrow> bytes) \<Rightarrow> nat \<Rightarrow> shadow_tls \<times> transport \<Rightarrow> bytes poll \<times> shadow_tls \<times> transport" where
  "shadow_poll_read hs room = (\<lambda>(st, io).
    (if st_mode st = ShadowPlain then (case poll_read_io room io of (r, io) \<Rightarrow> (r, st, io))
     else case drain_buffer (st_buffer st) room of
         Some (bs, rest) \<Rightarrow> (Ready bs, st\<lparr>st_buffer := rest\<rparr>, io)
       | None \<Rightarrow> shadow_read_loop hs room st io))"

text \<open>
  The loop that writes what is pending. It has taken the pending write out of the stream, and puts it
  back only when nothing could be written: behind \<open>Pending\<close> and behind an error it is gone.
\<close>

function shadow_write_loop :: "(bytes \<Rightarrow> 's \<Rightarrow> nat poll \<times> 's) \<Rightarrow> pending_write \<Rightarrow> 's \<Rightarrow> nat poll \<times> pending_write option \<times> 's" where
  "shadow_write_loop w p s =
    (if pw_offset p < length (pw_data p) then
       (case w (drop (pw_offset p) (pw_data p)) s of
          (Pending, s') \<Rightarrow> (Pending, None, s')
        | (Fault e, s') \<Rightarrow> (Fault e, None, s')
        | (Ready n, s') \<Rightarrow>
            (if n = 0 then (Fault WriteZero, Some p, s')
             else shadow_write_loop w (p\<lparr>pw_offset := pw_offset p + n\<rparr>) s'))
     else (Ready (pw_original_len p), None, s))"
  by auto
termination by (relation "measure (\<lambda>(w, p, s). length (pw_data p) - pw_offset p)") auto

declare shadow_write_loop.simps [simp del]

definition shadow_poll_write :: "(bytes \<Rightarrow> bytes \<Rightarrow> bytes) \<Rightarrow> bytes \<Rightarrow> shadow_tls \<times> transport \<Rightarrow> nat poll \<times> shadow_tls \<times> transport" where
  "shadow_poll_write hs buf = (\<lambda>(st, io).
    (if st_mode st = ShadowPlain then (case poll_write_io buf io of (r, io) \<Rightarrow> (r, st, io))
     else
       let (p, st) = (case st_pending st of
             Some p \<Rightarrow> (p, st)
           | None \<Rightarrow> (case shadow_tls_encode_records hs (st_mode st) buf of (d, m) \<Rightarrow> (new_pending d (length buf), st\<lparr>st_mode := m\<rparr>)))
       in case shadow_write_loop poll_write_io p io of (r, pending, io) \<Rightarrow> (r, st\<lparr>st_pending := pending\<rparr>, io)))"

text \<open>\<open>poll_flush\<close>; the transport's own flush is at once.\<close>

definition shadow_poll_flush :: "shadow_tls \<times> transport \<Rightarrow> unit poll \<times> shadow_tls \<times> transport" where
  "shadow_poll_flush = (\<lambda>(st, io).
    (case st_pending st of
       None \<Rightarrow> (Ready (), st, io)
     | Some p \<Rightarrow>
         (case shadow_write_loop poll_write_io p io of
            (Ready _, pending, io) \<Rightarrow> (Ready (), st\<lparr>st_pending := pending\<rparr>, io)
          | (Pending, pending, io) \<Rightarrow> (Pending, st\<lparr>st_pending := pending\<rparr>, io)
          | (Fault e, pending, io) \<Rightarrow> (Fault e, st\<lparr>st_pending := pending\<rparr>, io))))"

section \<open>The records as a codec\<close>

lemma shadow_tls_step_cases:
  assumes "5 \<le> length raw" "raw ! 0 = 0x17" "raw ! 1 = 0x03" "5 + be16 (raw ! 3) (raw ! 4) \<le> length raw"
  shows "shadow_tls_step hs m raw =
    (case shadow_tls_frame hs m (take (5 + be16 (raw ! 3) (raw ! 4)) raw) of
       (Some d, m) \<Rightarrow> Took m d (drop (5 + be16 (raw ! 3) (raw ! 4)) raw)
     | (None, m) \<Rightarrow> Reject m (drop (5 + be16 (raw ! 3) (raw ! 4)) raw))"
  using assms by (simp add: shadow_tls_step_def Let_def)

lemma shadow_tls_step_took:
  assumes "shadow_tls_step hs m raw = Took m' d r"
  shows "length r < length raw \<and> shadow_tls_step hs m (raw @ e) = Took m' d (r @ e)"
proof -
  let ?n = "5 + be16 (raw ! 3) (raw ! 4)"
  have raw: "5 \<le> length raw" "raw ! 0 = 0x17" "raw ! 1 = 0x03" "?n \<le> length raw"
    using assms by (auto simp: shadow_tls_step_def Let_def split: if_splits)
  have frame: "shadow_tls_frame hs m (take ?n raw) = (Some d, m')" "r = drop ?n raw"
    using assms unfolding shadow_tls_step_cases [OF raw] by (auto split: option.splits prod.splits)
  have nth: "(raw @ e) ! i = raw ! i" if "i < 5" for i using raw(1) that by (simp add: nth_append)
  have "shadow_tls_step hs m (raw @ e) = Took m' d (r @ e)"
    using raw frame by (subst shadow_tls_step_cases) (simp_all add: nth)
  then show ?thesis using raw(4) frame(2) by simp
qed

lemma shadow_tls_step_reject:
  assumes "shadow_tls_step hs m raw = Reject m' r"
  shows "\<exists>m'' r''. shadow_tls_step hs m (raw @ e) = Reject m'' r''"
proof -
  have len: "5 \<le> length raw" using assms by (auto simp: shadow_tls_step_def split: if_splits)
  have nth: "(raw @ e) ! i = raw ! i" if "i < 5" for i using len that by (simp add: nth_append)
  show ?thesis
  proof (cases "raw ! 0 \<noteq> 0x17 \<or> raw ! 1 \<noteq> 0x03")
    case True
    then show ?thesis using len nth by (simp add: shadow_tls_step_def)
  next
    case False
    let ?n = "5 + be16 (raw ! 3) (raw ! 4)"
    have n: "?n \<le> length raw" using assms len False by (auto simp: shadow_tls_step_def Let_def split: if_splits)
    have raw: "raw ! 0 = 0x17" "raw ! 1 = 0x03" using False by simp_all
    have "fst (shadow_tls_frame hs m (take ?n raw)) = None"
      using assms unfolding shadow_tls_step_cases [OF len raw n] by (auto split: option.splits prod.splits)
    then show ?thesis using len n raw
      by (subst shadow_tls_step_cases) (auto simp: nth split: prod.splits option.splits)
  qed
qed

interpretation shadow_tls: frame_codec "shadow_tls_step hs" for hs
proof (unfold_locales, goal_cases)
  case (1 st b st' e)
  then have "st' = st" by (auto simp: shadow_tls_step_def Let_def split: if_splits option.splits prod.splits)
  then show ?case by simp
next
  case (2 st b st' d r)
  then show ?case using shadow_tls_step_took by blast
next
  case (3 st b st' d r e)
  then show ?case using shadow_tls_step_took by blast
next
  case (4 st b st' r e)
  then show ?case using shadow_tls_step_reject by blast
qed

text \<open>The mode of the peer: it verifies with the HMAC that the sender adds with, and has nothing to ignore.\<close>

definition shadow_peer :: "shadow_tls_mode \<Rightarrow> shadow_tls_mode \<Rightarrow> bool" where
  "shadow_peer m p = (case m of
     ShadowV3 add ver ign \<Rightarrow> (\<exists>add'. p = ShadowV3 add' add None)
   | ShadowV2 t \<Rightarrow> t = None \<and> (\<exists>t'. p = ShadowV2 t')
   | ShadowPlain \<Rightarrow> False)"

definition shadow_record :: "bytes \<Rightarrow> bytes" where
  "shadow_record x = [0x17, 0x03, 0x03] @ to_be 2 (length x) @ x"

lemma shadow_tls_step_record:
  assumes "length x < 65536"
  shows "shadow_tls_step hs p (shadow_record x @ r) =
    (case shadow_tls_frame hs p (shadow_record x) of (Some d, m) \<Rightarrow> Took m d r | (None, m) \<Rightarrow> Reject m r)"
proof -
  let ?raw = "shadow_record x @ r"
  have len: "length (shadow_record x) = 5 + length x" by (simp add: shadow_record_def)
  have n: "be16 (?raw ! 3) (?raw ! 4) = length x"
    using assms by (simp add: shadow_record_def nth_append be16_to_be)
  have "?raw ! 0 = 0x17" "?raw ! 1 = 0x03" by (simp_all add: shadow_record_def)
  moreover have "5 + be16 (?raw ! 3) (?raw ! 4) = length (shadow_record x)" using n len by simp
  ultimately show ?thesis using n len by (subst shadow_tls_step_cases) (simp_all split: option.split prod.split)
qed

lemma drop_shadow_record: "drop 5 (shadow_record x) = x" "take 3 (shadow_record x) = [0x17, 0x03, 0x03]"
    "length (shadow_record x) = 5 + length x"
  by (simp_all add: shadow_record_def)

lemma drop_9_shadow_record: "length t = 4 \<Longrightarrow> drop 9 (shadow_record (t @ d)) = d"
  using drop_shadow_record(1) [of "t @ d"] drop_drop [of 4 5 "shadow_record (t @ d)"] by simp

lemma shadow_record_frame:
  assumes "\<And>k d. 4 \<le> length (hs k d)" "shadow_peer m p" "shadow_tls_record hs None m d = (f, m')" "length d \<le> 16384"
  shows "\<exists>p'. (\<forall>r. shadow_tls_step hs p (f @ r) = Took p' d r) \<and> shadow_peer m' p'"
proof (cases m)
  case ShadowPlain
  then show ?thesis using assms(2) by (simp add: shadow_peer_def)
next
  case (ShadowV2 t)
  obtain t' where p: "t = None" "p = ShadowV2 t'" using assms(2) ShadowV2 by (auto simp: shadow_peer_def)
  have f: "f = shadow_record d" "m' = m"
    using assms(3) ShadowV2 by (simp_all add: shadow_tls_record_def shadow_tls_push_record_def shadow_record_def)
  have "shadow_tls_step hs p (f @ r) = Took p d r" for r
    using assms(4) by (simp add: shadow_tls_step_record f(1) p shadow_tls_frame_def drop_shadow_record)
  then show ?thesis using assms(2) f(2) by blast
next
  case (ShadowV3 add ver ign)
  obtain add' where p: "p = ShadowV3 add' add None" using assms(2) ShadowV3 by (auto simp: shadow_peer_def)
  let ?tag = "hmac_first4 hs (hmac_update d add)"
  have four: "length ?tag = 4" using assms(1) by (simp add: hmac_first4_def)
  have f: "f = shadow_record (?tag @ d)" "m' = ShadowV3 (hmac_update ?tag (hmac_update d add)) ver ign"
    using assms(3) ShadowV3 four
    by (simp_all add: shadow_tls_record_def shadow_tls_push_v3_record_def shadow_record_def Let_def)
  have "verify_application_data hs (shadow_record (?tag @ d)) add True = (True, hmac_update ?tag (hmac_update d add))"
    using four by (simp add: verify_application_data_def drop_9_shadow_record drop_shadow_record Let_def)
  then have "shadow_tls_step hs p (f @ r) = Took (ShadowV3 add' (hmac_update ?tag (hmac_update d add)) None) d r" for r
    using assms(4) four by (simp add: shadow_tls_step_record f(1) p shadow_tls_frame_def drop_9_shadow_record)
  then show ?thesis using ShadowV3 f(2) by (auto simp: shadow_peer_def)
qed

lemma shadow_records_frames:
  assumes "shadow_tls_records hs None m payload = (wire, m')" "shadow_peer m p" "\<And>k d. 4 \<le> length (hs k d)"
  shows "\<exists>fs p'. frames_take (shadow_tls_step hs) p fs p' \<and> concat (map fst fs) = wire \<and> concat (map snd fs) = payload
      \<and> shadow_peer m' p'"
  using assms(1,2)
proof (induction "length payload" arbitrary: payload m p wire rule: less_induct)
  case less
  show ?case
  proof (cases "payload = []")
    case True
    then have "wire = []" "m' = m" using less(2) by (simp_all add: shadow_tls_records.simps)
    then show ?thesis using True less(3) by (intro exI [of _ "[]"] exI [of _ p]) simp
  next
    case False
    obtain f m1 where f: "shadow_tls_record hs None m (take 16384 payload) = (f, m1)" by fastforce
    obtain records m2 where rest: "shadow_tls_records hs None m1 (drop 16384 payload) = (records, m2)" by fastforce
    have wire: "wire = f @ records" "m' = m2"
      using less(2) f rest False by (simp_all add: shadow_tls_records.simps [of hs None m payload])
    obtain p1 where p1: "\<forall>r. shadow_tls_step hs p (f @ r) = Took p1 (take 16384 payload) r" "shadow_peer m1 p1"
      using shadow_record_frame [OF assms(3) less(3) f] by auto
    have "length (drop 16384 payload) < length payload" using False by simp
    from less(1) [OF this rest [folded wire(2)] p1(2)]
    obtain fs p' where fs: "frames_take (shadow_tls_step hs) p1 fs p'" "concat (map fst fs) = records"
      "concat (map snd fs) = drop 16384 payload" "shadow_peer m' p'" by blast
    then have "frames_take (shadow_tls_step hs) p ((f, take 16384 payload) # fs) p'" using p1(1) by auto
    then show ?thesis using fs wire(1) by (intro exI [of _ "(f, take 16384 payload) # fs"] exI [of _ p']) simp
  qed
qed

section \<open>Reading\<close>

lemma shadow_step_mode:
  "shadow_tls_step hs m raw = Took m' d r \<Longrightarrow> m \<noteq> ShadowPlain \<Longrightarrow> m' \<noteq> ShadowPlain"
  "shadow_tls_step hs m raw = Wait m' \<Longrightarrow> m' = m"
  by (auto simp: shadow_tls_step_def shadow_tls_frame_def Let_def
      split: if_splits option.splits prod.splits shadow_tls_mode.splits)

lemma shadow_loop_mode:
  "frame_loop (shadow_tls_step hs) m raw out = (Ok (), m', raw', out') \<Longrightarrow> m \<noteq> ShadowPlain \<Longrightarrow> m' \<noteq> ShadowPlain"
proof (induction "length raw" arbitrary: m raw out rule: less_induct)
  case less
  show ?case
  proof (cases "shadow_tls_step hs m raw")
    case (Took m1 d r)
    have len: "length r < length raw" using shadow_tls_step_took [OF Took] by blast
    have "frame_loop (shadow_tls_step hs) m1 r (out @ d) = (Ok (), m', raw', out')"
      using less(2) by (simp add: frame_loop.simps [of "shadow_tls_step hs" m raw] Took len)
    then show ?thesis using less(1) [OF len] shadow_step_mode(1) [OF Took less(3)] by blast
  next
    case (Wait m1)
    then show ?thesis using less(2,3) shadow_step_mode(2) [OF Wait] by (simp add: frame_loop.simps [of "shadow_tls_step hs" m raw])
  qed (use less(2) in \<open>simp add: frame_loop.simps [of "shadow_tls_step hs" m raw]\<close>)
qed

text \<open>What has been returned, what the buffer holds, and what the loop would still make of the input are \<open>payload\<close>.\<close>

definition shadow_read_inv :: "(bytes \<Rightarrow> bytes \<Rightarrow> bytes) \<Rightarrow> bytes \<Rightarrow> bytes \<Rightarrow> shadow_tls \<times> transport \<Rightarrow> bool" where
  "shadow_read_inv hs payload returned = (\<lambda>(st, io).
    st_mode st \<noteq> ShadowPlain
    \<and> (\<exists>m rest. frame_loop (shadow_tls_step hs) (st_mode st) (st_raw st @ in_data (tr_in io)) [] = (Ok (), m, [], rest)
      \<and> returned @ st_buffer st @ rest = payload))"

text \<open>Between polls the raw bytes are not a frame.\<close>

definition shadow_waits :: "(bytes \<Rightarrow> bytes \<Rightarrow> bytes) \<Rightarrow> shadow_tls \<times> transport \<Rightarrow> bool" where
  "shadow_waits hs = (\<lambda>(st, io). shadow_tls_step hs (st_mode st) (st_raw st) = Wait (st_mode st))"

lemma shadow_read_inv_drained:
  assumes "shadow_read_inv hs payload returned (st, io)"
    and "drain_buffer (st_buffer st) room = Some (bs, rest)"
  shows "shadow_read_inv hs payload (returned @ bs) (st\<lparr>st_buffer := rest\<rparr>, io)"
  using assms drain_buffer_Some [OF assms(2)] by (auto simp: shadow_read_inv_def)

lemma shadow_drain_records_inv:
  assumes "shadow_read_inv hs payload returned (st, io)"
  obtains drained m raw out where "shadow_tls_drain_records hs (st_mode st) (st_raw st) (st_buffer st) = (Ok drained, m, raw, out)"
    "shadow_read_inv hs payload returned (st\<lparr>st_mode := m, st_raw := raw, st_buffer := out\<rparr>, io)"
    "shadow_tls_step hs m raw = Wait m"
proof -
  obtain m rest where m: "frame_loop (shadow_tls_step hs) (st_mode st) (st_raw st @ in_data (tr_in io)) [] = (Ok (), m, [], rest)"
    "returned @ st_buffer st @ rest = payload" "st_mode st \<noteq> ShadowPlain"
    using assms by (auto simp: shadow_read_inv_def)
  obtain m1 raw o1 o2 where now: "frame_loop (shadow_tls_step hs) (st_mode st) (st_raw st) [] = (Ok (), m1, raw, o1)"
    and later: "frame_loop (shadow_tls_step hs) m1 (raw @ in_data (tr_in io)) [] = (Ok (), m, [], o2)" "rest = o1 @ o2"
    using shadow_tls.loop_split [OF m(1)] by blast
  have "frame_loop (shadow_tls_step hs) (st_mode st) (st_raw st) (st_buffer st) = (Ok (), m1, raw, st_buffer st @ o1)"
    using shadow_tls.loop_output [of hs "st_mode st" "st_raw st" "st_buffer st" "[]"] now by simp
  moreover have "m1 \<noteq> ShadowPlain" using shadow_loop_mode [OF now m(3)] .
  ultimately show thesis using that [of "length raw < length (st_raw st)" m1 raw "st_buffer st @ o1"] later m(2)
      shadow_tls.loop_rest [OF now]
    by (simp add: shadow_tls_drain_records_def shadow_read_inv_def)
qed

lemma shadow_read_inv_more:
  assumes "shadow_read_inv hs payload returned (st, io)" "poll_read_io n io = (r, io')"
  shows "shadow_read_inv hs payload returned (st\<lparr>st_raw := st_raw st @ poll_data r\<rparr>, io')"
  using assms(1) poll_read_io_keeps [OF assms(2)] by (simp add: shadow_read_inv_def)

lemma shadow_read_loop_inv:
  "shadow_read_inv hs payload returned (st, io) \<Longrightarrow> shadow_read_loop hs room st io = (r, s') \<Longrightarrow>
    shadow_read_inv hs payload (returned @ poll_data r) s' \<and> shadow_waits hs s'"
proof (induction hs room st io rule: shadow_read_loop.induct)
  case (1 hs room st io)
  note step = shadow_read_loop.simps [of hs room st io]
  obtain drained m raw out where d: "shadow_tls_drain_records hs (st_mode st) (st_raw st) (st_buffer st) = (Ok drained, m, raw, out)"
    and inv: "shadow_read_inv hs payload returned (st\<lparr>st_mode := m, st_raw := raw, st_buffer := out\<rparr>, io)"
    and waits: "shadow_tls_step hs m raw = Wait m"
    using shadow_drain_records_inv [OF 1(2)] by blast
  let ?st = "st\<lparr>st_mode := m, st_raw := raw, st_buffer := out\<rparr>"
  obtain x io1 where x: "poll_read_io 4096 io = (x, io1)" by fastforce
  show ?case
  proof (cases "if drained then drain_buffer out room else None")
    case (Some y)
    then show ?thesis using 1(3) d inv shadow_read_inv_drained [OF inv, of room] waits
      by (cases y) (auto simp: step shadow_waits_def Let_def split: if_splits)
  next
    case None
    show ?thesis
    proof (cases "\<exists>bs. x = Ready bs \<and> bs \<noteq> []")
      case True
      then obtain bs where bs: "x = Ready bs" "bs \<noteq> []" by blast
      have more: "shadow_read_inv hs payload returned (?st\<lparr>st_raw := raw @ bs\<rparr>, io1)"
        using shadow_read_inv_more [OF inv x] bs(1) by simp
      have go: "shadow_read_loop hs room (?st\<lparr>st_raw := raw @ bs\<rparr>) io1 = (r, s')"
        using 1(3) d None x bs by (simp add: step Let_def)
      show ?thesis using 1(1) [OF d [symmetric] refl refl refl refl None x [symmetric] bs more go] .
    next
      case False
      then have none: "poll_data x = []" by (cases x) auto
      have "?st\<lparr>st_raw := st_raw ?st @ poll_data x\<rparr> = ?st" using none by (cases st) simp
      then have "shadow_read_inv hs payload returned (?st, io1)" using shadow_read_inv_more [OF inv x] by (simp only:)
      then show ?thesis using 1(3) d None x False waits
        by (cases x) (auto simp: step shadow_waits_def Let_def split: if_splits)
    qed
  qed
qed

lemma shadow_poll_read_inv:
  assumes "shadow_read_inv hs payload returned s" "shadow_waits hs s" "shadow_poll_read hs room s = (r, s')"
  shows "shadow_read_inv hs payload (returned @ poll_data r) s' \<and> shadow_waits hs s'"
proof -
  obtain st io where s: "s = (st, io)" by fastforce
  have "st_mode st \<noteq> ShadowPlain" using assms(1) by (simp add: s shadow_read_inv_def)
  then show ?thesis using assms shadow_read_inv_drained [of hs payload returned st io room] shadow_read_loop_inv
    by (auto simp: s shadow_poll_read_def shadow_waits_def split: option.splits prod.splits)
qed

lemma shadow_read_polls_inv:
  "shadow_read_inv hs payload returned s \<Longrightarrow> shadow_waits hs s \<Longrightarrow> read_polls (shadow_poll_read hs) rooms s = (xs, s') \<Longrightarrow>
    shadow_read_inv hs payload (returned @ got xs) s' \<and> shadow_waits hs s'"
proof (induction rooms arbitrary: s xs returned)
  case (Cons room rooms)
  obtain r s1 where r: "shadow_poll_read hs room s = (r, s1)" by (cases "shadow_poll_read hs room s")
  obtain ys where ys: "read_polls (shadow_poll_read hs) rooms s1 = (ys, s')" "xs = r # ys"
    using Cons.prems(3) r by (auto split: prod.splits)
  have inv: "shadow_read_inv hs payload (returned @ poll_data r) s1" "shadow_waits hs s1"
    using shadow_poll_read_inv [OF Cons.prems(1,2) r] by simp_all
  from Cons.IH [OF inv ys(1)] ys(2) show ?case by simp
qed simp

lemma shadow_reads_all:
  assumes "shadow_read_inv hs payload [] s" "shadow_waits hs s" "read_polls (shadow_poll_read hs) rooms s = (xs, (st', io'))"
  shows "(\<exists>rest. got xs @ rest = payload) \<and> (in_data (tr_in io') = [] \<and> st_buffer st' = [] \<longrightarrow> got xs = payload)"
proof -
  have "shadow_read_inv hs payload (got xs) (st', io')" "shadow_waits hs (st', io')"
    using shadow_read_polls_inv [OF assms] by simp_all
  then show ?thesis using shadow_tls.loop_wait by (fastforce simp: shadow_read_inv_def shadow_waits_def)
qed

section \<open>Writing\<close>

lemma shadow_write_loop_all:
  "poll_write_all w p s = (r, p', s') \<Longrightarrow> (\<nexists>e. r = Fault e) \<Longrightarrow> shadow_write_loop w p s = (r, None, s')"
proof (induction w p s rule: poll_write_all.induct)
  case (1 w p s)
  obtain x s1 where x: "w (drop (pw_offset p) (pw_data p)) s = (x, s1)" by fastforce
  note unfold = poll_write_all.simps [of w p] shadow_write_loop.simps [of w p]
  show ?case
  proof (cases "pw_offset p < length (pw_data p) \<and> (\<exists>n. x = Ready n \<and> n \<noteq> 0)")
    case True
    then obtain n where n: "pw_offset p < length (pw_data p)" "x = Ready n" "n \<noteq> 0" by blast
    then have "poll_write_all w (p\<lparr>pw_offset := pw_offset p + n\<rparr>) s1 = (r, p', s')" using 1(2) x by (simp add: unfold(1))
    from 1(1) [OF n(1) x [symmetric] n(2,3) this 1(3)] show ?thesis using n x by (simp add: unfold(2))
  next
    case False
    then show ?thesis using 1(2,3) x by (cases x) (auto simp: unfold split: if_splits)
  qed
qed

lemma steady_shadow_write:
  assumes "steady io" "st_pending st = None" "st_mode st \<noteq> ShadowPlain"
    and "shadow_tls_encode_records hs (st_mode st) buf = (d, m)" "length d \<le> length (tr_out io)"
  shows "\<exists>io'. shadow_poll_write hs buf (st, io) = (Ready (length buf), st\<lparr>st_mode := m\<rparr>, io') \<and> steady io'
    \<and> tr_sent io' = tr_sent io @ d \<and> length (tr_out io) \<le> length (tr_out io') + length d"
proof -
  obtain p' io' where io': "poll_write_all poll_write_io (new_pending d (length buf)) io = (Ready (length buf), p', io')"
    "steady io'" "tr_sent io' = tr_sent io @ d" "length (tr_out io) \<le> length (tr_out io') + length d"
    using steady_write_all [of io "new_pending d (length buf)"] assms(1,5) by auto
  have "shadow_write_loop poll_write_io (new_pending d (length buf)) io = (Ready (length buf), None, io')"
    using shadow_write_loop_all [OF io'(1)] by simp
  moreover have "st\<lparr>st_mode := m, st_pending := None\<rparr> = st\<lparr>st_mode := m\<rparr>" using assms(2) by (cases st) simp
  ultimately show ?thesis using assms(2-4) io'(2-4) by (simp add: shadow_poll_write_def Let_def)
qed

section \<open>Properties\<close>

fun shadow_encode_each :: "(bytes \<Rightarrow> bytes \<Rightarrow> bytes) \<Rightarrow> shadow_tls_mode \<Rightarrow> bytes list \<Rightarrow> bytes \<times> shadow_tls_mode" where
  "shadow_encode_each hs m [] = ([], m)"
| "shadow_encode_each hs m (b # bs) =
    (case shadow_tls_encode_records hs m b of (d, m) \<Rightarrow> (case shadow_encode_each hs m bs of (ds, m) \<Rightarrow> (d @ ds, m)))"

lemma shadow_encode_keeps:
  assumes "shadow_tls_encode_records hs m b = (d, m')" "b \<noteq> []" "shadow_peer m p" "\<And>k d. 4 \<le> length (hs k d)"
  shows "\<exists>fs p'. frames_take (shadow_tls_step hs) p fs p' \<and> concat (map fst fs) = d \<and> concat (map snd fs) = b \<and> shadow_peer m' p'"
proof -
  have "shadow_tls_records hs None m b = (d, m')"
    using assms(1-3) by (auto simp: shadow_tls_encode_records_def shadow_peer_def split: shadow_tls_mode.splits)
  then show ?thesis using shadow_records_frames assms(3,4) by blast
qed

lemma frames_take_append:
  "frames_take step st fs st1 \<Longrightarrow> frames_take step st1 gs st' \<Longrightarrow> frames_take step st (fs @ gs) st'"
proof (induction fs arbitrary: st)
  case (Cons x fs)
  then show ?case by (cases x) auto
qed simp

lemma shadow_encode_each_frames:
  assumes "shadow_encode_each hs m bufs = (wire, m')" "[] \<notin> set bufs" "shadow_peer m p" "\<And>k d. 4 \<le> length (hs k d)"
  shows "\<exists>fs p'. frames_take (shadow_tls_step hs) p fs p' \<and> concat (map fst fs) = wire \<and> concat (map snd fs) = concat bufs"
  using assms(1-3)
proof (induction bufs arbitrary: m p wire)
  case Nil
  then show ?case by (intro exI [of _ "[]"]) simp
next
  case (Cons b bufs)
  obtain d m1 where d: "shadow_tls_encode_records hs m b = (d, m1)" by fastforce
  obtain ds where ds: "shadow_encode_each hs m1 bufs = (ds, m')" "wire = d @ ds"
    using Cons.prems(1) d by (auto split: prod.splits)
  have ne: "b \<noteq> []" "[] \<notin> set bufs" using Cons.prems(2) by auto
  obtain fs p1 where fs: "frames_take (shadow_tls_step hs) p fs p1" "concat (map fst fs) = d" "concat (map snd fs) = b"
    "shadow_peer m1 p1" using shadow_encode_keeps [OF d ne(1) Cons.prems(3) assms(4)] by blast
  obtain gs p' where gs: "frames_take (shadow_tls_step hs) p1 gs p'" "concat (map fst gs) = ds" "concat (map snd gs) = concat bufs"
    using Cons.IH [OF ds(1) ne(2) fs(4)] by blast
  show ?case using frames_take_append [OF fs(1) gs(1)] fs gs ds(2) by (intro exI [of _ "fs @ gs"] exI [of _ p']) simp
qed

lemma shadow_encode_plain: "shadow_tls_encode_records hs m b = (d, m') \<Longrightarrow> m \<noteq> ShadowPlain \<Longrightarrow> m' \<noteq> ShadowPlain"
proof -
  have "shadow_tls_records hs auth m b = (d, m') \<Longrightarrow> m \<noteq> ShadowPlain \<Longrightarrow> m' \<noteq> ShadowPlain" for auth m d
  proof (induction "length b" arbitrary: b auth m d rule: less_induct)
    case less
    show ?case
    proof (cases "b = []")
      case True
      then show ?thesis using less(2,3) by (simp add: shadow_tls_records.simps)
    next
      case False
      let ?n = "16 * 1024 - (case auth of Some _ \<Rightarrow> 8 | None \<Rightarrow> 0) :: nat"
      obtain f m1 where f: "shadow_tls_record hs auth m (take ?n b) = (f, m1)" by fastforce
      obtain ds m2 where ds: "shadow_tls_records hs None m1 (drop ?n b) = (ds, m2)" by fastforce
      have "m' = m2" using less(2) f ds False by (simp add: shadow_tls_records.simps [of hs auth m b])
      moreover have "m1 \<noteq> ShadowPlain"
        using f less(3) by (auto simp: shadow_tls_record_def split: shadow_tls_mode.splits prod.splits)
      moreover have "length (drop ?n b) < length b" using False by (auto split: option.splits)
      ultimately show ?thesis using less(1) ds by blast
    qed
  qed
  then show "shadow_tls_encode_records hs m b = (d, m') \<Longrightarrow> m \<noteq> ShadowPlain \<Longrightarrow> m' \<noteq> ShadowPlain"
    by (auto simp: shadow_tls_encode_records_def split: shadow_tls_mode.splits if_splits)
qed

lemma shadow_write_each:
  assumes "steady io" "shadow_encode_each hs (st_mode st) bufs = (wire, m)" "length wire \<le> length (tr_out io)" "[] \<notin> set bufs"
    and "st_pending st = None" "st_mode st \<noteq> ShadowPlain" "0 < fuel"
  shows "\<exists>st' io'. write_each fuel (shadow_poll_write hs) bufs (st, io) = Some (st', io') \<and> tr_sent io' = tr_sent io @ wire"
  using assms(1-6)
proof (induction bufs arbitrary: st io wire)
  case (Cons b bufs)
  obtain d m1 where d: "shadow_tls_encode_records hs (st_mode st) b = (d, m1)" by fastforce
  obtain ds where ds: "shadow_encode_each hs m1 bufs = (ds, m)" "wire = d @ ds"
    using Cons.prems(2) d by (auto split: prod.splits)
  obtain io1 where io1: "shadow_poll_write hs b (st, io) = (Ready (length b), st\<lparr>st_mode := m1\<rparr>, io1)" "steady io1"
    "tr_sent io1 = tr_sent io @ d" "length (tr_out io) \<le> length (tr_out io1) + length d"
    using steady_shadow_write [OF Cons.prems(1,5,6) d] Cons.prems(3) ds(2) by auto
  have "b \<noteq> []" using Cons.prems(4) by auto
  then have first: "write_all fuel (shadow_poll_write hs) b (st, io) = Some (st\<lparr>st_mode := m1\<rparr>, io1)"
    using write_all_at_once [where w = "shadow_poll_write hs", OF io1(1) _ assms(7)] by blast
  obtain st' io' where "write_each fuel (shadow_poll_write hs) bufs (st\<lparr>st_mode := m1\<rparr>, io1) = Some (st', io')"
    "tr_sent io' = tr_sent io1 @ ds"
    using Cons.IH [of io1 "st\<lparr>st_mode := m1\<rparr>" ds] Cons.prems io1 ds shadow_encode_plain [OF d] by auto
  then show ?case using first io1(3) ds(2) by simp
qed simp



text \<open>
  A write that blocks damages the stream. When the transport takes a part of a record and blocks, the
  stream drops the rest of it; polled again with the same bytes, as it must be, it encodes them anew behind
  the part of the record that is on the wire.
\<close>

theorem shadow_tls_backpressure_drops:
  assumes "m \<noteq> ShadowPlain" "shadow_tls_encode_records hs m buf = (d, m1)" "shadow_tls_encode_records hs m1 buf = (d', m2)"
    and "buf \<noteq> []" "0 < k" "k < length d" "d' \<noteq> []" "length d' \<le> n"
    and "tr_out io = [WriteAccept k, WriteBlock, WriteAccept n]"
  shows "\<exists>st' io'. write_all 2 (shadow_poll_write hs) buf (\<lparr>st_mode = m, st_raw = [], st_buffer = [], st_pending = None\<rparr>, io)
      = Some (st', io') \<and> st_pending st' = None \<and> tr_sent io' = tr_sent io @ take k d @ d'"
proof -
  let ?st = "\<lparr>st_mode = m, st_raw = [], st_buffer = [], st_pending = None\<rparr>"
  let ?io1 = "io\<lparr>tr_out := [WriteAccept n], tr_sent := tr_sent io @ take k d\<rparr>"
  let ?io2 = "io\<lparr>tr_out := [], tr_sent := tr_sent io @ take k d @ d'\<rparr>"
  have m1: "m1 \<noteq> ShadowPlain" using shadow_encode_plain [OF assms(2,1)] .
  have "shadow_write_loop poll_write_io (new_pending d (length buf)) io = (Pending, None, ?io1)"
    using assms(5,6,9) by (auto simp: shadow_write_loop.simps poll_write_io_def)
  then have first: "shadow_poll_write hs buf (?st, io) = (Pending, ?st\<lparr>st_mode := m1\<rparr>, ?io1)"
    using assms(1,2) by (simp add: shadow_poll_write_def)
  have "shadow_write_loop poll_write_io (new_pending d' (length buf)) ?io1 = (Ready (length buf), None, ?io2)"
    using assms(7,8) by (simp add: shadow_write_loop.simps poll_write_io_def)
  then have second: "shadow_poll_write hs buf (?st\<lparr>st_mode := m1\<rparr>, ?io1) = (Ready (length buf), ?st\<lparr>st_mode := m2\<rparr>, ?io2)"
    using m1 assms(3) by (simp add: shadow_poll_write_def)
  obtain b bs where "buf = b # bs" using assms(4) by (cases buf) auto
  then have "write_all 2 (shadow_poll_write hs) buf (?st, io) = Some (?st\<lparr>st_mode := m2\<rparr>, ?io2)"
    using first second by (simp add: numeral_2_eq_2)
  then show ?thesis by simp
qed

theorem shadow_tls_backpressure_drops_witness:
  "\<exists>st' io'. write_all 2 (shadow_poll_write (\<lambda>k d. [])) [5]
      (\<lparr>st_mode = ShadowV2 (Some [1, 2, 3, 4, 5, 6, 7, 8]), st_raw = [], st_buffer = [], st_pending = None\<rparr>,
        \<lparr>tr_in = [], tr_out = [WriteAccept 2, WriteBlock, WriteAccept 99], tr_sent = []\<rparr>) = Some (st', io')
    \<and> st_pending st' = None \<and> tr_sent io' = [0x17, 0x03] @ [0x17, 0x03, 0x03, 0, 1, 5]"
proof -
  let ?hs = "\<lambda>k d. [] :: bytes"
  have d: "shadow_tls_encode_records ?hs (ShadowV2 (Some [1, 2, 3, 4, 5, 6, 7, 8])) [5]
      = ([0x17, 0x03, 0x03, 0, 9, 1, 2, 3, 4, 5, 6, 7, 8, 5], ShadowV2 None)"
    "shadow_tls_encode_records ?hs (ShadowV2 None) [5] = ([0x17, 0x03, 0x03, 0, 1, 5], ShadowV2 None)"
    by code_simp+
  have m: "ShadowV2 (Some [1, 2, 3, 4, 5, 6, 7, 8]) \<noteq> ShadowPlain" by simp
  have "\<exists>st' io'. write_all 2 (shadow_poll_write ?hs) [5]
      (\<lparr>st_mode = ShadowV2 (Some [1, 2, 3, 4, 5, 6, 7, 8]), st_raw = [], st_buffer = [], st_pending = None\<rparr>,
        \<lparr>tr_in = [], tr_out = [WriteAccept 2, WriteBlock, WriteAccept 99], tr_sent = []\<rparr>) = Some (st', io')
    \<and> st_pending st' = None \<and> tr_sent io' = [] @ take 2 [0x17, 0x03, 0x03, 0, 9, 1, 2, 3, 4, 5, 6, 7, 8, 5] @ [0x17, 0x03, 0x03, 0, 1, 5]"
    using shadow_tls_backpressure_drops [OF m d, of 2 99
      "\<lparr>tr_in = [], tr_out = [WriteAccept 2, WriteBlock, WriteAccept 99], tr_sent = []\<rparr>"] by simp
  then show ?thesis by simp
qed

end
