(* ===== verification/Shadow_Handshake.thy ===== *)
theory Shadow_Handshake
  imports Shadow_Tls
begin

text \<open>
  The handshake of ShadowTLS version 3 (\<open>adapter/shadowsocks/transport.rs\<close>): the stream under the TLS
  package that signs the client hello, takes the server's random bytes out of its hello, and unwraps the
  records in which the proxy proves that it knows the password; then what the transport is made of when the
  handshake is over. HMAC-SHA1 (\<open>hs\<close>), SHA-256 and the random bytes are arguments.
\<close>

section \<open>The client hello\<close>

text \<open>
  28 random bytes and 4 bytes of an HMAC over the hello, with zeros in their place, are its session id. A
  header with no payload, and a length field that ends inside the session id, are a panic.
\<close>

definition patch_client_hello :: "(bytes \<Rightarrow> bytes \<Rightarrow> bytes) \<Rightarrow> bytes \<Rightarrow> bytes \<Rightarrow> bytes \<Rightarrow> (io_error, bytes) res" where
  "patch_client_hello hs random password hello =
    (if length hello < 5 \<or> hello ! 0 \<noteq> 0x16 then Ok hello
     else let n = be16 (hello ! 3) (hello ! 4)
       in if length hello < 5 + n then Ok hello
          else if length hello \<le> 5 then Inl Panic
          else if hello ! 5 \<noteq> 1 then Ok hello
          else if length hello \<le> 43 then Err InvalidData
          else if unat (hello ! 43) \<noteq> 32 then Err InvalidData
          else if length hello < 76 then Err InvalidData
          else if 5 + n < 76 then Inl Panic
          else
            let digest = hs password (drop 5 (take 44 hello) @ (random @ replicate 4 0) @ drop 76 (take (5 + n) hello))
            in Ok (take 44 hello @ random @ take 4 digest @ drop 76 hello))"

section \<open>The state of the handshake\<close>

record shadow_handshake =
  sh_password :: bytes
  sh_wrote_client_hello :: bool
  sh_raw :: bytes
  sh_buffer :: bytes
  sh_server_random :: "bytes option"
  sh_read_hmac :: "running_hmac option"
  sh_read_hmac_key :: "bytes option"
  sh_is_tls13 :: bool
  sh_authorized :: bool
  sh_pending :: "pending_write option"

definition new_shadow_handshake :: "bytes \<Rightarrow> shadow_handshake" where
  "new_shadow_handshake password =
    \<lparr>sh_password = password, sh_wrote_client_hello = False, sh_raw = [], sh_buffer = [], sh_server_random = None,
     sh_read_hmac = None, sh_read_hmac_key = None, sh_is_tls13 = False, sh_authorized = False, sh_pending = None\<rparr>"

text \<open>The extensions of a server hello between two offsets.\<close>

function tls13_extensions :: "bytes \<Rightarrow> nat \<Rightarrow> nat \<Rightarrow> bool" where
  "tls13_extensions d i stop =
    (if i + 4 \<le> stop then
       let ext_type = be16 (d ! i) (d ! (i + 1));
           ext_len = be16 (d ! (i + 2)) (d ! (i + 3))
       in if i + 4 + ext_len > stop then False
          else if ext_type = 0x2b \<and> 2 \<le> ext_len \<and> 4 \<in> set (take ext_len (drop (i + 4) d)) then True
          else tls13_extensions d (i + 4 + ext_len) stop
     else False)"
  by pat_completeness auto
termination by (relation "measure (\<lambda>(d, i, stop). stop - i)") auto

declare tls13_extensions.simps [simp del]

definition server_hello_is_tls13 :: "bytes \<Rightarrow> bool" where
  "server_hello_is_tls13 d =
    (if length d < 39 then False
     else
       let i = 39 + unat (d ! 38)
       in if length d < i + 2 then False
          else if be16 (d ! i) (d ! (i + 1)) \<in> {0x1301..0x1305} then True
          else if length d \<le> i + 2 then False
          else
            let i = i + 3 + unat (d ! (i + 2))
            in if length d < i + 2 then False
               else tls13_extensions d (i + 2) (min (i + 2 + be16 (d ! i) (d ! (i + 1))) (length d)))"

definition capture_server_hello :: "(bytes \<Rightarrow> bytes) \<Rightarrow> bytes \<Rightarrow> shadow_handshake \<Rightarrow> shadow_handshake" where
  "capture_server_hello sha256 frame st =
    (if length frame < 43 \<or> frame ! 5 \<noteq> 2 then st
     else
       let random = take 32 (drop 11 frame);
           tls13 = server_hello_is_tls13 (drop 5 frame)
       in st\<lparr>sh_server_random := Some random,
            sh_read_hmac := Some (hmac_update random (hmac_new (sh_password st))),
            sh_read_hmac_key := Some (sha256 (sh_password st @ random)),
            sh_is_tls13 := tls13, sh_authorized := (if tls13 then sh_authorized st else True)\<rparr>)"

text \<open>Byte \<open>i\<close> of the data with byte \<open>i\<close> modulo its length of the key.\<close>

definition xor_key :: "bytes \<Rightarrow> bytes \<Rightarrow> bytes" where
  "xor_key key d = map (\<lambda>(i, b). b XOR key ! (i mod length key)) (enumerate 0 d)"

text \<open>The frame as it then is, whether it was unwrapped or not.\<close>

definition unwrap_application_data :: "(bytes \<Rightarrow> bytes \<Rightarrow> bytes) \<Rightarrow> bytes \<Rightarrow> shadow_handshake \<Rightarrow> bytes \<times> shadow_handshake" where
  "unwrap_application_data hs frame st =
    (if length frame < 9 then (frame, st)
     else case sh_read_hmac st of
         None \<Rightarrow> (frame, st)
       | Some h \<Rightarrow>
           (case verify_application_data hs frame h False of
              (False, h) \<Rightarrow> (frame, st\<lparr>sh_read_hmac := Some h, sh_authorized := False\<rparr>)
            | (True, h) \<Rightarrow>
                (let st = st\<lparr>sh_read_hmac := Some h\<rparr>
                 in case sh_read_hmac_key st of
                      None \<Rightarrow> (frame, st)
                    | Some key \<Rightarrow>
                        (take 3 frame @ to_be 2 (length frame - 9) @ xor_key key (drop 9 frame), st\<lparr>sh_authorized := True\<rparr>))))"

definition shadow_handshake_step :: "(bytes \<Rightarrow> bytes \<Rightarrow> bytes) \<Rightarrow> (bytes \<Rightarrow> bytes) \<Rightarrow> shadow_handshake \<Rightarrow> bytes
    \<Rightarrow> shadow_handshake frame_step" where
  "shadow_handshake_step hs sha256 st raw =
    (if length raw < 5 then Wait st
     else let n = 5 + be16 (raw ! 3) (raw ! 4)
       in if length raw < n then Wait st
          else
            let frame = take n raw;
                (frame, st) =
                  (if frame ! 0 = 0x16 then (frame, capture_server_hello sha256 frame st)
                   else if frame ! 0 = 0x17 then unwrap_application_data hs frame st
                   else (frame, st))
            in Took st frame (drop n raw))"

definition drain_handshake_records :: "(bytes \<Rightarrow> bytes \<Rightarrow> bytes) \<Rightarrow> (bytes \<Rightarrow> bytes) \<Rightarrow> shadow_handshake \<Rightarrow> bool \<times> shadow_handshake" where
  "drain_handshake_records hs sha256 st =
    (case frame_loop (shadow_handshake_step hs sha256) st (sh_raw st) (sh_buffer st) of
       (_, st', raw, out) \<Rightarrow> (length raw < length (sh_raw st), st'\<lparr>sh_raw := raw, sh_buffer := out\<rparr>))"

section \<open>The stream under the handshake\<close>

function handshake_read_loop :: "(bytes \<Rightarrow> bytes \<Rightarrow> bytes) \<Rightarrow> (bytes \<Rightarrow> bytes) \<Rightarrow> nat \<Rightarrow> shadow_handshake \<Rightarrow> transport
    \<Rightarrow> bytes poll \<times> shadow_handshake \<times> transport" where
  "handshake_read_loop hs sha256 room st io =
    (case drain_handshake_records hs sha256 st of
       (drained, st) \<Rightarrow>
         (case (if drained then drain_buffer (sh_buffer st) room else None) of
            Some (bs, rest) \<Rightarrow> (Ready bs, st\<lparr>sh_buffer := rest\<rparr>, io)
          | None \<Rightarrow>
              (case poll_read_io 4096 io of
                 (Pending, io') \<Rightarrow> (Pending, st, io')
               | (Fault e, io') \<Rightarrow> (Fault e, st, io')
               | (Ready bs, io') \<Rightarrow>
                   (if bs = [] then (if sh_raw st = [] then Ready [] else Fault UnexpectedEof, st, io')
                    else handshake_read_loop hs sha256 room (st\<lparr>sh_raw := sh_raw st @ bs\<rparr>) io'))))"
  by pat_completeness auto
termination
  by (relation "measure (\<lambda>(hs, sha256, room, st, io). in_size (tr_in io))") (auto dest: poll_read_io_sizeI)

declare handshake_read_loop.simps [simp del]

definition handshake_poll_read :: "(bytes \<Rightarrow> bytes \<Rightarrow> bytes) \<Rightarrow> (bytes \<Rightarrow> bytes) \<Rightarrow> nat \<Rightarrow> shadow_handshake \<times> transport
    \<Rightarrow> bytes poll \<times> shadow_handshake \<times> transport" where
  "handshake_poll_read hs sha256 room = (\<lambda>(st, io).
    (case drain_buffer (sh_buffer st) room of
       Some (bs, rest) \<Rightarrow> (Ready bs, st\<lparr>sh_buffer := rest\<rparr>, io)
     | None \<Rightarrow> handshake_read_loop hs sha256 room st io))"

text \<open>No result is a panic. The first write is the client hello; the later ones go to the transport.\<close>

definition handshake_poll_write :: "(bytes \<Rightarrow> bytes \<Rightarrow> bytes) \<Rightarrow> bytes \<Rightarrow> bytes \<Rightarrow> shadow_handshake \<times> transport
    \<Rightarrow> nat poll option \<times> shadow_handshake \<times> transport" where
  "handshake_poll_write hs random buf = (\<lambda>(st, io).
    (let send = (\<lambda>p st. case shadow_write_loop poll_write_io p io of
           (r, pending, io) \<Rightarrow> (Some r, st\<lparr>sh_pending := pending\<rparr>, io))
     in case sh_pending st of
          Some p \<Rightarrow> send p st
        | None \<Rightarrow>
            (if sh_wrote_client_hello st then (case poll_write_io buf io of (r, io) \<Rightarrow> (Some r, st, io))
             else
               let st = st\<lparr>sh_wrote_client_hello := True\<rparr>
               in case patch_client_hello hs random (sh_password st) buf of
                    Inr hello \<Rightarrow> send (new_pending hello (length buf)) st
                  | Inl (Fail e) \<Rightarrow> (Some (Fault InvalidData), st, io)
                  | Inl Panic \<Rightarrow> (None, st, io))))"

section \<open>The end of the handshake\<close>

text \<open>The bytes are C and S, for the two directions.\<close>

datatype shadow_tls_error = HandshakeNotAuthorised | ServerRandomMissing

definition into_verified_state :: "shadow_handshake \<Rightarrow> shadow_tls_error + running_hmac \<times> running_hmac \<times> running_hmac option" where
  "into_verified_state st =
    (if \<not> sh_authorized st then Inl HandshakeNotAuthorised
     else case sh_server_random st of
         None \<Rightarrow> Inl ServerRandomMissing
       | Some random \<Rightarrow>
           Inr (hmac_update [0x43] (hmac_update random (hmac_new (sh_password st))),
                hmac_update [0x53] (hmac_update random (hmac_new (sh_password st))),
                sh_read_hmac st))"

text \<open>The end of \<open>connect_v3\<close>: the transport that takes over, with nothing of what the handshake still held.\<close>

definition shadow_tls_v3_stream :: "shadow_handshake \<Rightarrow> shadow_tls_error + shadow_tls" where
  "shadow_tls_v3_stream st =
    (case into_verified_state st of
       Inl e \<Rightarrow> Inl e
     | Inr (add, ver, ign) \<Rightarrow> Inr (new_shadow_v3 add ver ign))"

section \<open>The handshake of version 2\<close>

text \<open>The stream that hashes all that is read, and the tag it ends with.\<close>

definition hashed_poll_read :: "nat \<Rightarrow> running_hmac \<times> transport \<Rightarrow> bytes poll \<times> running_hmac \<times> transport" where
  "hashed_poll_read room = (\<lambda>(h, io).
    (case poll_read_io room io of
       (Ready bs, io) \<Rightarrow> (Ready bs, if bs = [] then h else hmac_update bs h, io)
     | (r, io) \<Rightarrow> (r, h, io)))"

definition hashed_digest :: "(bytes \<Rightarrow> bytes \<Rightarrow> bytes) \<Rightarrow> running_hmac \<Rightarrow> bytes" where
  "hashed_digest hs h = hs (rh_key h) (rh_data h)"

definition shadow_tls_v2_stream :: "(bytes \<Rightarrow> bytes \<Rightarrow> bytes) \<Rightarrow> running_hmac \<Rightarrow> shadow_tls" where
  "shadow_tls_v2_stream hs h = new_shadow_v2 (take 8 (hashed_digest hs h))"

section \<open>The records of the handshake\<close>

lemma shadow_handshake_step_cases:
  assumes "5 \<le> length raw" "5 + be16 (raw ! 3) (raw ! 4) \<le> length raw"
  shows "\<exists>st' frame. \<forall>e. shadow_handshake_step hs sha256 st (raw @ e)
    = Took st' frame (drop (5 + be16 (raw ! 3) (raw ! 4)) raw @ e)"
proof -
  have nth: "(raw @ e) ! i = raw ! i" if "i < 5" for i e using assms(1) that by (simp add: nth_append)
  show ?thesis using assms by (simp add: shadow_handshake_step_def Let_def nth split_beta)
qed

lemma shadow_handshake_step_wait: "shadow_handshake_step hs sha256 st raw = Wait st' \<Longrightarrow> st' = st"
  by (auto simp: shadow_handshake_step_def Let_def split: if_splits prod.splits)

lemma shadow_handshake_step_enough:
  assumes "shadow_handshake_step hs sha256 st raw = Took st' d r"
  shows "length r < length raw \<and> (\<forall>e. shadow_handshake_step hs sha256 st (raw @ e) = Took st' d (r @ e))"
proof -
  have raw: "5 \<le> length raw" "5 + be16 (raw ! 3) (raw ! 4) \<le> length raw"
    using assms by (auto simp: shadow_handshake_step_def Let_def split: if_splits)
  obtain st1 frame where all: "\<And>e. shadow_handshake_step hs sha256 st (raw @ e)
    = Took st1 frame (drop (5 + be16 (raw ! 3) (raw ! 4)) raw @ e)"
    using shadow_handshake_step_cases [OF raw] by blast
  then show ?thesis using assms all [of "[]"] raw by auto
qed

lemma shadow_handshake_never_rejects: "shadow_handshake_step hs sha256 st raw \<noteq> Reject st' r"
  by (auto simp: shadow_handshake_step_def Let_def split: if_splits prod.splits)

interpretation shadow_handshake: frame_codec "shadow_handshake_step hs sha256" for hs sha256
proof (unfold_locales, goal_cases)
  case (1 st b st' e)
  then show ?case using shadow_handshake_step_wait by metis
next
  case (2 st b st' d r)
  then show ?case using shadow_handshake_step_enough by blast
next
  case (3 st b st' d r e)
  then show ?case using shadow_handshake_step_enough by blast
next
  case (4 st b st' r e)
  then show ?case using shadow_handshake_never_rejects by metis
qed

text \<open>A whole record, and an HMAC for examples.\<close>

definition toy_hmac :: "bytes \<Rightarrow> bytes \<Rightarrow> bytes" where
  "toy_hmac k d = take 4 (d @ k @ [1, 2, 3, 4])"

lemma length_toy_hmac: "4 \<le> length (toy_hmac k d)"
  by (simp add: toy_hmac_def)

lemma shadow_handshake_step_record:
  assumes "length x < 65536"
  shows "shadow_handshake_step hs sha256 st (shadow_record x @ r)
    = (case unwrap_application_data hs (shadow_record x) st of (frame, st) \<Rightarrow> Took st frame r)"
proof -
  let ?raw = "shadow_record x @ r"
  have len: "length (shadow_record x) = 5 + length x" by (simp add: shadow_record_def)
  have n: "be16 (?raw ! 3) (?raw ! 4) = length x"
    using assms by (simp add: shadow_record_def nth_append be16_to_be)
  have "shadow_record x ! 0 = 0x17" by (simp add: shadow_record_def)
  moreover have "take (5 + be16 (?raw ! 3) (?raw ! 4)) ?raw = shadow_record x" "drop (5 + be16 (?raw ! 3) (?raw ! 4)) ?raw = r"
    using n len by simp_all
  ultimately show ?thesis using len n by (simp add: shadow_handshake_step_def Let_def)
qed

lemma xor_key_twice: "xor_key key (xor_key key d) = d"
  by (rule nth_equalityI) (simp_all add: xor_key_def nth_enumerate_eq xor.assoc)

lemma length_xor_key [simp]: "length (xor_key key d) = length d"
  by (simp add: xor_key_def)

section \<open>Properties\<close>

text \<open>
  The records that the proxy wraps during the handshake are unwrapped. When the server hello has
  been seen, a record of the other host that comes with the key's bytes over its data and the tag of the running
  HMAC in front goes to the TLS package as it was, its length included, and authorises the handshake.
\<close>

theorem shadow_handshake_unwraps:
  assumes "sh_read_hmac st = Some h" "sh_read_hmac_key st = Some key" "\<And>k d. 4 \<le> length (hs k d)" "length d < 65532"
    and "data = xor_key key d" "h' = hmac_update data h"
  shows "shadow_handshake_step hs sha256 st (shadow_record (hmac_first4 hs h' @ data) @ r)
    = Took (st\<lparr>sh_read_hmac := Some h', sh_authorized := True\<rparr>) (shadow_record d) r"
proof -
  let ?frame = "shadow_record (hmac_first4 hs h' @ data)"
  have four: "length (hmac_first4 hs h') = 4" using assms(3) by (simp add: hmac_first4_def)
  have len: "length data = length d" using assms(5) by simp
  have "verify_application_data hs ?frame h False = (True, h')"
    using four assms(6) by (simp add: verify_application_data_def drop_9_shadow_record drop_shadow_record Let_def)
  then have "unwrap_application_data hs ?frame st = (shadow_record d, st\<lparr>sh_read_hmac := Some h', sh_authorized := True\<rparr>)"
    using assms(1,2,5) four len
    by (simp add: unwrap_application_data_def drop_9_shadow_record drop_shadow_record xor_key_twice shadow_record_def)
  then show ?thesis using assms(4) four len by (simp add: shadow_handshake_step_record)
qed

theorem shadow_handshake_unwraps_witness:
  "\<exists>st'. shadow_handshake_step toy_hmac id
      ((new_shadow_handshake [9])\<lparr>sh_read_hmac := Some (hmac_new [9]), sh_read_hmac_key := Some [1, 3]\<rparr>)
      (shadow_record ([4, 6, 9, 1] @ [4, 6])) = Took st' (shadow_record [5, 5]) [] \<and> sh_authorized st'"
proof -
  let ?st = "(new_shadow_handshake [9])\<lparr>sh_read_hmac := Some (hmac_new [9]), sh_read_hmac_key := Some [1, 3]\<rparr>"
  have st: "sh_read_hmac ?st = Some (hmac_new [9])" "sh_read_hmac_key ?st = Some [1, 3]" by simp_all
  have data: "[4, 6] = xor_key [1, 3] [5, 5 :: byte]" by (simp add: xor_key_def)
  have small: "length [5, 5 :: byte] < 65532" by simp
  have mac: "hmac_first4 toy_hmac (hmac_update [4, 6] (hmac_new [9])) = [4, 6, 9, 1]"
    by (simp add: hmac_first4_def hmac_update_def hmac_new_def toy_hmac_def)
  have "shadow_handshake_step toy_hmac id ?st (shadow_record ([4, 6, 9, 1] @ [4, 6]) @ [])
      = Took (?st\<lparr>sh_read_hmac := Some (hmac_update [4, 6] (hmac_new [9])), sh_authorized := True\<rparr>) (shadow_record [5, 5]) []"
    using shadow_handshake_unwraps [where hs = toy_hmac and r = "[]" and ?sha256.0 = id, OF st length_toy_hmac small data refl] unfolding mac .
  then show ?thesis by simp
qed

text \<open>A handshake: the states that the TLS package drives the stream through, with any transport at each poll.\<close>

inductive handshake_run :: "(bytes \<Rightarrow> bytes \<Rightarrow> bytes) \<Rightarrow> (bytes \<Rightarrow> bytes) \<Rightarrow> bytes \<Rightarrow> shadow_handshake \<Rightarrow> bool"
  for hs :: "bytes \<Rightarrow> bytes \<Rightarrow> bytes" and sha256 :: "bytes \<Rightarrow> bytes" and password :: bytes where
  start: "handshake_run hs sha256 password (new_shadow_handshake password)"
| read: "handshake_run hs sha256 password st \<Longrightarrow> handshake_poll_read hs sha256 room (st, io) = (r, st', io')
    \<Longrightarrow> handshake_run hs sha256 password st'"
| sent: "handshake_run hs sha256 password st \<Longrightarrow> handshake_poll_write hs random buf (st, io) = (r', st', io')
    \<Longrightarrow> handshake_run hs sha256 password st'"

definition handshake_inv :: "bytes \<Rightarrow> shadow_handshake \<Rightarrow> bool" where
  "handshake_inv password st \<longleftrightarrow> sh_password st = password
    \<and> (sh_read_hmac st = None \<longleftrightarrow> sh_server_random st = None) \<and> (sh_read_hmac_key st = None \<longleftrightarrow> sh_server_random st = None)
    \<and> (sh_authorized st \<longrightarrow> sh_server_random st \<noteq> None)"

lemma handshake_inv_buffers [simp]:
  "handshake_inv password (st\<lparr>sh_raw := a\<rparr>) = handshake_inv password st"
  "handshake_inv password (st\<lparr>sh_buffer := b\<rparr>) = handshake_inv password st"
  "handshake_inv password (st\<lparr>sh_pending := p\<rparr>) = handshake_inv password st"
  "handshake_inv password (st\<lparr>sh_wrote_client_hello := w\<rparr>) = handshake_inv password st"
  by (simp_all add: handshake_inv_def)

lemma handshake_capture_inv: "handshake_inv password st \<Longrightarrow> handshake_inv password (capture_server_hello sha256 frame st)"
  by (simp add: capture_server_hello_def handshake_inv_def Let_def)

lemma handshake_unwrap_inv: "handshake_inv password st \<Longrightarrow> handshake_inv password (snd (unwrap_application_data hs frame st))"
  by (auto simp: unwrap_application_data_def handshake_inv_def Let_def split: option.split prod.split bool.split)

lemma handshake_step_inv:
  assumes "shadow_handshake_step hs sha256 st raw = Took st' d r" "handshake_inv password st"
  shows "handshake_inv password st'"
proof -
  let ?frame = "take (5 + be16 (raw ! 3) (raw ! 4)) raw"
  have "st' \<in> {capture_server_hello sha256 ?frame st, snd (unwrap_application_data hs ?frame st), st}"
    using assms(1) by (auto simp: shadow_handshake_step_def Let_def split_beta split: if_splits)
  then show ?thesis using assms(2) handshake_capture_inv handshake_unwrap_inv by blast
qed

lemma handshake_loop_inv:
  "frame_loop (shadow_handshake_step hs sha256) st raw out = (x, st', raw', out') \<Longrightarrow> handshake_inv password st
    \<Longrightarrow> handshake_inv password st'"
proof (induction "length raw" arbitrary: st raw out rule: less_induct)
  case less
  show ?case
  proof (cases "shadow_handshake_step hs sha256 st raw")
    case (Took st1 d r)
    have len: "length r < length raw" using shadow_handshake_step_enough [OF Took] by blast
    then have "frame_loop (shadow_handshake_step hs sha256) st1 r (out @ d) = (x, st', raw', out')"
      using less(2) shadow_handshake.loop_took [OF Took] by simp
    then show ?thesis using less(1) [OF len] handshake_step_inv [OF Took less(3)] by blast
  next
    case (Wait st1)
    then show ?thesis using less(2,3) shadow_handshake_step_wait [OF Wait] shadow_handshake.loop_wait [OF Wait] by simp
  next
    case (Reject st1 r)
    then show ?thesis using shadow_handshake_never_rejects by blast
  qed
qed

lemma drain_handshake_inv:
  "drain_handshake_records hs sha256 st = (drained, st') \<Longrightarrow> handshake_inv password st \<Longrightarrow> handshake_inv password st'"
  using handshake_loop_inv by (auto simp: drain_handshake_records_def split: prod.splits)

lemma handshake_read_loop_inv:
  "handshake_read_loop hs sha256 room st io = (r, st', io') \<Longrightarrow> handshake_inv password st \<Longrightarrow> handshake_inv password st'"
proof (induction hs sha256 room st io rule: handshake_read_loop.induct)
  case (1 hs sha256 room st io)
  note step = handshake_read_loop.simps [of hs sha256 room st io]
  obtain drained st1 where d: "drain_handshake_records hs sha256 st = (drained, st1)" by fastforce
  have inv: "handshake_inv password st1" using drain_handshake_inv [OF d 1(3)] .
  obtain x io1 where x: "poll_read_io 4096 io = (x, io1)" by fastforce
  show ?case
  proof (cases "(if drained then drain_buffer (sh_buffer st1) room else None) = None \<and> (\<exists>bs. x = Ready bs \<and> bs \<noteq> [])")
    case True
    then obtain bs where bs: "(if drained then drain_buffer (sh_buffer st1) room else None) = None" "x = Ready bs" "bs \<noteq> []"
      by blast
    have "handshake_read_loop hs sha256 room (st1\<lparr>sh_raw := sh_raw st1 @ bs\<rparr>) io1 = (r, st', io')"
      using 1(2) d bs x by (simp add: step)
    from 1(1) [OF d [symmetric] bs(1) x [symmetric] bs(2,3) this] inv show ?thesis by simp
  next
    case False
    then show ?thesis using 1(2) d x inv
      by (cases x) (auto simp: step split: if_splits option.splits)
  qed
qed

lemma handshake_run_inv: "handshake_run hs sha256 password st \<Longrightarrow> handshake_inv password st"
proof (induction rule: handshake_run.induct)
  case start
  show ?case by (simp add: handshake_inv_def new_shadow_handshake_def)
next
  case (read st room io r st' io')
  then show ?case using handshake_read_loop_inv
    by (auto simp: handshake_poll_read_def split: option.splits prod.splits)
next
  case (sent st random buf io r' st' io')
  then show ?case
    by (auto simp: handshake_poll_write_def Let_def split: option.splits prod.splits if_splits sum.splits fault.splits)
qed



text \<open>
  The stream that takes over has lost what the handshake had read of a record. When the handshake ends
  with the first bytes of a record of the proxy read, such as one of the other host's session tickets, the
  rest of that record is taken for the next record, and the stream fails.
\<close>

theorem shadow_handshake_drops_partial_record:
  assumes "shadow_tls_v3_stream st = Inr stream" "sh_raw st @ rest = shadow_record x"
    and "5 \<le> length rest" "length rest \<le> 4096" "rest ! 0 \<noteq> 0x17" "tr_in io = [ReadData rest]"
  shows "\<exists>s'. shadow_poll_read hs room (stream, io) = (Fault InvalidData, s')"
proof -
  obtain add ver ign where s: "stream = new_shadow_v3 add ver ign"
    using assms(1) by (auto simp: shadow_tls_v3_stream_def split: sum.splits)
  let ?m = "ShadowV3 add ver ign" and ?io = "io\<lparr>tr_in := []\<rparr>"
  have ne: "rest \<noteq> []" using assms(3) by auto
  have empty: "shadow_tls_drain_records hs ?m [] [] = (Ok False, ?m, [], [])"
    by (simp add: shadow_tls_drain_records_def frame_loop.simps shadow_tls_step_def)
  have bad: "shadow_tls_drain_records hs ?m rest [] = (Err InvalidData, ?m, rest, [])"
    using assms(3,5) by (simp add: shadow_tls_drain_records_def frame_loop.simps [of _ _ rest] shadow_tls_step_def)
  have "poll_read_io 4096 io = (Ready rest, ?io)" using assms(4,6) ne by (simp add: poll_read_io_def)
  then show ?thesis using empty bad ne
    by (simp add: s new_shadow_v3_def shadow_poll_read_def shadow_read_loop.simps [of _ _ "\<lparr>st_mode = ?m, st_raw = [], st_buffer = [], st_pending = None\<rparr>"]
        shadow_read_loop.simps [of _ _ "\<lparr>st_mode = ?m, st_raw = rest, st_buffer = [], st_pending = None\<rparr>"])
qed

theorem shadow_handshake_drops_partial_record_witness:
  "let st = (new_shadow_handshake [7])\<lparr>sh_raw := [0x17, 0x03, 0x03], sh_server_random := Some [1], sh_authorized := True\<rparr>
   in \<exists>stream s'. shadow_tls_v3_stream st = Inr stream
     \<and> shadow_poll_read toy_hmac 9 (stream, \<lparr>tr_in = [ReadData [0, 4, 1, 2, 3, 4]], tr_out = [], tr_sent = []\<rparr>) = (Fault InvalidData, s')"
proof -
  let ?st = "(new_shadow_handshake [7])\<lparr>sh_raw := [0x17, 0x03, 0x03], sh_server_random := Some [1], sh_authorized := True\<rparr>"
  obtain stream where stream: "shadow_tls_v3_stream ?st = Inr stream"
    by (simp add: shadow_tls_v3_stream_def into_verified_state_def)
  have x: "sh_raw ?st @ [0, 4, 1, 2, 3, 4] = shadow_record [1, 2, 3, 4]" by code_simp
  from shadow_handshake_drops_partial_record [OF stream x, of "\<lparr>tr_in = [ReadData [0, 4, 1, 2, 3, 4]], tr_out = [], tr_sent = []\<rparr>" toy_hmac 9] stream
  show ?thesis by simp
qed

text \<open>
  The client hello carries the proof of the password. A hello with a session id of 32 bytes keeps its
  length and everything outside the session id, and the last four bytes of the session id are the HMAC that
  the proxy computes over the hello it receives with zeros in their place.
\<close>

theorem shadow_client_hello_signed:
  assumes "hello ! 0 = 0x16" "hello ! 5 = 1" "hello ! 43 = 32" "n = be16 (hello ! 3) (hello ! 4)"
    and "76 \<le> 5 + n" "5 + n \<le> length hello" "length random = 28" "\<And>k d. 4 \<le> length (hs k d)"
  shows "\<exists>h. patch_client_hello hs random password hello = Ok h \<and> length h = length hello
    \<and> take 44 h = take 44 hello \<and> drop 76 h = drop 76 hello \<and> take 28 (drop 44 h) = random
    \<and> take 4 (drop 72 h) = take 4 (hs password (drop 5 (take 72 h) @ replicate 4 0 @ drop 76 (take (5 + n) h)))"
proof -
  let ?digest = "hs password (drop 5 (take 44 hello) @ (random @ replicate 4 0) @ drop 76 (take (5 + n) hello))"
  let ?h = "take 44 hello @ random @ take 4 ?digest @ drop 76 hello"
  have len: "length (take 44 hello) = 44" "length (take 4 ?digest) = 4" using assms(5,6,8) by simp_all
  have n: "\<not> length hello < 76" "\<not> length hello \<le> 43" "\<not> length hello \<le> 5" "\<not> length hello < 5 + n" "\<not> length hello < 5" "\<not> 5 + n < 76"
    using assms(5,6) by linarith+
  have patched: "patch_client_hello hs random password hello = Ok ?h"
    using assms(1-4) n by (simp add: patch_client_hello_def Let_def)
  have 72: "take 72 ?h = take 44 hello @ random" using len assms(7) by simp
  have 76: "drop 76 ?h = drop 76 hello" using len assms(7) by simp
  have "drop 76 (take (5 + n) ?h) = drop 76 (take (5 + n) hello)"
    using arg_cong [OF 76, of "take (5 + n - 76)"] by (simp only: drop_take [of 76 "5 + n"])
  then have "hs password (drop 5 (take 72 ?h) @ replicate 4 0 @ drop 76 (take (5 + n) ?h)) = ?digest"
    using n unfolding 72 by simp
  moreover have "take 4 (drop 72 ?h) = take 4 ?digest" using len assms(7) by simp
  ultimately have "take 4 (drop 72 ?h) = take 4 (hs password (drop 5 (take 72 ?h) @ replicate 4 0 @ drop 76 (take (5 + n) ?h)))"
    by (simp only:)
  moreover have "length ?h = length hello" using len assms(7) n by simp
  moreover have "take 44 ?h = take 44 hello" "take 28 (drop 44 ?h) = random" using len assms(7) by simp_all
  ultimately show ?thesis using patched 76 by blast
qed

theorem shadow_client_hello_signed_witness:
  "\<exists>h. patch_client_hello toy_hmac (replicate 28 7) [1] ([0x16, 3, 1, 0, 71, 1] @ replicate 37 0 @ [32] @ replicate 32 5) = Ok h
    \<and> length h = 76 \<and> take 28 (drop 44 h) = replicate 28 7"
proof -
  let ?hello = "[0x16, 3, 1, 0, 71, 1] @ replicate 37 0 @ [32] @ replicate 32 5 :: bytes"
  have hello: "?hello ! 0 = 0x16" "?hello ! 5 = 1" "?hello ! 43 = 32" "71 = be16 (?hello ! 3) (?hello ! 4)" by code_simp+
  have len: "76 \<le> 5 + (71 :: nat)" "5 + 71 \<le> length ?hello" "length (replicate 28 (7 :: byte)) = 28" by simp_all
  from shadow_client_hello_signed [where hs = toy_hmac and password = "[1]", OF hello len length_toy_hmac]
  show ?thesis by auto
qed

end
