(* ===== verification/Vless_Mux.thy ===== *)
theory Vless_Mux
  imports Vless_Codec Vless_Vision Packet_Lane
begin

text \<open>
  The mux worker of the VLESS adapter (\<open>adapter/vless.rs\<close>): one stream that carries the datagrams of many
  requests as XUDP frames, padded when the flow is Vision; its writer and its reader task (the table of workers
  is in \<open>Vless_Config\<close>). The stream is what has been written to it and the pieces its reader is given.
\<close>

section \<open>The worker\<close>

record vless_mux =
  mw_sent :: bytes
  mw_vision_uuid :: "bytes option"
  mw_vision_uuid_pending :: bool
  mw_first_packet :: bool
  mw_pending :: demux_state
  mw_next_request_id :: u64
  mw_closed :: bool
  mw_reading :: bool
  mw_header :: bytes
  mw_response_header_read :: bool
  mw_vision_downlink :: "unpadding_state option"
  mw_read_buffer :: bytes

definition new_vless_mux :: "bytes option \<Rightarrow> vless_mux" where
  "new_vless_mux uuid =
    \<lparr>mw_sent = [], mw_vision_uuid = uuid, mw_vision_uuid_pending = (uuid \<noteq> None), mw_first_packet = True,
     mw_pending = new_demux, mw_next_request_id = 0, mw_closed = False, mw_reading = True, mw_header = [],
     mw_response_header_read = False, mw_vision_downlink = map_option new_unpadding uuid, mw_read_buffer = []\<rparr>"

definition mux_close :: "vless_mux \<Rightarrow> vless_mux \<times> event list" where
  "mux_close w =
    (case fail_all ''VLESS XUDP worker closed'' (mw_pending w) of
       (d, ev) \<Rightarrow> (w\<lparr>mw_closed := True, mw_reading := False, mw_pending := d\<rparr>, ev))"

text \<open>The bytes of a frame on the stream: the first padded one has the user's id in front.\<close>

definition mux_write_frame :: "bytes \<Rightarrow> vless_mux \<Rightarrow> bytes \<times> vless_mux" where
  "mux_write_frame frame w =
    (case mw_vision_uuid w of
       Some uuid \<Rightarrow>
         (xtls_padding (Some frame) 0 (if mw_vision_uuid_pending w then Some uuid else None) True,
          w\<lparr>mw_vision_uuid_pending := False\<rparr>)
     | None \<Rightarrow> (frame, w))"

datatype mux_error = MuxWorkerClosed | MuxEncode vless_error | MuxWrite | MuxClosedEarly | MuxTimedOut | MuxFailed string

text \<open>
  \<open>send_packet\<close> until it waits; \<open>written\<close> says whether the stream took the frame. The request is registered
  before the packet is encoded, and stays registered when that fails.
\<close>

definition mux_send_start :: "target_address \<Rightarrow> bytes \<Rightarrow> nat \<Rightarrow> bool \<Rightarrow> vless_mux
    \<Rightarrow> (mux_error, u64) res \<times> vless_mux \<times> event list" where
  "mux_send_start t payload ch written w =
    (if mw_closed w then (Err MuxWorkerClosed, w, [])
     else
       let key = packet_target_key (host t) (target_port t);
           rid = mw_next_request_id w;
           w = w\<lparr>mw_next_request_id := rid + 1, mw_pending := register key rid ch (mw_pending w)\<rparr>
       in case encode_xudp_packet t payload (mw_first_packet w) of
            Inl Panic \<Rightarrow> (Inl Panic, w, [])
          | Inl (Fail e) \<Rightarrow> (Err (MuxEncode e), w, [])
          | Inr frame \<Rightarrow>
              (case mux_write_frame frame (w\<lparr>mw_first_packet := False\<rparr>) of
                 (bytes, w) \<Rightarrow>
                   (if written then (Ok rid, w\<lparr>mw_sent := mw_sent w @ bytes\<rparr>, [])
                    else (case remove_by_id key rid (mw_pending w) of
                        (d, ev) \<Rightarrow> (case mux_close (w\<lparr>mw_pending := d\<rparr>) of (w, ev') \<Rightarrow> (Err MuxWrite, w, ev @ ev'))))))"

definition mux_send_finish :: "target_address \<Rightarrow> u64 \<Rightarrow> lane_wait \<Rightarrow> vless_mux \<Rightarrow> (mux_error, bytes) res \<times> vless_mux \<times> event list" where
  "mux_send_finish t rid x w =
    (let key = packet_target_key (host t) (target_port t)
     in case x of
          WaitResult (Payload p) \<Rightarrow> (Ok p, w, [])
        | WaitResult (Failure e) \<Rightarrow> (Err (MuxFailed e), w, [])
        | SenderDropped \<Rightarrow>
            (case remove_by_id key rid (mw_pending w) of
               (d, ev) \<Rightarrow> (case mux_close (w\<lparr>mw_pending := d\<rparr>) of (w, ev') \<Rightarrow> (Err MuxClosedEarly, w, ev @ ev')))
        | WaitTimedOut \<Rightarrow>
            (case remove_by_id key rid (mw_pending w) of (d, ev) \<Rightarrow> (Err MuxTimedOut, w\<lparr>mw_pending := d\<rparr>, ev)))"

section \<open>The reader\<close>

definition mux_reader_failed :: "string \<Rightarrow> vless_mux \<Rightarrow> vless_mux \<times> event list" where
  "mux_reader_failed e w =
    (case fail_all e (mw_pending w) of (d, ev) \<Rightarrow> (w\<lparr>mw_closed := True, mw_reading := False, mw_pending := d\<rparr>, ev))"

definition mux_deliver :: "xudp_packet \<Rightarrow> demux_state \<Rightarrow> demux_state \<times> bool \<times> event list" where
  "mux_deliver p d =
    (case xudp_target p of
       Some t \<Rightarrow> deliver (packet_target_key (host t) (target_port t)) (Payload (xudp_payload p)) d
     | None \<Rightarrow> deliver_next (Payload (xudp_payload p)) d)"

lemma take_xudp_packet_shrinks: "take_xudp_packet b = Ok (Some p, r) \<Longrightarrow> length r < length b"
proof (induction b rule: take_xudp_packet.induct)
  case (1 b)
  show ?case
  proof (cases "\<exists>r'. xudp_frame b = Ok (Some ([], r'))")
    case True
    then obtain r' where r': "xudp_frame b = Ok (Some ([], r'))" by blast
    then have "take_xudp_packet r' = Ok (Some p, r)" using 1(2) by (simp add: take_xudp_packet.simps [of b])
    then have "length r < length r'" using 1(1) [OF r' refl refl] by blast
    then show ?thesis using xudp_frame_shrinks [OF r'] by linarith
  next
    case False
    then show ?thesis using 1(2) xudp_frame_shrinks [of b]
      by (auto simp: take_xudp_packet.simps [of b] split: sum.splits option.splits list.splits prod.splits)
  qed
qed

text \<open>The packets that are complete, each delivered; a frame that is malformed ends the worker.\<close>

function mux_drain :: "vless_mux \<Rightarrow> vless_mux \<times> event list" where
  "mux_drain w =
    (case take_xudp_packet (mw_read_buffer w) of
       Inl e \<Rightarrow> mux_reader_failed ''malformed XUDP frame'' w
     | Inr (None, r) \<Rightarrow> (w\<lparr>mw_read_buffer := r\<rparr>, [])
     | Inr (Some p, r) \<Rightarrow>
         (case mux_deliver p (mw_pending w) of
            (d, _, ev) \<Rightarrow> (case mux_drain (w\<lparr>mw_read_buffer := r, mw_pending := d\<rparr>) of (w, evs) \<Rightarrow> (w, ev @ evs))))"
  by pat_completeness auto
termination by (relation "measure (\<lambda>w. length (mw_read_buffer w))") (auto dest: take_xudp_packet_shrinks)

declare mux_drain.simps [simp del]

definition mux_feed :: "bytes \<Rightarrow> vless_mux \<Rightarrow> vless_mux \<times> event list" where
  "mux_feed bs w =
    (case mw_vision_downlink w of
       Some st \<Rightarrow> (case unpadding_push st bs of
           ((chunks, _), st) \<Rightarrow> mux_drain (w\<lparr>mw_vision_downlink := Some st, mw_read_buffer := mw_read_buffer w @ concat chunks\<rparr>))
     | None \<Rightarrow> mux_drain (w\<lparr>mw_read_buffer := mw_read_buffer w @ bs\<rparr>))"

text \<open>
  The response header of the stream comes first: two bytes and what the second counts. What is behind it in
  the same piece is the next read.
\<close>

definition mux_header :: "bytes \<Rightarrow> (unit, bytes option) res" where
  "mux_header s =
    (if length s < 2 then Ok None
     else if s ! 0 \<noteq> 0 then Err ()
     else if length s < 2 + unat (s ! 1) then Ok None
     else Ok (Some (drop (2 + unat (s ! 1)) s)))"

text \<open>A piece that the stream gives; no bytes are its end.\<close>

datatype mux_read = MuxPiece bytes | MuxReadError string

definition mux_reader_next :: "mux_read \<Rightarrow> vless_mux \<Rightarrow> vless_mux \<times> event list" where
  "mux_reader_next x w =
    (if \<not> mw_reading w then (w, [])
     else case x of
         MuxReadError e \<Rightarrow> mux_reader_failed e w
       | MuxPiece bs \<Rightarrow>
           (if bs = [] then mux_reader_failed ''VLESS mux stream closed'' w
            else if mw_response_header_read w then mux_feed bs w
            else case mux_header (mw_header w @ bs) of
                Inl _ \<Rightarrow> mux_reader_failed ''unsupported VLESS response version'' w
              | Inr None \<Rightarrow> (w\<lparr>mw_header := mw_header w @ bs\<rparr>, [])
              | Inr (Some rest) \<Rightarrow>
                  (let w = w\<lparr>mw_header := [], mw_response_header_read := True\<rparr>
                   in if rest = [] then (w, []) else mux_feed rest w)))"

datatype mux_cmd =
    MuxSend target_address bytes nat bool
  | MuxFinish target_address u64 lane_wait
  | MuxRead mux_read

fun mux_step :: "vless_mux \<Rightarrow> mux_cmd \<Rightarrow> vless_mux \<times> event list" where
  "mux_step w (MuxSend t payload ch written) = snd (mux_send_start t payload ch written w)"
| "mux_step w (MuxFinish t rid x) = snd (mux_send_finish t rid x w)"
| "mux_step w (MuxRead x) = mux_reader_next x w"

section \<open>The worker as a lane\<close>

function mux_drain_cmds :: "bytes \<Rightarrow> demux_cmd list" where
  "mux_drain_cmds b =
    (case take_xudp_packet b of
       Inl e \<Rightarrow> [FailAll ''malformed XUDP frame'']
     | Inr (None, r) \<Rightarrow> []
     | Inr (Some p, r) \<Rightarrow>
         (case xudp_target p of
            Some t \<Rightarrow> Deliver (packet_target_key (host t) (target_port t)) (Payload (xudp_payload p))
          | None \<Rightarrow> DeliverNext (Payload (xudp_payload p))) # mux_drain_cmds r)"
  by pat_completeness auto
termination by (relation "measure length") (auto dest: take_xudp_packet_shrinks)

declare mux_drain_cmds.simps [simp del]

definition mux_feed_cmds :: "bytes \<Rightarrow> vless_mux \<Rightarrow> demux_cmd list" where
  "mux_feed_cmds bs w =
    mux_drain_cmds (mw_read_buffer w @ (case mw_vision_downlink w of
        Some st \<Rightarrow> concat (fst (fst (unpadding_push st bs))) | None \<Rightarrow> bs))"

definition mux_demux_cmds :: "vless_mux \<Rightarrow> mux_cmd \<Rightarrow> demux_cmd list" where
  "mux_demux_cmds w m =
    (let close = FailAll ''VLESS XUDP worker closed''
     in case m of
          MuxSend t payload ch written \<Rightarrow>
            (let key = packet_target_key (host t) (target_port t)
             in if mw_closed w then []
                else Register key (mw_next_request_id w) ch #
                  (case encode_xudp_packet t payload (mw_first_packet w) of
                     Inl _ \<Rightarrow> []
                   | Inr _ \<Rightarrow> if written then [] else [Remove key (mw_next_request_id w), close]))
        | MuxFinish t rid x \<Rightarrow>
            (let key = packet_target_key (host t) (target_port t)
             in case x of WaitResult _ \<Rightarrow> [] | SenderDropped \<Rightarrow> [Remove key rid, close] | WaitTimedOut \<Rightarrow> [Remove key rid])
        | MuxRead x \<Rightarrow>
            (if \<not> mw_reading w then []
             else case x of
                 MuxReadError e \<Rightarrow> [FailAll e]
               | MuxPiece bs \<Rightarrow>
                   (if bs = [] then [FailAll ''VLESS mux stream closed'']
                    else if mw_response_header_read w then mux_feed_cmds bs w
                    else case mux_header (mw_header w @ bs) of
                        Inl _ \<Rightarrow> [FailAll ''unsupported VLESS response version'']
                      | Inr None \<Rightarrow> []
                      | Inr (Some rest) \<Rightarrow> (if rest = [] then [] else mux_feed_cmds rest w))))"

lemma mux_drain_lane:
  "mux_drain w = (w', ev) \<Longrightarrow> run_demux demux_step (mw_pending w) (mux_drain_cmds (mw_read_buffer w)) = (mw_pending w', ev)
    \<and> mw_next_request_id w' = mw_next_request_id w \<and> concat (map registered (mux_drain_cmds (mw_read_buffer w))) = []
    \<and> mw_sent w' = mw_sent w \<and> mw_vision_uuid w' = mw_vision_uuid w \<and> mw_vision_uuid_pending w' = mw_vision_uuid_pending w
    \<and> mw_first_packet w' = mw_first_packet w \<and> (mw_closed w \<longrightarrow> mw_closed w')"
proof (induction w arbitrary: w' ev rule: mux_drain.induct)
  case (1 w)
  show ?case
  proof (cases "take_xudp_packet (mw_read_buffer w)")
    case (Inl e)
    then show ?thesis using 1(2)
      by (auto simp: mux_drain.simps [of w] mux_drain_cmds.simps [of "mw_read_buffer w"] mux_reader_failed_def split: prod.splits)
  next
    case (Inr x)
    obtain o' r where x: "x = (o', r)" by fastforce
    show ?thesis
    proof (cases o')
      case None
      then show ?thesis using 1(2) Inr x
        by (auto simp: mux_drain.simps [of w] mux_drain_cmds.simps [of "mw_read_buffer w"])
    next
      case (Some p)
      obtain d b e where d: "mux_deliver p (mw_pending w) = (d, b, e)" by (metis prod_cases3)
      let ?w = "w\<lparr>mw_read_buffer := r, mw_pending := d\<rparr>"
      obtain w1 evs where w1: "mux_drain ?w = (w1, evs)" by fastforce
      have e: "w' = w1" "ev = e @ evs"
        using 1(2) Inr x Some d w1 by (simp_all add: mux_drain.simps [of w])
      have take: "take_xudp_packet (mw_read_buffer w) = Ok (Some p, r)" using Inr x Some by simp
      note IH = 1(1) [OF Inr x [symmetric] Some d [symmetric] refl w1]
      show ?thesis using IH d e take
        by (cases "xudp_target p")
          (simp_all add: mux_drain_cmds.simps [of "mw_read_buffer w"] mux_deliver_def)
    qed
  qed
qed

lemma mux_feed_lane:
  assumes "mux_feed bs w = (w', ev)"
  shows "run_demux demux_step (mw_pending w) (mux_feed_cmds bs w) = (mw_pending w', ev)
    \<and> mw_next_request_id w' = mw_next_request_id w \<and> concat (map registered (mux_feed_cmds bs w)) = []
    \<and> mw_sent w' = mw_sent w \<and> mw_vision_uuid w' = mw_vision_uuid w \<and> mw_vision_uuid_pending w' = mw_vision_uuid_pending w
    \<and> mw_first_packet w' = mw_first_packet w \<and> (mw_closed w \<longrightarrow> mw_closed w')"
proof (cases "mw_vision_downlink w")
  case None
  then show ?thesis using assms mux_drain_lane [of "w\<lparr>mw_read_buffer := mw_read_buffer w @ bs\<rparr>" w' ev]
    by (simp add: mux_feed_def mux_feed_cmds_def)
next
  case (Some st)
  obtain chunks d st' where p: "unpadding_push st bs = ((chunks, d), st')" by (metis prod_cases3 surj_pair)
  show ?thesis
    using assms Some p mux_drain_lane [of "w\<lparr>mw_vision_downlink := Some st', mw_read_buffer := mw_read_buffer w @ concat chunks\<rparr>" w' ev]
    by (simp add: mux_feed_def mux_feed_cmds_def)
qed

lemma mux_read_lane:
  assumes "mux_reader_next x w = (w', ev)"
  shows "run_demux demux_step (mw_pending w) (mux_demux_cmds w (MuxRead x)) = (mw_pending w', ev)
    \<and> mw_next_request_id w' = mw_next_request_id w \<and> concat (map registered (mux_demux_cmds w (MuxRead x))) = []
    \<and> mw_sent w' = mw_sent w \<and> mw_vision_uuid w' = mw_vision_uuid w \<and> mw_vision_uuid_pending w' = mw_vision_uuid_pending w
    \<and> mw_first_packet w' = mw_first_packet w \<and> (mw_closed w \<longrightarrow> mw_closed w')"
proof (cases x)
  case (MuxReadError e)
  then show ?thesis using assms
    by (auto simp: mux_reader_next_def mux_reader_failed_def mux_demux_cmds_def split: if_splits prod.splits)
next
  case (MuxPiece bs)
  consider "\<not> mw_reading w \<or> bs = []" | "mw_reading w" "bs \<noteq> []" "mw_response_header_read w"
    | "mw_reading w" "bs \<noteq> []" "\<not> mw_response_header_read w" by blast
  then show ?thesis
  proof cases
    case 1
    then show ?thesis using assms MuxPiece
      by (auto simp: mux_reader_next_def mux_reader_failed_def mux_demux_cmds_def split: if_splits prod.splits)
  next
    case 2
    then show ?thesis using assms MuxPiece mux_feed_lane [of bs w w' ev]
      by (simp add: mux_reader_next_def mux_demux_cmds_def)
  next
    case 3
    note now = assms [unfolded mux_reader_next_def] MuxPiece 3
    show ?thesis
    proof (cases "mux_header (mw_header w @ bs)")
      case (Inl e)
      then show ?thesis using now by (auto simp: mux_reader_failed_def mux_demux_cmds_def split: prod.splits)
    next
      case (Inr h)
      show ?thesis
      proof (cases h)
        case None
        then show ?thesis using now Inr by (auto simp: mux_demux_cmds_def)
      next
        case (Some rest)
        let ?w = "w\<lparr>mw_header := [], mw_response_header_read := True\<rparr>"
        have "mux_feed_cmds rest ?w = mux_feed_cmds rest w" by (simp add: mux_feed_cmds_def)
        then show ?thesis using now Inr Some mux_feed_lane [of rest ?w w' ev]
          by (cases "rest = []") (auto simp: mux_demux_cmds_def)
      qed
    qed
  qed
qed

lemma mux_send_lane:
  assumes "mux_send_start t payload ch written w = (r, w', ev)"
  shows "run_demux demux_step (mw_pending w) (mux_demux_cmds w (MuxSend t payload ch written)) = (mw_pending w', ev)
    \<and> (mw_next_request_id w' = mw_next_request_id w \<and> concat (map registered (mux_demux_cmds w (MuxSend t payload ch written))) = []
      \<or> mw_next_request_id w' = mw_next_request_id w + 1
        \<and> length (concat (map registered (mux_demux_cmds w (MuxSend t payload ch written)))) = 1)"
  using assms
  by (auto simp: mux_send_start_def mux_demux_cmds_def mux_close_def mux_write_frame_def Let_def
      split: if_splits prod.splits sum.splits fault.splits option.splits)

interpretation mux_lane: udp_lane mux_step mw_pending mw_next_request_id mux_demux_cmds
proof (unfold_locales, goal_cases)
  case (1 w m w' ev)
  then show ?case
  proof (cases m)
    case (MuxSend t payload ch written)
    then show ?thesis using 1 mux_send_lane [of t payload ch written w _ w' ev]
      by (cases "mux_send_start t payload ch written w") simp
  next
    case (MuxRead x)
    then show ?thesis using 1 mux_read_lane [of x w w' ev] by simp
  qed (auto simp: mux_send_finish_def mux_demux_cmds_def mux_close_def Let_def split: prod.splits lane_wait.splits reply.splits)
next
  case (2 k i ch w m)
  have none: "Register k i ch \<notin> set cs" if "concat (map registered cs) = []" for cs
    using that by force
  show ?case
  proof (cases m)
    case (MuxRead x)
    obtain w' ev where "mux_reader_next x w = (w', ev)" by fastforce
    then show ?thesis using mux_read_lane [of x w w' ev] none 2 MuxRead by blast
  qed (use 2 in \<open>auto simp: mux_demux_cmds_def Let_def split: if_splits lane_wait.splits sum.splits\<close>)
next
  case (3 w m w' ev)
  then show ?case
  proof (cases m)
    case (MuxSend t payload ch written)
    then show ?thesis using 3 mux_send_lane [of t payload ch written w _ w' ev]
      by (cases "mux_send_start t payload ch written w") simp
  next
    case (MuxRead x)
    then show ?thesis using 3 mux_read_lane [of x w w' ev] by simp
  qed (auto simp: mux_send_finish_def mux_demux_cmds_def mux_close_def Let_def split: prod.splits lane_wait.splits reply.splits)
qed

section \<open>What the worker writes\<close>

text \<open>The frames of the sends, and the bytes they are on the stream.\<close>

fun mux_frames :: "bool \<Rightarrow> mux_cmd list \<Rightarrow> bytes list" where
  "mux_frames first_packet [] = []"
| "mux_frames first_packet (MuxSend t payload ch written # ms) =
    (case encode_xudp_packet t payload first_packet of
       Inl _ \<Rightarrow> mux_frames first_packet ms
     | Inr f \<Rightarrow> f # mux_frames False ms)"
| "mux_frames first_packet (_ # ms) = mux_frames first_packet ms"

fun mux_wire :: "bytes option \<Rightarrow> bool \<Rightarrow> bytes list \<Rightarrow> bytes" where
  "mux_wire uuid uuid_pending [] = []"
| "mux_wire None uuid_pending (f # fs) = f @ mux_wire None uuid_pending fs"
| "mux_wire (Some u) uuid_pending (f # fs) =
    xtls_padding (Some f) 0 (if uuid_pending then Some u else None) True @ mux_wire (Some u) False fs"

fun mux_packets :: "mux_cmd list \<Rightarrow> xudp_packet list" where
  "mux_packets [] = []"
| "mux_packets (MuxSend t payload ch written # ms) =
    \<lparr>xudp_target = Some \<lparr>host = canonical_host (host t), target_port = target_port t\<rparr>, xudp_payload = payload\<rparr> # mux_packets ms"
| "mux_packets (_ # ms) = mux_packets ms"

fun mux_send_ok :: "mux_cmd \<Rightarrow> bool" where
  "mux_send_ok (MuxSend t payload ch written) \<longleftrightarrow>
    utf8_valid (as_bytes (host t)) \<and> length (host t) \<le> 255 \<and> payload \<noteq> [] \<and> length payload \<le> 65000"
| "mux_send_ok _ \<longleftrightarrow> True"

lemma mux_send_finish_keeps:
  assumes "mux_send_finish t rid x w = (r, w', ev)"
  shows "mw_sent w' = mw_sent w \<and> mw_vision_uuid w' = mw_vision_uuid w \<and> mw_vision_uuid_pending w' = mw_vision_uuid_pending w
    \<and> mw_first_packet w' = mw_first_packet w \<and> (mw_closed w \<longrightarrow> mw_closed w')"
  using assms by (auto simp: mux_send_finish_def mux_close_def Let_def split: prod.splits lane_wait.splits reply.splits)

lemma mux_send_written:
  assumes "mux_send_start t payload ch written w = (r, w', ev)" "\<not> mw_closed w'" "encode_xudp_packet t payload (mw_first_packet w) = Ok f"
  shows "\<not> mw_closed w \<and> mw_sent w' = mw_sent w @ mux_wire (mw_vision_uuid w) (mw_vision_uuid_pending w) [f]
    \<and> mw_vision_uuid w' = mw_vision_uuid w \<and> \<not> mw_first_packet w'
    \<and> (mw_vision_uuid w \<noteq> None \<longrightarrow> \<not> mw_vision_uuid_pending w')"
  using assms
  by (auto simp: mux_send_start_def mux_close_def mux_write_frame_def Let_def split: if_splits prod.splits option.splits)

lemma mux_step_closed: "mux_step w m = (w', ev) \<Longrightarrow> mw_closed w \<Longrightarrow> mw_closed w'"
proof (cases m)
  case (MuxSend t payload ch written)
  assume "mux_step w m = (w', ev)" "mw_closed w"
  then show ?thesis using MuxSend by (simp add: mux_send_start_def)
next
  case (MuxFinish t rid x)
  assume "mux_step w m = (w', ev)" "mw_closed w"
  then show ?thesis using MuxFinish mux_send_finish_keeps [of t rid x w _ w' ev]
    by (cases "mux_send_finish t rid x w") simp
next
  case (MuxRead x)
  assume "mux_step w m = (w', ev)" "mw_closed w"
  then show ?thesis using MuxRead mux_read_lane [of x w w' ev] by simp
qed

lemma mux_run_closed: "lane_run mux_step w ms = (w', evs) \<Longrightarrow> mw_closed w \<Longrightarrow> mw_closed w'"
  by (induction ms arbitrary: w evs) (auto split: prod.splits dest: mux_step_closed)

lemma mux_wire_Cons: "mux_wire uuid b (f # fs) = mux_wire uuid b [f] @ mux_wire uuid (b \<and> uuid = None) fs"
  by (cases uuid) (cases fs; cases b; simp)+

lemma mux_wire_pending: "mux_wire None b fs = mux_wire None b' fs"
  by (induction fs) auto

lemma encode_sent:
  assumes "mux_send_ok (MuxSend t payload ch written)"
  obtains f where "encode_xudp_packet t payload b = Ok f" "length f < 65536"
proof -
  obtain f where f: "encode_xudp_packet t payload b = Ok f" using encode_xudp_total [of t payload b] assms by auto
  then obtain a where a: "encode_port_then_address t = Ok a" and "length f \<le> length a + length payload + 17"
    by (auto simp: encode_xudp_packet_def rbind_Inr_iff Let_def split: if_splits)
  moreover have "length a \<le> 259" using a
    by (auto simp: encode_port_then_address_def rbind_Inr_iff dest: length_encode_address)
  ultimately have "length f < 65536" using assms by simp
  then show ?thesis using f that by blast
qed

lemma mux_run_sent:
  assumes "lane_run mux_step w ms = (w', evs)" "\<not> mw_closed w'" "\<forall>m \<in> set ms. mux_send_ok m"
  shows "mw_sent w' = mw_sent w @ mux_wire (mw_vision_uuid w) (mw_vision_uuid_pending w) (mux_frames (mw_first_packet w) ms)"
  using assms
proof (induction ms arbitrary: w evs)
  case (Cons m ms)
  obtain w1 ev where 1: "mux_step w m = (w1, ev)" by fastforce
  obtain evs2 where 2: "lane_run mux_step w1 ms = (w', evs2)" using Cons.prems(1) 1 by (auto split: prod.splits)
  have open1: "\<not> mw_closed w1" using mux_run_closed [OF 2] Cons.prems(2) by blast
  have IH: "mw_sent w' = mw_sent w1 @ mux_wire (mw_vision_uuid w1) (mw_vision_uuid_pending w1) (mux_frames (mw_first_packet w1) ms)"
    using Cons.IH [OF 2 Cons.prems(2)] Cons.prems(3) by simp
  show ?case
  proof (cases m)
    case (MuxSend t payload ch written)
    obtain f where f: "encode_xudp_packet t payload (mw_first_packet w) = Ok f"
      using encode_sent [of t payload ch written "mw_first_packet w"] Cons.prems(3) MuxSend by auto
    obtain r where "mux_send_start t payload ch written w = (r, w1, ev)"
      using 1 MuxSend by (cases "mux_send_start t payload ch written w") simp
    note s = mux_send_written [OF this open1 f]
    have "mux_wire (mw_vision_uuid w) (mw_vision_uuid_pending w1) fs
        = mux_wire (mw_vision_uuid w) (mw_vision_uuid_pending w \<and> mw_vision_uuid w = None) fs" for fs
      using s by (cases "mw_vision_uuid w") (simp_all add: mux_wire_pending [of "mw_vision_uuid_pending w1" _ "mw_vision_uuid_pending w"])
    then show ?thesis
      using IH s MuxSend f by (simp add: mux_wire_Cons [of _ _ f "mux_frames False ms"])
  next
    case (MuxFinish t rid x)
    then show ?thesis using IH 1 mux_send_finish_keeps [of t rid x w _ w1 ev]
      by (cases "mux_send_finish t rid x w") simp
  next
    case (MuxRead x)
    then show ?thesis using IH 1 mux_read_lane [of x w w1 ev] by simp
  qed
qed simp

lemma mux_frames_decode:
  "\<forall>m \<in> set ms. mux_send_ok m \<Longrightarrow> xudp_packets (concat (mux_frames b ms)) = (mux_packets ms, [])
    \<and> (\<forall>f \<in> set (mux_frames b ms). length f < 65536)"
proof (induction b ms rule: mux_frames.induct)
  case (1 b)
  show ?case by (simp add: xudp_packets.simps xudp_frame_def)
next
  case (2 b t payload ch written ms)
  then have ok: "mux_send_ok (MuxSend t payload ch written)" by simp
  obtain f where f: "encode_xudp_packet t payload b = Ok f" "length f < 65536" by (rule encode_sent [OF ok])
  have "xudp_frame (f @ r) = Ok (Some ([\<lparr>xudp_target = Some \<lparr>host = canonical_host (host t),
      target_port = target_port t\<rparr>, xudp_payload = payload\<rparr>], r))" for r
    using encoded_xudp_frame [OF _ _ f(1)] 2(3) by simp
  then show ?case using 2 f by (simp add: xudp_packets.simps [of "f @ concat (mux_frames False ms)"])
qed simp_all

lemma unpad_wire:
  assumes "\<forall>f \<in> set fs. length f < 65536"
  shows "concat (fst (unpad_loop u PaddingMode (mux_wire (Some u) False fs))) = concat fs"
  using assms
proof (induction fs)
  case Nil
  show ?case by (simp add: unpad_loop.simps block_len_def)
next
  case (Cons f fs)
  then show ?case using unpad_block [of f 0 u True "mux_wire (Some u) False fs"] by (simp split: prod.splits)
qed

section \<open>Properties\<close>





text \<open>
  A request whose packet cannot be encoded keeps its place in the queue of its target, though its caller is gone:
  the next reply from there is given to it, and not to the request that waits for it.
\<close>

theorem vless_mux_failed_encode_takes_reply:
  assumes "mux_send_start t payload ch written w = (Err (MuxEncode e), w1, ev)" "mw_pending w = new_demux"
    and "mux_send_start t payload' ch' True w1 = (Ok rid, w2, ev')" "xudp_target p = Some t"
  shows "snd (snd (mux_deliver p (mw_pending w2))) = [(ch, Sent (Payload (xudp_payload p)))]"
  using assms
  by (auto simp: mux_send_start_def mux_close_def mux_write_frame_def mux_deliver_def deliver_def register_def new_demux_def
      put_queue_def Let_def split: if_splits prod.splits sum.splits fault.splits option.splits)

end
