(* ===== verification/Vless_Xmux.thy ===== *)
theory Vless_Xmux
  imports Vless_Config
begin

text \<open>
  XMUX of the VLESS adapter (\<open>adapter/vless.rs\<close>): the HTTP/2 connections that the XHTTP streams of a node share,
  and the posts of an upload. A connection is known by its number; the counters are 32-bit words; the streams that
  are open are part of the state, because each one gives back its use of the connection when its download ends.
\<close>

section \<open>Connections\<close>

type_synonym i32 = "32 word"

record xmux_client =
  xc_open_usage :: i32
  xc_left_usage :: i32
  xc_left_requests :: i32
  xc_reusable_until :: "nat option"
  xc_closed :: bool

definition new_xmux_client :: "nat \<Rightarrow> xmux_config \<Rightarrow> xmux_client" where
  "new_xmux_client now cfg =
    \<lparr>xc_open_usage = 0,
     xc_left_usage = (if 0 < c_max_reuse_times cfg then of_int (c_max_reuse_times cfg - 1) else - 1),
     xc_left_requests = (if 0 < h_max_request_times cfg then of_int (h_max_request_times cfg) else of_int (2 ^ 31 - 1)),
     xc_reusable_until = (if 0 < h_max_reusable_secs cfg then Some (now + 1000 * h_max_reusable_secs cfg) else None),
     xc_closed = False\<rparr>"

definition xmux_is_usable :: "nat \<Rightarrow> xmux_client \<Rightarrow> bool" where
  "xmux_is_usable now c \<longleftrightarrow> \<not> xc_closed c \<and> xc_left_usage c \<noteq> 0 \<and> 0 < sint (xc_left_requests c)
    \<and> (case xc_reusable_until c of None \<Rightarrow> True | Some deadline \<Rightarrow> now \<le> deadline)"

definition consume_connection_reuse :: "xmux_client \<Rightarrow> xmux_client" where
  "consume_connection_reuse c = (if 0 < sint (xc_left_usage c) then c\<lparr>xc_left_usage := xc_left_usage c - 1\<rparr> else c)"

section \<open>The manager\<close>

text \<open>All connections ever opened, the ones the manager still offers, and the connection of each open stream.\<close>

record xmux_state =
  xm_config :: xmux_config
  xm_all :: "xmux_client list"
  xm_clients :: "nat list"
  xm_streams :: "nat list"

definition new_xmux :: "xmux_config \<Rightarrow> xmux_state" where
  "new_xmux cfg = \<lparr>xm_config = cfg, xm_all = [], xm_clients = [], xm_streams = []\<rparr>"

definition xmux_update :: "nat \<Rightarrow> (xmux_client \<Rightarrow> xmux_client) \<Rightarrow> xmux_state \<Rightarrow> xmux_state" where
  "xmux_update i f s = (if i < length (xm_all s) then s\<lparr>xm_all := (xm_all s)[i := f (xm_all s ! i)]\<rparr> else s)"

definition retain_usable :: "nat \<Rightarrow> xmux_state \<Rightarrow> xmux_state" where
  "retain_usable now s = s\<lparr>xm_clients := filter (\<lambda>i. xmux_is_usable now (xm_all s ! i)) (xm_clients s)\<rparr>"

definition should_open_more_connections :: "xmux_state \<Rightarrow> bool" where
  "should_open_more_connections s \<longleftrightarrow>
    0 < max_connections (xm_config s) \<and> int (length (xm_clients s)) < max_connections (xm_config s)"

text \<open>\<open>min_by_key\<close>: the first of the smallest.\<close>

fun min_by_key :: "('a \<Rightarrow> int) \<Rightarrow> 'a list \<Rightarrow> 'a option" where
  "min_by_key f [] = None"
| "min_by_key f (x # xs) = (case min_by_key f xs of None \<Rightarrow> Some x | Some y \<Rightarrow> Some (if f y < f x then y else x))"

definition reusable_client :: "xmux_state \<Rightarrow> (nat \<times> xmux_state) option" where
  "reusable_client s =
    (let cfg = xm_config s; usage = (\<lambda>i. sint (xc_open_usage (xm_all s ! i)));
         candidates = filter (\<lambda>i. max_concurrency cfg \<le> 0 \<or> usage i < max_concurrency cfg) (xm_clients s)
     in map_option (\<lambda>i. (i, xmux_update i consume_connection_reuse s)) (min_by_key usage candidates))"

definition new_client :: "nat \<Rightarrow> bool \<Rightarrow> xmux_state \<Rightarrow> nat option \<times> xmux_state" where
  "new_client now opened s =
    (if opened
     then (Some (length (xm_all s)),
           s\<lparr>xm_all := xm_all s @ [new_xmux_client now (xm_config s)], xm_clients := xm_clients s @ [length (xm_all s)]\<rparr>)
     else (None, s))"

definition get_client :: "nat \<Rightarrow> bool \<Rightarrow> xmux_state \<Rightarrow> nat option \<times> xmux_state" where
  "get_client now opened s =
    (let s = retain_usable now s
     in if xm_clients s = [] \<or> should_open_more_connections s then new_client now opened s
        else case reusable_client s of
            Some (i, s) \<Rightarrow> (Some i, s)
          | None \<Rightarrow> new_client now opened s)"

text \<open>A stream: its use is counted before the request is sent, which may fail.\<close>

definition connect_pooled :: "nat \<Rightarrow> bool \<Rightarrow> bool \<Rightarrow> xmux_state \<Rightarrow> nat option \<times> xmux_state" where
  "connect_pooled now opened accepted s =
    (case get_client now opened s of
       (None, s) \<Rightarrow> (None, s)
     | (Some i, s) \<Rightarrow>
         (let s = xmux_update i (\<lambda>c. c\<lparr>xc_open_usage := xc_open_usage c + 1\<rparr>) s
          in if accepted
             then (Some i, (xmux_update i (\<lambda>c. c\<lparr>xc_left_requests := xc_left_requests c - 1\<rparr>) s)\<lparr>xm_streams := i # xm_streams s\<rparr>)
             else (Some i, s)))"

text \<open>
  What happens to a stream: a post of its upload, the end of its download, a response that never comes, and
  the end of its connection.
\<close>

datatype xmux_cmd =
    XConnect nat bool bool
  | XPost nat
  | XDownloadEnd nat
  | XResponseFailed nat
  | XClosed nat

fun xmux_step :: "xmux_state \<Rightarrow> xmux_cmd \<Rightarrow> nat list \<times> xmux_state" where
  "xmux_step s (XConnect now opened accepted) =
    (case connect_pooled now opened accepted s of (None, s) \<Rightarrow> ([], s) | (Some i, s) \<Rightarrow> ([i], s))"
| "xmux_step s (XPost i) =
    ([], xmux_update i (\<lambda>c. c\<lparr>xc_left_requests := xc_left_requests c - 1\<rparr>) s)"
| "xmux_step s (XDownloadEnd i) =
    ([], if i \<in> set (xm_streams s)
       then (xmux_update i (\<lambda>c. c\<lparr>xc_open_usage := xc_open_usage c - 1\<rparr>) s)\<lparr>xm_streams := remove1 i (xm_streams s)\<rparr>
       else s)"
| "xmux_step s (XResponseFailed i) = ([], s\<lparr>xm_streams := remove1 i (xm_streams s)\<rparr>)"
| "xmux_step s (XClosed i) = ([], xmux_update i (\<lambda>c. c\<lparr>xc_closed := True\<rparr>) s)"

text \<open>The connections that were handed out, and the state.\<close>

fun xmux_run :: "xmux_state \<Rightarrow> xmux_cmd list \<Rightarrow> nat list \<times> xmux_state" where
  "xmux_run s [] = ([], s)"
| "xmux_run s (m # ms) = (case xmux_step s m of (p, s) \<Rightarrow> (case xmux_run s ms of (ps, s) \<Rightarrow> (p @ ps, s)))"

section \<open>The posts of an upload\<close>

text \<open>
  Each read is one post, of at most the buffer; \<open>base\<close> is the path. The reads are what the stream gives
  until its end.
\<close>

definition xmux_post_buffer :: "nat \<Rightarrow> nat" where
  "xmux_post_buffer max_post_bytes = max max_post_bytes (16 * 1024)"

function xmux_posts :: "nat \<Rightarrow> string \<Rightarrow> string \<Rightarrow> nat \<Rightarrow> bytes list \<Rightarrow> (string \<times> bytes) list" where
  "xmux_posts max_post_bytes base session n [] = []"
| "xmux_posts max_post_bytes base session n (bs # reads) =
    (let room = xmux_post_buffer max_post_bytes
     in if bs = [] then []
        else (base @ ''?session='' @ session @ ''&seq='' @ show_nat n, take room bs)
          # xmux_posts max_post_bytes base session (min (2 ^ 64 - 1) (n + 1)) (if drop room bs = [] then reads else drop room bs # reads))"
  by pat_completeness auto
termination
  by (relation "measure (\<lambda>(m, b, s, n, reads). sum_list (map (\<lambda>r. Suc (length r)) reads))") (auto simp: xmux_post_buffer_def)

section \<open>What the counters say\<close>

lemma sint_inc: "sint (x :: i32) < 2 ^ 31 - 1 \<Longrightarrow> sint (x + 1) = sint x + 1"
proof -
  assume x: "sint x < 2 ^ 31 - 1"
  have "sint (x + 1) = signed_take_bit 31 (sint x + 1)" by (simp add: sint_word_ariths)
  also have "\<dots> = sint x + 1" using x sint_greater_eq [of x] by (intro signed_take_bit_int_eq_self) simp_all
  finally show ?thesis .
qed

lemma sint_dec: "- (2 ^ 31) < sint (x :: i32) \<Longrightarrow> sint (x - 1) = sint x - 1"
proof -
  assume x: "- (2 ^ 31) < sint x"
  have "sint (x - 1) = signed_take_bit 31 (sint x - 1)" by (simp add: sint_word_ariths)
  also have "\<dots> = sint x - 1" using x sint_less [of x] by (intro signed_take_bit_int_eq_self) simp_all
  finally show ?thesis .
qed

lemma sint_of_i32: "i32_ok x \<Longrightarrow> sint (of_int x :: i32) = x"
proof -
  assume x: "i32_ok x"
  have "sint (of_int x :: i32) = signed_take_bit 31 x" by (simp add: sint_sbintrunc')
  also have "\<dots> = x" using x by (intro signed_take_bit_int_eq_self) (simp_all add: i32_ok_def)
  finally show ?thesis .
qed

text \<open>A connection that was handed out \<open>p\<close> times and has \<open>n\<close> open streams.\<close>

definition xmux_client_ok :: "xmux_config \<Rightarrow> nat \<Rightarrow> nat \<Rightarrow> xmux_client \<Rightarrow> bool" where
  "xmux_client_ok cfg p n c \<longleftrightarrow>
    (0 < c_max_reuse_times cfg \<longrightarrow> 0 \<le> sint (xc_left_usage c) \<and> int p + sint (xc_left_usage c) = c_max_reuse_times cfg)
    \<and> int n \<le> sint (xc_open_usage c) \<and> sint (xc_open_usage c) \<le> int p
    \<and> (0 < max_concurrency cfg \<longrightarrow> sint (xc_open_usage c) \<le> max_concurrency cfg)"

definition xmux_inv :: "nat list \<Rightarrow> xmux_state \<Rightarrow> bool" where
  "xmux_inv picks s \<longleftrightarrow> (\<forall>i \<in> set (xm_clients s) \<union> set (xm_streams s) \<union> set picks. i < length (xm_all s))
    \<and> (\<forall>i < length (xm_all s). xmux_client_ok (xm_config s) (count_list picks i) (count_list (xm_streams s) i) (xm_all s ! i))"

lemma min_by_key_member: "min_by_key f xs = Some x \<Longrightarrow> x \<in> set xs"
  by (induction xs arbitrary: x) (auto split: option.splits if_splits)

lemma retain_simps [simp]:
  "xm_all (retain_usable now s) = xm_all s" "xm_config (retain_usable now s) = xm_config s"
  "xm_streams (retain_usable now s) = xm_streams s"
  by (simp_all add: retain_usable_def)

lemma reusable_clientD:
  assumes "reusable_client s = Some (i, s')"
  shows "i \<in> set (xm_clients s)" "0 < max_concurrency (xm_config s) \<Longrightarrow> sint (xc_open_usage (xm_all s ! i)) < max_concurrency (xm_config s)"
    and "s' = xmux_update i consume_connection_reuse s"
  using assms min_by_key_member by (fastforce simp: reusable_client_def Let_def)+

text \<open>What is handed out: a new connection, or one the manager offers that has room.\<close>

lemma get_client_cases:
  assumes "get_client now opened s = (r, s')"
  obtains (none) "r = None" "s' = retain_usable now s"
  | (new) "r = Some (length (xm_all s))"
      "s' = (retain_usable now s)\<lparr>xm_all := xm_all s @ [new_xmux_client now (xm_config s)],
        xm_clients := xm_clients (retain_usable now s) @ [length (xm_all s)]\<rparr>"
  | (old) i where "r = Some i" "i \<in> set (xm_clients s)" "xmux_is_usable now (xm_all s ! i)"
      "0 < max_concurrency (xm_config s) \<longrightarrow> sint (xc_open_usage (xm_all s ! i)) < max_concurrency (xm_config s)"
      "s' = xmux_update i consume_connection_reuse (retain_usable now s)"
proof (cases "xm_clients (retain_usable now s) = [] \<or> should_open_more_connections (retain_usable now s) \<or> reusable_client (retain_usable now s) = None")
  case True
  then have "get_client now opened s = new_client now opened (retain_usable now s)"
    by (auto simp: get_client_def Let_def)
  then show ?thesis using assms none new by (cases opened) (auto simp: new_client_def)
next
  case False
  then obtain i t where i: "reusable_client (retain_usable now s) = Some (i, t)" by auto
  then have "r = Some i" "s' = t" using assms False by (simp_all add: get_client_def Let_def)
  moreover have "i \<in> set (xm_clients s)" "xmux_is_usable now (xm_all s ! i)"
    using reusable_clientD(1) [OF i] by (simp_all add: retain_usable_def)
  ultimately show ?thesis using old reusable_clientD(2,3) [OF i] by auto
qed

lemma new_client_ok:
  assumes "i32_ok (c_max_reuse_times cfg)" "n \<le> 1"
  shows "xmux_client_ok cfg 1 n ((new_xmux_client now cfg)\<lparr>xc_open_usage := 1, xc_left_requests := x\<rparr>)"
proof -
  have "0 < c_max_reuse_times cfg \<Longrightarrow> sint (of_int (c_max_reuse_times cfg - 1) :: i32) = c_max_reuse_times cfg - 1"
    using assms(1) by (intro sint_of_i32) (simp add: i32_ok_def)
  then show ?thesis using assms(2) by (simp add: xmux_client_ok_def new_xmux_client_def)
qed

lemma old_client_ok:
  assumes "xmux_client_ok cfg p n c" "xmux_is_usable now c" "0 < max_concurrency cfg \<longrightarrow> sint (xc_open_usage c) < max_concurrency cfg"
    and "p < 2 ^ 31 - 1" "n' \<le> Suc n"
  shows "xmux_client_ok cfg (Suc p) n' ((consume_connection_reuse c)\<lparr>xc_open_usage := xc_open_usage c + 1, xc_left_requests := x\<rparr>)"
proof -
  have "int p < 2 ^ 31 - 1" using assms(4) by simp
  then have open_: "sint (xc_open_usage c + 1) = sint (xc_open_usage c) + 1"
    using assms(1) by (intro sint_inc) (simp add: xmux_client_ok_def)
  have left: "0 < sint (xc_left_usage c) \<and> sint (xc_left_usage c - 1) = sint (xc_left_usage c) - 1" if "0 < c_max_reuse_times cfg"
  proof -
    have "sint (xc_left_usage c) \<noteq> 0" using assms(2) signed_word_eqI [of "xc_left_usage c" 0] by (auto simp: xmux_is_usable_def)
    then have "0 < sint (xc_left_usage c)" using assms(1) that by (simp add: xmux_client_ok_def)
    then show ?thesis using sint_dec [of "xc_left_usage c"] by simp
  qed
  show ?thesis using assms(1,3,5) open_ left
    by (auto simp: xmux_client_ok_def consume_connection_reuse_def)
qed

lemma count_list_remove: "int (count_list (remove1 x xs) y) = (if x = y \<and> x \<in> set xs then int (count_list xs y) - 1 else int (count_list xs y))"
  by (induction xs) auto

lemma xmux_inv_update:
  assumes "xmux_inv picks s" "\<And>c. xc_left_usage (f c) = xc_left_usage c \<and> xc_open_usage (f c) = xc_open_usage c"
  shows "xmux_inv picks (xmux_update i f s) \<and> xm_config (xmux_update i f s) = xm_config s"
proof (cases "i < length (xm_all s)")
  case True
  then show ?thesis using assms by (auto simp: xmux_update_def xmux_inv_def xmux_client_ok_def nth_list_update)
qed (use assms in \<open>simp add: xmux_update_def\<close>)

lemma xmux_inv_remove:
  "xmux_inv picks s \<Longrightarrow> xmux_inv picks (s\<lparr>xm_streams := remove1 i (xm_streams s)\<rparr>)"
  by (auto simp: xmux_inv_def xmux_client_ok_def count_list_remove simp del: count_list_remove1 dest!: set_mp [OF set_remove1_subset] split: if_splits)

lemma xmux_inv_connect:
  assumes "xmux_inv picks s" "i32_ok (c_max_reuse_times (xm_config s))" "length picks < 2 ^ 31 - 1"
    and "xmux_step s (XConnect now opened accepted) = (p, s')"
  shows "xmux_inv (picks @ p) s' \<and> xm_config s' = xm_config s"
proof -
  obtain r s1 where g: "get_client now opened s = (r, s1)" by fastforce
  show ?thesis
  proof (cases rule: get_client_cases [OF g])
    case 1
    then show ?thesis using assms(1,4) g by (auto simp: connect_pooled_def xmux_inv_def retain_usable_def)
  next
    case 2
    have zero: "count_list picks (length (xm_all s)) = 0" "count_list (xm_streams s) (length (xm_all s)) = 0"
      using assms(1) by (auto simp: xmux_inv_def count_list_0_iff)
    have p: "p = [length (xm_all s)]" using assms(4) g 2 by (auto simp: connect_pooled_def Let_def split: if_splits)
    have s': "xm_all s' = xm_all s @ [(new_xmux_client now (xm_config s))\<lparr>xc_open_usage := 1,
          xc_left_requests := xc_left_requests (new_xmux_client now (xm_config s)) - (if accepted then 1 else 0)\<rparr>]"
      "xm_clients s' = xm_clients (retain_usable now s) @ [length (xm_all s)]" "xm_config s' = xm_config s"
      "xm_streams s' = (if accepted then [length (xm_all s)] else []) @ xm_streams s"
      using assms(4) g 2 by (auto simp: connect_pooled_def Let_def xmux_update_def new_xmux_client_def split: if_splits)
    have "xmux_client_ok (xm_config s) 1 (if accepted then 1 else 0) ((new_xmux_client now (xm_config s))\<lparr>xc_open_usage := 1,
          xc_left_requests := xc_left_requests (new_xmux_client now (xm_config s)) - (if accepted then 1 else 0)\<rparr>)"
      by (rule new_client_ok [OF assms(2)]) simp
    then show ?thesis using assms(1) zero unfolding xmux_inv_def p s'
      by (auto simp: nth_append retain_usable_def less_Suc_eq count_notin)
  next
    case (3 i)
    have i: "i < length (xm_all s)" and ok: "xmux_client_ok (xm_config s) (count_list picks i) (count_list (xm_streams s) i) (xm_all s ! i)"
      using assms(1) 3(2) by (auto simp: xmux_inv_def)
    let ?c = "(consume_connection_reuse (xm_all s ! i))\<lparr>xc_open_usage := xc_open_usage (xm_all s ! i) + 1,
        xc_left_requests := xc_left_requests (xm_all s ! i) - (if accepted then 1 else 0)\<rparr>"
    have p: "p = [i]" using assms(4) g 3 by (auto simp: connect_pooled_def Let_def split: if_splits)
    have s': "xm_all s' = (xm_all s)[i := ?c]" "xm_clients s' = xm_clients (retain_usable now s)" "xm_config s' = xm_config s"
      "xm_streams s' = (if accepted then [i] else []) @ xm_streams s"
      using assms(4) g 3 i by (auto simp: connect_pooled_def Let_def xmux_update_def consume_connection_reuse_def split: if_splits)
    have "count_list picks i < 2 ^ 31 - 1" using count_le_length [of picks i] assms(3) by linarith
    then have "xmux_client_ok (xm_config s) (Suc (count_list picks i)) (count_list (xm_streams s) i + (if accepted then 1 else 0)) ?c"
      using old_client_ok [OF ok 3(3,4)] by (cases accepted) simp_all
    then show ?thesis using assms(1) i unfolding xmux_inv_def p s'
      by (auto simp: nth_list_update retain_usable_def)
  qed
qed

lemma xmux_inv_step:
  assumes "xmux_inv picks s" "i32_ok (c_max_reuse_times (xm_config s))" "length picks < 2 ^ 31 - 1" "xmux_step s m = (p, s')"
  shows "xmux_inv (picks @ p) s' \<and> xm_config s' = xm_config s \<and> length p \<le> 1"
proof (cases m)
  case (XConnect now opened accepted)
  then have "length p \<le> 1" using assms(4) by (auto split: prod.splits option.splits)
  then show ?thesis using xmux_inv_connect [OF assms(1-3)] assms(4) XConnect by blast
next
  case (XDownloadEnd i)
  show ?thesis
  proof (cases "i \<in> set (xm_streams s)")
    case True
    then have i: "i < length (xm_all s)" "0 < int (count_list (xm_streams s) i)"
      using assms(1) count_list_0_iff [of "xm_streams s" i] by (auto simp: xmux_inv_def)
    have ok: "xmux_client_ok (xm_config s) (count_list picks j) (count_list (xm_streams s) j) (xm_all s ! j)" if "j < length (xm_all s)" for j
      using assms(1) that by (simp add: xmux_inv_def)
    have "0 < sint (xc_open_usage (xm_all s ! i))" using ok [OF i(1)] i(2) by (simp add: xmux_client_ok_def)
    then have dec: "sint (xc_open_usage (xm_all s ! i) - 1) = sint (xc_open_usage (xm_all s ! i)) - 1" by (intro sint_dec) simp
    let ?c = "(xm_all s ! i)\<lparr>xc_open_usage := xc_open_usage (xm_all s ! i) - 1\<rparr>"
    have s': "s' = s\<lparr>xm_all := (xm_all s)[i := ?c], xm_streams := remove1 i (xm_streams s)\<rparr>" "p = []"
      using assms(4) XDownloadEnd True i(1) by (simp_all add: xmux_update_def)
    have "xmux_client_ok (xm_config s) (count_list picks i) (count_list (remove1 i (xm_streams s)) i) ?c"
      using ok [OF i(1)] True by (auto simp: xmux_client_ok_def count_list_remove dec simp del: count_list_remove1)
    moreover have "xmux_client_ok (xm_config s) (count_list picks j) (count_list (remove1 i (xm_streams s)) j) (xm_all s ! j)"
      if "j < length (xm_all s)" "j \<noteq> i" for j
      using ok [OF that(1)] that(2) by (auto simp: xmux_client_ok_def count_list_remove simp del: count_list_remove1)
    moreover have "\<forall>j \<in> set (xm_clients s) \<union> set (remove1 i (xm_streams s)) \<union> set picks. j < length (xm_all s)"
      using assms(1) set_remove1_subset [of i "xm_streams s"] unfolding xmux_inv_def by blast
    ultimately show ?thesis unfolding xmux_inv_def s' by (auto simp: nth_list_update)
  qed (use assms XDownloadEnd in simp)
next
  case (XResponseFailed i)
  then show ?thesis using assms xmux_inv_remove [OF assms(1)] by auto
qed (use assms xmux_inv_update [OF assms(1)] in auto)

lemma xmux_inv_run:
  "xmux_inv picks s \<Longrightarrow> i32_ok (c_max_reuse_times (xm_config s)) \<Longrightarrow> length picks + length ms < 2 ^ 31 \<Longrightarrow> xmux_run s ms = (ps, s')
    \<Longrightarrow> xmux_inv (picks @ ps) s' \<and> xm_config s' = xm_config s"
proof (induction ms arbitrary: picks s ps)
  case (Cons m ms)
  obtain p s1 where 1: "xmux_step s m = (p, s1)" by fastforce
  obtain q where 2: "xmux_run s1 ms = (q, s')" "ps = p @ q" using Cons.prems(4) 1 by (auto split: prod.splits)
  have "length picks < 2 ^ 31 - 1" using Cons.prems(3) by simp
  note step = xmux_inv_step [OF Cons.prems(1,2) this 1]
  show ?case using Cons.IH [of "picks @ p" s1 q] step Cons.prems(2,3) 2 by simp
qed simp

section \<open>Properties\<close>



text \<open>
  A response that fails does not give its use back, and a connection without room is no reason to keep to the
  limit of connections: with one connection and one stream at a time, the second stream opens a second
  connection, though no stream was open.
\<close>

theorem xmux_failed_response_leaks:
  "let cfg = \<lparr>max_concurrency = 1, max_connections = 1, c_max_reuse_times = 0, h_max_request_times = 0, h_max_reusable_secs = 0\<rparr>;
       s = snd (xmux_run (new_xmux cfg) [XConnect 0 True True, XResponseFailed 0]);
       s' = snd (xmux_step s (XConnect 0 True True))
   in xm_streams s = [] \<and> xm_clients s = [0] \<and> xm_clients s' = [0, 1]"
  by code_simp

lemma xmux_posts_payloads:
  "[] \<notin> set reads \<Longrightarrow> concat (map snd (xmux_posts m base session n reads)) = concat reads
    \<and> (\<forall>(path, payload) \<in> set (xmux_posts m base session n reads). payload \<noteq> [] \<and> length payload \<le> xmux_post_buffer m)"
proof (induction m base session n reads rule: xmux_posts.induct)
  case (2 m base session n bs reads)
  have pos: "0 < xmux_post_buffer m" by (simp add: xmux_post_buffer_def)
  let ?room = "xmux_post_buffer m"
  let ?rest = "if drop ?room bs = [] then reads else drop ?room bs # reads"
  have bs: "bs \<noteq> []" "[] \<notin> set ?rest" using 2(2) by auto
  have e: "xmux_posts m base session n (bs # reads) = (base @ ''?session='' @ session @ ''&seq='' @ show_nat n, take ?room bs)
      # xmux_posts m base session (min (2 ^ 64 - 1) (n + 1)) ?rest" using bs(1) by (simp add: Let_def)
  have "take ?room bs @ concat ?rest = bs @ concat reads" by (simp flip: append_assoc)
  then show ?case using 2(1) [OF refl bs] bs(1) pos unfolding e by simp
qed simp

end
