(* ===== verification/Vless_Bridge.thy ===== *)
theory Vless_Bridge
  imports Vless_Codec Vless_Vision Vless_Grpc Rust_Lines
begin

text \<open>
  A VLESS connection end to end (\<open>adapter/vless.rs\<close>): what \<open>connect\<close> does with a node and a target, the bridge
  between the local pipe and the stream, and the HTTP/2 body that carries it, plain or in gRPC messages. A stream
  is the list of what its reads return; a read of no bytes is its end.
\<close>

section \<open>The adapter\<close>

text \<open>What a connection is made of: the transport, the request, and the id that Vision pads with.\<close>

definition vless_connect :: "kernel_node \<Rightarrow> target_address \<Rightarrow> (vless_error, transport_plan \<times> bytes \<times> bytes option) res" where
  "vless_connect n t =
    rbind (vless_from_node n) (\<lambda>c.
    rbind (build_tcp_request (user_id n) (v_flow c) t) (\<lambda>request.
      Ok (transport_plan_of c, request, vision_uuid c)))"

definition open_vless_mux_stream :: "kernel_node \<Rightarrow> vless_config \<Rightarrow> (vless_error, transport_plan \<times> bytes) res" where
  "open_vless_mux_stream n c =
    rbind (build_request (user_id n) (v_flow c) CmdMux \<lparr>host = ''v1.mux.cool'', target_port = 666\<rparr>) (\<lambda>request.
      Ok (transport_plan_of c, request))"

section \<open>The downlink of the bridge\<close>

text \<open>\<open>read_exact\<close> on a list of reads: the bytes, and what is left.\<close>

fun read_pieces :: "nat \<Rightarrow> bytes list \<Rightarrow> (bytes \<times> bytes list) option" where
  "read_pieces n [] = (if n = 0 then Some ([], []) else None)"
| "read_pieces n (p # ps) =
    (if n = 0 then Some ([], p # ps)
     else if p = [] then None
     else if length p \<le> n
       then (case read_pieces (n - length p) ps of None \<Rightarrow> None | Some (b, r) \<Rightarrow> Some (p @ b, r))
     else Some (take n p, drop n p # ps))"

definition write_downlink :: "bytes option \<Rightarrow> bytes list \<Rightarrow> bytes" where
  "write_downlink uuid reads =
    (case uuid of None \<Rightarrow> concat reads | Some u \<Rightarrow> fst (unpadding_reads (new_unpadding u) reads))"

text \<open>A stream that does not start with a response header is passed on from its first byte.\<close>

definition bridge_downlink :: "bytes option \<Rightarrow> bytes list \<Rightarrow> bytes" where
  "bridge_downlink uuid reads =
    (case read_pieces 2 reads of
       None \<Rightarrow> []
     | Some (first, rest) \<Rightarrow>
         (if first ! 0 = 0 then
            (case read_pieces (unat (first ! 1)) rest of
               None \<Rightarrow> []
             | Some (_, rest) \<Rightarrow> write_downlink uuid (takeWhile (\<lambda>p. p \<noteq> []) rest))
          else write_downlink uuid (first # takeWhile (\<lambda>p. p \<noteq> []) rest)))"

section \<open>The body of an HTTP/2 stream\<close>

datatype h2_payload_mode = RawPayload | GrpcHunk

text \<open>The data frames of the upload: one for each read, and the empty last one.\<close>

fun h2_body_upload :: "h2_payload_mode \<Rightarrow> bytes list \<Rightarrow> (bytes \<times> bool) list" where
  "h2_body_upload mode [] = []"
| "h2_body_upload mode (bs # reads) =
    (if bs = [] then [([], True)]
     else (case mode of RawPayload \<Rightarrow> bs | GrpcHunk \<Rightarrow> encode_grpc_hunk bs, False) # h2_body_upload mode reads)"

text \<open>What the download writes for the data frames of the response.\<close>

definition h2_body_download :: "h2_payload_mode \<Rightarrow> bytes list \<Rightarrow> bytes list" where
  "h2_body_download mode chunks =
    (case mode of RawPayload \<Rightarrow> chunks | GrpcHunk \<Rightarrow> fst (feed_all grpc_drain [] chunks))"

section \<open>The answer to an HTTP upgrade\<close>

datatype upgrade_error = UpgradeEof | UpgradeTooLarge | UpgradeRejected string

fun upgrade_headers :: "bytes \<Rightarrow> bytes \<Rightarrow> (upgrade_error, string \<times> bytes) res" where
  "upgrade_headers response [] = (if length response < 8192 then Err UpgradeEof else Err UpgradeTooLarge)"
| "upgrade_headers response (b # s) =
    (if \<not> length response < 8192 then Err UpgradeTooLarge
     else if ends_with (response @ [b]) [13, 10, 13, 10] then Ok (from_utf8_lossy (response @ [b]), s)
     else upgrade_headers (response @ [b]) s)"

definition read_http_upgrade_response :: "bytes \<Rightarrow> (upgrade_error, bytes) res" where
  "read_http_upgrade_response s =
    rbind (upgrade_headers [] s) (\<lambda>(head, s).
      if \<not> starts_with head ''HTTP/1.1 101'' \<and> \<not> starts_with head ''HTTP/1.0 101''
      then Err (UpgradeRejected (case str_lines head of [] \<Rightarrow> [] | l # _ \<Rightarrow> l)) else Ok s)"

section \<open>Lemmas\<close>

lemma read_pieces_take:
  "[] \<notin> set ps \<Longrightarrow> n \<le> length (concat ps) \<Longrightarrow> \<exists>rest. read_pieces n ps = Some (take n (concat ps), rest)
    \<and> concat rest = drop n (concat ps) \<and> [] \<notin> set rest"
proof (induction n ps rule: read_pieces.induct)
  case (2 n p ps)
  consider "n = 0" | "0 < n" "length p \<le> n" | "n < length p" "0 < n" by linarith
  then show ?case
  proof cases
    case 2
    have "p \<noteq> []" "[] \<notin> set ps" "n - length p \<le> length (concat ps)" using "2.prems" by auto
    then obtain rest where "read_pieces (n - length p) ps = Some (take (n - length p) (concat ps), rest)"
        "concat rest = drop (n - length p) (concat ps)" "[] \<notin> set rest"
      using "2.IH" 2 by blast
    then show ?thesis using 2 \<open>p \<noteq> []\<close> by simp
  qed (use "2.prems" in auto)
qed auto

lemma write_downlink_decode:
  "uuid = None \<or> (\<exists>u. uuid = Some u \<and> length u = 16) \<Longrightarrow> write_downlink uuid reads
    = (case uuid of None \<Rightarrow> concat reads | Some u \<Rightarrow> concat (fst (unpad_loop u UnknownMode (concat reads))))"
  using unpadding_reads_decode [OF settled_new] by (auto simp: write_downlink_def decode_from_def new_unpadding_def)

lemma takeWhile_nonempty: "[] \<notin> set ps \<Longrightarrow> takeWhile (\<lambda>p. p \<noteq> []) ps = ps"
  by (induction ps) auto

lemma bridge_downlink_body:
  assumes "[] \<notin> set reads" "concat reads = [0, of_nat (length addon)] @ addon @ body" "length addon < 256"
    and "uuid = None \<or> (\<exists>u. uuid = Some u \<and> length u = 16)"
  shows "bridge_downlink uuid reads
    = (case uuid of None \<Rightarrow> body | Some u \<Rightarrow> concat (fst (unpad_loop u UnknownMode body)))"
proof -
  have n: "unat (of_nat (length addon) :: byte) = length addon" using assms(3) by (simp add: unat_of_nat)
  have "2 \<le> length (concat reads)" using assms(2) by simp
  from read_pieces_take [OF assms(1) this] obtain rest where
    r: "read_pieces 2 reads = Some ([0, of_nat (length addon)], rest)" "concat rest = addon @ body" "[] \<notin> set rest"
    using assms(2) by (auto simp: eval_nat_numeral)
  have "length addon \<le> length (concat rest)" using r(2) by simp
  from read_pieces_take [OF r(3) this] obtain rest' where
    r': "read_pieces (length addon) rest = Some (addon, rest')" "concat rest' = body" "[] \<notin> set rest'"
    using r(2) by auto
  have "bridge_downlink uuid reads = write_downlink uuid rest'"
    using r(1) r'(1,3) n takeWhile_nonempty [of rest'] by (simp add: bridge_downlink_def del: takeWhile_eq_all_conv)
  also have "\<dots> = (case uuid of None \<Rightarrow> body | Some u \<Rightarrow> concat (fst (unpad_loop u UnknownMode body)))"
    unfolding write_downlink_decode [OF assms(4)] r'(2) ..
  finally show ?thesis .
qed

lemma h2_body_carries:
  assumes "\<forall>p \<in> set cuts. length p < 2 ^ 32 - 11"
    and "concat chunks = concat (map (case mode of RawPayload \<Rightarrow> id | GrpcHunk \<Rightarrow> encode_grpc_hunk) cuts)"
  shows "concat (h2_body_download mode chunks) = concat cuts"
proof (cases mode)
  case RawPayload
  then show ?thesis using assms by (simp add: h2_body_download_def)
next
  case GrpcHunk
  let ?fs = "map (\<lambda>p. (encode_grpc_hunk p, [p])) cuts"
  have "feed_all grpc_drain [] chunks = (concat (map snd ?fs), [])"
  proof (rule grpc.feed_frames)
    show "\<forall>(f, out) \<in> set ?fs. \<forall>r. grpc_frame (f @ r) = Some (out, r)" using assms(1) grpc_frame_encoded by auto
    show "grpc_frame [] = None" by (simp add: grpc_frame_def)
    show "concat chunks = concat (map fst ?fs)" using assms(2) GrpcHunk by (simp add: comp_def)
  qed
  then show ?thesis using GrpcHunk by (simp add: h2_body_download_def comp_def)
qed

lemma h2_body_upload_frames:
  "[] \<notin> set cuts \<Longrightarrow> concat (map fst (h2_body_upload mode (cuts @ [[]])))
    = concat (map (case mode of RawPayload \<Rightarrow> id | GrpcHunk \<Rightarrow> encode_grpc_hunk) cuts)"
  by (induction cuts) (auto split: h2_payload_mode.splits)

lemma vless_connect_uuid:
  "vless_connect n t = Ok (plan, request, uuid) \<Longrightarrow> uuid = None \<or> (\<exists>u. uuid = Some u \<and> length u = 16)"
proof -
  assume "vless_connect n t = Ok (plan, request, uuid)"
  then obtain c where "vless_from_node n = Ok c" "uuid = vision_uuid c"
    by (auto simp: vless_connect_def rbind_Inr_iff)
  moreover then have "length (v_uuid c) = 16" using parse_uuid_length by (force simp: vless_from_node_def rbind_Inr_iff)
  ultimately show ?thesis by (simp add: vision_uuid_def)
qed

section \<open>Properties\<close>


definition example_vision_node :: kernel_node where
  "example_vision_node = \<lparr>node_id = None, node_protocol = ''vless'', server = ''h'', server_port = 443,
     user_id = ''00112233-4455-6677-8899-aabbccddeeff'',
     parameters = [''security'' \<mapsto> Some ''tls'', ''flow'' \<mapsto> Some ''xtls-rprx-vision'']\<rparr>"


text \<open>
  A stream whose first byte is not the version of VLESS is not refused: its first two bytes are given to the local side as
  data.
\<close>

theorem bridge_passes_unknown_version:
  "bridge_downlink None [[7, 1], [2]] = [7, 1, 2]"
  by code_simp

end
