(* ===== verification/Vless_Reality.thy ===== *)
theory Vless_Reality
  imports Vless_Config Rust_Lines
begin

text \<open>
  REALITY (\<open>adapter/reality.rs\<close>): what the configuration of a node gives, the X25519 key share, and the session
  id that the client puts into its ClientHello so that the server can recognise it. Base64, X25519, HKDF and
  AES-GCM are arguments; a call that may fail returns an option. Beside it, \<open>validate\<close> of the VLESS adapter, which
  is where a configuration is first read.
\<close>

section \<open>The configuration\<close>

datatype reality_error =
    PublicKeyNotBase64
  | PublicKeyLength
  | ShortIdOddLength
  | ShortIdNotHex
  | ShortIdTooLong
  | RealityRequiresX25519
  | InvalidRealityServerKey
  | InvalidPeerKeyShare
  | AuthKeyDerivation
  | ClockBeforeEpoch
  | AeadInitialisation
  | HelloAuthentication
  | SessionIdLength

record reality_session_id =
  rs_public_key :: bytes
  rs_short_id :: bytes

text \<open>\<open>u8::from_str_radix(s, 16)\<close>, which allows a sign.\<close>

definition u8_from_hex :: "string \<Rightarrow> byte option" where
  "u8_from_hex s =
    (let ds = (case s of c # r \<Rightarrow> if c = CHR ''+'' then r else s | [] \<Rightarrow> s)
     in if ds \<noteq> [] \<and> list_all (is_digit_char 16) ds \<and> digits_value 16 ds < 256
        then Some (of_nat (digits_value 16 ds)) else None)"

text \<open>Slicing a string inside a character panics.\<close>

definition splits_char :: "string \<Rightarrow> bool" where
  "splits_char s = (case s of [] \<Rightarrow> False | c # _ \<Rightarrow> utf8_cont (of_nat (of_char c)))"

fun decode_hex_loop :: "string \<Rightarrow> (reality_error, bytes) res" where
  "decode_hex_loop [] = Ok []"
| "decode_hex_loop [c] = Inl Panic"
| "decode_hex_loop (a # b # r) =
    (if splits_char [a] \<or> splits_char r then Inl Panic
     else rbind (from_option ShortIdNotHex (u8_from_hex [a, b])) (\<lambda>v.
          rbind (decode_hex_loop r) (\<lambda>vs. Ok (v # vs))))"

definition decode_hex :: "string \<Rightarrow> (reality_error, bytes) res" where
  "decode_hex value =
    (let value = str_trim value
     in if value = [] then Ok []
        else if length value mod 2 \<noteq> 0 then Err ShortIdOddLength
        else decode_hex_loop value)"

definition new_reality_session_id ::
    "(string \<Rightarrow> bytes option) \<Rightarrow> string \<Rightarrow> string \<Rightarrow> (reality_error, reality_session_id) res" where
  "new_reality_session_id base64 public_key short_id =
    rbind (from_option PublicKeyNotBase64 (base64 public_key)) (\<lambda>key.
    if length key \<noteq> 32 then Err PublicKeyLength
    else rbind (decode_hex short_id) (\<lambda>sid.
      if 8 < length sid then Err ShortIdTooLong
      else Ok \<lparr>rs_public_key = key, rs_short_id = sid\<rparr>))"

section \<open>Validation of a node\<close>

datatype vless_validate_error = BadConfig vless_error | BadReality reality_error

definition vless_validate :: "(string \<Rightarrow> bytes option) \<Rightarrow> kernel_node \<Rightarrow> (vless_validate_error, unit) res" where
  "vless_validate base64 n =
    (case vless_from_node n of
       Inl Panic \<Rightarrow> Inl Panic
     | Inl (Fail e) \<Rightarrow> Err (BadConfig e)
     | Inr c \<Rightarrow>
         (case v_security c of
            SecReality public_key short_id _ \<Rightarrow>
              (case new_reality_session_id base64 public_key short_id of
                 Inl Panic \<Rightarrow> Inl Panic
               | Inl (Fail e) \<Rightarrow> Err (BadReality e)
               | Inr _ \<Rightarrow> Ok ())
          | _ \<Rightarrow> Ok ()))"

section \<open>The key share\<close>

text \<open>\<open>dh secret public\<close> is X25519; \<open>public_of secret\<close> the public key.\<close>

record x25519_exchange =
  x_secret :: bytes
  x_public :: bytes

definition start_exchange :: "(bytes \<Rightarrow> bytes) \<Rightarrow> bytes \<Rightarrow> x25519_exchange" where
  "start_exchange public_of secret = \<lparr>x_secret = secret, x_public = public_of secret\<rparr>"

definition complete_exchange ::
    "(bytes \<Rightarrow> bytes \<Rightarrow> bytes) \<Rightarrow> x25519_exchange \<Rightarrow> bytes \<Rightarrow> (reality_error, bytes) res" where
  "complete_exchange dh x peer =
    (if length peer \<noteq> 32 then Err InvalidPeerKeyShare else Ok (dh (x_secret x) peer))"

definition reality_shared_secret ::
    "(bytes \<Rightarrow> bytes \<Rightarrow> bytes) \<Rightarrow> x25519_exchange \<Rightarrow> bytes \<Rightarrow> (reality_error, bytes) res option" where
  "reality_shared_secret dh x peer =
    Some (if length peer \<noteq> 32 then Err InvalidRealityServerKey else Ok (dh (x_secret x) peer))"

section \<open>The session id\<close>

definition session_plaintext :: "nat \<Rightarrow> bytes \<Rightarrow> (reality_error, bytes) res" where
  "session_plaintext now short_id =
    (if 8 < length short_id then Inl Panic
     else Ok ([26, 6, 1, 0] @ to_be 4 now @ short_id @ replicate (8 - length short_id) 0))"

text \<open>
  \<open>key_share\<close> is the exchange's \<open>reality_shared_secret\<close>, which other groups do not have (\<open>None\<close>); \<open>now\<close> are the seconds
  since the epoch, cut to 32 bits.
\<close>

definition generate_session_id ::
    "(bytes \<Rightarrow> bytes \<Rightarrow> bytes \<Rightarrow> bytes option) \<Rightarrow> (bytes \<Rightarrow> bytes \<Rightarrow> bytes \<Rightarrow> bytes \<Rightarrow> bytes option)
     \<Rightarrow> (bytes \<Rightarrow> (reality_error, bytes) res option) \<Rightarrow> reality_session_id \<Rightarrow> nat option \<Rightarrow> bytes \<Rightarrow> bytes
     \<Rightarrow> (reality_error, bytes) res" where
  "generate_session_id hkdf seal key_share rs now random hello =
    rbind (case key_share (rs_public_key rs) of None \<Rightarrow> Err RealityRequiresX25519 | Some r \<Rightarrow> r) (\<lambda>shared_secret.
    rbind (from_option AuthKeyDerivation (hkdf (take 20 random) shared_secret (as_bytes ''REALITY''))) (\<lambda>auth_key.
    rbind (from_option ClockBeforeEpoch now) (\<lambda>secs.
    rbind (session_plaintext (secs mod 2 ^ 32) (rs_short_id rs)) (\<lambda>plaintext.
    if length auth_key \<noteq> 32 then Err AeadInitialisation
    else rbind (from_option HelloAuthentication (seal auth_key (drop 20 random) plaintext hello)) (\<lambda>sealed.
      if length sealed = 32 then Ok sealed else Err SessionIdLength)))))"

section \<open>The certificate\<close>

text \<open>The verifier that a REALITY connection uses asks nothing of the server.\<close>

definition reality_verify_server_cert :: "bytes \<Rightarrow> bytes list \<Rightarrow> string \<Rightarrow> (reality_error, unit) res" where
  "reality_verify_server_cert end_entity intermediates server_name = Ok ()"

definition reality_verify_signature :: "bytes \<Rightarrow> bytes \<Rightarrow> bytes \<Rightarrow> (reality_error, unit) res" where
  "reality_verify_signature message cert signature = Ok ()"

section \<open>Lemmas\<close>

lemma new_reality_sizes:
  "new_reality_session_id base64 k s = Ok rs \<Longrightarrow> length (rs_public_key rs) = 32 \<and> length (rs_short_id rs) \<le> 8
    \<and> base64 k = Some (rs_public_key rs) \<and> decode_hex s = Ok (rs_short_id rs)"
  by (auto simp: new_reality_session_id_def rbind_Inr_iff from_option_def split: if_splits option.splits)

lemma hex_digit_code: "d < 16 \<Longrightarrow> (of_char (digit_char d) :: nat) = (if d < 10 then 48 + d else 87 + d)"
  by (simp add: digit_char_def)

lemma hex_digit_visible: "d < 16 \<Longrightarrow> visible (digit_char d)"
  by (simp add: visible_def hex_digit_code)

lemma digit_char_whole: "d < 16 \<Longrightarrow> \<not> splits_char (digit_char d # s)"
  by (auto simp: splits_char_def utf8_cont_def hex_digit_code word_le_nat_alt unat_of_nat)

lemma digit_char_no_plus: "d < 16 \<Longrightarrow> digit_char d \<noteq> CHR ''+''"
  using hex_digit_code [of d] by (auto split: if_splits)

lemma u8_from_hex_digits:
  "a < 16 \<Longrightarrow> b < 16 \<Longrightarrow> u8_from_hex [digit_char a, digit_char b] = Some (of_nat (16 * a + b))"
  by (simp add: u8_from_hex_def digit_char_no_plus digits_value_two)

lemma hex_text_whole: "\<not> splits_char (hex_text bs)"
  by (cases bs) (simp_all add: splits_char_def [of "[]"] digit_char_whole nibble_bound)

lemma decode_hex_loop_text: "decode_hex_loop (hex_text bs) = Ok bs"
  by (induction bs) (simp_all add: digit_char_whole nibble_bound hex_text_whole u8_from_hex_digits)

lemma hex_text_visible: "list_all visible (hex_text bs)"
  by (induction bs) (simp_all add: hex_digit_visible nibble_bound)

lemma decode_hex_text: "decode_hex (hex_text bs) = Ok bs"
  unfolding decode_hex_def Let_def str_trim_visible [OF hex_text_visible] decode_hex_loop_text
  by (cases bs) simp_all

section \<open>Properties\<close>

text \<open>
  C7: the server recognises the session id. For a node whose public key and short id are in order, with a clock that runs
  and a key derivation that gives 32 bytes, the id is made and has the 32 bytes of the field; and a server that has
  the private key and derives its key from the client's key share opens it, with the ClientHello as associated
  data, and reads the version, the time and the short id of the configuration filled up with zeros.
\<close>

theorem reality_session_authenticates:
  assumes "new_reality_session_id base64 pbk (hex_text short_id) = Ok rs" "length random = 32"
    and "rs_public_key rs = public_of private" "dh client (public_of private) = dh private (public_of client)"
    and "hkdf (take 20 random) (dh private (public_of client)) (as_bytes ''REALITY'') = Some key" "length key = 32"
    and "\<forall>nonce msg aad. length nonce = 12 \<longrightarrow>
      (\<exists>c. seal key nonce msg aad = Some c \<and> length c = length msg + 16 \<and> open key nonce c aad = Some msg)"
  shows "\<exists>sid. generate_session_id hkdf seal (reality_shared_secret dh (start_exchange public_of client)) rs
        (Some now) random hello = Ok sid
    \<and> length sid = 32
    \<and> open key (drop 20 random) sid hello
      = Some ([26, 6, 1, 0] @ to_be 4 (now mod 2 ^ 32) @ short_id @ replicate (8 - length short_id) 0)"
proof -
  have rs: "length (public_of private) = 32" "length (rs_short_id rs) \<le> 8" "rs_short_id rs = short_id"
    using new_reality_sizes [OF assms(1)] assms(3) by (simp_all add: decode_hex_text)
  let ?msg = "[26, 6, 1, 0] @ to_be 4 (now mod 2 ^ 32) @ short_id @ replicate (8 - length short_id) 0"
  have "session_plaintext (now mod 2 ^ 32) short_id = Ok ?msg" and "length ?msg = 16"
    using rs by (simp_all add: session_plaintext_def)
  moreover obtain c where "seal key (drop 20 random) ?msg hello = Some c" "length c = length ?msg + 16"
      "open key (drop 20 random) c hello = Some ?msg"
    using assms(7) [rule_format, of "drop 20 random" ?msg hello] assms(2) by auto
  ultimately show ?thesis using rs assms(3-6)
    by (simp add: generate_session_id_def reality_shared_secret_def start_exchange_def)
qed

theorem reality_session_authenticates_witness:
  "\<exists>rs sid. new_reality_session_id (\<lambda>_. Some (replicate 32 7)) ''k'' (hex_text [0xAB, 0xCD]) = Ok rs
    \<and> generate_session_id (\<lambda>salt ikm info. Some (take 32 ikm)) (\<lambda>key nonce msg aad. Some (msg @ replicate 16 9))
        (reality_shared_secret (\<lambda>a b. map2 (+) a b) (start_exchange (\<lambda>a. a) (replicate 32 5))) rs (Some 66051)
        (replicate 32 3) [1] = Ok sid
    \<and> take 16 sid = [26, 6, 1, 0, 0, 1, 2, 3, 0xAB, 0xCD, 0, 0, 0, 0, 0, 0]"
proof -
  have new: "new_reality_session_id (\<lambda>_. Some (replicate 32 7)) ''k'' (hex_text [0xAB, 0xCD])
      = Ok \<lparr>rs_public_key = replicate 32 7, rs_short_id = [0xAB, 0xCD]\<rparr>" (is "_ = Ok ?rs")
    by (simp add: new_reality_session_id_def decode_hex_text del: hex_text_simps)
  have four: "to_be 4 (66051 mod 2 ^ 32) = [0, 1, 2, 3]" and six: "replicate 6 (0 :: byte) = [0, 0, 0, 0, 0, 0]" by code_simp+
  from reality_session_authenticates [OF new, of "replicate 32 3" "\<lambda>a. a" "replicate 32 7" "\<lambda>a b. map2 (+) a b" "replicate 32 5"
      "\<lambda>salt ikm info. Some (take 32 ikm)" "replicate 32 12" "\<lambda>key nonce msg aad. Some (msg @ replicate 16 9)"
      "\<lambda>key nonce msg aad. Some (take (length msg - 16) msg)" 66051 "[1]"]
  show ?thesis using new four six by (auto simp: zip_replicate map_replicate)
qed

text \<open>
  A short id that is not ASCII makes the validation of the node panic: the digits are cut out of the text by twos, and
  a cut inside a character is a fault.
\<close>

definition example_reality_node :: kernel_node where
  "example_reality_node = \<lparr>node_id = None, node_protocol = ''vless'', server = ''h'', server_port = 443,
     user_id = ''00112233-4455-6677-8899-aabbccddeeff'',
     parameters = [''security'' \<mapsto> Some ''reality'', ''sni'' \<mapsto> Some ''s'', ''pbk'' \<mapsto> Some ''k'',
       ''sid'' \<mapsto> Some [CHR ''a'', CHR 0xC3, CHR 0xA9, CHR ''b'']]\<rparr>"

theorem reality_short_id_panics:
  "vless_validate (\<lambda>_. Some (replicate 32 0)) example_reality_node = Inl Panic"
  by code_simp

text \<open>A sign is taken for a digit of the short id.\<close>

theorem reality_short_id_sign: "decode_hex ''+f'' = Ok [15]"
  by code_simp

text \<open>The server is not asked for its key: any certificate and any signature is accepted.\<close>

theorem reality_accepts_any_server:
  "reality_verify_server_cert cert chain name = Ok () \<and> reality_verify_signature message cert signature = Ok ()"
  by (simp add: reality_verify_server_cert_def reality_verify_signature_def)

end
