(* ===== verification/Control_Plane.thy ===== *)
theory Control_Plane
  imports Rust_Lines Rust_Net
begin

text \<open>
  The crates around the kernel: the profile and its parts (\<open>neoncore-core\<close>), the engine (\<open>neoncore-engine\<close>), requests and
  responses (\<open>neoncore-api\<close>), the update check (\<open>neoncore-updater\<close>), the command line and the daemon with their
  messages (\<open>neoncore-cli\<close>, \<open>neoncore-daemon\<close>), and the arguments of the TUN bridge (\<open>neoncore-tun2proxy\<close>). What the
  program prints is the result of a command.
\<close>

section \<open>The profile\<close>

datatype protocol_kind = PkHttp | PkHttps | PkSocks5 | PkWireGuard | PkOpenConnect | PkCustom string

record profile_node =
  pn_id :: string
  pn_name :: string
  pn_endpoint :: string
  pn_protocol :: protocol_kind
  pn_tags :: "string list"
  pn_udp_supported :: bool
  pn_tls_supported :: bool

datatype update_strategy = StrategyReplace | StrategyMerge | StrategyKeepExisting

definition default_update_strategy :: update_strategy where
  "default_update_strategy = StrategyMerge"

record subscription =
  sub_id :: string
  sub_name :: string
  sub_url :: string
  sub_enabled :: bool
  sub_update_strategy :: update_strategy

datatype profile_mode = ModeGlobal | ModeRule | ModeDirect

datatype profile_matcher =
    PmDomain string
  | PmDomainSuffix string
  | PmDomainKeyword string
  | PmCidr string
  | PmGeoIp string
  | PmUserAgent string

datatype profile_action = PaProxy "string option" | PaDirect | PaReject

record profile_rule =
  pr_id :: string
  pr_name :: string
  pr_matcher :: profile_matcher
  pr_action :: profile_action
  pr_enabled :: bool

datatype profile_dns_mode = DnsSystem | DnsRemote | DnsParallelFastest

datatype profile_dns_protocol = DpUdp | DpTcp | DpHttps | DpTls | DpQuic

record profile_dns_server =
  ds_id :: string
  ds_endpoint :: string
  ds_protocol :: profile_dns_protocol
  ds_enabled :: bool

record profile_host_mapping =
  hm_hostname :: string
  hm_address :: string

record profile_dns =
  dns_mode :: profile_dns_mode
  dns_servers :: "profile_dns_server list"
  dns_hosts :: "profile_host_mapping list"
  dns_prefer_ipv6 :: bool

definition default_profile_dns :: profile_dns where
  "default_profile_dns = \<lparr>dns_mode = DnsSystem, dns_servers = [], dns_hosts = [], dns_prefer_ipv6 = False\<rparr>"

record rewrite_rule =
  rw_id :: string
  rw_name :: string
  rw_pattern :: string
  rw_replacement :: string
  rw_enabled :: bool

record profile =
  p_id :: string
  p_name :: string
  p_nodes :: "profile_node list"
  p_subscriptions :: "subscription list"
  p_routing_mode :: profile_mode
  p_routing_rules :: "profile_rule list"
  p_dns :: profile_dns
  p_rewrites :: "rewrite_rule list"

definition empty_profile :: "string \<Rightarrow> string \<Rightarrow> profile" where
  "empty_profile i n = \<lparr>p_id = i, p_name = n, p_nodes = [], p_subscriptions = [], p_routing_mode = ModeRule,
     p_routing_rules = [], p_dns = default_profile_dns, p_rewrites = []\<rparr>"

record latency_result =
  lr_node_id :: string
  lr_latency_ms :: "u32 option"
  lr_reachable :: bool

record traffic_stats =
  direct_rx_bytes :: u64
  direct_tx_bytes :: u64
  proxy_rx_bytes :: u64
  proxy_tx_bytes :: u64

datatype diagnostic_status = DiagPass | DiagWarn | DiagFail

record diagnostic_check =
  dc_id :: string
  dc_status :: diagnostic_status
  dc_message_key :: string

type_synonym diagnostic_report = "diagnostic_check list"

datatype connection_state = Disconnected | Connecting | Connected | Disconnecting | ConnectionError string

datatype core_error = InvalidProfile | InvalidSubscriptionUrl

definition parse_profile_config :: "string \<Rightarrow> (core_error, profile) res" where
  "parse_profile_config source = Ok (empty_profile ''default'' ''Default'')"

definition import_subscription :: "string \<Rightarrow> (core_error, subscription) res" where
  "import_subscription url =
    (if \<not> (starts_with url ''https://'' \<or> starts_with url ''http://'') then Err InvalidSubscriptionUrl
     else Ok \<lparr>sub_id = ''subscription.default'', sub_name = ''Default Subscription'', sub_url = url,
       sub_enabled = True, sub_update_strategy = StrategyMerge\<rparr>)"

definition sample_diagnostic_report :: diagnostic_report where
  "sample_diagnostic_report =
    [\<lparr>dc_id = ''daemon.reachable'', dc_status = DiagWarn, dc_message_key = ''diagnostics.daemon_unavailable''\<rparr>,
     \<lparr>dc_id = ''profile.loaded'', dc_status = DiagPass, dc_message_key = ''diagnostics.profile_loaded''\<rparr>]"

section \<open>The engine\<close>

record engine_status =
  es_state :: connection_state
  es_active_node_id :: "string option"

definition default_engine_status :: engine_status where
  "default_engine_status = \<lparr>es_state = Disconnected, es_active_node_id = None\<rparr>"

record kernel_engine =
  ke_status :: engine_status
  ke_loaded_profile_id :: "string option"

definition new_engine :: kernel_engine where
  "new_engine = \<lparr>ke_status = default_engine_status, ke_loaded_profile_id = None\<rparr>"

definition engine_start :: "profile \<Rightarrow> string option \<Rightarrow> kernel_engine \<Rightarrow> kernel_engine" where
  "engine_start p node e = e\<lparr>ke_loaded_profile_id := Some (p_id p),
     ke_status := \<lparr>es_state = Connected, es_active_node_id = node\<rparr>\<rparr>"

definition engine_stop :: "kernel_engine \<Rightarrow> kernel_engine" where
  "engine_stop e = e\<lparr>ke_status := default_engine_status\<rparr>"

definition engine_reload :: "profile \<Rightarrow> kernel_engine \<Rightarrow> kernel_engine" where
  "engine_reload p e = e\<lparr>ke_loaded_profile_id := Some (p_id p)\<rparr>"

datatype engine_call = EngineStart profile "string option" | EngineStop | EngineReload profile

fun engine_call_step :: "engine_call \<Rightarrow> kernel_engine \<Rightarrow> kernel_engine" where
  "engine_call_step (EngineStart p node) e = engine_start p node e"
| "engine_call_step EngineStop e = engine_stop e"
| "engine_call_step (EngineReload p) e = engine_reload p e"

section \<open>Requests and responses\<close>

datatype api_request =
    RqStatus
  | RqConnect "string option"
  | RqDisconnect
  | RqListNodes
  | RqListProfiles
  | RqListRules
  | RqListRewrites
  | RqImportSubscription string
  | RqUpdateSubscription string
  | RqSetMode profile_mode
  | RqSetDns profile_dns
  | RqTestLatency "string option"
  | RqTrafficStats
  | RqDiagnostics
  | RqExportProfile string

datatype api_response =
    RsStatus engine_status
  | RsConnected "string option"
  | RsDisconnected
  | RsNodes "profile_node list"
  | RsProfiles "profile list"
  | RsRules "profile_rule list"
  | RsRewrites "rewrite_rule list"
  | RsSubscriptionImported string
  | RsSubscriptionUpdated string
  | RsModeSet profile_mode
  | RsDnsUpdated
  | RsLatency "latency_result list"
  | RsTrafficStats traffic_stats
  | RsDiagnostics diagnostic_report
  | RsProfileExported string string
  | RsError string

record health_response =
  hr_service :: string
  hr_healthy :: bool
  hr_version :: string

record update_check =
  uc_current_version :: string
  uc_update_available :: bool

definition check_for_updates :: "string \<Rightarrow> update_check" where
  "check_for_updates version = \<lparr>uc_current_version = version, uc_update_available = False\<rparr>"

section \<open>Messages\<close>

text \<open>\<open>split_once\<close> with a text, and \<open>replace\<close>.\<close>

fun split_once_at :: "string \<Rightarrow> string \<Rightarrow> (string \<times> string) option" where
  "split_once_at sep [] = (if sep = [] then Some ([], []) else None)"
| "split_once_at sep (c # s) =
    (if starts_with (c # s) sep then Some ([], drop (length sep) (c # s))
     else (case split_once_at sep s of None \<Rightarrow> None | Some (a, b) \<Rightarrow> Some (c # a, b)))"

definition replace_all :: "string \<Rightarrow> string \<Rightarrow> string \<Rightarrow> string" where
  "replace_all pat rep s = str_join rep (str_split pat s)"

text \<open>The table is a list in which a later entry for a key comes first.\<close>

definition parse_ftl :: "string \<Rightarrow> (string \<times> string) list" where
  "parse_ftl source = rev (List.map_filter (split_once_at '' = '') (str_lines source))"

definition placeholder :: "string \<Rightarrow> string" where
  "placeholder name = ''{ $'' @ name @ '' }''"

definition tr :: "(string \<times> string) list \<Rightarrow> string \<Rightarrow> (string \<times> string) list \<Rightarrow> string" where
  "tr messages key vars =
    foldl (\<lambda>v (name, replacement). replace_all (placeholder name) replacement v)
      (case map_of messages key of Some m \<Rightarrow> m | None \<Rightarrow> key) vars"

text \<open>The messages of a locale: \<open>files\<close> are the three files of the build.\<close>

definition i18n_from_env :: "(string \<Rightarrow> string) \<Rightarrow> string option \<Rightarrow> (string \<times> string) list" where
  "i18n_from_env files locale_var =
    (let l = (case locale_var of Some v \<Rightarrow> v | None \<Rightarrow> ''en-AU'')
     in parse_ftl (files (if l = ''zh-Hans'' then ''zh-Hans'' else if l = ''en-XA'' then ''en-XA'' else ''en-AU'')))"

section \<open>The command line\<close>

datatype mode_arg = ArgGlobal | ArgRule | ArgDirect

fun routing_mode_of :: "mode_arg \<Rightarrow> profile_mode" where
  "routing_mode_of ArgGlobal = ModeGlobal"
| "routing_mode_of ArgRule = ModeRule"
| "routing_mode_of ArgDirect = ModeDirect"

datatype service_command = ServiceInstall | ServiceStart | ServiceStop

datatype cli_command =
    CliStatus
  | CliConnect "string option"
  | CliDisconnect
  | CliNodes
  | CliProfiles
  | CliImport string
  | CliUpdate string
  | CliMode mode_arg
  | CliRules
  | CliRewrites
  | CliDns
  | CliLatency "string option"
  | CliStats
  | CliDiagnostics
  | CliExport string
  | CliLogs
  | CliService service_command

fun mode_text :: "profile_mode \<Rightarrow> string" where
  "mode_text ModeGlobal = ''Global''"
| "mode_text ModeRule = ''Rule''"
| "mode_text ModeDirect = ''Direct''"

fun cli_run :: "(string \<times> string) list \<Rightarrow> cli_command \<Rightarrow> string" where
  "cli_run m CliStatus = tr m ''cli-status-line'' [(''status'', tr m ''connection-status-disconnected'' [])]"
| "cli_run m (CliConnect (Some node)) = tr m ''cli-connected'' [(''node'', node)]"
| "cli_run m (CliConnect None) = tr m ''cli-connected-default'' []"
| "cli_run m CliDisconnect = tr m ''cli-disconnected'' []"
| "cli_run m CliNodes = tr m ''cli-no-nodes'' []"
| "cli_run m CliProfiles = tr m ''cli-no-profiles'' []"
| "cli_run m (CliImport url) = tr m ''cli-imported'' [(''url'', url)]"
| "cli_run m (CliUpdate i) = tr m ''cli-subscription-updated'' [(''id'', i)]"
| "cli_run m (CliMode mode) = tr m ''cli-mode-set'' [(''mode'', mode_text (routing_mode_of mode))]"
| "cli_run m CliRules = tr m ''cli-rules-empty'' []"
| "cli_run m CliRewrites = tr m ''cli-rewrites-empty'' []"
| "cli_run m CliDns = tr m ''cli-dns-system'' []"
| "cli_run m (CliLatency node) =
    tr m ''cli-latency-started''
      [(''node'', case node of Some n \<Rightarrow> n | None \<Rightarrow> tr m ''cli-latency-all-nodes'' [])]"
| "cli_run m CliStats = tr m ''cli-stats-zero'' []"
| "cli_run m CliDiagnostics = tr m ''cli-diagnostics-complete'' []"
| "cli_run m (CliExport i) = tr m ''cli-export-ready'' [(''profile'', i)]"
| "cli_run m CliLogs = tr m ''cli-logs-empty'' []"
| "cli_run m (CliService ServiceInstall) = tr m ''cli-service-install'' []"
| "cli_run m (CliService ServiceStart) = tr m ''cli-service-start'' []"
| "cli_run m (CliService ServiceStop) = tr m ''cli-service-stop'' []"

section \<open>The daemon\<close>

datatype daemon_command = DaemonRun | DaemonStatus | DaemonHealth

text \<open>The lines a command prints, and whether it sleeps for ever behind them.\<close>

definition daemon_run ::
    "(health_response \<Rightarrow> string) \<Rightarrow> string \<Rightarrow> (string \<times> string) list \<Rightarrow> daemon_command \<Rightarrow> string list \<times> bool" where
  "daemon_run to_json version m cmd =
    (case cmd of
       DaemonRun \<Rightarrow>
         ([''{\"level\":\"info\",\"target\":\"neoncore-daemon\",\"event\":\"startup\"}'', tr m ''daemon-running'' []], True)
     | DaemonStatus \<Rightarrow>
         ([tr m ''daemon-status'' [(''status'', tr m ''connection-status-disconnected'' [])]], False)
     | DaemonHealth \<Rightarrow>
         ([to_json \<lparr>hr_service = ''neoncore-daemon'', hr_healthy = True, hr_version = version\<rparr>,
           tr m ''daemon-health-ok'' []], False))"

section \<open>The arguments of the TUN bridge\<close>

datatype tun_dns_mode = TunDnsDirect | TunDnsOverTcp | TunDnsVirtual

definition tun_dns_mode_from_str :: "string \<Rightarrow> (string, tun_dns_mode) res" where
  "tun_dns_mode_from_str v =
    (if v = ''direct'' then Ok TunDnsDirect
     else if v = ''over-tcp'' then Ok TunDnsOverTcp
     else if v = ''virtual'' then Ok TunDnsVirtual
     else Err (''unsupported DNS mode: '' @ v))"

text \<open>\<open>'c\<close> are the address ranges, \<open>'v\<close> the verbosity and \<open>'p\<close> the proxy of the package \<open>tun2proxy\<close>.\<close>

record ('c, 'v) tun_cli =
  tc_proxy_host :: string
  tc_proxy_port :: u16
  tc_tun_name :: "string option"
  tc_setup_routes :: bool
  tc_ipv6 :: bool
  tc_dns :: tun_dns_mode
  tc_dns_addr :: ip_addr
  tc_mtu :: u16
  tc_bypass :: "'c list"
  tc_max_sessions :: nat
  tc_verbosity :: 'v

record ('p, 'c, 'v) tun_args =
  ta_proxy :: 'p
  ta_setup :: bool
  ta_ipv6_enabled :: bool
  ta_dns :: tun_dns_mode
  ta_dns_addr :: ip_addr
  ta_verbosity :: 'v
  ta_mtu :: u16
  ta_max_sessions :: nat
  ta_tun :: "string option"
  ta_bypass :: "'c list"

definition tun_proxy_url :: "('c, 'v) tun_cli \<Rightarrow> string" where
  "tun_proxy_url c = ''socks5://'' @ tc_proxy_host c @ '':'' @ show_nat (unat (tc_proxy_port c))"

definition tun_args_of ::
    "(string \<Rightarrow> 'p option) \<Rightarrow> ('p, 'c, 'v) tun_args \<Rightarrow> ('c, 'v) tun_cli \<Rightarrow> (string, ('p, 'c, 'v) tun_args) res" where
  "tun_args_of parse_proxy defaults c =
    rbind (from_option ''proxy'' (parse_proxy (tun_proxy_url c))) (\<lambda>proxy.
      Ok (defaults\<lparr>ta_proxy := proxy, ta_setup := tc_setup_routes c, ta_ipv6_enabled := tc_ipv6 c,
        ta_dns := tc_dns c, ta_dns_addr := tc_dns_addr c, ta_verbosity := tc_verbosity c,
        ta_mtu := tc_mtu c, ta_max_sessions := tc_max_sessions c,
        ta_tun := (case tc_tun_name c of Some n \<Rightarrow> Some n | None \<Rightarrow> ta_tun defaults),
        ta_bypass := ta_bypass defaults @ tc_bypass c\<rparr>))"

section \<open>Properties\<close>

lemma str_split_absent:
  "c \<notin> set s \<Longrightarrow> str_split (c # sep) s = [s]"
proof (induction s)
  case (Cons d s)
  then show ?case by (subst str_split.simps) (auto simp: starts_with_def)
qed (simp add: str_split.simps)

lemma replace_all_once:
  assumes "c \<notin> set a" "c \<notin> set b"
  shows "replace_all (c # pat) rep (a @ (c # pat) @ b) = a @ rep @ b"
proof -
  have "\<not> starts_with (drop k (a @ (c # pat) @ b)) (c # pat)" if "k < length a" for k
  proof -
    have "a ! k \<noteq> c" using assms(1) that by auto
    moreover have "drop k (a @ (c # pat) @ b) = a ! k # drop (Suc k) (a @ (c # pat) @ b)"
      using that by (simp add: Cons_nth_drop_Suc flip: nth_append_left)
    ultimately show ?thesis by (simp add: starts_with_def)
  qed
  then have "str_split (c # pat) (a @ (c # pat) @ b) = [a, b]"
    using str_split_first [of "c # pat" a b] str_split_absent [OF assms(2), of pat] by simp
  then show ?thesis by (simp add: replace_all_def)
qed

text \<open>A message with one place shows the value there, whatever the value holds.\<close>

lemma tr_shows_value:
  assumes "map_of messages key = Some (a @ placeholder name @ b)" "CHR ''{'' \<notin> set a" "CHR ''{'' \<notin> set b"
  shows "tr messages key [(name, v)] = a @ v @ b"
  using assms replace_all_once [of "CHR ''{''" a b "'' $'' @ name @ '' }''" v] by (simp add: tr_def placeholder_def)

text \<open>
  What the engine reports after any calls: the last start, unless a stop came behind it; the profile is that of the
  last start or reload, which a stop does not forget.
\<close>

fun sets_status :: "engine_call \<Rightarrow> engine_status option" where
  "sets_status (EngineStart _ node) = Some \<lparr>es_state = Connected, es_active_node_id = node\<rparr>"
| "sets_status EngineStop = Some default_engine_status"
| "sets_status (EngineReload _) = None"

fun loads_profile :: "engine_call \<Rightarrow> string option" where
  "loads_profile (EngineStart p _) = Some (p_id p)"
| "loads_profile EngineStop = None"
| "loads_profile (EngineReload p) = Some (p_id p)"

lemma engine_after_calls:
  "fold engine_call_step calls new_engine =
    \<lparr>ke_status = last (default_engine_status # List.map_filter sets_status calls),
     ke_loaded_profile_id = last (None # map Some (List.map_filter loads_profile calls))\<rparr>"
proof (induction calls rule: rev_induct)
  case Nil
  then show ?case by (simp add: new_engine_def)
next
  case (snoc c calls)
  then show ?case
    by (cases c) (simp_all add: engine_start_def engine_stop_def engine_reload_def List.map_filter_def)
qed

text \<open>The command line reports an import of what the profile refuses; nothing is imported.\<close>

theorem cli_imports_anything:
  "cli_run [(''cli-imported'', ''Subscription imported: { $url }'')] (CliImport ''x'') = ''Subscription imported: x''
    \<and> import_subscription ''x'' = Err InvalidSubscriptionUrl"
  by code_simp

text \<open>The address of a proxy on IPv6 is put into the URL without brackets.\<close>

theorem tun_proxy_url_ipv6:
  "tun_proxy_url \<lparr>tc_proxy_host = ''::1'', tc_proxy_port = 1080, tc_tun_name = None, tc_setup_routes = True, tc_ipv6 = True,
     tc_dns = TunDnsOverTcp, tc_dns_addr = V4 0x01010101, tc_mtu = 1500, tc_bypass = [], tc_max_sessions = 512, tc_verbosity = ()\<rparr>
   = ''socks5://::1:1080''"
  by code_simp

end
