(* ===== verification/Spec2Isabelle.thy ===== *)
theory Spec2Isabelle
  imports Tun_Engine Routing_Table Buffer_Pool Kernel_Dns Kernel_Inbound Packet_Session
    Vless_Config Vless_Grpc Vless_Codec Vless_Vision Anytls_Client Hysteria2 Ss_Config Ss_Obfs Ss_Ticket
    Ss_Legacy Ss_Udp Ss_Xhttp Ss_Carriers Shadow_Handshake Vless_Mux Vless_Xmux Vless_Bridge Vless_Reality Control_Plane
begin

text \<open>
  NeonCore Atlas, the proxy core: a verification library.

  \<^bold>\<open>The program.\<close> The kernel (\<open>crates/neoncore-kernel\<close>) accepts SOCKS5 and HTTP clients, routes each
  connection or datagram to a node, and reaches the node through an outbound adapter (direct, HTTP,
  VLESS, AnyTLS, Shadowsocks, Hysteria2). Beside it, small crates decide what happens to packets of
  a TUN device (\<open>neoncore-ip-stack\<close>, \<open>neoncore-routing\<close>, \<open>neoncore-dns\<close>, \<open>neoncore-tun\<close>). A client's bytes
  go through \<open>main.rs\<close> (protocol, target), \<open>routing.rs\<close> (node), \<open>adapter/mod.rs\<close> (adapter), and then through
  the layers of the adapter: for Shadowsocks a transport (obfuscation, ShadowTLS, XHTTP, \<open>...\<close>), the cipher, the
  ShadowsocksR protocol; for VLESS the transport, Vision, the request. Datagrams share connections (the mux worker,
  UDP over TCP, direct sockets), and \<open>packet_session.rs\<close> gives each reply to the request that waits for it.

  \<^bold>\<open>Conventions\<close> (\<open>Prelude\<close>). Machine integers are words or naturals with their bound; a Rust
  \<open>Result\<close> is a sum whose left side is an error or \<open>Panic\<close> (an index, slice or arithmetic fault), so
  every early return and every fault of the code is a branch of the model. A stream is the list of
  bytes the peer still sends; reads that may return fewer bytes than asked for are lists of reads.
  Text is a list of bytes seen as characters; \<open>Rust_Text\<close>, \<open>Rust_Lines\<close>, \<open>Rust_Net\<close> and \<open>Ipv6_Text\<close> model the
  parts of the standard library that the code uses (UTF-8 validity, splitting, trimming, number and address parsing
  and printing). Asynchronous streams are polled (\<open>Poll_Io\<close>): a poll gives a value, an error or \<open>Pending\<close>, and a
  transport is a script of what its next polls do. Tasks that share state are one state with a step for each thing
  a task does; an interleaving is a sequence of steps. Packages outside the repository (ciphers and hashes, TLS, h2,
  QUIC, kcp, smux), random values and the clock are arguments of the definitions that use them; what a proof relies
  on is a hypothesis (for example that decryption undoes encryption).

  \<^bold>\<open>Interfaces.\<close> \<open>frame_decoder\<close> (Prelude): append what arrives, take whole frames off the front; gRPC hunks, XUDP,
  AnyTLS frames and ticket records are instances. \<open>address_codec\<close> (Kernel_Session) and \<open>address_tags\<close> (Address_Codec):
  self-delimiting addresses; VLESS, SOCKS and AnyTLS. \<open>reply_demux\<close> (Packet_Session): a demultiplexer that refines
  the abstract queue of waiters; the kernel's is its instance. \<open>udp_lane\<close> (Packet_Lane): a connection whose commands
  run the demultiplexer with fresh numbers; both UDP ways of Shadowsocks and the VLESS mux worker. \<open>pending_writer\<close>
  (Poll_Io): a stream that may hold a transformed write; the obfuscation, ticket and ShadowsocksR streams.
  \<open>frame_codec\<close>, \<open>buffered_codec\<close>, \<open>framed_codec\<close> (Ssr_Frames): codecs that cut frames out of a receive buffer; the
  ShadowsocksR protocols and both ShadowTLS record layers. \<open>message_stream\<close> (Ss_Carriers): HTTP/2 and WebSocket.
  \<open>packet_parser\<close> (Tun_Engine): what the engine needs of the parser. Each locale's lemmas are proved once and used
  through its interpretations.

  \<^bold>\<open>Packet path.\<close> \<open>Ip_Stack\<close> (parser; never panics, accepts what the RFC layouts build), \<open>Routing_Table\<close> (rules, CIDR),
  \<open>Tun_Engine\<close> (DNS hijack and the decision for a packet).

  \<^bold>\<open>Kernel.\<close> \<open>Kernel_Session\<close> (\<open>session.rs\<close>, \<open>connection.rs\<close>), \<open>Kernel_Router\<close> (\<open>routing.rs\<close>; the first enabled rule decides),
  \<open>Kernel_Runtime\<close> (\<open>adapter/mod.rs\<close>, \<open>outbound.rs\<close>, \<open>direct.rs\<close>, \<open>http.rs\<close>; connections follow the router),
  \<open>Kernel_Inbound\<close> (\<open>main.rs\<close>; SOCKS5, UDP association with its bound of tasks, HTTP), \<open>Kernel_Dns\<close> (\<open>dns.rs\<close>),
  \<open>Packet_Session\<close> (every waiter is answered once; refinement of the abstract queue), \<open>Buffer_Pool\<close>.

  \<^bold>\<open>VLESS\<close> (\<open>adapter/vless.rs\<close>). \<open>Vless_Config\<close> (node, transport plan, table of mux workers), \<open>Vless_Grpc\<close> (hunks),
  \<open>Vless_Codec\<close> (request, addresses, XUDP), \<open>Vless_Vision\<close> (padding and both unpadding decoders, which agree; the
  uplink arrives), \<open>Vless_Mux\<close> (the worker that carries datagrams: what it writes decodes to what it was given,
  and each request is answered once), \<open>Vless_Xmux\<close> (shared HTTP/2 connections and their limits),
  \<open>Vless_Bridge\<close> (a connection end to end: connect, the bridge in both directions, the HTTP/2 body),
  \<open>Vless_Reality\<close> (\<open>adapter/reality.rs\<close>: the session id that a REALITY server recognises).

  \<^bold>\<open>Around the kernel.\<close> \<open>Control_Plane\<close> (\<open>neoncore-core\<close>, \<open>neoncore-engine\<close>, \<open>neoncore-api\<close>, \<open>neoncore-cli\<close>, \<open>neoncore-daemon\<close>,
  \<open>neoncore-updater\<close>, \<open>neoncore-tun2proxy\<close>: profile, engine, messages, commands).

  \<^bold>\<open>AnyTLS\<close> (\<open>adapter/anytls.rs\<close>). \<open>Anytls_Codec\<close> (frames, padding scheme), \<open>Anytls_Session\<close> (streams of a connection are
  isolated, channels settle once), \<open>Anytls_Client\<close> (idle pool, reads, UDP). \<^bold>\<open>Hysteria2\<close>: \<open>Hysteria2\<close>.

  \<^bold>\<open>Shadowsocks\<close> (\<open>adapter/shadowsocks\<close>). Configuration: \<open>Ss_Options\<close>, \<open>Ss_Config\<close>, \<open>Ss_Address\<close>. Streams: \<open>Poll_Io\<close>,
  \<open>Ss_Obfs\<close> (simple-obfs, ShadowsocksR HTTP, random head), \<open>Ss_Ticket\<close>, \<open>Ss_Legacy\<close> (ciphers, IV exchange, client
  stream). ShadowsocksR: \<open>Ssr_Frames\<close>, \<open>Ssr_Codecs\<close> (verify, auth_sha1, auth_aes128), \<open>Ssr_Chain\<close> (auth_chain_a to f),
  \<open>Ssr_Client\<close> (the stream over any codec, and datagrams). Transports: \<open>Shadow_Tls\<close>, \<open>Shadow_Handshake\<close>,
  \<open>Ss_Xhttp\<close> (replies, keep-alive posts, the cutting of uploads), \<open>Ss_Carriers\<close> (HTTP/2, WebSocket, the kcptun pool,
  plugin processes). Datagrams: \<open>Packet_Lane\<close>, \<open>Ss_Udp\<close> (UDP over TCP and direct, their pools, \<open>send_udp\<close>, \<open>connect\<close>).

  \<^bold>\<open>What the lemmas show.\<close> Codecs: a decoder undoes the encoder however the stream is cut. Streams: what a peer reads is
  what was written, once and in order, under \<open>Pending\<close> and partial writes, or the case where it is not is stated.
  Demultiplexers, pools and tables: an invariant that every step keeps, and what it gives the caller.
  Configuration: every accepted configuration is within its bounds. Errors: each refused input has its error.
  Theorems that state a fault of the code say so in their text.

  \<^bold>\<open>Recursion and fuel.\<close> Loops over a buffer are functions whose termination is proved (each turn shortens the buffer, or
  a budget). The loop of the key derivation has the key length as fuel, because each round adds at least one byte,
  and is shown to reach it. Callers that write until done (\<open>write_all\<close>, \<open>pump\<close>) have the number of polls as fuel; a theorem
  about them says which script is long enough. The read loop of ShadowsocksR may poll for ever and is a
  \<open>partial_function\<close>; that it returns is part of its theorem. The retries of plugins have the bounds of the code
  (32 ports, 16 processes, 50 probes, 2 streams).

  \<^bold>\<open>Abstractions.\<close> A send on a lane is one step from its registration to its write, where the code lets the reader run between
  the two; choosing a shared HTTP/2 connection and counting its use is one step, where the code unlocks between them.
  Time-outs are events. Maps are association lists; the order of a hash map is never used.

  \<^bold>\<open>Not modelled.\<close> The TLS and QUIC packages and what they are set up with.
  The switch of Vision to the raw connection: it takes a rustls stream apart. XHTTP over HTTP/3, the set-up
  of sockets and TLS connections: calls into packages. The kcptun rate limiter: floating point. The relay of
  \<open>flow.rs\<close> and the TCP options: thin wrappers of tokio. Parsing of command lines and
  serialisation: packages.
\<close>

end
